(* ===== verification/Prelude.thy ===== *)
theory Prelude
  imports "HOL-Library.Word" "HOL-Library.Monad_Syntax"
begin

text \<open>
  Shared vocabulary of the development.

  The kernel is 32-bit C. Its unsigned integers are words (\<open>u8\<close>, \<open>u16\<close>, \<open>u32\<close>: arithmetic
  wraps as in C), its \<open>int\<close> results are HOL integers, and its pointers are \<open>u32\<close> addresses with
  \<open>NULL\<close> for 0. An operation that can go wrong in a way C leaves undefined (an array index past the
  end, a dereference of a null or dangling pointer, a string copied past its buffer) or that may
  not return has an \<open>option\<close> result: \<open>None\<close> is that failure. An error the code reports itself is
  an ordinary result, the error code or null pointer the function returns.

  Three kinds of loop occur in the sources and have one combinator each: \<open>for_range\<close> runs a body
  that may fail over a range of indices, \<open>find_first\<close> searches a range for the first index with
  a property, and a walk over a linked list is a \<open>partial_function\<close> of its own component.
\<close>

unbundle bit_operations_syntax

type_synonym u8 = "8 word"
type_synonym u16 = "16 word"
type_synonym u32 = "32 word"
type_synonym ptr = "32 word"
type_synonym bytes = "8 word list"

abbreviation NULL :: ptr where
  "NULL \<equiv> 0"

named_theorems c_simps \<open>reads and writes of C arrays, loops over them\<close>
named_theorems wf_intros \<open>operations preserve their component's well-formedness\<close>
named_theorems lit_simps \<open>characters of C string literals\<close>

section \<open>Failure\<close>

text \<open>\<open>require b\<close> continues when the C execution is defined, and fails otherwise.\<close>

definition require :: "bool \<Rightarrow> unit option" where
  "require b = (if b then Some () else None)"

lemma require_simps [simp]: "require True = Some ()" "require False = None"
  by (simp_all add: require_def)

lemma require_eq_Some [simp]: "require b = Some u \<longleftrightarrow> b"
  by (simp add: require_def)

lemma require_bind [c_simps]: "b \<Longrightarrow> Option.bind (require b) f = f ()"
  by simp

section \<open>Fixed-size arrays\<close>

text \<open>A read or a write past the end of an array is undefined in C.\<close>

definition arr_get :: "'a list \<Rightarrow> nat \<Rightarrow> 'a option" where
  "arr_get xs i = (if i < length xs then Some (xs ! i) else None)"

definition arr_set :: "'a list \<Rightarrow> nat \<Rightarrow> 'a \<Rightarrow> 'a list option" where
  "arr_set xs i x = (if i < length xs then Some (xs[i := x]) else None)"

lemma arr_get_in [simp, c_simps]: "i < length xs \<Longrightarrow> arr_get xs i = Some (xs ! i)"
  by (simp add: arr_get_def)

lemma arr_get_out: "\<not> i < length xs \<Longrightarrow> arr_get xs i = None"
  by (simp add: arr_get_def)

lemma arr_set_in [simp, c_simps]: "i < length xs \<Longrightarrow> arr_set xs i x = Some (xs[i := x])"
  by (simp add: arr_set_def)

lemma arr_set_out: "\<not> i < length xs \<Longrightarrow> arr_set xs i x = None"
  by (simp add: arr_set_def)

lemma arr_get_SomeD: "arr_get xs i = Some x \<Longrightarrow> i < length xs \<and> x = xs ! i"
  by (auto simp: arr_get_def split: if_splits)

lemma arr_set_SomeD: "arr_set xs i x = Some ys \<Longrightarrow> i < length xs \<and> ys = xs[i := x]"
  by (auto simp: arr_set_def split: if_splits)

section \<open>Counting loops\<close>

text \<open>\<open>for_range i n f s\<close> runs \<open>f\<close> for the \<open>n\<close> indices from \<open>i\<close> on.\<close>

fun for_range :: "nat \<Rightarrow> nat \<Rightarrow> (nat \<Rightarrow> 's \<Rightarrow> 's option) \<Rightarrow> 's \<Rightarrow> 's option" where
  "for_range i 0 f s = Some s"
| "for_range i (Suc n) f s = Option.bind (f i s) (for_range (Suc i) n f)"

lemma for_range_inv:
  assumes step: "\<And>j s. i \<le> j \<Longrightarrow> j < i + n \<Longrightarrow> I j s \<Longrightarrow> \<exists>s'. f j s = Some s' \<and> I (Suc j) s'"
    and start: "I i s"
  shows "\<exists>s'. for_range i n f s = Some s' \<and> I (i + n) s'"
  using assms
proof (induction n arbitrary: i s)
  case 0
  then show ?case by simp
next
  case (Suc n)
  obtain s' where s': "f i s = Some s'" "I (Suc i) s'"
    using Suc.prems(1)[of i s] Suc.prems(2) by auto
  have "\<exists>t. for_range (Suc i) n f s' = Some t \<and> I (Suc i + n) t"
    by (rule Suc.IH) (use Suc.prems(1) s'(2) in auto)
  then show ?case using s'(1) by auto
qed

text \<open>A loop whose body cannot fail is a fold over its indices.\<close>

lemma for_range_total [c_simps]:
  "for_range i n (\<lambda>j s. Some (g j s)) s = Some (fold g [i..<i + n] s)"
proof (induction n arbitrary: i s)
  case 0
  then show ?case by simp
next
  case (Suc n)
  have "[i..<i + Suc n] = i # [Suc i..<Suc i + n]"
    by (simp add: upt_conv_Cons)
  with Suc show ?case by simp
qed

section \<open>Searching loops\<close>

text \<open>\<open>find_first i n P\<close> is the first of the \<open>n\<close> indices from \<open>i\<close> on that satisfies \<open>P\<close>.\<close>

fun find_first :: "nat \<Rightarrow> nat \<Rightarrow> (nat \<Rightarrow> bool) \<Rightarrow> nat option" where
  "find_first i 0 P = None"
| "find_first i (Suc n) P = (if P i then Some i else find_first (Suc i) n P)"

lemma find_first_None:
  "find_first i n P = None \<longleftrightarrow> (\<forall>j. i \<le> j \<and> j < i + n \<longrightarrow> \<not> P j)"
proof (induction n arbitrary: i)
  case 0
  then show ?case by auto
next
  case (Suc n)
  show ?case
  proof (cases "P i")
    case True
    then show ?thesis by (auto intro: exI[of _ i])
  next
    case False
    have "(\<forall>j. Suc i \<le> j \<and> j < Suc i + n \<longrightarrow> \<not> P j) \<longleftrightarrow> (\<forall>j. i \<le> j \<and> j < i + Suc n \<longrightarrow> \<not> P j)"
      using False by (auto simp: Suc_le_eq) (metis le_neq_implies_less)
    with False Suc show ?thesis by simp
  qed
qed

lemma find_first_Some:
  "find_first i n P = Some k \<longleftrightarrow> i \<le> k \<and> k < i + n \<and> P k \<and> (\<forall>j. i \<le> j \<and> j < k \<longrightarrow> \<not> P j)"
proof (induction n arbitrary: i)
  case 0
  then show ?case by simp
next
  case (Suc n)
  show ?case
  proof (cases "P i")
    case True
    then show ?thesis by (auto simp: not_less_eq_eq dest: le_neq_implies_less)
  next
    case False
    have "(Suc i \<le> k \<and> k < Suc i + n \<and> P k \<and> (\<forall>j. Suc i \<le> j \<and> j < k \<longrightarrow> \<not> P j)) \<longleftrightarrow>
      (i \<le> k \<and> k < i + Suc n \<and> P k \<and> (\<forall>j. i \<le> j \<and> j < k \<longrightarrow> \<not> P j))"
      using False by (auto simp: Suc_le_eq) (metis le_neq_implies_less)+
    with False Suc show ?thesis by simp
  qed
qed

lemma find_first_SomeD:
  assumes "find_first 0 n P = Some k"
  shows "k < n" and "P k" and "\<And>j. j < k \<Longrightarrow> \<not> P j"
  using assms by (auto simp: find_first_Some)

lemma find_first_least:
  assumes "P k" "k < n" "\<And>j. j < k \<Longrightarrow> \<not> P j"
  shows "find_first 0 n P = Some k"
  using assms by (simp add: find_first_Some)

lemma find_first_cong:
  "(\<And>j. i \<le> j \<Longrightarrow> j < i + n \<Longrightarrow> P j = Q j) \<Longrightarrow> find_first i n P = find_first i n Q"
  by (induction n arbitrary: i) auto

lemma find_first_shift: "find_first (a + i) n P = map_option ((+) a) (find_first i n (\<lambda>j. P (a + j)))"
  by (induction n arbitrary: i) (auto simp flip: add_Suc_right)

lemma find_first_append:
  "find_first i (a + b) P =
     (case find_first i a P of Some k \<Rightarrow> Some k | None \<Rightarrow> find_first (i + a) b P)"
  by (induction a arbitrary: i) (auto split: option.splits)

section \<open>Words and bits\<close>

text \<open>C's \<open>1 << k\<close>, and the tests and updates \<open>w & (1 << k)\<close>, \<open>w | (1 << k)\<close>, \<open>w & ~(1 << k)\<close>.\<close>

definition shl1 :: "nat \<Rightarrow> 'a::len word" where
  "shl1 k = push_bit k 1"

lemma bit_shl1 [simp]: "bit (shl1 k :: 'a::len word) j \<longleftrightarrow> j = k \<and> k < LENGTH('a)"
  by (auto simp: shl1_def bit_simps)

lemma and_shl1_eq_0 [simp]: "(w AND shl1 k = (0 :: 'a::len word)) \<longleftrightarrow> \<not> bit w k"
  by (simp add: shl1_def and_exp_eq_0_iff_not_bit)

lemma bit_or_shl1 [simp]: "bit (w OR shl1 k :: 'a::len word) j \<longleftrightarrow> (j = k \<and> k < LENGTH('a)) \<or> bit w j"
  by (auto simp: bit_or_iff)

lemma bit_andnot_shl1 [simp]:
  "bit (w AND NOT (shl1 k) :: 'a::len word) j \<longleftrightarrow> bit w j \<and> j \<noteq> k"
  by (auto simp: bit_and_iff bit_not_iff dest: bit_imp_le_length)

lemma unat_add_no_wrap: "unat a + unat b < 2 ^ 32 \<Longrightarrow> unat (a + b :: u32) = unat a + unat b"
  by (simp add: unat_word_ariths)

lemma unat_sub_le: "b \<le> a \<Longrightarrow> unat (a - b :: 'a::len word) = unat a - unat b"
  by (rule unat_sub)

lemma of_nat_unat_less: "n < 2 ^ 32 \<Longrightarrow> unat (of_nat n :: u32) = n"
  by (simp add: unat_of_nat take_bit_nat_eq_self)

lemma unat_eq_of_nat: "unat (x :: u32) = n \<Longrightarrow> x = of_nat n"
  by auto

lemma unat_inject [simp]: "unat (x :: u32) = unat y \<longleftrightarrow> x = y"
  by (simp add: word_unat_eq_iff)

lemma unat_lt_32: "unat (x :: u32) < 2 ^ 32"
  using unsigned_less[of x, where ?'a = nat] by simp

lemma unat_lt_32' [simp]: "unat (x :: u32) < 4294967296"
  using unat_lt_32[of x] by simp

lemma sint_small: "unat (x :: u32) < 2 ^ 31 \<Longrightarrow> sint x = int (unat x)"
proof -
  assume "unat x < 2 ^ 31"
  then have u: "int (unat x) < 2 ^ 31"
    by (metis of_nat_less_iff of_nat_numeral of_nat_power)
  have e: "uint x = int (unat x)" by simp
  have "signed_take_bit 31 (uint x) = uint x" unfolding e by (rule signed_take_bit_int_eq_self[OF order_trans[of _ 0] u]) simp_all
  then show ?thesis by (simp add: sint_uint)
qed

text \<open>Pages of 4096 bytes: the page mask, and the words of a page.\<close>

lemma page_mask: "(0xFFFFF000 :: u32) = NOT (mask 12)"
  by (simp add: mask_eq_exp_minus_1)

lemma page_sub: "(x :: u32) AND 0xFFFFF000 = x - x mod 4096"
proof -
  have "x = (x AND NOT (mask 12)) + (x AND mask 12)"
    by (subst disjunctive_add) (auto simp: bit_simps bit_eq_iff)
  moreover have "x AND mask 12 = x mod 4096" by (simp flip: take_bit_eq_mask add: take_bit_eq_mod)
  ultimately show ?thesis unfolding page_mask by (metis add_diff_cancel_right')
qed

lemma unat_page: "unat ((x :: u32) AND 0xFFFFF000) = 4096 * (unat x div 4096)"
proof -
  have "unat (x mod 4096) = unat x mod 4096" by (simp add: unat_mod_distrib)
  moreover have "x mod 4096 \<le> x" by (simp add: word_le_nat_alt calculation)
  ultimately show ?thesis unfolding page_sub
    by (simp add: unat_sub_le) (metis minus_mod_eq_mult_div)
qed

definition aligned :: "ptr \<Rightarrow> bool" where
  "aligned p \<longleftrightarrow> unat p mod 4096 = 0"

lemma aligned_page [simp]: "aligned (x AND 0xFFFFF000)"
  by (simp add: aligned_def unat_page)

lemma aligned_block: "b < 2 ^ 20 \<Longrightarrow> aligned (of_nat (4096 * b)) \<and> unat (of_nat (4096 * b) :: u32) = 4096 * b"
  using of_nat_unat_less[of "4096 * b"] by (simp add: aligned_def del: of_nat_mult)

lemma alignedE:
  assumes "aligned p"
  obtains k where "unat p = 4096 * k" "k < 1048576"
proof -
  have e: "unat p = 4096 * (unat p div 4096)" using assms by (simp add: aligned_def mod_0_imp_dvd)
  moreover have "unat p < 4294967296" by simp
  ultimately have "unat p div 4096 < 1048576" by linarith
  with e show ?thesis using that by blast
qed

lemma unat_page_word:
  assumes "aligned p" "i < 1024"
  shows "unat (p + 4 * of_nat i) = unat p + 4 * i"
proof -
  obtain k where k: "unat p = 4096 * k" "k < 1048576" using assms(1) by (rule alignedE)
  have four: "unat (4 * of_nat i :: u32) = 4 * i"
    using of_nat_unat_less[of "4 * i"] assms(2) by simp
  have "unat p + unat (4 * of_nat i :: u32) < 2 ^ 32" unfolding four using k assms(2) by simp
  then show ?thesis using four by (simp add: unat_add_no_wrap)
qed

lemma page_word_eq:
  assumes "aligned p" "aligned q" "i < 1024" "j < 1024"
  shows "p + 4 * of_nat i = q + 4 * of_nat j \<longleftrightarrow> p = q \<and> i = j"
proof
  assume "p + 4 * of_nat i = q + 4 * of_nat j"
  then have eq: "unat p + 4 * i = unat q + 4 * j"
    using unat_page_word[OF assms(1,3)] unat_page_word[OF assms(2,4)] by metis
  obtain k where k: "unat p = 4096 * k" using assms(1) by (rule alignedE)
  obtain l where l: "unat q = 4096 * l" using assms(2) by (rule alignedE)
  have "k = (4096 * k + 4 * i) div 4096" using assms(3) by simp
  also have "\<dots> = (4096 * l + 4 * j) div 4096" using eq k l by simp
  also have "\<dots> = l" using assms(4) by simp
  finally have "unat p = unat q \<and> i = j" using eq k l by simp
  then show "p = q \<and> i = j" by simp
qed simp

section \<open>C strings\<close>

text \<open>
  A C string is the list of its bytes before the terminating zero. \<open>cstr\<close> gives the bytes of a
  literal, \<open>c_string\<close> says that a list holds no zero, so that it is a string's content.
\<close>

type_synonym cstring = "8 word list"

definition cstr :: "string \<Rightarrow> cstring" where
  "cstr s = map of_char s"

lemma cstr_simps [simp]: "cstr [] = []" "cstr (c # cs) = of_char c # cstr cs"
  by (simp_all add: cstr_def)

definition c_string :: "cstring \<Rightarrow> bool" where
  "c_string s \<longleftrightarrow> 0 \<notin> set s"

text \<open>\<open>strcmp (s1, s2) == 0\<close>: the loop over two strings, as every file of the kernel has it.\<close>

fun strcmp_eq :: "cstring \<Rightarrow> cstring \<Rightarrow> bool" where
  "strcmp_eq [] [] = True"
| "strcmp_eq (a # as) (b # bs) = (a = b \<and> strcmp_eq as bs)"
| "strcmp_eq _ _ = False"

lemma strcmp_eq_iff [simp]: "strcmp_eq s t \<longleftrightarrow> s = t"
  by (induction s t rule: strcmp_eq.induct) auto

text \<open>
  Copying into a buffer of \<open>n\<close> bytes: \<open>strcpy_buf\<close> is the unchecked \<open>strcpy\<close> (a string that
  does not fit with its zero overruns the buffer), \<open>strncpy_buf\<close> the bounded copy that always
  terminates the result.
\<close>

definition strcpy_buf :: "nat \<Rightarrow> cstring \<Rightarrow> cstring option" where
  "strcpy_buf n s = (if length s < n then Some s else None)"

definition strncpy_buf :: "nat \<Rightarrow> cstring \<Rightarrow> cstring" where
  "strncpy_buf n s = take (n - 1) s"

lemma strncpy_buf_fits: "0 < n \<Longrightarrow> length (strncpy_buf n s) < n"
  by (simp add: strncpy_buf_def)

lemma strncpy_buf_id: "length s < n \<Longrightarrow> strncpy_buf n s = s"
  by (simp add: strncpy_buf_def)

lemma c_string_take [simp, intro]: "c_string s \<Longrightarrow> c_string (take n s)"
  by (auto simp: c_string_def dest: in_set_takeD)

section \<open>Integers in memory\<close>

text \<open>The machine is little-endian: the bytes of a 16-bit and of a 32-bit integer.\<close>

definition le16 :: "u16 \<Rightarrow> bytes" where
  "le16 w = [ucast w, ucast (drop_bit 8 w)]"

fun of_le16 :: "bytes \<Rightarrow> u16" where
  "of_le16 (a # b # _) = ucast a OR push_bit 8 (ucast b)"
| "of_le16 _ = 0"

definition le32 :: "u32 \<Rightarrow> bytes" where
  "le32 w = [ucast w, ucast (drop_bit 8 w), ucast (drop_bit 16 w), ucast (drop_bit 24 w)]"

fun of_le32 :: "bytes \<Rightarrow> u32" where
  "of_le32 (a # b # c # d # _) = ucast a OR push_bit 8 (ucast b) OR push_bit 16 (ucast c) OR push_bit 24 (ucast d)"
| "of_le32 _ = 0"

lemma of_le16_le16 [simp]: "of_le16 (le16 w @ xs) = w"
  by (intro bit_eqI) (auto simp: le16_def bit_simps)

lemma of_le32_le32 [simp]: "of_le32 (le32 w @ xs) = w"
  by (intro bit_eqI, auto simp: le32_def bit_simps, rule ccontr) simp

lemma le32_of_le32: "le32 (of_le32 [a, b, c, d]) = [a, b, c, d]"
  by (simp add: le32_def, intro conjI bit_eqI) (auto simp: bit_simps dest: bit_imp_le_length)

lemma length_le [simp]: "length (le16 w) = 2" "length (le32 v) = 4"
  by (simp_all add: le16_def le32_def)

end
