(* ===== verification/Allocator.thy ===== *)
theory Allocator
  imports Prelude
begin

text \<open>
  The interface of the kernel heap for its clients, the task manager and the file systems: an
  operation that hands out a region of at least the bytes asked for, or \<open>NULL\<close>, and an operation
  that takes a region back. \<open>extents\<close> is the set of regions handed out (address, size). A client
  keeps its objects of one C type in a store from addresses to values; the lemmas show that the
  store of a client is never disturbed by an allocation, and that a new object never lands on an
  old one. The heap of \<open>kmalloc.c\<close> is the instance, in the theory that models it.
\<close>

locale allocator =
  fixes inv :: "'h \<Rightarrow> bool"
    and extents :: "'h \<Rightarrow> (nat \<times> nat) set"
    and alloc :: "u32 \<Rightarrow> 'h \<Rightarrow> (ptr \<times> 'h) option"
    and release :: "ptr \<Rightarrow> 'h \<Rightarrow> 'h option"
  assumes alloc_run: "inv h \<Longrightarrow> \<exists>p h'. alloc n h = Some (p, h') \<and> inv h' \<and>
      (p = NULL \<and> h' = h \<or>
       p \<noteq> NULL \<and> (\<exists>s. (n \<le> 0xFFFFFFFC \<longrightarrow> unat n \<le> s) \<and> extents h' = insert (unat p, s) (extents h) \<and>
         (\<forall>t. (unat p, t) \<notin> extents h)))"
    and release_run: "inv h \<Longrightarrow> (unat p, s) \<in> extents h \<Longrightarrow>
      \<exists>h'. release p h = Some h' \<and> inv h' \<and> extents h' = extents h - {(unat p, s)}"
    and release_NULL: "release NULL h = Some h"
    and disjoint: "inv h \<Longrightarrow> (a, s) \<in> extents h \<Longrightarrow> (b, t) \<in> extents h \<Longrightarrow>
      (a, s) = (b, t) \<or> a + s < b \<or> b + t < a"
    and not_null: "inv h \<Longrightarrow> (a, s) \<in> extents h \<Longrightarrow> 0 < a"
begin

definition live :: "'h \<Rightarrow> ptr set" where
  "live h = {p. \<exists>s. (unat p, s) \<in> extents h}"

definition store_ok :: "'h \<Rightarrow> (ptr \<rightharpoonup> 'a) \<Rightarrow> bool" where
  "store_ok h st \<longleftrightarrow> dom st \<subseteq> live h"

lemma live_not_NULL: "inv h \<Longrightarrow> NULL \<notin> live h"
  using not_null by (force simp: live_def)

lemma live_insert: "extents h' = insert (unat p, s) (extents h) \<Longrightarrow> live h' = insert p (live h)"
  unfolding live_def by (rule set_eqI) (simp, blast)

lemma alloc_SomeD:
  assumes "inv h" "alloc n h = Some (p, h')"
  shows "inv h'" and "p = NULL \<Longrightarrow> h' = h" and "p \<noteq> NULL \<Longrightarrow> p \<notin> live h"
    and "p \<noteq> NULL \<Longrightarrow> live h' = insert p (live h)"
    and "p \<noteq> NULL \<Longrightarrow> n \<le> 0xFFFFFFFC \<Longrightarrow> \<exists>s\<ge>unat n. extents h' = insert (unat p, s) (extents h)"
proof -
  from alloc_run[OF assms(1), of n] assms(2) have inv': "inv h'" and
      cs: "p = NULL \<and> h' = h \<or> p \<noteq> NULL \<and> (\<exists>s. (n \<le> 0xFFFFFFFC \<longrightarrow> unat n \<le> s) \<and>
        extents h' = insert (unat p, s) (extents h) \<and> (\<forall>t. (unat p, t) \<notin> extents h))"
    by (metis option.inject prod.inject)+
  show "inv h'" by fact
  show "p = NULL \<Longrightarrow> h' = h" using cs by blast
  show "p \<noteq> NULL \<Longrightarrow> p \<notin> live h" using cs by (auto simp: live_def)
  show "p \<noteq> NULL \<Longrightarrow> live h' = insert p (live h)" using cs live_insert by metis
  show "p \<noteq> NULL \<Longrightarrow> n \<le> 0xFFFFFFFC \<Longrightarrow> \<exists>s\<ge>unat n. extents h' = insert (unat p, s) (extents h)"
    using cs by blast
qed

lemma alloc_ex: "inv h \<Longrightarrow> \<exists>p h'. alloc n h = Some (p, h') \<and> inv h'"
  using alloc_run by blast

lemma release_live:
  assumes "inv h" "p \<in> live h"
  shows "\<exists>h'. release p h = Some h' \<and> inv h' \<and> live h' = live h - {p}"
proof -
  from assms obtain s where s: "(unat p, s) \<in> extents h" by (auto simp: live_def)
  with release_run[OF assms(1) s] obtain h' where h': "release p h = Some h'" "inv h'"
      "extents h' = extents h - {(unat p, s)}" by blast
  have "t = s" if "(unat p, t) \<in> extents h" for t
    using disjoint[OF assms(1) s that] by auto
  then have "(\<exists>t. (unat x, t) \<in> extents h') \<longleftrightarrow> (\<exists>t. (unat x, t) \<in> extents h) \<and> x \<noteq> p" for x
    unfolding h'(3) by (cases "x = p") auto
  then have "live h' = live h - {p}" unfolding live_def by blast
  with h' show ?thesis by blast
qed

lemma live_mono: "inv h \<Longrightarrow> alloc n h = Some (p, h') \<Longrightarrow> live h \<subseteq> live h'"
  using alloc_SomeD[of h n p h'] by (cases "p = NULL") auto

lemma store_ok_alloc:
  assumes "inv h" "alloc n h = Some (p, h')" "store_ok h st"
  shows "store_ok h' st" and "p \<noteq> NULL \<Longrightarrow> st p = None" and "p \<noteq> NULL \<Longrightarrow> store_ok h' (st(p \<mapsto> x))"
proof -
  show "store_ok h' st" using live_mono[OF assms(1,2)] assms(3) by (auto simp: store_ok_def)
  show "st p = None" if "p \<noteq> NULL"
    using alloc_SomeD(3)[OF assms(1,2) that] assms(3) by (auto simp: store_ok_def)
  show "store_ok h' (st(p \<mapsto> x))" if "p \<noteq> NULL"
    using alloc_SomeD(4)[OF assms(1,2) that] assms(3) by (auto simp: store_ok_def)
qed

lemma store_ok_release:
  assumes "inv h" "p \<in> live h" "release p h = Some h'" "store_ok h st"
  shows "store_ok h' (st(p := None))"
  using release_live[OF assms(1,2)] assms(3,4) by (auto simp: store_ok_def split: if_splits)

lemma store_ok_NULL: "inv h \<Longrightarrow> store_ok h st \<Longrightarrow> st NULL = None"
  using live_not_NULL[of h] by (auto simp: store_ok_def)

lemma store_ok_upd: "store_ok h st \<Longrightarrow> p \<in> live h \<Longrightarrow> store_ok h (st(p \<mapsto> x))"
  by (auto simp: store_ok_def)

end

text \<open>
  The interface of the physical memory manager for paging: one frame of 4096 bytes at a time,
  numbered by address. \<open>used\<close> is the set of frames in use, \<open>limit\<close> the number of frames there are.
\<close>

locale frame_allocator =
  fixes inv :: "'f \<Rightarrow> bool"
    and used :: "'f \<Rightarrow> nat set"
    and limit :: "'f \<Rightarrow> nat"
    and alloc :: "'f \<Rightarrow> (ptr \<times> 'f) option"
    and free :: "ptr \<Rightarrow> 'f \<Rightarrow> 'f option"
  assumes alloc_run: "inv f \<Longrightarrow> alloc f = Some (NULL, f) \<or>
      (\<exists>b f'. alloc f = Some (of_nat (4096 * b), f') \<and> inv f' \<and> b < 2 ^ 20 \<and> b \<notin> used f \<and>
        used f' = insert b (used f) \<and> limit f' = limit f)"
    and free_run: "inv f \<Longrightarrow> unat p div 4096 \<in> used f \<Longrightarrow> unat p div 4096 < limit f \<Longrightarrow>
      \<exists>f'. free p f = Some f' \<and> inv f' \<and> used f' = used f - {unat p div 4096} \<and> limit f' = limit f"
begin

text \<open>A pointer into a frame in use.\<close>

definition in_use :: "'f \<Rightarrow> ptr \<Rightarrow> bool" where
  "in_use f p \<longleftrightarrow> unat p div 4096 \<in> used f"

lemma alloc_frame:
  assumes "inv f" "in_use f NULL" "alloc f = Some (p, f')"
  shows "inv f'" and "limit f' = limit f" and "in_use f q \<Longrightarrow> in_use f' q"
    and "p = NULL \<Longrightarrow> f' = f" and "aligned p"
    and "p \<noteq> NULL \<Longrightarrow> in_use f' p" and "p \<noteq> NULL \<Longrightarrow> \<not> in_use f p"
    and "p \<noteq> NULL \<Longrightarrow> used f' = insert (unat p div 4096) (used f)"
proof -
  consider (null) "p = NULL" "f' = f" | (some) b where "p = of_nat (4096 * b)" "inv f'" "b < 2 ^ 20"
      "b \<notin> used f" "used f' = insert b (used f)" "limit f' = limit f"
    using alloc_run[OF assms(1)] assms(3) by auto
  then have "inv f' \<and> limit f' = limit f \<and> (in_use f q \<longrightarrow> in_use f' q) \<and> (p = NULL \<longrightarrow> f' = f) \<and> aligned p \<and>
    (p \<noteq> NULL \<longrightarrow> in_use f' p \<and> \<not> in_use f p \<and> used f' = insert (unat p div 4096) (used f))"
  proof cases
    case null
    with assms show ?thesis by (simp add: aligned_def)
  next
    case some
    have u: "aligned p" "unat p = 4096 * b" using aligned_block[OF some(3)] some(1) by simp_all
    have "b \<noteq> 0" using some(4) assms(2) by (cases "b = 0") (auto simp: in_use_def)
    then have "p \<noteq> NULL" using u(2) by auto
    with some u show ?thesis by (auto simp: in_use_def)
  qed
  then show "inv f'" and "limit f' = limit f" and "in_use f q \<Longrightarrow> in_use f' q"
    and "p = NULL \<Longrightarrow> f' = f" and "aligned p"
    and "p \<noteq> NULL \<Longrightarrow> in_use f' p" and "p \<noteq> NULL \<Longrightarrow> \<not> in_use f p"
    and "p \<noteq> NULL \<Longrightarrow> used f' = insert (unat p div 4096) (used f)" by blast+
qed

lemma alloc_ex: "inv f \<Longrightarrow> \<exists>p f'. alloc f = Some (p, f')"
  using alloc_run by blast

text \<open>A new frame shares no word with a frame in use.\<close>

lemma alloc_fresh_word:
  assumes "inv f" "in_use f NULL" "alloc f = Some (p, f')" "p \<noteq> NULL"
    and "aligned q" "in_use f q" "i < 1024" "j < 1024"
  shows "p + 4 * of_nat i \<noteq> q + 4 * of_nat j"
  using alloc_frame(5,7)[OF assms(1-3)] assms(4-8) page_word_eq[of p q i j] by auto

end

end
