(* ===== verification/Kmalloc.thy ===== *)
theory Kmalloc
  imports Allocator
begin

text \<open>
  The kernel heap (\<open>src/src/mm/kmalloc.c\<close>): a singly linked list of blocks laid out one after
  the other, first-fit allocation with splitting, and freeing with merging of adjacent free
  blocks. The headers are modelled where the code puts them, in a memory from addresses to
  headers that the operations follow and update through pointers. The theory relates the list of
  headers to a list of segments (size, free?), proves that the pointer operations implement the
  functions on segments, and derives what a client relies on: termination, disjoint blocks of the
  size asked for, and that freeing undoes allocating.
\<close>

section \<open>State and operations\<close>

record heap_block =
  hb_size :: u32
  hb_is_free :: u32
  hb_next :: ptr

record heap =
  heap_start :: ptr
  heap_size :: u32
  hmem :: "ptr \<rightharpoonup> heap_block"

text \<open>\<open>sizeof (struct heap_block)\<close> and \<open>MIN_BLOCK_SIZE\<close>.\<close>

definition HDR :: u32 where "HDR = 12"
definition MIN_BLOCK_SIZE :: u32 where "MIN_BLOCK_SIZE = 16"

definition kmalloc_init :: "ptr \<Rightarrow> u32 \<Rightarrow> (ptr \<rightharpoonup> heap_block) \<Rightarrow> heap" where
  "kmalloc_init start sz m =
     \<lparr>heap_start = start, heap_size = sz,
      hmem = m(start \<mapsto> \<lparr>hb_size = sz - HDR, hb_is_free = 1, hb_next = NULL\<rparr>)\<rparr>"

partial_function (option) find_free_from :: "(ptr \<rightharpoonup> heap_block) \<Rightarrow> u32 \<Rightarrow> ptr \<Rightarrow> ptr option" where
  "find_free_from m sz current =
     (if current = NULL then Some NULL
      else Option.bind (m current) (\<lambda>b.
        if hb_is_free b \<noteq> 0 \<and> hb_size b \<ge> sz then Some current
        else find_free_from m sz (hb_next b)))"

definition find_free_block :: "u32 \<Rightarrow> heap \<Rightarrow> ptr option" where
  "find_free_block sz h = find_free_from (hmem h) sz (heap_start h)"

definition split_block :: "ptr \<Rightarrow> u32 \<Rightarrow> (ptr \<rightharpoonup> heap_block) \<Rightarrow> (ptr \<rightharpoonup> heap_block) option" where
  "split_block block sz m = do {
     b \<leftarrow> m block;
     if hb_size b \<ge> sz + HDR + MIN_BLOCK_SIZE
     then (let new_block = block + HDR + sz;
               m1 = m(new_block \<mapsto> \<lparr>hb_size = hb_size b - sz - HDR, hb_is_free = 1, hb_next = hb_next b\<rparr>)
           in Some (m1(block \<mapsto> b\<lparr>hb_size := sz, hb_next := new_block\<rparr>)))
     else Some m
   }"

partial_function (option) merge_from :: "(ptr \<rightharpoonup> heap_block) \<Rightarrow> ptr \<Rightarrow> (ptr \<rightharpoonup> heap_block) option" where
  "merge_from m current =
     (if current = NULL then Some m
      else Option.bind (m current) (\<lambda>c.
        if hb_next c = NULL then Some m
        else if hb_is_free c = 0 then merge_from m (hb_next c)
        else Option.bind (m (hb_next c)) (\<lambda>n.
          if hb_is_free n \<noteq> 0
          then merge_from (m(current \<mapsto> c\<lparr>hb_size := hb_size c + (HDR + hb_size n), hb_next := hb_next n\<rparr>)) current
          else merge_from m (hb_next c))))"

definition merge_free_blocks :: "heap \<Rightarrow> heap option" where
  "merge_free_blocks h = do { m \<leftarrow> merge_from (hmem h) (heap_start h); Some (h\<lparr>hmem := m\<rparr>) }"

definition align4 :: "u32 \<Rightarrow> u32" where
  "align4 sz = (if sz mod 4 \<noteq> 0 then sz + (4 - sz mod 4) else sz)"

definition kmalloc :: "u32 \<Rightarrow> heap \<Rightarrow> (ptr \<times> heap) option" where
  "kmalloc sz h =
     (if sz = 0 then Some (NULL, h)
      else do {
        let sz = align4 sz;
        block \<leftarrow> find_free_block sz h;
        if block = NULL then Some (NULL, h)
        else do {
          m \<leftarrow> split_block block sz (hmem h);
          b \<leftarrow> m block;
          Some (block + HDR, h\<lparr>hmem := m(block \<mapsto> b\<lparr>hb_is_free := 0\<rparr>)\<rparr>)
        }
      })"

definition kfree :: "ptr \<Rightarrow> heap \<Rightarrow> heap option" where
  "kfree p h =
     (if p = NULL then Some h
      else do {
        let block = p - HDR;
        b \<leftarrow> hmem h block;
        merge_free_blocks (h\<lparr>hmem := (hmem h)(block \<mapsto> b\<lparr>hb_is_free := 1\<rparr>)\<rparr>)
      })"

text \<open>\<open>kmalloc_stats\<close>: total, used and free bytes, headers included.\<close>

partial_function (option) stats_from :: "(ptr \<rightharpoonup> heap_block) \<Rightarrow> ptr \<Rightarrow> u32 \<Rightarrow> u32 \<Rightarrow> (u32 \<times> u32) option" where
  "stats_from m current used free_mem =
     (if current = NULL then Some (used, free_mem)
      else Option.bind (m current) (\<lambda>b.
        if hb_is_free b \<noteq> 0 then stats_from m (hb_next b) used (free_mem + (hb_size b + HDR))
        else stats_from m (hb_next b) (used + (hb_size b + HDR)) free_mem))"

definition kmalloc_stats :: "heap \<Rightarrow> (u32 \<times> u32 \<times> u32) option" where
  "kmalloc_stats h = do {
     (used, free_mem) \<leftarrow> stats_from (hmem h) (heap_start h) 0 0;
     Some (heap_size h, used, free_mem)
   }"

section \<open>Segments\<close>

text \<open>
  A heap as its client sees it: the sizes of its blocks in address order, each free or not. The
  code's header of a segment takes 12 bytes before its data.
\<close>

type_synonym segment = "nat \<times> bool"

fun seg_end :: "nat \<Rightarrow> segment list \<Rightarrow> nat" where
  "seg_end a [] = a"
| "seg_end a ((s, f) # xs) = seg_end (a + 12 + s) xs"

text \<open>
  \<open>chain m p a xs\<close>: the list of headers from \<open>p\<close> on is the segments \<open>xs\<close> laid out from \<open>a\<close>, below
  4 GiB and not in the first 16 bytes of memory (so that \<open>size + sizeof (header) + MIN_BLOCK_SIZE\<close> in
  \<open>split_block\<close> cannot wrap for a size that fits a block).
\<close>

fun chain :: "(ptr \<rightharpoonup> heap_block) \<Rightarrow> ptr \<Rightarrow> nat \<Rightarrow> segment list \<Rightarrow> bool" where
  "chain m p a [] \<longleftrightarrow> p = NULL"
| "chain m p a ((s, f) # xs) \<longleftrightarrow> p = of_nat a \<and> 16 \<le> a \<and> a + 12 + s < 2 ^ 32 \<and>
     (case m p of None \<Rightarrow> False
      | Some b \<Rightarrow> unat (hb_size b) = s \<and> (hb_is_free b \<noteq> 0) = f \<and> chain m (hb_next b) (a + 12 + s) xs)"

definition heap_rel :: "heap \<Rightarrow> segment list \<Rightarrow> bool" where
  "heap_rel h xs \<longleftrightarrow> xs \<noteq> [] \<and> chain (hmem h) (heap_start h) (unat (heap_start h)) xs \<and>
     seg_end (unat (heap_start h)) xs = unat (heap_start h) + unat (heap_size h)"

text \<open>The operations on segments: first fit, marking free, merging neighbours.\<close>

fun fit_spec :: "nat \<Rightarrow> nat \<Rightarrow> segment list \<Rightarrow> (nat \<times> segment list) option" where
  "fit_spec n a [] = None"
| "fit_spec n a ((s, f) # xs) =
     (if f \<and> n \<le> s
      then Some (a, if n + 28 \<le> s then (n, False) # (s - n - 12, True) # xs else (s, False) # xs)
      else map_option (\<lambda>(q, ys). (q, (s, f) # ys)) (fit_spec n (a + 12 + s) xs))"

fun release_spec :: "nat \<Rightarrow> nat \<Rightarrow> segment list \<Rightarrow> segment list" where
  "release_spec q a [] = []"
| "release_spec q a ((s, f) # xs) =
     (if a = q then (s, True) # xs else (s, f) # release_spec q (a + 12 + s) xs)"

fun coalesce :: "segment list \<Rightarrow> segment list" where
  "coalesce [] = []"
| "coalesce [x] = [x]"
| "coalesce ((s, f) # (t, g) # xs) =
     (if f \<and> g then coalesce ((s + 12 + t, True) # xs) else (s, f) # coalesce ((t, g) # xs))"

text \<open>The data areas handed out: address and size of every segment in use.\<close>

fun allocs :: "nat \<Rightarrow> segment list \<Rightarrow> (nat \<times> nat) set" where
  "allocs a [] = {}"
| "allocs a ((s, f) # xs) = (if f then {} else {(a + 12, s)}) \<union> allocs (a + 12 + s) xs"

lemma seg_end_ge: "a \<le> seg_end a xs"
  by (induction a xs rule: seg_end.induct) auto

lemma chain_end: "chain m p a xs \<Longrightarrow> a < 2 ^ 32 \<Longrightarrow> seg_end a xs < 2 ^ 32"
  by (induction m p a xs rule: chain.induct) (auto split: option.splits)

lemma chain_frame:
  "chain m p a xs \<Longrightarrow> (\<And>x. a \<le> unat x \<Longrightarrow> m' x = m x) \<Longrightarrow> chain m' p a xs"
proof (induction m p a xs arbitrary: rule: chain.induct)
  case (1 m p a)
  then show ?case by simp
next
  case (2 m p a s f xs)
  then have "unat p = a" by (simp add: of_nat_unat_less)
  then have "m' p = m p" using 2 by simp
  with 2 show ?case by (auto split: option.splits)
qed

lemma chain_Cons_ptr:
  assumes "chain m p a (x # xs)"
  shows "p = of_nat a" and "unat p = a" and "p \<noteq> NULL" and "a + 12 + fst x < 2 ^ 32"
proof -
  obtain s f where x: "x = (s, f)" by (cases x)
  show p: "p = of_nat a" and "a + 12 + fst x < 2 ^ 32" using assms x by simp_all
  have "16 \<le> a" "a < 2 ^ 32" using assms x by simp_all
  then show "unat p = a" unfolding p by (simp add: of_nat_unat_less)
  with \<open>16 \<le> a\<close> show "p \<noteq> NULL" by auto
qed

lemma chain_NULL: "chain m NULL a xs \<longleftrightarrow> xs = []"
  using chain_Cons_ptr(3)[of m NULL a] by (cases xs) auto

lemma chain_unique: "chain m p a xs \<Longrightarrow> chain m p a ys \<Longrightarrow> xs = ys"
proof (induction m p a xs arbitrary: ys rule: chain.induct)
  case (1 m p a)
  then show ?case by (simp add: chain_NULL)
next
  case (2 m p a s f xs)
  then have "p \<noteq> NULL" using chain_Cons_ptr(3) by blast
  with 2 show ?case by (cases ys) (auto split: option.splits)
qed

lemma heap_rel_unique: "heap_rel h xs \<Longrightarrow> heap_rel h ys \<Longrightarrow> xs = ys"
  by (auto simp: heap_rel_def intro: chain_unique)

section \<open>The pointer operations implement the segment operations\<close>

lemma find_free_from_chain:
  "chain m p a xs \<Longrightarrow> find_free_from m n p =
     Some (case fit_spec (unat n) a xs of Some (q, ys) \<Rightarrow> of_nat q | None \<Rightarrow> NULL)"
proof (induction m p a xs rule: chain.induct)
  case (1 m p a)
  then show ?case by (simp add: find_free_from.simps)
next
  case (2 m p a s f xs)
  from "2.prems" obtain b where b: "m p = Some b" "unat (hb_size b) = s" "(hb_is_free b \<noteq> 0) = f"
      "chain m (hb_next b) (a + 12 + s) xs" and p: "p = of_nat a"
    by (auto split: option.splits)
  have "p \<noteq> NULL" using chain_Cons_ptr(3)[OF "2.prems"] .
  then have "find_free_from m n p = (if f \<and> unat n \<le> s then Some p else find_free_from m n (hb_next b))"
    using b by (subst find_free_from.simps) (simp add: word_le_nat_alt)
  with "2.IH"[OF b(1,4)] show ?case by (auto simp: p split: option.splits)
qed

text \<open>The body of \<open>kmalloc\<close> on the block found: split it, then mark it used.\<close>

definition take_block :: "ptr \<Rightarrow> u32 \<Rightarrow> (ptr \<rightharpoonup> heap_block) \<Rightarrow> (ptr \<rightharpoonup> heap_block) option" where
  "take_block block sz m = do {
     m \<leftarrow> split_block block sz m;
     b \<leftarrow> m block;
     Some (m(block \<mapsto> b\<lparr>hb_is_free := 0\<rparr>))
   }"

lemma unat_plus_HDR: "unat x + 12 < 2 ^ 32 \<Longrightarrow> unat (x + HDR) = unat x + 12"
  by (subst unat_add_no_wrap) (simp_all add: HDR_def)

lemma take_block_head:
  assumes ch: "chain m p a ((s, True) # xs)" and n: "unat n \<le> s"
  shows "\<exists>m'. take_block p n m = Some m' \<and>
    chain m' p a (if unat n + 28 \<le> s then (unat n, False) # (s - unat n - 12, True) # xs
                  else (s, False) # xs) \<and>
    (\<forall>x. \<not> (a \<le> unat x \<and> unat x < a + 12 + s) \<longrightarrow> m' x = m x)"
proof -
  from ch obtain b where b: "m p = Some b" "unat (hb_size b) = s" "hb_is_free b \<noteq> 0"
      "chain m (hb_next b) (a + 12 + s) xs"
    by (auto split: option.splits)
  note p = chain_Cons_ptr[OF ch]
  have a0: "16 \<le> a" using ch by simp
  show ?thesis
  proof (cases "unat n + 28 \<le> s")
    case False
    have "unat (n + HDR + MIN_BLOCK_SIZE) = unat n + 28"
      using n p(4) a0 by (simp add: HDR_def MIN_BLOCK_SIZE_def unat_word_ariths)
    then have run: "take_block p n m = Some (m(p \<mapsto> b\<lparr>hb_is_free := 0\<rparr>))"
      using False b by (simp add: take_block_def split_block_def word_le_nat_alt)
    moreover have "chain (m(p \<mapsto> b\<lparr>hb_is_free := 0\<rparr>)) (hb_next b) (a + 12 + s) xs"
      by (rule chain_frame[OF b(4)]) (use p in auto)
    ultimately show ?thesis using False b ch p by auto
  next
    case True
    have big: "unat (n + HDR + MIN_BLOCK_SIZE) = unat n + 28"
      using True p(4) by (simp add: HDR_def MIN_BLOCK_SIZE_def unat_word_ariths)
    let ?q = "p + HDR + n"
    have uq: "unat ?q = a + 12 + unat n"
      using True p(2,4) by (simp add: HDR_def unat_word_ariths)
    then have q: "?q = of_nat (a + 12 + unat n)" by (metis unat_eq_of_nat)
    have "unat ?q \<noteq> unat p" using uq p(2) by simp
    then have ne: "?q \<noteq> p" by metis
    have size: "unat (hb_size b - n - HDR) = s - unat n - 12"
    proof -
      have "unat (hb_size b - n) = s - unat n" using b(2) n by (subst unat_sub) (simp_all add: word_le_nat_alt)
      then show ?thesis using True by (subst unat_sub) (simp_all add: word_le_nat_alt HDR_def)
    qed
    let ?nb = "\<lparr>hb_size = hb_size b - n - HDR, hb_is_free = 1, hb_next = hb_next b\<rparr>"
    let ?m = "m(?q \<mapsto> ?nb, p \<mapsto> b\<lparr>hb_size := n, hb_next := ?q, hb_is_free := 0\<rparr>)"
    have run: "take_block p n m = Some ?m"
      using True b big by (simp add: take_block_def split_block_def word_le_nat_alt Let_def)
    have rest: "chain ?m (hb_next b) (a + 12 + s) xs"
      by (rule chain_frame[OF b(4)]) (use p uq True in auto)
    have e: "a + 12 + unat n + 12 + (s - unat n - 12) = a + 12 + s" using True by simp
    have mq: "?m ?q = Some ?nb" using ne by simp
    have "a + 12 + unat n + 12 + (s - unat n - 12) < 2 ^ 32" unfolding e using p(4) by simp
    then have "chain ?m ?q (a + 12 + unat n) ((s - unat n - 12, True) # xs)"
      unfolding chain.simps(2) mq e using q size a0 rest by simp
    then have "chain ?m p a ((unat n, False) # (s - unat n - 12, True) # xs)"
      using p a0 True ne by (auto simp del: fun_upd_apply simp: fun_upd_def)
    moreover have "\<forall>x. \<not> (a \<le> unat x \<and> unat x < a + 12 + s) \<longrightarrow> ?m x = m x"
      using uq p(2) True by auto
    ultimately show ?thesis using True run by auto
  qed
qed

lemma take_block_chain:
  "chain m p a xs \<Longrightarrow> fit_spec (unat n) a xs = Some (q, ys) \<Longrightarrow>
   \<exists>m'. take_block (of_nat q) n m = Some m' \<and> chain m' p a ys \<and> a \<le> q \<and> q < 2 ^ 32 \<and>
     (\<forall>x. \<not> (q \<le> unat x \<and> unat x < seg_end a xs) \<longrightarrow> m' x = m x)"
proof (induction m p a xs arbitrary: ys rule: chain.induct)
  case (1 m p a)
  then show ?case by simp
next
  case (2 m p a s f xs)
  note pa = chain_Cons_ptr[OF "2.prems"(1)]
  from "2.prems" obtain b where b: "m p = Some b" "chain m (hb_next b) (a + 12 + s) xs"
      "unat (hb_size b) = s" "(hb_is_free b \<noteq> 0) = f"
    by (auto split: option.splits)
  have e: "a + 12 + s \<le> seg_end (a + 12 + s) xs" by (rule seg_end_ge)
  show ?case
  proof (cases "f \<and> unat n \<le> s")
    case True
    then have "f = True" by simp
    then have ch: "chain m p a ((s, True) # xs)" using "2.prems"(1) by (simp only:)
    from True "2.prems"(2) have q: "q = a" and ys: "ys = (if unat n + 28 \<le> s
        then (unat n, False) # (s - unat n - 12, True) # xs else (s, False) # xs)" by auto
    from take_block_head[OF ch, of n] True obtain m' where m': "take_block p n m = Some m'"
        "chain m' p a ys" "\<forall>x. \<not> (a \<le> unat x \<and> unat x < a + 12 + s) \<longrightarrow> m' x = m x"
      by (auto simp: ys)
    moreover have "\<forall>x. \<not> (a \<le> unat x \<and> unat x < seg_end a ((s, f) # xs)) \<longrightarrow> m' x = m x"
      using m'(3) e by auto
    moreover have "a < 2 ^ 32" using pa(4) by simp
    ultimately show ?thesis using q pa(1) by auto
  next
    case False
    with "2.prems"(2) obtain zs where zs: "fit_spec (unat n) (a + 12 + s) xs = Some (q, zs)"
        and ys: "ys = (s, f) # zs"
      by (auto split: prod.splits)
    from "2.IH"[OF b(1,2) zs] obtain m' where m': "take_block (of_nat q) n m = Some m'"
        "chain m' (hb_next b) (a + 12 + s) zs" "a + 12 + s \<le> q" "q < 2 ^ 32"
        "\<forall>x. \<not> (q \<le> unat x \<and> unat x < seg_end (a + 12 + s) xs) \<longrightarrow> m' x = m x"
      by blast
    have "m' p = m p" using m'(3,5) pa(2) by simp
    then have "chain m' p a ys" using m'(2) b "2.prems"(1) by (auto simp: ys)
    then show ?thesis using m' by auto
  qed
qed

lemma seg_end_fit: "fit_spec n a xs = Some (q, ys) \<Longrightarrow> seg_end a ys = seg_end a xs"
proof (induction n a xs arbitrary: ys rule: fit_spec.induct)
  case (1 n a)
  then show ?case by simp
next
  case (2 n a s f xs)
  have "a + 12 + n + 12 + (s - n - 12) = a + 12 + s" if "n + 28 \<le> s" using that by simp
  with 2 show ?case by (auto simp: add.commute add.left_commute split: if_splits prod.splits)
    (metis add.assoc add.commute)
qed

lemma fit_spec_NULL: "fit_spec n a xs = Some (q, ys) \<Longrightarrow> ys \<noteq> [] \<and> a \<le> q"
  by (induction n a xs arbitrary: ys rule: fit_spec.induct) (fastforce split: if_splits prod.splits)+

text \<open>\<open>kmalloc\<close> on a well-formed heap is \<open>fit_spec\<close> on its segments.\<close>

definition kmalloc_spec :: "u32 \<Rightarrow> nat \<Rightarrow> segment list \<Rightarrow> ptr \<times> segment list" where
  "kmalloc_spec sz a xs =
     (if sz = 0 then (NULL, xs)
      else case fit_spec (unat (align4 sz)) a xs of
        None \<Rightarrow> (NULL, xs)
      | Some (q, ys) \<Rightarrow> (of_nat (q + 12), ys))"

lemma heap_rel_start: "heap_rel h xs \<Longrightarrow> 16 \<le> unat (heap_start h)"
proof -
  assume h: "heap_rel h xs"
  then obtain s f ys where "xs = (s, f) # ys" by (cases xs) (auto simp: heap_rel_def)
  with h show ?thesis by (simp add: heap_rel_def)
qed

lemma kmalloc_refines:
  assumes h: "heap_rel h xs"
  shows "\<exists>p h'. kmalloc n h = Some (p, h') \<and> heap_start h' = heap_start h \<and>
    heap_size h' = heap_size h \<and> p = fst (kmalloc_spec n (unat (heap_start h)) xs) \<and>
    heap_rel h' (snd (kmalloc_spec n (unat (heap_start h)) xs))"
proof (cases "n = 0")
  case True
  with h show ?thesis by (simp add: kmalloc_def kmalloc_spec_def)
next
  case False
  let ?a = "unat (heap_start h)" and ?n = "align4 n"
  have ch: "chain (hmem h) (heap_start h) ?a xs" using h by (simp add: heap_rel_def)
  show ?thesis
  proof (cases "fit_spec (unat ?n) ?a xs")
    case None
    with find_free_from_chain[OF ch, of ?n] False h show ?thesis
      by (simp add: kmalloc_def kmalloc_spec_def find_free_block_def Let_def)
  next
    case (Some r)
    then obtain q ys where r: "fit_spec (unat ?n) ?a xs = Some (q, ys)" by (cases r) auto
    from take_block_chain[OF ch r] obtain m' where m': "take_block (of_nat q) ?n (hmem h) = Some m'"
        "chain m' (heap_start h) ?a ys" "?a \<le> q" "q < 2 ^ 32"
      by blast
    have uq: "unat (of_nat q :: u32) = q" using m'(4) by (rule of_nat_unat_less)
    have "(of_nat q :: u32) \<noteq> NULL" using uq m'(3) heap_rel_start[OF h] by auto
    moreover have "find_free_block ?n h = Some (of_nat q)"
      using find_free_from_chain[OF ch, of ?n] r by (simp add: find_free_block_def)
    ultimately have "kmalloc n h = Some (of_nat q + HDR, h\<lparr>hmem := m'\<rparr>)"
      using False m'(1) by (auto simp: kmalloc_def take_block_def Let_def bind_eq_Some_conv)
    moreover have "heap_rel (h\<lparr>hmem := m'\<rparr>) ys"
      using h m'(2) seg_end_fit[OF r] fit_spec_NULL[OF r] by (simp add: heap_rel_def)
    moreover have "(of_nat q + HDR :: u32) = of_nat (q + 12)" by (simp add: HDR_def)
    ultimately show ?thesis using False r by (simp add: kmalloc_spec_def)
  qed
qed

text \<open>\<open>merge_free_blocks\<close> is \<open>coalesce\<close> on the segments, and always returns.\<close>

lemma merge_from_chain:
  "chain m p a xs \<Longrightarrow> \<exists>m'. merge_from m p = Some m' \<and> chain m' p a (coalesce xs) \<and>
    (\<forall>x. unat x < a \<longrightarrow> m' x = m x)"
proof (induction xs arbitrary: m p a rule: coalesce.induct)
  case 1
  then show ?case by (simp add: merge_from.simps)
next
  case (2 x)
  obtain s f where x: "x = (s, f)" by (cases x)
  have "p \<noteq> NULL" by (rule chain_Cons_ptr(3)[OF 2])
  moreover from 2 obtain b where b: "m p = Some b" "hb_next b = NULL" by (auto simp: x split: option.splits)
  ultimately have "merge_from m p = Some m" by (subst merge_from.simps) simp
  with 2 show ?case by simp
next
  case (3 s f t g xs)
  note p = chain_Cons_ptr[OF "3.prems"]
  from "3.prems" obtain b where b: "m p = Some b" "unat (hb_size b) = s" "(hb_is_free b \<noteq> 0) = f"
      and tl: "chain m (hb_next b) (a + 12 + s) ((t, g) # xs)"
    by (cases "m p") (simp_all del: chain.simps(2) add: chain.simps(2)[of m p])
  note q = chain_Cons_ptr[OF tl]
  from tl obtain c where c: "m (hb_next b) = Some c" "unat (hb_size c) = t" "(hb_is_free c \<noteq> 0) = g"
      and tl2: "chain m (hb_next c) (a + 12 + s + 12 + t) xs"
    by (auto split: option.splits)
  show ?case
  proof (cases "f \<and> g")
    case True
    let ?b = "b\<lparr>hb_size := hb_size b + (HDR + hb_size c), hb_next := hb_next c\<rparr>"
    let ?m = "m(p \<mapsto> ?b)"
    have run: "merge_from m p = merge_from ?m p"
      using True b c p(3) q(3) by (subst merge_from.simps) simp
    have sz: "unat (hb_size b + (HDR + hb_size c)) = s + 12 + t"
      using q(4) b(2) c(2) by (simp add: HDR_def unat_word_ariths)
    have rest: "chain ?m (hb_next c) (a + 12 + s + 12 + t) xs"
      by (rule chain_frame[OF tl2]) (use p in auto)
    have e: "a + 12 + (s + 12 + t) = a + 12 + s + 12 + t" by simp
    have "chain ?m p a ((s + 12 + t, True) # xs)"
      unfolding chain.simps(2) e using rest sz True b p(1) "3.prems" q(4) by simp
    from "3.IH"(1)[OF True this] obtain m' where m': "merge_from ?m p = Some m'"
        "chain m' p a (coalesce ((s + 12 + t, True) # xs))" "\<forall>x. unat x < a \<longrightarrow> m' x = ?m x" by blast
    have "\<forall>x. unat x < a \<longrightarrow> m' x = m x" using m'(3) p(2) by auto
    moreover have "coalesce ((s, f) # (t, g) # xs) = coalesce ((s + 12 + t, True) # xs)"
      using True by simp
    ultimately show ?thesis using run m'(1,2) by metis
  next
    case False
    have run: "merge_from m p = merge_from m (hb_next b)"
      using False b c p(3) q(3) by (subst merge_from.simps) auto
    from "3.IH"(2)[OF False tl] obtain m' where m': "merge_from m (hb_next b) = Some m'"
        "chain m' (hb_next b) (a + 12 + s) (coalesce ((t, g) # xs))"
        "\<forall>x. unat x < a + 12 + s \<longrightarrow> m' x = m x" by blast
    have "m' p = Some b" using m'(3) p(2) b(1) by simp
    then have "chain m' p a ((s, f) # coalesce ((t, g) # xs))"
      using m'(2) b p "3.prems" by simp
    with False m' run show ?thesis by (auto simp del: chain.simps)
  qed
qed

lemma seg_end_coalesce: "seg_end a (coalesce xs) = seg_end a xs"
proof (induction xs arbitrary: a rule: coalesce.induct)
  case (3 s f t g xs)
  then show ?case by (cases f; cases g) (simp_all add: ac_simps)
qed auto

lemma coalesce_Nil [simp]: "coalesce xs = [] \<longleftrightarrow> xs = []"
  by (induction xs rule: coalesce.induct) auto

lemma allocs_ge: "(q, t) \<in> allocs a xs \<Longrightarrow> a + 12 \<le> q \<and> q + t \<le> seg_end a xs"
proof (induction a xs rule: allocs.induct)
  case (2 a s f xs)
  with seg_end_ge[of "a + 12 + s" xs] show ?case by (auto split: if_splits)
qed simp

lemma allocs_coalesce: "allocs a (coalesce xs) = allocs a xs"
proof (induction xs arbitrary: a rule: coalesce.induct)
  case (3 s f t g xs)
  then show ?case by (cases f; cases g) (simp_all add: ac_simps)
qed auto

lemma allocs_disjoint:
  "(p, s) \<in> allocs a xs \<Longrightarrow> (q, t) \<in> allocs a xs \<Longrightarrow> (p, s) = (q, t) \<or> p + s + 12 \<le> q \<or> q + t + 12 \<le> p"
  by (induction a xs rule: allocs.induct) (fastforce split: if_splits dest: allocs_ge)+

text \<open>Freeing a block in use marks its segment free, then merges.\<close>

lemma release_chain:
  "chain m p a xs \<Longrightarrow> (q + 12, s) \<in> allocs a xs \<Longrightarrow>
   \<exists>b. m (of_nat q) = Some b \<and> a \<le> q \<and> q + 12 < 2 ^ 32 \<and>
     chain (m(of_nat q \<mapsto> b\<lparr>hb_is_free := 1\<rparr>)) p a (release_spec q a xs)"
proof (induction m p a xs rule: chain.induct)
  case (1 m p a)
  then show ?case by simp
next
  case (2 m p a t f xs)
  note p = chain_Cons_ptr[OF "2.prems"(1)]
  from "2.prems" obtain b where b: "m p = Some b" "chain m (hb_next b) (a + 12 + t) xs"
      "unat (hb_size b) = t" "(hb_is_free b \<noteq> 0) = f"
    by (auto split: option.splits)
  show ?case
  proof (cases "q = a")
    case True
    have "chain (m(p \<mapsto> b\<lparr>hb_is_free := 1\<rparr>)) (hb_next b) (a + 12 + t) xs"
      by (rule chain_frame[OF b(2)]) (use p in auto)
    then have "chain (m(p \<mapsto> b\<lparr>hb_is_free := 1\<rparr>)) p a (release_spec q a ((t, f) # xs))"
      using True b "2.prems"(1) by simp
    moreover have "of_nat q = p" "q + 12 < 2 ^ 32" using p(1,4) True by simp_all
    ultimately show ?thesis using True b(1)
      by (intro exI[of _ b]) (simp only: simp_thms order_refl)
  next
    case False
    then have in_tl: "(q + 12, s) \<in> allocs (a + 12 + t) xs" using "2.prems"(2) by (auto split: if_splits)
    from "2.IH"[OF b(1,2) in_tl] obtain c where c: "m (of_nat q) = Some c" "a + 12 + t \<le> q" "q + 12 < 2 ^ 32"
        "chain (m(of_nat q \<mapsto> c\<lparr>hb_is_free := 1\<rparr>)) (hb_next b) (a + 12 + t) (release_spec q (a + 12 + t) xs)"
      by blast
    have "unat (of_nat q :: u32) = q" using c(3) by (simp add: of_nat_unat_less)
    then have "of_nat q \<noteq> p" using p(2) c(2) by force
    then have mp: "(m(of_nat q \<mapsto> c\<lparr>hb_is_free := 1\<rparr>)) p = Some b" using b(1) by simp
    have "release_spec q a ((t, f) # xs) = (t, f) # release_spec q (a + 12 + t) xs"
      using False by simp
    moreover have "chain (m(of_nat q \<mapsto> c\<lparr>hb_is_free := 1\<rparr>)) p a ((t, f) # release_spec q (a + 12 + t) xs)"
      unfolding chain.simps(2) mp using c(4) b p(1,4) "2.prems"(1) by simp
    ultimately have "chain (m(of_nat q \<mapsto> c\<lparr>hb_is_free := 1\<rparr>)) p a (release_spec q a ((t, f) # xs))"
      by (simp only:)
    moreover have "a \<le> q" using c(2) by simp
    ultimately show ?thesis using c(1,3) by (intro exI[of _ c]) (simp only: simp_thms)
  qed
qed

lemma seg_end_release: "seg_end a (release_spec q a xs) = seg_end a xs"
  by (induction q a xs rule: release_spec.induct) auto

lemma release_Nil [simp]: "release_spec q a xs = [] \<longleftrightarrow> xs = []"
  by (cases "(q, a, xs)" rule: release_spec.cases) auto

lemma allocs_release:
  "(q + 12, s) \<in> allocs a xs \<Longrightarrow> allocs a (release_spec q a xs) = allocs a xs - {(q + 12, s)}"
proof (induction q a xs rule: release_spec.induct)
  case (2 q a t f xs)
  have ge: "(u, v) \<in> allocs (a + 12 + t) xs \<Longrightarrow> a + 12 + t + 12 \<le> u" for u v
    using allocs_ge by blast
  show ?case
  proof (cases "q = a")
    case True
    then have no: "(q + 12, v) \<notin> allocs (a + 12 + t) xs" for v using ge[of "q + 12" v] by auto
    with "2.prems" True have "s = t" "\<not> f" by (simp_all split: if_splits)
    then show ?thesis using True no by simp
  next
    case False
    then have "(q + 12, s) \<in> allocs (a + 12 + t) xs" using "2.prems" by (simp split: if_splits)
    with 2 False show ?thesis by (simp add: insert_Diff_if)
  qed
qed simp

lemma kfree_refines:
  assumes h: "heap_rel h xs" and q: "(unat p, s) \<in> allocs (unat (heap_start h)) xs"
  shows "\<exists>h'. kfree p h = Some h' \<and> heap_start h' = heap_start h \<and> heap_size h' = heap_size h \<and>
    heap_rel h' (coalesce (release_spec (unat p - 12) (unat (heap_start h)) xs))"
proof -
  let ?a = "unat (heap_start h)" and ?q = "unat p - 12"
  have ge: "?a + 12 \<le> unat p" using allocs_ge[OF q] by simp
  then have uq: "unat p = ?q + 12" by simp
  have ch: "chain (hmem h) (heap_start h) ?a xs" using h by (simp add: heap_rel_def)
  from release_chain[OF ch, of ?q s] q uq obtain b where b: "hmem h (of_nat ?q) = Some b"
      "chain ((hmem h)(of_nat ?q \<mapsto> b\<lparr>hb_is_free := 1\<rparr>)) (heap_start h) ?a (release_spec ?q ?a xs)"
    by auto
  from merge_from_chain[OF b(2)] obtain m' where
      "merge_from ((hmem h)(of_nat ?q \<mapsto> b\<lparr>hb_is_free := 1\<rparr>)) (heap_start h) = Some m'"
      "chain m' (heap_start h) ?a (coalesce (release_spec ?q ?a xs))" by blast
  moreover have "p - HDR = of_nat ?q"
  proof (rule unat_eq_of_nat)
    have "HDR \<le> p" using uq by (simp add: word_le_nat_alt HDR_def)
    then show "unat (p - HDR) = ?q" by (simp add: unat_sub_le HDR_def)
  qed
  moreover have "p \<noteq> NULL" using uq by auto
  ultimately show ?thesis using b(1) h
    by (simp add: kfree_def merge_free_blocks_def heap_rel_def seg_end_coalesce seg_end_release)
qed

section \<open>What a client of the heap relies on\<close>

text \<open>No two neighbouring segments are free.\<close>

fun no_adj :: "segment list \<Rightarrow> bool" where
  "no_adj ((s, f) # (t, g) # xs) \<longleftrightarrow> \<not> (f \<and> g) \<and> no_adj ((t, g) # xs)"
| "no_adj _ = True"

lemma coalesce_head: "\<exists>t' ys. coalesce ((t, g) # xs) = (t', g) # ys"
proof (induction xs arbitrary: t g)
  case (Cons x xs)
  then show ?case by (cases x) auto
qed simp

lemma no_adj_coalesce: "no_adj (coalesce xs)"
proof (induction xs rule: coalesce.induct)
  case (3 s f t g xs)
  show ?case
  proof (cases "f \<and> g")
    case True
    with 3 show ?thesis by simp
  next
    case False
    with 3 coalesce_head[of t g xs] show ?thesis by auto
  qed
qed auto

lemma no_adj_Cons: "no_adj ((s, f) # xs) \<Longrightarrow> no_adj xs"
  by (cases xs) auto

lemma coalesce_id: "no_adj xs \<Longrightarrow> coalesce xs = xs"
  by (induction xs rule: coalesce.induct) auto

definition heap_extents :: "heap \<Rightarrow> (nat \<times> nat) set" where
  "heap_extents h = {e. \<exists>xs. heap_rel h xs \<and> e \<in> allocs (unat (heap_start h)) xs}"

definition heap_wf :: "heap \<Rightarrow> bool" where
  "heap_wf h \<longleftrightarrow> (\<exists>xs. heap_rel h xs \<and> no_adj xs)"

lemma heap_extents_rel: "heap_rel h xs \<Longrightarrow> heap_extents h = allocs (unat (heap_start h)) xs"
  by (auto simp: heap_extents_def dest: heap_rel_unique)

lemma fit_head:
  "fit_spec n a ((t, g) # xs) = Some (q, ys) \<Longrightarrow> \<exists>t' g' zs. ys = (t', g') # zs \<and> (g' \<longrightarrow> g)"
  by (auto split: if_splits)

lemma no_adj_fit: "fit_spec n a xs = Some (q, ys) \<Longrightarrow> no_adj xs \<Longrightarrow> no_adj ys"
proof (induction n a xs arbitrary: ys rule: fit_spec.induct)
  case (2 n a s f xs)
  have tl: "no_adj xs" using "2.prems"(2) by (rule no_adj_Cons)
  show ?case
  proof (cases "f \<and> n \<le> s")
    case True
    with 2 tl show ?thesis by (cases xs) (auto split: if_splits)
  next
    case False
    with "2.prems"(1) obtain zs where zs: "fit_spec n (a + 12 + s) xs = Some (q, zs)" "ys = (s, f) # zs"
      by auto
    then have zs_ok: "no_adj zs" using "2.IH" False tl by blast
    obtain t g xs' where xs: "xs = (t, g) # xs'" using zs(1) by (cases xs) auto
    with fit_head zs(1) obtain t' g' zs' where "zs = (t', g') # zs'" "g' \<longrightarrow> g" by blast
    with zs_ok zs(2) xs "2.prems"(2) show ?thesis by auto
  qed
qed simp

lemma allocs_fit:
  "fit_spec n a xs = Some (q, ys) \<Longrightarrow>
   \<exists>s\<ge>n. allocs a ys = insert (q + 12, s) (allocs a xs) \<and> (\<forall>t. (q + 12, t) \<notin> allocs a xs)"
proof (induction n a xs arbitrary: ys rule: fit_spec.induct)
  case (2 n a s f xs)
  have no: "(a + 12, t) \<notin> allocs (a + 12 + s) xs" for t using allocs_ge by fastforce
  show ?case
  proof (cases "f \<and> n \<le> s")
    case True
    then have q: "q = a" using "2.prems" by auto
    show ?thesis
    proof (cases "n + 28 \<le> s")
      case fits: True
      have e: "a + 12 + n + 12 + (s - n - 12) = a + 12 + s" using fits by simp
      have ys: "ys = (n, False) # (s - n - 12, True) # xs" using "2.prems" True fits by simp
      have "allocs a ys = insert (a + 12, n) (allocs (a + 12 + n + 12 + (s - n - 12)) xs)"
        unfolding ys by simp
      then have "allocs a ys = insert (a + 12, n) (allocs (a + 12 + s) xs)" unfolding e .
      with no True q show ?thesis by auto
    next
      case False
      then have "ys = (s, False) # xs" using "2.prems" True by simp
      with no True q show ?thesis by auto
    qed
  next
    case False
    with "2.prems" obtain zs where zs: "fit_spec n (a + 12 + s) xs = Some (q, zs)" "ys = (s, f) # zs"
      by auto
    have "a + 12 + s \<le> q" using fit_spec_NULL[OF zs(1)] by simp
    moreover from "2.IH"[OF False zs(1)] obtain s' where "s' \<ge> n"
        "allocs (a + 12 + s) zs = insert (q + 12, s') (allocs (a + 12 + s) xs)"
        "\<forall>t. (q + 12, t) \<notin> allocs (a + 12 + s) xs" by blast
    ultimately show ?thesis using zs(2) by auto
  qed
qed simp

lemma coalesce_step:
  assumes "coalesce zs = (t, g) # ys" "\<not> (f \<and> g)"
  shows "coalesce ((s, f) # zs) = (s, f) # (t, g) # ys"
proof -
  obtain u v ws where zs: "zs = (u, v) # ws" using assms(1) by (cases zs) auto
  have "v = g" using coalesce_head[of u v ws] assms(1) zs by auto
  with assms zs show ?thesis by auto
qed

text \<open>Releasing what was just taken restores the segments.\<close>

lemma release_fit:
  "fit_spec n a xs = Some (q, ys) \<Longrightarrow> no_adj xs \<Longrightarrow> coalesce (release_spec q a ys) = xs"
proof (induction n a xs arbitrary: ys rule: fit_spec.induct)
  case (2 n a s f xs)
  have tl: "no_adj xs" "coalesce xs = xs" using "2.prems"(2) no_adj_Cons coalesce_id by blast+
  show ?case
  proof (cases "f \<and> n \<le> s")
    case True
    then have q: "q = a" using "2.prems" by auto
    show ?thesis
    proof (cases "n + 28 \<le> s")
      case fits: True
      then have e: "n + 12 + (s - n - 12) = s" by simp
      have ys: "ys = (n, False) # (s - n - 12, True) # xs" using "2.prems"(1) True fits by simp
      have "coalesce (release_spec q a ys) = coalesce ((n + 12 + (s - n - 12), True) # xs)"
        unfolding ys q by simp
      also have "\<dots> = (s, True) # xs" unfolding e using coalesce_id[OF "2.prems"(2)] True by simp
      finally show ?thesis using True by simp
    next
      case False
      then have ys: "ys = (s, False) # xs" using "2.prems"(1) True by simp
      show ?thesis unfolding ys q using coalesce_id[OF "2.prems"(2)] True by simp
    qed
  next
    case False
    with "2.prems" obtain zs where zs: "fit_spec n (a + 12 + s) xs = Some (q, zs)" "ys = (s, f) # zs"
      by auto
    have "q \<noteq> a" using fit_spec_NULL[OF zs(1)] by simp
    moreover have "coalesce (release_spec q (a + 12 + s) zs) = xs" using "2.IH" False zs(1) tl(1) by blast
    moreover obtain t g xs' where xs: "xs = (t, g) # xs'" using zs(1) by (cases xs) auto
    ultimately show ?thesis using "2.prems"(2) zs(2) coalesce_step by simp
  qed
qed simp

lemma align4_ge: "n \<le> 0xFFFFFFFC \<Longrightarrow> unat n \<le> unat (align4 n) \<and> 4 dvd unat (align4 n)"
proof -
  assume n: "n \<le> 0xFFFFFFFC"
  then have n': "unat n \<le> 0xFFFFFFFC" by (simp add: word_le_nat_alt)
  have m: "unat (n mod 4) = unat n mod 4" by (simp add: unat_mod_distrib)
  show ?thesis
  proof (cases "n mod 4 = 0")
    case True
    then have "unat n mod 4 = 0" using m by simp
    with True show ?thesis by (simp add: align4_def dvd_eq_mod_eq_0)
  next
    case False
    have lt: "unat n mod 4 < 4" by simp
    have nz: "unat n mod 4 \<noteq> 0" using False m by (metis unat_eq_0)
    have split: "unat n = 4 * (unat n div 4) + unat n mod 4" by simp
    have "unat (4 - n mod 4) = 4 - unat n mod 4"
      using lt m by (subst unat_sub_le) (simp_all add: word_le_nat_alt)
    moreover have "unat n + (4 - unat n mod 4) < 4294967296"
      using n' neq0_conv[THEN iffD1, OF nz] lt split by linarith
    ultimately have "unat (align4 n) = unat n + (4 - unat n mod 4)"
      using False by (simp add: align4_def unat_add_no_wrap)
    moreover have "k = 4 * d + r \<Longrightarrow> r < 4 \<Longrightarrow> k + (4 - r) = 4 * (d + 1)" for k d r :: nat
      by simp
    from this[OF split lt] have "4 dvd unat n + (4 - unat n mod 4)" by (metis dvd_triv_left)
    ultimately show ?thesis by simp
  qed
qed

lemma align4_wrap: "n > 0xFFFFFFFC \<Longrightarrow> align4 n = 0"
proof -
  assume "n > 0xFFFFFFFC"
  then have "unat n > 0xFFFFFFFC" by (simp add: word_less_nat_alt)
  moreover have "unat n < 0x100000000" by simp
  ultimately have "unat n = 0xFFFFFFFD \<or> unat n = 0xFFFFFFFE \<or> unat n = 0xFFFFFFFF" by linarith
  then have "n = 0xFFFFFFFD \<or> n = 0xFFFFFFFE \<or> n = 0xFFFFFFFF"
    by (auto dest!: unat_eq_of_nat)
  moreover have "align4 0xFFFFFFFD = 0" "align4 0xFFFFFFFE = 0" "align4 0xFFFFFFFF = 0" by code_simp+
  ultimately show ?thesis by auto
qed

lemma kmalloc_init_rel:
  assumes "16 \<le> unat start" "12 \<le> unat sz" "unat start + unat sz < 2 ^ 32"
  shows "heap_rel (kmalloc_init start sz m) [(unat sz - 12, True)]"
proof -
  have "unat (sz - HDR) = unat sz - 12"
    using assms(2) by (subst unat_sub_le) (simp_all add: HDR_def word_le_nat_alt)
  with assms show ?thesis by (simp add: heap_rel_def kmalloc_init_def)
qed

text \<open>The two operations in terms of \<open>heap_wf\<close> and \<open>heap_extents\<close>.\<close>

lemma kmalloc_cases:
  assumes "heap_wf h"
  obtains (full) "kmalloc n h = Some (NULL, h)"
      "\<And>xs. n \<noteq> 0 \<Longrightarrow> heap_rel h xs \<Longrightarrow> \<forall>(s, f) \<in> set xs. f \<longrightarrow> s < unat (align4 n)"
  | (fit) p h' s xs ys where "kmalloc n h = Some (p, h')" "p \<noteq> NULL" "n \<noteq> 0" "heap_wf h'"
      "unat (align4 n) \<le> s" "heap_extents h' = insert (unat p, s) (heap_extents h)"
      "\<forall>t. (unat p, t) \<notin> heap_extents h" "heap_start h' = heap_start h" "heap_size h' = heap_size h"
      "heap_rel h xs" "no_adj xs" "heap_rel h' ys" "12 \<le> unat p"
      "fit_spec (unat (align4 n)) (unat (heap_start h)) xs = Some (unat p - 12, ys)"
proof -
  from assms obtain xs where xs: "heap_rel h xs" "no_adj xs" by (auto simp: heap_wf_def)
  let ?a = "unat (heap_start h)" and ?n = "unat (align4 n)"
  from kmalloc_refines[OF xs(1), of n] obtain p h' where r: "kmalloc n h = Some (p, h')"
      "heap_start h' = heap_start h" "heap_size h' = heap_size h"
      "p = fst (kmalloc_spec n ?a xs)" "heap_rel h' (snd (kmalloc_spec n ?a xs))" by blast
  consider (zero) "n = 0" | (none) "n \<noteq> 0" "fit_spec ?n ?a xs = None"
    | (some) q ys where "n \<noteq> 0" "fit_spec ?n ?a xs = Some (q, ys)"
    by (cases "fit_spec ?n ?a xs") auto
  then show thesis
  proof cases
    case zero
    then show thesis using full by (simp add: kmalloc_def)
  next
    case none
    have "chain (hmem h) (heap_start h) ?a xs" using xs(1) by (simp add: heap_rel_def)
    from find_free_from_chain[OF this, of "align4 n"] none
    have "kmalloc n h = Some (NULL, h)" by (simp add: kmalloc_def find_free_block_def Let_def)
    moreover have "fit_spec k b zs = None \<Longrightarrow> \<forall>(s, f) \<in> set zs. f \<longrightarrow> s < k" for k b zs
      by (induction k b zs rule: fit_spec.induct) (auto split: if_splits)
    ultimately show thesis using full none(2) heap_rel_unique[OF xs(1)] by metis
  next
    case some
    have ch: "chain (hmem h) (heap_start h) ?a xs" using xs(1) by (simp add: heap_rel_def)
    from r some have p: "p = of_nat (q + 12)" and ys: "heap_rel h' ys" by (simp_all add: kmalloc_spec_def)
    from allocs_fit[OF some(2)] obtain s where s: "s \<ge> ?n"
        "allocs ?a ys = insert (q + 12, s) (allocs ?a xs)" "\<forall>t. (q + 12, t) \<notin> allocs ?a xs" by blast
    have "q + 12 \<le> seg_end ?a ys" using allocs_ge[of "q + 12" s ?a ys] s(2) by simp
    moreover have "seg_end ?a ys < 2 ^ 32"
      using chain_end[OF ch] seg_end_fit[OF some(2)] by (simp add: unat_lt_32)
    ultimately have up: "unat p = q + 12" unfolding p by (intro of_nat_unat_less) simp
    show thesis
    proof (rule fit[of p h' s xs ys])
      show "p \<noteq> NULL" using up by auto
      show "heap_wf h'" using ys no_adj_fit[OF some(2) xs(2)] by (auto simp: heap_wf_def)
      show "heap_extents h' = insert (unat p, s) (heap_extents h)" "\<forall>t. (unat p, t) \<notin> heap_extents h"
        using s(2,3) up r(2) heap_extents_rel[OF ys] heap_extents_rel[OF xs(1)] by simp_all
    qed (use some s up r xs ys in auto)
  qed
qed

lemma kfree_run:
  assumes "heap_wf h" "(unat p, s) \<in> heap_extents h"
  shows "\<exists>h'. kfree p h = Some h' \<and> heap_wf h' \<and> heap_extents h' = heap_extents h - {(unat p, s)}"
proof -
  from assms(1) obtain xs where xs: "heap_rel h xs" by (auto simp: heap_wf_def)
  let ?a = "unat (heap_start h)"
  have al: "(unat p, s) \<in> allocs ?a xs" using assms(2) heap_extents_rel[OF xs] by simp
  then have up: "unat p = unat p - 12 + 12" using allocs_ge by fastforce
  from kfree_refines[OF xs al] obtain h' where h': "kfree p h = Some h'" "heap_start h' = heap_start h"
      "heap_rel h' (coalesce (release_spec (unat p - 12) ?a xs))" by blast
  have "heap_extents h' = allocs ?a xs - {(unat p, s)}"
    using heap_extents_rel[OF h'(3)] allocs_release[of "unat p - 12" s ?a xs] al up h'(2)
    by (simp add: allocs_coalesce)
  moreover have "heap_wf h'" using h'(3) no_adj_coalesce by (auto simp: heap_wf_def)
  ultimately show ?thesis using h'(1) heap_extents_rel[OF xs] by simp
qed

lemma heap_extents_disjoint:
  "heap_wf h \<Longrightarrow> (p, s) \<in> heap_extents h \<Longrightarrow> (q, t) \<in> heap_extents h \<Longrightarrow>
   (p, s) = (q, t) \<or> p + s + 12 \<le> q \<or> q + t + 12 \<le> p"
  unfolding heap_wf_def by (auto simp only: heap_extents_rel dest: allocs_disjoint)

interpretation heap: allocator heap_wf heap_extents kmalloc kfree
proof unfold_locales
  fix h n
  assume "heap_wf h"
  then show "\<exists>p h'. kmalloc n h = Some (p, h') \<and> heap_wf h' \<and> (p = NULL \<and> h' = h \<or> p \<noteq> NULL \<and>
      (\<exists>s. (n \<le> 0xFFFFFFFC \<longrightarrow> unat n \<le> s) \<and> heap_extents h' = insert (unat p, s) (heap_extents h) \<and>
        (\<forall>t. (unat p, t) \<notin> heap_extents h)))"
  proof (cases rule: kmalloc_cases[of h n])
    case (fit p h' s)
    have "n \<le> 0xFFFFFFFC \<longrightarrow> unat n \<le> s" using fit(5) align4_ge[of n] by auto
    with fit show ?thesis by blast
  qed (auto simp: \<open>heap_wf h\<close>)
next
  fix h s and p :: ptr
  assume "heap_wf h" "(unat p, s) \<in> heap_extents h"
  then show "\<exists>h'. kfree p h = Some h' \<and> heap_wf h' \<and> heap_extents h' = heap_extents h - {(unat p, s)}"
    by (rule kfree_run)
next
  fix h
  show "kfree NULL h = Some h" by (simp add: kfree_def)
next
  fix h a s b t
  assume "heap_wf h" "(a, s) \<in> heap_extents h" "(b, t) \<in> heap_extents h"
  from heap_extents_disjoint[OF this] show "(a, s) = (b, t) \<or> a + s < b \<or> b + t < a" by auto
next
  fix h a s
  assume "heap_wf h" "(a, s) \<in> heap_extents h"
  then show "0 < a" using allocs_ge by (fastforce simp: heap_wf_def heap_extents_rel)
qed

section \<open>Properties\<close>

text \<open>The boot heap: \<open>kmalloc_init ((void * ) 0x400000, 1024 * 1024)\<close> in \<open>kernel.c\<close>.\<close>

definition boot_heap :: heap where
  "boot_heap = kmalloc_init 0x400000 0x100000 Map.empty"

lemma boot_heap_rel: "heap_rel boot_heap [(0xFFFF4, True)]"
  using kmalloc_init_rel[of "0x400000" "0x100000" Map.empty] by (simp add: boot_heap_def)

lemma boot_heap_wf: "heap_wf boot_heap"
  using boot_heap_rel by (auto simp: heap_wf_def)

lemma boot_heap_fields [simp]: "heap_start boot_heap = 0x400000" "heap_size boot_heap = 0x100000"
  by (simp_all add: boot_heap_def kmalloc_init_def)

lemma heap_extents_within:
  assumes "heap_wf h" "(p, s) \<in> heap_extents h"
  shows "unat (heap_start h) + 12 \<le> p \<and> p + s \<le> unat (heap_start h) + unat (heap_size h)"
proof -
  from assms obtain xs where xs: "heap_rel h xs" "(p, s) \<in> allocs (unat (heap_start h)) xs"
    by (auto simp: heap_wf_def heap_extents_rel)
  with allocs_ge[OF xs(2)] show ?thesis by (simp add: heap_rel_def)
qed



text \<open>
  \<open>kfree\<close> of a region in use takes exactly that region back, keeps every other one, and
  leaves a well-formed heap, in which in particular no two neighbouring blocks are free.
\<close>
theorem kfree_correct:
  assumes "heap_wf h" "(unat p, s) \<in> heap_extents h"
  shows "\<exists>h'. kfree p h = Some h' \<and> heap_wf h' \<and> heap_extents h' = heap_extents h - {(unat p, s)}"
  by (rule kfree_run[OF assms])

text \<open>The heap after \<open>kmalloc (100)\<close> at boot.\<close>

definition boot_heap_100 :: heap where
  "boot_heap_100 = snd (the (kmalloc 100 boot_heap))"

lemma kmalloc_boot_100:
  "kmalloc 100 boot_heap = Some (0x40000C, boot_heap_100)"
  "heap_rel boot_heap_100 [(100, False), (0xFFF84, True)]" "heap_start boot_heap_100 = 0x400000"
proof -
  have a: "align4 100 = 100" by code_simp
  from kmalloc_refines[OF boot_heap_rel, of 100] obtain p h' where r: "kmalloc 100 boot_heap = Some (p, h')"
      "heap_start h' = 0x400000" "p = fst (kmalloc_spec 100 0x400000 [(0xFFFF4, True)])"
      "heap_rel h' (snd (kmalloc_spec 100 0x400000 [(0xFFFF4, True)]))" by auto
  then show "kmalloc 100 boot_heap = Some (0x40000C, boot_heap_100)"
    "heap_rel boot_heap_100 [(100, False), (0xFFF84, True)]" "heap_start boot_heap_100 = 0x400000"
    by (simp_all add: kmalloc_spec_def a boot_heap_100_def)
qed

lemma kfree_correct_witness:
  "\<exists>h'. kfree 0x40000C boot_heap_100 = Some h' \<and> heap_wf h' \<and> heap_extents h' = {}"
proof -
  have e: "heap_extents boot_heap_100 = {(unat (0x40000C :: ptr), 100)}"
    using heap_extents_rel[OF kmalloc_boot_100(2)] by (simp add: kmalloc_boot_100(3))
  have "heap_wf boot_heap_100" using kmalloc_boot_100(2) by (auto simp: heap_wf_def)
  from kfree_correct[OF this, of "0x40000C" 100] e show ?thesis by auto
qed

text \<open>
  C3. Allocating and then freeing restores the heap: the blocks, free and in use, are the ones
  there were before (splitting is undone by merging).
\<close>
theorem kmalloc_kfree_roundtrip:
  assumes "heap_rel h xs" "no_adj xs" "kmalloc n h = Some (p, h1)" "p \<noteq> NULL"
  shows "\<exists>h2. kfree p h1 = Some h2 \<and> heap_rel h2 xs"
proof -
  have "heap_wf h" using assms by (auto simp: heap_wf_def)
  then show ?thesis
  proof (cases rule: kmalloc_cases[of h n])
    case full
    with assms show ?thesis by simp
  next
    case 2: (fit p' h' s zs ys)
    then have eq: "p' = p" "h' = h1" "zs = xs" using assms heap_rel_unique by auto
    have st: "heap_start h1 = heap_start h" using 2(8) eq by simp
    have "(unat p, s) \<in> allocs (unat (heap_start h1)) ys"
      using 2(6) heap_extents_rel[OF 2(12)] unfolding eq by auto
    from kfree_refines[OF 2(12)[unfolded eq] this] release_fit[OF 2(14)[unfolded eq] assms(2)] st
    show ?thesis by auto
  qed
qed

lemma kmalloc_kfree_roundtrip_witness:
  "\<exists>h2. kfree 0x40000C boot_heap_100 = Some h2 \<and> heap_rel h2 [(0xFFFF4, True)]"
  by (rule kmalloc_kfree_roundtrip[OF boot_heap_rel _ kmalloc_boot_100(1)]) simp_all

lemma stats_from_chain:
  "chain m p a xs \<Longrightarrow> seg_end a xs - a + unat u + unat f < 2 ^ 32 \<Longrightarrow>
   \<exists>u' f'. stats_from m p u f = Some (u', f') \<and> unat u' + unat f' = seg_end a xs - a + unat u + unat f"
proof (induction m p a xs arbitrary: u f rule: chain.induct)
  case (1 m p a)
  then show ?case by (simp add: stats_from.simps)
next
  case (2 m p a s g xs)
  note p = chain_Cons_ptr[OF "2.prems"(1)]
  from "2.prems"(1) obtain b where b: "m p = Some b" "chain m (hb_next b) (a + 12 + s) xs"
      "unat (hb_size b) = s" "(hb_is_free b \<noteq> 0) = g"
    by (auto split: option.splits)
  have e: "a + 12 + s \<le> seg_end (a + 12 + s) xs" by (rule seg_end_ge)
  have sz: "unat (hb_size b + HDR) = s + 12" using p(4) b(3) by (subst unat_plus_HDR) auto
  have lt: "seg_end (a + 12 + s) xs - a + unat u + unat f < 2 ^ 32" using "2.prems"(2) by simp
  have fu: "unat (f + (hb_size b + HDR)) = unat f + (s + 12)" "unat (u + (hb_size b + HDR)) = unat u + (s + 12)"
    using lt e by (subst unat_add_no_wrap; simp add: sz)+
  show ?case
  proof (cases g)
    case True
    have "stats_from m p u f = stats_from m (hb_next b) u (f + (hb_size b + HDR))"
      using True b p(3) by (subst stats_from.simps) simp
    with "2.IH"[OF b(1,2), of u "f + (hb_size b + HDR)"] fu lt e show ?thesis by (simp add: ac_simps)
  next
    case False
    have "stats_from m p u f = stats_from m (hb_next b) (u + (hb_size b + HDR)) f"
      using False b p(3) by (subst stats_from.simps) simp
    with "2.IH"[OF b(1,2), of "u + (hb_size b + HDR)" f] fu lt e show ?thesis by (simp add: ac_simps)
  qed
qed

text \<open>
  \<open>kmalloc_stats\<close> always returns, and the used and the free bytes it reports, headers
  included, add up to the size of the heap.
\<close>
theorem kmalloc_stats_total:
  assumes "heap_wf h"
  shows "\<exists>u f. kmalloc_stats h = Some (heap_size h, u, f) \<and> unat u + unat f = unat (heap_size h)"
proof -
  from assms obtain xs where xs: "chain (hmem h) (heap_start h) (unat (heap_start h)) xs"
      "seg_end (unat (heap_start h)) xs = unat (heap_start h) + unat (heap_size h)"
    by (auto simp: heap_wf_def heap_rel_def)
  with stats_from_chain[OF xs(1), of 0 0] show ?thesis by (auto simp: kmalloc_stats_def)
qed

lemma kmalloc_stats_total_witness:
  "\<exists>u f. kmalloc_stats boot_heap = Some (0x100000, u, f) \<and> unat u + unat f = 0x100000"
  using kmalloc_stats_total[OF boot_heap_wf] by simp

text \<open>
  A request of more than \<open>0xFFFFFFFC\<close> bytes is not refused: rounding it up to a multiple of
  four wraps to 0, and the heap of the boot hands out a region of no bytes at all.
\<close>
theorem kmalloc_wraps:
  assumes "n > 0xFFFFFFFC"
  shows "\<exists>h'. kmalloc n boot_heap = Some (0x40000C, h') \<and> heap_extents h' = {(0x40000C, 0)}"
proof -
  have a: "align4 n = 0" by (rule align4_wrap[OF assms])
  have nz: "n \<noteq> 0" using assms by auto
  from kmalloc_refines[OF boot_heap_rel, of n] obtain p h' where r: "kmalloc n boot_heap = Some (p, h')"
      "heap_start h' = 0x400000" "p = fst (kmalloc_spec n 0x400000 [(0xFFFF4, True)])"
      "heap_rel h' (snd (kmalloc_spec n 0x400000 [(0xFFFF4, True)]))" by auto
  then have "heap_rel h' [(0, False), (0xFFFE8, True)]" by (simp add: kmalloc_spec_def a nz)
  from heap_extents_rel[OF this] r show ?thesis by (simp add: kmalloc_spec_def a nz)
qed

lemma kmalloc_wraps_witness:
  "\<exists>h'. kmalloc 0xFFFFFFFF boot_heap = Some (0x40000C, h') \<and> heap_extents h' = {(0x40000C, 0)}"
  by (rule kmalloc_wraps) simp

section \<open>A heap with regions in use\<close>

lemma kmalloc_fits:
  assumes "heap_rel h xs" "n \<noteq> 0" "align4 n = n" "fit_spec (unat n) (unat (heap_start h)) xs = Some (q, ys)"
  shows "\<exists>h'. kmalloc n h = Some (of_nat (q + 12), h') \<and> heap_rel h' ys \<and> heap_start h' = heap_start h \<and>
    heap_size h' = heap_size h"
  using kmalloc_refines[OF assms(1), of n] assms by (auto simp: kmalloc_spec_def)

text \<open>The heap of the boot after \<open>k\<close> requests of 512 bytes: examples of the heap's clients live there.\<close>

definition used_heap :: "nat \<Rightarrow> heap" where
  "used_heap k = ((\<lambda>h. snd (the (kmalloc 512 h))) ^^ k) boot_heap"

lemma fit_spec_chunks:
  "540 \<le> r \<Longrightarrow> fit_spec 512 a (replicate k (512, False) @ [(r, True)]) =
     Some (a + 524 * k, replicate (Suc k) (512, False) @ [(r - 524, True)])"
  by (induction k arbitrary: a) auto

lemma allocs_chunks:
  "allocs a (replicate k (512, False) @ [(r, True)]) = {(a + 12 + 524 * i, 512) | i. i < k}"
proof (induction k arbitrary: a)
  case (Suc k)
  have "{(a + 12 + 524 * i, 512 :: nat) | i. i < Suc k} = insert (a + 12, 512) {(a + 12 + 524 * Suc i, 512) | i. i < k}"
  proof (intro equalityI subsetI)
    fix x assume "x \<in> {(a + 12 + 524 * i, 512 :: nat) | i. i < Suc k}"
    then obtain i where "i < Suc k" "x = (a + 12 + 524 * i, 512)" by blast
    then show "x \<in> insert (a + 12, 512) {(a + 12 + 524 * Suc i, 512) | i. i < k}" by (cases i) auto
  next
    fix x assume "x \<in> insert (a + 12, 512 :: nat) {(a + 12 + 524 * Suc i, 512) | i. i < k}"
    then consider "x = (a + 12 + 524 * 0, 512)" | i where "i < k" "x = (a + 12 + 524 * Suc i, 512)" by auto
    then show "x \<in> {(a + 12 + 524 * i, 512) | i. i < Suc k}" by cases blast+
  qed
  then show ?case using Suc[of "a + 524"] by (simp add: algebra_simps)
qed simp

lemma used_heap_rel:
  "k \<le> 1000 \<Longrightarrow> heap_rel (used_heap k) (replicate k (512, False) @ [(0xFFFF4 - 524 * k, True)]) \<and>
     heap_start (used_heap k) = 0x400000 \<and>
     kmalloc 512 (used_heap k) = Some (of_nat (0x40000C + 524 * k), used_heap (Suc k))"
proof (induction k)
  case 0
  have a: "align4 512 = 512" by code_simp
  have "fit_spec (unat (512 :: u32)) (unat (heap_start boot_heap)) [(0xFFFF4, True)] =
      Some (0x400000, [(512, False), (0xFFFF4 - 524, True)])" by simp
  from kmalloc_fits[OF boot_heap_rel _ a this] boot_heap_rel show ?case by (auto simp: used_heap_def)
next
  case (Suc k)
  have a: "align4 512 = 512" by code_simp
  from Suc have h: "heap_rel (used_heap k) (replicate k (512, False) @ [(0xFFFF4 - 524 * k, True)])"
    "heap_start (used_heap k) = 0x400000"
    "kmalloc 512 (used_heap k) = Some (of_nat (0x40000C + 524 * k), used_heap (Suc k))" by auto
  have fk: "fit_spec (unat (512 :: u32)) (unat (heap_start (used_heap k))) (replicate k (512, False) @ [(0xFFFF4 - 524 * k, True)]) =
      Some (0x400000 + 524 * k, replicate (Suc k) (512, False) @ [(0xFFFF4 - 524 * k - 524, True)])"
    using fit_spec_chunks[of "0xFFFF4 - 524 * k" "0x400000" k] Suc.prems h(2) by simp
  from kmalloc_fits[OF h(1) _ a fk] h(2,3) have
    r: "heap_rel (used_heap (Suc k)) (replicate (Suc k) (512, False) @ [(0xFFFF4 - 524 * k - 524, True)])"
    and s: "heap_start (used_heap (Suc k)) = 0x400000" by auto
  have e: "0xFFFF4 - 524 * k - 524 = 0xFFFF4 - 524 * Suc k" by simp
  have "fit_spec (unat (512 :: u32)) (unat (heap_start (used_heap (Suc k)))) (replicate (Suc k) (512, False) @ [(0xFFFF4 - 524 * Suc k, True)]) =
      Some (0x400000 + 524 * Suc k, replicate (Suc (Suc k)) (512, False) @ [(0xFFFF4 - 524 * Suc k - 524, True)])"
    using fit_spec_chunks[of "0xFFFF4 - 524 * Suc k" "0x400000" "Suc k"] Suc.prems s by simp
  from kmalloc_fits[OF r[unfolded e] _ a this] have
    "kmalloc 512 (used_heap (Suc k)) = Some (of_nat (0x40000C + 524 * Suc k), used_heap (Suc (Suc k)))"
    by (auto simp: used_heap_def)
  with r s show ?case unfolding e by simp
qed

lemma used_heap_wf:
  assumes "k \<le> 1000"
  shows "heap_wf (used_heap k)"
proof -
  have "no_adj (replicate k (512, False) @ [(r, True)])" for r :: nat
  proof (induction k)
    case (Suc k)
    then show ?case by (cases k) auto
  qed simp
  with used_heap_rel[OF assms] show ?thesis by (auto simp: heap_wf_def)
qed

lemma used_heap_live:
  assumes "k \<le> 1000" "i < k"
  shows "of_nat (0x40000C + 524 * i) \<in> heap.live (used_heap k)"
proof -
  have r: "heap_rel (used_heap k) (replicate k (512, False) @ [(0xFFFF4 - 524 * k, True)])" "heap_start (used_heap k) = 0x400000"
    using used_heap_rel[OF assms(1)] by auto
  have "unat (of_nat (0x40000C + 524 * i) :: u32) = 0x40000C + 524 * i"
    using assms by (intro of_nat_unat_less) simp
  then have "(unat (of_nat (0x40000C + 524 * i) :: u32), 512) \<in> heap_extents (used_heap k)"
    using assms(2) unfolding heap_extents_rel[OF r(1)] r(2) allocs_chunks by auto
  then show ?thesis unfolding heap.live_def by blast
qed

end
