(* ===== verification/Bitmaps.thy ===== *)
theory Bitmaps
  imports Prelude
begin

text \<open>
  The interface of a bitmap, which three components of the kernel rely on: the physical memory
  manager (an array of 32-bit words), the inode and block bitmaps of VRFS and the per-task I/O
  permission bitmap (arrays of bytes). A bitmap has a number of bits, a test, and a set and a
  clear operation that fail on an index past the end. The lemmas of the locale give the meaning
  of updates as set operations, count the set bits and describe loops over ranges of bits. Each
  component interprets the locale on its own operations.
\<close>

locale bitmap =
  fixes nbits :: "'m \<Rightarrow> nat"
    and tst :: "'m \<Rightarrow> nat \<Rightarrow> bool"
    and setb :: "nat \<Rightarrow> 'm \<Rightarrow> 'm option"
    and clrb :: "nat \<Rightarrow> 'm \<Rightarrow> 'm option"
  assumes tst_bound: "tst m i \<Longrightarrow> i < nbits m"
    and setb_out: "\<not> i < nbits m \<Longrightarrow> setb i m = None"
    and clrb_out: "\<not> i < nbits m \<Longrightarrow> clrb i m = None"
    and setb_in: "i < nbits m \<Longrightarrow> \<exists>m'. setb i m = Some m' \<and> nbits m' = nbits m \<and>
      (\<forall>j. tst m' j \<longleftrightarrow> j = i \<or> tst m j)"
    and clrb_in: "i < nbits m \<Longrightarrow> \<exists>m'. clrb i m = Some m' \<and> nbits m' = nbits m \<and>
      (\<forall>j. tst m' j \<longleftrightarrow> j \<noteq> i \<and> tst m j)"
begin

definition bits :: "'m \<Rightarrow> nat set" where
  "bits m = {i. tst m i}"

definition used :: "'m \<Rightarrow> nat \<Rightarrow> nat" where
  "used m n = card (bits m \<inter> {..<n})"

lemma bits_bound: "bits m \<subseteq> {..<nbits m}"
  using tst_bound by (auto simp: bits_def)

lemma setb_SomeD:
  assumes "setb i m = Some m'"
  shows "i < nbits m" and "nbits m' = nbits m" and "bits m' = insert i (bits m)"
proof -
  show i: "i < nbits m" using assms setb_out[of i m] by (cases "i < nbits m") auto
  show "nbits m' = nbits m" and "bits m' = insert i (bits m)"
    using setb_in[OF i] assms by (auto simp: bits_def)
qed

lemma clrb_SomeD:
  assumes "clrb i m = Some m'"
  shows "i < nbits m" and "nbits m' = nbits m" and "bits m' = bits m - {i}"
proof -
  show i: "i < nbits m" using assms clrb_out[of i m] by (cases "i < nbits m") auto
  show "nbits m' = nbits m" and "bits m' = bits m - {i}"
    using clrb_in[OF i] assms by (auto simp: bits_def)
qed

lemma setb_ex: "i < nbits m \<Longrightarrow> \<exists>m'. setb i m = Some m' \<and> nbits m' = nbits m \<and> bits m' = insert i (bits m)"
  using setb_in[of i m] setb_SomeD[of i m] by blast

lemma clrb_ex: "i < nbits m \<Longrightarrow> \<exists>m'. clrb i m = Some m' \<and> nbits m' = nbits m \<and> bits m' = bits m - {i}"
  using clrb_in[of i m] clrb_SomeD[of i m] by blast

lemma used_insert: "i < n \<Longrightarrow> i \<notin> bits m \<Longrightarrow> bits m' = insert i (bits m) \<Longrightarrow> used m' n = Suc (used m n)"
  by (simp add: used_def Int_insert_left)

lemma used_remove: "i < n \<Longrightarrow> i \<in> bits m \<Longrightarrow> bits m' = bits m - {i} \<Longrightarrow> used m n = Suc (used m' n)"
proof -
  assume a: "i < n" "i \<in> bits m" "bits m' = bits m - {i}"
  then have "bits m \<inter> {..<n} = insert i (bits m' \<inter> {..<n})" "i \<notin> bits m' \<inter> {..<n}" by auto
  then show ?thesis by (simp add: used_def)
qed

lemma used_le: "used m n \<le> n"
  unfolding used_def using card_mono[of "{..<n}" "bits m \<inter> {..<n}"] by simp

lemma used_full_iff: "used m n = n \<longleftrightarrow> {..<n} \<subseteq> bits m"
proof
  assume "used m n = n"
  then have "bits m \<inter> {..<n} = {..<n}"
    unfolding used_def by (intro card_subset_eq) auto
  then show "{..<n} \<subseteq> bits m" by blast
next
  assume "{..<n} \<subseteq> bits m"
  then have "bits m \<inter> {..<n} = {..<n}" by blast
  then show "used m n = n" by (simp add: used_def)
qed

lemma free_exists: "used m n < n \<Longrightarrow> \<exists>i<n. i \<notin> bits m"
  using used_full_iff[of m n] by auto

lemma set_range:
  assumes "a + n \<le> nbits m"
  shows "\<exists>m'. for_range 0 n (\<lambda>i. setb (a + i)) m = Some m' \<and> nbits m' = nbits m \<and>
    bits m' = bits m \<union> {a..<a + n}"
proof -
  have "\<exists>m'. for_range 0 n (\<lambda>i. setb (a + i)) m = Some m' \<and>
      (nbits m' = nbits m \<and> bits m' = bits m \<union> {a..<a + (0 + n)})"
  proof (rule for_range_inv)
    fix j s
    assume "j < 0 + n" "nbits s = nbits m \<and> bits s = bits m \<union> {a..<a + j}"
    with assms obtain s' where "setb (a + j) s = Some s'" "nbits s' = nbits m"
        "bits s' = insert (a + j) (bits m \<union> {a..<a + j})"
      using setb_ex[of "a + j" s] by auto
    then show "\<exists>s'. setb (a + j) s = Some s' \<and> nbits s' = nbits m \<and>
        bits s' = bits m \<union> {a..<a + Suc j}"
      by (auto simp: atLeastLessThanSuc)
  qed simp
  then show ?thesis by simp
qed

lemma clr_range:
  assumes "a + n \<le> nbits m"
  shows "\<exists>m'. for_range 0 n (\<lambda>i. clrb (a + i)) m = Some m' \<and> nbits m' = nbits m \<and>
    bits m' = bits m - {a..<a + n}"
proof -
  have "\<exists>m'. for_range 0 n (\<lambda>i. clrb (a + i)) m = Some m' \<and>
      (nbits m' = nbits m \<and> bits m' = bits m - {a..<a + (0 + n)})"
  proof (rule for_range_inv)
    fix j s
    assume "j < 0 + n" "nbits s = nbits m \<and> bits s = bits m - {a..<a + j}"
    with assms obtain s' where "clrb (a + j) s = Some s'" "nbits s' = nbits m"
        "bits s' = bits m - {a..<a + j} - {a + j}"
      using clrb_ex[of "a + j" s] by auto
    then show "\<exists>s'. clrb (a + j) s = Some s' \<and> nbits s' = nbits m \<and>
        bits s' = bits m - {a..<a + Suc j}"
      by (auto simp: atLeastLessThanSuc)
  qed simp
  then show ?thesis by simp
qed

end

section \<open>Bitmaps in arrays of bytes\<close>

text \<open>
  VRFS and the I/O permission maps keep their bitmaps in bytes and set and clear a bit with the same
  C expressions, \<open>m[i / 8] |= 1 << (i % 8)\<close> and \<open>m[i / 8] &= ~(1 << (i % 8))\<close>.
\<close>

definition byte_set :: "nat \<Rightarrow> bytes \<Rightarrow> bytes option" where
  "byte_set i m = do { b \<leftarrow> arr_get m (i div 8); arr_set m (i div 8) (b OR shl1 (i mod 8)) }"

definition byte_clear :: "nat \<Rightarrow> bytes \<Rightarrow> bytes option" where
  "byte_clear i m = do { b \<leftarrow> arr_get m (i div 8); arr_set m (i div 8) (b AND NOT (shl1 (i mod 8))) }"

definition byte_test :: "nat \<Rightarrow> bytes \<Rightarrow> bool option" where
  "byte_test i m = do { b \<leftarrow> arr_get m (i div 8); Some (b AND shl1 (i mod 8) \<noteq> 0) }"

definition bytes_nbits :: "bytes \<Rightarrow> nat" where
  "bytes_nbits m = 8 * length m"

definition bytes_tst :: "bytes \<Rightarrow> nat \<Rightarrow> bool" where
  "bytes_tst m i \<longleftrightarrow> i < bytes_nbits m \<and> bit (m ! (i div 8)) (i mod 8)"

lemma bytes_index: "i < bytes_nbits m \<longleftrightarrow> i div 8 < length m"
  by (auto simp: bytes_nbits_def)

lemma bytes_nbits_update [simp]: "bytes_nbits (m[i := x]) = bytes_nbits m"
  by (simp add: bytes_nbits_def)

lemma div_mod_8_eq: "i div 8 = j div 8 \<Longrightarrow> i mod 8 = j mod (8::nat) \<Longrightarrow> i = j"
  by (metis div_mult_mod_eq)

lemma byte_test_eq: "byte_test i m = (if i < bytes_nbits m then Some (bytes_tst m i) else None)"
  by (auto simp: byte_test_def arr_get_def bytes_index bytes_tst_def)

interpretation bb: bitmap bytes_nbits bytes_tst byte_set byte_clear
proof (unfold_locales, goal_cases)
  case (1 m i)
  then show ?case by (simp add: bytes_tst_def)
next
  case (2 i m)
  then show ?case by (simp add: byte_set_def bytes_index arr_get_out)
next
  case (3 i m)
  then show ?case by (simp add: byte_clear_def bytes_index arr_get_out)
next
  case (4 i m)
  then show ?case
    by (auto simp: byte_set_def bytes_index bytes_tst_def nth_list_update dest: div_mod_8_eq)
next
  case (5 i m)
  then show ?case
    by (auto simp: byte_clear_def bytes_index bytes_tst_def nth_list_update dest: div_mod_8_eq)
qed

text \<open>The bytes \<open>0xFF\<close> and \<open>0x00\<close> repeated: all bits set, no bit set.\<close>

lemma byte_full: "j < 8 \<Longrightarrow> bit (0xFF :: u8) j"
proof -
  have "(0xFF :: u8) = mask 8" by (simp add: mask_eq_exp_minus_1)
  then show "j < 8 \<Longrightarrow> bit (0xFF :: u8) j" by (simp only: bit_mask_iff) simp
qed

lemma bytes_tst_full: "bytes_tst (replicate n 0xFF) i \<longleftrightarrow> i < 8 * n"
proof -
  have "i div 8 < n" if "i < 8 * n" using that by (simp add: less_mult_imp_div_less mult.commute)
  then show ?thesis using byte_full[of "i mod 8"] by (auto simp: bytes_tst_def bytes_nbits_def)
qed

lemma bytes_tst_empty: "\<not> bytes_tst (replicate n 0) i"
  by (cases "i div 8 < n") (auto simp: bytes_tst_def bytes_index)

end
