(* ===== verification/Pmm.thy ===== *)
theory Pmm
  imports Bitmaps Allocator
begin

text \<open>
  The physical memory manager (\<open>src/src/mm/pmm.c\<close>): a bitmap with one bit per 4 KiB block, a
  count of used blocks kept beside it, and the first-fit allocation of one block. The theory shows
  when the count agrees with the bitmap, what allocation returns on every branch, that allocated
  blocks are new, and what the boot sequence of \<open>kernel.c\<close> makes of the two.
\<close>

section \<open>State and operations\<close>

definition PAGE_SIZE :: u32 where "PAGE_SIZE = 4096"
definition MAX_BLOCKS :: nat where "MAX_BLOCKS = 32768"

record pmm =
  memory_map :: "u32 list"
  memory_size :: u32
  used_blocks :: u32
  max_blocks :: u32

definition pmm_bitmap_set :: "nat \<Rightarrow> u32 list \<Rightarrow> u32 list option" where
  "pmm_bitmap_set b m = do {
     w \<leftarrow> arr_get m (b div 32);
     arr_set m (b div 32) (w OR shl1 (b mod 32))
   }"

definition pmm_bitmap_clear :: "nat \<Rightarrow> u32 list \<Rightarrow> u32 list option" where
  "pmm_bitmap_clear b m = do {
     w \<leftarrow> arr_get m (b div 32);
     arr_set m (b div 32) (w AND NOT (shl1 (b mod 32)))
   }"

definition pmm_bitmap_test :: "nat \<Rightarrow> u32 list \<Rightarrow> bool option" where
  "pmm_bitmap_test b m = do {
     w \<leftarrow> arr_get m (b div 32);
     Some (w AND shl1 (b mod 32) \<noteq> 0)
   }"

text \<open>The nested loops of \<open>bitmap_first_free\<close>: words from \<open>i\<close> on, \<open>n\<close> of them left.\<close>

fun bitmap_first_free_from :: "u32 list \<Rightarrow> nat \<Rightarrow> nat \<Rightarrow> int option" where
  "bitmap_first_free_from m i 0 = Some (- 1)"
| "bitmap_first_free_from m i (Suc n) = do {
     w \<leftarrow> arr_get m i;
     if w \<noteq> 0xFFFFFFFF
     then (case find_first 0 32 (\<lambda>j. w AND shl1 j = 0) of
             Some j \<Rightarrow> Some (int (i * 32 + j))
           | None \<Rightarrow> bitmap_first_free_from m (Suc i) n)
     else bitmap_first_free_from m (Suc i) n
   }"

definition bitmap_first_free :: "pmm \<Rightarrow> int option" where
  "bitmap_first_free s = bitmap_first_free_from (memory_map s) 0 (unat (max_blocks s div 32))"

definition pmm_init :: "u32 \<Rightarrow> pmm" where
  "pmm_init mem_size =
     \<lparr>memory_map = replicate (MAX_BLOCKS div 32) 0xFFFFFFFF, memory_size = mem_size,
      used_blocks = mem_size div PAGE_SIZE, max_blocks = mem_size div PAGE_SIZE\<rparr>"

definition pmm_init_region :: "u32 \<Rightarrow> u32 \<Rightarrow> pmm \<Rightarrow> pmm option" where
  "pmm_init_region base sz =
     (let blocks = sz div PAGE_SIZE; start_block = base div PAGE_SIZE in
      for_range 0 (unat blocks) (\<lambda>i s. do {
        m \<leftarrow> pmm_bitmap_clear (unat (start_block + of_nat i)) (memory_map s);
        Some (s\<lparr>memory_map := m, used_blocks := used_blocks s - 1\<rparr>)
      }))"

definition pmm_deinit_region :: "u32 \<Rightarrow> u32 \<Rightarrow> pmm \<Rightarrow> pmm option" where
  "pmm_deinit_region base sz =
     (let blocks = sz div PAGE_SIZE; start_block = base div PAGE_SIZE in
      for_range 0 (unat blocks) (\<lambda>i s. do {
        m \<leftarrow> pmm_bitmap_set (unat (start_block + of_nat i)) (memory_map s);
        Some (s\<lparr>memory_map := m, used_blocks := used_blocks s + 1\<rparr>)
      }))"

text \<open>The result is a physical address, or \<open>NULL\<close> when no block is found.\<close>

definition pmm_alloc_block :: "pmm \<Rightarrow> (ptr \<times> pmm) option" where
  "pmm_alloc_block s =
     (if used_blocks s \<ge> max_blocks s then Some (NULL, s)
      else do {
        block \<leftarrow> bitmap_first_free s;
        if block = - 1 then Some (NULL, s)
        else do {
          m \<leftarrow> pmm_bitmap_set (nat block) (memory_map s);
          Some (of_int block * PAGE_SIZE, s\<lparr>memory_map := m, used_blocks := used_blocks s + 1\<rparr>)
        }
      })"

definition pmm_free_block :: "ptr \<Rightarrow> pmm \<Rightarrow> pmm option" where
  "pmm_free_block addr s =
     (let block = unat (addr div PAGE_SIZE) in do {
        t \<leftarrow> pmm_bitmap_test block (memory_map s);
        if \<not> t then Some s
        else do {
          m \<leftarrow> pmm_bitmap_clear block (memory_map s);
          Some (s\<lparr>memory_map := m, used_blocks := used_blocks s - 1\<rparr>)
        }
      })"

definition pmm_get_memory_size :: "pmm \<Rightarrow> u32" where
  "pmm_get_memory_size s = memory_size s"

definition pmm_get_used_blocks :: "pmm \<Rightarrow> u32" where
  "pmm_get_used_blocks s = used_blocks s"

definition pmm_get_free_blocks :: "pmm \<Rightarrow> u32" where
  "pmm_get_free_blocks s = max_blocks s - used_blocks s"

definition pmm_get_total_blocks :: "pmm \<Rightarrow> u32" where
  "pmm_get_total_blocks s = max_blocks s"

section \<open>The word array as a bitmap\<close>

definition words_nbits :: "u32 list \<Rightarrow> nat" where
  "words_nbits m = 32 * length m"

definition words_tst :: "u32 list \<Rightarrow> nat \<Rightarrow> bool" where
  "words_tst m i \<longleftrightarrow> i < words_nbits m \<and> bit (m ! (i div 32)) (i mod 32)"

lemma words_index: "i < words_nbits m \<longleftrightarrow> i div 32 < length m"
  by (auto simp: words_nbits_def)

lemma words_nbits_update [simp]: "words_nbits (m[i := x]) = words_nbits m"
  by (simp add: words_nbits_def)

lemma div_mod_32_eq: "i div 32 = j div 32 \<Longrightarrow> i mod 32 = j mod (32::nat) \<Longrightarrow> i = j"
  by (metis div_mult_mod_eq)

lemma pmm_bitmap_test_eq:
  "pmm_bitmap_test b m = (if b < words_nbits m then Some (words_tst m b) else None)"
  by (auto simp: pmm_bitmap_test_def arr_get_def words_index words_tst_def)

interpretation wb: bitmap words_nbits words_tst pmm_bitmap_set pmm_bitmap_clear
proof (unfold_locales, goal_cases)
  case (1 m i)
  then show ?case by (simp add: words_tst_def)
next
  case (2 i m)
  then show ?case by (simp add: pmm_bitmap_set_def words_index arr_get_out)
next
  case (3 i m)
  then show ?case by (simp add: pmm_bitmap_clear_def words_index arr_get_out)
next
  case (4 i m)
  then show ?case
    by (auto simp: pmm_bitmap_set_def words_index words_tst_def nth_list_update
        dest: div_mod_32_eq)
next
  case (5 i m)
  then show ?case
    by (auto simp: pmm_bitmap_clear_def words_index words_tst_def nth_list_update
        dest: div_mod_32_eq)
qed


text \<open>The word-wise search of the code finds the bit that a search bit by bit finds.\<close>

lemma word_full_iff: "(w :: u32) = 0xFFFFFFFF \<longleftrightarrow> (\<forall>j<32. bit w j)"
proof -
  have "(0xFFFFFFFF :: u32) = mask 32" by (simp add: mask_eq_exp_minus_1)
  then have "\<And>j. j < 32 \<Longrightarrow> bit (0xFFFFFFFF :: u32) j" by (simp only: bit_mask_iff) simp
  then show ?thesis by (auto simp: bit_eq_iff [of w])
qed

lemma bitmap_first_free_from_eq:
  "i + n \<le> length m \<Longrightarrow> bitmap_first_free_from m i n =
     Some (case find_first (32 * i) (32 * n) (\<lambda>b. \<not> words_tst m b) of Some b \<Rightarrow> int b | None \<Rightarrow> - 1)"
proof (induction n arbitrary: i)
  case 0
  then show ?case by simp
next
  case (Suc n)
  have i: "i < length m" using Suc.prems by simp
  have word: "find_first (32 * i) 32 (\<lambda>b. \<not> words_tst m b) =
      map_option ((+) (32 * i)) (find_first 0 32 (\<lambda>j. \<not> bit (m ! i) j))"
  proof -
    have "find_first (32 * i + 0) 32 (\<lambda>b. \<not> words_tst m b) =
        map_option ((+) (32 * i)) (find_first 0 32 (\<lambda>j. \<not> words_tst m (32 * i + j)))"
      by (rule find_first_shift)
    also have "find_first 0 32 (\<lambda>j. \<not> words_tst m (32 * i + j)) = find_first 0 32 (\<lambda>j. \<not> bit (m ! i) j)"
      by (rule find_first_cong) (use i in \<open>simp add: words_tst_def words_index\<close>)
    finally show ?thesis by simp
  qed
  have split: "find_first (32 * i) (32 + 32 * n) (\<lambda>b. \<not> words_tst m b) =
      (case find_first (32 * i) 32 (\<lambda>b. \<not> words_tst m b) of Some k \<Rightarrow> Some k
       | None \<Rightarrow> find_first (32 + 32 * i) (32 * n) (\<lambda>b. \<not> words_tst m b))"
    using find_first_append[of "32 * i" 32 "32 * n" "\<lambda>b. \<not> words_tst m b"] by (simp add: add.commute split: option.splits)
  show ?case
  proof (cases "m ! i = 0xFFFFFFFF")
    case True
    have "words_tst m j" if "32 * i \<le> j" "j < 32 * i + 32" for j
    proof -
      have "j div 32 = i" using that by (intro div_nat_eqI) auto
      then show ?thesis using i True word_full_iff[of "m ! i"] by (simp add: words_tst_def words_index)
    qed
    then have "find_first (32 * i) 32 (\<lambda>b. \<not> words_tst m b) = None"
      by (simp add: find_first_None)
    with True Suc i show ?thesis by (simp add: split)
  next
    case False
    with Suc i show ?thesis by (auto simp: split word split: option.splits)
  qed
qed

section \<open>Accounting\<close>

text \<open>The blocks the bitmap has as used.\<close>

definition pmm_used_set :: "pmm \<Rightarrow> nat set" where
  "pmm_used_set s = {b. words_tst (memory_map s) b}"

lemma pmm_used_set_bits: "pmm_used_set s = wb.bits (memory_map s)"
  by (simp add: pmm_used_set_def wb.bits_def)

text \<open>
  A well-formed manager: the static array has its 1024 words, the memory fits it, everything past
  the end of memory is marked used, and the counter is the number of used blocks of the memory.
\<close>

definition pmm_wf :: "pmm \<Rightarrow> bool" where
  "pmm_wf s \<longleftrightarrow> length (memory_map s) = MAX_BLOCKS div 32 \<and> unat (max_blocks s) \<le> MAX_BLOCKS \<and>
     {unat (max_blocks s)..<MAX_BLOCKS} \<subseteq> pmm_used_set s \<and>
     unat (used_blocks s) = card (pmm_used_set s \<inter> {..<unat (max_blocks s)})"

lemma MAX_BLOCKS_eq [simp]: "MAX_BLOCKS = 32768" "MAX_BLOCKS div 32 = 1024"
  by (simp_all add: MAX_BLOCKS_def)

lemma PAGE_SIZE_eq [simp]: "PAGE_SIZE = 4096"
  by (simp add: PAGE_SIZE_def)

lemma pmm_wf_used: "pmm_wf s \<Longrightarrow> unat (used_blocks s) = wb.used (memory_map s) (unat (max_blocks s))"
  by (simp add: pmm_wf_def wb.used_def pmm_used_set_bits)

lemma pmm_wf_nbits: "pmm_wf s \<Longrightarrow> words_nbits (memory_map s) = 32768"
  by (simp add: pmm_wf_def words_nbits_def)

lemma unat_div_4096: "unat ((x :: u32) div 4096) = unat x div 4096"
  by (simp add: unat_div)

lemma unat_div_32: "unat ((x :: u32) div 32) = unat x div 32"
  by (simp add: unat_div)

lemma pmm_init_used: "pmm_used_set (pmm_init mem) = {..<32768}"
proof -
  have "words_tst (replicate 1024 0xFFFFFFFF) b \<longleftrightarrow> b < 32768" for b
    using word_full_iff[of "0xFFFFFFFF"] by (auto simp: words_tst_def words_nbits_def)
  then show ?thesis by (auto simp: pmm_used_set_def pmm_init_def)
qed

lemma pmm_init_wf [wf_intros]: "unat mem \<le> 32768 * 4096 \<Longrightarrow> pmm_wf (pmm_init mem)"
proof -
  assume m: "unat mem \<le> 32768 * 4096"
  then have "unat mem div 4096 \<le> 32768" by simp
  moreover have "{..<32768::nat} \<inter> {..<unat mem div 4096} = {..<unat mem div 4096}"
    using calculation by auto
  ultimately show ?thesis
    unfolding pmm_wf_def pmm_init_used by (simp add: pmm_init_def unat_div_4096 subset_eq)
qed

text \<open>The two region loops: one bit and one count per block of the region.\<close>

lemma region_index:
  assumes "unat (a :: u32) div 4096 + n \<le> 2 ^ 21" "j < n"
  shows "unat (a div 4096 + of_nat j) = unat a div 4096 + j"
proof -
  have "j < 2 ^ 32" using assms by simp
  then have "unat (of_nat j :: u32) = j" by (rule of_nat_unat_less)
  then show ?thesis using assms by (subst unat_add_no_wrap) (simp_all add: unat_div_4096)
qed

lemma pmm_init_region_effect:
  assumes fits: "unat base div 4096 + unat sz div 4096 \<le> words_nbits (memory_map s)"
    and small: "words_nbits (memory_map s) \<le> 32768"
  shows "\<exists>m. pmm_init_region base sz s =
      Some (s\<lparr>memory_map := m, used_blocks := used_blocks s - of_nat (unat sz div 4096)\<rparr>) \<and>
    words_nbits m = words_nbits (memory_map s) \<and>
    wb.bits m = wb.bits (memory_map s) - {unat base div 4096..<unat base div 4096 + unat sz div 4096}"
proof -
  define a n where "a = unat base div 4096" and "n = unat sz div 4096"
  have "\<exists>t. pmm_init_region base sz s = Some t \<and> (\<exists>m. t =
      s\<lparr>memory_map := m, used_blocks := used_blocks s - of_nat (0 + n)\<rparr> \<and>
      words_nbits m = words_nbits (memory_map s) \<and>
      wb.bits m = wb.bits (memory_map s) - {a..<a + (0 + n)})"
    unfolding pmm_init_region_def Let_def PAGE_SIZE_eq unat_div_4096 n_def[symmetric]
  proof (rule for_range_inv)
    fix j t
    assume j: "j < 0 + n" and "\<exists>m. t = s\<lparr>memory_map := m, used_blocks := used_blocks s - of_nat j\<rparr> \<and>
      words_nbits m = words_nbits (memory_map s) \<and> wb.bits m = wb.bits (memory_map s) - {a..<a + j}"
    then obtain m where t: "t = s\<lparr>memory_map := m, used_blocks := used_blocks s - of_nat j\<rparr>"
      and m: "words_nbits m = words_nbits (memory_map s)" "wb.bits m = wb.bits (memory_map s) - {a..<a + j}"
      by blast
    have "unat base div 4096 + n \<le> 2 ^ 21" using fits small by (simp add: n_def)
    then have idx: "unat (base div 4096 + of_nat j) = a + j"
      using j region_index[of base n j] by (simp add: a_def)
    obtain m' where m': "pmm_bitmap_clear (a + j) m = Some m'" "words_nbits m' = words_nbits m"
        "wb.bits m' = wb.bits m - {a + j}"
      using wb.clrb_ex[of "a + j" m] j fits m(1) by (auto simp: a_def n_def)
    show "\<exists>t'. (do {
        m \<leftarrow> pmm_bitmap_clear (unat (base div 4096 + word_of_nat j)) (memory_map t);
        Some (t\<lparr>memory_map := m, used_blocks := used_blocks t - 1\<rparr>)}) = Some t' \<and>
      (\<exists>m. t' = s\<lparr>memory_map := m, used_blocks := used_blocks s - word_of_nat (Suc j)\<rparr> \<and>
        words_nbits m = words_nbits (memory_map s) \<and> wb.bits m = wb.bits (memory_map s) - {a..<a + Suc j})"
      using m' m unfolding t idx by (auto simp: idx atLeastLessThanSuc diff_diff_eq add.commute)
  qed (simp add: exI[of _ "memory_map s"])
  then show ?thesis by (auto simp: a_def n_def)
qed

lemma pmm_deinit_region_effect:
  assumes fits: "unat base div 4096 + unat sz div 4096 \<le> words_nbits (memory_map s)"
    and small: "words_nbits (memory_map s) \<le> 32768"
  shows "\<exists>m. pmm_deinit_region base sz s =
      Some (s\<lparr>memory_map := m, used_blocks := used_blocks s + of_nat (unat sz div 4096)\<rparr>) \<and>
    words_nbits m = words_nbits (memory_map s) \<and>
    wb.bits m = wb.bits (memory_map s) \<union> {unat base div 4096..<unat base div 4096 + unat sz div 4096}"
proof -
  define a n where "a = unat base div 4096" and "n = unat sz div 4096"
  have "\<exists>t. pmm_deinit_region base sz s = Some t \<and> (\<exists>m. t =
      s\<lparr>memory_map := m, used_blocks := used_blocks s + of_nat (0 + n)\<rparr> \<and>
      words_nbits m = words_nbits (memory_map s) \<and>
      wb.bits m = wb.bits (memory_map s) \<union> {a..<a + (0 + n)})"
    unfolding pmm_deinit_region_def Let_def PAGE_SIZE_eq unat_div_4096 n_def[symmetric]
  proof (rule for_range_inv)
    fix j t
    assume j: "j < 0 + n" and "\<exists>m. t = s\<lparr>memory_map := m, used_blocks := used_blocks s + of_nat j\<rparr> \<and>
      words_nbits m = words_nbits (memory_map s) \<and> wb.bits m = wb.bits (memory_map s) \<union> {a..<a + j}"
    then obtain m where t: "t = s\<lparr>memory_map := m, used_blocks := used_blocks s + of_nat j\<rparr>"
      and m: "words_nbits m = words_nbits (memory_map s)" "wb.bits m = wb.bits (memory_map s) \<union> {a..<a + j}"
      by blast
    have "unat base div 4096 + n \<le> 2 ^ 21" using fits small by (simp add: n_def)
    then have idx: "unat (base div 4096 + of_nat j) = a + j"
      using j region_index[of base n j] by (simp add: a_def)
    obtain m' where m': "pmm_bitmap_set (a + j) m = Some m'" "words_nbits m' = words_nbits m"
        "wb.bits m' = insert (a + j) (wb.bits m)"
      using wb.setb_ex[of "a + j" m] j fits m(1) by (auto simp: a_def n_def)
    show "\<exists>t'. (do {
        m \<leftarrow> pmm_bitmap_set (unat (base div 4096 + word_of_nat j)) (memory_map t);
        Some (t\<lparr>memory_map := m, used_blocks := used_blocks t + 1\<rparr>)}) = Some t' \<and>
      (\<exists>m. t' = s\<lparr>memory_map := m, used_blocks := used_blocks s + word_of_nat (Suc j)\<rparr> \<and>
        words_nbits m = words_nbits (memory_map s) \<and> wb.bits m = wb.bits (memory_map s) \<union> {a..<a + Suc j})"
      using m' m unfolding t idx by (auto simp: idx atLeastLessThanSuc add.commute add.left_commute)
  qed (simp add: exI[of _ "memory_map s"])
  then show ?thesis by (auto simp: a_def n_def)
qed

text \<open>Allocation on a well-formed manager: the first free block it can see, or no block.\<close>

lemma pmm_alloc_none:
  assumes wf: "pmm_wf s" and full: "{..<32 * (unat (max_blocks s) div 32)} \<subseteq> pmm_used_set s"
  shows "pmm_alloc_block s = Some (NULL, s)"
proof -
  have "unat (max_blocks s) div 32 \<le> length (memory_map s)" using wf by (auto simp: pmm_wf_def)
  moreover have "find_first 0 (32 * (unat (max_blocks s) div 32)) (\<lambda>b. \<not> words_tst (memory_map s) b) = None"
    using full by (auto simp: find_first_None pmm_used_set_def)
  ultimately have "bitmap_first_free s = Some (- 1)"
    using bitmap_first_free_from_eq[of 0 "unat (max_blocks s) div 32" "memory_map s"]
    by (simp add: bitmap_first_free_def unat_div_32)
  then show ?thesis by (simp add: pmm_alloc_block_def)
qed

lemma pmm_alloc_first:
  assumes wf: "pmm_wf s" and b: "b < 32 * (unat (max_blocks s) div 32)" "b \<notin> pmm_used_set s"
    and first: "\<forall>c<b. c \<in> pmm_used_set s"
  obtains m where "pmm_bitmap_set b (memory_map s) = Some m"
    and "pmm_alloc_block s =
      Some (of_nat (4096 * b), s\<lparr>memory_map := m, used_blocks := used_blocks s + 1\<rparr>)"
    and "pmm_wf (s\<lparr>memory_map := m, used_blocks := used_blocks s + 1\<rparr>)"
    and "wb.bits m = insert b (pmm_used_set s)"
proof -
  let ?mx = "unat (max_blocks s)" and ?m = "memory_map s"
  have mx: "?mx \<le> 32768" and len: "length ?m = 1024"
    and top: "{?mx..<32768} \<subseteq> pmm_used_set s" and cnt: "unat (used_blocks s) = wb.used ?m ?mx"
    using wf pmm_wf_used[OF wf] by (auto simp: pmm_wf_def)
  have bm: "b < ?mx" using b(1) by simp
  have "?mx div 32 \<le> length ?m" using mx len by simp
  moreover have "find_first 0 (32 * (?mx div 32)) (\<lambda>b. \<not> words_tst ?m b) = Some b"
    by (rule find_first_least) (use b first in \<open>auto simp: pmm_used_set_def\<close>)
  ultimately have ff: "bitmap_first_free s = Some (int b)"
    using bitmap_first_free_from_eq[of 0 "?mx div 32" ?m] by (simp add: bitmap_first_free_def unat_div_32)
  have "\<not> {..<?mx} \<subseteq> wb.bits ?m" using bm b(2) by (auto simp: pmm_used_set_bits)
  then have lt: "wb.used ?m ?mx < ?mx"
    using wb.used_full_iff[of ?m ?mx] wb.used_le[of ?m ?mx] by auto
  then have less: "\<not> max_blocks s \<le> used_blocks s" using cnt by (simp add: word_le_nat_alt)
  obtain m where m: "pmm_bitmap_set b ?m = Some m" "words_nbits m = words_nbits ?m"
      "wb.bits m = insert b (wb.bits ?m)"
    using wb.setb_ex[of b ?m] bm mx len by (auto simp: words_nbits_def)
  let ?t = "s\<lparr>memory_map := m, used_blocks := used_blocks s + 1\<rparr>"
  have alloc: "pmm_alloc_block s = Some (of_nat (4096 * b), ?t)"
    using less ff m by (simp add: pmm_alloc_block_def mult.commute)
  have us: "pmm_used_set ?t = insert b (pmm_used_set s)" by (simp add: pmm_used_set_bits m(3))
  have "unat (used_blocks s + 1) = unat (used_blocks s) + 1"
    using lt cnt mx by (subst unat_add_no_wrap) simp_all
  moreover have "wb.used m ?mx = Suc (wb.used ?m ?mx)"
    by (rule wb.used_insert) (use b bm m(3) in \<open>auto simp: pmm_used_set_bits\<close>)
  ultimately have "unat (used_blocks ?t) = card (pmm_used_set ?t \<inter> {..<?mx})"
    using cnt by (simp add: wb.used_def pmm_used_set_bits)
  then have "pmm_wf ?t"
    unfolding pmm_wf_def us using top mx len m(2) by (auto simp: words_nbits_def)
  then show ?thesis using that m alloc by (simp add: pmm_used_set_bits)
qed

lemma unat_block_addr: "b < 32768 \<Longrightarrow> unat (of_nat (4096 * b) :: u32) = 4096 * b"
  by (rule of_nat_unat_less) simp

lemma first_free_ex:
  assumes "\<not> {..<n} \<subseteq> (A :: nat set)"
  obtains b where "b < n" "b \<notin> A" "\<forall>c<b. c \<in> A"
proof -
  let ?b = "LEAST b. b < n \<and> b \<notin> A"
  have ex: "\<exists>b. b < n \<and> b \<notin> A" using assms by auto
  have b: "?b < n \<and> ?b \<notin> A" using LeastI_ex[OF ex] .
  moreover have "c \<in> A" if "c < ?b" for c using not_less_Least[OF that] that b by auto
  ultimately show ?thesis using that by blast
qed

text \<open>The memory manager provides frames to paging.\<close>

lemma pmm_free_effect:
  assumes wf: "pmm_wf s" and b: "unat p div 4096 \<in> pmm_used_set s" "unat p div 4096 < unat (max_blocks s)"
  shows "\<exists>s'. pmm_free_block p s = Some s' \<and> pmm_wf s' \<and>
    pmm_used_set s' = pmm_used_set s - {unat p div 4096} \<and> max_blocks s' = max_blocks s"
proof -
  let ?b = "unat p div 4096" and ?mx = "unat (max_blocks s)"
  have nb: "words_nbits (memory_map s) = 32768" by (rule pmm_wf_nbits[OF wf])
  have b32: "?b < 32768" using b(2) wf by (auto simp: pmm_wf_def)
  obtain m where m: "pmm_bitmap_clear ?b (memory_map s) = Some m" "words_nbits m = 32768"
      "wb.bits m = wb.bits (memory_map s) - {?b}"
    using wb.clrb_ex[of ?b "memory_map s"] b32 nb by auto
  let ?t = "s\<lparr>memory_map := m, used_blocks := used_blocks s - 1\<rparr>"
  have "pmm_bitmap_test ?b (memory_map s) = Some True"
    using b(1) b32 nb by (simp add: pmm_bitmap_test_eq pmm_used_set_def)
  then have run: "pmm_free_block p s = Some ?t"
    using m(1) by (simp add: pmm_free_block_def unat_div_4096)
  have us: "pmm_used_set ?t = pmm_used_set s - {?b}" by (simp add: pmm_used_set_bits m(3))
  have cnt: "wb.used (memory_map s) ?mx = Suc (wb.used m ?mx)"
    by (rule wb.used_remove) (use b m(3) in \<open>auto simp: pmm_used_set_bits\<close>)
  then have "unat (used_blocks s) = Suc (wb.used m ?mx)" using pmm_wf_used[OF wf] by simp
  moreover from this have "unat (used_blocks s - 1) = unat (used_blocks s) - 1"
    by (subst unat_sub_le) (simp_all add: word_le_nat_alt)
  ultimately have "unat (used_blocks ?t) = card (pmm_used_set ?t \<inter> {..<?mx})"
    by (simp add: wb.used_def pmm_used_set_bits)
  then have "pmm_wf ?t"
    using wf b(2) m(2) unfolding pmm_wf_def us by (auto simp: words_nbits_def)
  with run us show ?thesis by auto
qed

interpretation frames: frame_allocator pmm_wf pmm_used_set "\<lambda>s. unat (max_blocks s)" pmm_alloc_block pmm_free_block
proof
  fix f
  assume wf: "pmm_wf f"
  show "pmm_alloc_block f = Some (NULL, f) \<or>
      (\<exists>b f'. pmm_alloc_block f = Some (of_nat (4096 * b), f') \<and> pmm_wf f' \<and> b < 2 ^ 20 \<and> b \<notin> pmm_used_set f \<and>
        pmm_used_set f' = insert b (pmm_used_set f) \<and> unat (max_blocks f') = unat (max_blocks f))"
  proof (cases "{..<32 * (unat (max_blocks f) div 32)} \<subseteq> pmm_used_set f")
    case True
    with wf show ?thesis by (simp add: pmm_alloc_none)
  next
    case False
    then obtain b where b: "b < 32 * (unat (max_blocks f) div 32)" "b \<notin> pmm_used_set f"
        "\<forall>c<b. c \<in> pmm_used_set f"
      by (rule first_free_ex)
    have "b < 2 ^ 20" using b(1) wf by (auto simp: pmm_wf_def)
    moreover obtain m where "pmm_alloc_block f =
          Some (of_nat (4096 * b), f\<lparr>memory_map := m, used_blocks := used_blocks f + 1\<rparr>)"
        "pmm_wf (f\<lparr>memory_map := m, used_blocks := used_blocks f + 1\<rparr>)" "wb.bits m = insert b (pmm_used_set f)"
      by (rule pmm_alloc_first[OF wf b])
    ultimately show ?thesis using b(2)
      by (intro disjI2 exI[of _ b] exI[of _ "f\<lparr>memory_map := m, used_blocks := used_blocks f + 1\<rparr>"])
        (simp add: pmm_used_set_bits)
  qed
next
  fix f p
  assume "pmm_wf f" "unat (p :: ptr) div 4096 \<in> pmm_used_set f" "unat p div 4096 < unat (max_blocks f)"
  then show "\<exists>f'. pmm_free_block p f = Some f' \<and> pmm_wf f' \<and> pmm_used_set f' = pmm_used_set f - {unat p div 4096} \<and>
      unat (max_blocks f') = unat (max_blocks f)"
    using pmm_free_effect[of f p] by auto
qed


text \<open>
  Making a region available keeps the manager well-formed when all of the region is in memory and
  was used, reserving one when all of it was free: only then does the count move with the bitmap.
\<close>

lemma pmm_init_region_wf:
  assumes wf: "pmm_wf s" and inmem: "unat base div 4096 + unat sz div 4096 \<le> unat (max_blocks s)"
    and was: "{unat base div 4096..<unat base div 4096 + unat sz div 4096} \<subseteq> pmm_used_set s"
  shows "\<exists>s'. pmm_init_region base sz s = Some s' \<and> pmm_wf s' \<and> max_blocks s' = max_blocks s \<and>
    pmm_used_set s' = pmm_used_set s - {unat base div 4096..<unat base div 4096 + unat sz div 4096}"
proof -
  define a n where "a = unat base div 4096" and "n = unat sz div 4096"
  let ?mx = "unat (max_blocks s)"
  have nb: "words_nbits (memory_map s) = 32768" and mx: "?mx \<le> 32768"
    using wf pmm_wf_nbits[OF wf] by (auto simp: pmm_wf_def)
  obtain m where run: "pmm_init_region base sz s =
        Some (s\<lparr>memory_map := m, used_blocks := used_blocks s - of_nat n\<rparr>)"
      and m: "words_nbits m = 32768" "wb.bits m = wb.bits (memory_map s) - {a..<a + n}"
    using pmm_init_region_effect[of base sz s] inmem mx nb by (auto simp: a_def n_def)
  let ?t = "s\<lparr>memory_map := m, used_blocks := used_blocks s - of_nat n\<rparr>"
  have us: "pmm_used_set ?t = pmm_used_set s - {a..<a + n}" using m by (simp add: pmm_used_set_bits)
  have reg: "{a..<a + n} \<subseteq> pmm_used_set s \<inter> {..<?mx}" using was inmem by (auto simp: a_def n_def)
  have "(pmm_used_set s - {a..<a + n}) \<inter> {..<?mx} = pmm_used_set s \<inter> {..<?mx} - {a..<a + n}" by blast
  then have card: "card ((pmm_used_set s - {a..<a + n}) \<inter> {..<?mx}) = unat (used_blocks s) - n"
    using wf reg card_Diff_subset[OF _ reg] by (simp add: pmm_wf_def)
  have "n \<le> unat (used_blocks s)" using wf card_mono[OF _ reg] by (simp add: pmm_wf_def)
  moreover from this have "unat (of_nat n :: u32) = n"
    using of_nat_unat_less[of n] unat_lt_32[of "used_blocks s"] by linarith
  ultimately have "unat (used_blocks s - of_nat n) = unat (used_blocks s) - n"
    by (subst unat_sub) (simp_all add: word_le_nat_alt)
  then have "pmm_wf ?t"
    using wf card inmem m unfolding pmm_wf_def us by (auto simp: words_nbits_def a_def n_def)
  with run us show ?thesis by (auto simp: a_def n_def)
qed

lemma pmm_deinit_region_wf:
  assumes wf: "pmm_wf s" and inmem: "unat base div 4096 + unat sz div 4096 \<le> unat (max_blocks s)"
    and was: "{unat base div 4096..<unat base div 4096 + unat sz div 4096} \<inter> pmm_used_set s = {}"
  shows "\<exists>s'. pmm_deinit_region base sz s = Some s' \<and> pmm_wf s' \<and> max_blocks s' = max_blocks s \<and>
    pmm_used_set s' = pmm_used_set s \<union> {unat base div 4096..<unat base div 4096 + unat sz div 4096}"
proof -
  define a n where "a = unat base div 4096" and "n = unat sz div 4096"
  let ?mx = "unat (max_blocks s)" and ?U = "pmm_used_set s \<inter> {..<unat (max_blocks s)}"
  have nb: "words_nbits (memory_map s) = 32768" and mx: "?mx \<le> 32768"
    using wf pmm_wf_nbits[OF wf] by (auto simp: pmm_wf_def)
  obtain m where run: "pmm_deinit_region base sz s =
        Some (s\<lparr>memory_map := m, used_blocks := used_blocks s + of_nat n\<rparr>)"
      and m: "words_nbits m = 32768" "wb.bits m = wb.bits (memory_map s) \<union> {a..<a + n}"
    using pmm_deinit_region_effect[of base sz s] inmem mx nb by (auto simp: a_def n_def)
  let ?t = "s\<lparr>memory_map := m, used_blocks := used_blocks s + of_nat n\<rparr>"
  have us: "pmm_used_set ?t = pmm_used_set s \<union> {a..<a + n}" using m by (simp add: pmm_used_set_bits)
  have "(pmm_used_set s \<union> {a..<a + n}) \<inter> {..<?mx} = ?U \<union> {a..<a + n}"
    using inmem by (auto simp: a_def n_def)
  moreover have "card (?U \<union> {a..<a + n}) = card ?U + n"
    using was by (subst card_Un_disjoint) (auto simp: a_def n_def)
  ultimately have card: "card ((pmm_used_set s \<union> {a..<a + n}) \<inter> {..<?mx}) = unat (used_blocks s) + n"
    using wf by (simp add: pmm_wf_def)
  moreover have "card ((pmm_used_set s \<union> {a..<a + n}) \<inter> {..<?mx}) \<le> card {..<?mx}"
    by (rule card_mono) auto
  ultimately have "unat (used_blocks s) + n \<le> 32768" using mx by simp
  then have "unat (used_blocks s + of_nat n) = unat (used_blocks s) + n"
    using of_nat_unat_less[of n] by (subst unat_add_no_wrap) simp_all
  then have "pmm_wf ?t"
    using wf card m unfolding pmm_wf_def us by (auto simp: words_nbits_def a_def n_def)
  with run us show ?thesis by (auto simp: a_def n_def)
qed

text \<open>A manager of 16 MiB with the memory from 1 MiB on made available, as boot does first.\<close>

lemma pmm_16M_available:
  obtains s where "pmm_init_region 0x100000 0xF00000 (pmm_init 0x1000000) = Some s" "pmm_wf s"
    "max_blocks s = 4096" "pmm_used_set s = {..<32768} - {256..<4096}"
proof -
  have mx: "max_blocks (pmm_init 0x1000000) = 4096" by (simp add: pmm_init_def)
  have "pmm_wf (pmm_init 0x1000000)" by (rule pmm_init_wf) simp
  moreover have "{256..<4096} \<subseteq> {..<32768::nat}" by (intro subsetI) simp
  ultimately show ?thesis
    using pmm_init_region_wf[of "pmm_init 0x1000000" "0x100000" "0xF00000"] that
    by (simp add: pmm_init_used mx) blast
qed


text \<open>
  Freeing the block just allocated restores the manager exactly: same bitmap, same counters.
\<close>

theorem pmm_free_alloc:
  assumes wf: "pmm_wf s" and alloc: "pmm_alloc_block s = Some (p, s')" and p: "p \<noteq> NULL"
  shows "pmm_free_block p s' = Some s"
proof -
  have "\<not> {..<32 * (unat (max_blocks s) div 32)} \<subseteq> pmm_used_set s"
    using pmm_alloc_none[OF wf] alloc p by auto
  then obtain b where b: "b < 32 * (unat (max_blocks s) div 32)" "b \<notin> pmm_used_set s"
      "\<forall>c<b. c \<in> pmm_used_set s"
    by (rule first_free_ex)
  obtain m where m: "pmm_bitmap_set b (memory_map s) = Some m"
      "p = of_nat (4096 * b)" "s' = s\<lparr>memory_map := m, used_blocks := used_blocks s + 1\<rparr>"
      "wb.bits m = insert b (pmm_used_set s)"
    by (rule pmm_alloc_first[OF wf b]) (use alloc in auto)
  have b32: "b < 32768" using b(1) wf by (auto simp: pmm_wf_def)
  then have idx: "unat (p div 4096) = b" by (simp add: m(2) unat_div unat_block_addr del: of_nat_mult)
  have in_map: "b div 32 < length (memory_map s)" using wf b32 by (auto simp: pmm_wf_def)
  let ?w = "memory_map s ! (b div 32)"
  have m_eq: "m = (memory_map s)[b div 32 := ?w OR shl1 (b mod 32)]"
    using m(1) in_map by (simp add: pmm_bitmap_set_def)
  have "\<not> bit ?w (b mod 32)" using b(2) in_map by (simp add: pmm_used_set_def words_tst_def words_index)
  then have "(?w OR shl1 (b mod 32)) AND NOT (shl1 (b mod 32)) = ?w"
    by (auto simp: bit_eq_iff [of _ ?w] bit_and_iff bit_not_iff bit_or_iff)
  then have "pmm_bitmap_clear b m = Some (memory_map s)"
    using in_map by (simp add: pmm_bitmap_clear_def m_eq)
  moreover have "pmm_bitmap_test b m = Some True"
    using wb.setb_SomeD[OF m(1)] by (auto simp: pmm_bitmap_test_eq wb.bits_def)
  ultimately show ?thesis by (simp add: pmm_free_block_def idx m(3))
qed

theorem pmm_free_alloc_witness:
  "\<exists>s s'. pmm_init_region 0x100000 0xF00000 (pmm_init 0x1000000) = Some s \<and>
     pmm_alloc_block s = Some (0x100000, s') \<and> pmm_free_block 0x100000 s' = Some s"
proof -
  obtain s where s: "pmm_init_region 0x100000 0xF00000 (pmm_init 0x1000000) = Some s" "pmm_wf s"
      "max_blocks s = 4096" "pmm_used_set s = {..<32768} - {256..<4096}"
    by (rule pmm_16M_available)
  have b: "256 < 32 * (unat (max_blocks s) div 32)" "256 \<notin> pmm_used_set s"
      "\<forall>c<256. c \<in> pmm_used_set s"
    using s by auto
  obtain s' where alloc: "pmm_alloc_block s = Some (0x100000, s')"
    by (rule pmm_alloc_first[OF s(2) b]) auto
  have "pmm_free_block 0x100000 s' = Some s" by (rule pmm_free_alloc[OF s(2) alloc]) simp
  with s(1) alloc show ?thesis by blast
qed

section \<open>The boot sequence\<close>

text \<open>\<open>kernel_main\<close> of \<open>kernel.c\<close> on the memory size it computes from the multiboot record.\<close>

definition boot_memory :: "u32 \<Rightarrow> u32 \<Rightarrow> pmm option" where
  "boot_memory mem_lower mem_upper =
     (let mem_size = (mem_lower + mem_upper) * 1024 in do {
        s \<leftarrow> pmm_init_region 0x100000 (15 * 1024 * 1024) (pmm_init mem_size);
        pmm_deinit_region 0 0x100000 s
      })"

text \<open>
  The state boot leaves. The 15 MiB from 1 MiB on are free in the bitmap, but reserving the first
  MiB, which was never made available, counts its 256 blocks as used a second time.
\<close>

lemma boot_memory_state:
  assumes mem: "m = (lo + up) * 1024" "0x1000000 \<le> unat m" "unat m \<le> 0x8000000"
  obtains s where "boot_memory lo up = Some s" "max_blocks s = m div 4096"
    "words_nbits (memory_map s) = 32768" "pmm_used_set s = {..<32768} - {256..<4096}"
    "used_blocks s = m div 4096 - 3840 + 256"
proof -
  have nb: "words_nbits (memory_map (pmm_init m)) = 32768" by (simp add: pmm_init_def words_nbits_def)
  obtain m1 where m1: "pmm_init_region 0x100000 0xF00000 (pmm_init m) =
      Some (pmm_init m\<lparr>memory_map := m1, used_blocks := used_blocks (pmm_init m) - 3840\<rparr>)"
      "words_nbits m1 = 32768" "wb.bits m1 = {..<32768} - {256..<4096}"
    using pmm_init_region_effect[of "0x100000" "0xF00000" "pmm_init m"] nb pmm_init_used[of m]
    by (auto simp: pmm_used_set_bits)
  let ?s = "pmm_init m\<lparr>memory_map := m1, used_blocks := used_blocks (pmm_init m) - 3840\<rparr>"
  obtain m2 where m2: "pmm_deinit_region 0 0x100000 ?s =
      Some (?s\<lparr>memory_map := m2, used_blocks := used_blocks ?s + 256\<rparr>)"
      "words_nbits m2 = 32768" "wb.bits m2 = wb.bits m1 \<union> {0..<256}"
    using pmm_deinit_region_effect[of 0 "0x100000" ?s] m1(2) by auto
  have "{..<32768} - {256..<4096} \<union> {0..<256} = {..<32768} - {256..<4096::nat}" by fastforce
  then have bits2: "wb.bits m2 = {..<32768} - {256..<4096}" using m2(3) m1(3) by simp
  have run: "boot_memory lo up = Some (?s\<lparr>memory_map := m2, used_blocks := used_blocks ?s + 256\<rparr>)"
    unfolding boot_memory_def Let_def mem(1)[symmetric] using m1(1) m2(1) by simp
  show ?thesis by (rule that[OF run]) (use m2(2) bits2 in \<open>simp_all add: pmm_used_set_bits pmm_init_def\<close>)
qed

text \<open>
  On a machine with 16 to 128 MiB, boot leaves the memory manager with a used counter that is
  256 blocks higher than the number of used blocks: the manager is not well-formed, and it will
  report \<open>out of memory\<close> while 256 blocks are still free.
\<close>

theorem boot_memory_overcounts:
  assumes mem: "0x1000000 \<le> unat ((lo + up) * 1024 :: u32)" "unat ((lo + up) * 1024 :: u32) \<le> 0x8000000"
  shows "\<exists>s. boot_memory lo up = Some s \<and> \<not> pmm_wf s \<and>
    unat (pmm_get_used_blocks s) = card (pmm_used_set s \<inter> {..<unat (pmm_get_total_blocks s)}) + 256"
proof -
  define m :: u32 where "m = (lo + up) * 1024"
  obtain s where s: "boot_memory lo up = Some s" "max_blocks s = m div 4096"
      "pmm_used_set s = {..<32768} - {256..<4096}" "used_blocks s = m div 4096 - 3840 + 256"
    by (rule boot_memory_state[OF m_def]) (use mem m_def in auto)
  define k where "k = unat m div 4096"
  have k: "4096 \<le> k" "k \<le> 32768" "unat (m div 4096) = k"
    using mem unfolding k_def m_def[symmetric] by (auto simp: unat_div_4096)
  have "unat (m div 4096 - 3840) = k - 3840"
    using k by (subst unat_sub) (simp_all add: word_le_nat_alt)
  then have used: "unat (used_blocks s) = k - 3840 + 256"
    unfolding s(4) using k by (subst unat_add_no_wrap) simp_all
  have "pmm_used_set s \<inter> {..<k} = {..<k} - {256..<4096}" unfolding s(3) using k(2) by fastforce
  moreover have "{256..<4096} \<subseteq> {..<k}" using k(1) by (intro subsetI) simp
  ultimately have c: "card (pmm_used_set s \<inter> {..<k}) = k - 3840" by (simp add: card_Diff_subset)
  have mx: "unat (max_blocks s) = k" using s(2) k(3) by simp
  have count: "unat (used_blocks s) = card (pmm_used_set s \<inter> {..<unat (max_blocks s)}) + 256"
    unfolding used mx c ..
  then have "\<not> pmm_wf s" unfolding pmm_wf_def by linarith
  with count s(1) show ?thesis unfolding pmm_get_used_blocks_def pmm_get_total_blocks_def by blast
qed

theorem boot_memory_overcounts_witness:
  "\<exists>s. boot_memory 639 31744 = Some s \<and> \<not> pmm_wf s"
  using boot_memory_overcounts[of 639 31744] by auto

lemma boot_memory_first_frame:
  assumes mem: "0x1000000 \<le> unat ((lo + up) * 1024 :: u32)" "unat ((lo + up) * 1024 :: u32) \<le> 0x8000000"
  shows "\<exists>s s'. boot_memory lo up = Some s \<and> pmm_alloc_block s = Some (0x100000, s')"
proof -
  define m :: u32 where "m = (lo + up) * 1024"
  obtain s where s: "boot_memory lo up = Some s" "max_blocks s = m div 4096"
      "words_nbits (memory_map s) = 32768"
      "pmm_used_set s = {..<32768} - {256..<4096}" "used_blocks s = m div 4096 - 3840 + 256"
    by (rule boot_memory_state[OF m_def]) (use mem m_def in auto)
  define k where "k = unat m div 4096"
  have k: "4096 \<le> k" "k \<le> 32768" "unat (m div 4096) = k"
    using mem unfolding k_def m_def[symmetric] by (auto simp: unat_div_4096)
  have "unat (m div 4096 - 3840) = k - 3840"
    using k by (subst unat_sub) (simp_all add: word_le_nat_alt)
  then have "unat (used_blocks s) = k - 3840 + 256"
    unfolding s(5) using k by (subst unat_add_no_wrap) simp_all
  then have less: "\<not> max_blocks s \<le> used_blocks s" using k s(2) by (simp add: word_le_nat_alt)
  have len: "length (memory_map s) = 1024" using s(3) by (simp add: words_nbits_def)
  have "find_first 0 (32 * (k div 32)) (\<lambda>b. \<not> words_tst (memory_map s) b) = Some 256"
    by (rule find_first_least) (use s(4) k in \<open>auto simp: pmm_used_set_def set_eq_iff\<close>)
  moreover have "k div 32 \<le> length (memory_map s)" using k len by simp
  ultimately have ff: "bitmap_first_free s = Some 256"
    using bitmap_first_free_from_eq[of 0 "k div 32" "memory_map s"] k(3) s(2)
    by (simp add: bitmap_first_free_def unat_div_32)
  obtain m' where "pmm_bitmap_set 256 (memory_map s) = Some m'"
    using wb.setb_ex[of 256 "memory_map s"] s(3) by auto
  with less ff s(1) show ?thesis by (simp add: pmm_alloc_block_def)
qed

text \<open>
  The first block that the booted kernel hands out is at 1 MiB, where the linker script loads
  the kernel itself: boot reserves the memory below the kernel, not the kernel.
\<close>

theorem boot_memory_first_block:
  assumes mem: "0x1000000 \<le> unat ((lo + up) * 1024 :: u32)" "unat ((lo + up) * 1024 :: u32) \<le> 0x8000000"
  shows "\<exists>s s'. boot_memory lo up = Some s \<and> pmm_alloc_block s = Some (0x100000, s')"
  using boot_memory_first_frame[OF assms] .

theorem boot_memory_first_block_witness:
  "\<exists>s s'. boot_memory 639 31744 = Some s \<and> pmm_alloc_block s = Some (0x100000, s')"
  using boot_memory_first_block[of 639 31744] by simp

text \<open>
  Block 0 is indistinguishable from failure: when it is free, allocation marks it used and
  returns its address, which is the null pointer.
\<close>

lemma pmm_alloc_block_zero:
  assumes wf: "pmm_wf s" and "32 \<le> unat (max_blocks s)" "0 \<notin> pmm_used_set s"
  shows "\<exists>s'. pmm_alloc_block s = Some (NULL, s') \<and> 0 \<in> pmm_used_set s'"
proof -
  have "0 < 32 * (unat (max_blocks s) div 32)" using assms(2) by simp
  then obtain m where "pmm_alloc_block s =
        Some (of_nat (4096 * 0), s\<lparr>memory_map := m, used_blocks := used_blocks s + 1\<rparr>)"
      "wb.bits m = insert 0 (pmm_used_set s)"
    by (rule pmm_alloc_first[OF wf _ assms(3)]) simp
  then show ?thesis by (auto simp: pmm_used_set_bits)
qed

end
