(* ===== verification/Paging.thy ===== *)
theory Paging
  imports Pmm
begin

text \<open>
  Two-level page tables (\<open>src/src/mm/paging.c\<close>) over physical memory and the frames of the
  physical memory manager. Directories and tables are where the code has them, in 32-bit words
  of memory addressed by pointer; the theory gives the page table a reading as one function from
  page numbers to entries and shows that mapping and unmapping update that function at one point.
\<close>

section \<open>State and operations\<close>

definition PAGES_PER_TABLE :: nat where "PAGES_PER_TABLE = 1024"
definition PAGES_PER_DIR :: nat where "PAGES_PER_DIR = 1024"
definition PAGE_PRESENT :: u32 where "PAGE_PRESENT = 0x01"
definition PAGE_WRITE :: u32 where "PAGE_WRITE = 0x02"

text \<open>
  \<open>phys\<close> is memory, read and written 32 bits at a time at word-aligned addresses. The addresses
  of the static \<open>kernel_directory\<close> and \<open>kernel_tables\<close>, which the linker chooses, are constants of
  the state. \<open>cr0\<close> and \<open>cr3\<close> are the two control registers the code loads.
\<close>

record paging =
  phys :: "ptr \<Rightarrow> u32"
  pg_frames :: pmm
  current_directory :: ptr
  kernel_directory :: ptr
  kernel_tables :: ptr
  cr0 :: u32
  cr3 :: u32

definition dir_index :: "ptr \<Rightarrow> nat" where
  "dir_index a = unat (drop_bit 22 a)"

definition table_index :: "ptr \<Rightarrow> nat" where
  "table_index a = unat (drop_bit 12 a AND 0x3FF)"

text \<open>Entry \<open>i\<close> of the table or directory at \<open>p\<close>.\<close>

definition entry_addr :: "ptr \<Rightarrow> nat \<Rightarrow> ptr" where
  "entry_addr p i = p + 4 * of_nat i"

definition clear_page :: "ptr \<Rightarrow> (ptr \<Rightarrow> u32) \<Rightarrow> (ptr \<Rightarrow> u32)" where
  "clear_page p m = fold (\<lambda>i m. m(entry_addr p i := 0)) [0..<1024] m"

definition copy_page :: "ptr \<Rightarrow> ptr \<Rightarrow> (ptr \<Rightarrow> u32) \<Rightarrow> (ptr \<Rightarrow> u32)" where
  "copy_page src dst m = fold (\<lambda>k m. m(entry_addr dst k := m (entry_addr src k))) [0..<1024] m"

definition paging_get_page :: "ptr \<Rightarrow> bool \<Rightarrow> paging \<Rightarrow> (ptr \<times> paging) option" where
  "paging_get_page virt create s = do {
     require (current_directory s \<noteq> NULL);
     let e = entry_addr (current_directory s) (dir_index virt);
     if phys s e AND PAGE_PRESENT = 0
     then (if \<not> create then Some (NULL, s)
           else do {
             (table, f) \<leftarrow> pmm_alloc_block (pg_frames s);
             if table = NULL then Some (NULL, s\<lparr>pg_frames := f\<rparr>)
             else (let m = clear_page table (phys s);
                       m = m(e := table OR PAGE_PRESENT OR PAGE_WRITE)
                   in Some (entry_addr (m e AND 0xFFFFF000) (table_index virt),
                            s\<lparr>pg_frames := f, phys := m\<rparr>))
           })
     else Some (entry_addr (phys s e AND 0xFFFFF000) (table_index virt), s)
   }"

definition paging_map_page :: "ptr \<Rightarrow> ptr \<Rightarrow> u32 \<Rightarrow> paging \<Rightarrow> paging option" where
  "paging_map_page pa virt flags s = do {
     (page, s) \<leftarrow> paging_get_page virt True s;
     if page \<noteq> NULL
     then Some (s\<lparr>phys := (phys s)(page := (pa AND 0xFFFFF000) OR flags OR PAGE_PRESENT)\<rparr>)
     else Some s
   }"

definition paging_unmap_page :: "ptr \<Rightarrow> paging \<Rightarrow> paging option" where
  "paging_unmap_page virt s = do {
     (page, s) \<leftarrow> paging_get_page virt False s;
     if page \<noteq> NULL then Some (s\<lparr>phys := (phys s)(page := 0)\<rparr>) else Some s
   }"

definition paging_get_physical_address :: "ptr \<Rightarrow> paging \<Rightarrow> ptr option" where
  "paging_get_physical_address virt s = do {
     (page, s) \<leftarrow> paging_get_page virt False s;
     if page = NULL \<or> phys s page AND PAGE_PRESENT = 0 then Some NULL
     else Some ((phys s page AND 0xFFFFF000) OR (virt AND 0xFFF))
   }"

text \<open>One of the four kernel tables: cleared, filled with an identity map, put in the directory.\<close>

definition init_table :: "ptr \<Rightarrow> ptr \<Rightarrow> nat \<Rightarrow> (ptr \<Rightarrow> u32) \<Rightarrow> (ptr \<Rightarrow> u32)" where
  "init_table dir tables i m =
     (let t = tables + of_nat (4096 * i);
          m = clear_page t m;
          m = fold (\<lambda>j m. m(entry_addr t j :=
                (of_nat i * of_nat PAGES_PER_TABLE + of_nat j) * PAGE_SIZE OR PAGE_PRESENT OR PAGE_WRITE))
              [0..<PAGES_PER_TABLE] m
      in m(entry_addr dir i := t OR PAGE_PRESENT OR PAGE_WRITE))"

definition paging_init :: "paging \<Rightarrow> paging" where
  "paging_init s =
     (let m = clear_page (kernel_directory s) (phys s);
          m = fold (init_table (kernel_directory s) (kernel_tables s)) [0..<4] m
      in s\<lparr>phys := m, current_directory := kernel_directory s\<rparr>)"

definition paging_enable :: "paging \<Rightarrow> paging" where
  "paging_enable s = s\<lparr>cr3 := kernel_directory s, cr0 := cr0 s OR 0x80000000\<rparr>"

definition paging_get_kernel_directory :: "paging \<Rightarrow> ptr" where
  "paging_get_kernel_directory s = kernel_directory s"

definition paging_switch_directory :: "ptr \<Rightarrow> paging \<Rightarrow> paging" where
  "paging_switch_directory dir s = s\<lparr>current_directory := dir, cr3 := dir\<rparr>"

text \<open>Freeing a directory: the pages, then the table, of every present user entry, then itself.\<close>

definition free_table_pages :: "ptr \<Rightarrow> paging \<Rightarrow> paging option" where
  "free_table_pages table = for_range 0 PAGES_PER_TABLE (\<lambda>j s.
     if phys s (entry_addr table j) AND PAGE_PRESENT \<noteq> 0
     then do {
       f \<leftarrow> pmm_free_block (phys s (entry_addr table j) AND 0xFFFFF000) (pg_frames s);
       Some (s\<lparr>pg_frames := f\<rparr>)
     }
     else Some s)"

definition paging_free_directory :: "ptr \<Rightarrow> paging \<Rightarrow> paging option" where
  "paging_free_directory dir s =
     (if dir = NULL \<or> dir = kernel_directory s then Some s
      else do {
        s \<leftarrow> for_range 0 768 (\<lambda>i s.
          let e = phys s (entry_addr dir i) in
          if e AND PAGE_PRESENT = 0 then Some s
          else (let table = e AND 0xFFFFF000 in do {
            s \<leftarrow> free_table_pages table s;
            f \<leftarrow> pmm_free_block table (pg_frames s);
            Some (s\<lparr>pg_frames := f\<rparr>)
          })) s;
        f \<leftarrow> pmm_free_block dir (pg_frames s);
        Some (s\<lparr>pg_frames := f\<rparr>)
      })"

text \<open>
  Copying the pages of one table, from entry \<open>j\<close> on with \<open>n\<close> left; the result is false when no
  frame was left for a page.
\<close>

fun clone_pages :: "nat \<Rightarrow> nat \<Rightarrow> ptr \<Rightarrow> ptr \<Rightarrow> paging \<Rightarrow> (bool \<times> paging) option" where
  "clone_pages j 0 src_table new_table s = Some (True, s)"
| "clone_pages j (Suc n) src_table new_table s =
     (if phys s (entry_addr src_table j) AND PAGE_PRESENT = 0
      then clone_pages (Suc j) n src_table new_table s
      else do {
        (new_page, f) \<leftarrow> pmm_alloc_block (pg_frames s);
        if new_page = NULL then Some (False, s\<lparr>pg_frames := f\<rparr>)
        else (let src_page = phys s (entry_addr src_table j) AND 0xFFFFF000;
                  m = copy_page src_page new_page (phys s);
                  flags = m (entry_addr src_table j) AND 0xFFF
              in clone_pages (Suc j) n src_table new_table
                   (s\<lparr>pg_frames := f, phys := m(entry_addr new_table j := new_page OR flags)\<rparr>))
      })"

text \<open>The entries of the directory; on failure the code cleans up and stops.\<close>

fun clone_tables :: "nat \<Rightarrow> nat \<Rightarrow> ptr \<Rightarrow> ptr \<Rightarrow> paging \<Rightarrow> (bool \<times> paging) option" where
  "clone_tables i 0 src new_dir s = Some (True, s)"
| "clone_tables i (Suc n) src new_dir s =
     (let e = phys s (entry_addr src i) in
      if e AND PAGE_PRESENT = 0 then clone_tables (Suc i) n src new_dir s
      else if i \<ge> 768
      then clone_tables (Suc i) n src new_dir (s\<lparr>phys := (phys s)(entry_addr new_dir i := e)\<rparr>)
      else do {
        (new_table, f) \<leftarrow> pmm_alloc_block (pg_frames s);
        let s = s\<lparr>pg_frames := f\<rparr>;
        if new_table = NULL
        then do { s \<leftarrow> paging_free_directory new_dir s; Some (False, s) }
        else do {
          let s = s\<lparr>phys := clear_page new_table (phys s)\<rparr>;
          (ok, s) \<leftarrow> clone_pages 0 PAGES_PER_TABLE (e AND 0xFFFFF000) new_table s;
          if \<not> ok
          then do {
            f \<leftarrow> pmm_free_block new_table (pg_frames s);
            s \<leftarrow> paging_free_directory new_dir (s\<lparr>pg_frames := f\<rparr>);
            Some (False, s)
          }
          else (let flags = phys s (entry_addr src i) AND 0xFFF in
                clone_tables (Suc i) n src new_dir
                  (s\<lparr>phys := (phys s)(entry_addr new_dir i := new_table OR flags)\<rparr>))
        }
      })"

definition paging_clone_directory :: "ptr \<Rightarrow> paging \<Rightarrow> (ptr \<times> paging) option" where
  "paging_clone_directory src s =
     (if src = NULL then Some (NULL, s)
      else do {
        (new_dir, f) \<leftarrow> pmm_alloc_block (pg_frames s);
        let s = s\<lparr>pg_frames := f\<rparr>;
        if new_dir = NULL then Some (NULL, s)
        else do {
          (ok, s) \<leftarrow> clone_tables 0 PAGES_PER_DIR src new_dir
            (s\<lparr>phys := clear_page new_dir (phys s)\<rparr>);
          Some (if ok then new_dir else NULL, s)
        }
      })"

section \<open>Writing a page word by word\<close>

lemma entry_addr_eq:
  "aligned p \<Longrightarrow> aligned q \<Longrightarrow> i < 1024 \<Longrightarrow> j < 1024 \<Longrightarrow> entry_addr p i = entry_addr q j \<longleftrightarrow> p = q \<and> i = j"
  by (simp add: entry_addr_def page_word_eq)

lemma fold_words_miss:
  "(\<And>i. i \<in> set is \<Longrightarrow> a \<noteq> entry_addr p i) \<Longrightarrow> fold (\<lambda>i m. m(entry_addr p i := g i m)) is m a = m a"
  by (induction "is" arbitrary: m) auto

lemma fold_words_hit:
  assumes "aligned p" "i < n" "n \<le> 1024"
  shows "fold (\<lambda>i m. m(entry_addr p i := g i)) [0..<n] m (entry_addr p i) = g i"
  using assms
proof (induction n)
  case (Suc n)
  then show ?case by (cases "i = n") (auto simp: entry_addr_eq)
qed simp

lemma clear_page_hit: "aligned p \<Longrightarrow> i < 1024 \<Longrightarrow> clear_page p m (entry_addr p i) = 0"
  unfolding clear_page_def by (rule fold_words_hit) auto

lemma clear_page_miss:
  "aligned p \<Longrightarrow> aligned q \<Longrightarrow> p \<noteq> q \<Longrightarrow> i < 1024 \<Longrightarrow> clear_page p m (entry_addr q i) = m (entry_addr q i)"
  unfolding clear_page_def by (rule fold_words_miss) (simp add: entry_addr_eq)

section \<open>The page table as a function\<close>

definition vpn :: "ptr \<Rightarrow> nat" where
  "vpn a = unat a div 4096"

lemma vpn_less [simp]: "vpn a < 1048576"
proof -
  have "unat a < 4096 * 1048576" by simp
  then show ?thesis unfolding vpn_def by (subst less_mult_imp_div_less) simp_all
qed

lemma dir_index_vpn [simp]: "dir_index a = vpn a div 1024"
  by (simp add: dir_index_def vpn_def drop_bit_eq_div unat_div div_mult2_eq[symmetric])

lemma table_index_vpn [simp]: "table_index a = vpn a mod 1024"
proof -
  have m: "(0x3FF :: u32) = mask 10" by (simp add: mask_eq_exp_minus_1)
  show ?thesis unfolding table_index_def vpn_def m
    by (simp flip: take_bit_eq_mask add: take_bit_eq_mod drop_bit_eq_div unat_mod_distrib unat_div)
qed

abbreviation present :: "u32 \<Rightarrow> bool" where
  "present e \<equiv> e AND PAGE_PRESENT \<noteq> 0"

abbreviation page_of :: "u32 \<Rightarrow> ptr" where
  "page_of e \<equiv> e AND 0xFFFFF000"

definition pde :: "paging \<Rightarrow> nat \<Rightarrow> u32" where
  "pde s i = phys s (entry_addr (current_directory s) i)"

text \<open>The entry of page \<open>v\<close>: 0 when its table is not present.\<close>

definition pte :: "paging \<Rightarrow> nat \<Rightarrow> u32" where
  "pte s v =
     (if v < 1048576 \<and> present (pde s (v div 1024))
      then phys s (entry_addr (page_of (pde s (v div 1024))) (v mod 1024)) else 0)"

text \<open>
  Well-formed page tables: the directory and the tables it names are different frames, all in use
  (so that no later allocation hands one of them out).
\<close>

definition pg_wf :: "paging \<Rightarrow> bool" where
  "pg_wf s \<longleftrightarrow> pmm_wf (pg_frames s) \<and> frames.in_use (pg_frames s) NULL \<and>
     current_directory s \<noteq> NULL \<and> aligned (current_directory s) \<and>
     frames.in_use (pg_frames s) (current_directory s) \<and>
     (\<forall>i<1024. present (pde s i) \<longrightarrow>
        frames.in_use (pg_frames s) (page_of (pde s i)) \<and> page_of (pde s i) \<noteq> current_directory s \<and>
        page_of (pde s i) \<noteq> NULL) \<and>
     (\<forall>i<1024. \<forall>j<1024. present (pde s i) \<and> present (pde s j) \<and> page_of (pde s i) = page_of (pde s j)
        \<longrightarrow> i = j)"

lemma pg_wfD:
  assumes "pg_wf s"
  shows "pmm_wf (pg_frames s)" "frames.in_use (pg_frames s) NULL" "current_directory s \<noteq> NULL"
    "aligned (current_directory s)" "frames.in_use (pg_frames s) (current_directory s)"
    "\<And>i. i < 1024 \<Longrightarrow> present (pde s i) \<Longrightarrow> frames.in_use (pg_frames s) (page_of (pde s i))"
    "\<And>i. i < 1024 \<Longrightarrow> present (pde s i) \<Longrightarrow> page_of (pde s i) \<noteq> current_directory s"
    "\<And>i. i < 1024 \<Longrightarrow> present (pde s i) \<Longrightarrow> page_of (pde s i) \<noteq> NULL"
    "\<And>i j. i < 1024 \<Longrightarrow> j < 1024 \<Longrightarrow> present (pde s i) \<Longrightarrow> present (pde s j) \<Longrightarrow>
      page_of (pde s i) = page_of (pde s j) \<Longrightarrow> i = j"
  using assms unfolding pg_wf_def by blast+

lemma entry_addr_not_NULL: "aligned p \<Longrightarrow> p \<noteq> NULL \<Longrightarrow> i < 1024 \<Longrightarrow> entry_addr p i \<noteq> NULL"
  using entry_addr_eq[of p NULL i 0] by (simp add: entry_addr_def aligned_def)

lemma entry_flags:
  assumes "aligned p"
  shows "present (p OR PAGE_PRESENT OR PAGE_WRITE)" "page_of (p OR PAGE_PRESENT OR PAGE_WRITE) = p"
proof -
  have e: "PAGE_PRESENT = shl1 0" "PAGE_WRITE = shl1 1"
    by (simp_all add: PAGE_PRESENT_def PAGE_WRITE_def shl1_def)
  have b: "bit (PAGE_PRESENT :: u32) j \<longleftrightarrow> j = 0" "bit (PAGE_WRITE :: u32) j \<longleftrightarrow> j = 1" for j
    unfolding e by auto
  show "present (p OR PAGE_PRESENT OR PAGE_WRITE)"
    unfolding e(1) by (simp add: bit_or_iff)
  have pp: "page_of p = p" using unat_page[of p] assms
    by (metis aligned_def mod_0_imp_dvd dvd_mult_div_cancel unat_inject)
  have low: "bit p j \<Longrightarrow> 12 \<le> j" for j
  proof -
    assume "bit p j"
    then have "bit (p AND NOT (mask 12)) j" using pp page_mask by metis
    then show "12 \<le> j" by (auto simp: bit_and_iff bit_not_iff bit_mask_iff)
  qed
  then show "page_of (p OR PAGE_PRESENT OR PAGE_WRITE) = p"
    unfolding page_mask
    by (intro bit_eqI) (auto simp: bit_and_iff bit_or_iff bit_not_iff bit_mask_iff b dest: low)
qed

section \<open>Looking up and creating the entry of a page\<close>

lemma get_page_present:
  assumes "current_directory s \<noteq> NULL" "present (pde s (vpn virt div 1024))"
  shows "paging_get_page virt c s =
    Some (entry_addr (page_of (pde s (vpn virt div 1024))) (vpn virt mod 1024), s)"
  using assms by (simp add: paging_get_page_def Let_def pde_def)

lemma get_page_absent:
  assumes "current_directory s \<noteq> NULL" "\<not> present (pde s (vpn virt div 1024))"
  shows "paging_get_page virt False s = Some (NULL, s)"
  using assms by (simp add: paging_get_page_def Let_def pde_def)

lemma vpn_dir_less: "vpn a div 1024 < 1024"
  by (rule less_mult_imp_div_less) simp

lemma page_dir_less: "v < 1048576 \<Longrightarrow> v div 1024 < (1024 :: nat)"
  by (rule less_mult_imp_div_less) simp

text \<open>A directory without an entry for the page, and a frame for the new table.\<close>

lemma get_page_create:
  assumes wf: "pg_wf s" and abs: "\<not> present (pde s (vpn virt div 1024))"
    and alloc: "pmm_alloc_block (pg_frames s) = Some (p, f)" and p: "p \<noteq> NULL"
  shows "\<exists>s'. paging_get_page virt True s = Some (entry_addr p (vpn virt mod 1024), s') \<and>
    pg_wf s' \<and> pte s' = pte s \<and> current_directory s' = current_directory s \<and>
    present (pde s' (vpn virt div 1024)) \<and> page_of (pde s' (vpn virt div 1024)) = p"
proof -
  note w = pg_wfD[OF wf]
  note fr = frames.alloc_frame[OF w(1,2) alloc]
  let ?cd = "current_directory s" and ?d = "vpn virt div 1024"
  let ?e = "entry_addr ?cd ?d"
  let ?m = "(clear_page p (phys s))(?e := p OR PAGE_PRESENT OR PAGE_WRITE)"
  let ?s = "s\<lparr>pg_frames := f, phys := ?m\<rparr>"
  have d: "?d < 1024" by (rule vpn_dir_less)
  have pcd: "p \<noteq> ?cd" using fr(7)[OF p] w(5) by auto
  have fl: "present (p OR PAGE_PRESENT OR PAGE_WRITE)" "page_of (p OR PAGE_PRESENT OR PAGE_WRITE) = p"
    using entry_flags fr(5) by auto
  have run: "paging_get_page virt True s = Some (entry_addr p (vpn virt mod 1024), ?s)"
    using abs alloc p w(3) fl(2) by (simp add: paging_get_page_def Let_def pde_def)
  have pd: "pde ?s i = (if i = ?d then p OR PAGE_PRESENT OR PAGE_WRITE else pde s i)" if "i < 1024" for i
    using that d w(4) fr(5) pcd by (simp add: pde_def entry_addr_eq clear_page_miss)
  have used: "frames.in_use f q" if "frames.in_use (pg_frames s) q" for q
    using frames.alloc_frame(3)[OF w(1,2) alloc that] .
  have new: "page_of (pde s i) \<noteq> p" if "i < 1024" "present (pde s i)" for i
    using w(6)[OF that] fr(7)[OF p] by auto
  have inj: "i = j" if "i < 1024" "j < 1024" "present (pde ?s i)" "present (pde ?s j)"
      "page_of (pde ?s i) = page_of (pde ?s j)" for i j
    using that(3-5) w(9)[OF that(1,2)] new[OF that(1)] new[OF that(2)] fl(2)
    unfolding pd[OF that(1)] pd[OF that(2)] by (cases "i = ?d"; cases "j = ?d"; simp)
  have tab: "frames.in_use f (page_of (pde ?s i)) \<and> page_of (pde ?s i) \<noteq> ?cd \<and> page_of (pde ?s i) \<noteq> NULL"
    if "i < 1024" "present (pde ?s i)" for i
    using that(2) w(6-8)[OF that(1)] used fr(6)[OF p] fl(2) pcd p
    unfolding pd[OF that(1)] by (cases "i = ?d") simp_all
  have "pg_wf ?s"
    unfolding pg_wf_def using w(2-5) fr(1) used inj tab by simp
  moreover have "pte ?s v = pte s v" for v
  proof (cases "v < 1048576")
    case True
    have vd: "v div 1024 < 1024" "v mod 1024 < 1024" using page_dir_less[OF True] by simp_all
    show ?thesis
    proof (cases "v div 1024 = ?d")
      case eq: True
      have "?m (entry_addr p (v mod 1024)) = 0"
        using entry_addr_eq[OF fr(5) w(4) vd(2) d] pcd clear_page_hit[OF fr(5) vd(2)] by simp
      then show ?thesis using eq abs fl pd[OF d] by (simp add: pte_def)
    next
      case ne: False
      show ?thesis
      proof (cases "present (pde s (v div 1024))")
        case pres: True
        have "entry_addr (page_of (pde s (v div 1024))) (v mod 1024) \<noteq> ?e"
          using entry_addr_eq[OF aligned_page w(4) vd(2) d] w(7)[OF vd(1) pres] by simp
        moreover have "clear_page p (phys s) (entry_addr (page_of (pde s (v div 1024))) (v mod 1024)) =
            phys s (entry_addr (page_of (pde s (v div 1024))) (v mod 1024))"
          using new[OF vd(1) pres] by (intro clear_page_miss fr(5) aligned_page vd(2)) simp
        ultimately show ?thesis using pd[OF vd(1)] ne by (simp add: pte_def)
      qed (use pd[OF vd(1)] ne in \<open>simp add: pte_def\<close>)
    qed
  qed (simp add: pte_def)
  ultimately show ?thesis using run pd[OF d] fl by auto
qed

text \<open>Writing the entry of a page whose table is present changes that entry only.\<close>

lemma store_entry:
  assumes wf: "pg_wf s" and v: "v < 1048576" and pres: "present (pde s (v div 1024))"
  shows "pg_wf (s\<lparr>phys := (phys s)(entry_addr (page_of (pde s (v div 1024))) (v mod 1024) := x)\<rparr>)"
    and "pte (s\<lparr>phys := (phys s)(entry_addr (page_of (pde s (v div 1024))) (v mod 1024) := x)\<rparr>) =
      (pte s)(v := x)"
proof -
  note w = pg_wfD[OF wf]
  let ?t = "page_of (pde s (v div 1024))"
  let ?s = "s\<lparr>phys := (phys s)(entry_addr ?t (v mod 1024) := x)\<rparr>"
  have vd: "v div 1024 < 1024" "v mod 1024 < 1024" using page_dir_less[OF v] by simp_all
  have pd: "pde ?s i = pde s i" if "i < 1024" for i
    using entry_addr_eq[OF w(4) aligned_page that vd(2)] w(7)[OF vd(1) pres] by (simp add: pde_def)
  show "pg_wf ?s" unfolding pg_wf_def using w pd by auto
  show "pte ?s = (pte s)(v := x)"
  proof
    fix u
    show "pte ?s u = ((pte s)(v := x)) u"
    proof (cases "u < 1048576")
      case True
      have ud: "u div 1024 < 1024" "u mod 1024 < 1024" using page_dir_less[OF True] by simp_all
      have "u = v \<longleftrightarrow> u div 1024 = v div 1024 \<and> u mod 1024 = v mod 1024"
        by (metis div_mult_mod_eq)
      moreover have "present (pde s (u div 1024)) \<Longrightarrow>
          entry_addr (page_of (pde s (u div 1024))) (u mod 1024) = entry_addr ?t (v mod 1024) \<longleftrightarrow>
          u div 1024 = v div 1024 \<and> u mod 1024 = v mod 1024"
        using entry_addr_eq[OF aligned_page aligned_page ud(2) vd(2)] w(9)[OF ud(1) vd(1) _ pres] by metis
      ultimately show ?thesis using True pres pd[OF ud(1)] by (auto simp: pte_def)
    next
      case False
      with v show ?thesis by (auto simp: pte_def)
    qed
  qed
qed

text \<open>The operations on the function \<open>pte\<close>.\<close>

lemma get_physical_eq:
  assumes wf: "pg_wf s"
  shows "paging_get_physical_address virt s =
    Some (if present (pte s (vpn virt)) then page_of (pte s (vpn virt)) OR (virt AND 0xFFF) else NULL)"
proof -
  note w = pg_wfD[OF wf]
  show ?thesis
  proof (cases "present (pde s (vpn virt div 1024))")
    case True
    have "entry_addr (page_of (pde s (vpn virt div 1024))) (vpn virt mod 1024) \<noteq> NULL"
      by (rule entry_addr_not_NULL) (use w(8)[OF vpn_dir_less True] in simp_all)
    with True show ?thesis
      by (simp add: paging_get_physical_address_def get_page_present[OF w(3)] pte_def)
  next
    case False
    then show ?thesis
      by (simp add: paging_get_physical_address_def get_page_absent[OF w(3)] pte_def)
  qed
qed

definition can_map :: "ptr \<Rightarrow> paging \<Rightarrow> bool" where
  "can_map virt s \<longleftrightarrow> present (pde s (vpn virt div 1024)) \<or>
     pmm_alloc_block (pg_frames s) \<noteq> Some (NULL, pg_frames s)"

lemma map_page_run:
  assumes wf: "pg_wf s"
  shows "\<exists>s'. paging_map_page pa virt flags s = Some s' \<and> pg_wf s' \<and>
    (if can_map virt s then pte s' = (pte s)(vpn virt := page_of pa OR flags OR PAGE_PRESENT) else s' = s)"
proof -
  note w = pg_wfD[OF wf]
  let ?x = "page_of pa OR flags OR PAGE_PRESENT"
  show ?thesis
  proof (cases "present (pde s (vpn virt div 1024))")
    case True
    have "entry_addr (page_of (pde s (vpn virt div 1024))) (vpn virt mod 1024) \<noteq> NULL"
      by (rule entry_addr_not_NULL) (use w(8)[OF vpn_dir_less True] in simp_all)
    then show ?thesis
      using True store_entry[OF wf vpn_less True, of ?x]
      by (simp add: paging_map_page_def get_page_present[OF w(3)] can_map_def)
  next
    case False
    obtain p f where alloc: "pmm_alloc_block (pg_frames s) = Some (p, f)"
      using frames.alloc_ex[OF w(1)] by auto
    note fr = frames.alloc_frame[OF w(1,2) alloc]
    show ?thesis
    proof (cases "p = NULL")
      case True
      then have "f = pg_frames s" using fr(4) by simp
      with True alloc False wf w(3) show ?thesis
        by (simp add: paging_map_page_def paging_get_page_def pde_def Let_def can_map_def)
    next
      case new: False
      obtain s1 where s1: "paging_get_page virt True s = Some (entry_addr p (vpn virt mod 1024), s1)"
          "pg_wf s1" "pte s1 = pte s" "present (pde s1 (vpn virt div 1024))"
          "page_of (pde s1 (vpn virt div 1024)) = p"
        using get_page_create[OF wf False alloc new] by blast
      have "entry_addr p (vpn virt mod 1024) \<noteq> NULL"
        by (rule entry_addr_not_NULL) (use fr(5) new in simp_all)
      then show ?thesis
        using False new alloc store_entry[OF s1(2) vpn_less s1(4), of ?x] s1(3)
        by (simp add: paging_map_page_def s1(1,5) can_map_def)
    qed
  qed
qed

lemma unmap_page_run:
  assumes wf: "pg_wf s"
  shows "\<exists>s'. paging_unmap_page virt s = Some s' \<and> pg_wf s' \<and> pte s' = (pte s)(vpn virt := 0)"
proof -
  note w = pg_wfD[OF wf]
  show ?thesis
  proof (cases "present (pde s (vpn virt div 1024))")
    case True
    have "entry_addr (page_of (pde s (vpn virt div 1024))) (vpn virt mod 1024) \<noteq> NULL"
      by (rule entry_addr_not_NULL) (use w(8)[OF vpn_dir_less True] in simp_all)
    then show ?thesis
      using True store_entry[OF wf vpn_less True, of 0]
      by (simp add: paging_unmap_page_def get_page_present[OF w(3)])
  next
    case False
    then have "pte s (vpn virt) = 0" by (simp add: pte_def)
    with False wf show ?thesis
      by (simp add: paging_unmap_page_def get_page_absent[OF w(3)] fun_upd_idem)
  qed
qed

lemma page_entry:
  assumes "page_of flags = 0"
  shows "present (page_of pa OR flags OR PAGE_PRESENT)"
    and "page_of (page_of pa OR flags OR PAGE_PRESENT) = page_of pa"
proof -
  have e: "PAGE_PRESENT = shl1 0" by (simp add: PAGE_PRESENT_def shl1_def)
  show "present (page_of pa OR flags OR PAGE_PRESENT)"
    unfolding e by (simp add: bit_or_iff)
  have low: "j < 12" if "bit flags j" for j
    using assms[unfolded page_mask] bit_and_iff[of flags "NOT (mask 12)" j] that
    by (auto simp: bit_not_iff bit_mask_iff dest: bit_imp_le_length)
  then show "page_of (page_of pa OR flags OR PAGE_PRESENT) = page_of pa"
    unfolding page_mask e
    by (intro bit_eqI) (auto simp: bit_and_iff bit_or_iff bit_not_iff bit_mask_iff dest: low)
qed

section \<open>The kernel's page tables\<close>

definition table_at :: "ptr \<Rightarrow> nat \<Rightarrow> ptr" where
  "table_at tables i = tables + of_nat (4096 * i)"

definition identity_entry :: "nat \<Rightarrow> nat \<Rightarrow> u32" where
  "identity_entry i j = (of_nat i * of_nat PAGES_PER_TABLE + of_nat j) * PAGE_SIZE OR PAGE_PRESENT OR PAGE_WRITE"

text \<open>Where the linker puts the static tables: page-aligned, apart, not at address 0.\<close>

definition kernel_layout :: "ptr \<Rightarrow> ptr \<Rightarrow> bool" where
  "kernel_layout dir tables \<longleftrightarrow> aligned dir \<and> aligned tables \<and> dir \<noteq> NULL \<and> tables \<noteq> NULL \<and>
     unat tables + 16384 \<le> 2 ^ 32 \<and> (unat dir < unat tables \<or> unat tables + 16384 \<le> unat dir)"

lemma table_at_facts:
  assumes "kernel_layout dir tables" "i < 4"
  shows "aligned (table_at tables i)" "unat (table_at tables i) = unat tables + 4096 * i"
    "table_at tables i \<noteq> dir" "table_at tables i \<noteq> NULL"
proof -
  have four: "unat (of_nat (4096 * i) :: u32) = 4096 * i"
    using assms(2) by (intro of_nat_unat_less) simp
  have "unat tables + unat (of_nat (4096 * i) :: u32) < 2 ^ 32"
    unfolding four using assms unfolding kernel_layout_def by linarith
  then show u: "unat (table_at tables i) = unat tables + 4096 * i"
    using four unfolding table_at_def by (metis unat_add_no_wrap)
  show "aligned (table_at tables i)" using assms(1) unfolding aligned_def u kernel_layout_def by simp
  have "unat (table_at tables i) \<noteq> unat dir" unfolding u
    using assms unfolding kernel_layout_def by linarith
  then show "table_at tables i \<noteq> dir" by auto
  have "unat tables \<noteq> 0" using assms(1) unfolding kernel_layout_def by (metis unat_eq_0)
  then show "table_at tables i \<noteq> NULL" using u by auto
qed

lemma table_at_inj:
  "kernel_layout dir tables \<Longrightarrow> i < 4 \<Longrightarrow> j < 4 \<Longrightarrow> table_at tables i = table_at tables j \<Longrightarrow> i = j"
proof -
  assume a: "kernel_layout dir tables" "i < 4" "j < 4" "table_at tables i = table_at tables j"
  have "unat tables + 4096 * i = unat tables + 4096 * j"
    using table_at_facts(2)[OF a(1,2)] table_at_facts(2)[OF a(1,3)] a(4) by metis
  then show "i = j" by simp
qed

lemma init_table_effect:
  assumes l: "kernel_layout dir tables" "i < 4" and q: "aligned q" "j < 1024"
  shows "init_table dir tables i m (entry_addr q j) =
    (if q = dir then (if j = i then table_at tables i OR PAGE_PRESENT OR PAGE_WRITE else m (entry_addr dir j))
     else if q = table_at tables i then identity_entry i j else m (entry_addr q j))"
proof -
  note t = table_at_facts[OF l]
  let ?t = "table_at tables i"
  have dir: "aligned dir" using l(1) by (simp add: kernel_layout_def)
  let ?f = "fold (\<lambda>j m. m(entry_addr ?t j := identity_entry i j)) [0..<PAGES_PER_TABLE] (clear_page ?t m)"
  have run: "init_table dir tables i m = ?f(entry_addr dir i := ?t OR PAGE_PRESENT OR PAGE_WRITE)"
    by (simp add: init_table_def Let_def table_at_def identity_entry_def)
  have hit: "?f (entry_addr ?t j) = identity_entry i j"
    by (rule fold_words_hit) (use t(1) q(2) in \<open>simp_all add: PAGES_PER_TABLE_def\<close>)
  have miss: "?f (entry_addr q j) = m (entry_addr q j)" if "q \<noteq> ?t"
    using that t(1) q by (subst fold_words_miss) (simp_all add: PAGES_PER_TABLE_def entry_addr_eq clear_page_miss)
  have i: "i < 1024" using l(2) by simp
  show ?thesis
    unfolding run using entry_addr_eq[OF q(1) dir q(2) i] hit miss t(3) by auto
qed

lemma paging_init_tables:
  assumes l: "kernel_layout (kernel_directory s) (kernel_tables s)" and n: "n \<le> 4"
    and m0: "m0 = clear_page (kernel_directory s) (phys s)"
  shows "(\<forall>i<1024. fold (init_table (kernel_directory s) (kernel_tables s)) [0..<n] m0
        (entry_addr (kernel_directory s) i) =
      (if i < n then table_at (kernel_tables s) i OR PAGE_PRESENT OR PAGE_WRITE else 0)) \<and>
    (\<forall>i<n. \<forall>j<1024. fold (init_table (kernel_directory s) (kernel_tables s)) [0..<n] m0
        (entry_addr (table_at (kernel_tables s) i) j) = identity_entry i j)"
  using n
proof (induction n)
  case 0
  have "aligned (kernel_directory s)" using l by (simp add: kernel_layout_def)
  then show ?case by (simp add: m0 clear_page_hit)
next
  case (Suc n)
  have n: "n < 4" using Suc.prems by simp
  have dir: "aligned (kernel_directory s)" using l by (simp add: kernel_layout_def)
  note eff = init_table_effect[OF l n]
  have IH: "\<forall>i<1024. fold (init_table (kernel_directory s) (kernel_tables s)) [0..<n] m0
        (entry_addr (kernel_directory s) i) =
      (if i < n then table_at (kernel_tables s) i OR PAGE_PRESENT OR PAGE_WRITE else 0)"
    "\<forall>i<n. \<forall>j<1024. fold (init_table (kernel_directory s) (kernel_tables s)) [0..<n] m0
        (entry_addr (table_at (kernel_tables s) i) j) = identity_entry i j"
    using Suc.IH n by auto
  show ?case
  proof (intro conjI allI impI)
    fix i :: nat
    assume "i < 1024"
    then show "fold (init_table (kernel_directory s) (kernel_tables s)) [0..<Suc n] m0 (entry_addr (kernel_directory s) i) =
        (if i < Suc n then table_at (kernel_tables s) i OR PAGE_PRESENT OR PAGE_WRITE else 0)"
      using IH(1) by (simp add: eff[OF dir] less_Suc_eq)
  next
    fix i j :: nat
    assume i: "i < Suc n" and j: "j < 1024"
    then have i4: "i < 4" using n by simp
    note t = table_at_facts[OF l i4]
    show "fold (init_table (kernel_directory s) (kernel_tables s)) [0..<Suc n] m0
        (entry_addr (table_at (kernel_tables s) i) j) = identity_entry i j"
      using IH(2) i j t(3) table_at_inj[OF l i4 n] by (auto simp: eff[OF t(1) j] less_Suc_eq)
  qed
qed

lemma paging_init_pde:
  assumes "kernel_layout (kernel_directory s) (kernel_tables s)" "i < 1024"
  shows "pde (paging_init s) i =
    (if i < 4 then table_at (kernel_tables s) i OR PAGE_PRESENT OR PAGE_WRITE else 0)"
  using paging_init_tables[OF assms(1) _ refl, of 4] assms(2) by (simp add: pde_def paging_init_def Let_def)

lemma paging_init_pte:
  assumes l: "kernel_layout (kernel_directory s) (kernel_tables s)"
  shows "pte (paging_init s) v = (if v < 4096 then identity_entry (v div 1024) (v mod 1024) else 0)"
proof (cases "v < 1048576")
  case True
  have d: "v div 1024 < 1024" using page_dir_less[OF True] .
  have lt: "v div 1024 < 4 \<longleftrightarrow> v < 4096" by (auto simp: div_less_iff_less_mult)
  show ?thesis
  proof (cases "v < 4096")
    case v: True
    then have d4: "v div 1024 < 4" using lt by simp
    note t = table_at_facts[OF l d4]
    show ?thesis
      using True v d4 paging_init_pde[OF l d] entry_flags[OF t(1)] paging_init_tables[OF l _ refl, of 4]
      by (simp add: pte_def) (simp add: paging_init_def Let_def)
  next
    case False
    with lt True paging_init_pde[OF l d] show ?thesis by (simp add: pte_def)
  qed
qed (simp add: pte_def)

lemma paging_init_wf:
  assumes l: "kernel_layout (kernel_directory s) (kernel_tables s)"
    and f: "pmm_wf (pg_frames s)" "frames.in_use (pg_frames s) NULL"
    and k: "frames.in_use (pg_frames s) (kernel_directory s)"
      "\<forall>i<4. frames.in_use (pg_frames s) (table_at (kernel_tables s) i)"
  shows "pg_wf (paging_init s)"
proof -
  note pd = paging_init_pde[OF l]
  have cd: "current_directory (paging_init s) = kernel_directory s" "pg_frames (paging_init s) = pg_frames s"
    by (simp_all add: paging_init_def Let_def)
  have pg: "page_of (pde (paging_init s) i) = table_at (kernel_tables s) i" "i < 4"
    if "i < 1024" "present (pde (paging_init s) i)" for i
    using that(2) entry_flags(2)[OF table_at_facts(1)[OF l]] unfolding pd[OF that(1)] by (auto split: if_splits)
  have "\<forall>i<1024. present (pde (paging_init s) i) \<longrightarrow> frames.in_use (pg_frames s) (page_of (pde (paging_init s) i)) \<and>
      page_of (pde (paging_init s) i) \<noteq> kernel_directory s \<and> page_of (pde (paging_init s) i) \<noteq> NULL"
    using pg k(2) table_at_facts(3,4)[OF l] by simp
  moreover have "i = j" if "i < 1024" "j < 1024" "present (pde (paging_init s) i)" "present (pde (paging_init s) j)"
      "page_of (pde (paging_init s) i) = page_of (pde (paging_init s) j)" for i j
    using pg[OF that(1,3)] pg[OF that(2,4)] that(5) table_at_inj[OF l] by metis
  ultimately show ?thesis
    using f k(1) l unfolding pg_wf_def cd by (auto simp: kernel_layout_def)
qed

lemma identity_entry_page:
  "identity_entry (v div 1024) (v mod 1024) = of_nat (4096 * v) OR PAGE_PRESENT OR PAGE_WRITE"
proof -
  have "(of_nat (v div 1024) * of_nat PAGES_PER_TABLE + of_nat (v mod 1024) :: u32) =
      of_nat (v div 1024 * 1024 + v mod 1024)"
    by (simp only: of_nat_add of_nat_mult PAGES_PER_TABLE_def)
  then have "(of_nat (v div 1024) * of_nat PAGES_PER_TABLE + of_nat (v mod 1024) :: u32) = of_nat v"
    by (simp only: div_mult_mod_eq)
  then show ?thesis by (simp add: identity_entry_def mult.commute)
qed

lemma page_offset: "page_of (a :: u32) OR (a AND 0xFFF) = a"
proof -
  have "(0xFFF :: u32) = mask 12" by (simp add: mask_eq_exp_minus_1)
  then have "page_of a OR (a AND 0xFFF) = (a AND NOT (mask 12)) OR (a AND mask 12)"
    by (simp only: page_mask)
  also have "\<dots> = a"
    by (intro bit_eqI) (auto simp: bit_and_iff bit_or_iff bit_not_iff bit_mask_iff)
  finally show ?thesis .
qed

lemma page_of_vpn: "page_of a = of_nat (4096 * vpn a)"
  using unat_page[of a] by (metis unat_eq_of_nat vpn_def)

section \<open>Properties\<close>

text \<open>
  C4. Mapping a page: when the page has a table or there is a frame for one, the address then
  translates to the frame given, at the same offset; otherwise nothing changes (and the caller is
  not told). Every other page translates as before, and the tables stay well-formed.
\<close>
theorem paging_map_translate:
  assumes wf: "pg_wf s" and flags: "page_of flags = 0"
  shows "\<exists>s'. paging_map_page pa virt flags s = Some s' \<and> pg_wf s' \<and>
    (if can_map virt s
     then paging_get_physical_address virt s' = Some (page_of pa OR (virt AND 0xFFF)) else s' = s) \<and>
    (\<forall>u. vpn u \<noteq> vpn virt \<longrightarrow> paging_get_physical_address u s' = paging_get_physical_address u s)"
proof -
  obtain s' where s': "paging_map_page pa virt flags s = Some s'" "pg_wf s'"
      "if can_map virt s then pte s' = (pte s)(vpn virt := page_of pa OR flags OR PAGE_PRESENT) else s' = s"
    using map_page_run[OF wf] by blast
  then show ?thesis
    using page_entry[OF flags, of pa]
    by (cases "can_map virt s") (auto simp: get_physical_eq[OF s'(2)] get_physical_eq[OF wf])
qed

text \<open>Unmapping a page: the address no longer translates, every other page is untouched.\<close>
theorem paging_unmap_correct:
  assumes wf: "pg_wf s"
  shows "\<exists>s'. paging_unmap_page virt s = Some s' \<and> pg_wf s' \<and>
    paging_get_physical_address virt s' = Some NULL \<and>
    (\<forall>u. vpn u \<noteq> vpn virt \<longrightarrow> paging_get_physical_address u s' = paging_get_physical_address u s)"
proof -
  obtain s' where s': "paging_unmap_page virt s = Some s'" "pg_wf s'" "pte s' = (pte s)(vpn virt := 0)"
    using unmap_page_run[OF wf] by blast
  then show ?thesis by (auto simp: get_physical_eq[OF s'(2)] get_physical_eq[OF wf])
qed

text \<open>
  \<open>paging_init\<close> maps the first 16 MiB, and nothing else, each address to itself, in tables
  that are well-formed when the frames of the static tables are in use.
\<close>
theorem paging_init_identity:
  assumes l: "kernel_layout (kernel_directory s) (kernel_tables s)"
    and f: "pmm_wf (pg_frames s)" "frames.in_use (pg_frames s) NULL"
    and k: "frames.in_use (pg_frames s) (kernel_directory s)"
      "\<forall>i<4. frames.in_use (pg_frames s) (table_at (kernel_tables s) i)"
  shows "pg_wf (paging_init s) \<and>
    paging_get_physical_address a (paging_init s) = Some (if unat a < 0x1000000 then a else NULL)"
proof -
  have wf: "pg_wf (paging_init s)" by (rule paging_init_wf[OF assms])
  have lt: "vpn a < 4096 \<longleftrightarrow> unat a < 0x1000000" by (simp add: vpn_def div_less_iff_less_mult)
  have al: "aligned (of_nat (4096 * vpn a))" using aligned_block[of "vpn a"] by simp
  show ?thesis
  proof (cases "vpn a < 4096")
    case True
    with lt have u: "unat a < 0x1000000" by simp
    have "pte (paging_init s) (vpn a) = of_nat (4096 * vpn a) OR PAGE_PRESENT OR PAGE_WRITE"
      using True by (simp only: paging_init_pte[OF l] identity_entry_page if_True)
    then have "paging_get_physical_address a (paging_init s) = Some (page_of a OR (a AND 0xFFF))"
      using entry_flags[OF al] by (simp only: get_physical_eq[OF wf] page_of_vpn) simp
    with wf u show ?thesis by (simp only: page_offset if_True)
  next
    case False
    with lt wf show ?thesis by (simp add: get_physical_eq[OF wf] paging_init_pte[OF l])
  qed
qed

text \<open>A machine to evaluate them on: 16 MiB, all of it in use, the static tables at 1 MiB.\<close>

definition sample_paging :: paging where
  "sample_paging = \<lparr>phys = (\<lambda>_. 0), pg_frames = pmm_init 0x1000000, current_directory = NULL,
     kernel_directory = 0x100000, kernel_tables = 0x101000, cr0 = 0, cr3 = 0\<rparr>"

lemma sample_layout: "kernel_layout (kernel_directory sample_paging) (kernel_tables sample_paging)"
  by (simp add: sample_paging_def kernel_layout_def aligned_def)

lemma sample_frames:
  "pmm_wf (pg_frames sample_paging)" "frames.in_use (pg_frames sample_paging) NULL"
  "frames.in_use (pg_frames sample_paging) (kernel_directory sample_paging)"
  "\<forall>i<4. frames.in_use (pg_frames sample_paging) (table_at (kernel_tables sample_paging) i)"
proof -
  show "pmm_wf (pg_frames sample_paging)" by (simp add: sample_paging_def pmm_init_wf)
  show "frames.in_use (pg_frames sample_paging) NULL"
    "frames.in_use (pg_frames sample_paging) (kernel_directory sample_paging)"
    by (simp_all add: sample_paging_def frames.in_use_def pmm_init_used)
  have "unat (table_at (kernel_tables sample_paging) i) div 4096 < 32768" if "i < 4" for i
    unfolding table_at_facts(2)[OF sample_layout that] using that by (simp add: sample_paging_def)
  then show "\<forall>i<4. frames.in_use (pg_frames sample_paging) (table_at (kernel_tables sample_paging) i)"
    unfolding frames.in_use_def by (simp add: sample_paging_def pmm_init_used)
qed

lemma paging_init_identity_witness:
  "paging_get_physical_address 0xB8004 (paging_init sample_paging) = Some 0xB8004"
  using paging_init_identity[OF sample_layout sample_frames, of "0xB8004"] by simp

lemma sample_wf: "pg_wf (paging_init sample_paging)"
  by (rule paging_init_wf[OF sample_layout sample_frames])

lemma sample_can_map: "can_map 0x400000 (paging_init sample_paging)"
proof -
  have v: "vpn 0x400000 div 1024 = 1" by (simp add: vpn_def)
  have pd: "pde (paging_init sample_paging) 1 =
      table_at (kernel_tables sample_paging) 1 OR PAGE_PRESENT OR PAGE_WRITE"
    using paging_init_pde[OF sample_layout, of 1] by simp
  have "present (pde (paging_init sample_paging) 1)"
    unfolding pd using entry_flags(1)[OF table_at_facts(1)[OF sample_layout, of 1]] by simp
  then show ?thesis unfolding can_map_def v by (rule disjI1)
qed

lemma paging_map_translate_witness:
  "\<exists>s'. paging_map_page 0xB8000 0x400000 7 (paging_init sample_paging) = Some s' \<and>
     paging_get_physical_address 0x400000 s' = Some 0xB8000"
  using paging_map_translate[OF sample_wf, of 7 "0xB8000" "0x400000"] sample_can_map by auto

lemma paging_unmap_correct_witness:
  "\<exists>s'. paging_unmap_page 0x400000 (paging_init sample_paging) = Some s' \<and>
     paging_get_physical_address 0x400000 s' = Some NULL"
  using paging_unmap_correct[OF sample_wf, of "0x400000"] by auto

end
