(* ===== verification/Task.thy ===== *)
theory Task
  imports Kmalloc Paging
begin

text \<open>
  Tasks and the round-robin scheduler (\<open>src/src/kernel/task.c\<close>, with the context switch of
  \<open>src/src/kernel/task_switch.s\<close>). Tasks live in the kernel heap, in a store from addresses to
  tasks, and form a circular list through their \<open>next\<close> pointers whose last element
  \<open>ready_queue\<close> points to. The theory reads that list as a queue, shows that creating a task
  appends to it and that yielding rotates it, and derives that the scheduler is a round robin.
\<close>

section \<open>State\<close>

datatype task_state = TASK_RUNNING | TASK_READY | TASK_BLOCKED | TASK_SLEEPING | TASK_ZOMBIE

datatype task_priority = PRIORITY_HIGH | PRIORITY_NORMAL | PRIORITY_LOW | PRIORITY_IDLE

record registers_state =
  r_eax :: u32
  r_ebx :: u32
  r_ecx :: u32
  r_edx :: u32
  r_esi :: u32
  r_edi :: u32
  r_ebp :: u32
  r_esp :: u32
  r_eip :: u32
  r_eflags :: u32
  r_cr3 :: u32

record task =
  t_pid :: u32
  t_name :: cstring
  t_state :: task_state
  t_regs :: registers_state
  t_kernel_stack :: u32
  t_time_slice :: u32
  t_next :: ptr
  t_priority :: task_priority
  t_base_priority :: task_priority
  t_quantum :: u32
  t_ticks_used :: u32
  t_total_ticks :: u32
  t_context_switches :: u32
  t_created_time :: u32
  t_sleep_until :: u32
  t_wait_on :: ptr
  t_parent :: ptr
  t_child :: ptr
  t_sibling :: ptr
  t_exit_code :: int
  t_iopb :: ptr

definition MAX_TASKS :: nat where "MAX_TASKS = 32"
definition TIME_SLICE :: u32 where "TIME_SLICE = 5"

text \<open>\<open>sizeof (struct task)\<close>, and the offset of its member \<open>regs\<close>.\<close>

definition sizeof_task :: u32 where "sizeof_task = 152"
definition offset_regs :: u32 where "offset_regs = 40"

text \<open>
  The static variables of \<open>task.c\<close>, with the kernel heap, the store of the tasks in it and the
  registers of the processor as a task sees them at the return of \<open>task_switch\<close>.
\<close>

record tasking =
  tk_heap :: heap
  task_mem :: "ptr \<rightharpoonup> task"
  tasks :: "ptr list"
  current_task :: ptr
  ready_queue :: ptr
  next_pid :: u32
  tasking_enabled :: bool
  global_ticks :: u32
  cpu :: registers_state

section \<open>Operations\<close>

definition task_upd :: "ptr \<Rightarrow> (task \<Rightarrow> task) \<Rightarrow> tasking \<Rightarrow> tasking option" where
  "task_upd p f s = do { t \<leftarrow> task_mem s p; Some (s\<lparr>task_mem := (task_mem s)(p \<mapsto> f t)\<rparr>) }"

definition simple_queue_add :: "ptr \<Rightarrow> tasking \<Rightarrow> tasking option" where
  "simple_queue_add task s =
     (if ready_queue s = NULL
      then task_upd task (\<lambda>t. t\<lparr>t_next := task\<rparr>) (s\<lparr>ready_queue := task\<rparr>)
      else do {
        rq \<leftarrow> task_mem s (ready_queue s);
        s \<leftarrow> task_upd task (\<lambda>t. t\<lparr>t_next := t_next rq\<rparr>) s;
        s \<leftarrow> task_upd (ready_queue s) (\<lambda>t. t\<lparr>t_next := task\<rparr>) s;
        Some (s\<lparr>ready_queue := task\<rparr>)
      })"

text \<open>
  \<open>task_init\<close>: the members of the idle task that the code does not set (its registers and its
  stack) keep what the heap memory held, the argument \<open>old\<close>.
\<close>

definition idle_task :: "ptr \<Rightarrow> task \<Rightarrow> task" where
  "idle_task p old = old\<lparr>t_pid := 0, t_name := cstr ''idle'', t_state := TASK_RUNNING,
     t_time_slice := TIME_SLICE, t_priority := PRIORITY_IDLE, t_base_priority := PRIORITY_IDLE,
     t_quantum := TIME_SLICE, t_ticks_used := 0, t_total_ticks := 0, t_context_switches := 0,
     t_created_time := 0, t_sleep_until := 0, t_wait_on := NULL, t_parent := NULL, t_child := NULL,
     t_sibling := NULL, t_exit_code := 0, t_iopb := NULL, t_next := p\<rparr>"

definition task_init :: "task \<Rightarrow> tasking \<Rightarrow> tasking option" where
  "task_init old s = do {
     (p, h) \<leftarrow> kmalloc sizeof_task (tk_heap s);
     require (p \<noteq> NULL);
     Some (s\<lparr>tk_heap := h, task_mem := (task_mem s)(p \<mapsto> idle_task p old),
       tasks := (replicate MAX_TASKS NULL)[0 := p], current_task := p, ready_queue := p,
       tasking_enabled := True\<rparr>)
   }"

text \<open>The task block that \<open>task_create\<close> fills in (\<open>next\<close> is set when it is queued).\<close>

definition new_task :: "cstring \<Rightarrow> ptr \<Rightarrow> ptr \<Rightarrow> u32 \<Rightarrow> tasking \<Rightarrow> task" where
  "new_task name entry_point kdir kernel_stack s =
     \<lparr>t_pid = next_pid s, t_name = strncpy_buf 32 name, t_state = TASK_READY,
      t_regs = \<lparr>r_eax = 0, r_ebx = 0, r_ecx = 0, r_edx = 0, r_esi = 0, r_edi = 0, r_ebp = 0,
        r_esp = kernel_stack, r_eip = entry_point, r_eflags = 0x202, r_cr3 = kdir\<rparr>,
      t_kernel_stack = kernel_stack, t_time_slice = TIME_SLICE, t_next = NULL,
      t_priority = PRIORITY_NORMAL, t_base_priority = PRIORITY_NORMAL, t_quantum = TIME_SLICE,
      t_ticks_used = 0, t_total_ticks = 0, t_context_switches = 0, t_created_time = global_ticks s,
      t_sleep_until = 0, t_wait_on = NULL, t_parent = current_task s, t_child = NULL,
      t_sibling = NULL, t_exit_code = 0, t_iopb = NULL\<rparr>"

definition task_create :: "cstring \<Rightarrow> ptr \<Rightarrow> ptr \<Rightarrow> tasking \<Rightarrow> (u32 \<times> tasking) option" where
  "task_create name entry_point kdir s = do {
     (p, h) \<leftarrow> kmalloc sizeof_task (tk_heap s);
     if p = NULL then Some (0, s\<lparr>tk_heap := h\<rparr>)
     else do {
       (stack, h) \<leftarrow> kmalloc 4096 h;
       let t = new_task name entry_point kdir (stack + 4096) s;
       let table = (case find_first 1 (MAX_TASKS - 1) (\<lambda>i. tasks s ! i = NULL) of
             Some i \<Rightarrow> (tasks s)[i := p] | None \<Rightarrow> tasks s);
       s' \<leftarrow> simple_queue_add p (s\<lparr>tk_heap := h, next_pid := next_pid s + 1,
         task_mem := (task_mem s)(p \<mapsto> t), tasks := table\<rparr>);
       Some (next_pid s, s')
     }
   }"

definition task_get_current :: "tasking \<Rightarrow> ptr" where
  "task_get_current s = current_task s"

definition get_current_task :: "tasking \<Rightarrow> ptr" where
  "get_current_task s = task_get_current s"

text \<open>
  \<open>task_switch\<close> in assembly: save the registers of the old task (\<open>eax\<close> and \<open>edx\<close> carry its two
  arguments and are not saved), load those of the new one.
\<close>

definition save_context :: "registers_state \<Rightarrow> registers_state \<Rightarrow> registers_state" where
  "save_context c old = old\<lparr>r_ebx := r_ebx c, r_ecx := r_ecx c, r_esi := r_esi c, r_edi := r_edi c,
     r_ebp := r_ebp c, r_esp := r_esp c, r_eip := r_eip c, r_eflags := r_eflags c, r_cr3 := r_cr3 c\<rparr>"

definition load_context :: "ptr \<Rightarrow> registers_state \<Rightarrow> registers_state" where
  "load_context new_regs new = \<lparr>r_eax = r_eip new, r_ebx = r_ebx new, r_ecx = r_ecx new,
     r_edx = new_regs, r_esi = r_esi new, r_edi = r_edi new, r_ebp = r_ebp new, r_esp = r_esp new,
     r_eip = r_eip new, r_eflags = r_eflags new, r_cr3 = r_cr3 new\<rparr>"

definition task_switch :: "ptr \<Rightarrow> ptr \<Rightarrow> tasking \<Rightarrow> tasking option" where
  "task_switch old new s = do {
     s \<leftarrow> task_upd old (\<lambda>t. t\<lparr>t_regs := save_context (cpu s) (t_regs t)\<rparr>) s;
     t \<leftarrow> task_mem s new;
     Some (s\<lparr>cpu := load_context (new + offset_regs) (t_regs t)\<rparr>)
   }"

text \<open>The loop that skips zombies, with the attempts it has left; the result is \<open>ready_queue\<close>.\<close>

fun skip_zombies :: "nat \<Rightarrow> (ptr \<rightharpoonup> task) \<Rightarrow> ptr \<Rightarrow> ptr option" where
  "skip_zombies 0 m rq = do {
     r \<leftarrow> m rq;
     next \<leftarrow> m (t_next r);
     Some rq
   }"
| "skip_zombies (Suc n) m rq = do {
     r \<leftarrow> m rq;
     next \<leftarrow> m (t_next r);
     if t_state next = TASK_ZOMBIE then skip_zombies n m (t_next r) else Some rq
   }"

text \<open>The part of \<open>task_schedule\<close> that changes the task.\<close>

definition switch_next :: "tasking \<Rightarrow> tasking option" where
  "switch_next s = do {
     let old_task = current_task s;
     rq \<leftarrow> skip_zombies 32 (task_mem s) (ready_queue s);
     r \<leftarrow> task_mem s rq;
     let next = t_next r;
     let s = s\<lparr>current_task := next, ready_queue := next\<rparr>;
     s \<leftarrow> task_upd next (\<lambda>t. if t_state t \<noteq> TASK_ZOMBIE
         then t\<lparr>t_time_slice := TIME_SLICE, t_state := TASK_RUNNING,
                t_context_switches := t_context_switches t + 1\<rparr> else t) s;
     s \<leftarrow> task_upd old_task (\<lambda>t. if t_state t = TASK_RUNNING then t\<lparr>t_state := TASK_READY\<rparr> else t) s;
     if old_task \<noteq> next then task_switch old_task next s else Some s
   }"

definition task_schedule :: "tasking \<Rightarrow> tasking option" where
  "task_schedule s =
     (if \<not> tasking_enabled s \<or> ready_queue s = NULL then Some s
      else do {
        let s = s\<lparr>global_ticks := global_ticks s + 1\<rparr>;
        s \<leftarrow> task_upd (current_task s) (\<lambda>t. if t_state t = TASK_RUNNING
            then t\<lparr>t_total_ticks := t_total_ticks t + 1\<rparr> else t) s;
        s \<leftarrow> task_upd (current_task s) (\<lambda>t. if t_time_slice t > 0
            then t\<lparr>t_time_slice := t_time_slice t - 1\<rparr> else t) s;
        c \<leftarrow> task_mem s (current_task s);
        if t_time_slice c = 0 \<or> t_state c = TASK_ZOMBIE \<or> t_state c = TASK_BLOCKED
        then switch_next s else Some s
      })"

definition task_yield :: "tasking \<Rightarrow> tasking option" where
  "task_yield s =
     (if \<not> tasking_enabled s then Some s
      else do {
        s \<leftarrow> task_upd (current_task s) (\<lambda>t. t\<lparr>t_time_slice := 0\<rparr>) s;
        task_schedule s
      })"

definition task_find_by_pid :: "u32 \<Rightarrow> tasking \<Rightarrow> ptr option" where
  "task_find_by_pid pid s = do {
     require (\<forall>i<MAX_TASKS. tasks s ! i \<noteq> NULL \<longrightarrow> task_mem s (tasks s ! i) \<noteq> None);
     Some (case find_first 0 MAX_TASKS (\<lambda>i. tasks s ! i \<noteq> NULL \<and>
         map_option t_pid (task_mem s (tasks s ! i)) = Some pid) of
       Some i \<Rightarrow> tasks s ! i | None \<Rightarrow> NULL)
   }"

definition task_set_priority :: "ptr \<Rightarrow> task_priority \<Rightarrow> tasking \<Rightarrow> tasking option" where
  "task_set_priority task priority s =
     (if task \<noteq> NULL
      then task_upd task (\<lambda>t. t\<lparr>t_priority := priority, t_base_priority := priority\<rparr>) s else Some s)"

definition task_get_priority :: "ptr \<Rightarrow> tasking \<Rightarrow> task_priority option" where
  "task_get_priority task s =
     (if task \<noteq> NULL then map_option t_priority (task_mem s task) else Some PRIORITY_IDLE)"

text \<open>The stubs, and \<open>task_exit\<close> up to the endless loop it ends in.\<close>

definition task_sleep :: "u32 \<Rightarrow> tasking \<Rightarrow> tasking" where "task_sleep ticks s = s"
definition task_wake :: "ptr \<Rightarrow> tasking \<Rightarrow> tasking" where "task_wake task s = s"
definition task_check_sleeping :: "tasking \<Rightarrow> tasking" where "task_check_sleeping s = s"
definition task_get_ticks :: "tasking \<Rightarrow> u32" where "task_get_ticks s = global_ticks s"
definition task_fork_with_regs :: "tasking \<Rightarrow> int \<times> tasking" where "task_fork_with_regs s = (- 1, s)"
definition task_waitpid :: "int \<Rightarrow> tasking \<Rightarrow> int \<times> tasking" where "task_waitpid pid s = (- 1, s)"

definition task_exit :: "int \<Rightarrow> tasking \<Rightarrow> tasking option" where
  "task_exit exit_code s = task_upd (current_task s) (\<lambda>t. t\<lparr>t_state := TASK_ZOMBIE\<rparr>) s"

section \<open>The ready queue\<close>

text \<open>\<open>path m p xs q\<close>: from \<open>p\<close>, the \<open>next\<close> pointers visit \<open>xs\<close> and then reach \<open>q\<close>.\<close>

fun path :: "(ptr \<rightharpoonup> task) \<Rightarrow> ptr \<Rightarrow> ptr list \<Rightarrow> ptr \<Rightarrow> bool" where
  "path m p [] q \<longleftrightarrow> p = q"
| "path m p (x # xs) q \<longleftrightarrow> p = x \<and> (case m x of None \<Rightarrow> False | Some t \<Rightarrow> path m (t_next t) xs q)"

text \<open>The circular list as a queue: its first task is the successor of \<open>ready_queue\<close>, its last.\<close>

definition ring :: "(ptr \<rightharpoonup> task) \<Rightarrow> ptr \<Rightarrow> ptr list \<Rightarrow> bool" where
  "ring m rq ts \<longleftrightarrow> ts \<noteq> [] \<and> distinct ts \<and> NULL \<notin> set ts \<and> last ts = rq \<and> path m (hd ts) ts (hd ts)"

definition link :: "(ptr \<rightharpoonup> task) \<Rightarrow> ptr \<Rightarrow> ptr option" where
  "link m x = map_option t_next (m x)"

lemma path_link: "path m p (x # xs) q \<longleftrightarrow> p = x \<and> (\<exists>n. link m x = Some n \<and> path m n xs q)"
  by (auto simp: link_def split: option.splits)

lemma path_cong: "(\<And>x. x \<in> set xs \<Longrightarrow> link m' x = link m x) \<Longrightarrow> path m' p xs q = path m p xs q"
  by (induction xs arbitrary: p) (simp_all add: path_link del: path.simps(2))

lemma path_append: "path m p (xs @ ys) q \<longleftrightarrow> (\<exists>r. path m p xs r \<and> path m r ys q)"
  by (induction xs arbitrary: p) (auto simp: path_link simp del: path.simps(2))

lemma path_snoc: "path m p (xs @ [x]) q \<longleftrightarrow> path m p xs x \<and> link m x = Some q"
  by (auto simp: path_append path_link simp del: path.simps(2))

lemma path_hd: "path m p (x # xs) q \<Longrightarrow> p = x"
  by simp

lemma path_mem: "path m p xs q \<Longrightarrow> x \<in> set xs \<Longrightarrow> \<exists>t. m x = Some t"
  by (induction xs arbitrary: p) (auto split: option.splits)

lemma ring_cong: "(\<And>x. x \<in> set ts \<Longrightarrow> link m' x = link m x) \<Longrightarrow> ring m' rq ts = ring m rq ts"
  unfolding ring_def using path_cong[of ts m' m] by auto

lemma ring_mem: "ring m rq ts \<Longrightarrow> x \<in> set ts \<Longrightarrow> \<exists>t. m x = Some t"
  unfolding ring_def using path_mem by blast

lemma ring_rq: "ring m rq ts \<Longrightarrow> rq \<in> set ts \<and> rq \<noteq> NULL \<and> link m rq = Some (hd ts)"
proof -
  assume r: "ring m rq ts"
  then obtain xs where ts: "ts = xs @ [rq]"
    unfolding ring_def by (metis append_butlast_last_id)
  from r have "path m (hd ts) (xs @ [rq]) (hd ts)" using ts unfolding ring_def by simp
  then have "link m rq = Some (hd ts)" by (simp add: path_snoc)
  moreover have "rq \<in> set ts" using ts by simp
  ultimately show ?thesis using r unfolding ring_def by auto
qed

lemma ring_next: "ring m rq ts \<Longrightarrow> \<exists>r n. m rq = Some r \<and> t_next r = hd ts \<and> m (hd ts) = Some n"
  using ring_rq[of m rq ts] ring_mem[of m rq ts "hd ts"] by (auto simp: link_def ring_def)

text \<open>Moving \<open>ready_queue\<close> one task on rotates the queue.\<close>

lemma ring_rotate: "ring m rq (x # xs) \<Longrightarrow> ring m x (xs @ [x])"
proof -
  assume r: "ring m rq (x # xs)"
  show ?thesis
  proof (cases xs)
    case Nil
    with r show ?thesis by (auto simp: ring_def)
  next
    case (Cons y ys)
    from r obtain n where n: "link m x = Some n" "path m n xs x"
      unfolding ring_def by (auto simp: path_link simp del: path.simps(2))
    from n(2) Cons have "n = y" by (auto simp: path_link simp del: path.simps(2))
    then have "path m y (xs @ [x]) y" using n by (simp add: path_snoc)
    with r Cons show ?thesis by (auto simp: ring_def)
  qed
qed

lemma next_same: "\<exists>n. t = (t :: task)\<lparr>t_next := n\<rparr>"
  by (intro exI[of _ "t_next t"]) simp

text \<open>A task linked in behind the last one is the new last one.\<close>

lemma ring_add:
  assumes r: "ring m rq ts" and p: "p \<notin> set ts" "p \<noteq> NULL" and u: "m rq = Some u"
  shows "ring (m(p \<mapsto> t\<lparr>t_next := t_next u\<rparr>, rq \<mapsto> u\<lparr>t_next := p\<rparr>)) p (ts @ [p])"
proof -
  let ?m = "m(p \<mapsto> t\<lparr>t_next := t_next u\<rparr>, rq \<mapsto> u\<lparr>t_next := p\<rparr>)"
  note rq = ring_rq[OF r]
  have hd: "t_next u = hd ts" using rq u by (simp add: link_def)
  have ne: "rq \<noteq> p" using rq p(1) by auto
  obtain xs where ts: "ts = xs @ [rq]" using r unfolding ring_def by (metis append_butlast_last_id)
  have "path m (hd ts) xs rq" using r ts unfolding ring_def by (metis path_snoc)
  moreover have "path ?m (hd ts) xs rq = path m (hd ts) xs rq"
    by (rule path_cong) (use r p(1) ts in \<open>auto simp: link_def ring_def\<close>)
  ultimately have "path ?m (hd ts) (xs @ [rq]) p"
    unfolding path_snoc using ne by (simp add: link_def)
  then have "path ?m (hd ts) ((xs @ [rq]) @ [p]) (hd ts)"
    unfolding path_snoc using ne hd by (simp add: link_def)
  then have "path ?m (hd ts) (ts @ [p]) (hd ts)" by (simp only: ts[symmetric])
  moreover have "hd (ts @ [p]) = hd ts" using r by (simp add: ring_def)
  ultimately have "path ?m (hd (ts @ [p])) (ts @ [p]) (hd (ts @ [p]))" by (simp only:)
  then show ?thesis using r p unfolding ring_def by simp
qed

text \<open>\<open>simple_queue_add\<close> puts a task at the end of the queue.\<close>

lemma simple_queue_add_ring:
  assumes r: "ring (task_mem s) (ready_queue s) ts" and p: "p \<notin> set ts" "p \<noteq> NULL" "task_mem s p = Some t"
  shows "\<exists>m. simple_queue_add p s = Some (s\<lparr>task_mem := m, ready_queue := p\<rparr>) \<and> ring m p (ts @ [p]) \<and>
    dom m = dom (task_mem s) \<and>
    (\<forall>x u. task_mem s x = Some u \<longrightarrow> (\<exists>n. m x = Some (u\<lparr>t_next := n\<rparr>)))"
proof -
  let ?rq = "ready_queue s" and ?m = "task_mem s"
  note rq = ring_rq[OF r]
  obtain u where u: "?m ?rq = Some u" using ring_next[OF r] by blast
  have ne: "?rq \<noteq> p" using rq p(1) by auto
  let ?m1 = "?m(p \<mapsto> t\<lparr>t_next := t_next u\<rparr>, ?rq \<mapsto> u\<lparr>t_next := p\<rparr>)"
  have "simple_queue_add p s = Some (s\<lparr>task_mem := ?m1, ready_queue := p\<rparr>)"
    using rq u p(3) ne by (simp add: simple_queue_add_def task_upd_def)
  moreover have "ring ?m1 p (ts @ [p])" by (rule ring_add[OF r p(1,2) u])
  moreover have "dom ?m1 = dom ?m" using p(3) u by auto
  moreover have "\<forall>x w. ?m x = Some w \<longrightarrow> (\<exists>n. ?m1 x = Some (w\<lparr>t_next := n\<rparr>))"
    using p(3) u by (auto intro: next_same)
  ultimately show ?thesis by blast
qed

section \<open>Invariant\<close>

text \<open>
  The state of tasking is well-formed with the ready queue \<open>ts\<close>: the heap is well-formed and holds
  the tasks, the queue is the circular list, the current task is on it.
\<close>

definition task_wf :: "tasking \<Rightarrow> ptr list \<Rightarrow> bool" where
  "task_wf s ts \<longleftrightarrow> heap_wf (tk_heap s) \<and> heap.store_ok (tk_heap s) (task_mem s) \<and>
     tasking_enabled s \<and> length (tasks s) = 32 \<and> (\<forall>p \<in> set (tasks s). p \<noteq> NULL \<longrightarrow> p \<in> dom (task_mem s)) \<and>
     ring (task_mem s) (ready_queue s) ts \<and> current_task s \<in> set ts"

lemma MAX_TASKS_eq [simp]: "MAX_TASKS = 32"
  by (simp add: MAX_TASKS_def)

definition zombie :: "tasking \<Rightarrow> ptr \<Rightarrow> bool" where
  "zombie s p \<longleftrightarrow> (case task_mem s p of None \<Rightarrow> False | Some t \<Rightarrow> t_state t = TASK_ZOMBIE)"

text \<open>Updates of a task that keep its \<open>next\<close> pointer keep the queue.\<close>

lemma task_upd_Some: "task_mem s p = Some t \<Longrightarrow> task_upd p f s = Some (s\<lparr>task_mem := (task_mem s)(p \<mapsto> f t)\<rparr>)"
  by (simp add: task_upd_def)

lemma ring_upd:
  "m p = Some t \<Longrightarrow> t_next t' = t_next t \<Longrightarrow> ring (m(p \<mapsto> t')) rq ts = ring m rq ts"
  by (rule ring_cong) (auto simp: link_def)

lemma task_wf_upd:
  "task_wf s ts \<Longrightarrow> task_mem s p = Some t \<Longrightarrow> t_next t' = t_next t \<Longrightarrow>
   task_wf (s\<lparr>task_mem := (task_mem s)(p \<mapsto> t')\<rparr>) ts"
  by (auto simp: task_wf_def ring_upd heap.store_ok_def)

lemma skip_zombies_step:
  "ring m rq ts \<Longrightarrow> skip_zombies (Suc n) m rq =
     (if (\<exists>t. m (hd ts) = Some t \<and> t_state t = TASK_ZOMBIE) then skip_zombies n m (hd ts) else Some rq)"
  using ring_next[of m rq ts] by auto

lemma skip_zombies_ring:
  assumes "ring m rq (zs @ x # ys)" "length zs \<le> n"
    and "\<And>z. z \<in> set zs \<Longrightarrow> \<exists>t. m z = Some t \<and> t_state t = TASK_ZOMBIE"
    and "m x = Some t" "t_state t \<noteq> TASK_ZOMBIE"
  shows "\<exists>rq'. skip_zombies n m rq = Some rq' \<and> ring m rq' (x # ys @ zs)"
  using assms
proof (induction zs arbitrary: n rq ys)
  case Nil
  then have r: "ring m rq (x # ys)" by simp
  then obtain r where "m rq = Some r" "t_next r = x" using ring_next by fastforce
  with r Nil show ?case by (cases n) auto
next
  case (Cons z zs)
  obtain k where k: "n = Suc k" using Cons.prems(2) by (cases n) auto
  have "ring m z ((zs @ x # ys) @ [z])" using ring_rotate[of m rq z "zs @ x # ys"] Cons.prems(1) by simp
  then obtain rq' where "skip_zombies k m z = Some rq'" "ring m rq' (x # (ys @ [z]) @ zs)"
    using Cons.IH[of z "ys @ [z]" k] Cons.prems k by auto
  moreover have "skip_zombies n m rq = skip_zombies k m z"
    unfolding k using skip_zombies_step[OF Cons.prems(1)] Cons.prems(3)[of z] by simp
  ultimately show ?case by auto
qed

text \<open>
  The switch: the task the loop stops at is current, running and last in the queue; the old task,
  if it was running, is ready; no other task changes.
\<close>

definition run_task :: "task \<Rightarrow> task" where
  "run_task t = t\<lparr>t_time_slice := TIME_SLICE, t_state := TASK_RUNNING, t_context_switches := t_context_switches t + 1\<rparr>"

lemma switch_next_core:
  assumes wf: "task_wf s ts" and rq: "skip_zombies 32 (task_mem s) (ready_queue s) = Some rq"
    "ring (task_mem s) rq (x # ws)" and perm: "set (x # ws) = set ts"
  shows "\<exists>s'. switch_next s = Some s' \<and> task_wf s' (ws @ [x]) \<and> current_task s' = x \<and>
    (\<forall>p. zombie s' p = zombie s p) \<and> dom (task_mem s') = dom (task_mem s) \<and>
    next_pid s' = next_pid s \<and> global_ticks s' = global_ticks s \<and>
    (\<forall>p. p \<noteq> x \<and> p \<noteq> current_task s \<longrightarrow> task_mem s' p = task_mem s p) \<and>
    (x \<noteq> current_task s \<longrightarrow> \<not> zombie s x \<longrightarrow> map_option t_state (task_mem s' x) = Some TASK_RUNNING \<and>
       map_option t_time_slice (task_mem s' x) = Some TIME_SLICE)"
proof -
  let ?m = "task_mem s" and ?c = "current_task s"
  have r: "ring ?m (ready_queue s) ts" and c_in: "?c \<in> set ts"
    using wf by (simp_all add: task_wf_def)
  obtain t where t: "?m x = Some t" using ring_mem[OF rq(2)] by fastforce
  obtain u where u: "?m rq = Some u" "t_next u = x" using ring_next[OF rq(2)] by auto
  obtain c where c: "?m ?c = Some c" using ring_mem[OF r c_in] by blast
  define t' where "t' = (if t_state t \<noteq> TASK_ZOMBIE then run_task t else t)"
  have t': "t_next t' = t_next t" "t_state t' = TASK_ZOMBIE \<longleftrightarrow> t_state t = TASK_ZOMBIE"
    by (auto simp: t'_def run_task_def)
  let ?s1 = "s\<lparr>current_task := x, ready_queue := x\<rparr>"
  have wf1: "task_wf ?s1 (ws @ [x])"
    using wf ring_rotate[OF rq(2)] perm by (auto simp: task_wf_def)
  let ?s2 = "?s1\<lparr>task_mem := ?m(x \<mapsto> t')\<rparr>"
  have wf2: "task_wf ?s2 (ws @ [x])"
    using task_wf_upd[OF wf1, of x t t'] t t'(1) by simp
  obtain d where d: "task_mem ?s2 ?c = Some d" using c by (cases "?c = x") auto
  let ?d = "if t_state d = TASK_RUNNING then d\<lparr>t_state := TASK_READY\<rparr> else d"
  let ?s3 = "?s2\<lparr>task_mem := (task_mem ?s2)(?c \<mapsto> ?d)\<rparr>"
  have wf3: "task_wf ?s3 (ws @ [x])"
    by (rule task_wf_upd[OF wf2 d]) simp
  have up1: "task_upd x (\<lambda>t. if t_state t \<noteq> TASK_ZOMBIE
         then t\<lparr>t_time_slice := TIME_SLICE, t_state := TASK_RUNNING,
                t_context_switches := t_context_switches t + 1\<rparr> else t) ?s1 = Some ?s2"
    using t by (simp add: task_upd_def run_task_def t'_def)
  have up2: "task_upd ?c (\<lambda>t. if t_state t = TASK_RUNNING then t\<lparr>t_state := TASK_READY\<rparr> else t) ?s2 = Some ?s3"
    by (rule task_upd_Some[OF d])
  have run: "switch_next s = (if ?c \<noteq> x then task_switch ?c x ?s3 else Some ?s3)"
    unfolding switch_next_def Let_def rq(1) u Option.bind.simps(2) up1 up2 ..
  have z3: "zombie ?s3 p = zombie s p" for p
    using t d t' c by (auto simp: zombie_def split: if_splits)
  have d3: "dom (task_mem ?s3) = dom ?m" using t c by auto
  show ?thesis
  proof (cases "?c = x")
    case True
    with run wf3 z3 d3 show ?thesis by simp
  next
    case False
    let ?e = "?d\<lparr>t_regs := save_context (cpu s) (t_regs ?d)\<rparr>"
    have m3: "task_mem ?s3 ?c = Some ?d" by simp
    have mx: "task_mem ?s3 x = Some t'" using False by simp
    let ?s4 = "?s3\<lparr>task_mem := (task_mem ?s3)(?c \<mapsto> ?e)\<rparr>"
    let ?s5 = "?s4\<lparr>cpu := load_context (x + offset_regs) (t_regs t')\<rparr>"
    have "task_wf ?s4 (ws @ [x])" by (rule task_wf_upd[OF wf3 m3]) simp
    then have wf5: "task_wf ?s5 (ws @ [x])" by (simp add: task_wf_def)
    have "switch_next s = Some ?s5"
      unfolding run using False mx by (simp add: task_switch_def task_upd_def)
    moreover have "zombie ?s5 p = zombie s p" for p
      using z3[of p] by (auto simp: zombie_def split: if_splits)
    moreover have "dom (task_mem ?s5) = dom ?m" using d3 by simp
    moreover have "task_mem ?s5 x = Some t'" using mx False by simp
    moreover have "\<not> zombie s x \<Longrightarrow> t' = run_task t" using t by (simp add: t'_def zombie_def)
    ultimately show ?thesis using wf5 False by (intro exI[of _ ?s5]) (simp add: run_task_def)
  qed
qed

text \<open>With a task that is no zombie among the first 33, it is the one that runs.\<close>

lemma switch_next_run:
  assumes wf: "task_wf s (zs @ x # ys)" and len: "length zs \<le> 32"
    and z: "\<And>z. z \<in> set zs \<Longrightarrow> zombie s z" and x: "\<not> zombie s x"
  shows "\<exists>s'. switch_next s = Some s' \<and> task_wf s' (ys @ zs @ [x]) \<and> current_task s' = x \<and>
    (\<forall>p. zombie s' p = zombie s p) \<and> next_pid s' = next_pid s \<and> global_ticks s' = global_ticks s \<and>
    (\<forall>p. p \<noteq> x \<and> p \<noteq> current_task s \<longrightarrow> task_mem s' p = task_mem s p) \<and>
    (x \<noteq> current_task s \<longrightarrow> map_option t_state (task_mem s' x) = Some TASK_RUNNING \<and>
       map_option t_time_slice (task_mem s' x) = Some TIME_SLICE)"
proof -
  have r: "ring (task_mem s) (ready_queue s) (zs @ x # ys)" using wf by (simp add: task_wf_def)
  obtain t where t: "task_mem s x = Some t" using ring_mem[OF r] by fastforce
  then have tz: "t_state t \<noteq> TASK_ZOMBIE" using x by (simp add: zombie_def)
  have zs: "\<exists>t. task_mem s z = Some t \<and> t_state t = TASK_ZOMBIE" if "z \<in> set zs" for z
    using z[OF that] by (auto simp: zombie_def split: option.splits)
  obtain rq where rq: "skip_zombies 32 (task_mem s) (ready_queue s) = Some rq" "ring (task_mem s) rq (x # ys @ zs)"
    using skip_zombies_ring[OF r len zs t tz] by blast
  have "set (x # ys @ zs) = set (zs @ x # ys)" by auto
  from switch_next_core[OF wf rq this] x show ?thesis by auto
qed

text \<open>Whatever the states of the tasks, the loop ends and the switch is defined.\<close>

lemma skip_zombies_total:
  "ring m rq ts \<Longrightarrow> \<exists>rq' ts'. skip_zombies n m rq = Some rq' \<and> ring m rq' ts' \<and> set ts' = set ts"
proof (induction n arbitrary: rq ts)
  case 0
  then show ?case using ring_next[OF 0] by auto
next
  case (Suc n)
  obtain x xs where ts: "ts = x # xs" using Suc.prems by (cases ts) (auto simp: ring_def)
  have "ring m x (xs @ [x])" using ring_rotate Suc.prems ts by blast
  from Suc.IH[OF this] obtain rq' ts' where "skip_zombies n m x = Some rq'" "ring m rq' ts'" "set ts' = set ts"
    using ts by auto
  then show ?case using skip_zombies_step[OF Suc.prems] Suc.prems ts by (cases "\<exists>t. m x = Some t \<and> t_state t = TASK_ZOMBIE") auto
qed

lemma switch_next_total:
  assumes wf: "task_wf s ts"
  shows "\<exists>s' ts'. switch_next s = Some s' \<and> task_wf s' ts' \<and> set ts' = set ts \<and> dom (task_mem s') = dom (task_mem s)"
proof -
  obtain rq ts' where rq: "skip_zombies 32 (task_mem s) (ready_queue s) = Some rq" "ring (task_mem s) rq ts'" "set ts' = set ts"
    using skip_zombies_total wf unfolding task_wf_def by blast
  obtain x ws where ts': "ts' = x # ws" using rq(2) by (cases ts') (auto simp: ring_def)
  from switch_next_core[OF wf rq(1) rq(2)[unfolded ts']] rq(3) ts' obtain s' where
      "switch_next s = Some s'" "task_wf s' (ws @ [x])" "dom (task_mem s') = dom (task_mem s)" by blast
  moreover have "set (ws @ [x]) = set ts" using rq(3) ts' by auto
  ultimately show ?thesis by blast
qed

text \<open>Both ways into the switch: a yield, and a tick that ends the time slice.\<close>

lemma task_yield_eq:
  assumes wf: "task_wf s ts"
  shows "\<exists>s1. task_yield s = switch_next s1 \<and> task_wf s1 ts \<and> current_task s1 = current_task s \<and>
    (\<forall>p. zombie s1 p = zombie s p) \<and> next_pid s1 = next_pid s \<and> global_ticks s1 = global_ticks s + 1 \<and>
    (\<forall>p. p \<noteq> current_task s \<longrightarrow> task_mem s1 p = task_mem s p) \<and> dom (task_mem s1) = dom (task_mem s)"
proof -
  let ?c = "current_task s"
  have "ring (task_mem s) (ready_queue s) ts" and en: "tasking_enabled s" using wf by (simp_all add: task_wf_def)
  then obtain t where t: "task_mem s ?c = Some t" and rq: "ready_queue s \<noteq> NULL"
    using wf ring_mem ring_rq unfolding task_wf_def by blast
  define t1 where "t1 = (if t_state t = TASK_RUNNING then t\<lparr>t_time_slice := 0, t_total_ticks := t_total_ticks t + 1\<rparr>
    else t\<lparr>t_time_slice := 0\<rparr>)"
  let ?s1 = "s\<lparr>global_ticks := global_ticks s + 1, task_mem := (task_mem s)(?c \<mapsto> t1)\<rparr>"
  have st: "t_next t1 = t_next t" "t_state t1 = t_state t" "t_time_slice t1 = 0"
    by (simp_all add: t1_def)
  have "task_yield s = switch_next ?s1"
    using en t rq st(3) by (simp add: task_yield_def task_schedule_def task_upd_def t1_def)
  moreover have "task_wf ?s1 ts"
    using task_wf_upd[OF wf t st(1)] by (simp add: task_wf_def)
  moreover have "zombie ?s1 p = zombie s p" for p
    using t st(2) by (simp add: zombie_def)
  moreover have "dom (task_mem ?s1) = dom (task_mem s)" using t by auto
  ultimately show ?thesis by (intro exI[of _ ?s1]) simp
qed

lemma task_yield_total:
  assumes wf: "task_wf s ts"
  shows "\<exists>s' ts'. task_yield s = Some s' \<and> task_wf s' ts' \<and> set ts' = set ts \<and> dom (task_mem s') = dom (task_mem s)"
  using task_yield_eq[OF wf] switch_next_total by metis

lemma task_schedule_total:
  assumes wf: "task_wf s ts"
  shows "\<exists>s' ts'. task_schedule s = Some s' \<and> task_wf s' ts' \<and> set ts' = set ts \<and> dom (task_mem s') = dom (task_mem s)"
proof -
  let ?c = "current_task s"
  have "ring (task_mem s) (ready_queue s) ts" and en: "tasking_enabled s" using wf by (simp_all add: task_wf_def)
  then obtain t where t: "task_mem s ?c = Some t" and rq: "ready_queue s \<noteq> NULL"
    using wf ring_mem ring_rq unfolding task_wf_def by blast
  define t1 where "t1 = (if t_state t = TASK_RUNNING then t\<lparr>t_total_ticks := t_total_ticks t + 1\<rparr> else t)"
  define t2 where "t2 = (if t_time_slice t1 > 0 then t1\<lparr>t_time_slice := t_time_slice t1 - 1\<rparr> else t1)"
  let ?s0 = "s\<lparr>global_ticks := global_ticks s + 1\<rparr>"
  let ?s2 = "?s0\<lparr>task_mem := (task_mem s)(?c \<mapsto> t2)\<rparr>"
  have wf0: "task_wf ?s0 ts" using wf by (simp add: task_wf_def)
  have wf2: "task_wf ?s2 ts"
    using task_wf_upd[OF wf0, of ?c t t2] t by (simp add: t1_def t2_def)
  let ?s1 = "?s0\<lparr>task_mem := (task_mem s)(?c \<mapsto> t1)\<rparr>"
  have up1: "task_upd ?c (\<lambda>t. if t_state t = TASK_RUNNING
            then t\<lparr>t_total_ticks := t_total_ticks t + 1\<rparr> else t) ?s0 = Some ?s1"
    using t by (simp add: task_upd_def t1_def)
  have up2: "task_upd ?c (\<lambda>t. if t_time_slice t > 0
            then t\<lparr>t_time_slice := t_time_slice t - 1\<rparr> else t) ?s1 = Some ?s2"
    by (simp add: task_upd_def t2_def)
  have run: "task_schedule s = (if t_time_slice t2 = 0 \<or> t_state t2 = TASK_ZOMBIE \<or> t_state t2 = TASK_BLOCKED
      then switch_next ?s2 else Some ?s2)"
    using en rq up1 up2 by (simp add: task_schedule_def Let_def)
  have d: "dom (task_mem ?s2) = dom (task_mem s)" using t by auto
  show ?thesis
  proof (cases "t_time_slice t2 = 0 \<or> t_state t2 = TASK_ZOMBIE \<or> t_state t2 = TASK_BLOCKED")
    case True
    with switch_next_total[OF wf2] run d show ?thesis by metis
  next
    case False
    with run wf2 d show ?thesis by (metis (no_types, lifting))
  qed
qed

lemma task_yield_run:
  assumes wf: "task_wf s (zs @ x # ys)" and len: "length zs \<le> 32"
    and z: "\<And>z. z \<in> set zs \<Longrightarrow> zombie s z" and x: "\<not> zombie s x"
  shows "\<exists>s'. task_yield s = Some s' \<and> task_wf s' (ys @ zs @ [x]) \<and> current_task s' = x \<and>
    (\<forall>p. zombie s' p = zombie s p) \<and>
    (\<forall>p. p \<noteq> x \<and> p \<noteq> current_task s \<longrightarrow> task_mem s' p = task_mem s p)"
proof -
  from task_yield_eq[OF wf] obtain s1 where s1: "task_yield s = switch_next s1"
      "task_wf s1 (zs @ x # ys)" "\<forall>p. zombie s1 p = zombie s p" "current_task s1 = current_task s"
      "\<forall>p. p \<noteq> current_task s \<longrightarrow> task_mem s1 p = task_mem s p" by blast
  from switch_next_run[OF s1(2) len] s1 z x show ?thesis by fastforce
qed

text \<open>\<open>k\<close> yields in a row, whichever task does them.\<close>

fun yields :: "nat \<Rightarrow> tasking \<Rightarrow> tasking option" where
  "yields 0 s = Some s"
| "yields (Suc k) s = Option.bind (task_yield s) (yields k)"

lemma yields_run:
  assumes "task_wf s ts" "\<forall>p \<in> set ts. \<not> zombie s p"
  shows "\<exists>s'. yields k s = Some s' \<and> task_wf s' (rotate k ts) \<and> (\<forall>p. zombie s' p = zombie s p) \<and>
    (0 < k \<longrightarrow> current_task s' = ts ! ((k - 1) mod length ts))"
  using assms
proof (induction k arbitrary: s ts)
  case 0
  then show ?case by simp
next
  case (Suc k)
  obtain x xs where ts: "ts = x # xs"
    using Suc.prems(1) by (cases ts) (auto simp: task_wf_def ring_def)
  have "\<not> zombie s x" using Suc.prems(2) ts by simp
  with task_yield_run[of s "[]" x xs] Suc.prems(1) ts obtain s1 where s1: "task_yield s = Some s1"
      "task_wf s1 (xs @ [x])" "current_task s1 = x" "\<forall>p. zombie s1 p = zombie s p" by auto
  have nz: "\<forall>p \<in> set (xs @ [x]). \<not> zombie s1 p" using s1(4) Suc.prems(2) ts by auto
  from Suc.IH[OF s1(2) nz] obtain s' where s': "yields k s1 = Some s'" "task_wf s' (rotate k (xs @ [x]))"
      "\<forall>p. zombie s' p = zombie s1 p" "0 < k \<longrightarrow> current_task s' = (xs @ [x]) ! ((k - 1) mod length (xs @ [x]))"
    by blast
  have "current_task s' = ts ! (k mod length ts)"
  proof (cases k)
    case 0
    with s'(1) s1(3) ts show ?thesis by simp
  next
    case (Suc j)
    have "(xs @ [x]) ! (j mod length ts) = rotate1 ts ! (j mod length ts)" using ts by simp
    also have "\<dots> = ts ! (Suc (j mod length ts) mod length ts)"
      using ts by (subst nth_rotate1) simp_all
    also have "\<dots> = ts ! (k mod length ts)" using Suc by (simp add: mod_Suc_eq)
    finally show ?thesis using s'(4) Suc ts by simp
  qed
  moreover have "rotate k (xs @ [x]) = rotate (Suc k) ts"
    using ts by (simp add: rotate1_rotate_swap)
  ultimately show ?case using s1 s' by auto
qed

section \<open>Creating tasks\<close>

lemma task_create_full:
  "kmalloc sizeof_task (tk_heap s) = Some (NULL, h) \<Longrightarrow>
   task_create name ep kdir s = Some (0, s\<lparr>tk_heap := h\<rparr>)"
  by (simp add: task_create_def Let_def)

lemma task_create_run:
  assumes wf: "task_wf s ts" and p: "kmalloc sizeof_task (tk_heap s) = Some (p, h1)" "p \<noteq> NULL"
    and q: "kmalloc 4096 h1 = Some (q, h2)"
  shows "\<exists>s' n. task_create name ep kdir s = Some (next_pid s, s') \<and> task_wf s' (ts @ [p]) \<and> p \<notin> dom (task_mem s) \<and>
    task_mem s' p = Some (new_task name ep kdir (q + 4096) s\<lparr>t_next := n\<rparr>) \<and>
    current_task s' = current_task s \<and> next_pid s' = next_pid s + 1 \<and> tk_heap s' = h2 \<and>
    (\<forall>x u. task_mem s x = Some u \<longrightarrow> (\<exists>n. task_mem s' x = Some (u\<lparr>t_next := n\<rparr>))) \<and>
    tasks s' = (case find_first 1 31 (\<lambda>i. tasks s ! i = NULL) of Some i \<Rightarrow> (tasks s)[i := p] | None \<Rightarrow> tasks s)"
proof -
  have w: "heap_wf (tk_heap s)" "heap.store_ok (tk_heap s) (task_mem s)" "ring (task_mem s) (ready_queue s) ts"
    using wf by (simp_all add: task_wf_def)
  note a = heap.store_ok_alloc[OF w(1) p(1) w(2)]
  have h1: "heap_wf h1" by (rule heap.alloc_SomeD(1)[OF w(1) p(1)])
  have h2: "heap_wf h2" by (rule heap.alloc_SomeD(1)[OF h1 q])
  have fresh: "task_mem s p = None" by (rule a(2)[OF p(2)])
  let ?t = "new_task name ep kdir (q + 4096) s"
  let ?tab = "case find_first 1 31 (\<lambda>i. tasks s ! i = NULL) of Some i \<Rightarrow> (tasks s)[i := p] | None \<Rightarrow> tasks s"
  let ?s1 = "s\<lparr>tk_heap := h2, next_pid := next_pid s + 1, task_mem := (task_mem s)(p \<mapsto> ?t), tasks := ?tab\<rparr>"
  have pnot: "p \<notin> set ts" using fresh ring_mem[OF w(3)] by fastforce
  have "ring (task_mem ?s1) (ready_queue ?s1) ts = ring (task_mem s) (ready_queue s) ts"
    using pnot by (simp, intro ring_cong) (auto simp: link_def)
  then have "ring (task_mem ?s1) (ready_queue ?s1) ts" using w(3) by blast
  from simple_queue_add_ring[OF this pnot p(2), of ?t] obtain m where m:
      "simple_queue_add p ?s1 = Some (?s1\<lparr>task_mem := m, ready_queue := p\<rparr>)" "ring m p (ts @ [p])"
      "dom m = dom (task_mem ?s1)" "\<forall>x u. task_mem ?s1 x = Some u \<longrightarrow> (\<exists>n. m x = Some (u\<lparr>t_next := n\<rparr>))"
    by auto
  let ?s2 = "?s1\<lparr>task_mem := m, ready_queue := p\<rparr>"
  have run: "task_create name ep kdir s = Some (next_pid s, ?s2)"
    using p q m(1) by (simp add: task_create_def Let_def)
  have ok: "heap.store_ok h2 m"
  proof -
    have "heap.store_ok h1 ((task_mem s)(p \<mapsto> ?t))" by (rule a(3)[OF p(2)])
    from heap.store_ok_alloc(1)[OF h1 q this] show ?thesis using m(3) by (simp add: heap.store_ok_def)
  qed
  have tab: "x \<in> set ?tab \<Longrightarrow> x = p \<or> x \<in> set (tasks s)" for x
    using set_update_subset_insert[of "tasks s"] by (auto split: option.splits)
  have tab_ok: "\<forall>x \<in> set ?tab. x \<noteq> NULL \<longrightarrow> x \<in> dom m"
    using tab wf m(3) unfolding task_wf_def by auto
  have len: "length ?tab = 32" using wf by (auto simp: task_wf_def split: option.splits)
  have "task_wf ?s2 (ts @ [p])"
    using wf h2 ok tab_ok len m(2) by (simp add: task_wf_def)
  moreover obtain n where "m p = Some (?t\<lparr>t_next := n\<rparr>)" using m(4) by fastforce
  moreover have "\<exists>n. m x = Some (u\<lparr>t_next := n\<rparr>)" if "task_mem s x = Some u" for x u
    using m(4) that fresh by (cases "x = p") auto
  ultimately show ?thesis using run fresh by (intro exI[of _ ?s2] exI[of _ n]) auto
qed

lemma task_create_total:
  assumes wf: "task_wf s ts"
  shows "\<exists>pid s' ts'. task_create name ep kdir s = Some (pid, s') \<and> task_wf s' ts' \<and>
    dom (task_mem s) \<subseteq> dom (task_mem s')"
proof -
  have h: "heap_wf (tk_heap s)" using wf by (simp add: task_wf_def)
  obtain p h1 where p: "kmalloc sizeof_task (tk_heap s) = Some (p, h1)" "heap_wf h1"
    using heap.alloc_ex[OF h, of sizeof_task] by blast
  show ?thesis
  proof (cases "p = NULL")
    case True
    then have "h1 = tk_heap s" using heap.alloc_SomeD(2)[OF h p(1)] by simp
    with True p(1) wf show ?thesis by (simp add: task_create_full) blast
  next
    case False
    obtain q h2 where "kmalloc 4096 h1 = Some (q, h2)" using heap.alloc_ex[OF p(2), of 4096] by blast
    from task_create_run[OF wf p(1) False this, of name ep kdir] obtain s' where
        "task_create name ep kdir s = Some (next_pid s, s')" "task_wf s' (ts @ [p])"
        "\<forall>x u. task_mem s x = Some u \<longrightarrow> (\<exists>n. task_mem s' x = Some (u\<lparr>t_next := n\<rparr>))" by blast
    moreover from this(3) have "dom (task_mem s) \<subseteq> dom (task_mem s')" by (meson domD domI subsetI)
    ultimately show ?thesis by blast
  qed
qed

text \<open>\<open>task_init\<close> on a well-formed heap leaves the idle task alone on the queue.\<close>

lemma task_init_run:
  assumes h: "heap_wf (tk_heap s)" "kmalloc sizeof_task (tk_heap s) = Some (p, h')" "p \<noteq> NULL"
    and empty: "task_mem s = Map.empty"
  shows "\<exists>s'. task_init old s = Some s' \<and> task_wf s' [p] \<and> current_task s' = p \<and> next_pid s' = next_pid s \<and>
    task_mem s' = [p \<mapsto> idle_task p old] \<and> tk_heap s' = h'"
proof -
  have "heap.store_ok (tk_heap s) (Map.empty :: ptr \<rightharpoonup> task)" by (simp add: heap.store_ok_def)
  from heap.store_ok_alloc(3)[OF h(1,2) this h(3)] heap.alloc_SomeD(1)[OF h(1,2)] show ?thesis
    using h empty by (auto simp: task_init_def task_wf_def ring_def idle_task_def set_conv_nth nth_list_update)
qed

section \<open>Sample states\<close>

lemma align4_task: "align4 sizeof_task = sizeof_task" "align4 4096 = 4096" "sizeof_task \<noteq> 0" "unat sizeof_task = 152"
  by (simp_all add: align4_def sizeof_task_def)

definition boot_tasking :: tasking where
  "boot_tasking = \<lparr>tk_heap = boot_heap, task_mem = Map.empty, tasks = [], current_task = NULL,
     ready_queue = NULL, next_pid = 1, tasking_enabled = False, global_ticks = 0,
     cpu = \<lparr>r_eax = 0, r_ebx = 0, r_ecx = 0, r_edx = 0, r_esi = 0, r_edi = 0, r_ebp = 0, r_esp = 0,
       r_eip = 0, r_eflags = 0, r_cr3 = 0\<rparr>\<rparr>"

definition blank_task :: task where
  "blank_task = \<lparr>t_pid = 0, t_name = [], t_state = TASK_RUNNING, t_regs = cpu boot_tasking,
     t_kernel_stack = 0, t_time_slice = 0, t_next = 0, t_priority = PRIORITY_HIGH,
     t_base_priority = PRIORITY_HIGH, t_quantum = 0, t_ticks_used = 0, t_total_ticks = 0,
     t_context_switches = 0, t_created_time = 0, t_sleep_until = 0, t_wait_on = 0, t_parent = 0,
     t_child = 0, t_sibling = 0, t_exit_code = 0, t_iopb = 0\<rparr>"

text \<open>After \<open>task_init\<close>, and after creating one more task.\<close>

definition idle_tasking :: tasking where
  "idle_tasking = the (task_init blank_task boot_tasking)"

definition two_tasking :: tasking where
  "two_tasking = snd (the (task_create (cstr ''shell'') 0x101000 0x100000 idle_tasking))"

lemma idle_tasking_facts:
  "task_init blank_task boot_tasking = Some idle_tasking" "task_wf idle_tasking [0x40000C]"
  "current_task idle_tasking = 0x40000C" "next_pid idle_tasking = 1"
  "task_mem idle_tasking = [0x40000C \<mapsto> idle_task 0x40000C blank_task]"
  "heap_rel (tk_heap idle_tasking) [(152, False), (0xFFF50, True)]" "heap_start (tk_heap idle_tasking) = 0x400000"
proof -
  have hb: "tk_heap boot_tasking = boot_heap" "task_mem boot_tasking = Map.empty" "next_pid boot_tasking = 1"
    by (simp_all add: boot_tasking_def)
  have "fit_spec (unat sizeof_task) (unat (heap_start boot_heap)) [(0xFFFF4, True)] =
      Some (0x400000, [(152, False), (0xFFF50, True)])"
    by (simp add: align4_task)
  from kmalloc_fits[OF boot_heap_rel align4_task(3,1) this] obtain h where h:
      "kmalloc sizeof_task boot_heap = Some (0x40000C, h)" "heap_rel h [(152, False), (0xFFF50, True)]"
      "heap_start h = 0x400000" by auto
  have "heap_wf boot_heap" by (rule boot_heap_wf)
  from task_init_run[of boot_tasking, unfolded hb, OF this h(1) _ refl, of blank_task] obtain s where
      "task_init blank_task boot_tasking = Some s" "task_wf s [0x40000C]" "current_task s = 0x40000C"
      "next_pid s = 1" "task_mem s = [0x40000C \<mapsto> idle_task 0x40000C blank_task]" "tk_heap s = h"
    by auto
  with h show "task_init blank_task boot_tasking = Some idle_tasking" "task_wf idle_tasking [0x40000C]"
    "current_task idle_tasking = 0x40000C" "next_pid idle_tasking = 1"
    "task_mem idle_tasking = [0x40000C \<mapsto> idle_task 0x40000C blank_task]"
    "heap_rel (tk_heap idle_tasking) [(152, False), (0xFFF50, True)]" "heap_start (tk_heap idle_tasking) = 0x400000"
    by (simp_all add: idle_tasking_def)
qed

lemma idle_tasking_alloc:
  "\<exists>h1 h2. kmalloc sizeof_task (tk_heap idle_tasking) = Some (0x4000B0, h1) \<and>
     kmalloc 4096 h1 = Some (0x400154, h2)"
proof -
  note i = idle_tasking_facts
  have "fit_spec (unat sizeof_task) (unat (heap_start (tk_heap idle_tasking))) [(152, False), (0xFFF50, True)] =
      Some (0x4000A4, [(152, False), (152, False), (0xFFEAC, True)])"
    by (simp add: align4_task i(7))
  from kmalloc_fits[OF i(6) align4_task(3,1) this] obtain h1 where h1:
      "kmalloc sizeof_task (tk_heap idle_tasking) = Some (0x4000B0, h1)"
      "heap_rel h1 [(152, False), (152, False), (0xFFEAC, True)]" "heap_start h1 = 0x400000"
    by (auto simp: i(7))
  have "fit_spec (unat (4096 :: u32)) (unat (heap_start h1)) [(152, False), (152, False), (0xFFEAC, True)] =
      Some (0x400148, [(152, False), (152, False), (4096, False), (0xFEEA0, True)])"
    by (simp add: h1(3))
  from kmalloc_fits[OF h1(2) _ align4_task(2) this] show ?thesis using h1(1) by auto
qed

lemma two_tasking_facts:
  "task_create (cstr ''shell'') 0x101000 0x100000 idle_tasking = Some (1, two_tasking)"
  "task_wf two_tasking [0x40000C, 0x4000B0]" "current_task two_tasking = 0x40000C"
  "\<exists>n. task_mem two_tasking 0x4000B0 = Some (new_task (cstr ''shell'') 0x101000 0x100000 0x401154 idle_tasking\<lparr>t_next := n\<rparr>)"
  "\<exists>n. task_mem two_tasking 0x40000C = Some (idle_task 0x40000C blank_task\<lparr>t_next := n\<rparr>)"
proof -
  note i = idle_tasking_facts
  obtain h1 h2 where h: "kmalloc sizeof_task (tk_heap idle_tasking) = Some (0x4000B0, h1)"
      "kmalloc 4096 h1 = Some (0x400154, h2)" using idle_tasking_alloc by blast
  from task_create_run[OF i(2) h(1) _ h(2), of "cstr ''shell''" "0x101000" "0x100000"] obtain s n where s:
      "task_create (cstr ''shell'') 0x101000 0x100000 idle_tasking = Some (next_pid idle_tasking, s)"
      "task_wf s ([0x40000C] @ [0x4000B0])" "current_task s = current_task idle_tasking"
      "task_mem s 0x4000B0 = Some (new_task (cstr ''shell'') 0x101000 0x100000 (0x400154 + 4096) idle_tasking\<lparr>t_next := n\<rparr>)"
      "\<forall>x u. task_mem idle_tasking x = Some u \<longrightarrow> (\<exists>n. task_mem s x = Some (u\<lparr>t_next := n\<rparr>))"
    by auto
  then have "two_tasking = s" by (simp add: two_tasking_def)
  with s i show "task_create (cstr ''shell'') 0x101000 0x100000 idle_tasking = Some (1, two_tasking)"
    "task_wf two_tasking [0x40000C, 0x4000B0]" "current_task two_tasking = 0x40000C"
    "\<exists>n. task_mem two_tasking 0x4000B0 = Some (new_task (cstr ''shell'') 0x101000 0x100000 0x401154 idle_tasking\<lparr>t_next := n\<rparr>)"
    "\<exists>n. task_mem two_tasking 0x40000C = Some (idle_task 0x40000C blank_task\<lparr>t_next := n\<rparr>)"
    by auto
qed

lemma two_tasking_zombie: "\<not> zombie two_tasking 0x40000C" "\<not> zombie two_tasking 0x4000B0"
  using two_tasking_facts(4,5) by (auto simp: zombie_def new_task_def idle_task_def)

section \<open>Properties\<close>

text \<open>
  \<open>task_create\<close>: with no memory for the task block it returns 0 and changes nothing. Otherwise it
  returns the next process id and a new task, apart from every existing one, is at the end of the
  ready queue, ready, with its name cut to 31 bytes, its entry point and a stack; the current task
  and every other task are as before.
\<close>
theorem task_create_correct:
  assumes wf: "task_wf s ts"
  shows "\<exists>pid s'. task_create name ep kdir s = Some (pid, s') \<and>
    (pid = 0 \<and> s' = s \<or>
     pid = next_pid s \<and> next_pid s' = pid + 1 \<and> current_task s' = current_task s \<and>
     (\<exists>p t. p \<notin> dom (task_mem s) \<and> task_wf s' (ts @ [p]) \<and> task_mem s' p = Some t \<and>
       t_pid t = pid \<and> t_state t = TASK_READY \<and> t_name t = take 31 name \<and> r_eip (t_regs t) = ep \<and>
       r_esp (t_regs t) = t_kernel_stack t) \<and>
     (\<forall>x u. task_mem s x = Some u \<longrightarrow> (\<exists>n. task_mem s' x = Some (u\<lparr>t_next := n\<rparr>))))"
proof -
  have h: "heap_wf (tk_heap s)" using wf by (simp add: task_wf_def)
  obtain p h1 where p: "kmalloc sizeof_task (tk_heap s) = Some (p, h1)" "heap_wf h1"
    using heap.alloc_ex[OF h, of sizeof_task] by blast
  show ?thesis
  proof (cases "p = NULL")
    case True
    with heap.alloc_SomeD(2)[OF h p(1)] p(1) show ?thesis by (simp add: task_create_full)
  next
    case False
    obtain q h2 where q: "kmalloc 4096 h1 = Some (q, h2)" using heap.alloc_ex[OF p(2), of 4096] by blast
    from task_create_run[OF wf p(1) False q, of name ep kdir] show ?thesis
      by (fastforce simp: new_task_def strncpy_buf_def)
  qed
qed

lemma task_create_correct_witness:
  "\<exists>pid s'. task_create (cstr ''shell'') 0x101000 0x100000 idle_tasking = Some (pid, s') \<and>
    (pid = 0 \<and> s' = idle_tasking \<or> pid = 1)"
  using task_create_correct[OF idle_tasking_facts(2), of "cstr ''shell''" "0x101000" "0x100000"]
  by (auto simp: idle_tasking_facts(4))

text \<open>
  C5. A yield gives the processor to the first task of the queue that is not a zombie, past at
  most 32 zombies, and puts it at the end of the queue; no other task becomes or stops being one.
\<close>
theorem task_yield_next:
  assumes "task_wf s (zs @ x # ys)" "length zs \<le> 32" "\<forall>z \<in> set zs. zombie s z" "\<not> zombie s x"
  shows "\<exists>s'. task_yield s = Some s' \<and> task_wf s' (ys @ zs @ [x]) \<and> current_task s' = x \<and>
    (\<forall>p. zombie s' p = zombie s p)"
  using task_yield_run[OF assms(1,2)] assms(3,4) by blast

lemma task_yield_next_witness:
  "\<exists>s'. task_yield two_tasking = Some s' \<and> task_wf s' [0x4000B0, 0x40000C] \<and> current_task s' = 0x40000C"
  using task_yield_next[of two_tasking "[]" "0x40000C" "[0x4000B0]"] two_tasking_facts(2) two_tasking_zombie by auto

text \<open>
  C6. Round robin: without zombies, \<open>k\<close> yields run the tasks of the queue in order, so every task
  gets the processor within as many yields as there are tasks.
\<close>
theorem round_robin_fair:
  assumes "task_wf s ts" "\<forall>p \<in> set ts. \<not> zombie s p" "q \<in> set ts"
  shows "\<exists>k s'. 0 < k \<and> k \<le> length ts \<and> yields k s = Some s' \<and> task_wf s' (rotate k ts) \<and> current_task s' = q"
proof -
  obtain i where i: "i < length ts" "ts ! i = q" using assms(3) by (auto simp: in_set_conv_nth)
  from yields_run[OF assms(1,2), of "Suc i"] i show ?thesis by (intro exI[of _ "Suc i"]) auto
qed

lemma round_robin_fair_witness:
  "\<exists>k s'. 0 < k \<and> k \<le> 2 \<and> yields k two_tasking = Some s' \<and> current_task s' = 0x4000B0"
  using round_robin_fair[OF two_tasking_facts(2), of "0x4000B0"] two_tasking_zombie by auto

text \<open>
  A timer tick takes one from the time slice of a task that is neither blocked nor a zombie and
  leaves it the processor as long as some of its slice is left: it loses the processor on the tick
  that ends the slice, not before.
\<close>
theorem task_schedule_slice:
  assumes wf: "task_wf s ts" and t: "task_mem s (current_task s) = Some t"
    and st: "t_state t \<noteq> TASK_ZOMBIE" "t_state t \<noteq> TASK_BLOCKED" and slice: "1 < t_time_slice t"
  shows "\<exists>s' t'. task_schedule s = Some s' \<and> task_wf s' ts \<and> current_task s' = current_task s \<and>
    task_mem s' (current_task s) = Some t' \<and> t_time_slice t' = t_time_slice t - 1 \<and> t_state t' = t_state t \<and>
    global_ticks s' = global_ticks s + 1"
proof -
  define t1 where "t1 = (if t_state t = TASK_RUNNING then t\<lparr>t_total_ticks := t_total_ticks t + 1\<rparr> else t)"
  let ?t2 = "t1\<lparr>t_time_slice := t_time_slice t - 1\<rparr>"
  let ?s1 = "s\<lparr>global_ticks := global_ticks s + 1, task_mem := (task_mem s)(current_task s \<mapsto> ?t2)\<rparr>"
  have f: "t_next ?t2 = t_next t" "t_state t1 = t_state t" "t_time_slice t1 = t_time_slice t"
    by (simp_all add: t1_def)
  have nz: "t_time_slice t - 1 \<noteq> 0" "0 < t_time_slice t" using slice by (auto simp: word_less_nat_alt)
  have rq: "tasking_enabled s" "ready_queue s \<noteq> NULL"
    using wf ring_rq by (auto simp: task_wf_def)
  have up1: "task_upd (current_task s) (\<lambda>t. if t_state t = TASK_RUNNING
            then t\<lparr>t_total_ticks := t_total_ticks t + 1\<rparr> else t) (s\<lparr>global_ticks := global_ticks s + 1\<rparr>) =
      Some (s\<lparr>global_ticks := global_ticks s + 1, task_mem := (task_mem s)(current_task s \<mapsto> t1)\<rparr>)"
    using t by (simp add: task_upd_def t1_def)
  have "task_schedule s = Some ?s1"
    using rq up1 f nz st by (simp add: task_schedule_def Let_def task_upd_def[of _ _ "s\<lparr>global_ticks := _, task_mem := _\<rparr>"])
  moreover have "task_wf ?s1 ts" using task_wf_upd[OF wf t f(1)] by (simp add: task_wf_def)
  ultimately show ?thesis using f by (intro exI[of _ ?s1] exI[of _ ?t2]) simp
qed

lemma task_schedule_slice_witness:
  "\<exists>s'. task_schedule idle_tasking = Some s' \<and> current_task s' = 0x40000C"
proof -
  have t: "task_mem idle_tasking (current_task idle_tasking) = Some (idle_task 0x40000C blank_task)"
    by (simp add: idle_tasking_facts)
  show ?thesis
    using task_schedule_slice[OF idle_tasking_facts(2) t]
    by (auto simp: idle_task_def TIME_SLICE_def idle_tasking_facts(3))
qed

text \<open>
  The scheduler runs blocked tasks: when the next task of the queue waits (for a message, say),
  a yield makes it the current task and marks it running, although nothing has woken it.
\<close>
theorem task_yield_runs_blocked:
  assumes wf: "task_wf s (x # ys)" and b: "map_option t_state (task_mem s x) = Some TASK_BLOCKED"
    and x: "x \<noteq> current_task s"
  shows "\<exists>s'. task_yield s = Some s' \<and> current_task s' = x \<and>
    map_option t_state (task_mem s' x) = Some TASK_RUNNING"
proof -
  have "\<not> zombie s x" using b by (auto simp: zombie_def)
  moreover obtain s1 where s1: "task_yield s = switch_next s1" "task_wf s1 (x # ys)"
      "current_task s1 = current_task s" "\<forall>p. zombie s1 p = zombie s p"
    using task_yield_eq[OF wf] by blast
  ultimately show ?thesis using switch_next_run[of s1 "[]" x ys] x by auto
qed

text \<open>The two tasks of the sample after the second has blocked.\<close>

definition blocked_tasking :: tasking where
  "blocked_tasking = the (task_yield (the (task_upd 0x4000B0 (\<lambda>t. t\<lparr>t_state := TASK_BLOCKED\<rparr>) two_tasking)))"

lemma blocked_tasking_facts:
  "task_wf blocked_tasking [0x4000B0, 0x40000C]" "current_task blocked_tasking = 0x40000C"
  "map_option t_state (task_mem blocked_tasking 0x4000B0) = Some TASK_BLOCKED"
proof -
  obtain n where m: "task_mem two_tasking 0x4000B0 =
      Some (new_task (cstr ''shell'') 0x101000 0x100000 0x401154 idle_tasking\<lparr>t_next := n\<rparr>)" (is "_ = Some ?t")
    using two_tasking_facts(4) by blast
  obtain k where i: "task_mem two_tasking 0x40000C = Some (idle_task 0x40000C blank_task\<lparr>t_next := k\<rparr>)" (is "_ = Some ?i")
    using two_tasking_facts(5) by blast
  let ?s = "two_tasking\<lparr>task_mem := (task_mem two_tasking)(0x4000B0 \<mapsto> ?t\<lparr>t_state := TASK_BLOCKED\<rparr>)\<rparr>"
  have up: "task_upd 0x4000B0 (\<lambda>t. t\<lparr>t_state := TASK_BLOCKED\<rparr>) two_tasking = Some ?s"
    using m by (simp add: task_upd_def)
  have wf: "task_wf ?s [0x40000C, 0x4000B0]"
    by (rule task_wf_upd[OF two_tasking_facts(2) m]) simp
  obtain s' where s': "task_yield ?s = Some s'" "task_wf s' [0x4000B0, 0x40000C]" "current_task s' = 0x40000C"
      "task_mem s' 0x4000B0 = task_mem ?s 0x4000B0"
    using task_yield_run[of ?s "[]" "0x40000C" "[0x4000B0]"] wf i two_tasking_facts(3)
    by (auto simp: zombie_def idle_task_def)
  with s' up show "task_wf blocked_tasking [0x4000B0, 0x40000C]" "current_task blocked_tasking = 0x40000C"
    "map_option t_state (task_mem blocked_tasking 0x4000B0) = Some TASK_BLOCKED"
    by (simp_all add: blocked_tasking_def)
qed

lemma task_yield_runs_blocked_witness:
  "\<exists>s'. task_yield blocked_tasking = Some s' \<and> current_task s' = 0x4000B0 \<and>
    map_option t_state (task_mem s' 0x4000B0) = Some TASK_RUNNING"
  by (rule task_yield_runs_blocked[OF blocked_tasking_facts(1,3)]) (simp add: blocked_tasking_facts(2))

text \<open>
  A task that yields when it is alone on the queue keeps the processor but is left marked
  ready: the scheduler makes it running and then, taking it for the old task, ready again. It is
  then no longer charged for its ticks.
\<close>
theorem task_yield_alone:
  assumes wf: "task_wf s [p]" and t: "task_mem s p = Some t" "t_state t = TASK_RUNNING"
  shows "\<exists>s' t'. task_yield s = Some s' \<and> current_task s' = p \<and> task_mem s' p = Some t' \<and>
    t_state t' = TASK_READY \<and> t_total_ticks t' = t_total_ticks t + 1 \<and>
    (\<exists>s'' t''. task_schedule s' = Some s'' \<and> task_mem s'' p = Some t'' \<and> t_total_ticks t'' = t_total_ticks t')"
proof -
  have c: "current_task s = p" "ready_queue s = p" "p \<noteq> NULL" "tasking_enabled s" "t_next t = p"
    using wf t(1) by (auto simp: task_wf_def ring_def)
  let ?t = "t\<lparr>t_total_ticks := t_total_ticks t + 1, t_time_slice := TIME_SLICE,
     t_context_switches := t_context_switches t + 1, t_state := TASK_READY\<rparr>"
  let ?s = "s\<lparr>global_ticks := global_ticks s + 1, current_task := p, ready_queue := p, task_mem := (task_mem s)(p \<mapsto> ?t)\<rparr>"
  have skip: "skip_zombies 32 m p = Some p" if "m p = Some u" "t_next u = p" "t_state u \<noteq> TASK_ZOMBIE" for m u
    using that by (simp add: numeral_eq_Suc)
  have "task_yield s = Some ?s"
    using c t by (simp add: task_yield_def task_schedule_def task_upd_def switch_next_def skip Let_def)
  moreover have "TIME_SLICE - 1 \<noteq> (0 :: u32)" "0 < TIME_SLICE" by (simp_all add: TIME_SLICE_def)
  then have "task_schedule ?s = Some (?s\<lparr>global_ticks := global_ticks s + 2,
      task_mem := (task_mem s)(p \<mapsto> ?t\<lparr>t_time_slice := TIME_SLICE - 1\<rparr>)\<rparr>)"
    using c t by (simp add: task_schedule_def task_upd_def Let_def)
  ultimately show ?thesis using c by auto
qed

lemma task_yield_alone_witness:
  "\<exists>s' t'. task_yield idle_tasking = Some s' \<and> current_task s' = 0x40000C \<and>
    task_mem s' 0x40000C = Some t' \<and> t_state t' = TASK_READY"
  using task_yield_alone[OF idle_tasking_facts(2), of "idle_task 0x40000C blank_task"]
  by (auto simp: idle_tasking_facts(5) idle_task_def)

text \<open>
  When the heap has room for the task block but not for its stack, \<open>task_create\<close> does not fail:
  it queues a task whose stack pointer is 4096, so that it will push onto the first page of memory.
\<close>
theorem task_create_no_stack:
  assumes wf: "task_wf s ts" and p: "kmalloc sizeof_task (tk_heap s) = Some (p, h1)" "p \<noteq> NULL"
    and q: "kmalloc 4096 h1 = Some (NULL, h1)"
  shows "\<exists>s' t. task_create name ep kdir s = Some (next_pid s, s') \<and> task_wf s' (ts @ [p]) \<and>
    task_mem s' p = Some t \<and> t_kernel_stack t = 4096 \<and> r_esp (t_regs t) = 4096"
  using task_create_run[OF wf p q, of name ep kdir] by (auto simp: new_task_def)

text \<open>A kernel with a heap of 512 bytes.\<close>

definition tiny_tasking :: tasking where
  "tiny_tasking = the (task_init blank_task (boot_tasking\<lparr>tk_heap := kmalloc_init 0x400000 512 Map.empty\<rparr>))"

lemma task_create_no_stack_witness:
  "\<exists>s' t. task_create (cstr ''shell'') 0x101000 0x100000 tiny_tasking = Some (1, s') \<and>
    task_mem s' 0x4000B0 = Some t \<and> r_esp (t_regs t) = 4096"
proof -
  let ?h = "kmalloc_init 0x400000 512 Map.empty"
  have st: "heap_start ?h = 0x400000" by (simp add: kmalloc_init_def)
  have rel: "heap_rel ?h [(500, True)]"
    using kmalloc_init_rel[of "0x400000" 512 Map.empty] by simp
  have "fit_spec (unat sizeof_task) (unat (heap_start ?h)) [(500, True)] =
      Some (0x400000, [(152, False), (336, True)])" by (simp add: align4_task st)
  from kmalloc_fits[OF rel align4_task(3,1) this] obtain h where h: "kmalloc sizeof_task ?h = Some (0x40000C, h)"
      "heap_rel h [(152, False), (336, True)]" "heap_start h = 0x400000" by (auto simp: st)
  have wfh: "heap_wf ?h" using rel by (auto simp: heap_wf_def)
  have "\<exists>s'. task_init blank_task (boot_tasking\<lparr>tk_heap := ?h\<rparr>) = Some s' \<and> task_wf s' [0x40000C] \<and>
      next_pid s' = 1 \<and> tk_heap s' = h"
    using task_init_run[of "boot_tasking\<lparr>tk_heap := ?h\<rparr>" "0x40000C" h blank_task] wfh h(1)
    by (auto simp: boot_tasking_def)
  then have s: "task_wf tiny_tasking [0x40000C]" "next_pid tiny_tasking = 1" "tk_heap tiny_tasking = h"
    by (auto simp: tiny_tasking_def)
  have "fit_spec (unat sizeof_task) (unat (heap_start h)) [(152, False), (336, True)] =
      Some (0x4000A4, [(152, False), (152, False), (172, True)])" by (simp add: align4_task h(3))
  from kmalloc_fits[OF h(2) align4_task(3,1) this] obtain h1 where h1: "kmalloc sizeof_task h = Some (0x4000B0, h1)"
      "heap_rel h1 [(152, False), (152, False), (172, True)]" "heap_start h1 = 0x400000" by (auto simp: h(3))
  have wf1: "heap_wf h1" using h1(2) by (auto simp: heap_wf_def)
  have "chain (hmem h1) (heap_start h1) (unat (heap_start h1)) [(152, False), (152, False), (172, True)]"
    using h1(2) by (simp add: heap_rel_def)
  from find_free_from_chain[OF this, of 4096] have none: "kmalloc 4096 h1 = Some (NULL, h1)"
    by (simp add: kmalloc_def find_free_block_def align4_task Let_def)
  from task_create_no_stack[OF s(1) _ _ none, of "0x4000B0" "cstr ''shell''" "0x101000" "0x100000"] s h1(1)
  show ?thesis by auto
qed

end
