(* ===== verification/Fifo.thy ===== *)
theory Fifo
  imports Prelude
begin

text \<open>
  Ring buffers, and the interface of a queue. Two components keep a queue in a fixed array with
  positions that wrap: the message queue of an IPC port and the keyboard's input buffer. What
  their clients rely on is stated once, as the locale of a first-in first-out queue that takes
  elements as long as it holds fewer than its capacity; the ring buffer lemmas before it are what
  the two components need to interpret it.
\<close>

section \<open>Ring buffers\<close>

text \<open>The \<open>n\<close> slots of the array \<open>q\<close> from position \<open>h\<close> on, around its end.\<close>

definition slots :: "'a list \<Rightarrow> nat \<Rightarrow> nat \<Rightarrow> 'a list" where
  "slots q h n = map (\<lambda>i. q ! ((h + i) mod length q)) [0..<n]"

lemma slots_0 [simp]: "slots q h 0 = []"
  by (simp add: slots_def)

lemma length_slots [simp]: "length (slots q h n) = n"
  by (simp add: slots_def)

lemma mod_add_inj_le:
  assumes "i \<le> j" "j < (n :: nat)" "(h + j) mod n = (h + i) mod n"
  shows "i = j"
proof -
  have "n dvd (h + j) - (h + i)" by (rule mod_eq_dvd_iff_nat[THEN iffD1]) (use assms in auto)
  then have "n dvd j - i" by simp
  with assms(1,2) show ?thesis by (auto dest: dvd_imp_le)
qed

lemma mod_add_inj:
  assumes "i < n" "j < (n :: nat)" "(h + i) mod n = (h + j) mod n"
  shows "i = j"
  using mod_add_inj_le[of i j n h] mod_add_inj_le[of j i n h] assms by (cases "i \<le> j") auto

lemma slots_put:
  assumes "n < length q"
  shows "slots (q[(h + n) mod length q := x]) h (Suc n) = slots q h n @ [x]"
proof -
  have "(h + n) mod length q \<noteq> (h + i) mod length q" if "i < n" for i
    using mod_add_inj[of n "length q" i h] that assms by auto
  moreover have "(h + n) mod length q < length q" using assms by (intro mod_less_divisor) auto
  ultimately show ?thesis by (simp add: slots_def)
qed

lemma slots_take: "slots q h (Suc n) = q ! (h mod length q) # slots q ((h + 1) mod length q) n"
proof -
  have "[0..<Suc n] = 0 # map Suc [0..<n]" by (metis map_Suc_upt upt_conv_Cons zero_less_Suc)
  then show ?thesis by (simp add: slots_def comp_def mod_simps)
qed

section \<open>The interface of a queue\<close>

locale fifo =
  fixes inv :: "'q \<Rightarrow> bool"
    and ok :: "'a \<Rightarrow> bool"
    and contents :: "'q \<Rightarrow> 'a list"
    and cap :: nat
    and enq :: "'a \<Rightarrow> 'q \<Rightarrow> 'q option"
    and deq :: "'q \<Rightarrow> ('a \<times> 'q) option"
  assumes enq_run: "inv q \<Longrightarrow> ok x \<Longrightarrow> length (contents q) < cap \<Longrightarrow>
      \<exists>q'. enq x q = Some q' \<and> inv q' \<and> contents q' = contents q @ [x]"
    and deq_run: "inv q \<Longrightarrow> contents q = x # xs \<Longrightarrow>
      \<exists>q'. deq q = Some (x, q') \<and> inv q' \<and> contents q' = xs"
    and deq_empty: "inv q \<Longrightarrow> contents q = [] \<Longrightarrow> deq q = None"
begin

primrec enqs :: "'a list \<Rightarrow> 'q \<Rightarrow> 'q option" where
  "enqs [] q = Some q"
| "enqs (x # xs) q = Option.bind (enq x q) (enqs xs)"

primrec deqs :: "nat \<Rightarrow> 'q \<Rightarrow> ('a list \<times> 'q) option" where
  "deqs 0 q = Some ([], q)"
| "deqs (Suc n) q = do { (x, q) \<leftarrow> deq q; (xs, q) \<leftarrow> deqs n q; Some (x # xs, q) }"

lemma enqs_run:
  "inv q \<Longrightarrow> \<forall>x \<in> set xs. ok x \<Longrightarrow> length (contents q) + length xs \<le> cap \<Longrightarrow>
   \<exists>q'. enqs xs q = Some q' \<and> inv q' \<and> contents q' = contents q @ xs"
proof (induction xs arbitrary: q)
  case (Cons x xs)
  from enq_run[OF Cons.prems(1), of x] Cons.prems obtain q1 where
      q1: "enq x q = Some q1" "inv q1" "contents q1 = contents q @ [x]" by auto
  with Cons.IH[OF q1(2)] Cons.prems show ?case by auto
qed simp

lemma deqs_run:
  "inv q \<Longrightarrow> n \<le> length (contents q) \<Longrightarrow>
   \<exists>q'. deqs n q = Some (take n (contents q), q') \<and> inv q' \<and> contents q' = drop n (contents q)"
proof (induction n arbitrary: q)
  case (Suc n)
  then obtain x xs where c: "contents q = x # xs" by (cases "contents q") auto
  from deq_run[OF Suc.prems(1) c] obtain q1 where q1: "deq q = Some (x, q1)" "inv q1" "contents q1 = xs"
    by blast
  with Suc.IH[OF q1(2)] Suc.prems c show ?case by auto
qed simp

text \<open>What goes in comes out, in the same order, after what was there before.\<close>

lemma in_order:
  assumes "inv q" "\<forall>x \<in> set xs. ok x" "length (contents q) + length xs \<le> cap"
  shows "\<exists>q' q''. enqs xs q = Some q' \<and>
    deqs (length (contents q) + length xs) q' = Some (contents q @ xs, q'') \<and> contents q'' = []"
proof -
  obtain q' where q': "enqs xs q = Some q'" "inv q'" "contents q' = contents q @ xs"
    using enqs_run[OF assms] by blast
  with deqs_run[OF q'(2), of "length (contents q) + length xs"] show ?thesis by auto
qed

end

text \<open>A queue that refuses an element when it is full.\<close>

locale bounded_fifo = fifo +
  assumes enq_full: "inv q \<Longrightarrow> cap \<le> length (contents q) \<Longrightarrow> enq x q = None"
    and bounded: "inv q \<Longrightarrow> length (contents q) \<le> cap"
begin

lemma enq_iff: "inv q \<Longrightarrow> ok x \<Longrightarrow> enq x q \<noteq> None \<longleftrightarrow> length (contents q) < cap"
  using enq_run[of q x] enq_full[of q x] by force

end

end
