(* ===== verification/Ipc.thy ===== *)
theory Ipc
  imports Task Fifo
begin

text \<open>
  Message ports (\<open>src/src/kernel/ipc.c\<close>): a table of 32 ports, each with a name, an owner and a
  ring of 16 messages. The theory shows that the ring of a port is a bounded first-in first-out
  queue of messages, what sending and receiving do on every branch, who may receive, and where
  the code departs from what it promises (names, waiting receivers, messages without data).
\<close>

section \<open>State\<close>

definition IPC_MSG_MAX_SIZE :: nat where "IPC_MSG_MAX_SIZE = 256"
definition IPC_MAX_PORTS :: nat where "IPC_MAX_PORTS = 32"
definition IPC_PORT_QUEUE_SIZE :: nat where "IPC_PORT_QUEUE_SIZE = 16"
definition IPC_PORT_NAME_MAX :: nat where "IPC_PORT_NAME_MAX = 32"

record ipc_message =
  m_sender_pid :: u32
  m_sender_port :: u32
  m_type :: u32
  m_size :: u32
  m_data :: bytes

record ipc_port =
  p_port_id :: u32
  p_owner_pid :: u32
  p_in_use :: bool
  p_name :: cstring
  p_queue :: "ipc_message list"
  p_queue_head :: u32
  p_queue_tail :: u32
  p_queue_count :: u32
  p_total_sent :: u32
  p_total_received :: u32
  p_drops :: u32
  p_waiting_task :: ptr

record ipc =
  ipc_tasks :: tasking
  ports :: "ipc_port list"
  total_messages_sent :: u32

section \<open>Operations\<close>

text \<open>\<open>ipc_init\<close> keeps what the static table held in the message slots.\<close>

definition ipc_init :: "ipc \<Rightarrow> ipc option" where
  "ipc_init s = do {
     ps \<leftarrow> for_range 0 IPC_MAX_PORTS (\<lambda>i ps. do {
       p \<leftarrow> arr_get ps i;
       arr_set ps i (p\<lparr>p_port_id := of_nat i, p_owner_pid := 0, p_in_use := False, p_name := [],
         p_queue_head := 0, p_queue_tail := 0, p_queue_count := 0, p_total_sent := 0,
         p_total_received := 0, p_drops := 0, p_waiting_task := NULL\<rparr>)
     }) (ports s);
     Some (s\<lparr>ports := ps, total_messages_sent := 0\<rparr>)
   }"

text \<open>The index of the port, or nothing for a null pointer.\<close>

definition ipc_get_port :: "u32 \<Rightarrow> ipc \<Rightarrow> nat option" where
  "ipc_get_port port_id s =
     (if unat port_id \<ge> IPC_MAX_PORTS then None
      else if \<not> p_in_use (ports s ! unat port_id) then None
      else Some (unat port_id))"

text \<open>\<open>task_get_current ()->pid\<close>\<close>

definition current_pid :: "ipc \<Rightarrow> u32 option" where
  "current_pid s = map_option t_pid (task_mem (ipc_tasks s) (task_get_current (ipc_tasks s)))"

definition open_port :: "u32 \<Rightarrow> cstring \<Rightarrow> ipc_port \<Rightarrow> ipc_port" where
  "open_port pid name p = p\<lparr>p_in_use := True, p_owner_pid := pid, p_name := name, p_queue_head := 0,
     p_queue_tail := 0, p_queue_count := 0, p_total_sent := 0, p_total_received := 0, p_drops := 0,
     p_waiting_task := NULL\<rparr>"

definition ipc_create_port :: "ipc \<Rightarrow> (int \<times> ipc) option" where
  "ipc_create_port s =
     (case find_first 0 IPC_MAX_PORTS (\<lambda>i. \<not> p_in_use (ports s ! i)) of
        Some i \<Rightarrow> do {
          pid \<leftarrow> current_pid s;
          Some (int i, s\<lparr>ports := (ports s)[i := open_port pid [] (ports s ! i)]\<rparr>)
        }
      | None \<Rightarrow> Some (- 1, s))"

text \<open>The loop that compares two names: it stops, without a mismatch, where either name ends.\<close>

fun name_match :: "nat \<Rightarrow> cstring \<Rightarrow> cstring \<Rightarrow> bool" where
  "name_match (Suc n) (a # name) (b # pname) = (if a \<noteq> b then False else name_match n name pname)"
| "name_match _ _ _ = True"

definition port_matches :: "cstring \<Rightarrow> ipc_port \<Rightarrow> bool" where
  "port_matches name p \<longleftrightarrow> p_in_use p \<and> p_name p \<noteq> [] \<and> name_match IPC_PORT_NAME_MAX name (p_name p)"

definition ipc_create_named_port :: "cstring option \<Rightarrow> ipc \<Rightarrow> (int \<times> ipc) option" where
  "ipc_create_named_port name s =
     (case name of None \<Rightarrow> Some (- 1, s)
      | Some name \<Rightarrow>
        if task_get_current (ipc_tasks s) = NULL then Some (- 1, s)
        else if find_first 0 IPC_MAX_PORTS (\<lambda>i. port_matches name (ports s ! i)) \<noteq> None
        then Some (- 1, s)
        else (case find_first 0 IPC_MAX_PORTS (\<lambda>i. \<not> p_in_use (ports s ! i)) of
           Some i \<Rightarrow> do {
             pid \<leftarrow> current_pid s;
             Some (int i, s\<lparr>ports := (ports s)[i :=
               open_port pid (strncpy_buf IPC_PORT_NAME_MAX name) (ports s ! i)]\<rparr>)
           }
         | None \<Rightarrow> Some (- 1, s)))"

definition ipc_find_port :: "cstring option \<Rightarrow> ipc \<Rightarrow> int" where
  "ipc_find_port name s =
     (case name of None \<Rightarrow> - 1
      | Some name \<Rightarrow> (case find_first 0 IPC_MAX_PORTS (\<lambda>i. port_matches name (ports s ! i)) of
          Some i \<Rightarrow> int i | None \<Rightarrow> - 1))"

text \<open>Waking the task that waits on port \<open>i\<close>.\<close>

definition wake_waiting :: "nat \<Rightarrow> ipc \<Rightarrow> ipc option" where
  "wake_waiting i s =
     (let p = ports s ! i in
      if p_waiting_task p = NULL then Some s
      else do {
        ts \<leftarrow> task_upd (p_waiting_task p) (\<lambda>t. t\<lparr>t_state := TASK_READY\<rparr>) (ipc_tasks s);
        Some (s\<lparr>ipc_tasks := ts, ports := (ports s)[i := p\<lparr>p_waiting_task := NULL\<rparr>]\<rparr>)
      })"

definition ipc_destroy_port :: "u32 \<Rightarrow> ipc \<Rightarrow> (int \<times> ipc) option" where
  "ipc_destroy_port port_id s =
     (if unat port_id \<ge> IPC_MAX_PORTS then Some (- 1, s)
      else (let i = unat port_id in
        if \<not> p_in_use (ports s ! i) then Some (- 1, s)
        else do {
          pid \<leftarrow> current_pid s;
          if p_owner_pid (ports s ! i) \<noteq> pid then Some (- 1, s)
          else do {
            s \<leftarrow> wake_waiting i s;
            Some (0, s\<lparr>ports := (ports s)[i :=
              (ports s ! i)\<lparr>p_in_use := False, p_owner_pid := 0, p_queue_count := 0\<rparr>]\<rparr>)
          }
        }))"

text \<open>Copying the first \<open>n\<close> bytes of \<open>src\<close> over \<open>dst\<close>.\<close>

definition copy_bytes :: "nat \<Rightarrow> bytes \<Rightarrow> bytes \<Rightarrow> bytes option" where
  "copy_bytes n src dst =
     (if n \<le> length src \<and> n \<le> length dst then Some (take n src @ drop n dst) else None)"

text \<open>
  Filling the slot at the tail of a port's ring. A null \<open>data\<close> pointer leaves the slot's bytes as
  they are.
\<close>

definition port_put :: "u32 \<Rightarrow> u32 \<Rightarrow> u32 \<Rightarrow> bytes option \<Rightarrow> u32 \<Rightarrow> ipc_port \<Rightarrow> ipc_port option" where
  "port_put pid src_port type data sz p = do {
     msg \<leftarrow> arr_get (p_queue p) (unat (p_queue_tail p));
     d \<leftarrow> (case data of
        Some bs \<Rightarrow> (if sz > 0 then copy_bytes (min (unat sz) IPC_MSG_MAX_SIZE) bs (m_data msg) else Some (m_data msg))
      | None \<Rightarrow> Some (m_data msg));
     q \<leftarrow> arr_set (p_queue p) (unat (p_queue_tail p))
       \<lparr>m_sender_pid = pid, m_sender_port = src_port, m_type = type, m_size = sz, m_data = d\<rparr>;
     Some (p\<lparr>p_queue := q, p_queue_tail := (p_queue_tail p + 1) mod of_nat IPC_PORT_QUEUE_SIZE,
       p_queue_count := p_queue_count p + 1, p_total_sent := p_total_sent p + 1\<rparr>)
   }"

definition ipc_send_from_port :: "u32 \<Rightarrow> u32 \<Rightarrow> u32 \<Rightarrow> bytes option \<Rightarrow> u32 \<Rightarrow> ipc \<Rightarrow> (int \<times> ipc) option" where
  "ipc_send_from_port src_port dest_port type data sz s =
     (if unat dest_port \<ge> IPC_MAX_PORTS then Some (- 1, s)
      else (let i = unat dest_port; p = ports s ! i in
        if \<not> p_in_use p then Some (- 1, s)
        else if unat sz > IPC_MSG_MAX_SIZE then Some (- 1, s)
        else if unat (p_queue_count p) \<ge> IPC_PORT_QUEUE_SIZE
        then Some (- 1, s\<lparr>ports := (ports s)[i := p\<lparr>p_drops := p_drops p + 1\<rparr>]\<rparr>)
        else do {
          pid \<leftarrow> current_pid s;
          p \<leftarrow> port_put pid src_port type data sz p;
          s \<leftarrow> wake_waiting i (s\<lparr>ports := (ports s)[i := p],
            total_messages_sent := total_messages_sent s + 1\<rparr>);
          Some (0, s)
        }))"

definition ipc_send :: "u32 \<Rightarrow> u32 \<Rightarrow> bytes option \<Rightarrow> u32 \<Rightarrow> ipc \<Rightarrow> (int \<times> ipc) option" where
  "ipc_send dest_port type data sz s = ipc_send_from_port 0 dest_port type data sz s"

text \<open>
  Copying the message at the head of the ring into the caller's buffer and removing it. Bytes of
  the buffer beyond the message's size stay.
\<close>

definition port_take :: "ipc_message \<Rightarrow> ipc_port \<Rightarrow> (ipc_message \<times> ipc_port) option" where
  "port_take buf p = do {
     q \<leftarrow> arr_get (p_queue p) (unat (p_queue_head p));
     d \<leftarrow> copy_bytes (min (unat (m_size q)) IPC_MSG_MAX_SIZE) (m_data q) (m_data buf);
     Some (\<lparr>m_sender_pid = m_sender_pid q, m_sender_port = m_sender_port q, m_type = m_type q,
             m_size = m_size q, m_data = d\<rparr>,
           p\<lparr>p_queue_head := (p_queue_head p + 1) mod of_nat IPC_PORT_QUEUE_SIZE,
             p_queue_count := p_queue_count p - 1, p_total_received := p_total_received p + 1\<rparr>)
   }"

text \<open>
  \<open>task_yield\<close> inside \<open>ipc_recv\<close>. When it switches to another task, \<open>resume\<close> is what the rest of the
  system does until this task runs again; when there is no other task it returns at once.
\<close>

definition yield_and_return :: "(ipc \<Rightarrow> ipc option) \<Rightarrow> ipc \<Rightarrow> ipc option" where
  "yield_and_return resume s = do {
     ts \<leftarrow> task_yield (ipc_tasks s);
     let s' = s\<lparr>ipc_tasks := ts\<rparr>;
     if current_task ts = current_task (ipc_tasks s) then Some s' else resume s'
   }"

definition recv_head :: "nat \<Rightarrow> ipc_message \<Rightarrow> ipc \<Rightarrow> (int \<times> ipc_message \<times> ipc) option" where
  "recv_head i buf s = do {
     (m, p) \<leftarrow> port_take buf (ports s ! i);
     Some (0, m, s\<lparr>ports := (ports s)[i := p]\<rparr>)
   }"

definition ipc_recv :: "(ipc \<Rightarrow> ipc option) \<Rightarrow> u32 \<Rightarrow> ipc_message \<Rightarrow> ipc \<Rightarrow> (int \<times> ipc_message \<times> ipc) option" where
  "ipc_recv resume port_id buf s =
     (if unat port_id \<ge> IPC_MAX_PORTS then Some (- 1, buf, s)
      else (let i = unat port_id; current = task_get_current (ipc_tasks s) in
        if \<not> p_in_use (ports s ! i) then Some (- 1, buf, s)
        else do {
          pid \<leftarrow> current_pid s;
          if p_owner_pid (ports s ! i) \<noteq> pid then Some (- 1, buf, s)
          else if p_queue_count (ports s ! i) = 0
          then do {
            ts \<leftarrow> task_upd current (\<lambda>t. t\<lparr>t_state := TASK_BLOCKED\<rparr>) (ipc_tasks s);
            s \<leftarrow> yield_and_return resume (s\<lparr>ipc_tasks := ts,
              ports := (ports s)[i := (ports s ! i)\<lparr>p_waiting_task := current\<rparr>]\<rparr>);
            if p_queue_count (ports s ! i) = 0 then Some (- 1, buf, s) else recv_head i buf s
          }
          else recv_head i buf s
        }))"

definition ipc_try_recv :: "u32 \<Rightarrow> ipc_message \<Rightarrow> ipc \<Rightarrow> (int \<times> ipc_message \<times> ipc) option" where
  "ipc_try_recv port_id buf s =
     (if unat port_id \<ge> IPC_MAX_PORTS then Some (- 1, buf, s)
      else (let i = unat port_id in
        if \<not> p_in_use (ports s ! i) then Some (- 1, buf, s)
        else do {
          pid \<leftarrow> current_pid s;
          if p_owner_pid (ports s ! i) \<noteq> pid then Some (- 1, buf, s)
          else if p_queue_count (ports s ! i) = 0 then Some (- 2, buf, s)
          else recv_head i buf s
        }))"

record ipc_stats =
  s_total_ports :: u32
  s_active_ports :: u32
  s_total_messages :: u32
  s_blocked_tasks :: u32

definition ipc_get_stats :: "ipc \<Rightarrow> ipc_stats" where
  "ipc_get_stats s = fold (\<lambda>i st.
     if p_in_use (ports s ! i)
     then st\<lparr>s_active_ports := s_active_ports st + 1,
             s_blocked_tasks := s_blocked_tasks st +
               (if p_waiting_task (ports s ! i) \<noteq> NULL then 1 else 0)\<rparr>
     else st) [0..<IPC_MAX_PORTS]
     \<lparr>s_total_ports = of_nat IPC_MAX_PORTS, s_active_ports = 0, s_total_messages = total_messages_sent s,
      s_blocked_tasks = 0\<rparr>"

section \<open>A port's ring is a bounded queue\<close>

type_synonym message = "u32 \<times> u32 \<times> u32 \<times> bytes"

text \<open>What a receiver sees of a slot: sender, reply port, type and the bytes of the message.\<close>

definition visible :: "ipc_message \<Rightarrow> message" where
  "visible m = (m_sender_pid m, m_sender_port m, m_type m, take (unat (m_size m)) (m_data m))"

text \<open>The 16 slots hold messages of at most 256 bytes; of an open port, some form a ring.\<close>

definition port_slots :: "ipc_port \<Rightarrow> bool" where
  "port_slots p \<longleftrightarrow> length (p_queue p) = 16 \<and>
     (\<forall>m \<in> set (p_queue p). length (m_data m) = 256 \<and> unat (m_size m) \<le> 256)"

definition port_inv :: "ipc_port \<Rightarrow> bool" where
  "port_inv p \<longleftrightarrow> port_slots p \<and> unat (p_queue_head p) < 16 \<and> unat (p_queue_count p) \<le> 16 \<and>
     unat (p_queue_tail p) = (unat (p_queue_head p) + unat (p_queue_count p)) mod 16"

definition port_contents :: "ipc_port \<Rightarrow> message list" where
  "port_contents p = map visible (slots (p_queue p) (unat (p_queue_head p)) (unat (p_queue_count p)))"

lemma length_port_contents [simp]: "length (port_contents p) = unat (p_queue_count p)"
  by (simp add: port_contents_def)

lemma ipc_sizes [simp]: "IPC_MSG_MAX_SIZE = 256" "IPC_MAX_PORTS = 32" "IPC_PORT_QUEUE_SIZE = 16" "IPC_PORT_NAME_MAX = 32"
  by (simp_all add: IPC_MSG_MAX_SIZE_def IPC_MAX_PORTS_def IPC_PORT_QUEUE_SIZE_def IPC_PORT_NAME_MAX_def)

lemma unat_mod_16: "unat ((x + 1) mod 16 :: u32) = (unat x + 1) mod 16" if "unat x < 16"
proof -
  have "unat (x + 1) = unat x + 1" using that by (subst unat_add_no_wrap) simp_all
  then show ?thesis by (simp add: unat_mod_distrib)
qed

lemma copy_bytes_run: "n \<le> length src \<Longrightarrow> n \<le> length dst \<Longrightarrow> copy_bytes n src dst = Some (take n src @ drop n dst)"
  by (simp add: copy_bytes_def)

text \<open>Any message that fits, put into a ring with room.\<close>

lemma port_put_run:
  assumes inv: "port_inv p" and room: "unat (p_queue_count p) < 16"
    and sz: "unat sz \<le> 256" "\<forall>bs. data = Some bs \<longrightarrow> unat sz \<le> length bs"
  shows "\<exists>p' m. port_put pid src ty data sz p = Some p' \<and> port_inv p' \<and>
    port_contents p' = port_contents p @ [visible m] \<and> m_sender_pid m = pid \<and> m_sender_port m = src \<and>
    m_type m = ty \<and> m_size m = sz \<and> (\<forall>bs. data = Some bs \<longrightarrow> take (unat sz) (m_data m) = take (unat sz) bs) \<and>
    (data = None \<longrightarrow> m_data m = m_data (p_queue p ! unat (p_queue_tail p))) \<and>
    p' = p\<lparr>p_queue := p_queue p', p_queue_tail := p_queue_tail p', p_queue_count := p_queue_count p + 1,
      p_total_sent := p_total_sent p + 1\<rparr>"
proof -
  let ?q = "p_queue p" and ?h = "unat (p_queue_head p)" and ?n = "unat (p_queue_count p)"
  let ?t = "unat (p_queue_tail p)"
  have i: "length ?q = 16" "?h < 16" "?t = (?h + ?n) mod 16"
      "\<forall>m \<in> set ?q. length (m_data m) = 256 \<and> unat (m_size m) \<le> 256"
    using inv by (simp_all add: port_inv_def port_slots_def)
  have t: "?t < 16" using i(3) by simp
  define d where "d = (case data of Some bs \<Rightarrow>
      if sz > 0 then take (unat sz) bs @ drop (unat sz) (m_data (?q ! ?t)) else m_data (?q ! ?t)
    | None \<Rightarrow> m_data (?q ! ?t))"
  have ld: "length (m_data (?q ! ?t)) = 256" using i(1,4) t by auto
  have d: "length d = 256" "\<forall>bs. data = Some bs \<longrightarrow> take (unat sz) d = take (unat sz) bs"
      "data = None \<longrightarrow> d = m_data (?q ! ?t)"
    using ld sz by (auto simp: d_def word_less_nat_alt split: option.splits)
  let ?m = "\<lparr>m_sender_pid = pid, m_sender_port = src, m_type = ty, m_size = sz, m_data = d\<rparr>"
  let ?p = "p\<lparr>p_queue := ?q[?t := ?m], p_queue_tail := (p_queue_tail p + 1) mod 16,
       p_queue_count := p_queue_count p + 1, p_total_sent := p_total_sent p + 1\<rparr>"
  have "(case data of Some bs \<Rightarrow> (if sz > 0 then copy_bytes (min (unat sz) 256) bs (m_data (?q ! ?t)) else Some (m_data (?q ! ?t)))
      | None \<Rightarrow> Some (m_data (?q ! ?t))) = Some d"
    using sz ld by (auto simp: d_def copy_bytes_def min_def split: option.splits)
  then have run: "port_put pid src ty data sz p = Some ?p"
    unfolding port_put_def ipc_sizes using t i(1) by simp
  have cnt: "unat (p_queue_count p + 1) = ?n + 1" using room by (subst unat_add_no_wrap) simp_all
  have "unat (p_queue_tail ?p) = (?h + (?n + 1)) mod 16"
    using unat_mod_16[OF t] i(3) by (simp add: mod_Suc_eq)
  then have "port_inv ?p"
    unfolding port_inv_def port_slots_def using i cnt room d(1) sz(1) set_update_subset_insert[of ?q ?t ?m] by auto
  moreover have "port_contents ?p = port_contents p @ [visible ?m]"
    using slots_put[of ?n ?q ?h ?m] room i(1,3) cnt by (simp add: port_contents_def)
  ultimately show ?thesis using run d by (intro exI[of _ ?p] exI[of _ ?m]) simp
qed

lemma port_take_run:
  assumes inv: "port_inv p" and c: "port_contents p = x # xs" and buf: "length (m_data buf) = 256"
  shows "\<exists>m p'. port_take buf p = Some (m, p') \<and> visible m = x \<and> port_inv p' \<and> port_contents p' = xs \<and>
    length (m_data m) = 256 \<and> drop (unat (m_size m)) (m_data m) = drop (unat (m_size m)) (m_data buf) \<and>
    p' = p\<lparr>p_queue_head := p_queue_head p', p_queue_count := p_queue_count p - 1,
      p_total_received := p_total_received p + 1\<rparr>"
proof -
  let ?q = "p_queue p" and ?h = "unat (p_queue_head p)" and ?n = "unat (p_queue_count p)"
  have i: "length ?q = 16" "?h < 16" "unat (p_queue_tail p) = (?h + ?n) mod 16" "?n \<le> 16"
      "\<forall>m \<in> set ?q. length (m_data m) = 256 \<and> unat (m_size m) \<le> 256"
    using inv by (simp_all add: port_inv_def port_slots_def)
  have "length (port_contents p) = Suc (length xs)" using c by simp
  then have n: "?n = Suc (length xs)" by simp
  let ?m = "?q ! ?h"
  have m: "length (m_data ?m) = 256" "unat (m_size ?m) \<le> 256" using i(1,2,5) by auto
  have eq: "port_contents p = visible ?m # map visible (slots ?q ((?h + 1) mod 16) (length xs))"
    unfolding port_contents_def n slots_take using i(1,2) by simp
  let ?d = "take (unat (m_size ?m)) (m_data ?m) @ drop (unat (m_size ?m)) (m_data buf)"
  let ?r = "\<lparr>m_sender_pid = m_sender_pid ?m, m_sender_port = m_sender_port ?m, m_type = m_type ?m,
             m_size = m_size ?m, m_data = ?d\<rparr>"
  let ?p = "p\<lparr>p_queue_head := (p_queue_head p + 1) mod 16, p_queue_count := p_queue_count p - 1,
      p_total_received := p_total_received p + 1\<rparr>"
  have run: "port_take buf p = Some (?r, ?p)"
    using i(1,2) m buf by (simp add: port_take_def copy_bytes_def min_def)
  have cnt: "unat (p_queue_count p - 1) = length xs"
    using n by (subst unat_sub_le) (simp_all add: word_le_nat_alt)
  have hd: "unat ((p_queue_head p + 1) mod 16) = (?h + 1) mod 16" by (rule unat_mod_16[OF i(2)])
  have "visible ?r = x" using c eq m by (simp add: visible_def)
  moreover have "port_contents ?p = xs" using c eq cnt hd by (simp add: port_contents_def)
  moreover have "port_inv ?p"
    using i n cnt hd unfolding port_inv_def port_slots_def by (simp add: mod_simps)
  ultimately show ?thesis using run m buf by (intro exI[of _ ?r] exI[of _ ?p]) simp
qed

text \<open>The two bodies as the operations of a queue of messages.\<close>

definition port_enq :: "message \<Rightarrow> ipc_port \<Rightarrow> ipc_port option" where
  "port_enq m p = (case m of (pid, src, ty, bs) \<Rightarrow>
     if unat (p_queue_count p) \<ge> IPC_PORT_QUEUE_SIZE then None
     else port_put pid src ty (Some bs) (of_nat (length bs)) p)"

definition blank_message :: ipc_message where
  "blank_message = \<lparr>m_sender_pid = 0, m_sender_port = 0, m_type = 0, m_size = 0, m_data = replicate 256 0\<rparr>"

definition port_deq :: "ipc_port \<Rightarrow> (message \<times> ipc_port) option" where
  "port_deq p = (if p_queue_count p = 0 then None
     else do { (m, p) \<leftarrow> port_take blank_message p; Some (visible m, p) })"

definition message_ok :: "message \<Rightarrow> bool" where
  "message_ok m \<longleftrightarrow> (case m of (pid, src, ty, bs) \<Rightarrow> length bs \<le> 256)"

lemma unat_size: "length bs \<le> 256 \<Longrightarrow> unat (of_nat (length (bs :: bytes)) :: u32) = length bs"
  by (rule of_nat_unat_less) simp

interpretation pq: bounded_fifo port_inv message_ok port_contents 16 port_enq port_deq
proof unfold_locales
  fix p x
  assume a: "port_inv p" "message_ok x" "length (port_contents p) < 16"
  obtain pid src ty bs where x: "x = (pid, src, ty, bs)" by (cases x)
  have len: "length bs \<le> 256" using a(2) x by (simp add: message_ok_def)
  from port_put_run[OF a(1), of "of_nat (length bs)" "Some bs" pid src ty] a(3) len
  show "\<exists>p'. port_enq x p = Some p' \<and> port_inv p' \<and> port_contents p' = port_contents p @ [x]"
    by (fastforce simp: x port_enq_def visible_def unat_size[OF len])
next
  fix p x xs
  assume a: "port_inv p" "port_contents p = x # xs"
  have "p_queue_count p \<noteq> 0" using arg_cong[OF a(2), of length] by auto
  with port_take_run[OF a, of blank_message]
  show "\<exists>p'. port_deq p = Some (x, p') \<and> port_inv p' \<and> port_contents p' = xs"
    by (fastforce simp: port_deq_def blank_message_def)
next
  fix p
  assume "port_inv p" "port_contents p = []"
  then have "length (port_contents p) = 0" by simp
  then show "port_deq p = None" by (simp add: port_deq_def unat_eq_0)
next
  fix p x
  assume "port_inv p" "16 \<le> length (port_contents p)"
  then show "port_enq x p = None" by (simp add: port_enq_def split: prod.split)
next
  fix p
  assume "port_inv p"
  then show "length (port_contents p) \<le> 16" by (simp add: port_inv_def)
qed

section \<open>Invariant\<close>

definition ipc_wf :: "ipc \<Rightarrow> ptr list \<Rightarrow> bool" where
  "ipc_wf s ts \<longleftrightarrow> task_wf (ipc_tasks s) ts \<and> length (ports s) = 32 \<and>
     (\<forall>p \<in> set (ports s). port_slots p \<and> (p_in_use p \<longrightarrow> port_inv p) \<and>
        (p_waiting_task p \<noteq> NULL \<longrightarrow> p_waiting_task p \<in> dom (task_mem (ipc_tasks s))))"

lemma ipc_wf_port:
  "ipc_wf s ts \<Longrightarrow> i < 32 \<Longrightarrow> port_slots (ports s ! i) \<and> (p_in_use (ports s ! i) \<longrightarrow> port_inv (ports s ! i)) \<and>
   (p_waiting_task (ports s ! i) \<noteq> NULL \<longrightarrow> p_waiting_task (ports s ! i) \<in> dom (task_mem (ipc_tasks s)))"
  by (simp add: ipc_wf_def)

lemma ipc_wf_pid: "ipc_wf s ts \<Longrightarrow> \<exists>pid. current_pid s = Some pid"
  using ring_mem by (fastforce simp: ipc_wf_def task_wf_def current_pid_def task_get_current_def)

lemma ipc_wf_upd:
  assumes "ipc_wf s ts" "port_slots p" "p_in_use p \<longrightarrow> port_inv p" "p_waiting_task p \<noteq> NULL \<longrightarrow> p_waiting_task p \<in> dom (task_mem (ipc_tasks s))"
  shows "ipc_wf (s\<lparr>ports := (ports s)[i := p]\<rparr>) ts"
  using assms set_update_subset_insert[of "ports s" i p] by (auto simp: ipc_wf_def)

lemma ipc_wf_upd_total: "ipc_wf (s\<lparr>total_messages_sent := n\<rparr>) ts = ipc_wf s ts"
  by (simp add: ipc_wf_def)

lemma ipc_wf_task_upd:
  assumes wf: "ipc_wf s ts" and t: "task_mem (ipc_tasks s) p = Some t" "t_next t' = t_next t"
  shows "ipc_wf (s\<lparr>ipc_tasks := (ipc_tasks s)\<lparr>task_mem := (task_mem (ipc_tasks s))(p \<mapsto> t')\<rparr>\<rparr>) ts"
  using assms task_wf_upd[of "ipc_tasks s" ts p t t'] by (auto simp: ipc_wf_def)

lemma port_inv_fields:
  "port_inv (p\<lparr>p_waiting_task := w\<rparr>) = port_inv p" "port_inv (p\<lparr>p_drops := n\<rparr>) = port_inv p"
  "port_contents (p\<lparr>p_waiting_task := w\<rparr>) = port_contents p" "port_contents (p\<lparr>p_drops := n\<rparr>) = port_contents p"
  "port_slots (p\<lparr>p_waiting_task := w\<rparr>) = port_slots p" "port_slots (p\<lparr>p_drops := n\<rparr>) = port_slots p"
  by (simp_all add: port_inv_def port_contents_def port_slots_def)

lemma port_inv_slots: "port_inv p \<Longrightarrow> port_slots p"
  by (simp add: port_inv_def)

text \<open>Waking the receiver of a port changes its state and clears the pointer, nothing else.\<close>

lemma wake_waiting_run:
  assumes wf: "ipc_wf s ts" and i: "i < 32"
  shows "\<exists>s'. wake_waiting i s = Some s' \<and> ipc_wf s' ts \<and>
    ports s' = (ports s)[i := (ports s ! i)\<lparr>p_waiting_task := NULL\<rparr>] \<and>
    total_messages_sent s' = total_messages_sent s \<and> current_pid s' = current_pid s \<and>
    (p_waiting_task (ports s ! i) \<noteq> NULL \<longrightarrow>
      map_option t_state (task_mem (ipc_tasks s') (p_waiting_task (ports s ! i))) = Some TASK_READY)"
proof -
  let ?p = "ports s ! i"
  let ?w = "p_waiting_task ?p"
  note pi = ipc_wf_port[OF wf i]
  show ?thesis
  proof (cases "?w = NULL")
    case True
    have "?p\<lparr>p_waiting_task := NULL\<rparr> = ?p" using True by (cases ?p) simp
    then have "(ports s)[i := ?p\<lparr>p_waiting_task := NULL\<rparr>] = ports s" by simp
    with True wf show ?thesis by (simp add: wake_waiting_def Let_def)
  next
    case False
    then obtain t where t: "task_mem (ipc_tasks s) ?w = Some t" using pi by auto
    let ?s1 = "s\<lparr>ipc_tasks := (ipc_tasks s)\<lparr>task_mem := (task_mem (ipc_tasks s))(?w \<mapsto> t\<lparr>t_state := TASK_READY\<rparr>)\<rparr>\<rparr>"
    have wf1: "ipc_wf ?s1 ts" by (rule ipc_wf_task_upd[OF wf t]) simp
    have "ipc_wf (?s1\<lparr>ports := (ports ?s1)[i := ?p\<lparr>p_waiting_task := NULL\<rparr>]\<rparr>) ts"
      by (rule ipc_wf_upd[OF wf1]) (use pi in \<open>simp_all add: port_inv_fields\<close>)
    moreover have "wake_waiting i s = Some (?s1\<lparr>ports := (ports ?s1)[i := ?p\<lparr>p_waiting_task := NULL\<rparr>]\<rparr>)"
      using False t by (simp add: wake_waiting_def task_upd_def Let_def)
    ultimately show ?thesis using t
      by (auto simp: current_pid_def task_get_current_def)
  qed
qed

text \<open>The part of sending after the checks.\<close>

lemma send_run:
  assumes wf: "ipc_wf s ts" and d: "unat dest < 32" "p_in_use (ports s ! unat dest)" "unat sz \<le> 256"
    and room: "length (port_contents (ports s ! unat dest)) < 16"
    and bs: "\<forall>bs. data = Some bs \<longrightarrow> unat sz \<le> length bs" and pid: "current_pid s = Some pid"
  shows "\<exists>s' p' m. ipc_send_from_port src dest ty data sz s = Some (0, s') \<and> ipc_wf s' ts \<and>
    current_pid s' = Some pid \<and> ports s' = (ports s)[unat dest := p'] \<and>
    port_contents p' = port_contents (ports s ! unat dest) @ [visible m] \<and>
    m_sender_pid m = pid \<and> m_sender_port m = src \<and> m_type m = ty \<and> m_size m = sz \<and>
    (\<forall>bs. data = Some bs \<longrightarrow> take (unat sz) (m_data m) = take (unat sz) bs) \<and>
    (data = None \<longrightarrow> m_data m = m_data (p_queue (ports s ! unat dest) ! unat (p_queue_tail (ports s ! unat dest)))) \<and>
    p_in_use p' \<and> p_owner_pid p' = p_owner_pid (ports s ! unat dest) \<and> p_waiting_task p' = NULL \<and>
    p_name p' = p_name (ports s ! unat dest) \<and>
    (p_waiting_task (ports s ! unat dest) \<noteq> NULL \<longrightarrow>
      map_option t_state (task_mem (ipc_tasks s') (p_waiting_task (ports s ! unat dest))) = Some TASK_READY)"
proof -
  let ?i = "unat dest" and ?p = "ports s ! unat dest"
  note pi = ipc_wf_port[OF wf d(1)]
  have len: "length (ports s) = 32" using wf by (simp add: ipc_wf_def)
  obtain p1 m where p1: "port_put pid src ty data sz ?p = Some p1" "port_inv p1"
      "port_contents p1 = port_contents ?p @ [visible m]" "m_sender_pid m = pid" "m_sender_port m = src"
      "m_type m = ty" "m_size m = sz" "\<forall>bs. data = Some bs \<longrightarrow> take (unat sz) (m_data m) = take (unat sz) bs"
      "data = None \<longrightarrow> m_data m = m_data (p_queue ?p ! unat (p_queue_tail ?p))"
      "p1 = ?p\<lparr>p_queue := p_queue p1, p_queue_tail := p_queue_tail p1, p_queue_count := p_queue_count ?p + 1,
        p_total_sent := p_total_sent ?p + 1\<rparr>"
    using port_put_run[of ?p sz data pid src ty] pi room d(2,3) bs by auto
  have same: "p_waiting_task p1 = p_waiting_task ?p" "p_in_use p1 = p_in_use ?p"
      "p_owner_pid p1 = p_owner_pid ?p" "p_name p1 = p_name ?p"
    by (subst p1(10), simp)+
  let ?s1 = "s\<lparr>ports := (ports s)[?i := p1], total_messages_sent := total_messages_sent s + 1\<rparr>"
  have "ipc_wf (s\<lparr>ports := (ports s)[?i := p1]\<rparr>) ts"
    by (rule ipc_wf_upd[OF wf port_inv_slots[OF p1(2)]]) (use pi same p1(2) in simp_all)
  then have wf1: "ipc_wf ?s1 ts" by (simp add: ipc_wf_def)
  have pi1: "ports ?s1 ! ?i = p1" using len d(1) by simp
  have pid1: "current_pid ?s1 = Some pid" using pid by (simp add: current_pid_def)
  obtain s' where s': "wake_waiting ?i ?s1 = Some s'" "ipc_wf s' ts"
      "ports s' = (ports ?s1)[?i := p1\<lparr>p_waiting_task := NULL\<rparr>]" "current_pid s' = Some pid"
      "p_waiting_task p1 \<noteq> NULL \<longrightarrow> map_option t_state (task_mem (ipc_tasks s') (p_waiting_task p1)) = Some TASK_READY"
    using wake_waiting_run[OF wf1 d(1)] unfolding pi1 pid1 by blast
  have "ipc_send_from_port src dest ty data sz s = Some (0, s')"
    using d room pid p1(1) s'(1) by (simp add: ipc_send_from_port_def Let_def)
  moreover have "port_contents (p1\<lparr>p_waiting_task := NULL\<rparr>) = port_contents ?p @ [visible m]"
    using p1(3) by (simp add: port_inv_fields)
  ultimately show ?thesis using s' p1(4-9) same d(2)
    by (intro exI[of _ s'] exI[of _ "p1\<lparr>p_waiting_task := NULL\<rparr>"] exI[of _ m]) simp
qed

lemma recv_head_run:
  assumes wf: "ipc_wf s ts" and i: "i < 32" "p_in_use (ports s ! i)" and c: "port_contents (ports s ! i) = x # xs"
    and buf: "length (m_data buf) = 256"
  shows "\<exists>m s' p'. recv_head i buf s = Some (0, m, s') \<and> ipc_wf s' ts \<and> visible m = x \<and>
    ports s' = (ports s)[i := p'] \<and> port_contents p' = xs \<and> ipc_tasks s' = ipc_tasks s \<and>
    length (m_data m) = 256 \<and> p_in_use p' = p_in_use (ports s ! i) \<and> p_owner_pid p' = p_owner_pid (ports s ! i)"
proof -
  let ?p = "ports s ! i"
  note pi = ipc_wf_port[OF wf i(1)]
  obtain m p' where p': "port_take buf ?p = Some (m, p')" "visible m = x" "port_inv p'" "port_contents p' = xs"
      "length (m_data m) = 256"
      "p' = ?p\<lparr>p_queue_head := p_queue_head p', p_queue_count := p_queue_count ?p - 1,
        p_total_received := p_total_received ?p + 1\<rparr>"
    using port_take_run[of ?p x xs buf] pi i(2) c buf by blast
  have same: "p_waiting_task p' = p_waiting_task ?p" "p_in_use p' = p_in_use ?p" "p_owner_pid p' = p_owner_pid ?p"
    by (subst p'(6), simp)+
  have "ipc_wf (s\<lparr>ports := (ports s)[i := p']\<rparr>) ts"
    by (rule ipc_wf_upd[OF wf port_inv_slots[OF p'(3)]]) (use pi same p'(3) in simp_all)
  with p' same show ?thesis by (auto simp: recv_head_def)
qed

section \<open>Properties\<close>

text \<open>
  C7. Sending succeeds exactly when the port exists and is in use, the message has at most 256 bytes
  and the ring has room: then the message, with the sender's process id, is appended to the port's
  queue and a task that waits on the port is made ready. When the ring is full the message is
  counted as dropped. On every failure the result is -1 and all queues are as before.
\<close>
theorem ipc_send_correct:
  assumes wf: "ipc_wf s ts" and bs: "unat sz \<le> length bs"
  shows "\<exists>r s' pid. ipc_send_from_port src dest ty (Some bs) sz s = Some (r, s') \<and> ipc_wf s' ts \<and>
    current_pid s = Some pid \<and>
    (let i = unat dest; p = ports s ! i in
     if i < 32 \<and> p_in_use p \<and> unat sz \<le> 256
     then if length (port_contents p) < 16
       then r = 0 \<and> (\<exists>p'. ports s' = (ports s)[i := p'] \<and>
         port_contents p' = port_contents p @ [(pid, src, ty, take (unat sz) bs)] \<and>
         (p_waiting_task p \<noteq> NULL \<longrightarrow>
            map_option t_state (task_mem (ipc_tasks s') (p_waiting_task p)) = Some TASK_READY))
       else r = - 1 \<and> s' = s\<lparr>ports := (ports s)[i := p\<lparr>p_drops := p_drops p + 1\<rparr>]\<rparr>
     else r = - 1 \<and> s' = s)"
proof -
  obtain pid where pid: "current_pid s = Some pid" using ipc_wf_pid[OF wf] by blast
  let ?i = "unat dest" and ?p = "ports s ! unat dest"
  consider (bad) "\<not> (?i < 32 \<and> p_in_use ?p \<and> unat sz \<le> 256)"
    | (full) "?i < 32" "p_in_use ?p" "unat sz \<le> 256" "\<not> length (port_contents ?p) < 16"
    | (ok) "?i < 32" "p_in_use ?p" "unat sz \<le> 256" "length (port_contents ?p) < 16" by blast
  then show ?thesis
  proof cases
    case bad
    then have "ipc_send_from_port src dest ty (Some bs) sz s = Some (- 1, s)"
      by (auto simp: ipc_send_from_port_def Let_def)
    with bad wf pid show ?thesis by (auto simp: Let_def)
  next
    case full
    note pi = ipc_wf_port[OF wf full(1)]
    let ?q = "?p\<lparr>p_drops := p_drops ?p + 1\<rparr>"
    have "ipc_wf (s\<lparr>ports := (ports s)[?i := ?q]\<rparr>) ts"
      by (rule ipc_wf_upd[OF wf]) (use pi in \<open>simp_all add: port_inv_fields\<close>)
    moreover have "ipc_send_from_port src dest ty (Some bs) sz s = Some (- 1, s\<lparr>ports := (ports s)[?i := ?q]\<rparr>)"
      using full by (simp add: ipc_send_from_port_def Let_def)
    ultimately show ?thesis using full pid by (simp add: Let_def)
  next
    case ok
    have "\<forall>bs'. Some bs = Some bs' \<longrightarrow> unat sz \<le> length bs'" using bs by simp
    from send_run[OF wf ok this pid, of src ty] obtain s' p' m where m:
        "ipc_send_from_port src dest ty (Some bs) sz s = Some (0, s')" "ipc_wf s' ts"
        "ports s' = (ports s)[?i := p']" "port_contents p' = port_contents ?p @ [visible m]"
        "m_sender_pid m = pid" "m_sender_port m = src" "m_type m = ty" "m_size m = sz"
        "take (unat sz) (m_data m) = take (unat sz) bs"
        "p_waiting_task ?p \<noteq> NULL \<longrightarrow>
          map_option t_state (task_mem (ipc_tasks s') (p_waiting_task ?p)) = Some TASK_READY"
      by auto
    from m(4-9) have "port_contents p' = port_contents ?p @ [(pid, src, ty, take (unat sz) bs)]"
      by (simp add: visible_def)
    with m(3) have "\<exists>p'. ports s' = (ports s)[?i := p'] \<and>
        port_contents p' = port_contents ?p @ [(pid, src, ty, take (unat sz) bs)]" by blast
    then show ?thesis using ok pid m(1,2,10) by (simp add: Let_def)
  qed
qed

text \<open>
  A non-blocking receive returns, to the owner of the port only, the oldest message of the queue
  and removes it; -2 on an empty queue; -1 to anyone else or on a port that is not in use. In the
  last two cases nothing changes.
\<close>
theorem ipc_try_recv_correct:
  assumes wf: "ipc_wf s ts" and buf: "length (m_data buf) = 256"
  shows "\<exists>r m s' pid. ipc_try_recv port buf s = Some (r, m, s') \<and> ipc_wf s' ts \<and> current_pid s = Some pid \<and>
    (let i = unat port; p = ports s ! i in
     if i < 32 \<and> p_in_use p \<and> p_owner_pid p = pid
     then (case port_contents p of
         [] \<Rightarrow> r = - 2 \<and> m = buf \<and> s' = s
       | x # xs \<Rightarrow> r = 0 \<and> visible m = x \<and>
           (\<exists>p'. ports s' = (ports s)[i := p'] \<and> port_contents p' = xs) \<and> ipc_tasks s' = ipc_tasks s)
     else r = - 1 \<and> m = buf \<and> s' = s)"
proof -
  obtain pid where pid: "current_pid s = Some pid" using ipc_wf_pid[OF wf] by blast
  let ?i = "unat port" and ?p = "ports s ! unat port"
  show ?thesis
  proof (cases "?i < 32 \<and> p_in_use ?p \<and> p_owner_pid ?p = pid")
    case False
    then have "ipc_try_recv port buf s = Some (- 1, buf, s)"
      using pid by (auto simp: ipc_try_recv_def Let_def)
    with False wf pid show ?thesis by (auto simp: Let_def)
  next
    case True
    then have run: "ipc_try_recv port buf s = (if p_queue_count ?p = 0 then Some (- 2, buf, s) else recv_head ?i buf s)"
      using pid by (simp add: ipc_try_recv_def Let_def)
    have e: "p_queue_count ?p = 0 \<longleftrightarrow> port_contents ?p = []"
      using length_port_contents[of ?p] by (metis length_0_conv unat_eq_0)
    show ?thesis
    proof (cases "port_contents ?p")
      case Nil
      with True run e wf pid show ?thesis by (simp add: Let_def)
    next
      case (Cons x xs)
      with recv_head_run[OF wf _ _ Cons buf] True obtain m s' p' where
          "recv_head ?i buf s = Some (0, m, s')" "ipc_wf s' ts" "visible m = x"
          "ports s' = (ports s)[?i := p']" "port_contents p' = xs" "ipc_tasks s' = ipc_tasks s" by blast
      with Cons True run e pid show ?thesis by (auto simp: Let_def)
    qed
  qed
qed

text \<open>
  C8. The ring of a port is first in, first out: messages of at most 256 bytes sent to a port that
  has room for them come out of it in the order they went in, after those it held before.
\<close>
theorem port_fifo:
  assumes "port_inv p" "\<forall>m \<in> set ms. message_ok m" "length (port_contents p) + length ms \<le> 16"
  shows "\<exists>p' p''. pq.enqs ms p = Some p' \<and>
    pq.deqs (length (port_contents p) + length ms) p' = Some (port_contents p @ ms, p'') \<and>
    port_contents p'' = []"
  by (rule pq.in_order[OF assms])

text \<open>
  Only the owner of a port receives from it or destroys it: to any other task both kinds of
  receive and the destruction return -1 and change nothing.
\<close>
theorem ipc_owner_only:
  assumes "unat port < 32" "current_pid s = Some pid" "p_owner_pid (ports s ! unat port) \<noteq> pid"
  shows "ipc_recv resume port buf s = Some (- 1, buf, s) \<and> ipc_try_recv port buf s = Some (- 1, buf, s) \<and>
    ipc_destroy_port port s = Some (- 1, s)"
  using assms by (simp add: ipc_recv_def ipc_try_recv_def ipc_destroy_port_def Let_def)

lemma name_match_prefix: "name_match n (take k pname) pname"
  by (induction n "take k pname" pname arbitrary: k rule: name_match.induct) (auto simp: take_Cons' split: if_splits)

text \<open>
  Names of ports are compared only up to the end of the shorter one: looking up any prefix of
  the name of a port, the empty name included, finds a port, and no port with such a name can be
  created.
\<close>
theorem ipc_name_prefix:
  assumes i: "i < 32" "p_in_use (ports s ! i)" "p_name (ports s ! i) \<noteq> []"
  shows "ipc_find_port (Some (take k (p_name (ports s ! i)))) s \<noteq> - 1 \<and>
    ipc_create_named_port (Some (take k (p_name (ports s ! i)))) s = Some (- 1, s)"
proof -
  let ?P = "\<lambda>j. port_matches (take k (p_name (ports s ! i))) (ports s ! j)"
  have "?P i" using i by (simp add: port_matches_def name_match_prefix del: ipc_sizes)
  then have "find_first 0 32 ?P \<noteq> None" using i(1) by (auto simp: find_first_None)
  then obtain j where "find_first 0 32 ?P = Some j" by blast
  then show ?thesis by (simp add: ipc_find_port_def ipc_create_named_port_def)
qed

text \<open>
  A blocking receive on an empty port does not block when no other task is there to run: it
  returns -1, which its comment reads as \<open>port was destroyed\<close>, with the port still in use.
\<close>
theorem ipc_recv_alone:
  assumes wf: "ipc_wf s [p]" and port: "unat port < 32" "p_in_use (ports s ! unat port)"
    "port_contents (ports s ! unat port) = []" "current_pid s = Some (p_owner_pid (ports s ! unat port))"
  shows "\<exists>s'. ipc_recv resume port buf s = Some (- 1, buf, s') \<and> p_in_use (ports s' ! unat port)"
proof -
  let ?i = "unat port" and ?q = "ports s ! unat port"
  have tw: "task_wf (ipc_tasks s) [p]" and len: "length (ports s) = 32" using wf by (simp_all add: ipc_wf_def)
  then have c: "current_task (ipc_tasks s) = p" by (simp add: task_wf_def)
  obtain t where t: "task_mem (ipc_tasks s) p = Some t"
    using tw ring_mem by (fastforce simp: task_wf_def)
  let ?ts = "(ipc_tasks s)\<lparr>task_mem := (task_mem (ipc_tasks s))(p \<mapsto> t\<lparr>t_state := TASK_BLOCKED\<rparr>)\<rparr>"
  have up: "task_upd p (\<lambda>t. t\<lparr>t_state := TASK_BLOCKED\<rparr>) (ipc_tasks s) = Some ?ts"
    using t by (simp add: task_upd_def)
  have tw': "task_wf ?ts [p]" by (rule task_wf_upd[OF tw t]) simp
  have "\<not> zombie ?ts p" by (simp add: zombie_def)
  from task_yield_run[of ?ts "[]" p "[]"] tw' this obtain ts' where ts':
      "task_yield ?ts = Some ts'" "current_task ts' = p" by auto
  have e: "p_queue_count ?q = 0"
    using port(3) length_port_contents[of ?q] by (metis list.size(3) unat_eq_0)
  let ?s' = "s\<lparr>ipc_tasks := ts', ports := (ports s)[?i := ?q\<lparr>p_waiting_task := p\<rparr>]\<rparr>"
  have "ipc_recv resume port buf s = Some (- 1, buf, ?s')"
    using port c up ts' e len
    by (simp add: ipc_recv_def yield_and_return_def task_get_current_def Let_def)
  moreover have "p_in_use (ports ?s' ! ?i)" using port len by simp
  ultimately show ?thesis by blast
qed

text \<open>
  A send with a null data pointer and a size delivers old contents of the ring slot: the
  receiver of the port gets bytes of a message that was received before, whoever sent it.
\<close>
theorem ipc_send_stale:
  assumes wf: "ipc_wf s ts" and dest: "unat dest < 32" "p_in_use (ports s ! unat dest)" "unat sz \<le> 256"
    and room: "length (port_contents (ports s ! unat dest)) < 16" and pid: "current_pid s = Some pid"
  shows "\<exists>s' p'. ipc_send dest ty None sz s = Some (0, s') \<and> ports s' = (ports s)[unat dest := p'] \<and>
    port_contents p' = port_contents (ports s ! unat dest) @ [(pid, 0, ty,
      take (unat sz) (m_data (p_queue (ports s ! unat dest) ! unat (p_queue_tail (ports s ! unat dest)))))]"
  using send_run[OF wf dest room _ pid, of None 0 ty] by (fastforce simp: ipc_send_def visible_def)

section \<open>Any sequence of operations\<close>

text \<open>
  The steps of the system: any call of a port operation by the task that runs, with buffers as
  long as their sizes say, a timer tick, a yield, and the creation of a task.
\<close>

inductive ipc_step :: "ipc \<Rightarrow> ipc \<Rightarrow> bool" where
  create: "ipc_create_port s = Some (r, s') \<Longrightarrow> ipc_step s s'"
| create_named: "ipc_create_named_port name s = Some (r, s') \<Longrightarrow> ipc_step s s'"
| destroy: "ipc_destroy_port port s = Some (r, s') \<Longrightarrow> ipc_step s s'"
| send: "ipc_send_from_port src dest ty data sz s = Some (r, s') \<Longrightarrow>
    (\<forall>bs. data = Some bs \<longrightarrow> unat sz \<le> length bs) \<Longrightarrow> ipc_step s s'"
| try_recv: "ipc_try_recv port buf s = Some (r, m, s') \<Longrightarrow> length (m_data buf) = 256 \<Longrightarrow> ipc_step s s'"
| tick: "task_schedule (ipc_tasks s) = Some ts \<Longrightarrow> ipc_step s (s\<lparr>ipc_tasks := ts\<rparr>)"
| yield: "task_yield (ipc_tasks s) = Some ts \<Longrightarrow> ipc_step s (s\<lparr>ipc_tasks := ts\<rparr>)"
| spawn: "task_create name ep kdir (ipc_tasks s) = Some (pid, ts) \<Longrightarrow> ipc_step s (s\<lparr>ipc_tasks := ts\<rparr>)"

inductive_cases ipc_stepE: "ipc_step s s'"

inductive ipc_reach :: "ipc \<Rightarrow> ipc \<Rightarrow> bool" for s0 where
  start: "ipc_reach s0 s0"
| step: "ipc_reach s0 s \<Longrightarrow> ipc_step s s' \<Longrightarrow> ipc_reach s0 s'"

definition ipc_ok :: "ipc \<Rightarrow> bool" where
  "ipc_ok s \<longleftrightarrow> (\<exists>ts. ipc_wf s ts)"

lemma port_inv_open: "port_slots p \<Longrightarrow> port_inv (open_port pid name p)"
  by (simp add: port_inv_def port_slots_def open_port_def)

lemma open_port_waiting: "p_waiting_task (open_port pid name p) = NULL"
  by (simp add: open_port_def)

lemma ipc_wf_open:
  "ipc_wf s ts \<Longrightarrow> i < 32 \<Longrightarrow> ipc_wf (s\<lparr>ports := (ports s)[i := open_port pid name (ports s ! i)]\<rparr>) ts"
proof -
  assume wf: "ipc_wf s ts" and i: "i < 32"
  have pi: "port_inv (open_port pid name (ports s ! i))" using ipc_wf_port[OF wf i] by (simp add: port_inv_open)
  show ?thesis
    by (rule ipc_wf_upd[OF wf port_inv_slots[OF pi]]) (simp_all add: pi open_port_waiting)
qed

lemma ipc_create_port_ok:
  assumes wf: "ipc_wf s ts"
  shows "\<exists>r s'. ipc_create_port s = Some (r, s') \<and> ipc_wf s' ts"
proof -
  obtain pid where "current_pid s = Some pid" using ipc_wf_pid[OF wf] by blast
  with wf show ?thesis
    by (auto simp: ipc_create_port_def find_first_Some intro: ipc_wf_open split: option.splits)
qed

lemma ipc_create_named_port_ok:
  assumes wf: "ipc_wf s ts"
  shows "\<exists>r s'. ipc_create_named_port name s = Some (r, s') \<and> ipc_wf s' ts"
proof -
  obtain pid where "current_pid s = Some pid" using ipc_wf_pid[OF wf] by blast
  with wf show ?thesis
    by (auto simp: ipc_create_named_port_def find_first_Some intro: ipc_wf_open split: option.splits)
qed

lemma ipc_destroy_port_ok:
  assumes wf: "ipc_wf s ts"
  shows "\<exists>r s'. ipc_destroy_port port s = Some (r, s') \<and> ipc_wf s' ts"
proof -
  obtain pid where pid: "current_pid s = Some pid" using ipc_wf_pid[OF wf] by blast
  show ?thesis
  proof (cases "unat port < 32 \<and> p_in_use (ports s ! unat port) \<and> p_owner_pid (ports s ! unat port) = pid")
    case False
    then have "ipc_destroy_port port s = Some (- 1, s)" using pid by (auto simp: ipc_destroy_port_def Let_def)
    with wf show ?thesis by simp
  next
    case True
    then obtain s1 where s1: "wake_waiting (unat port) s = Some s1" "ipc_wf s1 ts"
      using wake_waiting_run[OF wf] by blast
    let ?p = "(ports s1 ! unat port)\<lparr>p_in_use := False, p_owner_pid := 0, p_queue_count := 0\<rparr>"
    have "ipc_destroy_port port s = Some (0, s1\<lparr>ports := (ports s1)[unat port := ?p]\<rparr>)"
      using True pid s1(1) by (simp add: ipc_destroy_port_def Let_def)
    moreover have "ipc_wf (s1\<lparr>ports := (ports s1)[unat port := ?p]\<rparr>) ts"
      by (rule ipc_wf_upd[OF s1(2)])
        (use ipc_wf_port[OF s1(2), of "unat port"] True in \<open>simp_all add: port_slots_def\<close>)
    ultimately show ?thesis by blast
  qed
qed

lemma ipc_send_ok:
  assumes wf: "ipc_wf s ts" and bs: "\<forall>bs. data = Some bs \<longrightarrow> unat sz \<le> length bs"
  shows "\<exists>r s'. ipc_send_from_port src dest ty data sz s = Some (r, s') \<and> ipc_wf s' ts"
proof -
  obtain pid where pid: "current_pid s = Some pid" using ipc_wf_pid[OF wf] by blast
  let ?i = "unat dest" and ?p = "ports s ! unat dest"
  consider (bad) "\<not> (?i < 32 \<and> p_in_use ?p \<and> unat sz \<le> 256)"
    | (full) "?i < 32" "p_in_use ?p" "unat sz \<le> 256" "\<not> length (port_contents ?p) < 16"
    | (ok) "?i < 32" "p_in_use ?p" "unat sz \<le> 256" "length (port_contents ?p) < 16" by blast
  then show ?thesis
  proof cases
    case bad
    then have "ipc_send_from_port src dest ty data sz s = Some (- 1, s)"
      by (auto simp: ipc_send_from_port_def Let_def)
    with wf show ?thesis by blast
  next
    case full
    let ?q = "?p\<lparr>p_drops := p_drops ?p + 1\<rparr>"
    have "ipc_wf (s\<lparr>ports := (ports s)[?i := ?q]\<rparr>) ts"
      by (rule ipc_wf_upd[OF wf]) (use ipc_wf_port[OF wf full(1)] in \<open>simp_all add: port_inv_fields\<close>)
    moreover have "ipc_send_from_port src dest ty data sz s = Some (- 1, s\<lparr>ports := (ports s)[?i := ?q]\<rparr>)"
      using full by (simp add: ipc_send_from_port_def Let_def)
    ultimately show ?thesis by blast
  next
    case ok
    from send_run[OF wf ok bs pid, of src ty] show ?thesis by blast
  qed
qed

lemma ipc_try_recv_ok:
  assumes wf: "ipc_wf s ts" and buf: "length (m_data buf) = 256"
  shows "\<exists>r m s'. ipc_try_recv port buf s = Some (r, m, s') \<and> ipc_wf s' ts"
proof -
  obtain pid where pid: "current_pid s = Some pid" using ipc_wf_pid[OF wf] by blast
  let ?i = "unat port" and ?p = "ports s ! unat port"
  show ?thesis
  proof (cases "?i < 32 \<and> p_in_use ?p \<and> p_owner_pid ?p = pid \<and> p_queue_count ?p \<noteq> 0")
    case False
    then have "ipc_try_recv port buf s = Some (- 1, buf, s) \<or> ipc_try_recv port buf s = Some (- 2, buf, s)"
      using pid by (auto simp: ipc_try_recv_def Let_def)
    with wf show ?thesis by blast
  next
    case True
    then have "length (port_contents ?p) \<noteq> 0" by (simp add: unat_eq_0)
    then obtain x xs where c: "port_contents ?p = x # xs" by (cases "port_contents ?p") auto
    have run: "ipc_try_recv port buf s = recv_head ?i buf s"
      using True pid by (simp add: ipc_try_recv_def Let_def)
    from recv_head_run[OF wf _ _ c buf] True show ?thesis unfolding run by blast
  qed
qed

lemma ipc_wf_tasks:
  assumes "ipc_wf s ts" "task_wf tk ts'" "dom (task_mem (ipc_tasks s)) \<subseteq> dom (task_mem tk)"
  shows "ipc_wf (s\<lparr>ipc_tasks := tk\<rparr>) ts'"
  using assms unfolding ipc_wf_def by (simp add: subset_iff)

lemma ipc_step_ok: "ipc_step s s' \<Longrightarrow> ipc_ok s \<Longrightarrow> ipc_ok s'"
proof (induction rule: ipc_step.induct)
  case (create s r s')
  then obtain ts where wf: "ipc_wf s ts" by (auto simp: ipc_ok_def)
  from ipc_create_port_ok[OF wf] create(1) show ?case by (auto simp: ipc_ok_def)
next
  case (create_named name s r s')
  then obtain ts where wf: "ipc_wf s ts" by (auto simp: ipc_ok_def)
  from ipc_create_named_port_ok[OF wf, of name] create_named(1) show ?case by (auto simp: ipc_ok_def)
next
  case (destroy port s r s')
  then obtain ts where wf: "ipc_wf s ts" by (auto simp: ipc_ok_def)
  from ipc_destroy_port_ok[OF wf, of port] destroy(1) show ?case by (auto simp: ipc_ok_def)
next
  case (send src dest ty data sz s r s')
  then obtain ts where wf: "ipc_wf s ts" by (auto simp: ipc_ok_def)
  from ipc_send_ok[OF wf send(2), of src dest ty] send(1) show ?case by (auto simp: ipc_ok_def)
next
  case (try_recv port buf s r m s')
  then obtain ts where wf: "ipc_wf s ts" by (auto simp: ipc_ok_def)
  from ipc_try_recv_ok[OF wf try_recv(2), of port] try_recv(1) show ?case by (auto simp: ipc_ok_def)
next
  case (tick s tk)
  then obtain ts where wf: "ipc_wf s ts" by (auto simp: ipc_ok_def)
  then obtain ts' where "task_wf tk ts'" "dom (task_mem tk) = dom (task_mem (ipc_tasks s))"
    using task_schedule_total[of "ipc_tasks s" ts] tick(1) by (auto simp: ipc_wf_def)
  with ipc_wf_tasks[OF wf, of tk ts'] show ?case unfolding ipc_ok_def by (metis order_refl)
next
  case (yield s tk)
  then obtain ts where wf: "ipc_wf s ts" by (auto simp: ipc_ok_def)
  then obtain ts' where "task_wf tk ts'" "dom (task_mem tk) = dom (task_mem (ipc_tasks s))"
    using task_yield_total[of "ipc_tasks s" ts] yield(1) by (auto simp: ipc_wf_def)
  with ipc_wf_tasks[OF wf, of tk ts'] show ?case unfolding ipc_ok_def by (metis order_refl)
next
  case (spawn name ep kdir s pid tk)
  then obtain ts where wf: "ipc_wf s ts" by (auto simp: ipc_ok_def)
  then obtain ts' where "task_wf tk ts'" "dom (task_mem (ipc_tasks s)) \<subseteq> dom (task_mem tk)"
    using task_create_total[of "ipc_tasks s" ts name ep kdir] spawn(1) by (auto simp: ipc_wf_def)
  with ipc_wf_tasks[OF wf, of tk ts'] show ?case unfolding ipc_ok_def by (metis order_refl)
qed

section \<open>A message sent and received\<close>

lemma send_appends:
  assumes "ipc_wf s ts" "unat dest < 32" "p_in_use (ports s ! unat dest)" "unat sz = length bs" "length bs \<le> 256"
    and "length (port_contents (ports s ! unat dest)) < 16" "current_pid s = Some pid"
  obtains s' p' where "ipc_send_from_port src dest ty (Some bs) sz s = Some (0, s')" "ipc_wf s' ts" "current_pid s' = Some pid"
    "ports s' = (ports s)[unat dest := p']" "port_contents p' = port_contents (ports s ! unat dest) @ [(pid, src, ty, bs)]"
    "p_in_use p'" "p_owner_pid p' = p_owner_pid (ports s ! unat dest)"
proof -
  have bs: "\<forall>bs'. Some bs = Some bs' \<longrightarrow> unat sz \<le> length bs'" using assms(4) by simp
  have sz: "unat sz \<le> 256" using assms(4,5) by simp
  from send_run[OF assms(1-3) sz assms(6) bs assms(7), of src ty] obtain s' p' m where m:
    "ipc_send_from_port src dest ty (Some bs) sz s = Some (0, s')" "ipc_wf s' ts" "ports s' = (ports s)[unat dest := p']"
    "port_contents p' = port_contents (ports s ! unat dest) @ [visible m]" "m_sender_pid m = pid" "m_sender_port m = src"
    "m_type m = ty" "m_size m = sz" "take (unat sz) (m_data m) = take (unat sz) bs" "p_in_use p'"
    "p_owner_pid p' = p_owner_pid (ports s ! unat dest)" "current_pid s' = Some pid" by auto
  from m(4-9) assms(4) have "port_contents p' = port_contents (ports s ! unat dest) @ [(pid, src, ty, bs)]" by (simp add: visible_def)
  then show ?thesis using m that by blast
qed

text \<open>A receive by the owner of a port that holds a message does not block.\<close>

lemma recv_first_message:
  assumes "ipc_wf s ts" "unat port < 32" "p_in_use (ports s ! unat port)" "port_contents (ports s ! unat port) = (pid, src, ty, bs) # xs"
    and "current_pid s = Some (p_owner_pid (ports s ! unat port))" "length (m_data buf) = 256" "length bs < 256"
  obtains m s' p' where "ipc_recv resume port buf s = Some (0, m, s')" "ipc_wf s' ts" "ports s' = (ports s)[unat port := p']"
    "port_contents p' = xs" "ipc_tasks s' = ipc_tasks s" "m_sender_pid m = pid" "m_sender_port m = src" "m_type m = ty"
    "unat (m_size m) = length bs" "take (length bs) (m_data m) = bs"
proof -
  let ?i = "unat port"
  from recv_head_run[OF assms(1-4,6)] obtain m s' p' where m: "recv_head ?i buf s = Some (0, m, s')" "ipc_wf s' ts"
    "visible m = (pid, src, ty, bs)" "ports s' = (ports s)[?i := p']" "port_contents p' = xs" "ipc_tasks s' = ipc_tasks s"
    "length (m_data m) = 256" by blast
  have "unat (p_queue_count (ports s ! ?i)) \<noteq> 0" using assms(4) length_port_contents[of "ports s ! ?i"] by simp
  then have "p_queue_count (ports s ! ?i) \<noteq> 0" by auto
  then have "ipc_recv resume port buf s = Some (0, m, s')" using assms(2,3,5) m(1) by (simp add: ipc_recv_def Let_def)
  moreover have v: "take (unat (m_size m)) (m_data m) = bs" "m_sender_pid m = pid" "m_sender_port m = src" "m_type m = ty"
    using m(3) by (simp_all add: visible_def)
  moreover from v(1) have "length bs = min (unat (m_size m)) 256" using m(7) by (metis length_take min.commute)
  then have "unat (m_size m) = length bs" using assms(7) by simp
  ultimately show ?thesis using m(2,4-6) by (intro that[of m s' p']) simp_all
qed

lemma recv_first:
  assumes "ipc_wf s ts" "unat port < 32" "p_in_use (ports s ! unat port)" "port_contents (ports s ! unat port) = (pid, src, ty, bs) # xs"
    and "current_pid s = Some (p_owner_pid (ports s ! unat port))" "length (m_data buf) = 256" "length bs < 256"
  obtains m s' p' where "ipc_recv resume port buf s = Some (0, m, s')" "ipc_wf s' ts" "ports s' = (ports s)[unat port := p']"
    "port_contents p' = xs" "ipc_tasks s' = ipc_tasks s" "m_sender_port m = src" "unat (m_size m) = length bs"
    "m_data m = bs @ drop (length bs) (m_data m)"
  using recv_first_message[OF assms, of resume] append_take_drop_id by metis

section \<open>A sample system\<close>

text \<open>The idle task alone, owning port 0 with the name \<open>net0\<close>; the other 31 ports are free.\<close>

definition blank_port :: ipc_port where
  "blank_port = \<lparr>p_port_id = 0, p_owner_pid = 0, p_in_use = False, p_name = [],
     p_queue = replicate 16 blank_message, p_queue_head = 0, p_queue_tail = 0, p_queue_count = 0,
     p_total_sent = 0, p_total_received = 0, p_drops = 0, p_waiting_task = NULL\<rparr>"

definition boot_ipc :: ipc where
  "boot_ipc = \<lparr>ipc_tasks = idle_tasking, ports = replicate 32 blank_port, total_messages_sent = 0\<rparr>"

definition sample_ipc :: ipc where
  "sample_ipc = snd (the (ipc_create_named_port (Some (cstr ''net0'')) boot_ipc))"

lemma sample_ipc_eq:
  "ipc_create_named_port (Some (cstr ''net0'')) boot_ipc = Some (0, sample_ipc)"
  "sample_ipc = boot_ipc\<lparr>ports := (replicate 32 blank_port)[0 := open_port 0 (cstr ''net0'') blank_port]\<rparr>"
proof -
  have pid: "current_pid boot_ipc = Some 0"
    by (simp add: current_pid_def boot_ipc_def task_get_current_def idle_tasking_facts idle_task_def)
  have nm: "find_first 0 32 (\<lambda>i. port_matches (cstr ''net0'') (ports boot_ipc ! i)) = None"
    by (simp add: find_first_None port_matches_def boot_ipc_def blank_port_def)
  have ff: "find_first 0 32 (\<lambda>i. \<not> p_in_use (ports boot_ipc ! i)) = Some 0"
    by (rule find_first_least) (simp_all add: boot_ipc_def blank_port_def)
  have nn: "task_get_current (ipc_tasks boot_ipc) \<noteq> NULL"
    by (simp add: boot_ipc_def task_get_current_def idle_tasking_facts)
  have p0: "ports boot_ipc ! 0 = blank_port" "ports boot_ipc = replicate 32 blank_port" by (simp_all add: boot_ipc_def)
  have b: "strncpy_buf 32 (cstr ''net0'') = cstr ''net0''" by (simp add: strncpy_buf_id)
  have "ipc_create_named_port (Some (cstr ''net0'')) boot_ipc =
      Some (0, boot_ipc\<lparr>ports := (ports boot_ipc)[0 := open_port 0 (strncpy_buf 32 (cstr ''net0'')) (ports boot_ipc ! 0)]\<rparr>)"
    using pid nm ff nn by (simp add: ipc_create_named_port_def del: cstr_simps)
  then show "ipc_create_named_port (Some (cstr ''net0'')) boot_ipc = Some (0, sample_ipc)"
    "sample_ipc = boot_ipc\<lparr>ports := (replicate 32 blank_port)[0 := open_port 0 (cstr ''net0'') blank_port]\<rparr>"
    unfolding b p0 by (simp_all add: sample_ipc_def del: cstr_simps)
qed

lemma blank_port_inv: "port_slots blank_port" "port_inv blank_port" "port_inv (open_port 0 name blank_port)"
  by (simp_all add: port_inv_def port_slots_def blank_port_def open_port_def blank_message_def)

lemma sample_ipc_facts:
  "ipc_wf sample_ipc [0x40000C]" "current_pid sample_ipc = Some 0" "p_in_use (ports sample_ipc ! 0)"
  "p_name (ports sample_ipc ! 0) = cstr ''net0''" "port_contents (ports sample_ipc ! 0) = []"
  "p_owner_pid (ports sample_ipc ! 0) = 0" "p_waiting_task (ports sample_ipc ! 0) = NULL"
proof -
  show "ipc_wf sample_ipc [0x40000C]"
    using set_update_subset_insert[of "replicate 32 blank_port" 0 "open_port 0 (cstr ''net0'') blank_port"]
      idle_tasking_facts(2) blank_port_inv(1,2) blank_port_inv(3)[of "cstr ''net0''"] port_inv_slots
    unfolding ipc_wf_def sample_ipc_eq(2) boot_ipc_def by (auto simp: blank_port_def open_port_def)
  show "current_pid sample_ipc = Some 0"
    by (simp add: sample_ipc_eq(2) current_pid_def boot_ipc_def task_get_current_def idle_tasking_facts idle_task_def)
  show "p_in_use (ports sample_ipc ! 0)" "p_name (ports sample_ipc ! 0) = cstr ''net0''"
    "p_owner_pid (ports sample_ipc ! 0) = 0" "p_waiting_task (ports sample_ipc ! 0) = NULL"
    "port_contents (ports sample_ipc ! 0) = []"
    by (simp_all add: sample_ipc_eq(2) open_port_def port_contents_def)
qed

lemma ipc_send_correct_witness:
  "\<exists>s'. ipc_send_from_port 0 0 7 (Some [1, 2, 3]) 2 sample_ipc = Some (0, s') \<and>
    (\<exists>p'. ports s' = (ports sample_ipc)[0 := p'] \<and> port_contents p' = [(0, 0, 7, [1, 2])])"
  using ipc_send_correct[OF sample_ipc_facts(1), of 2 "[1, 2, 3]" 0 0 7]
  by (auto simp: sample_ipc_facts Let_def)

lemma ipc_try_recv_correct_witness: "\<exists>s'. ipc_try_recv 0 blank_message sample_ipc = Some (- 2, blank_message, s')"
  using ipc_try_recv_correct[OF sample_ipc_facts(1), of blank_message 0]
  by (auto simp: sample_ipc_facts Let_def blank_message_def)

lemma port_fifo_witness:
  "\<exists>p' p''. pq.enqs [(1, 0, 7, [1]), (2, 0, 7, [2, 3])] blank_port = Some p' \<and>
    pq.deqs 2 p' = Some ([(1, 0, 7, [1]), (2, 0, 7, [2, 3])], p'')"
proof -
  have "port_inv blank_port" "port_contents blank_port = []"
    by (simp_all add: blank_port_inv) (simp add: port_contents_def blank_port_def)
  then show ?thesis
    using port_fifo[of blank_port "[(1, 0, 7, [1]), (2, 0, 7, [2, 3])]"]
    by (auto simp: message_ok_def blank_port_def numeral_2_eq_2)
qed

text \<open>The second task of the two-task sample tries to receive from port 0, which the first owns.\<close>

definition other_ipc :: ipc where
  "other_ipc = sample_ipc\<lparr>ipc_tasks := two_tasking\<lparr>current_task := 0x4000B0\<rparr>\<rparr>"

lemma ipc_owner_only_witness:
  "ipc_recv Some 0 blank_message other_ipc = Some (- 1, blank_message, other_ipc) \<and>
    ipc_destroy_port 0 other_ipc = Some (- 1, other_ipc)"
proof -
  have pid: "current_pid other_ipc = Some 1"
    using two_tasking_facts(4)
    by (auto simp: other_ipc_def current_pid_def task_get_current_def new_task_def idle_tasking_facts(4))
  have "p_owner_pid (ports other_ipc ! unat (0 :: u32)) \<noteq> 1" by (simp add: other_ipc_def sample_ipc_facts)
  from ipc_owner_only[OF _ pid this, of Some blank_message] show ?thesis by simp
qed

lemma ipc_name_prefix_witness:
  "ipc_find_port (Some []) sample_ipc \<noteq> - 1 \<and> ipc_create_named_port (Some []) sample_ipc = Some (- 1, sample_ipc)"
  using ipc_name_prefix[of 0 sample_ipc 0] by (simp add: sample_ipc_facts)

lemma ipc_recv_alone_witness:
  "\<exists>s'. ipc_recv Some 0 blank_message sample_ipc = Some (- 1, blank_message, s') \<and> p_in_use (ports s' ! 0)"
  using ipc_recv_alone[OF sample_ipc_facts(1), of 0 Some blank_message] by (simp add: sample_ipc_facts)

text \<open>Port 0 after a secret was sent to it and received.\<close>

definition used_ipc :: ipc where
  "used_ipc = sample_ipc\<lparr>ports := (ports sample_ipc)[0 := (ports sample_ipc ! 0)\<lparr>p_queue :=
     replicate 16 (blank_message\<lparr>m_size := 6, m_data := cstr ''secret'' @ replicate 250 0\<rparr>)\<rparr>]\<rparr>"

lemma ipc_send_stale_witness:
  "\<exists>s' p'. ipc_send 0 7 None 6 used_ipc = Some (0, s') \<and> ports s' = (ports used_ipc)[0 := p'] \<and>
    port_contents p' = [(0, 0, 7, cstr ''secret'')]"
proof -
  let ?m = "blank_message\<lparr>m_size := 6, m_data := cstr ''secret'' @ replicate 250 0\<rparr>"
  let ?p = "(ports sample_ipc ! 0)\<lparr>p_queue := replicate 16 ?m\<rparr>"
  have p: "ports used_ipc ! 0 = ?p"
    by (simp add: used_ipc_def sample_ipc_eq(2) boot_ipc_def)
  have pos: "p_queue_head ?p = 0" "p_queue_tail ?p = 0" "p_queue_count ?p = 0"
    by (simp_all add: sample_ipc_eq(2) boot_ipc_def open_port_def)
  have inv: "port_inv ?p" using pos by (simp add: port_inv_def port_slots_def)
  then have wf: "ipc_wf used_ipc [0x40000C]"
    unfolding used_ipc_def
    by (intro ipc_wf_upd[OF sample_ipc_facts(1)] port_inv_slots) (simp_all add: sample_ipc_facts)
  have pid: "current_pid used_ipc = Some 0"
    using sample_ipc_facts(2) by (simp add: used_ipc_def current_pid_def)
  have c: "port_contents (ports used_ipc ! unat (0 :: u32)) = []" using p pos by (simp add: port_contents_def)
  have d: "unat (0 :: u32) < 32" "p_in_use (ports used_ipc ! unat (0 :: u32))" "unat (6 :: u32) \<le> 256"
    using p by (simp_all add: sample_ipc_facts)
  have "length (port_contents (ports used_ipc ! unat (0 :: u32))) < 16" using c by simp
  from ipc_send_stale[OF wf d this pid, of 7] obtain s' p' where s': "ipc_send 0 7 None 6 used_ipc = Some (0, s')"
      "ports s' = (ports used_ipc)[unat (0 :: u32) := p']"
      "port_contents p' = port_contents (ports used_ipc ! unat (0 :: u32)) @ [(0, 0, 7,
        take (unat (6 :: u32)) (m_data (p_queue (ports used_ipc ! unat (0 :: u32)) !
          unat (p_queue_tail (ports used_ipc ! unat (0 :: u32))))))]" by blast
  have q: "p_queue (ports used_ipc ! unat (0 :: u32)) ! unat (p_queue_tail (ports used_ipc ! unat (0 :: u32))) = ?m"
    using p pos by simp
  have "length (cstr ''secret'') = 6" by simp
  then have "take (unat (6 :: u32)) (m_data ?m) = cstr ''secret''" by (simp del: cstr_simps)
  then have "port_contents p' = [(0, 0, 7, cstr ''secret'')]"
    unfolding s'(3) c q by (simp only: append_Nil)
  with s'(1,2) show ?thesis by auto
qed



end
