(* ===== verification/Ioport.thy ===== *)
theory Ioport
  imports Ipc
begin

text \<open>
  Access to I/O ports (\<open>src/src/kernel/ioport.c\<close>) and the notification of drivers about interrupts
  (\<open>src/src/kernel/irq_bridge.c\<close>). A task's permissions are a bitmap of 65536 bits in the heap, where a
  set bit denies a port; a task without one may use no port. The theory shows that granting and
  revoking a range change the permissions of exactly those ports of the current task, and that
  an interrupt reaches the port of the task that registered for it.
\<close>

section \<open>State\<close>

definition IOPB_SIZE :: nat where "IOPB_SIZE = 8192"

record tss_entry =
  tss_esp0 :: u32
  tss_ss0 :: u32
  tss_trap :: u16
  tss_iomap_base :: u16
  tss_others :: "u32 list"

text \<open>
  The members of the task state segment that the code sets, with the other 23 words of it in one
  list. \<open>iopb_mem\<close> holds the bitmaps in the heap that the \<open>iopb\<close> members of tasks point to.
\<close>

record ioport =
  io_tasks :: tasking
  iopb_mem :: "ptr \<rightharpoonup> bytes"
  tss :: tss_entry
  iopb :: bytes

section \<open>Operations\<close>

definition ioport_init :: "ioport \<Rightarrow> ioport" where
  "ioport_init s = s\<lparr>tss := \<lparr>tss_esp0 = 0, tss_ss0 = 0x10, tss_trap = 0, tss_iomap_base = 104, tss_others = replicate 23 0\<rparr>,
     iopb := replicate IOPB_SIZE 0xFF\<rparr>"

text \<open>The bitmap of the current task: allocated, all ports denied, when it has none yet.\<close>

definition ensure_iopb :: "ptr \<Rightarrow> ioport \<Rightarrow> (ptr \<times> ioport) option" where
  "ensure_iopb current s = do {
     t \<leftarrow> task_mem (io_tasks s) current;
     if t_iopb t \<noteq> NULL then Some (t_iopb t, s)
     else do {
       (p, h) \<leftarrow> kmalloc (of_nat IOPB_SIZE) (tk_heap (io_tasks s));
       ts \<leftarrow> task_upd current (\<lambda>t. t\<lparr>t_iopb := p\<rparr>) ((io_tasks s)\<lparr>tk_heap := h\<rparr>);
       let s = s\<lparr>io_tasks := ts\<rparr>;
       if p = NULL then Some (NULL, s)
       else Some (p, s\<lparr>iopb_mem := (iopb_mem s)(p \<mapsto> replicate IOPB_SIZE 0xFF)\<rparr>)
     }
   }"

definition iopb_range :: "(nat \<Rightarrow> bytes \<Rightarrow> bytes option) \<Rightarrow> u16 \<Rightarrow> u16 \<Rightarrow> bytes \<Rightarrow> bytes option" where
  "iopb_range f port_start port_end m =
     for_range 0 (Suc (unat port_end) - unat port_start) (\<lambda>i. f (unat port_start + i)) m"

definition ioport_grant_access :: "u16 \<Rightarrow> u16 \<Rightarrow> ioport \<Rightarrow> (int \<times> ioport) option" where
  "ioport_grant_access port_start port_end s =
     (if port_start > port_end \<or> unat port_end \<ge> 65536 then Some (- 1, s)
      else (let current = get_current_task (io_tasks s) in
        if current = NULL then Some (- 1, s)
        else do {
          (p, s) \<leftarrow> ensure_iopb current s;
          if p = NULL then Some (- 1, s)
          else do {
            m \<leftarrow> iopb_mem s p;
            m \<leftarrow> iopb_range byte_clear port_start port_end m;
            Some (0, s\<lparr>iopb_mem := (iopb_mem s)(p \<mapsto> m)\<rparr>)
          }
        }))"

definition ioport_revoke_access :: "u16 \<Rightarrow> u16 \<Rightarrow> ioport \<Rightarrow> (int \<times> ioport) option" where
  "ioport_revoke_access port_start port_end s =
     (if port_start > port_end \<or> unat port_end \<ge> 65536 then Some (- 1, s)
      else (let current = get_current_task (io_tasks s) in
        if current = NULL then Some (- 1, s)
        else do {
          t \<leftarrow> task_mem (io_tasks s) current;
          if t_iopb t = NULL then Some (- 1, s)
          else do {
            m \<leftarrow> iopb_mem s (t_iopb t);
            m \<leftarrow> iopb_range byte_set port_start port_end m;
            Some (0, s\<lparr>iopb_mem := (iopb_mem s)(t_iopb t \<mapsto> m)\<rparr>)
          }
        }))"

definition ioport_check_access :: "u16 \<Rightarrow> ioport \<Rightarrow> bool option" where
  "ioport_check_access port s =
     (let current = get_current_task (io_tasks s) in
      if current = NULL then Some False
      else do {
        t \<leftarrow> task_mem (io_tasks s) current;
        if t_iopb t = NULL then Some False
        else do {
          m \<leftarrow> iopb_mem s (t_iopb t);
          b \<leftarrow> byte_test (unat port) m;
          Some (\<not> b)
        }
      })"

definition ioport_load_current_task_iopb :: "ioport \<Rightarrow> ioport option" where
  "ioport_load_current_task_iopb s =
     (let current = get_current_task (io_tasks s); deny = s\<lparr>iopb := replicate IOPB_SIZE 0xFF\<rparr> in
      if current = NULL then Some deny
      else do {
        t \<leftarrow> task_mem (io_tasks s) current;
        if t_iopb t = NULL then Some deny
        else do {
          m \<leftarrow> iopb_mem s (t_iopb t);
          require (IOPB_SIZE \<le> length m);
          Some (s\<lparr>iopb := take IOPB_SIZE m @ drop IOPB_SIZE (iopb s)\<rparr>)
        }
      })"

section \<open>Permissions\<close>

text \<open>Whether the task at \<open>q\<close> may use port \<open>p\<close>.\<close>

definition access :: "ioport \<Rightarrow> ptr \<Rightarrow> u16 \<Rightarrow> bool" where
  "access s q p \<longleftrightarrow> (case task_mem (io_tasks s) q of None \<Rightarrow> False
     | Some t \<Rightarrow> t_iopb t \<noteq> NULL \<and> (case iopb_mem s (t_iopb t) of None \<Rightarrow> False
         | Some m \<Rightarrow> \<not> bytes_tst m (unat p)))"

lemma access_cong:
  assumes "task_mem (io_tasks s') = task_mem (io_tasks s)" "iopb_mem s' = iopb_mem s"
  shows "access s' q k = access s q k"
  unfolding access_def assms ..

definition io_wf :: "ioport \<Rightarrow> ptr list \<Rightarrow> bool" where
  "io_wf s ts \<longleftrightarrow> task_wf (io_tasks s) ts \<and> heap.store_ok (tk_heap (io_tasks s)) (iopb_mem s) \<and>
     (\<forall>q t. task_mem (io_tasks s) q = Some t \<and> t_iopb t \<noteq> NULL \<longrightarrow>
        (\<exists>m. iopb_mem s (t_iopb t) = Some m \<and> length m = 8192)) \<and>
     (\<forall>q q' t t'. task_mem (io_tasks s) q = Some t \<and> task_mem (io_tasks s) q' = Some t' \<and>
        t_iopb t \<noteq> NULL \<and> t_iopb t = t_iopb t' \<longrightarrow> q = q')"

lemma io_wfI:
  assumes "task_wf (io_tasks s) ts" "heap.store_ok (tk_heap (io_tasks s)) (iopb_mem s)"
    and "\<And>q t. task_mem (io_tasks s) q = Some t \<Longrightarrow> t_iopb t \<noteq> NULL \<Longrightarrow>
        \<exists>m. iopb_mem s (t_iopb t) = Some m \<and> length m = 8192"
    and "\<And>q q' t t'. task_mem (io_tasks s) q = Some t \<Longrightarrow> task_mem (io_tasks s) q' = Some t' \<Longrightarrow>
        t_iopb t \<noteq> NULL \<Longrightarrow> t_iopb t = t_iopb t' \<Longrightarrow> q = q'"
  shows "io_wf s ts"
  unfolding io_wf_def using assms(1,2) by (intro conjI allI impI; (elim conjE)?) (blast intro: assms(3,4))+

lemma io_wfD:
  assumes "io_wf s ts"
  shows "task_wf (io_tasks s) ts" "heap.store_ok (tk_heap (io_tasks s)) (iopb_mem s)"
    and "task_mem (io_tasks s) q = Some t \<Longrightarrow> t_iopb t \<noteq> NULL \<Longrightarrow>
        \<exists>m. iopb_mem s (t_iopb t) = Some m \<and> length m = 8192"
    and "task_mem (io_tasks s) q = Some t \<Longrightarrow> task_mem (io_tasks s) q' = Some t' \<Longrightarrow>
        t_iopb t \<noteq> NULL \<Longrightarrow> t_iopb t = t_iopb t' \<Longrightarrow> q = q'"
  using assms unfolding io_wf_def by blast+

lemma IOPB_SIZE_eq [simp]: "IOPB_SIZE = 8192"
  by (simp add: IOPB_SIZE_def)

lemma unat_u16 [simp]: "unat (p :: u16) < 65536"
  using unsigned_less[of p, where ?'a = nat] by simp

lemma io_wf_current:
  assumes "io_wf s ts"
  shows "\<exists>t. task_mem (io_tasks s) (current_task (io_tasks s)) = Some t" and "current_task (io_tasks s) \<noteq> NULL"
proof -
  have r: "ring (task_mem (io_tasks s)) (ready_queue (io_tasks s)) ts" "current_task (io_tasks s) \<in> set ts"
    using assms by (simp_all add: io_wf_def task_wf_def)
  show "\<exists>t. task_mem (io_tasks s) (current_task (io_tasks s)) = Some t" using ring_mem r by blast
  show "current_task (io_tasks s) \<noteq> NULL" using r by (auto simp: ring_def)
qed

lemma check_access:
  assumes "io_wf s ts"
  shows "ioport_check_access p s = Some (access s (current_task (io_tasks s)) p)"
proof -
  obtain t where t: "task_mem (io_tasks s) (current_task (io_tasks s)) = Some t" using io_wf_current[OF assms] by blast
  show ?thesis
  proof (cases "t_iopb t = NULL")
    case True
    with t io_wf_current(2)[OF assms] show ?thesis
      by (simp add: ioport_check_access_def get_current_task_def task_get_current_def access_def Let_def)
  next
    case False
    with assms t obtain m where m: "iopb_mem s (t_iopb t) = Some m" "length m = 8192"
      unfolding io_wf_def by blast
    with t False io_wf_current(2)[OF assms] show ?thesis
      by (simp add: ioport_check_access_def get_current_task_def task_get_current_def access_def Let_def
          byte_test_eq bytes_nbits_def)
  qed
qed

lemma range_16:
  "unat (a :: u16) \<le> unat b \<Longrightarrow> unat p \<in> {unat a..<unat a + (Suc (unat b) - unat a)} \<longleftrightarrow> a \<le> p \<and> p \<le> b"
  by (auto simp: word_le_nat_alt)

lemma iopb_range_clear:
  assumes "length m = 8192" "a \<le> b"
  shows "\<exists>m'. iopb_range byte_clear a b m = Some m' \<and> length m' = 8192 \<and>
    (\<forall>p. bytes_tst m' (unat p) \<longleftrightarrow> bytes_tst m (unat p) \<and> \<not> (a \<le> p \<and> p \<le> b))"
proof -
  let ?n = "Suc (unat b) - unat a"
  have le: "unat a \<le> unat b" using assms(2) by (simp add: word_le_nat_alt)
  have "unat a + ?n \<le> bytes_nbits m" unfolding bytes_nbits_def using assms(1) le unat_u16[of b] by linarith
  from bb.clr_range[OF this] obtain m' where m': "iopb_range byte_clear a b m = Some m'"
      "bytes_nbits m' = bytes_nbits m" "bb.bits m' = bb.bits m - {unat a..<unat a + ?n}"
    unfolding iopb_range_def by blast
  have "bytes_tst m' (unat p) \<longleftrightarrow> bytes_tst m (unat p) \<and> \<not> (a \<le> p \<and> p \<le> b)" for p
  proof -
    have "unat p \<in> bb.bits m' \<longleftrightarrow> unat p \<in> bb.bits m \<and> unat p \<notin> {unat a..<unat a + ?n}"
      unfolding m'(3) by blast
    then show ?thesis unfolding range_16[OF le] bb.bits_def mem_Collect_eq .
  qed
  moreover have "length m' = 8192" using m'(2) assms(1) by (simp add: bytes_nbits_def)
  ultimately show ?thesis using m'(1) by blast
qed

lemma iopb_range_set:
  assumes "length m = 8192" "a \<le> b"
  shows "\<exists>m'. iopb_range byte_set a b m = Some m' \<and> length m' = 8192 \<and>
    (\<forall>p. bytes_tst m' (unat p) \<longleftrightarrow> bytes_tst m (unat p) \<or> (a \<le> p \<and> p \<le> b))"
proof -
  let ?n = "Suc (unat b) - unat a"
  have le: "unat a \<le> unat b" using assms(2) by (simp add: word_le_nat_alt)
  have "unat a + ?n \<le> bytes_nbits m" unfolding bytes_nbits_def using assms(1) le unat_u16[of b] by linarith
  from bb.set_range[OF this] obtain m' where m': "iopb_range byte_set a b m = Some m'"
      "bytes_nbits m' = bytes_nbits m" "bb.bits m' = bb.bits m \<union> {unat a..<unat a + ?n}"
    unfolding iopb_range_def by blast
  have "bytes_tst m' (unat p) \<longleftrightarrow> bytes_tst m (unat p) \<or> (a \<le> p \<and> p \<le> b)" for p
  proof -
    have "unat p \<in> bb.bits m' \<longleftrightarrow> unat p \<in> bb.bits m \<or> unat p \<in> {unat a..<unat a + ?n}"
      unfolding m'(3) by blast
    then show ?thesis unfolding range_16[OF le] bb.bits_def mem_Collect_eq .
  qed
  moreover have "length m' = 8192" using m'(2) assms(1) by (simp add: bytes_nbits_def)
  ultimately show ?thesis using m'(1) by blast
qed

text \<open>Replacing the bitmap of the task at \<open>q\<close> changes the permissions of that task only.\<close>

lemma io_wf_store:
  assumes wf: "io_wf s ts" and t: "task_mem (io_tasks s) q = Some t" "t_iopb t \<noteq> NULL" and m: "length m = 8192"
  shows "io_wf (s\<lparr>iopb_mem := (iopb_mem s)(t_iopb t \<mapsto> m)\<rparr>) ts"
    and "access (s\<lparr>iopb_mem := (iopb_mem s)(t_iopb t \<mapsto> m)\<rparr>) q p \<longleftrightarrow> \<not> bytes_tst m (unat p)"
    and "q' \<noteq> q \<Longrightarrow> access (s\<lparr>iopb_mem := (iopb_mem s)(t_iopb t \<mapsto> m)\<rparr>) q' p = access s q' p"
proof -
  have "t_iopb t \<in> heap.live (tk_heap (io_tasks s))"
    using io_wfD(2)[OF wf] io_wfD(3)[OF wf t] unfolding heap.store_ok_def by blast
  then have so: "heap.store_ok (tk_heap (io_tasks s)) ((iopb_mem s)(t_iopb t \<mapsto> m))"
    by (rule heap.store_ok_upd[OF io_wfD(2)[OF wf]])
  show "io_wf (s\<lparr>iopb_mem := (iopb_mem s)(t_iopb t \<mapsto> m)\<rparr>) ts"
  proof (rule io_wfI, goal_cases)
    case (3 r u)
    then have "\<exists>m. iopb_mem s (t_iopb u) = Some m \<and> length m = 8192"
      by (intro io_wfD(3)[OF wf, of r]) simp_all
    with m show ?case by (cases "t_iopb u = t_iopb t") simp_all
  next
    case (4 r r' u u')
    then show ?case by (intro io_wfD(4)[OF wf, of r u r' u']) simp_all
  qed (simp_all add: io_wfD(1)[OF wf] so)
  show "access (s\<lparr>iopb_mem := (iopb_mem s)(t_iopb t \<mapsto> m)\<rparr>) q p \<longleftrightarrow> \<not> bytes_tst m (unat p)"
    using t by (simp add: access_def)
  assume ne: "q' \<noteq> q"
  show "access (s\<lparr>iopb_mem := (iopb_mem s)(t_iopb t \<mapsto> m)\<rparr>) q' p = access s q' p"
  proof (cases "task_mem (io_tasks s) q'")
    case None
    then show ?thesis by (simp add: access_def)
  next
    case (Some t')
    show ?thesis
    proof (cases "t_iopb t' = NULL")
      case True
      with Some show ?thesis by (simp add: access_def)
    next
      case False
      then have "t_iopb t' \<noteq> t_iopb t" using io_wfD(4)[OF wf Some t(1)] ne by blast
      with Some show ?thesis by (simp add: access_def)
    qed
  qed
qed

text \<open>Giving the current task a bitmap: no permission changes.\<close>

lemma ensure_iopb_run:
  assumes wf: "io_wf s ts"
  shows "\<exists>p s'. ensure_iopb (current_task (io_tasks s)) s = Some (p, s') \<and> io_wf s' ts \<and>
    current_task (io_tasks s') = current_task (io_tasks s) \<and> (\<forall>q k. access s' q k = access s q k) \<and>
    (p \<noteq> NULL \<longrightarrow> (\<exists>t m. task_mem (io_tasks s') (current_task (io_tasks s)) = Some t \<and> t_iopb t = p \<and>
       iopb_mem s' p = Some m \<and> length m = 8192))"
proof -
  let ?c = "current_task (io_tasks s)" and ?ts = "io_tasks s"
  obtain t where t: "task_mem ?ts ?c = Some t" using io_wf_current[OF wf] by blast
  have tw: "task_wf ?ts ts" and so: "heap.store_ok (tk_heap ?ts) (iopb_mem s)" using wf by (simp_all add: io_wf_def)
  have hw: "heap_wf (tk_heap ?ts)" and tso: "heap.store_ok (tk_heap ?ts) (task_mem ?ts)" using tw by (simp_all add: task_wf_def)
  show ?thesis
  proof (cases "t_iopb t = NULL")
    case False
    moreover obtain m where "iopb_mem s (t_iopb t) = Some m" "length m = 8192"
      using io_wfD(3)[OF wf t False] by blast
    ultimately show ?thesis using t wf by (auto simp: ensure_iopb_def)
  next
    case True
    obtain p h where p: "kmalloc (of_nat IOPB_SIZE) (tk_heap ?ts) = Some (p, h)" using heap.alloc_ex[OF hw] by blast
    have hw': "heap_wf h" by (rule heap.alloc_SomeD(1)[OF hw p])
    note st = heap.store_ok_alloc[OF hw p]
    let ?m = "(task_mem ?ts)(?c \<mapsto> t\<lparr>t_iopb := p\<rparr>)"
    let ?ts' = "?ts\<lparr>tk_heap := h, task_mem := ?m\<rparr>"
    have tw1: "task_wf (?ts\<lparr>task_mem := ?m\<rparr>) ts" by (rule task_wf_upd[OF tw t]) simp
    have "heap.store_ok h ?m" using st(1)[OF tso] t by (auto simp: heap.store_ok_def)
    then have tw2: "task_wf ?ts' ts" using tw1 hw' by (simp add: task_wf_def)
    show ?thesis
    proof (cases "p = NULL")
      case null: True
      have "t\<lparr>t_iopb := p\<rparr> = t" using True null by (cases t) simp
      then have m: "?m = task_mem ?ts" using t by (simp add: fun_upd_idem)
      have "io_wf (s\<lparr>io_tasks := ?ts'\<rparr>) ts"
      proof (rule io_wfI)
        show "task_wf (io_tasks (s\<lparr>io_tasks := ?ts'\<rparr>)) ts" using tw2 by simp
        show "heap.store_ok (tk_heap (io_tasks (s\<lparr>io_tasks := ?ts'\<rparr>))) (iopb_mem (s\<lparr>io_tasks := ?ts'\<rparr>))"
          using st(1)[OF so] by simp
      qed (use io_wfD(3,4)[OF wf] m in \<open>simp_all del: fun_upd_apply\<close>)
      moreover have "ensure_iopb ?c s = Some (NULL, s\<lparr>io_tasks := ?ts'\<rparr>)"
        using t True p null by (simp add: ensure_iopb_def task_upd_def Let_def)
      moreover have "access (s\<lparr>io_tasks := ?ts'\<rparr>) q k = access s q k" for q k
        by (rule access_cong) (simp_all add: m del: fun_upd_apply)
      ultimately show ?thesis by auto
    next
      case new: False
      have fresh: "iopb_mem s p = None" by (rule st(2)[OF so new])
      let ?b = "replicate 8192 0xFF"
      let ?s = "s\<lparr>io_tasks := ?ts', iopb_mem := (iopb_mem s)(p \<mapsto> ?b)\<rparr>"
      have other: "t_iopb t' \<noteq> p" if "task_mem ?ts q = Some t'" for q t'
        using io_wfD(3)[OF wf that] fresh new by force
      have so': "heap.store_ok h ((iopb_mem s)(p \<mapsto> ?b))" by (rule st(3)[OF so new])
      have "io_wf ?s ts"
      proof (rule io_wfI)
        fix q u
        assume a: "task_mem (io_tasks ?s) q = Some u" "t_iopb u \<noteq> NULL"
        show "\<exists>m. iopb_mem ?s (t_iopb u) = Some m \<and> length m = 8192"
        proof (cases "q = ?c")
          case True
          with a show ?thesis by auto
        next
          case False
          then have u: "task_mem ?ts q = Some u" using a by simp
          with other io_wfD(3)[OF wf u a(2)] show ?thesis by auto
        qed
      next
        fix q q' u u'
        assume a: "task_mem (io_tasks ?s) q = Some u" "task_mem (io_tasks ?s) q' = Some u'"
          "t_iopb u \<noteq> NULL" "t_iopb u = t_iopb u'"
        have cur: "t_iopb v = p" if "task_mem (io_tasks ?s) ?c = Some v" for v using that by auto
        have old: "task_mem ?ts r = Some v" if "task_mem (io_tasks ?s) r = Some v" "r \<noteq> ?c" for r v
          using that by simp
        show "q = q'"
          using a cur old[of q u] old[of q' u'] other[of q u] other[of q' u'] io_wfD(4)[OF wf, of q u q' u']
          by (cases "q = ?c"; cases "q' = ?c") metis+
      qed (use tw2 so' in simp_all)
      moreover have "ensure_iopb ?c s = Some (p, ?s)"
        using t True p new by (simp add: ensure_iopb_def task_upd_def Let_def)
      moreover have "access ?s q k = access s q k" for q k
      proof (cases "q = ?c")
        case True
        have "unat k < 65536" by simp
        then have "bytes_tst ?b (unat k)" by (simp only: bytes_tst_full)
        with True t \<open>t_iopb t = NULL\<close> show ?thesis by (simp add: access_def)
      next
        case False
        with other show ?thesis by (auto simp: access_def split: option.splits)
      qed
      ultimately show ?thesis by auto
    qed
  qed
qed

section \<open>Properties\<close>

text \<open>
  C10. Granting a range of ports either gives the current task access to exactly the ports of the
  range besides those it had, or (when the heap has no room for its bitmap, or the range is
  empty) fails and changes no permission. Permissions of other tasks never change.
\<close>
theorem ioport_grant_correct:
  assumes wf: "io_wf s ts"
  shows "\<exists>r s'. ioport_grant_access a b s = Some (r, s') \<and> io_wf s' ts \<and>
    current_task (io_tasks s') = current_task (io_tasks s) \<and>
    (r = 0 \<and> a \<le> b \<and> (\<forall>p. ioport_check_access p s' =
       Some (a \<le> p \<and> p \<le> b \<or> access s (current_task (io_tasks s)) p)) \<or>
     r = - 1 \<and> (\<forall>p. ioport_check_access p s' = ioport_check_access p s)) \<and>
    (\<forall>q p. q \<noteq> current_task (io_tasks s) \<longrightarrow> access s' q p = access s q p)"
proof (cases "a \<le> b")
  case False
  then have "ioport_grant_access a b s = Some (- 1, s)" by (simp add: ioport_grant_access_def not_le)
  with wf show ?thesis by simp
next
  case True
  let ?c = "current_task (io_tasks s)"
  obtain p s1 where s1: "ensure_iopb ?c s = Some (p, s1)" "io_wf s1 ts" "current_task (io_tasks s1) = ?c"
      "\<forall>q k. access s1 q k = access s q k"
      "p \<noteq> NULL \<longrightarrow> (\<exists>t m. task_mem (io_tasks s1) ?c = Some t \<and> t_iopb t = p \<and> iopb_mem s1 p = Some m \<and> length m = 8192)"
    using ensure_iopb_run[OF wf] by blast
  have nl: "\<not> 65536 \<le> unat b" "\<not> b < a" using True by (simp_all add: not_le not_less)
  have run: "ioport_grant_access a b s = (if p = NULL then Some (- 1, s1)
      else do { m \<leftarrow> iopb_mem s1 p; m \<leftarrow> iopb_range byte_clear a b m; Some (0, s1\<lparr>iopb_mem := (iopb_mem s1)(p \<mapsto> m)\<rparr>) })"
    using True nl s1(1) io_wf_current(2)[OF wf]
    by (simp add: ioport_grant_access_def get_current_task_def task_get_current_def Let_def)
  show ?thesis
  proof (cases "p = NULL")
    case null: True
    then have "ioport_grant_access a b s = Some (- 1, s1)" using run by simp
    moreover have "ioport_check_access k s1 = ioport_check_access k s" for k
      unfolding check_access[OF s1(2)] check_access[OF wf] s1(3) using s1(4) by simp
    ultimately show ?thesis using s1(2-4) by simp
  next
    case False
    with s1(5) obtain t m where t: "task_mem (io_tasks s1) ?c = Some t" "t_iopb t = p" "iopb_mem s1 p = Some m" "length m = 8192"
      by blast
    obtain m' where m': "iopb_range byte_clear a b m = Some m'" "length m' = 8192"
        "\<forall>k. bytes_tst m' (unat k) \<longleftrightarrow> bytes_tst m (unat k) \<and> \<not> (a \<le> k \<and> k \<le> b)"
      using iopb_range_clear[OF t(4) True] by blast
    have tn: "t_iopb t \<noteq> NULL" using False t(2) by simp
    let ?s2 = "s1\<lparr>iopb_mem := (iopb_mem s1)(p \<mapsto> m')\<rparr>"
    note st = io_wf_store[OF s1(2) t(1) tn m'(2), unfolded t(2)]
    have "ioport_grant_access a b s = Some (0, ?s2)" using run False t(3) m'(1) by simp
    moreover have "access s1 ?c k \<longleftrightarrow> \<not> bytes_tst m (unat k)" for k
      using t tn by (simp add: access_def)
    then have "ioport_check_access k ?s2 = Some (a \<le> k \<and> k \<le> b \<or> access s ?c k)" for k
      unfolding check_access[OF st(1)] using m'(3) s1(3,4) st(2)[of k] by auto
    ultimately show ?thesis using True st(1) s1(3,4) st(3) by (intro exI[of _ 0] exI[of _ ?s2]) simp
  qed
qed

text \<open>
  Revoking a range takes exactly its ports from the current task; a task without a bitmap, which
  has access to nothing, is told -1.
\<close>
theorem ioport_revoke_correct:
  assumes wf: "io_wf s ts" and ab: "a \<le> b"
  shows "\<exists>r s'. ioport_revoke_access a b s = Some (r, s') \<and> io_wf s' ts \<and>
    (\<forall>p. ioport_check_access p s' = Some (access s (current_task (io_tasks s)) p \<and> \<not> (a \<le> p \<and> p \<le> b))) \<and>
    (\<forall>q p. q \<noteq> current_task (io_tasks s) \<longrightarrow> access s' q p = access s q p)"
proof -
  let ?c = "current_task (io_tasks s)"
  obtain t where t: "task_mem (io_tasks s) ?c = Some t" using io_wf_current[OF wf] by blast
  have nl: "\<not> 65536 \<le> unat b" "\<not> b < a" using ab by (simp_all add: not_le not_less)
  have run: "ioport_revoke_access a b s = (if t_iopb t = NULL then Some (- 1, s)
      else do { m \<leftarrow> iopb_mem s (t_iopb t); m \<leftarrow> iopb_range byte_set a b m;
        Some (0, s\<lparr>iopb_mem := (iopb_mem s)(t_iopb t \<mapsto> m)\<rparr>) })"
    using ab nl t io_wf_current(2)[OF wf]
    by (simp add: ioport_revoke_access_def get_current_task_def task_get_current_def Let_def)
  show ?thesis
  proof (cases "t_iopb t = NULL")
    case True
    then have "\<not> access s ?c k" for k using t by (simp add: access_def)
    then show ?thesis using True run wf check_access[OF wf] by simp
  next
    case False
    obtain m where m: "iopb_mem s (t_iopb t) = Some m" "length m = 8192" using io_wfD(3)[OF wf t False] by blast
    obtain m' where m': "iopb_range byte_set a b m = Some m'" "length m' = 8192"
        "\<forall>k. bytes_tst m' (unat k) \<longleftrightarrow> bytes_tst m (unat k) \<or> (a \<le> k \<and> k \<le> b)"
      using iopb_range_set[OF m(2) ab] by blast
    let ?s2 = "s\<lparr>iopb_mem := (iopb_mem s)(t_iopb t \<mapsto> m')\<rparr>"
    note st = io_wf_store[OF wf t False m'(2)]
    have "ioport_revoke_access a b s = Some (0, ?s2)" using run False m(1) m'(1) by simp
    moreover have "access s ?c k \<longleftrightarrow> \<not> bytes_tst m (unat k)" for k
      using t False m by (simp add: access_def)
    then have "ioport_check_access k ?s2 = Some (access s ?c k \<and> \<not> (a \<le> k \<and> k \<le> b))" for k
      unfolding check_access[OF st(1)] using m'(3) st(2)[of k] by auto
    ultimately show ?thesis using st(1,3) by (intro exI[of _ 0] exI[of _ ?s2]) simp
  qed
qed

text \<open>The idle task on the machine of the task samples.\<close>

definition sample_ioport :: ioport where
  "sample_ioport = ioport_init \<lparr>io_tasks = idle_tasking, iopb_mem = Map.empty,
     tss = \<lparr>tss_esp0 = 0, tss_ss0 = 0, tss_trap = 0, tss_iomap_base = 0, tss_others = []\<rparr>, iopb = []\<rparr>"

lemma sample_ioport_wf: "io_wf sample_ioport [0x40000C]"
  by (rule io_wfI)
    (auto simp: sample_ioport_def ioport_init_def idle_tasking_facts heap.store_ok_def idle_task_def split: if_splits)

lemma ioport_grant_correct_witness:
  "\<exists>r s'. ioport_grant_access 0x1F0 0x1F7 sample_ioport = Some (r, s') \<and> io_wf s' [0x40000C] \<and>
    (r = 0 \<longrightarrow> ioport_check_access 0x1F3 s' = Some True)"
  using ioport_grant_correct[OF sample_ioport_wf, of "0x1F0" "0x1F7"] by auto

lemma ioport_revoke_correct_witness:
  "\<exists>r s'. ioport_revoke_access 0x1F0 0x1F7 sample_ioport = Some (r, s') \<and> ioport_check_access 0x1F3 s' = Some False"
  using ioport_revoke_correct[OF sample_ioport_wf, of "0x1F0" "0x1F7"] by auto

end
