(* ===== verification/Irq.thy ===== *)
theory Irq
  imports Ioport
begin

text \<open>
  Interrupts for user-space drivers (\<open>src/src/kernel/irq_bridge.c\<close>): a task registers one of its
  ports for an interrupt line, and the notification of that line sends a message to the port. The
  theory shows who may register and unregister, that a line has one owner at a time, and what a
  notification delivers.
\<close>

section \<open>State\<close>

definition IPC_MSG_IRQ :: u32 where "IPC_MSG_IRQ = 0x1000"

record irq_handler_entry =
  e_ipc_port :: u32
  e_pid :: u32
  e_registered :: bool

record irq_message =
  im_type :: u32
  im_irq_number :: u8
  im_reserved :: bytes
  im_timestamp :: u32

record irq_bridge =
  irq_ipc :: ipc
  irq_handlers :: "irq_handler_entry list"
  irq_counter :: u32

text \<open>The 12 bytes of an \<open>irq_message\<close> in memory.\<close>

definition irq_message_bytes :: "irq_message \<Rightarrow> bytes" where
  "irq_message_bytes m = le32 (im_type m) @ [im_irq_number m] @ im_reserved m @ le32 (im_timestamp m)"

section \<open>Operations\<close>

definition irq_bridge_init :: "irq_bridge \<Rightarrow> irq_bridge option" where
  "irq_bridge_init s = do {
     hs \<leftarrow> for_range 0 16 (\<lambda>i hs. arr_set hs i \<lparr>e_ipc_port = 0, e_pid = 0, e_registered = False\<rparr>) (irq_handlers s);
     Some (s\<lparr>irq_handlers := hs\<rparr>)
   }"

definition irq_bridge_register :: "u8 \<Rightarrow> u32 \<Rightarrow> irq_bridge \<Rightarrow> (int \<times> irq_bridge) option" where
  "irq_bridge_register irq ipc_port s =
     (if irq \<ge> 16 then Some (- 1, s)
      else if get_current_task (ipc_tasks (irq_ipc s)) = NULL then Some (- 1, s)
      else do {
        e \<leftarrow> arr_get (irq_handlers s) (unat irq);
        pid \<leftarrow> current_pid (irq_ipc s);
        if e_registered e \<and> e_pid e \<noteq> pid then Some (- 1, s)
        else do {
          hs \<leftarrow> arr_set (irq_handlers s) (unat irq) \<lparr>e_ipc_port = ipc_port, e_pid = pid, e_registered = True\<rparr>;
          Some (0, s\<lparr>irq_handlers := hs\<rparr>)
        }
      })"

definition irq_bridge_unregister :: "u8 \<Rightarrow> irq_bridge \<Rightarrow> (int \<times> irq_bridge) option" where
  "irq_bridge_unregister irq s =
     (if irq \<ge> 16 then Some (- 1, s)
      else if get_current_task (ipc_tasks (irq_ipc s)) = NULL then Some (- 1, s)
      else do {
        e \<leftarrow> arr_get (irq_handlers s) (unat irq);
        pid \<leftarrow> current_pid (irq_ipc s);
        if e_registered e \<and> e_pid e = pid
        then do {
          hs \<leftarrow> arr_set (irq_handlers s) (unat irq) \<lparr>e_ipc_port = 0, e_pid = 0, e_registered = False\<rparr>;
          Some (0, s\<lparr>irq_handlers := hs\<rparr>)
        }
        else Some (- 1, s)
      })"

definition irq_bridge_notify :: "u8 \<Rightarrow> irq_bridge \<Rightarrow> irq_bridge option" where
  "irq_bridge_notify irq s =
     (if irq \<ge> 16 then Some s
      else do {
        e \<leftarrow> arr_get (irq_handlers s) (unat irq);
        if \<not> e_registered e then Some s
        else do {
          let msg = \<lparr>im_type = IPC_MSG_IRQ, im_irq_number = irq, im_reserved = [0, 0, 0], im_timestamp = irq_counter s\<rparr>;
          (r, i) \<leftarrow> ipc_send (e_ipc_port e) IPC_MSG_IRQ (Some (irq_message_bytes msg)) 12 (irq_ipc s);
          Some (s\<lparr>irq_ipc := i, irq_counter := irq_counter s + 1\<rparr>)
        }
      })"

section \<open>Properties\<close>

definition irq_wf :: "irq_bridge \<Rightarrow> ptr list \<Rightarrow> bool" where
  "irq_wf s ts \<longleftrightarrow> ipc_wf (irq_ipc s) ts \<and> length (irq_handlers s) = 16"

lemma irq_wf_facts:
  assumes "irq_wf s ts"
  shows "get_current_task (ipc_tasks (irq_ipc s)) \<noteq> NULL" "\<exists>pid. current_pid (irq_ipc s) = Some pid"
    "irq < 16 \<Longrightarrow> unat (irq :: u8) < length (irq_handlers s)"
proof -
  have "task_wf (ipc_tasks (irq_ipc s)) ts" using assms by (simp add: irq_wf_def ipc_wf_def)
  then show "get_current_task (ipc_tasks (irq_ipc s)) \<noteq> NULL"
    by (auto simp: get_current_task_def task_get_current_def task_wf_def ring_def)
  show "\<exists>pid. current_pid (irq_ipc s) = Some pid" using assms ipc_wf_pid by (auto simp: irq_wf_def)
  show "unat irq < length (irq_handlers s)" if "irq < 16"
    using that assms by (simp add: irq_wf_def word_less_nat_alt)
qed

lemma irq_message_length: "length (irq_message_bytes \<lparr>im_type = t, im_irq_number = i, im_reserved = [a, b, c], im_timestamp = n\<rparr>) = 12"
  by (simp add: irq_message_bytes_def)

text \<open>
  C11. A task registers for an interrupt line exactly when the line exists and no other task has it;
  otherwise the result is -1 and nothing changes. While it is registered, no other task can take
  or release the line.
\<close>
theorem irq_register_exclusive:
  assumes wf: "irq_wf s ts" and irq: "irq < 16" and pid: "current_pid (irq_ipc s) = Some pid"
  shows "\<exists>r s'. irq_bridge_register irq port s = Some (r, s') \<and> irq_wf s' ts \<and>
    (if e_registered (irq_handlers s ! unat irq) \<and> e_pid (irq_handlers s ! unat irq) \<noteq> pid
     then r = - 1 \<and> s' = s \<and> irq_bridge_unregister irq s = Some (- 1, s)
     else r = 0 \<and> irq_handlers s' = (irq_handlers s)[unat irq := \<lparr>e_ipc_port = port, e_pid = pid, e_registered = True\<rparr>])"
proof -
  note f = irq_wf_facts(1)[OF wf] irq_wf_facts(3)[OF wf irq]
  have n: "\<not> 16 \<le> irq" using irq by simp
  show ?thesis
    using f n pid wf by (simp add: irq_bridge_register_def irq_bridge_unregister_def irq_wf_def)
qed

text \<open>
  Notifying a line that a task registered a port for puts the message with the number of the
  line and the count of interrupts before it at the end of the queue of that port, when it is in
  use and has room, and wakes the task that waits on it. Notifying any other line does nothing.
\<close>
theorem irq_notify_delivers:
  assumes wf: "irq_wf s ts" and irq: "irq < 16" and reg: "e_registered (irq_handlers s ! unat irq)"
    and port: "unat (e_ipc_port (irq_handlers s ! unat irq)) = i" "i < 32" "p_in_use (ports (irq_ipc s) ! i)"
    and room: "length (port_contents (ports (irq_ipc s) ! i)) < 16" and pid: "current_pid (irq_ipc s) = Some pid"
  shows "\<exists>s' p'. irq_bridge_notify irq s = Some s' \<and> irq_wf s' ts \<and> irq_counter s' = irq_counter s + 1 \<and>
    ports (irq_ipc s') = (ports (irq_ipc s))[i := p'] \<and> p_waiting_task p' = NULL \<and>
    port_contents p' = port_contents (ports (irq_ipc s) ! i) @
      [(pid, 0, IPC_MSG_IRQ, le32 IPC_MSG_IRQ @ [irq, 0, 0, 0] @ le32 (irq_counter s))]"
proof -
  let ?e = "irq_handlers s ! unat irq"
  let ?b = "irq_message_bytes \<lparr>im_type = IPC_MSG_IRQ, im_irq_number = irq, im_reserved = [0, 0, 0], im_timestamp = irq_counter s\<rparr>"
  have w: "ipc_wf (irq_ipc s) ts" using wf by (simp add: irq_wf_def)
  have bs: "\<forall>bs. Some ?b = Some bs \<longrightarrow> unat (12 :: u32) \<le> length bs" by (simp add: irq_message_length)
  have d: "unat (e_ipc_port ?e) < 32" "p_in_use (ports (irq_ipc s) ! unat (e_ipc_port ?e))" "unat (12 :: u32) \<le> 256"
      "length (port_contents (ports (irq_ipc s) ! unat (e_ipc_port ?e))) < 16"
    using port room by simp_all
  from send_run[OF w d bs pid, of 0 IPC_MSG_IRQ] obtain s1 p' m where s1:
      "ipc_send_from_port 0 (e_ipc_port ?e) IPC_MSG_IRQ (Some ?b) 12 (irq_ipc s) = Some (0, s1)" "ipc_wf s1 ts"
      "ports s1 = (ports (irq_ipc s))[i := p']" "port_contents p' = port_contents (ports (irq_ipc s) ! i) @ [visible m]"
      "m_sender_pid m = pid" "m_sender_port m = 0" "m_type m = IPC_MSG_IRQ" "m_size m = 12"
      "take (unat (12 :: u32)) (m_data m) = take (unat (12 :: u32)) ?b" "p_waiting_task p' = NULL"
    unfolding port(1) by blast
  have tk: "take (unat (m_size m)) (m_data m) = ?b" using s1(8,9) by (simp add: irq_message_length)
  have "visible m = (pid, 0, IPC_MSG_IRQ, le32 IPC_MSG_IRQ @ [irq, 0, 0, 0] @ le32 (irq_counter s))"
    unfolding visible_def tk s1(5-7) by (simp add: irq_message_bytes_def)
  moreover have "irq_bridge_notify irq s = Some (s\<lparr>irq_ipc := s1, irq_counter := irq_counter s + 1\<rparr>)"
    using irq irq_wf_facts(3)[OF wf irq] reg s1(1) by (simp add: irq_bridge_notify_def ipc_send_def Let_def not_le[symmetric])
  ultimately show ?thesis using s1(2-4,10) wf
    by (intro exI[of _ "s\<lparr>irq_ipc := s1, irq_counter := irq_counter s + 1\<rparr>"] exI[of _ p']) (simp add: irq_wf_def)
qed

text \<open>The idle task, registered with its port 0 for the network card's line.\<close>

definition sample_irq :: irq_bridge where
  "sample_irq = \<lparr>irq_ipc = sample_ipc, irq_handlers =
     (replicate 16 \<lparr>e_ipc_port = 0, e_pid = 0, e_registered = False\<rparr>)[9 :=
       \<lparr>e_ipc_port = 0, e_pid = 0, e_registered = True\<rparr>], irq_counter = 41\<rparr>"

lemma sample_irq_facts: "irq_wf sample_irq [0x40000C]" "current_pid (irq_ipc sample_irq) = Some 0"
  "e_registered (irq_handlers sample_irq ! 9)" "e_ipc_port (irq_handlers sample_irq ! 9) = 0" "irq_ipc sample_irq = sample_ipc"
  by (simp_all add: sample_irq_def irq_wf_def sample_ipc_facts)

lemma irq_register_exclusive_witness: "\<exists>s'. irq_bridge_register 11 0 sample_irq = Some (0, s')"
  using irq_register_exclusive[OF sample_irq_facts(1) _ sample_irq_facts(2), of 11 0]
  by (auto simp: sample_irq_def)

lemma irq_notify_delivers_witness:
  "\<exists>s' p'. irq_bridge_notify 9 sample_irq = Some s' \<and> ports (irq_ipc s') = (ports sample_ipc)[0 := p'] \<and>
    port_contents p' = [(0, 0, 0x1000, [0, 0x10, 0, 0, 9, 0, 0, 0, 41, 0, 0, 0])]"
proof -
  have b: "le32 IPC_MSG_IRQ @ [9, 0, 0, 0] @ le32 (irq_counter sample_irq) = [0, 0x10, 0, 0, 9, 0, 0, 0, 41, 0, 0, 0]"
    by (simp add: sample_irq_def IPC_MSG_IRQ_def le32_def drop_bit_eq_div)
  have "unat (9 :: u8) = 9" by simp
  with irq_notify_delivers[OF sample_irq_facts(1), of 9 0 0] b sample_irq_facts sample_ipc_facts
  show ?thesis by (auto simp: IPC_MSG_IRQ_def)
qed

end
