(* ===== verification/Keyboard.thy ===== *)
theory Keyboard
  imports Fifo
begin

text \<open>
  The keyboard driver (\<open>src/src/drivers/keyboard.c\<close>): the translation of scan codes with its shift
  and caps lock state, and the ring of typed characters that \<open>keyboard_getchar\<close> reads. The scan
  code that the handler reads from the port of the keyboard is its argument, and the characters it
  passes to the shell are collected, oldest first, in \<open>shell_input\<close>.
\<close>

section \<open>State and operations\<close>

definition KEY_LSHIFT :: u8 where "KEY_LSHIFT = 0x2A"
definition KEY_RSHIFT :: u8 where "KEY_RSHIFT = 0x36"
definition KEY_CAPS_LOCK :: u8 where "KEY_CAPS_LOCK = 0x3A"
definition KEYBOARD_BUFFER_SIZE :: nat where "KEYBOARD_BUFFER_SIZE = 256"

definition scancode_to_ascii :: bytes where
  "scancode_to_ascii =
     [0, 27] @ cstr ''1234567890-='' @ [8] @
     [9] @ cstr ''qwertyuiop[]'' @ [10] @
     [0] @ cstr ''asdfghjkl;'' @ [39, 96] @
     [0, 92] @ cstr ''zxcvbnm,./'' @ [0] @
     cstr ''*'' @ [0, 32]"

definition scancode_to_ascii_shift :: bytes where
  "scancode_to_ascii_shift =
     [0, 27] @ cstr ''!@#$%^&*()_+'' @ [8] @
     [9] @ cstr ''QWERTYUIOP{}'' @ [10] @
     [0] @ cstr ''ASDFGHJKL:'' @ [34, 126] @
     [0, 124] @ cstr ''ZXCVBNM<>?'' @ [0] @
     cstr ''*'' @ [0, 32]"

record keyboard =
  shift_pressed :: bool
  caps_lock :: bool
  keyboard_buffer :: bytes
  buffer_read_pos :: nat
  buffer_write_pos :: nat
  shell_mode :: bool
  shell_input :: bytes

definition keyboard_init :: "keyboard \<Rightarrow> keyboard" where
  "keyboard_init s = s\<lparr>shift_pressed := False, caps_lock := False, buffer_read_pos := 0,
     buffer_write_pos := 0, shell_mode := False\<rparr>"

definition keyboard_enable_shell :: "keyboard \<Rightarrow> keyboard" where
  "keyboard_enable_shell s = s\<lparr>shell_mode := True\<rparr>"

text \<open>The character a key gives, under the two modifiers.\<close>

definition key_char :: "u8 \<Rightarrow> keyboard \<Rightarrow> u8 option" where
  "key_char scancode s =
     (if shift_pressed s then arr_get scancode_to_ascii_shift (unat scancode)
      else do {
        c \<leftarrow> arr_get scancode_to_ascii (unat scancode);
        Some (if caps_lock s \<and> 97 \<le> c \<and> c \<le> 122 then c - 97 + 65 else c)
      })"

definition buffer_put :: "u8 \<Rightarrow> keyboard \<Rightarrow> keyboard option" where
  "buffer_put c s = do {
     buf \<leftarrow> arr_set (keyboard_buffer s) (buffer_write_pos s) c;
     Some (s\<lparr>keyboard_buffer := buf,
             buffer_write_pos := (buffer_write_pos s + 1) mod KEYBOARD_BUFFER_SIZE\<rparr>)
   }"

definition keyboard_handler :: "u8 \<Rightarrow> keyboard \<Rightarrow> keyboard option" where
  "keyboard_handler scancode s =
     (if scancode AND 0x80 \<noteq> 0
      then (let scancode = scancode AND 0x7F in
            Some (if scancode = KEY_LSHIFT \<or> scancode = KEY_RSHIFT then s\<lparr>shift_pressed := False\<rparr> else s))
      else if scancode = KEY_LSHIFT \<or> scancode = KEY_RSHIFT then Some (s\<lparr>shift_pressed := True\<rparr>)
      else if scancode = KEY_CAPS_LOCK then Some (s\<lparr>caps_lock := \<not> caps_lock s\<rparr>)
      else if unat scancode < length scancode_to_ascii
      then do {
        c \<leftarrow> key_char scancode s;
        if c \<noteq> 0
        then buffer_put c (if shell_mode s then s\<lparr>shell_input := shell_input s @ [c]\<rparr> else s)
        else Some s
      }
      else Some s)"

definition keyboard_buffer_empty :: "keyboard \<Rightarrow> bool" where
  "keyboard_buffer_empty s \<longleftrightarrow> buffer_read_pos s = buffer_write_pos s"

definition keyboard_getchar :: "keyboard \<Rightarrow> (u8 \<times> keyboard) option" where
  "keyboard_getchar s =
     (if buffer_read_pos s = buffer_write_pos s then Some (0, s)
      else do {
        c \<leftarrow> arr_get (keyboard_buffer s) (buffer_read_pos s);
        Some (c, s\<lparr>buffer_read_pos := (buffer_read_pos s + 1) mod KEYBOARD_BUFFER_SIZE\<rparr>)
      })"

section \<open>The buffer is a queue of 255 characters\<close>

text \<open>
  The code keeps no count: the characters held are those between the two positions, so that a ring
  of 256 places holds at most 255.
\<close>

definition kb_inv :: "keyboard \<Rightarrow> bool" where
  "kb_inv s \<longleftrightarrow> length (keyboard_buffer s) = 256 \<and> buffer_read_pos s < 256 \<and> buffer_write_pos s < 256"

definition kb_count :: "keyboard \<Rightarrow> nat" where
  "kb_count s = (buffer_write_pos s + 256 - buffer_read_pos s) mod 256"

definition kb_contents :: "keyboard \<Rightarrow> bytes" where
  "kb_contents s = slots (keyboard_buffer s) (buffer_read_pos s) (kb_count s)"

lemma kb_size [simp]: "KEYBOARD_BUFFER_SIZE = 256"
  by (simp add: KEYBOARD_BUFFER_SIZE_def)

lemma length_kb_contents [simp]: "length (kb_contents s) = kb_count s"
  by (simp add: kb_contents_def)

lemma kb_write_pos: "kb_inv s \<Longrightarrow> buffer_write_pos s = (buffer_read_pos s + kb_count s) mod 256"
  unfolding kb_inv_def kb_count_def mod_add_right_eq by simp

lemma kb_count_eq:
  "kb_inv s \<Longrightarrow> kb_count s =
     (if buffer_read_pos s \<le> buffer_write_pos s then buffer_write_pos s - buffer_read_pos s
      else buffer_write_pos s + 256 - buffer_read_pos s)"
proof -
  assume a: "kb_inv s"
  show ?thesis
  proof (cases "buffer_read_pos s \<le> buffer_write_pos s")
    case True
    then have e: "buffer_write_pos s + 256 - buffer_read_pos s = (buffer_write_pos s - buffer_read_pos s) + 256" by simp
    have "(buffer_write_pos s - buffer_read_pos s + 256) mod 256 = buffer_write_pos s - buffer_read_pos s"
      unfolding mod_add_self2 using a by (intro mod_less less_imp_diff_less) (simp add: kb_inv_def)
    then show ?thesis unfolding kb_count_def e using True by simp
  qed (use a in \<open>simp add: kb_count_def kb_inv_def\<close>)
qed

lemma mod_256_next: "w < 256 \<Longrightarrow> Suc w mod 256 = (if w = 255 then 0 else Suc w)"
  by auto

lemma kb_count_0: "kb_inv s \<Longrightarrow> kb_count s = 0 \<longleftrightarrow> buffer_read_pos s = buffer_write_pos s"
  by (auto simp: kb_count_eq kb_inv_def)

lemma buffer_put_run:
  assumes "kb_inv s" "kb_count s < 255"
  shows "\<exists>s'. buffer_put c s = Some s' \<and> kb_inv s' \<and> kb_contents s' = kb_contents s @ [c]"
proof -
  let ?s = "s\<lparr>keyboard_buffer := (keyboard_buffer s)[buffer_write_pos s := c],
              buffer_write_pos := (buffer_write_pos s + 1) mod 256\<rparr>"
  have n: "kb_count ?s = Suc (kb_count s)"
  proof -
    have "kb_inv ?s" using assms(1) by (simp add: kb_inv_def)
    from kb_count_eq[OF this] kb_count_eq[OF assms(1)] show ?thesis
      using assms by (auto simp: kb_inv_def mod_256_next split: if_splits)
  qed
  have "slots ((keyboard_buffer s)[(buffer_read_pos s + kb_count s) mod length (keyboard_buffer s) := c])
      (buffer_read_pos s) (Suc (kb_count s)) = kb_contents s @ [c]"
    unfolding kb_contents_def using assms by (intro slots_put) (simp add: kb_inv_def)
  moreover have "(buffer_read_pos s + kb_count s) mod length (keyboard_buffer s) = buffer_write_pos s"
    using kb_write_pos[OF assms(1)] assms(1) by (simp add: kb_inv_def)
  ultimately have "kb_contents ?s = kb_contents s @ [c]" unfolding kb_contents_def n by simp
  then show ?thesis using assms(1) by (simp add: buffer_put_def kb_inv_def)
qed

lemma keyboard_getchar_run:
  assumes "kb_inv s" "kb_contents s = c # cs"
  shows "\<exists>s'. keyboard_getchar s = Some (c, s') \<and> kb_inv s' \<and> kb_contents s' = cs"
proof -
  let ?s = "s\<lparr>buffer_read_pos := (buffer_read_pos s + 1) mod 256\<rparr>"
  have n: "kb_count s = Suc (length cs)" using arg_cong[OF assms(2), of length] by simp
  then have ne: "buffer_read_pos s \<noteq> buffer_write_pos s" using kb_count_0[OF assms(1)] by simp
  have n': "kb_count ?s = length cs"
  proof -
    have "kb_inv ?s" using assms(1) by (simp add: kb_inv_def)
    from kb_count_eq[OF this] kb_count_eq[OF assms(1)] show ?thesis
      using assms(1) n by (auto simp: kb_inv_def mod_256_next split: if_splits)
  qed
  have "keyboard_buffer s ! buffer_read_pos s = c \<and> kb_contents ?s = cs"
    using assms(1,2) unfolding kb_contents_def n n' slots_take by (simp add: kb_inv_def)
  then show ?thesis using ne assms(1) by (simp add: keyboard_getchar_def kb_inv_def)
qed

lemma keyboard_getchar_empty:
  "kb_inv s \<Longrightarrow> kb_contents s = [] \<Longrightarrow> keyboard_buffer_empty s \<and> keyboard_getchar s = Some (0, s)"
proof -
  assume a: "kb_inv s" "kb_contents s = []"
  have "kb_count s = 0" using arg_cong[OF a(2), of length] by simp
  then show ?thesis using kb_count_0[OF a(1)] by (simp add: keyboard_buffer_empty_def keyboard_getchar_def)
qed

text \<open>Reading as an operation that fails on the empty buffer, which the code signals with 0.\<close>

definition kb_take :: "keyboard \<Rightarrow> (u8 \<times> keyboard) option" where
  "kb_take s = (if keyboard_buffer_empty s then None else keyboard_getchar s)"

interpretation kq: fifo kb_inv "\<lambda>_. True" kb_contents 255 buffer_put kb_take
proof (unfold_locales, goal_cases)
  case (1 s c)
  then show ?case using buffer_put_run by simp
next
  case (2 s c cs)
  have "kb_count s = Suc (length cs)" using arg_cong[OF 2(2), of length] by simp
  then show ?case
    using keyboard_getchar_run[OF 2] kb_count_0[OF 2(1)] by (simp add: kb_take_def keyboard_buffer_empty_def)
next
  case (3 s)
  then show ?case using keyboard_getchar_empty by (simp add: kb_take_def)
qed

section \<open>What is typed is what is read\<close>

text \<open>
  The meaning of a scan code, as a function of the two modifiers: the character typed, if any, and
  the modifiers after it. Shift selects the second layout, caps lock affects letters only, and only
  without shift.
\<close>

type_synonym modifiers = "bool \<times> bool"

definition key_event :: "u8 \<Rightarrow> modifiers \<Rightarrow> u8 option \<times> modifiers" where
  "key_event sc m = (case m of (shift, caps) \<Rightarrow>
     if sc \<in> {0xAA, 0xB6} then (None, False, caps)
     else if sc \<in> {0x2A, 0x36} then (None, True, caps)
     else if sc = 0x3A then (None, shift, \<not> caps)
     else if sc < 0x3A then
       (let c = (if shift then scancode_to_ascii_shift else scancode_to_ascii) ! unat sc in
        if c = 0 then (None, shift, caps)
        else (Some (if \<not> shift \<and> caps \<and> c \<in> {97..122} then c - 32 else c), shift, caps))
     else (None, shift, caps))"

fun typed :: "u8 list \<Rightarrow> modifiers \<Rightarrow> bytes" where
  "typed [] m = []"
| "typed (sc # scs) m = (case key_event sc m of (c, m') \<Rightarrow>
     (case c of Some c \<Rightarrow> [c] | None \<Rightarrow> []) @ typed scs m')"

definition modifiers :: "keyboard \<Rightarrow> modifiers" where
  "modifiers s = (shift_pressed s, caps_lock s)"

text \<open>A run of the interrupt handler over a list of scan codes, and of reads by a client.\<close>

fun keyboard_run :: "u8 list \<Rightarrow> keyboard \<Rightarrow> keyboard option" where
  "keyboard_run [] s = Some s"
| "keyboard_run (sc # scs) s = Option.bind (keyboard_handler sc s) (keyboard_run scs)"

fun keyboard_read :: "nat \<Rightarrow> keyboard \<Rightarrow> (bytes \<times> keyboard) option" where
  "keyboard_read 0 s = Some ([], s)"
| "keyboard_read (Suc n) s = do {
     (c, s) \<leftarrow> keyboard_getchar s;
     (cs, s) \<leftarrow> keyboard_read n s;
     Some (c # cs, s)
   }"

lemma table_lengths: "length scancode_to_ascii = 58" "length scancode_to_ascii_shift = 58"
  by (simp_all add: scancode_to_ascii_def scancode_to_ascii_shift_def cstr_def)

lemma bit7: "(sc :: u8) AND 0x80 = 0 \<longleftrightarrow> unat sc < 128"
proof -
  have e: "(0x80 :: u8) = 2 ^ 7" by simp
  have u: "unat sc < 256" using unsigned_less[of sc, where ?'a = nat] by simp
  have "unat sc div 128 = 1" if "128 \<le> unat sc" using u that by (intro div_nat_eqI) auto
  then have "odd (unat sc div 128) \<longleftrightarrow> 128 \<le> unat sc" by (cases "unat sc < 128") auto
  moreover have "bit sc 7 \<longleftrightarrow> bit (unat sc) 7" by (simp add: bit_unsigned_iff)
  moreover have "bit (unat sc) 7 \<longleftrightarrow> odd (unat sc div 128)" by (simp add: bit_iff_odd)
  ultimately show ?thesis unfolding e and_exp_eq_0_iff_not_bit by auto
qed

lemma low7: "unat ((sc :: u8) AND 0x7F) = unat sc mod 128"
proof -
  have e: "(0x7F :: u8) = mask 7" by (simp add: mask_eq_exp_minus_1)
  show ?thesis unfolding e by (simp flip: take_bit_eq_mask add: take_bit_eq_mod unat_mod_distrib)
qed

lemma release_codes:
  assumes "sc AND 0x80 \<noteq> 0"
  shows "(sc AND 0x7F = 0x2A \<or> sc AND 0x7F = 0x36) \<longleftrightarrow> sc \<in> {0xAA, 0xB6 :: u8}"
    and "sc \<notin> {0x2A, 0x36}" and "sc \<noteq> 0x3A" and "\<not> sc < 0x3A"
proof -
  have u: "unat sc < 256" "128 \<le> unat sc"
    using unsigned_less[of sc, where ?'a = nat] assms bit7[of sc] by simp_all
  have m: "unat sc mod 128 = unat sc - 128" using u mod_if[of "unat sc" 128] by simp
  have "(sc AND 0x7F = 0x2A \<or> sc AND 0x7F = 0x36) \<longleftrightarrow> unat sc - 128 = 42 \<or> unat sc - 128 = 54"
    by (simp add: word_unat_eq_iff low7 m)
  then show "(sc AND 0x7F = 0x2A \<or> sc AND 0x7F = 0x36) \<longleftrightarrow> sc \<in> {0xAA, 0xB6 :: u8}"
    using u by (auto simp: word_unat_eq_iff)
  show "sc \<notin> {0x2A, 0x36}" and "sc \<noteq> 0x3A" and "\<not> sc < 0x3A"
    using u by (auto simp: word_less_nat_alt)
qed

lemma press_codes:
  assumes "(sc :: u8) AND 0x80 = 0"
  shows "sc \<notin> {0xAA, 0xB6 :: u8}"
  using assms unfolding bit7 by auto

lemma caps_letter: "(c :: u8) - 97 + 65 = c - 32"
  by (simp add: algebra_simps)

lemma key_char_event:
  assumes "sc < 0x3A"
  shows "key_char sc s = Some (let c = (if shift_pressed s then scancode_to_ascii_shift else scancode_to_ascii) ! unat sc in
    if \<not> shift_pressed s \<and> caps_lock s \<and> c \<in> {97..122} then c - 32 else c)"
  using assms by (auto simp: key_char_def word_less_nat_alt table_lengths caps_letter Let_def)

lemma handler_event:
  assumes "kb_inv s" "key_event sc (modifiers s) = (c, m)"
  shows "\<exists>s'. keyboard_handler sc s = Some s' \<and> kb_inv s' \<and> modifiers s' = m \<and> shell_mode s' = shell_mode s \<and>
    (kb_count s < 255 \<or> c = None \<longrightarrow> kb_contents s' = kb_contents s @ (case c of Some c \<Rightarrow> [c] | None \<Rightarrow> [])) \<and>
    shell_input s' = shell_input s @ (case c of Some c \<Rightarrow> if shell_mode s then [c] else [] | None \<Rightarrow> [])"
proof (cases c)
  case None
  have same: "kb_inv (s\<lparr>shift_pressed := b\<rparr>)" "kb_contents (s\<lparr>shift_pressed := b\<rparr>) = kb_contents s"
      "kb_inv (s\<lparr>caps_lock := b\<rparr>)" "kb_contents (s\<lparr>caps_lock := b\<rparr>) = kb_contents s" for b
    using assms(1) by (simp_all add: kb_inv_def kb_contents_def kb_count_def)
  show ?thesis
  proof (cases "sc AND 0x80 = 0")
    case True
    show ?thesis using assms(1,2) None same press_codes[OF True] True key_char_event[of sc s]
      by (auto simp: keyboard_handler_def key_event_def modifiers_def KEY_LSHIFT_def KEY_RSHIFT_def
        KEY_CAPS_LOCK_def table_lengths word_less_nat_alt Let_def split: if_splits)
  next
    case False
    show ?thesis using assms(1,2) None same release_codes[OF False] False
      by (auto simp: keyboard_handler_def key_event_def modifiers_def KEY_LSHIFT_def KEY_RSHIFT_def Let_def split: if_splits)
  qed
next
  case (Some d)
  have lt: "sc < 0x3A" and n: "sc \<notin> {0xAA, 0xB6}" "sc \<notin> {0x2A, 0x36}" "sc \<noteq> 0x3A"
    and kc: "key_char sc s = Some d" and d: "d \<noteq> 0" and m: "m = modifiers s"
    using assms(2) Some key_char_event[of sc s]
    by (auto simp: key_event_def modifiers_def Let_def split: if_splits)
  have p: "sc AND 0x80 = 0" using lt release_codes(4)[of sc] by blast
  let ?s = "if shell_mode s then s\<lparr>shell_input := shell_input s @ [d]\<rparr> else s"
  have inv: "kb_inv ?s" "kb_count ?s = kb_count s" "kb_contents ?s = kb_contents s"
    using assms(1) by (simp_all add: kb_inv_def kb_contents_def kb_count_def)
  obtain s' where s': "buffer_put d ?s = Some s'" "kb_inv s'"
    using inv(1) by (simp add: buffer_put_def kb_inv_def)
  have contents: "kb_count s < 255 \<longrightarrow> kb_contents s' = kb_contents s @ [d]"
    using buffer_put_run[OF inv(1), of d] s'(1) inv(2,3) by auto
  have "modifiers s' = modifiers s \<and> shell_mode s' = shell_mode s \<and> shell_input s' = shell_input ?s"
    using s'(1) by (auto simp: buffer_put_def modifiers_def Option.bind_eq_Some_conv)
  moreover have "keyboard_handler sc s = Some s'"
    using lt n p d s'(1) by (simp add: keyboard_handler_def kc KEY_LSHIFT_def KEY_RSHIFT_def KEY_CAPS_LOCK_def
      table_lengths word_less_nat_alt)
  ultimately show ?thesis using s'(2) contents Some m by auto
qed

lemma keyboard_run_typed:
  assumes "kb_inv s" "kb_count s + length (typed scs (modifiers s)) \<le> 255"
  shows "\<exists>s'. keyboard_run scs s = Some s' \<and> kb_inv s' \<and> shell_mode s' = shell_mode s \<and>
    kb_contents s' = kb_contents s @ typed scs (modifiers s) \<and>
    shell_input s' = shell_input s @ (if shell_mode s then typed scs (modifiers s) else [])"
  using assms
proof (induction scs arbitrary: s)
  case (Cons sc scs)
  obtain c m where e: "key_event sc (modifiers s) = (c, m)" by (cases "key_event sc (modifiers s)")
  have "c \<noteq> None \<Longrightarrow> kb_count s < 255" using Cons.prems(2) e by auto
  with handler_event[OF Cons.prems(1) e] obtain s1 where
    s1: "keyboard_handler sc s = Some s1" "kb_inv s1" "modifiers s1 = m" "shell_mode s1 = shell_mode s"
      "kb_contents s1 = kb_contents s @ (case c of Some c \<Rightarrow> [c] | None \<Rightarrow> [])"
      "shell_input s1 = shell_input s @ (case c of Some c \<Rightarrow> if shell_mode s then [c] else [] | None \<Rightarrow> [])"
    by blast
  have "kb_count s1 + length (typed scs (modifiers s1)) \<le> 255"
    using arg_cong[OF s1(5), of length] Cons.prems(2) e s1(3) by (simp add: split: option.splits)
  from Cons.IH[OF s1(2) this] show ?case using s1 e by (auto split: option.splits)
qed simp

text \<open>What the shell is given does not depend on the room in the buffer.\<close>

lemma keyboard_run_shell:
  assumes "kb_inv s"
  shows "\<exists>s'. keyboard_run scs s = Some s' \<and> kb_inv s' \<and>
    shell_input s' = shell_input s @ (if shell_mode s then typed scs (modifiers s) else [])"
  using assms
proof (induction scs arbitrary: s)
  case (Cons sc scs)
  obtain c m where e: "key_event sc (modifiers s) = (c, m)" by (cases "key_event sc (modifiers s)")
  from handler_event[OF Cons.prems e] obtain s1 where
    s1: "keyboard_handler sc s = Some s1" "kb_inv s1" "modifiers s1 = m" "shell_mode s1 = shell_mode s"
      "shell_input s1 = shell_input s @ (case c of Some c \<Rightarrow> if shell_mode s then [c] else [] | None \<Rightarrow> [])"
    by blast
  from Cons.IH[OF s1(2)] show ?case using s1 e by (auto split: option.splits)
qed simp

lemma keyboard_read_deqs:
  "kb_inv s \<Longrightarrow> n \<le> kb_count s \<Longrightarrow>
   \<exists>s'. keyboard_read n s = Some (take n (kb_contents s), s') \<and> kb_inv s' \<and> kb_contents s' = drop n (kb_contents s)"
proof (induction n arbitrary: s)
  case (Suc n)
  then obtain c cs where c: "kb_contents s = c # cs"
    by (metis Suc_le_length_iff length_kb_contents)
  from keyboard_getchar_run[OF Suc.prems(1) c] obtain s1 where
    s1: "keyboard_getchar s = Some (c, s1)" "kb_inv s1" "kb_contents s1 = cs" by blast
  have "n \<le> kb_count s1" using s1(3) Suc.prems(2) c length_kb_contents[of s] length_kb_contents[of s1] by simp
  from Suc.IH[OF s1(2) this] show ?case using s1 c by auto
qed simp

text \<open>
  Typing: whatever keys are pressed and released, as long as the buffer has room the characters
  they mean (shift selects the upper layout while it is held, caps lock turns letters) are what
  \<open>keyboard_getchar\<close> returns, in order and after those typed before, and what the shell is given.
\<close>
theorem keyboard_typed_read:
  assumes "kb_inv s" "kb_count s + length (typed scs (modifiers s)) \<le> 255"
  shows "\<exists>s' s''. keyboard_run scs s = Some s' \<and>
    keyboard_read (kb_count s + length (typed scs (modifiers s))) s' =
      Some (kb_contents s @ typed scs (modifiers s), s'') \<and> keyboard_buffer_empty s'' \<and>
    shell_input s' = shell_input s @ (if shell_mode s then typed scs (modifiers s) else [])"
proof -
  obtain s' where s': "keyboard_run scs s = Some s'" "kb_inv s'"
      "kb_contents s' = kb_contents s @ typed scs (modifiers s)"
      "shell_input s' = shell_input s @ (if shell_mode s then typed scs (modifiers s) else [])"
    using keyboard_run_typed[OF assms] by blast
  have n: "kb_count s' = kb_count s + length (typed scs (modifiers s))"
    using arg_cong[OF s'(3), of length] by simp
  from keyboard_read_deqs[OF s'(2) le_refl] n s'(3) obtain s'' where
    s'': "keyboard_read (kb_count s') s' = Some (kb_contents s', s'')" "kb_inv s''" "kb_contents s'' = []" by auto
  from keyboard_getchar_empty[OF s''(2,3)] s'' s' n show ?thesis by auto
qed

definition sample_keyboard :: keyboard where
  "sample_keyboard = keyboard_init \<lparr>shift_pressed = True, caps_lock = False, keyboard_buffer = replicate 256 0,
     buffer_read_pos = 3, buffer_write_pos = 4, shell_mode = False, shell_input = []\<rparr>"

lemma sample_keyboard_facts: "kb_inv sample_keyboard" "kb_count sample_keyboard = 0"
    "modifiers sample_keyboard = (False, False)"
  by (simp_all add: sample_keyboard_def keyboard_init_def kb_inv_def kb_count_def modifiers_def)

text \<open>Shift down, \<open>h\<close>, shift up, \<open>i\<close>: \<open>Hi\<close>.\<close>

lemma keyboard_typed_read_witness:
  "\<exists>s' s''. keyboard_run [0x2A, 0x23, 0xAA, 0x17] sample_keyboard = Some s' \<and>
    keyboard_read 2 s' = Some (cstr ''Hi'', s'')"
proof -
  have t: "typed [0x2A, 0x23, 0xAA, 0x17] (False, False) = cstr ''Hi''" by code_simp
  have c: "kb_contents sample_keyboard = []"
    using sample_keyboard_facts(2) by (simp add: kb_contents_def)
  have r: "kb_count sample_keyboard + length (typed [0x2A, 0x23, 0xAA, 0x17] (modifiers sample_keyboard)) = 2"
    unfolding sample_keyboard_facts t by simp
  from keyboard_typed_read[of sample_keyboard "[0x2A, 0x23, 0xAA, 0x17]", unfolded r]
  show ?thesis unfolding sample_keyboard_facts t c append_Nil using sample_keyboard_facts(1) by auto
qed

text \<open>
  The 256th unread character empties the buffer: the write position catches up with the read
  position, which the code reads as \<open>nothing typed\<close>, and all 256 characters are lost.
\<close>
theorem keyboard_overflow:
  assumes "kb_inv s" "kb_count s = 255"
  shows "\<exists>s'. buffer_put c s = Some s' \<and> keyboard_buffer_empty s' \<and> keyboard_getchar s' = Some (0, s')"
  using assms kb_count_eq[OF assms(1)]
  by (auto simp: buffer_put_def kb_inv_def keyboard_buffer_empty_def keyboard_getchar_def mod_256_next split: if_splits)

lemma keyboard_overflow_witness:
  "\<exists>s'. buffer_put 65 (sample_keyboard\<lparr>buffer_write_pos := 255\<rparr>) = Some s' \<and> keyboard_buffer_empty s'"
proof -
  have "kb_inv (sample_keyboard\<lparr>buffer_write_pos := 255\<rparr>)" "kb_count (sample_keyboard\<lparr>buffer_write_pos := 255\<rparr>) = 255"
    using sample_keyboard_facts by (simp_all add: sample_keyboard_def keyboard_init_def kb_inv_def kb_count_def)
  from keyboard_overflow[OF this, of 65] show ?thesis by blast
qed

end
