(* ===== verification/Netif.thy ===== *)
theory Netif
  imports Prelude
begin

text \<open>
  The table of network interfaces (\<open>src/src/drivers/netif.c\<close>). A driver is a record of its three
  operations, each of which may be missing, over the state \<open>'d\<close> of its hardware; a pointer to an
  interface is its index in the table, and the name of an interface is a C string in 16 bytes.
\<close>

section \<open>State and operations\<close>

definition MAX_NETIF :: nat where "MAX_NETIF = 4"

record netif_stats =
  packets_sent :: u32
  packets_received :: u32
  bytes_sent :: u32
  bytes_received :: u32
  errors :: u32

record 'd netif_ops =
  op_send :: "(bytes \<Rightarrow> u16 \<Rightarrow> 'd \<Rightarrow> int \<times> 'd) option"
  op_receive :: "(u16 \<Rightarrow> 'd \<Rightarrow> int \<times> bytes \<times> 'd) option"
  op_get_mac :: "('d \<Rightarrow> bytes \<times> 'd) option"

record 'd netif =
  nif_name :: cstring
  mac_addr :: bytes
  nif_ops :: "'d netif_ops option"
  stats :: netif_stats
  nif_private :: ptr

record 'd netifs =
  netifs :: "'d netif list"
  netif_count :: nat
  nif_dev :: 'd

definition no_stats :: netif_stats where
  "no_stats = \<lparr>packets_sent = 0, packets_received = 0, bytes_sent = 0, bytes_received = 0, errors = 0\<rparr>"

definition netif_init :: "'d netifs \<Rightarrow> (int \<times> 'd netifs) option" where
  "netif_init s = do {
     s \<leftarrow> for_range 0 MAX_NETIF (\<lambda>i s. do {
       n \<leftarrow> arr_get (netifs s) i;
       ns \<leftarrow> arr_set (netifs s) i (n\<lparr>nif_name := [], nif_ops := None, stats := no_stats, nif_private := NULL\<rparr>);
       Some (s\<lparr>netifs := ns\<rparr>)
     }) s;
     Some (0, s\<lparr>netif_count := 0\<rparr>)
   }"

text \<open>The name is copied without a check of its length, the operations are not checked for null.\<close>

definition netif_register :: "cstring \<Rightarrow> 'd netif_ops option \<Rightarrow> ptr \<Rightarrow> 'd netifs \<Rightarrow> (int \<times> 'd netifs) option" where
  "netif_register name ops private_data s =
     (if netif_count s \<ge> MAX_NETIF then Some (- 1, s)
      else do {
        n \<leftarrow> arr_get (netifs s) (netif_count s);
        nm \<leftarrow> strcpy_buf 16 name;
        let n = n\<lparr>nif_name := nm, nif_ops := ops, nif_private := private_data\<rparr>;
        o' \<leftarrow> ops;
        let (n, d) = (case op_get_mac o' of
            Some get_mac \<Rightarrow> (let (mac, d) = get_mac (nif_dev s) in (n\<lparr>mac_addr := mac\<rparr>, d))
          | None \<Rightarrow> (n, nif_dev s));
        ns \<leftarrow> arr_set (netifs s) (netif_count s) n;
        Some (0, s\<lparr>netifs := ns, netif_count := netif_count s + 1, nif_dev := d\<rparr>)
      })"

definition netif_get :: "cstring \<Rightarrow> 'd netifs \<Rightarrow> nat option" where
  "netif_get name s = find_first 0 (netif_count s) (\<lambda>i. strcmp_eq (nif_name (netifs s ! i)) name)"

definition netif_send :: "nat option \<Rightarrow> bytes \<Rightarrow> u16 \<Rightarrow> 'd netifs \<Rightarrow> (int \<times> 'd netifs) option" where
  "netif_send netif data len s = (case netif of
     None \<Rightarrow> Some (- 1, s)
   | Some i \<Rightarrow> do {
       n \<leftarrow> arr_get (netifs s) i;
       case Option.bind (nif_ops n) op_send of
         None \<Rightarrow> Some (- 1, s)
       | Some send \<Rightarrow> do {
           let (result, d) = send data len (nif_dev s);
           let st = stats n;
           let st = (if result = 0
             then st\<lparr>packets_sent := packets_sent st + 1, bytes_sent := bytes_sent st + ucast len\<rparr>
             else st\<lparr>errors := errors st + 1\<rparr>);
           ns \<leftarrow> arr_set (netifs s) i (n\<lparr>stats := st\<rparr>);
           Some (result, s\<lparr>netifs := ns, nif_dev := d\<rparr>)
         }
     })"

definition netif_receive :: "nat option \<Rightarrow> bytes \<Rightarrow> u16 \<Rightarrow> 'd netifs \<Rightarrow> (int \<times> bytes \<times> 'd netifs) option" where
  "netif_receive netif buffer max_length s = (case netif of
     None \<Rightarrow> Some (- 1, buffer, s)
   | Some i \<Rightarrow> do {
       n \<leftarrow> arr_get (netifs s) i;
       case Option.bind (nif_ops n) op_receive of
         None \<Rightarrow> Some (- 1, buffer, s)
       | Some receive \<Rightarrow> do {
           let (len, buffer, d) = receive max_length (nif_dev s);
           let st = stats n;
           let st = (if len > 0
             then st\<lparr>packets_received := packets_received st + 1,
                     bytes_received := bytes_received st + of_int len\<rparr>
             else st);
           ns \<leftarrow> arr_set (netifs s) i (n\<lparr>stats := st\<rparr>);
           Some (len, buffer, s\<lparr>netifs := ns, nif_dev := d\<rparr>)
         }
     })"

text \<open>The interfaces a caller's array of \<open>max_count\<close> pointers is filled with.\<close>

definition netif_get_all :: "int \<Rightarrow> 'd netifs \<Rightarrow> int \<times> nat list" where
  "netif_get_all max_count s =
     (let count = (if int (netif_count s) < max_count then int (netif_count s) else max_count)
      in (count, [0..<nat count]))"

section \<open>Registration and lookup\<close>

definition netif_wf :: "'d netifs \<Rightarrow> bool" where
  "netif_wf s \<longleftrightarrow> length (netifs s) = MAX_NETIF \<and> netif_count s \<le> MAX_NETIF"

lemma MAX_NETIF_simp [simp]: "MAX_NETIF = 4"
  by (simp add: MAX_NETIF_def)

definition registered :: "'d netifs \<Rightarrow> cstring \<Rightarrow> bool" where
  "registered s name \<longleftrightarrow> (\<exists>i<netif_count s. nif_name (netifs s ! i) = name)"

lemma netif_get_registered: "netif_get name s \<noteq> None \<longleftrightarrow> registered s name"
  using find_first_None[of 0 "netif_count s" "\<lambda>i. strcmp_eq (nif_name (netifs s ! i)) name"]
  by (auto simp: netif_get_def registered_def)

lemma netif_register_run:
  assumes "netif_wf s" "netif_count s < 4" "length name < 16"
  shows "\<exists>s'. netif_register name (Some ops) priv s = Some (0, s') \<and> netif_wf s' \<and>
    netif_count s' = Suc (netif_count s) \<and>
    nif_name (netifs s' ! netif_count s) = name \<and> nif_ops (netifs s' ! netif_count s) = Some ops \<and>
    (\<forall>i. i \<noteq> netif_count s \<longrightarrow> netifs s' ! i = netifs s ! i)"
  using assms
  by (auto simp: netif_register_def netif_wf_def strcpy_buf_def Let_def split: option.splits prod.splits)

text \<open>
  Registering an interface under a name of at most 15 bytes while the table has a free place:
  it succeeds, the name is then found (at the new place when no interface had it before), and every
  other name is found where it was. With four interfaces the result is -1 and nothing changes.
\<close>
theorem netif_register_correct:
  assumes "netif_wf s" "length name < 16"
  shows "if netif_count s = 4 then netif_register name (Some ops) priv s = Some (- 1, s)
    else \<exists>s'. netif_register name (Some ops) priv s = Some (0, s') \<and> netif_wf s' \<and>
      (\<forall>n. netif_get n s' = (if n = name \<and> \<not> registered s name then Some (netif_count s) else netif_get n s))"
proof (cases "netif_count s = 4")
  case True
  then show ?thesis by (simp add: netif_register_def)
next
  case False
  then have lt: "netif_count s < 4" using assms(1) by (simp add: netif_wf_def)
  from netif_register_run[OF assms(1) lt assms(2), of ops priv] obtain s' where
    s': "netif_register name (Some ops) priv s = Some (0, s')" "netif_wf s'"
      "netif_count s' = Suc (netif_count s)" "nif_name (netifs s' ! netif_count s) = name"
      "\<forall>i. i \<noteq> netif_count s \<longrightarrow> netifs s' ! i = netifs s ! i" by blast
  have "netif_get n s' = (if n = name \<and> \<not> registered s name then Some (netif_count s) else netif_get n s)" for n
  proof -
    have same: "find_first 0 (netif_count s) (\<lambda>i. strcmp_eq (nif_name (netifs s' ! i)) n) = netif_get n s"
      unfolding netif_get_def by (rule find_first_cong) (use s'(5) in simp)
    have "netif_get n s' = (case netif_get n s of Some k \<Rightarrow> Some k
        | None \<Rightarrow> if n = name then Some (netif_count s) else None)"
      using find_first_append[of 0 "netif_count s" 1 "\<lambda>i. strcmp_eq (nif_name (netifs s' ! i)) n"] s'(4)
      unfolding same by (auto simp: netif_get_def s'(3) numeral_eq_Suc split: option.splits)
    then show ?thesis using netif_get_registered[of n s] by (auto split: option.splits)
  qed
  with s' False show ?thesis by auto
qed

definition sample_netifs :: "unit netifs" where
  "sample_netifs = \<lparr>netifs = replicate 4 \<lparr>nif_name = [], mac_addr = replicate 6 0, nif_ops = None,
     stats = no_stats, nif_private = NULL\<rparr>, netif_count = 0, nif_dev = ()\<rparr>"

lemma netif_register_correct_witness:
  "\<exists>s'. netif_register (cstr ''eth0'') (Some \<lparr>op_send = None, op_receive = None, op_get_mac = None\<rparr>) NULL
     sample_netifs = Some (0, s') \<and> netif_get (cstr ''eth0'') s' = Some 0"
proof -
  have "netif_wf sample_netifs" "\<not> registered sample_netifs (cstr ''eth0'')" "netif_count sample_netifs = 0"
    by (simp_all add: netif_wf_def registered_def sample_netifs_def)
  then show ?thesis
    using netif_register_correct[of sample_netifs "cstr ''eth0''"
        "\<lparr>op_send = None, op_receive = None, op_get_mac = None\<rparr>" NULL] by auto
qed

text \<open>
  A name of 16 bytes or more overruns the field, and so does a missing operations table.
\<close>

lemma netif_register_long_name:
  "netif_wf s \<Longrightarrow> netif_count s < 4 \<Longrightarrow> 16 \<le> length name \<Longrightarrow> netif_register name ops priv s = None"
  by (simp add: netif_register_def netif_wf_def strcpy_buf_def)

text \<open>The counters after a transmission: a frame the driver takes, and one it refuses.\<close>

lemma netif_send_counts:
  assumes "netif_wf s" "i < 4" "nif_ops (netifs s ! i) = Some ops" "op_send ops = Some snd'"
    and "snd' data len (nif_dev s) = (r, d)"
  shows "\<exists>s'. netif_send (Some i) data len s = Some (r, s') \<and> nif_dev s' = d \<and>
    packets_sent (stats (netifs s' ! i)) = packets_sent (stats (netifs s ! i)) + (if r = 0 then 1 else 0) \<and>
    errors (stats (netifs s' ! i)) = errors (stats (netifs s ! i)) + (if r = 0 then 0 else 1) \<and>
    (\<forall>j. j \<noteq> i \<longrightarrow> netifs s' ! j = netifs s ! j)"
  using assms by (auto simp: netif_send_def netif_wf_def Let_def)

end
