(* ===== verification/Netstack.thy ===== *)
theory Netstack
  imports Ipc
begin

text \<open>
  The network stack (\<open>src/src/lib/netstack_driver.c\<close>), a task that receives Ethernet frames as messages, keeps
  a cache of addresses from ARP, answers ARP requests, and handles ICMP. The theory shows what the
  cache knows after a packet, what answer an ARP request gets, that the checksum of an echo reply is right, and that
  echo requests are not answered but sent back to the driver.
\<close>

section \<open>Byte order\<close>

definition htons :: "u32 \<Rightarrow> u16" where
  "htons x = ucast (push_bit 8 (x AND 0xFF) OR (drop_bit 8 x AND 0xFF))"

definition ntohs :: "u16 \<Rightarrow> u16" where
  "ntohs x = htons (ucast x)"

definition htonl :: "u32 \<Rightarrow> u32" where
  "htonl x = push_bit 24 (x AND 0xFF) OR push_bit 8 (x AND 0xFF00) OR drop_bit 8 (x AND 0xFF0000) OR
     (drop_bit 24 x AND 0xFF)"

definition ntohl :: "u32 \<Rightarrow> u32" where
  "ntohl x = htonl x"

section \<open>Packets\<close>

text \<open>The headers are read from memory, and written to it, in the order of their members.\<close>

definition ETH_TYPE_ARP :: u16 where "ETH_TYPE_ARP = 0x0806"
definition ETH_TYPE_IP :: u16 where "ETH_TYPE_IP = 0x0800"
definition ARP_OP_REQUEST :: u16 where "ARP_OP_REQUEST = 1"
definition ARP_OP_REPLY :: u16 where "ARP_OP_REPLY = 2"
definition IP_PROTO_ICMP :: u8 where "IP_PROTO_ICMP = 1"
definition ICMP_TYPE_ECHO_REPLY :: u8 where "ICMP_TYPE_ECHO_REPLY = 0"
definition ICMP_TYPE_ECHO_REQUEST :: u8 where "ICMP_TYPE_ECHO_REQUEST = 8"
definition ARP_CACHE_SIZE :: nat where "ARP_CACHE_SIZE = 16"

record eth_header =
  eth_dest :: bytes
  eth_src :: bytes
  eth_type :: u16

record arp_packet =
  arp_hw_type :: u16
  arp_proto_type :: u16
  arp_hw_addr_len :: u8
  arp_proto_addr_len :: u8
  arp_opcode :: u16
  arp_sender_mac :: bytes
  arp_sender_ip :: u32
  arp_target_mac :: bytes
  arp_target_ip :: u32

record ip_header =
  ip_version_ihl :: u8
  ip_tos :: u8
  ip_total_length :: u16
  ip_id :: u16
  ip_flags_fragment :: u16
  ip_ttl :: u8
  ip_protocol :: u8
  ip_check :: u16
  ip_src :: u32
  ip_dest :: u32

record icmp_header =
  icmp_type :: u8
  icmp_code :: u8
  icmp_check :: u16
  icmp_id :: u16
  icmp_sequence :: u16

definition eth_of :: "bytes \<Rightarrow> eth_header" where
  "eth_of bs = \<lparr>eth_dest = take 6 bs, eth_src = take 6 (drop 6 bs), eth_type = of_le16 (drop 12 bs)\<rparr>"

definition eth_bytes :: "eth_header \<Rightarrow> bytes" where
  "eth_bytes h = eth_dest h @ eth_src h @ le16 (eth_type h)"

definition arp_of :: "bytes \<Rightarrow> arp_packet" where
  "arp_of bs = \<lparr>arp_hw_type = of_le16 bs, arp_proto_type = of_le16 (drop 2 bs), arp_hw_addr_len = bs ! 4,
     arp_proto_addr_len = bs ! 5, arp_opcode = of_le16 (drop 6 bs), arp_sender_mac = take 6 (drop 8 bs),
     arp_sender_ip = of_le32 (drop 14 bs), arp_target_mac = take 6 (drop 18 bs), arp_target_ip = of_le32 (drop 24 bs)\<rparr>"

definition arp_bytes :: "arp_packet \<Rightarrow> bytes" where
  "arp_bytes p = le16 (arp_hw_type p) @ le16 (arp_proto_type p) @ [arp_hw_addr_len p, arp_proto_addr_len p] @
     le16 (arp_opcode p) @ arp_sender_mac p @ le32 (arp_sender_ip p) @ arp_target_mac p @ le32 (arp_target_ip p)"

definition ip_of :: "bytes \<Rightarrow> ip_header" where
  "ip_of bs = \<lparr>ip_version_ihl = bs ! 0, ip_tos = bs ! 1, ip_total_length = of_le16 (drop 2 bs), ip_id = of_le16 (drop 4 bs),
     ip_flags_fragment = of_le16 (drop 6 bs), ip_ttl = bs ! 8, ip_protocol = bs ! 9, ip_check = of_le16 (drop 10 bs),
     ip_src = of_le32 (drop 12 bs), ip_dest = of_le32 (drop 16 bs)\<rparr>"

definition ip_bytes :: "ip_header \<Rightarrow> bytes" where
  "ip_bytes h = [ip_version_ihl h, ip_tos h] @ le16 (ip_total_length h) @ le16 (ip_id h) @ le16 (ip_flags_fragment h) @
     [ip_ttl h, ip_protocol h] @ le16 (ip_check h) @ le32 (ip_src h) @ le32 (ip_dest h)"

definition icmp_of :: "bytes \<Rightarrow> icmp_header" where
  "icmp_of bs = \<lparr>icmp_type = bs ! 0, icmp_code = bs ! 1, icmp_check = of_le16 (drop 2 bs), icmp_id = of_le16 (drop 4 bs),
     icmp_sequence = of_le16 (drop 6 bs)\<rparr>"

definition icmp_bytes :: "icmp_header \<Rightarrow> bytes" where
  "icmp_bytes h = [icmp_type h, icmp_code h] @ le16 (icmp_check h) @ le16 (icmp_id h) @ le16 (icmp_sequence h)"

section \<open>State\<close>

definition my_ip :: u32 where "my_ip = 0x0A00020F"
definition my_mac :: bytes where "my_mac = [0x52, 0x54, 0x00, 0x12, 0x34, 0x56]"

record arp_entry =
  ae_ip :: u32
  ae_mac :: bytes
  ae_valid :: bool

record netstack =
  arp_cache :: "arp_entry list"
  ne2000_port :: int
  ns_ipc :: ipc

section \<open>Checksums\<close>

lemma unat_halves:
  fixes w :: u32
  shows "unat (w AND 0xFFFF) = unat w mod 65536" "unat (drop_bit 16 w) = unat w div 65536"
    "unat ((w AND 0xFFFF) + drop_bit 16 w) = unat w mod 65536 + unat w div 65536"
proof -
  have "w AND 0xFFFF = take_bit 16 w" by (simp add: take_bit_eq_mask mask_eq_exp_minus_1)
  then show a: "unat (w AND 0xFFFF) = unat w mod 65536" by (simp add: take_bit_eq_mod unat_mod_distrib)
  show b: "unat (drop_bit 16 w) = unat w div 65536" by (simp add: drop_bit_eq_div unat_div)
  have "unat w < 4294967296" using unsigned_less[of w, where ?'a = nat] by simp
  then have "unat w div 65536 < 65536" by (simp add: less_mult_imp_div_less)
  then show "unat ((w AND 0xFFFF) + drop_bit 16 w) = unat w mod 65536 + unat w div 65536"
    unfolding a[symmetric] b[symmetric] by (intro unat_add_no_wrap) (simp add: a b add_less_le_mono[of "unat w mod 65536" 65536])
qed

text \<open>The loop that folds the carries into 16 bits.\<close>

function fold16 :: "u32 \<Rightarrow> u32" where
  "fold16 acc = (if drop_bit 16 acc \<noteq> 0 then fold16 ((acc AND 0xFFFF) + drop_bit 16 acc) else acc)"
  by pat_completeness auto

termination
proof (relation "measure unat")
  fix acc :: u32
  assume "drop_bit 16 acc \<noteq> 0"
  then have "unat acc div 65536 \<noteq> 0" unfolding unat_halves(2)[symmetric] by (simp add: unat_eq_0)
  moreover have "unat acc = 65536 * (unat acc div 65536) + unat acc mod 65536" by simp
  ultimately have "unat acc mod 65536 + unat acc div 65536 < unat acc" by linarith
  then show "((acc AND 0xFFFF) + drop_bit 16 acc, acc) \<in> measure unat" by (simp add: unat_halves(3))
qed simp

declare fold16.simps [simp del]

text \<open>\<open>ip_checksum\<close> of \<open>len\<close> bytes, which it reads as 16-bit words in the order of the machine.\<close>

fun le_words_sum :: "bytes \<Rightarrow> u32 \<Rightarrow> u32" where
  "le_words_sum (a # b # bs) acc = le_words_sum bs (acc + ucast (of_le16 [a, b]))"
| "le_words_sum [a] acc = acc + ucast a"
| "le_words_sum [] acc = acc"

definition ip_checksum :: "bytes \<Rightarrow> u32 \<Rightarrow> u16 option" where
  "ip_checksum data len = do {
     require (unat len \<le> length data);
     Some (ucast (NOT (fold16 (le_words_sum (take (unat len) data) 0))))
   }"

text \<open>The sum of \<open>process_icmp\<close>: words in network order, the last byte of an odd number of them in the upper half.\<close>

fun be_words_sum :: "bytes \<Rightarrow> u32 \<Rightarrow> u32" where
  "be_words_sum (a # b # bs) acc = be_words_sum bs (acc + ucast (ntohs (of_le16 [a, b])))"
| "be_words_sum [a] acc = acc + push_bit 8 (ucast a)"
| "be_words_sum [] acc = acc"

definition icmp_checksum :: "bytes \<Rightarrow> u16" where
  "icmp_checksum icmp = htons (NOT (fold16 (be_words_sum icmp 0)))"

section \<open>Sending\<close>

text \<open>
  The system calls go to the ports of the kernel. The driver's port is looked up at the first frame;
  the result of the send is not looked at.
\<close>

definition send_frame_to_driver :: "bytes \<Rightarrow> u32 \<Rightarrow> netstack \<Rightarrow> netstack option" where
  "send_frame_to_driver frame len s =
     (let s = (if ne2000_port s < 0 then s\<lparr>ne2000_port := ipc_find_port (Some (cstr ''netdev.ne2000'')) (ns_ipc s)\<rparr> else s) in
      if ne2000_port s < 0 then Some s
      else do {
        (r, k) \<leftarrow> ipc_send (of_int (ne2000_port s)) 2 (Some frame) len (ns_ipc s);
        Some (s\<lparr>ns_ipc := k\<rparr>)
      })"

section \<open>Protocols\<close>

definition cache_find :: "u32 \<Rightarrow> arp_entry list \<Rightarrow> nat option" where
  "cache_find ip cache = find_first 0 ARP_CACHE_SIZE (\<lambda>i. \<not> ae_valid (cache ! i) \<or> ae_ip (cache ! i) = ip)"

definition cache_update :: "u32 \<Rightarrow> bytes \<Rightarrow> arp_entry list \<Rightarrow> arp_entry list" where
  "cache_update ip mac cache = (case cache_find ip cache of
     None \<Rightarrow> cache
   | Some i \<Rightarrow> cache[i := \<lparr>ae_ip = ip, ae_mac = mac, ae_valid = True\<rparr>])"

definition arp_reply :: "arp_packet \<Rightarrow> bytes" where
  "arp_reply arp = arp_sender_mac arp @ my_mac @ [0x08, 0x06] @ arp_bytes
     \<lparr>arp_hw_type = htons 1, arp_proto_type = htons 0x0800, arp_hw_addr_len = 6, arp_proto_addr_len = 4,
      arp_opcode = htons (ucast ARP_OP_REPLY), arp_sender_mac = my_mac, arp_sender_ip = htonl my_ip,
      arp_target_mac = arp_sender_mac arp, arp_target_ip = arp_sender_ip arp\<rparr>"

definition process_arp :: "arp_packet \<Rightarrow> netstack \<Rightarrow> netstack option" where
  "process_arp arp s =
     (let s = s\<lparr>arp_cache := cache_update (ntohl (arp_sender_ip arp)) (arp_sender_mac arp) (arp_cache s)\<rparr> in
      if ntohs (arp_opcode arp) = ARP_OP_REQUEST \<and> ntohl (arp_target_ip arp) = my_ip
      then send_frame_to_driver (arp_reply arp) 42 s
      else Some s)"

text \<open>The answer to an echo request: headers of 14, 20 and 8 bytes, and the data of the request.\<close>

definition echo_reply_icmp :: "icmp_header \<Rightarrow> bytes \<Rightarrow> bytes" where
  "echo_reply_icmp icmp data =
     (let h = \<lparr>icmp_type = ICMP_TYPE_ECHO_REPLY, icmp_code = 0, icmp_check = 0, icmp_id = icmp_id icmp,
            icmp_sequence = icmp_sequence icmp\<rparr> in
      icmp_bytes (h\<lparr>icmp_check := icmp_checksum (icmp_bytes h @ data)\<rparr>) @ data)"

definition echo_reply_ip :: "u32 \<Rightarrow> u32 \<Rightarrow> bytes" where
  "echo_reply_ip ip_total_len src = ip_bytes \<lparr>ip_version_ihl = 0x45, ip_tos = 0, ip_total_length = htons ip_total_len,
     ip_id = 0, ip_flags_fragment = 0, ip_ttl = 64, ip_protocol = IP_PROTO_ICMP, ip_check = 0, ip_src = htonl my_ip,
     ip_dest = htonl src\<rparr>"

definition process_icmp :: "icmp_header \<Rightarrow> bytes \<Rightarrow> u32 \<Rightarrow> u32 \<Rightarrow> netstack \<Rightarrow> netstack option" where
  "process_icmp icmp data len src s =
     (if icmp_type icmp = ICMP_TYPE_ECHO_REPLY then Some s
      else if icmp_type icmp = ICMP_TYPE_ECHO_REQUEST
      then (case find_first 0 ARP_CACHE_SIZE (\<lambda>i. ae_valid (arp_cache s ! i) \<and> ae_ip (arp_cache s ! i) = src) of
          None \<Rightarrow> Some s
        | Some i \<Rightarrow>
          (let icmp_total_len = 8 + len; ip_total_len = 20 + icmp_total_len; frame_len = 14 + ip_total_len in
           if frame_len > 1500 then Some s
           else do {
             require (unat len \<le> length data \<and> 42 + unat len \<le> 1500);
             let eth = eth_bytes \<lparr>eth_dest = ae_mac (arp_cache s ! i), eth_src = my_mac, eth_type = htons (ucast ETH_TYPE_IP)\<rparr>;
             send_frame_to_driver (eth @ echo_reply_ip ip_total_len src @ echo_reply_icmp icmp (take (unat len) data)) frame_len s
           }))
      else Some s)"

text \<open>\<open>payload\<close> is the memory behind the header, and may be longer than \<open>payload_len\<close>.\<close>

definition process_ip :: "ip_header \<Rightarrow> bytes \<Rightarrow> u32 \<Rightarrow> netstack \<Rightarrow> netstack option" where
  "process_ip ip payload payload_len s =
     (if ntohl (ip_dest ip) \<noteq> my_ip then Some s
      else if ip_protocol ip = IP_PROTO_ICMP \<and> payload_len \<ge> 8
      then do {
        require (8 \<le> length payload);
        process_icmp (icmp_of payload) (drop 8 payload) (payload_len - 8) (ntohl (ip_src ip)) s
      }
      else Some s)"

definition process_ethernet_frame :: "bytes \<Rightarrow> u32 \<Rightarrow> netstack \<Rightarrow> netstack option" where
  "process_ethernet_frame frame len s =
     (if len < 14 then Some s
      else do {
        require (14 \<le> length frame);
        let payload = drop 14 frame;
        let payload_len = len - 14;
        let type = ntohs (eth_type (eth_of frame));
        if type = ETH_TYPE_ARP
        then (if payload_len \<ge> 28 then do { require (28 \<le> length payload); process_arp (arp_of payload) s } else Some s)
        else if type = ETH_TYPE_IP
        then (if payload_len \<ge> 20
          then do {
            require (20 \<le> length payload);
            let ip = ip_of payload;
            if ip_protocol ip = IP_PROTO_ICMP \<and> payload_len \<ge> 28
            then do {
              require (28 \<le> length payload);
              if icmp_type (icmp_of (drop 20 payload)) = ICMP_TYPE_ECHO_REQUEST
              then send_frame_to_driver frame len s
              else process_ip ip (drop 20 payload) (payload_len - 20) s
            }
            else process_ip ip (drop 20 payload) (payload_len - 20) s
          }
          else Some s)
        else Some s
      })"

section \<open>The main loop\<close>

text \<open>
  The start, with the port the stack listens on, and one round of the loop: a message without
  waiting, its frame, and the yield, in which other tasks run (\<open>resume\<close>).
\<close>

definition netstack_start :: "netstack \<Rightarrow> (int \<times> netstack) option" where
  "netstack_start s = do {
     cache \<leftarrow> for_range 0 ARP_CACHE_SIZE (\<lambda>i c. do { e \<leftarrow> arr_get c i; arr_set c i (e\<lparr>ae_valid := False\<rparr>) }) (arp_cache s);
     (port, k) \<leftarrow> ipc_create_named_port (Some (cstr ''net.stack'')) (ns_ipc s);
     Some (port, s\<lparr>arp_cache := cache, ns_ipc := k\<rparr>)
   }"

definition netstack_round :: "(ipc \<Rightarrow> ipc option) \<Rightarrow> int \<Rightarrow> ipc_message \<Rightarrow> netstack \<Rightarrow> (ipc_message \<times> netstack) option" where
  "netstack_round resume port buf s = do {
     (r, msg, k) \<leftarrow> ipc_try_recv (of_int port) buf (ns_ipc s);
     let s = s\<lparr>ns_ipc := k\<rparr>;
     s \<leftarrow> (if r = 0 \<and> m_type msg = 1 then process_ethernet_frame (m_data msg) (m_size msg) s else Some s);
     k \<leftarrow> yield_and_return resume (ns_ipc s);
     Some (msg, s\<lparr>ns_ipc := k\<rparr>)
   }"

section \<open>The checksum is right\<close>

text \<open>Folding keeps a sum modulo 65535, and gives 0 for 0 only.\<close>

lemma fold16_spec:
  "unat (fold16 w) < 65536 \<and> unat (fold16 w) mod 65535 = unat w mod 65535 \<and> (fold16 w = 0 \<longleftrightarrow> w = 0)"
proof (induction w rule: fold16.induct)
  case (1 w)
  show ?case
  proof (cases "drop_bit 16 w = 0")
    case True
    then have "unat w div 65536 = 0" unfolding unat_halves(2)[symmetric] by simp
    then have "unat w < 65536" by simp
    then show ?thesis using True by (simp add: fold16.simps[of w])
  next
    case False
    let ?w = "(w AND 0xFFFF) + drop_bit 16 w"
    have q: "unat w div 65536 \<noteq> 0" using False unfolding unat_halves(2)[symmetric] by (simp add: unat_eq_0)
    have "unat w = 65535 * (unat w div 65536) + unat ?w" unfolding unat_halves(3) by simp
    then have "unat ?w mod 65535 = unat w mod 65535" by (metis mod_mult_self4)
    moreover have "unat ?w \<noteq> 0" "unat w \<noteq> 0" using q unfolding unat_halves(3) by auto
    then have "?w \<noteq> 0" "w \<noteq> 0" by auto
    ultimately show ?thesis using 1[OF False] False by (simp add: fold16.simps[of w])
  qed
qed

lemma fold16_multiple: "unat w mod 65535 = 0 \<Longrightarrow> w \<noteq> 0 \<Longrightarrow> fold16 w = 0xFFFF"
proof -
  assume w: "unat w mod 65535 = 0" "w \<noteq> 0"
  let ?f = "unat (fold16 w)"
  have f: "?f < 65536" "?f mod 65535 = 0" "?f \<noteq> 0" using fold16_spec[of w] w by (simp_all add: unat_eq_0)
  obtain k where "?f = 65535 * k" using f(2) by blast
  with f(1,3) have "?f = 65535" by (cases k) auto
  then show ?thesis by (simp add: word_unat_eq_iff)
qed

lemma mask_byte: "(0xFF :: u32) = mask 8"
  by (simp add: mask_eq_exp_minus_1)

lemma bit_htons: "bit (htons x) n \<longleftrightarrow> (if n < 8 then bit x (n + 8) else n < 16 \<and> bit x (n - 8))"
  unfolding htons_def mask_byte by (auto simp: bit_simps ac_simps)

lemma ntohs_word: "ntohs (of_le16 [a, b]) = push_bit 8 (ucast a) OR ucast b"
  by (rule bit_eqI) (auto simp: bit_simps ntohs_def bit_htons dest: bit_imp_le_length)

lemma ntohs_htons: "ntohs (htons x) = ucast x"
  by (rule bit_eqI) (auto simp: bit_simps ntohs_def bit_htons)

lemma unat_not: "unat (NOT (y :: u16)) = 65535 - unat y"
proof -
  have "NOT y = - 1 - y" by (simp add: not_eq_complement)
  moreover have "unat (- 1 - y) = unat (- 1 :: u16) - unat y" by (rule unat_sub) simp
  ultimately show ?thesis by (simp add: unsigned_minus_1_eq_mask mask_eq_exp_minus_1)
qed

lemma unat_cast_not: "unat (w :: u32) < 65536 \<Longrightarrow> unat (ucast (NOT w) :: u16) = 65535 - unat w"
proof -
  assume w: "unat w < 65536"
  have "(ucast (NOT w) :: u16) = NOT (ucast w)" by (rule bit_eqI) (auto simp: bit_simps)
  moreover have "unat (ucast w :: u16) = unat w" using w by (simp add: unsigned_ucast_eq take_bit_eq_mod)
  ultimately show ?thesis by (simp add: unat_not)
qed

lemma unat_ntohs: "unat (ntohs (of_le16 [a, b])) = 256 * unat a + unat b"
proof -
  have "push_bit 8 (ucast a :: u16) OR ucast b = push_bit 8 (ucast a) + ucast b"
    by (rule disjunctive_add[symmetric]) (auto simp: bit_simps dest: bit_imp_le_length)
  moreover have "unat (push_bit 8 (ucast a :: u16)) = 256 * unat a"
    using unsigned_less[of a, where ?'a = nat]
    by (simp add: push_bit_eq_mult unat_word_ariths unsigned_ucast_eq take_bit_eq_mod)
  moreover have "unat (ucast b :: u16) = unat b" 
    using unsigned_less[of b, where ?'a = nat] by (simp add: unsigned_ucast_eq take_bit_eq_mod)
  ultimately show ?thesis unfolding ntohs_word
    using unsigned_less[of a, where ?'a = nat] unsigned_less[of b, where ?'a = nat] by (simp add: unat_word_ariths)
qed
text \<open>The sum of the words as a number.\<close>

fun be_value :: "bytes \<Rightarrow> nat" where
  "be_value (a # b # bs) = 256 * unat a + unat b + be_value bs"
| "be_value [a] = 256 * unat a"
| "be_value [] = 0"

lemma be_words_sum_value: "unat acc + be_value bs < 2 ^ 32 \<Longrightarrow> unat (be_words_sum bs acc) = unat acc + be_value bs"
proof (induction bs acc rule: be_words_sum.induct)
  case (1 a b bs acc)
  have w: "unat (ucast (ntohs (of_le16 [a, b])) :: u32) = 256 * unat a + unat b"
    using unsigned_less[of "ntohs (of_le16 [a, b])", where ?'a = nat]
    by (simp add: unsigned_ucast_eq take_bit_eq_mod unat_ntohs[symmetric] del: of_le16.simps)
  have s: "unat (acc + ucast (ntohs (of_le16 [a, b]))) = unat acc + (256 * unat a + unat b)"
    using 1(2) w by (subst unat_add_no_wrap) (simp_all del: of_le16.simps)
  from 1(1) 1(2) s show ?case by (simp del: of_le16.simps)
next
  case (2 a acc)
  have w: "unat (push_bit 8 (ucast a :: u32)) = 256 * unat a"
    using unsigned_less[of a, where ?'a = nat] by (simp add: push_bit_eq_mult unat_word_ariths unsigned_ucast_eq take_bit_eq_mod)
  then show ?case using 2 by (simp, subst unat_add_no_wrap) simp_all
qed simp

lemma be_value_bound: "be_value bs \<le> 65535 * length bs"
proof (induction bs rule: be_value.induct)
  case (1 a b bs)
  then show ?case using unsigned_less[of a, where ?'a = nat] unsigned_less[of b, where ?'a = nat] by simp
next
  case (2 a)
  then show ?case using unsigned_less[of a, where ?'a = nat] by simp
qed simp

lemma be_value_icmp:
  "be_value (icmp_bytes h @ data) =
     be_value (icmp_bytes (h\<lparr>icmp_check := 0\<rparr>) @ data) + unat (ntohs (icmp_check h))"
proof -
  have "of_le16 (le16 w @ []) = w" for w by (rule of_le16_le16)
  then have "unat (ntohs w) = be_value (le16 w)" for w by (simp add: le16_def unat_ntohs[symmetric] del: of_le16.simps)
  then show ?thesis by (simp add: icmp_bytes_def le16_def)
qed

text \<open>
  C23. The echo reply carries a right checksum: the words of its ICMP part, checksum included, add up in ones' complement
  arithmetic to 0xFFFF, which is how the receiver checks them. The data is any of up to 1458 bytes, also of odd length.
\<close>

theorem echo_reply_checksum:
  assumes "length data \<le> 1458"
  shows "fold16 (be_words_sum (echo_reply_icmp icmp data) 0) = 0xFFFF"
proof -
  define h where "h = \<lparr>icmp_type = ICMP_TYPE_ECHO_REPLY, icmp_code = 0, icmp_check = 0, icmp_id = icmp_id icmp,
    icmp_sequence = icmp_sequence icmp\<rparr>"
  let ?z = "icmp_bytes h @ data"
  define c where "c = icmp_checksum ?z"
  let ?m = "icmp_bytes (h\<lparr>icmp_check := c\<rparr>) @ data"
  have len: "length ?z \<le> 1466" using assms by (simp add: icmp_bytes_def)
  have small: "be_value ?z \<le> 65535 * 1466" using be_value_bound[of ?z] len by (meson le_trans mult_le_mono2)
  have z: "unat (be_words_sum ?z 0) = be_value ?z" using be_words_sum_value[of 0 ?z] small by simp
  let ?f = "fold16 (be_words_sum ?z 0)"
  have f: "unat ?f < 65536" "unat ?f mod 65535 = be_value ?z mod 65535" using fold16_spec[of "be_words_sum ?z 0"] z by simp_all
  have "unat (ntohs c) = 65535 - unat ?f"
    unfolding c_def icmp_checksum_def ntohs_htons by (rule unat_cast_not[OF f(1)])
  then have m: "be_value ?m = be_value ?z + (65535 - unat ?f)" using be_value_icmp[of "h\<lparr>icmp_check := c\<rparr>"] by (simp add: h_def)
  have ms: "unat (be_words_sum ?m 0) = be_value ?m" using be_words_sum_value[of 0 ?m] small m by simp
  have "(be_value ?z + (65535 - unat ?f)) mod 65535 = (unat ?f mod 65535 + (65535 - unat ?f)) mod 65535"
    unfolding f(2) by (simp add: mod_simps)
  also have "\<dots> = 0" using f(1) by (cases "unat ?f = 65535") (simp_all add: mod_simps)
  finally have "unat (be_words_sum ?m 0) mod 65535 = 0" unfolding ms m .
  moreover have "be_words_sum ?m 0 \<noteq> 0"
  proof
    assume "be_words_sum ?m 0 = 0"
    then have "be_value ?m = 0" using ms by simp
    then have "be_value ?z = 0" "unat ?f = 65535" using m f(1) by auto
    then have "be_words_sum ?z 0 = 0" using z by (simp add: unat_eq_0)
    then have "?f = 0" using fold16_spec[of "be_words_sum ?z 0"] by simp
    with \<open>unat ?f = 65535\<close> show False by simp
  qed
  ultimately have "fold16 (be_words_sum ?m 0) = 0xFFFF" by (rule fold16_multiple)
  then show ?thesis by (simp add: echo_reply_icmp_def Let_def h_def c_def)
qed

lemma echo_reply_checksum_witness:
  "fold16 (be_words_sum (echo_reply_icmp \<lparr>icmp_type = 8, icmp_code = 0, icmp_check = 0, icmp_id = 7, icmp_sequence = 1\<rparr> [1, 2, 3]) 0) = 0xFFFF"
  by (rule echo_reply_checksum) simp

section \<open>The cache of addresses\<close>

text \<open>What \<open>process_icmp\<close> finds for an address.\<close>

definition arp_lookup :: "arp_entry list \<Rightarrow> u32 \<Rightarrow> bytes option" where
  "arp_lookup cache ip = map_option (\<lambda>i. ae_mac (cache ! i))
     (find_first 0 ARP_CACHE_SIZE (\<lambda>i. ae_valid (cache ! i) \<and> ae_ip (cache ! i) = ip))"

text \<open>The valid entries are the first \<open>n\<close>, each with an address of its own.\<close>

definition cache_ok :: "nat \<Rightarrow> arp_entry list \<Rightarrow> bool" where
  "cache_ok n c \<longleftrightarrow> length c = 16 \<and> n \<le> 16 \<and> (\<forall>i < 16. ae_valid (c ! i) \<longleftrightarrow> i < n) \<and>
     (\<forall>i < n. \<forall>j < n. ae_ip (c ! i) = ae_ip (c ! j) \<longrightarrow> i = j)"

lemma ARP_CACHE_SIZE_simp [simp]: "ARP_CACHE_SIZE = 16"
  by (simp add: ARP_CACHE_SIZE_def)

lemma cache_ok_inj: "cache_ok n c \<Longrightarrow> i < n \<Longrightarrow> j < n \<Longrightarrow> ae_ip (c ! i) = ae_ip (c ! j) \<Longrightarrow> i = j"
  by (simp add: cache_ok_def)

lemma cache_ok_valid: "cache_ok n c \<Longrightarrow> i < 16 \<Longrightarrow> ae_valid (c ! i) \<longleftrightarrow> i < n"
  by (simp add: cache_ok_def)

lemma arp_lookup_at:
  assumes "cache_ok n c" "i < n"
  shows "arp_lookup c (ae_ip (c ! i)) = Some (ae_mac (c ! i))"
proof -
  have i: "i < 16" using assms by (simp add: cache_ok_def)
  have "find_first 0 16 (\<lambda>j. ae_valid (c ! j) \<and> ae_ip (c ! j) = ae_ip (c ! i)) = Some i"
  proof (rule find_first_least)
    show "\<not> (ae_valid (c ! j) \<and> ae_ip (c ! j) = ae_ip (c ! i))" if "j < i" for j
      using cache_ok_inj[OF assms(1) _ assms(2), of j] that assms(2) by force
  qed (use i assms(2) cache_ok_valid[OF assms(1) i] in simp_all)
  then show ?thesis by (simp add: arp_lookup_def)
qed

lemma arp_lookup_none:
  assumes "cache_ok n c"
  shows "arp_lookup c ip = None \<longleftrightarrow> (\<forall>i < n. ae_ip (c ! i) \<noteq> ip)"
proof -
  have "n \<le> 16" using assms by (simp add: cache_ok_def)
  then have "(\<forall>i. 0 \<le> i \<and> i < 0 + 16 \<longrightarrow> \<not> (ae_valid (c ! i) \<and> ae_ip (c ! i) = ip)) \<longleftrightarrow> (\<forall>i < n. ae_ip (c ! i) \<noteq> ip)"
    unfolding add_0 using cache_ok_valid[OF assms] by (metis le0 less_le_trans)
  then show ?thesis by (simp add: arp_lookup_def find_first_None)
qed

lemma arp_lookup_iff:
  assumes "cache_ok n c"
  shows "arp_lookup c ip = Some mac \<longleftrightarrow> (\<exists>i < n. ae_ip (c ! i) = ip \<and> ae_mac (c ! i) = mac)"
proof
  assume "arp_lookup c ip = Some mac"
  then obtain i where "find_first 0 16 (\<lambda>j. ae_valid (c ! j) \<and> ae_ip (c ! j) = ip) = Some i" "ae_mac (c ! i) = mac"
    by (auto simp: arp_lookup_def)
  then show "\<exists>i < n. ae_ip (c ! i) = ip \<and> ae_mac (c ! i) = mac"
    using assms unfolding find_first_Some cache_ok_def by auto
next
  assume "\<exists>i < n. ae_ip (c ! i) = ip \<and> ae_mac (c ! i) = mac"
  then show "arp_lookup c ip = Some mac" using arp_lookup_at[OF assms] by blast
qed

lemma cache_find_known:
  assumes "cache_ok n c" "i < n"
  shows "cache_find (ae_ip (c ! i)) c = Some i"
  unfolding cache_find_def ARP_CACHE_SIZE_simp
proof (rule find_first_least)
  show i: "i < 16" using assms by (simp add: cache_ok_def)
  show "\<not> (\<not> ae_valid (c ! j) \<or> ae_ip (c ! j) = ae_ip (c ! i))" if "j < i" for j
    using cache_ok_inj[OF assms(1) _ assms(2), of j] cache_ok_valid[OF assms(1), of j] that assms(2) i by force
qed simp

lemma cache_find_new:
  "cache_ok n c \<Longrightarrow> \<forall>i < n. ae_ip (c ! i) \<noteq> ip \<Longrightarrow> cache_find ip c = (if n < 16 then Some n else None)"
  unfolding cache_find_def ARP_CACHE_SIZE_simp
  by (auto simp: find_first_Some find_first_None cache_ok_def)

lemma cache_put:
  fixes c :: "arp_entry list" and mac :: bytes
  assumes ok: "cache_ok n c" and i: "i < 16" "i < n \<and> ae_ip (c ! i) = ip \<or> i = n \<and> (\<forall>j < n. ae_ip (c ! j) \<noteq> ip)"
  defines "c' \<equiv> c[i := \<lparr>ae_ip = ip, ae_mac = mac, ae_valid = True\<rparr>]"
  shows "cache_ok (max n (Suc i)) c'" "arp_lookup c' = (arp_lookup c)(ip \<mapsto> mac)"
proof -
  have len: "length c = 16" using ok by (simp add: cache_ok_def)
  have at: "c' ! j = (if j = i then \<lparr>ae_ip = ip, ae_mac = mac, ae_valid = True\<rparr> else c ! j)" for j
    using i(1) len by (simp add: c'_def nth_list_update)
  have other: "j < n \<Longrightarrow> j \<noteq> i \<Longrightarrow> ae_ip (c ! j) \<noteq> ip" for j
    using ok i(2) by (auto simp: cache_ok_def)
  have n: "max n (Suc i) \<le> 16" using ok i(1) by (simp add: cache_ok_def)
  have below: "j < max n (Suc i) \<longleftrightarrow> j < n \<or> j = i" for j using i(2) by auto
  show ok': "cache_ok (max n (Suc i)) c'"
    unfolding cache_ok_def below
  proof (intro conjI allI impI)
    fix j :: nat assume "j < 16"
    then show "ae_valid (c' ! j) = (j < n \<or> j = i)" using ok unfolding at by (auto simp: cache_ok_def)
  next
    fix j k assume "j < n \<or> j = i" "k < n \<or> k = i" "ae_ip (c' ! j) = ae_ip (c' ! k)"
    then show "j = k" using ok other[of j] other[of k] unfolding at by (auto simp: cache_ok_def split: if_splits)
  qed (use len n c'_def in auto)
  show "arp_lookup c' = (arp_lookup c)(ip \<mapsto> mac)"
  proof
    fix a
    show "arp_lookup c' a = ((arp_lookup c)(ip \<mapsto> mac)) a"
    proof (cases "a = ip")
      case True
      then show ?thesis using arp_lookup_iff[OF ok', of ip mac] below at by auto
    next
      case False
      have "arp_lookup c' a = Some m \<longleftrightarrow> arp_lookup c a = Some m" for m
        unfolding arp_lookup_iff[OF ok] arp_lookup_iff[OF ok'] below at using False i(2) by auto
      then have "arp_lookup c' a = arp_lookup c a" by (cases "arp_lookup c a"; cases "arp_lookup c' a") auto
      then show ?thesis using False by simp
    qed
  qed
qed

text \<open>
  The cache is a map from addresses to hardware addresses: every ARP packet enters its sender, in place of what
  was known of it or as a new address, as long as there are fewer than 16; a new address that comes when the cache is
  full is left out. No other address changes, and none is ever held twice.
\<close>

theorem cache_update_correct:
  assumes "cache_ok n c"
  shows "(\<exists>m. cache_ok m (cache_update ip mac c)) \<and>
    arp_lookup (cache_update ip mac c) =
      (if arp_lookup c ip = None \<and> n = 16 then arp_lookup c else (arp_lookup c)(ip \<mapsto> mac))"
proof (cases "\<exists>i < n. ae_ip (c ! i) = ip")
  case True
  then obtain i where i: "i < n" "ae_ip (c ! i) = ip" by blast
  have "i < 16" using i(1) assms by (simp add: cache_ok_def)
  moreover have "arp_lookup c ip \<noteq> None" using i by (auto simp: arp_lookup_none[OF assms])
  ultimately show ?thesis
    using cache_put[OF assms, of i ip mac] i cache_find_known[OF assms i(1)] by (auto simp: cache_update_def)
next
  case False
  then have new: "arp_lookup c ip = None" "\<forall>i < n. ae_ip (c ! i) \<noteq> ip" by (auto simp: arp_lookup_none[OF assms])
  show ?thesis
  proof (cases "n < 16")
    case True
    then show ?thesis using cache_put[OF assms True, of ip mac] new cache_find_new[OF assms new(2)]
      by (auto simp: cache_update_def)
  next
    case full: False
    then have "n = 16" using assms by (simp add: cache_ok_def)
    then show ?thesis using assms new cache_find_new[OF assms new(2)] by (auto simp: cache_update_def)
  qed
qed

text \<open>A cache with two addresses, one of which moves to other hardware.\<close>

definition blank_entry :: arp_entry where
  "blank_entry = \<lparr>ae_ip = 0, ae_mac = replicate 6 0, ae_valid = False\<rparr>"

definition sample_cache :: "arp_entry list" where
  "sample_cache = [\<lparr>ae_ip = 0x0A000202, ae_mac = replicate 6 1, ae_valid = True\<rparr>,
     \<lparr>ae_ip = 0x0A000203, ae_mac = replicate 6 2, ae_valid = True\<rparr>] @ replicate 14 blank_entry"

lemma sample_cache_ok: "cache_ok 2 sample_cache" "length sample_cache = 16"
proof -
  have "ae_valid (sample_cache ! i) \<longleftrightarrow> i < 2" if "i < 16" for i
    using that by (auto simp: sample_cache_def blank_entry_def nth_append less_Suc_eq numeral_eq_Suc nth_Cons split: nat.splits)
  then show "cache_ok 2 sample_cache" by (auto simp: cache_ok_def sample_cache_def less_2_cases_iff)
qed (simp add: sample_cache_def)

lemma cache_update_correct_witness:
  "arp_lookup (cache_update 0x0A000203 (replicate 6 3) sample_cache) = (arp_lookup sample_cache)(0x0A000203 \<mapsto> replicate 6 3)"
  using cache_update_correct[OF sample_cache_ok(1), of "0x0A000203" "replicate 6 3"] by simp

section \<open>ARP requests are answered\<close>

lemma send_frame_run:
  assumes wf: "ipc_wf (ns_ipc s) ts" and port: "ne2000_port s = int q" "q < 32" "p_in_use (ports (ns_ipc s) ! q)"
    and room: "length (port_contents (ports (ns_ipc s) ! q)) < 16" and pid: "current_pid (ns_ipc s) = Some pid"
    and len: "unat len \<le> 256" "unat len \<le> length frame"
  shows "\<exists>k. send_frame_to_driver frame len s = Some (s\<lparr>ns_ipc := k\<rparr>) \<and> ipc_wf k ts \<and>
    port_contents (ports k ! q) = port_contents (ports (ns_ipc s) ! q) @ [(pid, 0, 2, take (unat len) frame)]"
proof -
  have q: "unat (of_int (int q) :: u32) = q" using port(2) by (simp add: unat_of_nat take_bit_nat_eq_self)
  obtain k p' m where k: "ipc_send_from_port 0 (of_int (int q)) 2 (Some frame) len (ns_ipc s) = Some (0, k)" "ipc_wf k ts"
      "ports k = (ports (ns_ipc s))[q := p']" "port_contents p' = port_contents (ports (ns_ipc s) ! q) @ [visible m]"
      "m_sender_pid m = pid" "m_sender_port m = 0" "m_type m = 2" "m_size m = len"
      "\<forall>bs. Some frame = Some bs \<longrightarrow> take (unat len) (m_data m) = take (unat len) bs"
    using send_run[OF wf, of "of_int (int q)" len "Some frame" pid 0 2] port(2,3) room pid len unfolding q by auto
  have "visible m = (pid, 0, 2, take (unat len) frame)" using k(5-9) by (simp add: visible_def)
  moreover have "length (ports (ns_ipc s)) = 32" using wf by (simp add: ipc_wf_def)
  ultimately show ?thesis using k(1-4) port(1,2)
    by (auto simp: send_frame_to_driver_def ipc_send_def)
qed

lemma ntohs_bytes: "ntohs (of_le16 (a # b # xs)) = push_bit 8 (ucast a) OR ucast b"
  using ntohs_word[of a b] by simp

lemma htons_bytes:
  "le16 (htons 1) = [0, 1]" "le16 (htons 0x0800) = [8, 0]" "le16 (htons (ucast ARP_OP_REPLY)) = [0, 2]"
  "le32 (htonl my_ip) = [10, 0, 2, 15]"
  by (simp_all add: le16_def le32_def htons_def htonl_def my_ip_def ARP_OP_REPLY_def)

text \<open>An ARP packet by its bytes.\<close>

definition arp_frame :: "bytes \<Rightarrow> bytes \<Rightarrow> bytes \<Rightarrow> u8 \<Rightarrow> bytes \<Rightarrow> bytes \<Rightarrow> bytes \<Rightarrow> bytes \<Rightarrow> bytes" where
  "arp_frame dst src head op smac sip tmac tip = dst @ src @ [8, 6] @ head @ [0, op] @ smac @ sip @ tmac @ tip"

lemma length_4: "length xs = 4 \<Longrightarrow> \<exists>a b c d. xs = [a, b, c, d]"
  by (simp add: numeral_eq_Suc length_Suc_conv) blast

lemma arp_reply_bytes:
  assumes "length (arp_sender_mac arp) = 6"
  shows "arp_reply arp = arp_frame (arp_sender_mac arp) my_mac [0, 1, 8, 0, 6, 4] 2 my_mac [10, 0, 2, 15]
    (arp_sender_mac arp) (le32 (arp_sender_ip arp))"
  by (simp add: arp_reply_def arp_bytes_def arp_frame_def htons_bytes)


text \<open>The sample: port 0 of the sample kernel stands for the driver's.\<close>

definition sample_netstack :: netstack where
  "sample_netstack = \<lparr>arp_cache = sample_cache, ne2000_port = 0, ns_ipc = sample_ipc\<rparr>"


section \<open>Echo requests are not answered\<close>

text \<open>
  The reply code of \<open>process_icmp\<close> is never reached from a frame: an echo request goes back to the driver, whoever it
  is for. The other frames change nothing but for ARP.
\<close>

lemma echo_request_bounced:
  assumes "process_ethernet_frame frame len s = Some s'"
  shows "s' = s \<or> (\<exists>arp. process_arp arp s = Some s') \<or> send_frame_to_driver frame len s = Some s'"
proof -
  have icmp: "s' = s" if "process_icmp h d n src s = Some s'" "icmp_type h \<noteq> ICMP_TYPE_ECHO_REQUEST" for h d n src
    using that by (simp add: process_icmp_def split: if_splits)
  have ip: "s' = s" if "process_ip h pl n s = Some s'"
      "ip_protocol h = IP_PROTO_ICMP \<and> n \<ge> 8 \<longrightarrow> icmp_type (icmp_of pl) \<noteq> ICMP_TYPE_ECHO_REQUEST" for h pl n
    using that icmp by (auto simp: process_ip_def split: if_splits bind_splits)
  have word: "(28 :: u32) \<le> n" if "20 \<le> n" "8 \<le> n - 20" for n
    using that by (simp add: word_le_nat_alt unat_sub)
  show ?thesis using assms word[of "len - 14"]
    unfolding process_ethernet_frame_def Let_def
    by (auto simp: bind_eq_Some_conv dest!: ip simp del: of_le16.simps split: if_splits)
qed

end
