(* ===== verification/Mlfq.thy ===== *)
theory Mlfq
  imports Task
begin

text \<open>
  The scheduler with four priority queues (\<open>src/src/kernel/task_mlfq.c\<close>), written against the same
  header as \<open>task.c\<close>: tasks that sleep and wake, fork, exit and are waited for. Names that both files
  define have the prefix \<open>mq_\<close> here. The theory reads the four circular lists as queues, shows what adding,
  removing and choosing a task do to them, that the scheduler never passes over a task of higher
  priority, that sleeping tasks wake when their time has come, and that all of this
  keeps the lists well-formed, and finds where a task is lost or a dead one stays in a list.
\<close>

section \<open>Priorities\<close>

text \<open>The code compares priorities as numbers: a greater number is a lower priority.\<close>

fun prio_number :: "task_priority \<Rightarrow> nat" where
  "prio_number PRIORITY_HIGH = 0"
| "prio_number PRIORITY_NORMAL = 1"
| "prio_number PRIORITY_LOW = 2"
| "prio_number PRIORITY_IDLE = 3"

instantiation task_priority :: linorder
begin

definition less_eq_task_priority :: "task_priority \<Rightarrow> task_priority \<Rightarrow> bool" where
  "p \<le> q \<longleftrightarrow> prio_number p \<le> prio_number q"

definition less_task_priority :: "task_priority \<Rightarrow> task_priority \<Rightarrow> bool" where
  "p < q \<longleftrightarrow> prio_number p < prio_number q"

instance
proof
  fix p q :: task_priority
  show "p \<le> q \<Longrightarrow> q \<le> p \<Longrightarrow> p = q"
    by (cases p; cases q) (simp_all add: less_eq_task_priority_def)
qed (auto simp: less_eq_task_priority_def less_task_priority_def)

end

definition PRIORITY_LEVELS :: nat where "PRIORITY_LEVELS = 4"

definition priority_levels :: "task_priority list" where
  "priority_levels = [PRIORITY_HIGH, PRIORITY_NORMAL, PRIORITY_LOW, PRIORITY_IDLE]"

fun priority_quantum :: "task_priority \<Rightarrow> u32" where
  "priority_quantum PRIORITY_HIGH = 10"
| "priority_quantum PRIORITY_NORMAL = 5"
| "priority_quantum PRIORITY_LOW = 3"
| "priority_quantum PRIORITY_IDLE = 1"

section \<open>State\<close>

text \<open>The static variables of the file, with the heap, the store of tasks, the registers and the page tables.\<close>

record mlfq =
  mq_heap :: heap
  mq_mem :: "ptr \<rightharpoonup> task"
  mq_tasks :: "ptr list"
  mq_current :: ptr
  ready_queues :: "task_priority \<Rightarrow> ptr"
  mq_next_pid :: u32
  mq_enabled :: bool
  mq_ticks :: u32
  mq_cpu :: registers_state
  mq_paging :: paging

definition mq_upd :: "ptr \<Rightarrow> (task \<Rightarrow> task) \<Rightarrow> mlfq \<Rightarrow> mlfq option" where
  "mq_upd p f s = do { t \<leftarrow> mq_mem s p; Some (s\<lparr>mq_mem := (mq_mem s)(p \<mapsto> f t)\<rparr>) }"

definition set_queue :: "task_priority \<Rightarrow> ptr \<Rightarrow> mlfq \<Rightarrow> mlfq" where
  "set_queue prio p s = s\<lparr>ready_queues := (ready_queues s)(prio := p)\<rparr>"

section \<open>Queues\<close>

definition queue_add :: "ptr \<Rightarrow> mlfq \<Rightarrow> mlfq option" where
  "queue_add task s = do {
     t \<leftarrow> mq_mem s task;
     let prio = t_priority t;
     let last = ready_queues s prio;
     if last = NULL
     then mq_upd task (\<lambda>t. t\<lparr>t_next := task\<rparr>) (set_queue prio task s)
     else do {
       l \<leftarrow> mq_mem s last;
       s \<leftarrow> mq_upd task (\<lambda>t. t\<lparr>t_next := t_next l\<rparr>) s;
       s \<leftarrow> mq_upd last (\<lambda>t. t\<lparr>t_next := task\<rparr>) s;
       Some (set_queue prio task s)
     }
   }"

text \<open>The loops along a circular list, from \<open>cur\<close> until \<open>start\<close> comes again; \<open>NULL\<close> when nothing is found.\<close>

partial_function (option) find_prev :: "(ptr \<rightharpoonup> task) \<Rightarrow> ptr \<Rightarrow> ptr \<Rightarrow> ptr \<Rightarrow> ptr option" where
  "find_prev m task start cur = do {
     c \<leftarrow> m cur;
     if t_next c = task then Some cur
     else if t_next c = start then Some NULL
     else find_prev m task start (t_next c)
   }"

definition queue_remove :: "ptr \<Rightarrow> mlfq \<Rightarrow> mlfq option" where
  "queue_remove task s = do {
     t \<leftarrow> mq_mem s task;
     let prio = t_priority t;
     let last = ready_queues s prio;
     if last = NULL then Some s
     else do {
       prev \<leftarrow> find_prev (mq_mem s) task last last;
       if prev = NULL then Some s
       else do {
         s \<leftarrow> mq_upd prev (\<lambda>p. p\<lparr>t_next := t_next t\<rparr>) s;
         t \<leftarrow> mq_mem s task;
         Some (if last = task then set_queue prio (if t_next t = task then NULL else prev) s else s)
       }
     }
   }"

definition runnable :: "task \<Rightarrow> bool" where
  "runnable t \<longleftrightarrow> t_state t = TASK_READY \<or> t_state t = TASK_RUNNING"

partial_function (option) find_ready :: "(ptr \<rightharpoonup> task) \<Rightarrow> ptr \<Rightarrow> ptr \<Rightarrow> ptr option" where
  "find_ready m start cur = do {
     c \<leftarrow> m cur;
     if runnable c then Some cur
     else if t_next c = start then Some NULL
     else find_ready m start (t_next c)
   }"

fun next_ready_from :: "task_priority list \<Rightarrow> mlfq \<Rightarrow> (ptr \<times> mlfq) option" where
  "next_ready_from [] s = do { idle \<leftarrow> arr_get (mq_tasks s) 0; Some (idle, s) }"
| "next_ready_from (prio # ps) s =
     (if ready_queues s prio = NULL then next_ready_from ps s
      else do {
        last \<leftarrow> mq_mem s (ready_queues s prio);
        c \<leftarrow> find_ready (mq_mem s) (t_next last) (t_next last);
        if c = NULL then next_ready_from ps s else Some (c, set_queue prio c s)
      })"

definition get_next_ready_task :: "mlfq \<Rightarrow> (ptr \<times> mlfq) option" where
  "get_next_ready_task s = next_ready_from priority_levels s"

section \<open>Creating tasks\<close>

definition mq_idle_task :: "task \<Rightarrow> task" where
  "mq_idle_task old = old\<lparr>t_pid := 0, t_name := cstr ''idle'', t_state := TASK_RUNNING, t_priority := PRIORITY_IDLE,
     t_base_priority := PRIORITY_IDLE, t_quantum := priority_quantum PRIORITY_IDLE,
     t_time_slice := priority_quantum PRIORITY_IDLE, t_ticks_used := 0, t_total_ticks := 0, t_context_switches := 0,
     t_created_time := 0, t_sleep_until := 0, t_wait_on := NULL, t_next := NULL, t_parent := NULL, t_child := NULL,
     t_sibling := NULL, t_exit_code := 0\<rparr>"

definition mq_task_init :: "task \<Rightarrow> mlfq \<Rightarrow> mlfq option" where
  "mq_task_init old s = do {
     (p, h) \<leftarrow> kmalloc sizeof_task (mq_heap s);
     require (p \<noteq> NULL);
     Some (s\<lparr>mq_heap := h, mq_mem := (mq_mem s)(p \<mapsto> mq_idle_task old), mq_tasks := (replicate MAX_TASKS NULL)[0 := p],
       mq_current := p, mq_ticks := 0, mq_enabled := True\<rparr>)
   }"

text \<open>
  The first free place of the table from 1 on, if there is one. The member \<open>iopb\<close> is not set by \<open>task_create\<close>: it keeps
  what the memory held.
\<close>

definition table_add :: "ptr \<Rightarrow> ptr list \<Rightarrow> ptr list" where
  "table_add p ts = (case find_first 1 (MAX_TASKS - 1) (\<lambda>i. ts ! i = NULL) of Some i \<Rightarrow> ts[i := p] | None \<Rightarrow> ts)"

definition mq_new_task :: "cstring \<Rightarrow> ptr \<Rightarrow> u32 \<Rightarrow> ptr \<Rightarrow> mlfq \<Rightarrow> task" where
  "mq_new_task name entry_point kernel_stack old_iopb s =
     \<lparr>t_pid = mq_next_pid s, t_name = strncpy_buf 32 name, t_state = TASK_READY,
      t_regs = \<lparr>r_eax = 0, r_ebx = 0, r_ecx = 0, r_edx = 0, r_esi = 0, r_edi = 0, r_ebp = 0, r_esp = kernel_stack,
        r_eip = entry_point, r_eflags = 0x202, r_cr3 = paging_get_kernel_directory (mq_paging s)\<rparr>,
      t_kernel_stack = kernel_stack, t_time_slice = priority_quantum PRIORITY_NORMAL, t_next = NULL,
      t_priority = PRIORITY_NORMAL, t_base_priority = PRIORITY_NORMAL, t_quantum = priority_quantum PRIORITY_NORMAL,
      t_ticks_used = 0, t_total_ticks = 0, t_context_switches = 0, t_created_time = mq_ticks s, t_sleep_until = 0,
      t_wait_on = NULL, t_parent = mq_current s, t_child = NULL, t_sibling = NULL, t_exit_code = 0, t_iopb = old_iopb\<rparr>"

definition mq_task_create :: "ptr \<Rightarrow> cstring \<Rightarrow> ptr \<Rightarrow> mlfq \<Rightarrow> (u32 \<times> mlfq) option" where
  "mq_task_create old_iopb name entry_point s = do {
     (p, h) \<leftarrow> kmalloc sizeof_task (mq_heap s);
     if p = NULL then Some (0, s\<lparr>mq_heap := h\<rparr>)
     else do {
       (stack, h) \<leftarrow> kmalloc 4096 h;
       let t = mq_new_task name entry_point (stack + 4096) old_iopb s;
       s' \<leftarrow> queue_add p (s\<lparr>mq_heap := h, mq_next_pid := mq_next_pid s + 1, mq_mem := (mq_mem s)(p \<mapsto> t),
         mq_tasks := table_add p (mq_tasks s)\<rparr>);
       Some (mq_next_pid s, s')
     }
   }"

definition mq_task_get_current :: "mlfq \<Rightarrow> ptr" where
  "mq_task_get_current s = mq_current s"

section \<open>Sleeping and waking\<close>

definition mq_task_wake :: "ptr \<Rightarrow> mlfq \<Rightarrow> mlfq option" where
  "mq_task_wake task s =
     (if task = NULL then Some s
      else do {
        t \<leftarrow> mq_mem s task;
        if t_state t \<noteq> TASK_SLEEPING then Some s
        else do {
          s \<leftarrow> mq_upd task (\<lambda>t. t\<lparr>t_sleep_until := 0, t_state := TASK_READY, t_ticks_used := 0\<rparr>) s;
          s \<leftarrow> mq_upd task (\<lambda>t. if t_priority t > t_base_priority t
              then t\<lparr>t_priority := t_base_priority t, t_quantum := priority_quantum (t_base_priority t)\<rparr> else t) s;
          queue_add task s
        }
      })"

definition mq_task_check_sleeping :: "mlfq \<Rightarrow> mlfq option" where
  "mq_task_check_sleeping = for_range 0 MAX_TASKS (\<lambda>i s. do {
     task \<leftarrow> arr_get (mq_tasks s) i;
     if task = NULL then Some s
     else do {
       t \<leftarrow> mq_mem s task;
       if t_state t = TASK_SLEEPING \<and> t_sleep_until t > 0 \<and> mq_ticks s \<ge> t_sleep_until t
       then mq_task_wake task s else Some s
     }
   })"

section \<open>Scheduling\<close>

text \<open>The loop of attempts; after 32 of them the idle task is taken.\<close>

fun pick_task :: "nat \<Rightarrow> mlfq \<Rightarrow> mlfq option" where
  "pick_task 0 s = do {
     (c, s) \<leftarrow> get_next_ready_task s;
     idle \<leftarrow> arr_get (mq_tasks s) 0;
     Some (s\<lparr>mq_current := idle\<rparr>)
   }"
| "pick_task (Suc n) s = do {
     (c, s) \<leftarrow> get_next_ready_task s;
     t \<leftarrow> mq_mem s c;
     if t_state t = TASK_ZOMBIE \<or> t_state t = TASK_BLOCKED then pick_task n s else Some (s\<lparr>mq_current := c\<rparr>)
   }"

definition mq_task_switch :: "ptr \<Rightarrow> ptr \<Rightarrow> mlfq \<Rightarrow> mlfq option" where
  "mq_task_switch old new s = do {
     s \<leftarrow> mq_upd old (\<lambda>t. t\<lparr>t_regs := save_context (mq_cpu s) (t_regs t)\<rparr>) s;
     t \<leftarrow> mq_mem s new;
     Some (s\<lparr>mq_cpu := load_context (new + offset_regs) (t_regs t)\<rparr>)
   }"

definition mq_switch_next :: "mlfq \<Rightarrow> mlfq option" where
  "mq_switch_next s = do {
     let old_task = mq_current s;
     s \<leftarrow> pick_task 32 s;
     s \<leftarrow> mq_upd (mq_current s) (\<lambda>t. t\<lparr>t_time_slice := t_quantum t, t_state := TASK_RUNNING\<rparr>) s;
     c \<leftarrow> mq_mem s (mq_current s);
     s \<leftarrow> mq_upd old_task (\<lambda>t. if t_state t = TASK_RUNNING
         then t\<lparr>t_state := TASK_READY, t_time_slice := t_quantum c\<rparr> else t) s;
     if old_task \<noteq> mq_current s then mq_task_switch old_task (mq_current s) s else Some s
   }"

definition mq_task_schedule :: "mlfq \<Rightarrow> mlfq option" where
  "mq_task_schedule s =
     (if \<not> mq_enabled s then Some s
      else do {
        let s = s\<lparr>mq_ticks := mq_ticks s + 1\<rparr>;
        s \<leftarrow> (if mq_current s \<noteq> NULL
          then mq_upd (mq_current s) (\<lambda>t. if t_state t = TASK_RUNNING
              then t\<lparr>t_total_ticks := t_total_ticks t + 1, t_ticks_used := t_ticks_used t + 1\<rparr> else t) s
          else Some s);
        s \<leftarrow> mq_task_check_sleeping s;
        s \<leftarrow> mq_upd (mq_current s) (\<lambda>t. if t_time_slice t > 0 then t\<lparr>t_time_slice := t_time_slice t - 1\<rparr> else t) s;
        c \<leftarrow> mq_mem s (mq_current s);
        if t_time_slice c = 0 \<or> t_state c = TASK_ZOMBIE \<or> t_state c = TASK_BLOCKED then mq_switch_next s else Some s
      })"

definition mq_task_yield :: "mlfq \<Rightarrow> mlfq option" where
  "mq_task_yield s =
     (if \<not> mq_enabled s then Some s
      else do {
        s \<leftarrow> mq_upd (mq_current s) (\<lambda>t. t\<lparr>t_time_slice := 0\<rparr>) s;
        mq_task_schedule s
      })"

definition mq_task_sleep :: "u32 \<Rightarrow> mlfq \<Rightarrow> mlfq option" where
  "mq_task_sleep ticks s =
     (if mq_current s = NULL \<or> ticks = 0 then Some s
      else do {
        s \<leftarrow> mq_upd (mq_current s) (\<lambda>t. t\<lparr>t_sleep_until := mq_ticks s + ticks, t_state := TASK_SLEEPING\<rparr>) s;
        s \<leftarrow> queue_remove (mq_current s) s;
        s \<leftarrow> mq_upd (mq_current s) (\<lambda>t. t\<lparr>t_time_slice := 0\<rparr>) s;
        mq_task_schedule s
      })"

definition mq_task_set_priority :: "ptr \<Rightarrow> nat \<Rightarrow> mlfq \<Rightarrow> mlfq option" where
  "mq_task_set_priority task priority s =
     (if task = NULL \<or> priority \<ge> PRIORITY_LEVELS then Some s
      else do {
        let prio = priority_levels ! priority;
        s \<leftarrow> queue_remove task s;
        s \<leftarrow> mq_upd task (\<lambda>t. t\<lparr>t_priority := prio, t_base_priority := prio, t_quantum := priority_quantum prio,
          t_ticks_used := 0\<rparr>) s;
        t \<leftarrow> mq_mem s task;
        if t_state t = TASK_READY then queue_add task s else Some s
      })"

definition mq_task_get_priority :: "ptr \<Rightarrow> mlfq \<Rightarrow> task_priority option" where
  "mq_task_get_priority task s = (if task \<noteq> NULL then map_option t_priority (mq_mem s task) else Some PRIORITY_IDLE)"

definition mq_task_get_ticks :: "mlfq \<Rightarrow> u32" where
  "mq_task_get_ticks s = mq_ticks s"

section \<open>Processes\<close>

definition mq_task_find_by_pid :: "int \<Rightarrow> mlfq \<Rightarrow> ptr option" where
  "mq_task_find_by_pid pid s = do {
     require (\<forall>i<MAX_TASKS. mq_tasks s ! i \<noteq> NULL \<longrightarrow> mq_mem s (mq_tasks s ! i) \<noteq> None);
     Some (case find_first 0 MAX_TASKS (\<lambda>i. mq_tasks s ! i \<noteq> NULL \<and>
         map_option t_pid (mq_mem s (mq_tasks s ! i)) = Some (of_int pid)) of
       Some i \<Rightarrow> mq_tasks s ! i | None \<Rightarrow> NULL)
   }"

text \<open>The copy of the parent that both forks start from.\<close>

definition mq_task_fork :: "mlfq \<Rightarrow> (int \<times> mlfq) option" where
  "mq_task_fork s =
     (if mq_current s = NULL then Some (- 1, s)
      else do {
        (p, h) \<leftarrow> kmalloc sizeof_task (mq_heap s);
        if p = NULL then Some (- 1, s\<lparr>mq_heap := h\<rparr>)
        else do {
          parent \<leftarrow> mq_mem s (mq_current s);
          (stack, h) \<leftarrow> kmalloc 4096 h;
          let child = parent\<lparr>t_pid := mq_next_pid s, t_kernel_stack := stack + 4096,
            t_regs := (t_regs parent)\<lparr>r_esp := stack + 4096, r_eax := 0\<rparr>, t_parent := mq_current s, t_child := NULL,
            t_sibling := t_child parent, t_exit_code := 0\<rparr>;
          s' \<leftarrow> mq_upd (mq_current s) (\<lambda>t. t\<lparr>t_child := p\<rparr>) (s\<lparr>mq_heap := h, mq_next_pid := mq_next_pid s + 1,
            mq_mem := (mq_mem s)(p \<mapsto> child), mq_tasks := table_add p (mq_tasks s)\<rparr>);
          s' \<leftarrow> queue_add p s';
          Some (sint (mq_next_pid s), s')
        }
      })"

record trap_registers =
  tr_edi :: u32
  tr_esi :: u32
  tr_ebp :: u32
  tr_esp :: u32
  tr_ebx :: u32
  tr_edx :: u32
  tr_ecx :: u32
  tr_eip :: u32
  tr_eflags :: u32
  tr_useresp :: u32

text \<open>The page directory of the child, \<open>NULL\<close> when the parent's cannot be copied.\<close>

definition fork_directory :: "ptr \<Rightarrow> paging \<Rightarrow> (ptr \<times> paging) option" where
  "fork_directory parent_dir pg =
     (let kernel_dir = paging_get_kernel_directory pg in
      if parent_dir = kernel_dir \<or> parent_dir = NULL then Some (kernel_dir, pg) else paging_clone_directory parent_dir pg)"

definition fork_regs :: "trap_registers \<Rightarrow> ptr \<Rightarrow> registers_state" where
  "fork_regs regs dir = \<lparr>r_eax = 0, r_ebx = tr_ebx regs, r_ecx = tr_ecx regs, r_edx = tr_edx regs, r_esi = tr_esi regs,
     r_edi = tr_edi regs, r_ebp = tr_ebp regs, r_esp = (if tr_useresp regs \<noteq> 0 then tr_useresp regs else tr_esp regs),
     r_eip = tr_eip regs, r_eflags = tr_eflags regs, r_cr3 = dir\<rparr>"

definition mq_task_fork_with_regs :: "trap_registers option \<Rightarrow> mlfq \<Rightarrow> (int \<times> mlfq) option" where
  "mq_task_fork_with_regs regs s =
     (case regs of None \<Rightarrow> Some (- 1, s) | Some regs \<Rightarrow>
      if mq_current s = NULL then Some (- 1, s)
      else do {
        (p, h) \<leftarrow> kmalloc sizeof_task (mq_heap s);
        if p = NULL then Some (- 1, s\<lparr>mq_heap := h\<rparr>)
        else do {
          parent \<leftarrow> mq_mem s (mq_current s);
          let s = s\<lparr>mq_next_pid := mq_next_pid s + 1\<rparr>;
          (stack, h) \<leftarrow> kmalloc 4096 h;
          if stack + 4096 = 0 then do { h \<leftarrow> kfree p h; Some (- 1, s\<lparr>mq_heap := h\<rparr>) }
          else do {
            (dir, pg) \<leftarrow> fork_directory (r_cr3 (t_regs parent)) (mq_paging s);
            let s = s\<lparr>mq_paging := pg\<rparr>;
            if dir = NULL
            then do { h \<leftarrow> kfree stack h; h \<leftarrow> kfree p h; Some (- 1, s\<lparr>mq_heap := h\<rparr>) }
            else do {
              let child = parent\<lparr>t_pid := mq_next_pid s - 1, t_kernel_stack := stack + 4096, t_regs := fork_regs regs dir,
                t_parent := mq_current s, t_child := NULL, t_sibling := t_child parent, t_exit_code := 0,
                t_state := TASK_READY, t_time_slice := t_quantum parent\<rparr>;
              s \<leftarrow> mq_upd (mq_current s) (\<lambda>t. t\<lparr>t_child := p\<rparr>)
                (s\<lparr>mq_heap := h, mq_mem := (mq_mem s)(p \<mapsto> child), mq_tasks := table_add p (mq_tasks s)\<rparr>);
              s \<leftarrow> queue_add p s;
              Some (sint (t_pid child), s)
            }
          }
        }
      })"

text \<open>The walk over the children of a task that exits.\<close>

partial_function (option) orphan_from :: "ptr \<Rightarrow> ptr \<Rightarrow> mlfq \<Rightarrow> mlfq option" where
  "orphan_from idle child s =
     (if child = NULL then Some s
      else do {
        s \<leftarrow> mq_upd child (\<lambda>t. t\<lparr>t_parent := idle\<rparr>) s;
        t \<leftarrow> mq_mem s child;
        orphan_from idle (t_sibling t) s
      })"

text \<open>\<open>task_exit\<close> up to the endless loop that follows the switch.\<close>

definition mq_task_exit :: "int \<Rightarrow> mlfq \<Rightarrow> mlfq option" where
  "mq_task_exit exit_code s =
     (if mq_current s = NULL then Some s
      else do {
        s \<leftarrow> mq_upd (mq_current s) (\<lambda>t. t\<lparr>t_exit_code := exit_code, t_state := TASK_ZOMBIE, t_time_slice := 0\<rparr>) s;
        t \<leftarrow> mq_mem s (mq_current s);
        s \<leftarrow> (if t_child t = NULL then Some s else do { idle \<leftarrow> arr_get (mq_tasks s) 0; orphan_from idle (t_child t) s });
        mq_task_schedule s
      })"

text \<open>The child before \<open>child\<close> in the list of children from \<open>cur\<close> on (\<open>NULL\<close> for the first), if \<open>child\<close> is in it.\<close>

partial_function (option) sibling_before :: "(ptr \<rightharpoonup> task) \<Rightarrow> ptr \<Rightarrow> ptr \<Rightarrow> ptr \<Rightarrow> ptr option option" where
  "sibling_before m child prev cur =
     (if cur = NULL then Some None
      else if cur = child then Some (Some prev)
      else do { c \<leftarrow> m cur; sibling_before m child cur (t_sibling c) })"

definition unlink_child :: "ptr \<Rightarrow> mlfq \<Rightarrow> mlfq option" where
  "unlink_child child s = do {
     t \<leftarrow> mq_mem s (mq_current s);
     before \<leftarrow> sibling_before (mq_mem s) child NULL (t_child t);
     case before of None \<Rightarrow> Some s
     | Some prev \<Rightarrow> do {
         c \<leftarrow> mq_mem s child;
         if prev \<noteq> NULL then mq_upd prev (\<lambda>t. t\<lparr>t_sibling := t_sibling c\<rparr>) s
         else mq_upd (mq_current s) (\<lambda>t. t\<lparr>t_child := t_sibling c\<rparr>) s
       }
   }"

definition mq_task_waitpid :: "int \<Rightarrow> mlfq \<Rightarrow> (int \<times> int option \<times> mlfq) option" where
  "mq_task_waitpid pid s =
     (if mq_current s = NULL then Some (- 1, None, s)
      else do {
        child \<leftarrow> mq_task_find_by_pid pid s;
        if child = NULL then Some (- 1, None, s)
        else do {
          c \<leftarrow> mq_mem s child;
          if t_parent c \<noteq> mq_current s then Some (- 1, None, s)
          else if t_state c \<noteq> TASK_ZOMBIE then Some (- 2, None, s)
          else do {
            s \<leftarrow> unlink_child child s;
            let table = (case find_first 0 MAX_TASKS (\<lambda>i. mq_tasks s ! i = child) of
                Some i \<Rightarrow> (mq_tasks s)[i := NULL] | None \<Rightarrow> mq_tasks s);
            pg \<leftarrow> (if r_cr3 (t_regs c) \<noteq> NULL \<and> r_cr3 (t_regs c) \<noteq> paging_get_kernel_directory (mq_paging s)
              then paging_free_directory (r_cr3 (t_regs c)) (mq_paging s) else Some (mq_paging s));
            h \<leftarrow> kfree (t_kernel_stack c - 4096) (mq_heap s);
            h \<leftarrow> kfree child h;
            Some (pid, Some (t_exit_code c), s\<lparr>mq_tasks := table, mq_paging := pg, mq_heap := h,
              mq_mem := (mq_mem s)(child := None)\<rparr>)
          }
        }
      })"

section \<open>Circular lists\<close>

text \<open>Every task of a circular list can be its first.\<close>

lemma ring_rotate_to: "ring m rq (as @ bs) \<Longrightarrow> bs \<noteq> [] \<Longrightarrow> \<exists>q. ring m q (bs @ as)"
proof (induction as arbitrary: rq bs)
  case Nil
  then show ?case by auto
next
  case (Cons a as)
  have "ring m a (as @ (bs @ [a]))" using ring_rotate[of m rq a "as @ bs"] Cons.prems(1) by simp
  from Cons.IH[OF this] show ?case by simp
qed

lemma ring_last: "ring m q ts \<Longrightarrow> ring m (last ts) ts"
  by (simp add: ring_def)

lemma ring_drop_last:
  assumes r: "ring m p (xs @ [q] @ [p])" and t: "m p = Some t" "m q = Some u"
  shows "ring (m(q \<mapsto> u\<lparr>t_next := t_next t\<rparr>)) q (xs @ [q])"
proof -
  let ?m = "m(q \<mapsto> u\<lparr>t_next := t_next t\<rparr>)" and ?h = "hd (xs @ [q])"
  have "hd (xs @ [q] @ [p]) = ?h" by (cases xs) simp_all
  then have d: "distinct (xs @ [q, p])" and pa: "path m ?h ((xs @ [q]) @ [p]) ?h"
    using r unfolding ring_def by simp_all
  have "path m ?h xs q" "link m p = Some ?h" using pa unfolding path_snoc by auto
  moreover have "path ?m ?h xs q = path m ?h xs q" by (rule path_cong) (use d in \<open>auto simp: link_def\<close>)
  ultimately have "path ?m ?h (xs @ [q]) ?h" unfolding path_snoc using t by (simp add: link_def)
  then show ?thesis using r d unfolding ring_def by simp
qed

text \<open>Unlinking a task: the one before it (the last one, for the first task) points past it.\<close>

lemma ring_remove:
  assumes r: "ring m rq (as @ p # bs)" and ne: "as @ bs \<noteq> []" and t: "m p = Some t"
  defines "q \<equiv> last (bs @ as)"
  shows "\<exists>u. m q = Some u \<and> ring (m(q \<mapsto> u\<lparr>t_next := t_next t\<rparr>)) (last (as @ bs)) (as @ bs)"
proof -
  obtain c where "ring m c (bs @ (as @ [p]))" using ring_rotate_to[of m rq "as @ [p]" bs] r by (cases "bs = []") auto
  then have "ring m (last (bs @ as @ [p])) ((bs @ as) @ [p])" using ring_last by fastforce
  then have p: "ring m p (butlast (bs @ as) @ [q] @ [p])"
    unfolding q_def using ne by (metis append_assoc append_butlast_last_id append_is_Nil_conv last_snoc)
  obtain u where u: "m q = Some u" using ring_mem[OF p, of q] by auto
  have "ring (m(q \<mapsto> u\<lparr>t_next := t_next t\<rparr>)) q (bs @ as)"
    using ring_drop_last[OF p t u] ne unfolding q_def by (metis append_butlast_last_id append_is_Nil_conv)
  then have "\<exists>c. ring (m(q \<mapsto> u\<lparr>t_next := t_next t\<rparr>)) c (as @ bs)"
    using ring_rotate_to[of _ q bs as] by (cases "as = []") auto
  then show ?thesis using u ring_last by blast
qed

text \<open>The task before \<open>task\<close> on a way from \<open>c\<close> through \<open>zs\<close> to \<open>start\<close>.\<close>

fun before :: "ptr \<Rightarrow> ptr \<Rightarrow> ptr list \<Rightarrow> ptr \<Rightarrow> ptr" where
  "before task c [] start = (if start = task then c else NULL)"
| "before task c (z # zs) start = (if z = task then c else before task z zs start)"

lemma find_prev_path:
  "path m c (c # zs) start \<Longrightarrow> start \<notin> set zs \<Longrightarrow> find_prev m task start c = Some (before task c zs start)"
proof (induction zs arbitrary: c)
  case Nil
  then show ?case by (auto simp: find_prev.simps[of m task start c] split: option.splits)
next
  case (Cons z zs)
  then obtain t where t: "m c = Some t" "t_next t = z" "path m z (z # zs) start" by (auto split: option.splits)
  have "find_prev m task start z = Some (before task z zs start)" using Cons.IH[OF t(3)] Cons.prems(2) by simp
  then show ?case using t Cons.prems(2) by (auto simp: find_prev.simps[of m task start c])
qed

lemma before_in: "task \<notin> set as \<Longrightarrow> before task c (as @ task # bs) start = last (c # as)"
  by (induction as arbitrary: c) auto

lemma before_start: "start \<notin> set zs \<Longrightarrow> before start c zs start = last (c # zs)"
  by (induction zs arbitrary: c) auto

lemma before_none: "task \<notin> set zs \<Longrightarrow> task \<noteq> start \<Longrightarrow> before task c zs start = NULL"
  by (induction zs arbitrary: c) auto

lemma ring_visit:
  assumes "ring m rq ts"
  obtains zs where "ts = zs @ [rq]" "path m rq (rq # zs) rq" "rq \<notin> set zs"
proof -
  obtain zs where zs: "ts = zs @ [rq]" using assms unfolding ring_def by (metis append_butlast_last_id)
  have "path m (hd ts) zs rq" "link m rq = Some (hd ts)" using assms zs unfolding ring_def by (metis path_snoc)+
  then have "path m rq (rq # zs) rq" by (simp add: path_link del: path.simps(2))
  then show ?thesis using that zs assms by (simp add: ring_def)
qed

lemma find_prev_ring:
  assumes r: "ring m rq ts"
  shows "p \<notin> set ts \<Longrightarrow> find_prev m p rq rq = Some NULL"
    and "ts = as @ p # bs \<Longrightarrow> find_prev m p rq rq = Some (if as @ bs = [] then p else last (bs @ as))"
proof -
  obtain zs where zs: "ts = zs @ [rq]" "path m rq (rq # zs) rq" "rq \<notin> set zs" by (rule ring_visit[OF r])
  note f = find_prev_path[OF zs(2,3)]
  show "p \<notin> set ts \<Longrightarrow> find_prev m p rq rq = Some NULL" using f zs(1) by (simp add: before_none)
  have d: "distinct ts" using r by (simp add: ring_def)
  show "find_prev m p rq rq = Some (if as @ bs = [] then p else last (bs @ as))" if ts: "ts = as @ p # bs"
  proof (cases bs rule: rev_cases)
    case Nil
    then have "p = rq" "as = zs" using ts zs(1) by auto
    then show ?thesis using f zs(3) Nil by (simp add: before_start)
  next
    case (snoc cs c)
    then have "c = rq" "zs = as @ p # cs" using ts zs(1) by auto
    moreover have "p \<notin> set as" using d ts by auto
    ultimately show ?thesis using f snoc by (simp add: before_in)
  qed
qed

text \<open>The first task of a list that can run.\<close>

definition can_run :: "(ptr \<rightharpoonup> task) \<Rightarrow> ptr \<Rightarrow> bool" where
  "can_run m p \<longleftrightarrow> (case m p of None \<Rightarrow> False | Some t \<Rightarrow> runnable t)"

lemma find_ready_path:
  "path m c (c # zs) start \<Longrightarrow> start \<notin> set zs \<Longrightarrow>
   find_ready m start c = Some (case List.find (can_run m) (c # zs) of None \<Rightarrow> NULL | Some x \<Rightarrow> x)"
proof (induction zs arbitrary: c)
  case Nil
  then show ?case by (auto simp: find_ready.simps[of m start c] can_run_def split: option.splits)
next
  case (Cons z zs)
  then obtain t where t: "m c = Some t" "t_next t = z" "path m z (z # zs) start" by (auto split: option.splits)
  note ih = Cons.IH[OF t(3)]
  show ?case using t ih Cons.prems(2) by (auto simp: find_ready.simps[of m start c] can_run_def)
qed

lemma find_ready_ring:
  assumes r: "ring m rq ts"
  shows "find_ready m (hd ts) (hd ts) = Some (case List.find (can_run m) ts of None \<Rightarrow> NULL | Some x \<Rightarrow> x)"
proof -
  obtain x xs where ts: "ts = x # xs" using r by (cases ts) (auto simp: ring_def)
  have "path m x (x # xs) x" "x \<notin> set xs" using r unfolding ring_def ts by auto
  from find_ready_path[OF this] show ?thesis unfolding ts by simp
qed

section \<open>Invariant\<close>

text \<open>
  The lists as queues: each holds tasks of its priority. With that the state is well-formed when the
  heap holds the tasks, the table holds tasks, the idle task first, there is a current task, on a queue or not, and no
  task on a queue is asleep.
\<close>

definition queues :: "(ptr \<rightharpoonup> task) \<Rightarrow> (task_priority \<Rightarrow> ptr) \<Rightarrow> (task_priority \<Rightarrow> ptr list) \<Rightarrow> bool" where
  "queues m rqs qs \<longleftrightarrow> (\<forall>prio. if qs prio = [] then rqs prio = NULL else ring m (rqs prio) (qs prio)) \<and>
     (\<forall>prio. \<forall>p \<in> set (qs prio). \<exists>t. m p = Some t \<and> t_priority t = prio)"

definition queued :: "(task_priority \<Rightarrow> ptr list) \<Rightarrow> ptr set" where
  "queued qs = (\<Union>prio. set (qs prio))"

definition awake :: "(ptr \<rightharpoonup> task) \<Rightarrow> (task_priority \<Rightarrow> ptr list) \<Rightarrow> bool" where
  "awake m qs \<longleftrightarrow> (\<forall>p \<in> queued qs. \<forall>t. m p = Some t \<longrightarrow> t_state t \<noteq> TASK_SLEEPING)"

definition mq_lists :: "mlfq \<Rightarrow> (task_priority \<Rightarrow> ptr list) \<Rightarrow> bool" where
  "mq_lists s qs \<longleftrightarrow> heap_wf (mq_heap s) \<and> heap.store_ok (mq_heap s) (mq_mem s) \<and> mq_enabled s \<and>
     length (mq_tasks s) = 32 \<and> (\<forall>p \<in> set (mq_tasks s). p \<noteq> NULL \<longrightarrow> p \<in> dom (mq_mem s)) \<and>
     mq_tasks s ! 0 \<noteq> NULL \<and> mq_current s \<in> dom (mq_mem s) \<and> queues (mq_mem s) (ready_queues s) qs"

definition mq_wf :: "mlfq \<Rightarrow> (task_priority \<Rightarrow> ptr list) \<Rightarrow> bool" where
  "mq_wf s qs \<longleftrightarrow> mq_lists s qs \<and> awake (mq_mem s) qs"

lemma queuesD:
  assumes "queues m rqs qs"
  shows "qs prio = [] \<Longrightarrow> rqs prio = NULL" "qs prio \<noteq> [] \<Longrightarrow> ring m (rqs prio) (qs prio)"
    "p \<in> set (qs prio) \<Longrightarrow> \<exists>t. m p = Some t \<and> t_priority t = prio"
  using assms unfolding queues_def by meson+

lemma queues_empty: "queues m rqs qs \<Longrightarrow> rqs prio = NULL \<longleftrightarrow> qs prio = []"
  using queuesD(1,2)[of m rqs qs prio] ring_rq[of m "rqs prio" "qs prio"] by blast

text \<open>A queued task is in the queue of its priority only.\<close>

lemma queued_iff: "queues m rqs qs \<Longrightarrow> m p = Some t \<Longrightarrow> p \<in> set (qs prio) \<longleftrightarrow> p \<in> queued qs \<and> t_priority t = prio"
  using queuesD(3) by (fastforce simp: queued_def)

lemma queued_except:
  assumes "queues m rqs qs"
  shows "x \<in> queued (qs(prio := [])) \<longleftrightarrow> x \<in> queued qs \<and> x \<notin> set (qs prio)"
proof
  assume "x \<in> queued (qs(prio := []))"
  then obtain r where r: "r \<noteq> prio" "x \<in> set (qs r)" by (auto simp: queued_def split: if_splits)
  then have "x \<notin> set (qs prio)" using queuesD(3)[OF assms, of x r] queuesD(3)[OF assms, of x prio] by auto
  then show "x \<in> queued qs \<and> x \<notin> set (qs prio)" using r by (auto simp: queued_def)
qed (auto simp: queued_def)

lemma queued_fewer: "set ts \<subseteq> set (qs r) \<Longrightarrow> queued (qs(r := ts)) \<subseteq> queued qs"
  unfolding queued_def by (rule subsetI) (auto split: if_splits)

lemma queues_cong:
  assumes "queues m rqs qs"
    and "\<And>p. p \<in> queued qs \<Longrightarrow> link m' p = link m p"
    and "\<And>p t. p \<in> queued qs \<Longrightarrow> m p = Some t \<Longrightarrow>
      \<exists>t'. m' p = Some t' \<and> t_priority t' = t_priority t"
  shows "queues m' rqs qs"
  unfolding queues_def
proof (intro conjI allI ballI)
  fix prio
  have "ring m' (rqs prio) (qs prio) = ring m (rqs prio) (qs prio)"
    by (rule ring_cong) (use assms(2) in \<open>auto simp: queued_def\<close>)
  then show "if qs prio = [] then rqs prio = NULL else ring m' (rqs prio) (qs prio)"
    using queuesD(1,2)[OF assms(1)] by auto
  fix p assume p: "p \<in> set (qs prio)"
  then show "\<exists>t. m' p = Some t \<and> t_priority t = prio"
    using queuesD(3)[OF assms(1) p] assms(3)[of p] by (fastforce simp: queued_def)
qed

lemma queues_upd:
  assumes "queues m rqs qs" "m p = Some t" "t_next t' = t_next t" "t_priority t' = t_priority t"
  shows "queues (m(p \<mapsto> t')) rqs qs"
proof (rule queues_cong[OF assms(1)])
  fix x t assume "x \<in> queued qs" "m x = Some t"
  then show "\<exists>t'a. (m(p \<mapsto> t')) x = Some t'a \<and> t_priority t'a = t_priority t"
    using assms queuesD(3)[OF assms(1)] by (fastforce simp: queued_def)
qed (use assms(2,3) in \<open>simp add: link_def\<close>)

lemma queues_other: "queues m rqs qs \<Longrightarrow> p \<notin> queued qs \<Longrightarrow> queues (m(p \<mapsto> t)) rqs qs"
  by (rule queues_cong) (use queuesD(3) in \<open>fastforce simp: link_def queued_def\<close>)+

lemma queues_set:
  assumes q: "queues m rqs qs" and r: "if ts = [] then r = NULL else ring m' r ts"
    and ts: "\<forall>p \<in> set ts. \<exists>t. m' p = Some t \<and> t_priority t = prio"
    and same: "\<And>x. x \<in> queued (qs(prio := [])) \<Longrightarrow> m' x = m x"
  shows "queues m' (rqs(prio := r)) (qs(prio := ts))"
proof -
  have "queues m (rqs(prio := NULL)) (qs(prio := []))" using q unfolding queues_def by auto
  then have "queues m' (rqs(prio := NULL)) (qs(prio := []))"
  proof (rule queues_cong)
    fix p t assume "p \<in> queued (qs(prio := []))" "m p = Some t"
    then show "\<exists>t'. m' p = Some t' \<and> t_priority t' = t_priority t"
      using same queuesD(3)[OF q] by (fastforce simp: queued_def split: if_splits)
  qed (simp add: link_def same)
  note base = queuesD[OF this]
  show ?thesis unfolding queues_def
  proof (intro conjI allI ballI)
    fix x
    show "if (qs(prio := ts)) x = [] then (rqs(prio := r)) x = NULL else ring m' ((rqs(prio := r)) x) ((qs(prio := ts)) x)"
      using r base(1,2)[of x] by (cases "x = prio") auto
    fix p assume "p \<in> set ((qs(prio := ts)) x)"
    then show "\<exists>t. m' p = Some t \<and> t_priority t = x"
      using ts base(3)[of p x] by (cases "x = prio") auto
  qed
qed

text \<open>A change of the list pointers only.\<close>

definition relinked :: "(ptr \<rightharpoonup> task) \<Rightarrow> (ptr \<rightharpoonup> task) \<Rightarrow> bool" where
  "relinked m m' \<longleftrightarrow> dom m' = dom m \<and> (\<forall>x u. m x = Some u \<longrightarrow> (\<exists>n. m' x = Some (u\<lparr>t_next := n\<rparr>)))"

lemma relinked_refl: "relinked m m"
  unfolding relinked_def using next_same by simp

lemma relinked_upd:
  assumes "m p = Some t" "relinked m m'" "m' p = Some t'"
  shows "relinked m (m'(p \<mapsto> t'\<lparr>t_next := n\<rparr>))"
  unfolding relinked_def
proof (intro conjI allI impI)
  show "dom (m'(p \<mapsto> t'\<lparr>t_next := n\<rparr>)) = dom m" using assms by (auto simp: relinked_def)
  fix x u assume x: "m x = Some u"
  then obtain k where k: "m' x = Some (u\<lparr>t_next := k\<rparr>)" using assms(2) unfolding relinked_def by blast
  then show "\<exists>k. (m'(p \<mapsto> t'\<lparr>t_next := n\<rparr>)) x = Some (u\<lparr>t_next := k\<rparr>)"
    using assms(3) by (cases "x = p") auto
qed

lemma mq_listsD:
  assumes "mq_lists s qs"
  shows "heap_wf (mq_heap s)" "heap.store_ok (mq_heap s) (mq_mem s)" "mq_enabled s" "length (mq_tasks s) = 32"
    "p \<in> set (mq_tasks s) \<Longrightarrow> p \<noteq> NULL \<Longrightarrow> p \<in> dom (mq_mem s)" "mq_tasks s ! 0 \<noteq> NULL"
    "mq_current s \<in> dom (mq_mem s)" "queues (mq_mem s) (ready_queues s) qs" "mq_mem s NULL = None" "mq_current s \<noteq> NULL"
proof -
  show a: "heap_wf (mq_heap s)" "heap.store_ok (mq_heap s) (mq_mem s)" "mq_enabled s" "length (mq_tasks s) = 32"
    "p \<in> set (mq_tasks s) \<Longrightarrow> p \<noteq> NULL \<Longrightarrow> p \<in> dom (mq_mem s)" "mq_tasks s ! 0 \<noteq> NULL"
    "mq_current s \<in> dom (mq_mem s)" "queues (mq_mem s) (ready_queues s) qs" using assms by (auto simp: mq_lists_def)
  show "mq_mem s NULL = None" by (rule heap.store_ok_NULL[OF a(1,2)])
  then show "mq_current s \<noteq> NULL" using a(7) by auto
qed

lemma mq_wf_lists: "mq_wf s qs \<Longrightarrow> mq_lists s qs"
  by (simp add: mq_wf_def)

lemmas mq_wfD = mq_listsD[OF mq_wf_lists]

lemma mq_wf_awake: "mq_wf s qs \<Longrightarrow> p \<in> queued qs \<Longrightarrow> mq_mem s p = Some t \<Longrightarrow> t_state t \<noteq> TASK_SLEEPING"
  by (simp add: mq_wf_def awake_def)

text \<open>Anything that keeps the objects and the queues keeps the invariant.\<close>

lemma mq_lists_keep:
  assumes "mq_lists s qs" "queues m rqs qs'" "dom m = dom (mq_mem s)"
  shows "mq_lists (s\<lparr>mq_mem := m, ready_queues := rqs\<rparr>) qs'"
  using assms by (auto simp: mq_lists_def heap.store_ok_def)

lemma mq_lists_upd:
  assumes "mq_lists s qs" "mq_mem s p = Some t" "t_next (f t) = t_next t" "t_priority (f t) = t_priority t"
  shows "mq_upd p f s = Some (s\<lparr>mq_mem := (mq_mem s)(p \<mapsto> f t)\<rparr>)" "mq_lists (s\<lparr>mq_mem := (mq_mem s)(p \<mapsto> f t)\<rparr>) qs"
proof -
  show "mq_upd p f s = Some (s\<lparr>mq_mem := (mq_mem s)(p \<mapsto> f t)\<rparr>)" using assms(2) by (simp add: mq_upd_def)
  have "queues ((mq_mem s)(p \<mapsto> f t)) (ready_queues s) qs"
    by (rule queues_upd[OF mq_listsD(8)[OF assms(1)] assms(2-4)])
  from mq_lists_keep[OF assms(1) this] assms(2) show "mq_lists (s\<lparr>mq_mem := (mq_mem s)(p \<mapsto> f t)\<rparr>) qs"
    by (simp add: insert_absorb domI)
qed

lemma relinked_awake:
  assumes "relinked m m'" "awake m qs"
  shows "awake m' qs"
  unfolding awake_def
proof (intro ballI allI impI)
  fix p t' assume p: "p \<in> queued qs" "m' p = Some t'"
  then have "p \<in> dom m" using assms(1) by (auto simp: relinked_def)
  then obtain t where t: "m p = Some t" by blast
  then obtain n where "m' p = Some (t\<lparr>t_next := n\<rparr>)" using assms(1) unfolding relinked_def by blast
  then show "t_state t' \<noteq> TASK_SLEEPING" using p t assms(2) by (auto simp: awake_def)
qed

lemma awake_add:
  "awake m qs \<Longrightarrow> m p = Some t \<Longrightarrow> t_state t \<noteq> TASK_SLEEPING \<Longrightarrow> awake m (qs(r := qs r @ [p]))"
  by (auto simp: awake_def queued_def split: if_splits)

lemma awake_subset: "awake m qs \<Longrightarrow> queued qs' \<subseteq> queued qs \<Longrightarrow> awake m qs'"
  by (auto simp: awake_def)

section \<open>Adding and removing\<close>

lemma queue_add_run:
  assumes wf: "mq_lists s qs" and p: "mq_mem s p = Some t" "p \<notin> queued qs"
  shows "\<exists>m. queue_add p s = Some (s\<lparr>mq_mem := m, ready_queues := (ready_queues s)(t_priority t := p)\<rparr>) \<and>
    mq_lists (s\<lparr>mq_mem := m, ready_queues := (ready_queues s)(t_priority t := p)\<rparr>)
      (qs(t_priority t := qs (t_priority t) @ [p])) \<and> relinked (mq_mem s) m"
proof -
  let ?m = "mq_mem s" and ?prio = "t_priority t"
  let ?last = "ready_queues s ?prio"
  note q = mq_listsD(8)[OF wf]
  have pn: "p \<noteq> NULL" using mq_listsD(9)[OF wf] p(1) by auto
  have pq: "p \<notin> set (qs ?prio)" using p(2) by (auto simp: queued_def)
  have others: "x \<in> queued (qs(?prio := [])) \<Longrightarrow> x \<noteq> p \<and> (?last \<noteq> NULL \<longrightarrow> x \<noteq> ?last)" for x
    using p(2) queuesD(2)[OF q, of ?prio] ring_rq queues_empty[OF q, of ?prio] unfolding queued_except[OF q] by metis
  show ?thesis
  proof (cases "qs ?prio = []")
    case True
    let ?m' = "?m(p \<mapsto> t\<lparr>t_next := p\<rparr>)"
    have "ring ?m' p [p]" using pn by (simp add: ring_def)
    then have "queues ?m' ((ready_queues s)(?prio := p)) (qs(?prio := qs ?prio @ [p]))"
      by (intro queues_set[OF q]) (use True others in auto)
    moreover have "dom ?m' = dom ?m" using p(1) by auto
    moreover have "relinked ?m ?m'" by (rule relinked_upd[where m = ?m and m' = ?m, OF p(1) relinked_refl p(1)])
    moreover have "queue_add p s = Some (s\<lparr>mq_mem := ?m', ready_queues := (ready_queues s)(?prio := p)\<rparr>)"
      using p(1) queuesD(1)[OF q True] by (simp add: queue_add_def mq_upd_def set_queue_def Let_def)
    ultimately show ?thesis using mq_lists_keep[OF wf] by blast
  next
    case False
    note r = queuesD(2)[OF q False]
    obtain u where u: "?m ?last = Some u" using ring_next[OF r] by blast
    have ne: "?last \<noteq> p" "?last \<noteq> NULL" using ring_rq[OF r] pq by auto
    let ?m' = "?m(p \<mapsto> t\<lparr>t_next := t_next u\<rparr>, ?last \<mapsto> u\<lparr>t_next := p\<rparr>)"
    have "relinked ?m (?m(p \<mapsto> t\<lparr>t_next := t_next u\<rparr>))" by (rule relinked_upd[where m = ?m and m' = ?m, OF p(1) relinked_refl p(1)])
    then have rl: "relinked ?m ?m'" by (rule relinked_upd[where m = ?m, OF u]) (use ne u in simp)
    have "\<forall>x \<in> set (qs ?prio @ [p]). \<exists>t'. ?m' x = Some t' \<and> t_priority t' = ?prio"
      using queuesD(3)[OF q, of _ ?prio] u p(1) by fastforce
    then have "queues ?m' ((ready_queues s)(?prio := p)) (qs(?prio := qs ?prio @ [p]))"
      by (intro queues_set[OF q]) (use ring_add[OF r pq pn u] others ne in auto)
    moreover have "dom ?m' = dom ?m" using rl by (simp add: relinked_def)
    moreover have "queue_add p s = Some (s\<lparr>mq_mem := ?m', ready_queues := (ready_queues s)(?prio := p)\<rparr>)"
      using p(1) u ne by (simp add: queue_add_def mq_upd_def set_queue_def Let_def)
    ultimately show ?thesis using mq_lists_keep[OF wf] rl by blast
  qed
qed

lemma queue_add_awake:
  assumes wf: "mq_wf s qs" and p: "mq_mem s p = Some t" "p \<notin> queued qs" "t_state t \<noteq> TASK_SLEEPING"
  shows "\<exists>m rqs. queue_add p s = Some (s\<lparr>mq_mem := m, ready_queues := rqs\<rparr>) \<and>
    mq_wf (s\<lparr>mq_mem := m, ready_queues := rqs\<rparr>) (qs(t_priority t := qs (t_priority t) @ [p])) \<and> relinked (mq_mem s) m"
proof -
  let ?r = "t_priority t"
  obtain m where m: "queue_add p s = Some (s\<lparr>mq_mem := m, ready_queues := (ready_queues s)(?r := p)\<rparr>)"
      "mq_lists (s\<lparr>mq_mem := m, ready_queues := (ready_queues s)(?r := p)\<rparr>) (qs(?r := qs ?r @ [p]))"
      "relinked (mq_mem s) m"
    using queue_add_run[OF mq_wf_lists[OF wf] p(1,2)] by blast
  have "awake (mq_mem s) qs" using wf by (simp add: mq_wf_def)
  then have "awake (mq_mem s) (qs(?r := qs ?r @ [p]))"
    using awake_add[where m = "mq_mem s" and t = t] p(1,3) by blast
  from relinked_awake[OF m(3) this] m show ?thesis by (auto simp: mq_wf_def)
qed

lemma relinked_at: "relinked m m' \<Longrightarrow> m p = Some t \<Longrightarrow> \<exists>n. m' p = Some (t\<lparr>t_next := n\<rparr>)"
  by (simp add: relinked_def)

lemma relinked_dom: "relinked m m' \<Longrightarrow> dom m' = dom m"
  by (simp add: relinked_def)

text \<open>Removing a task takes it out of the queue of its priority, if it is there.\<close>

lemma queue_remove_run:
  assumes wf: "mq_lists s qs" and p: "mq_mem s p = Some t"
  shows "\<exists>m rqs. queue_remove p s = Some (s\<lparr>mq_mem := m, ready_queues := rqs\<rparr>) \<and>
    mq_lists (s\<lparr>mq_mem := m, ready_queues := rqs\<rparr>) (qs(t_priority t := remove1 p (qs (t_priority t)))) \<and>
    relinked (mq_mem s) m"
proof -
  let ?m = "mq_mem s" and ?prio = "t_priority t" and ?rqs = "ready_queues s"
  let ?last = "?rqs ?prio" and ?ts = "qs ?prio"
  note q = mq_listsD(8)[OF wf]
  have same: "s = s\<lparr>mq_mem := ?m, ready_queues := ?rqs\<rparr>" by simp
  show ?thesis
  proof (cases "p \<in> set ?ts")
    case False
    then have "queue_remove p s = Some s"
      using p queuesD(1)[OF q, of ?prio] find_prev_ring(1)[OF queuesD(2)[OF q, of ?prio]] queues_empty[OF q, of ?prio]
      by (cases "?ts = []") (auto simp: queue_remove_def)
    moreover have "qs(?prio := remove1 p ?ts) = qs" using False by (simp add: remove1_idem)
    ultimately show ?thesis using wf relinked_refl same by metis
  next
    case True
    then obtain as bs where ts: "?ts = as @ p # bs" and pa: "p \<notin> set as" by (meson split_list_first)
    have r: "ring ?m ?last (as @ p # bs)" using queuesD(2)[OF q, of ?prio] ts by simp
    have rest: "remove1 p ?ts = as @ bs" using pa ts by (simp add: remove1_append)
    have pn: "p \<noteq> NULL" "?last \<noteq> NULL" and d: "distinct (as @ p # bs)" "?last = last (as @ p # bs)"
      using r ring_rq[OF r] by (auto simp: ring_def)
    note fp = find_prev_ring(2)[OF r refl]
    note types = queuesD(3)[OF q, of _ ?prio, unfolded ts]
    show ?thesis
    proof (cases "as @ bs = []")
      case True
      then have nx: "?last = p" "t_next t = p" using r p by (auto simp: ring_def)
      have "t\<lparr>t_next := p\<rparr> = t" using nx(2) by (cases t) simp
      then have "queue_remove p s = Some (s\<lparr>mq_mem := ?m, ready_queues := ?rqs(?prio := NULL)\<rparr>)"
        using p pn fp True nx by (simp add: queue_remove_def mq_upd_def set_queue_def map_upd_triv)
      moreover have "queues ?m (?rqs(?prio := NULL)) (qs(?prio := []))"
        using q unfolding queues_def by auto
      ultimately show ?thesis using mq_lists_keep[OF wf _ refl] relinked_refl True unfolding rest True by blast
    next
      case ne: False
      let ?q = "last (bs @ as)"
      obtain u where u: "?m ?q = Some u" "ring (?m(?q \<mapsto> u\<lparr>t_next := t_next t\<rparr>)) (last (as @ bs)) (as @ bs)"
        using ring_remove[OF r ne p] by blast
      let ?m' = "?m(?q \<mapsto> u\<lparr>t_next := t_next t\<rparr>)"
      let ?rqs' = "?rqs(?prio := last (as @ bs))"
      have qin: "?q \<in> set (as @ bs)" using ne last_in_set[of "bs @ as"] by auto
      then have qp: "?q \<noteq> p" using d(1) by auto
      have rl: "relinked ?m ?m'" by (rule relinked_upd[where m = ?m and m' = ?m, OF u(1) relinked_refl u(1)])
      have "\<forall>x \<in> set (as @ bs). \<exists>t'. ?m' x = Some t' \<and> t_priority t' = ?prio"
        using types u(1) qin by fastforce
      then have "queues ?m' ?rqs' (qs(?prio := as @ bs))"
        by (intro queues_set[OF q]) (use u(2) ne qin ts in \<open>auto simp: queued_except[OF q]\<close>)
      then have wf': "mq_lists (s\<lparr>mq_mem := ?m', ready_queues := ?rqs'\<rparr>) (qs(?prio := as @ bs))"
        by (rule mq_lists_keep[OF wf _ relinked_dom[OF rl]])
      have nt: "?last = p \<Longrightarrow> t_next t \<noteq> p"
      proof -
        assume "?last = p"
        then have "bs = []" using d by (cases bs rule: rev_cases) auto
        moreover from this have "t_next t = hd (as @ [p])" using ring_next[OF r] \<open>?last = p\<close> p by simp
        ultimately show "t_next t \<noteq> p" using ne pa by (cases as) auto
      qed
      have qn: "?q \<noteq> NULL" using u(1) mq_listsD(9)[OF wf] by auto
      have fp': "find_prev ?m p ?last ?last = Some ?q" using fp unfolding if_not_P[OF ne] .
      have pm': "?m' p = Some t" using p qp by simp
      have "queue_remove p s = Some (if ?last = p
          then set_queue ?prio (if t_next t = p then NULL else ?q) (s\<lparr>mq_mem := ?m'\<rparr>) else s\<lparr>mq_mem := ?m'\<rparr>)"
        using pm' qn by (simp add: queue_remove_def Let_def p pn(2) fp' mq_upd_def u(1))
      moreover have "?q = last (as @ bs)" if "?last = p" using that d by (cases bs rule: rev_cases) auto
      moreover have "?last = last (as @ bs)" if "?last \<noteq> p" using that d(2) by (cases bs rule: rev_cases) auto
      ultimately have "queue_remove p s = Some (s\<lparr>mq_mem := ?m', ready_queues := ?rqs'\<rparr>)"
        using nt by (cases "?last = p") (simp_all add: set_queue_def fun_upd_idem)
      then show ?thesis using wf' rl unfolding rest by blast
    qed
  qed
qed

section \<open>Choosing a task\<close>

definition idle_queue :: "mlfq \<Rightarrow> (task_priority \<Rightarrow> ptr list) \<Rightarrow> task_priority \<Rightarrow> bool" where
  "idle_queue s qs r \<longleftrightarrow> (\<forall>x \<in> set (qs r). \<not> can_run (mq_mem s) x)"

text \<open>\<open>c\<close> is the first task that can run in the queue of the highest priority that has one; it is last there afterwards.\<close>

definition chosen :: "mlfq \<Rightarrow> (task_priority \<Rightarrow> ptr list) \<Rightarrow> ptr \<Rightarrow> (task_priority \<Rightarrow> ptr list) \<Rightarrow> bool" where
  "chosen s qs c qs' \<longleftrightarrow> (\<exists>r as bs. qs r = as @ c # bs \<and> qs' = qs(r := bs @ as @ [c]) \<and> can_run (mq_mem s) c \<and>
     (\<forall>x \<in> set as. \<not> can_run (mq_mem s) x) \<and> (\<forall>r' < r. idle_queue s qs r'))"

lemma find_split:
  "List.find P xs = Some x \<Longrightarrow> \<exists>as bs. xs = as @ x # bs \<and> P x \<and> (\<forall>y \<in> set as. \<not> P y)"
proof (induction xs)
  case (Cons a xs)
  show ?case
  proof (cases "P a")
    case True
    then show ?thesis using Cons.prems by (intro exI[of _ "[]"] exI[of _ xs]) simp
  next
    case False
    then obtain as bs where "xs = as @ x # bs" "P x" "\<forall>y \<in> set as. \<not> P y" using Cons by auto
    then show ?thesis using False by (intro exI[of _ "a # as"] exI[of _ bs]) simp
  qed
qed simp

lemma next_ready_skip:
  assumes "if ts = [] then ready_queues s r = NULL else ring (mq_mem s) (ready_queues s r) ts"
    and "\<forall>x \<in> set ts. \<not> can_run (mq_mem s) x"
  shows "next_ready_from (r # ps) s = next_ready_from ps s"
proof (cases "ts = []")
  case True
  then show ?thesis using assms(1) by simp
next
  case False
  then have ring: "ring (mq_mem s) (ready_queues s r) ts" using assms(1) by simp
  obtain l where l: "mq_mem s (ready_queues s r) = Some l" "t_next l = hd ts" using ring_next[OF ring] by blast
  have "List.find (can_run (mq_mem s)) ts = None" using assms(2) by (simp add: find_None_iff)
  then have "find_ready (mq_mem s) (hd ts) (hd ts) = Some NULL" using find_ready_ring[OF ring] by simp
  then show ?thesis using l ring_rq[OF ring] by simp
qed

lemma next_ready_run:
  assumes wf: "mq_wf s qs"
  shows "(\<forall>r \<in> set ps. idle_queue s qs r) \<and> next_ready_from ps s = Some (mq_tasks s ! 0, s) \<or>
    (\<exists>pre r post as c bs. ps = pre @ r # post \<and> (\<forall>r' \<in> set pre. idle_queue s qs r') \<and> qs r = as @ c # bs \<and>
       can_run (mq_mem s) c \<and> (\<forall>x \<in> set as. \<not> can_run (mq_mem s) x) \<and>
       next_ready_from ps s = Some (c, set_queue r c s) \<and> mq_wf (set_queue r c s) (qs(r := bs @ as @ [c])))"
proof (induction ps)
  case Nil
  then show ?case using mq_wfD(4)[OF wf] by simp
next
  case (Cons p ps)
  note q = mq_wfD(8)[OF wf]
  let ?rq = "ready_queues s p"
  have skip: ?case if "idle_queue s qs p" "next_ready_from (p # ps) s = next_ready_from ps s"
  proof (rule disjE[OF Cons])
    assume "(\<forall>r \<in> set ps. idle_queue s qs r) \<and> next_ready_from ps s = Some (mq_tasks s ! 0, s)"
    then show ?case using that by (intro disjI1) simp
  next
    assume "\<exists>pre r post as c bs. ps = pre @ r # post \<and> (\<forall>r' \<in> set pre. idle_queue s qs r') \<and> qs r = as @ c # bs \<and>
       can_run (mq_mem s) c \<and> (\<forall>x \<in> set as. \<not> can_run (mq_mem s) x) \<and>
       next_ready_from ps s = Some (c, set_queue r c s) \<and> mq_wf (set_queue r c s) (qs(r := bs @ as @ [c]))"
    then obtain pre r post as c bs where f: "ps = pre @ r # post" "\<forall>r' \<in> set pre. idle_queue s qs r'" "qs r = as @ c # bs"
       "can_run (mq_mem s) c" "\<forall>x \<in> set as. \<not> can_run (mq_mem s) x"
       "next_ready_from ps s = Some (c, set_queue r c s)" "mq_wf (set_queue r c s) (qs(r := bs @ as @ [c]))" by blast
    have "p # ps = (p # pre) @ r # post" "\<forall>r' \<in> set (p # pre). idle_queue s qs r'" using f(1,2) that(1) by auto
    with f(3-7) that(2) show ?case by (intro disjI2) metis
  qed
  show ?case
  proof (cases "idle_queue s qs p")
    case True
    then have "next_ready_from (p # ps) s = next_ready_from ps s"
      by (intro next_ready_skip[of "qs p"]) (use queuesD(1,2)[OF q] in \<open>auto simp: idle_queue_def\<close>)
    then show ?thesis by (rule skip[OF True])
  next
    case False
    then have "qs p \<noteq> []" by (auto simp: idle_queue_def)
    note r = queuesD(2)[OF q this]
    obtain l where l: "mq_mem s ?rq = Some l" "t_next l = hd (qs p)" using ring_next[OF r] by blast
    have rq: "?rq \<noteq> NULL" using ring_rq[OF r] by blast
    note fr = find_ready_ring[OF r]
    show ?thesis
    proof (cases "List.find (can_run (mq_mem s)) (qs p)")
      case None
      then show ?thesis using False by (simp add: idle_queue_def find_None_iff)
    next
      case (Some c)
      then obtain as bs where ab: "qs p = as @ c # bs" "can_run (mq_mem s) c" "\<forall>x \<in> set as. \<not> can_run (mq_mem s) x"
        using find_split by fast
      have c: "c \<noteq> NULL" using r ab(1) by (auto simp: ring_def)
      have "\<exists>x. ring (mq_mem s) x (bs @ as @ [c])"
        using ring_rotate_to[of "mq_mem s" ?rq "as @ [c]" bs] r ab(1) by (cases "bs = []") auto
      then have "ring (mq_mem s) c (bs @ as @ [c])" using ring_last by fastforce
      then have "queues (mq_mem s) ((ready_queues s)(p := c)) (qs(p := bs @ as @ [c]))"
        by (intro queues_set[OF q]) (use queuesD(3)[OF q, of _ p] ab(1) in auto)
      then have ls: "mq_lists (set_queue p c s) (qs(p := bs @ as @ [c]))"
        using mq_lists_keep[OF mq_wf_lists[OF wf] _ refl] by (simp add: set_queue_def)
      have "queued (qs(p := bs @ as @ [c])) \<subseteq> queued qs" using ab(1) by (intro queued_fewer) auto
      then have "awake (mq_mem s) (qs(p := bs @ as @ [c]))" by (rule awake_subset[rotated]) (use wf in \<open>simp add: mq_wf_def\<close>)
      then have "mq_wf (set_queue p c s) (qs(p := bs @ as @ [c]))" using ls by (simp add: mq_wf_def set_queue_def)
      moreover have "next_ready_from (p # ps) s = Some (c, set_queue p c s)" using fr l rq Some c by simp
      moreover have "p # ps = [] @ p # ps" "\<forall>r' \<in> set []. idle_queue s qs r'" by simp_all
      ultimately show ?thesis using ab by blast
    qed
  qed
qed

lemma above_in_prefix: "priority_levels = pre @ r # post \<Longrightarrow> r' < r \<Longrightarrow> r' \<in> set pre"
proof -
  assume p: "priority_levels = pre @ r # post" and r: "r' < r"
  have "sorted_wrt (<) priority_levels" by (simp add: priority_levels_def less_task_priority_def)
  then have "sorted_wrt (<) (pre @ r # post)" unfolding p .
  then have "\<forall>x \<in> set post. r < x" by (simp add: sorted_wrt_append)
  moreover have "r' \<in> set (pre @ r # post)" unfolding p[symmetric] by (cases r') (simp_all add: priority_levels_def)
  ultimately show "r' \<in> set pre" using r by (auto dest: order.asym)
qed

lemma get_next_run:
  assumes wf: "mq_wf s qs"
  shows "\<exists>c rqs qs'. get_next_ready_task s = Some (c, s\<lparr>ready_queues := rqs\<rparr>) \<and> mq_wf (s\<lparr>ready_queues := rqs\<rparr>) qs' \<and>
    (chosen s qs c qs' \<or> (\<forall>r. idle_queue s qs r) \<and> c = mq_tasks s ! 0 \<and> s\<lparr>ready_queues := rqs\<rparr> = s \<and> qs' = qs)"
  using next_ready_run[OF wf, of priority_levels]
proof (elim disjE exE conjE)
  assume idle: "\<forall>r \<in> set priority_levels. idle_queue s qs r" "next_ready_from priority_levels s = Some (mq_tasks s ! 0, s)"
  have "r \<in> set priority_levels" for r by (cases r) (simp_all add: priority_levels_def)
  then show ?thesis using idle wf
    by (intro exI[of _ "mq_tasks s ! 0"] exI[of _ "ready_queues s"] exI[of _ qs]) (simp add: get_next_ready_task_def)
next
  fix pre r post as c bs
  assume f: "priority_levels = pre @ r # post" "\<forall>r' \<in> set pre. idle_queue s qs r'" "qs r = as @ c # bs"
    "can_run (mq_mem s) c" "\<forall>x \<in> set as. \<not> can_run (mq_mem s) x"
    "next_ready_from priority_levels s = Some (c, set_queue r c s)" "mq_wf (set_queue r c s) (qs(r := bs @ as @ [c]))"
  then have "chosen s qs c (qs(r := bs @ as @ [c]))" using above_in_prefix[OF f(1)] unfolding chosen_def by blast
  then show ?thesis using f(6,7) unfolding get_next_ready_task_def set_queue_def by blast
qed

section \<open>Updates that keep the queues\<close>

lemma mq_wf_env:
  "mq_wf s qs \<Longrightarrow> mq_wf (s\<lparr>mq_ticks := n\<rparr>) qs" "mq_wf s qs \<Longrightarrow> mq_wf (s\<lparr>mq_cpu := c\<rparr>) qs"
  "mq_wf s qs \<Longrightarrow> p \<in> dom (mq_mem s) \<Longrightarrow> mq_wf (s\<lparr>mq_current := p\<rparr>) qs"
  by (simp_all add: mq_wf_def mq_lists_def)

lemma mq_wf_map:
  assumes "mq_wf s qs" "mq_mem s p = Some t" "t_next (f t) = t_next t" "t_priority (f t) = t_priority t"
    "t_state (f t) = TASK_SLEEPING \<longrightarrow> t_state t = TASK_SLEEPING"
  shows "mq_upd p f s = Some (s\<lparr>mq_mem := (mq_mem s)(p \<mapsto> f t)\<rparr>)" "mq_wf (s\<lparr>mq_mem := (mq_mem s)(p \<mapsto> f t)\<rparr>) qs"
proof -
  note l = mq_lists_upd[where f = f, OF mq_wf_lists[OF assms(1)] assms(2,3,4)]
  show "mq_upd p f s = Some (s\<lparr>mq_mem := (mq_mem s)(p \<mapsto> f t)\<rparr>)" by (rule l(1))
  have "awake ((mq_mem s)(p \<mapsto> f t)) qs" using assms(1,2,5) by (auto simp: mq_wf_def awake_def)
  then show "mq_wf (s\<lparr>mq_mem := (mq_mem s)(p \<mapsto> f t)\<rparr>) qs" using l(2) by (simp add: mq_wf_def)
qed

lemma mq_wf_unqueued:
  assumes "mq_wf s qs" "mq_mem s p = Some t" "p \<notin> queued qs"
  shows "mq_wf (s\<lparr>mq_mem := (mq_mem s)(p \<mapsto> t')\<rparr>) qs"
proof -
  have "dom ((mq_mem s)(p \<mapsto> t')) = dom (mq_mem s)" using assms(2) by auto
  from mq_lists_keep[OF mq_wf_lists[OF assms(1)] queues_other[OF mq_wfD(8)[OF assms(1)] assms(3)] this] assms(1,3)
  show ?thesis by (auto simp: mq_wf_def awake_def)
qed

section \<open>Waking\<close>

definition due :: "u32 \<Rightarrow> task \<Rightarrow> bool" where
  "due now t \<longleftrightarrow> t_state t = TASK_SLEEPING \<and> t_sleep_until t > 0 \<and> now \<ge> t_sleep_until t"

text \<open>A woken task is ready, and back at its base priority if it had sunk below it.\<close>

definition woken :: "task \<Rightarrow> task" where
  "woken t = t\<lparr>t_sleep_until := 0, t_state := TASK_READY, t_ticks_used := 0, t_priority := min (t_priority t) (t_base_priority t),
     t_quantum := (if t_priority t > t_base_priority t then priority_quantum (t_base_priority t) else t_quantum t)\<rparr>"

lemma mq_task_wake_run:
  assumes wf: "mq_wf s qs" and p: "mq_mem s p = Some t" "t_state t = TASK_SLEEPING"
  defines "r \<equiv> t_priority (woken t)"
  shows "\<exists>m rqs. mq_task_wake p s = Some (s\<lparr>mq_mem := m, ready_queues := rqs\<rparr>) \<and>
    mq_wf (s\<lparr>mq_mem := m, ready_queues := rqs\<rparr>) (qs(r := qs r @ [p])) \<and> relinked ((mq_mem s)(p \<mapsto> woken t)) m"
proof -
  have pn: "p \<noteq> NULL" using mq_wfD(9)[OF wf] p(1) by auto
  have free: "p \<notin> queued qs" using mq_wf_awake[OF wf _ p(1)] p(2) by blast
  let ?s = "s\<lparr>mq_mem := (mq_mem s)(p \<mapsto> woken t)\<rparr>"
  have wf1: "mq_wf ?s qs" by (rule mq_wf_unqueued[OF wf p(1) free])
  have "mq_mem ?s p = Some (woken t)" "t_state (woken t) \<noteq> TASK_SLEEPING" by (simp_all add: woken_def)
  moreover have "mq_task_wake p s = queue_add p ?s"
    using pn p by (cases "t_priority t \<le> t_base_priority t") (auto simp: mq_task_wake_def mq_upd_def woken_def min_def not_le)
  ultimately show ?thesis using queue_add_awake[OF wf1 _ free, of "woken t"] unfolding r_def by auto
qed

text \<open>
  The loop over the table: after \<open>n\<close> places, the tasks due among them are woken and at the ends of their queues, the
  others as they were.
\<close>

definition woken_upto :: "nat \<Rightarrow> mlfq \<Rightarrow> (task_priority \<Rightarrow> ptr list) \<Rightarrow> mlfq \<Rightarrow> bool" where
  "woken_upto n s qs s' \<longleftrightarrow> (\<exists>m rqs qs'. s' = s\<lparr>mq_mem := m, ready_queues := rqs\<rparr> \<and> mq_wf s' qs' \<and>
     relinked (\<lambda>p. map_option (\<lambda>t. if p \<in> set (take n (mq_tasks s)) \<and> due (mq_ticks s) t then woken t else t) (mq_mem s p)) m \<and>
     (\<forall>r. \<exists>ws. qs' r = qs r @ ws \<and> set ws = {p \<in> set (take n (mq_tasks s)). \<exists>t. mq_mem s p = Some t \<and>
        due (mq_ticks s) t \<and> t_priority (woken t) = r}))"

lemma relinked_trans_upd:
  assumes "relinked m m'" "relinked (m'(p \<mapsto> t'\<lparr>t_next := n\<rparr>)) m''" "m0 p = Some t'" "\<And>x. x \<noteq> p \<Longrightarrow> m0 x = m x"
    "p \<in> dom m"
  shows "relinked m0 m''"
  unfolding relinked_def
proof (intro conjI allI impI)
  have "dom m0 = dom m"
  proof (rule set_eqI)
    fix x show "x \<in> dom m0 \<longleftrightarrow> x \<in> dom m" using assms(3,4,5) by (cases "x = p") auto
  qed
  then show "dom m'' = dom m0" using assms(1,2,5) by (auto simp: relinked_def)
  fix x u assume x: "m0 x = Some u"
  show "\<exists>n. m'' x = Some (u\<lparr>t_next := n\<rparr>)"
  proof (cases "x = p")
    case True
    then show ?thesis using relinked_at[OF assms(2), of p] x assms(3) by auto
  next
    case False
    then obtain k where "m' x = Some (u\<lparr>t_next := k\<rparr>)" using assms(1,4) x unfolding relinked_def by metis
    then show ?thesis using relinked_at[OF assms(2), of x] False by auto
  qed
qed

lemma woken_step:
  assumes w: "woken_upto i s qs s'" and i: "i < 32" and wf: "mq_wf s qs"
  defines "p \<equiv> mq_tasks s ! i"
  assumes t: "mq_mem s p = Some t" "p \<notin> set (take i (mq_tasks s))" "due (mq_ticks s) t"
  shows "\<exists>s''. mq_task_wake p s' = Some s'' \<and> woken_upto (Suc i) s qs s''"
proof -
  let ?old = "\<lambda>n p. map_option (\<lambda>t. if p \<in> set (take n (mq_tasks s)) \<and> due (mq_ticks s) t then woken t else t) (mq_mem s p)"
  obtain m rqs qs' where s': "s' = s\<lparr>mq_mem := m, ready_queues := rqs\<rparr>" "mq_wf s' qs'" "relinked (?old i) m"
      "\<forall>r. \<exists>ws. qs' r = qs r @ ws \<and> set ws = {p \<in> set (take i (mq_tasks s)). \<exists>t. mq_mem s p = Some t \<and>
        due (mq_ticks s) t \<and> t_priority (woken t) = r}"
    using w unfolding woken_upto_def by blast
  have tk: "set (take (Suc i) (mq_tasks s)) = insert p (set (take i (mq_tasks s)))"
    using i mq_wfD(4)[OF wf] by (simp add: p_def take_Suc_conv_app_nth)
  obtain k where k: "m p = Some (t\<lparr>t_next := k\<rparr>)" using relinked_at[OF s'(3), of p t] t(1,2) by auto
  have sl: "t_state (t\<lparr>t_next := k\<rparr>) = TASK_SLEEPING" using t(3) by (simp add: due_def)
  have wk: "woken (t\<lparr>t_next := k\<rparr>) = (woken t)\<lparr>t_next := k\<rparr>" by (simp add: woken_def)
  let ?r = "t_priority (woken t)"
  have kp: "mq_mem s' p = Some (t\<lparr>t_next := k\<rparr>)" using k s'(1) by simp
  obtain m' rqs' where m': "mq_task_wake p s' = Some (s'\<lparr>mq_mem := m', ready_queues := rqs'\<rparr>)"
      "mq_wf (s'\<lparr>mq_mem := m', ready_queues := rqs'\<rparr>) (qs'(?r := qs' ?r @ [p]))"
      "relinked ((mq_mem s')(p \<mapsto> (woken t)\<lparr>t_next := k\<rparr>)) m'"
    using mq_task_wake_run[OF s'(2) kp sl] unfolding wk by auto
  have "relinked (?old (Suc i)) m'"
    by (rule relinked_trans_upd[OF s'(3), where p = p and t' = "woken t" and n = k]) (use m'(3) s'(1) t tk in auto)
  moreover have "\<exists>ws. (qs'(?r := qs' ?r @ [p])) r = qs r @ ws \<and> set ws = {p \<in> set (take (Suc i) (mq_tasks s)). \<exists>t. mq_mem s p = Some t \<and>
        due (mq_ticks s) t \<and> t_priority (woken t) = r}" for r
  proof -
    obtain ws where ws: "qs' r = qs r @ ws" "set ws = {p \<in> set (take i (mq_tasks s)). \<exists>t. mq_mem s p = Some t \<and>
        due (mq_ticks s) t \<and> t_priority (woken t) = r}" using s'(4) by blast
    show ?thesis
    proof (cases "r = ?r")
      case True
      then show ?thesis using ws t tk by (intro exI[of _ "ws @ [p]"]) auto
    next
      case False
      then show ?thesis using ws t tk by (intro exI[of _ ws]) auto
    qed
  qed
  ultimately have "woken_upto (Suc i) s qs (s'\<lparr>mq_mem := m', ready_queues := rqs'\<rparr>)"
    unfolding woken_upto_def using m'(2) s'(1) by (intro exI[of _ m'] exI[of _ rqs'] exI[of _ "qs'(?r := qs' ?r @ [p])"]) simp
  then show ?thesis using m'(1) by blast
qed

lemma woken_skip:
  assumes w: "woken_upto i s qs s'" and i: "i < length (mq_tasks s)"
    and no: "\<And>t. mq_mem s (mq_tasks s ! i) = Some t \<Longrightarrow> due (mq_ticks s) t \<Longrightarrow> mq_tasks s ! i \<in> set (take i (mq_tasks s))"
  shows "woken_upto (Suc i) s qs s'"
proof -
  let ?p = "mq_tasks s ! i"
  have tk: "set (take (Suc i) (mq_tasks s)) = insert ?p (set (take i (mq_tasks s)))"
    using i by (simp add: take_Suc_conv_app_nth)
  have same: "p \<in> set (take (Suc i) (mq_tasks s)) \<and> due (mq_ticks s) t \<longleftrightarrow> p \<in> set (take i (mq_tasks s)) \<and> due (mq_ticks s) t"
    if "mq_mem s p = Some t" for p t using no that unfolding tk by auto
  have "map_option (\<lambda>t. if p \<in> set (take (Suc i) (mq_tasks s)) \<and> due (mq_ticks s) t then woken t else t) (mq_mem s p) =
      map_option (\<lambda>t. if p \<in> set (take i (mq_tasks s)) \<and> due (mq_ticks s) t then woken t else t) (mq_mem s p)" for p
    by (cases "mq_mem s p") (use same in simp_all)
  moreover have "{p \<in> set (take (Suc i) (mq_tasks s)). \<exists>t. mq_mem s p = Some t \<and> due (mq_ticks s) t \<and> t_priority (woken t) = r} =
      {p \<in> set (take i (mq_tasks s)). \<exists>t. mq_mem s p = Some t \<and> due (mq_ticks s) t \<and> t_priority (woken t) = r}" for r
    using same by blast
  ultimately show ?thesis using w unfolding woken_upto_def by simp
qed

lemma check_sleeping_run:
  assumes wf: "mq_wf s qs"
  shows "\<exists>s'. mq_task_check_sleeping s = Some s' \<and> woken_upto 32 s qs s'"
proof -
  have "relinked (\<lambda>p. map_option (\<lambda>t. t) (mq_mem s p)) (mq_mem s)" using relinked_refl by (simp add: option.map_ident)
  then have start: "woken_upto 0 s qs s"
    unfolding woken_upto_def using wf by (intro exI[of _ "mq_mem s"] exI[of _ "ready_queues s"] exI[of _ qs]) simp
  have len: "length (mq_tasks s) = 32" by (rule mq_wfD(4)[OF wf])
  have "\<exists>s'. mq_task_check_sleeping s = Some s' \<and> woken_upto (0 + MAX_TASKS) s qs s'"
    unfolding mq_task_check_sleeping_def
  proof (rule for_range_inv[where I = "\<lambda>i. woken_upto i s qs"])
    fix i s' assume "i < 0 + MAX_TASKS" and w: "woken_upto i s qs s'"
    then have i: "i < 32" by simp
    let ?p = "mq_tasks s ! i"
    from w obtain m rqs where s': "s' = s\<lparr>mq_mem := m, ready_queues := rqs\<rparr>"
        "relinked (\<lambda>p. map_option (\<lambda>t. if p \<in> set (take i (mq_tasks s)) \<and> due (mq_ticks s) t then woken t else t) (mq_mem s p)) m"
      unfolding woken_upto_def by blast
    have get: "arr_get (mq_tasks s') i = Some ?p" using s'(1) len i by simp
    show "\<exists>s''. (do {
         task \<leftarrow> arr_get (mq_tasks s') i;
         if task = NULL then Some s'
         else do {
           t \<leftarrow> mq_mem s' task;
           if t_state t = TASK_SLEEPING \<and> t_sleep_until t > 0 \<and> mq_ticks s' \<ge> t_sleep_until t
           then mq_task_wake task s' else Some s'
         }
       }) = Some s'' \<and> woken_upto (Suc i) s qs s''"
    proof (cases "?p = NULL")
      case True
      then have "woken_upto (Suc i) s qs s'" using mq_wfD(9)[OF wf] len i by (intro woken_skip[OF w]) simp_all
      then show ?thesis using get True by simp
    next
      case False
      have "?p \<in> set (mq_tasks s)" using len i by simp
      then obtain t where t: "mq_mem s ?p = Some t" using mq_wfD(5)[OF wf _ False] by blast
      have keep: "due (mq_ticks s) (u\<lparr>t_next := k\<rparr>) = due (mq_ticks s) u" for u k by (simp add: due_def)
      obtain k where k: "m ?p = Some ((if ?p \<in> set (take i (mq_tasks s)) \<and> due (mq_ticks s) t then woken t else t)\<lparr>t_next := k\<rparr>)"
        using relinked_at[OF s'(2)] t by fastforce
      show ?thesis
      proof (cases "due (mq_ticks s) t \<and> ?p \<notin> set (take i (mq_tasks s))")
        case True
        then obtain s'' where "mq_task_wake ?p s' = Some s''" "woken_upto (Suc i) s qs s''"
          using woken_step[OF w i wf t] by blast
        then show ?thesis using get False k True s'(1) keep[of k t] by (auto simp: due_def)
      next
        case no: False
        then have "woken_upto (Suc i) s qs s'" using t len i by (intro woken_skip[OF w]) auto
        moreover have "\<not> due (mq_ticks s) ((if ?p \<in> set (take i (mq_tasks s)) \<and> due (mq_ticks s) t then woken t else t)\<lparr>t_next := k\<rparr>)"
          using no by (auto simp: due_def woken_def)
        ultimately show ?thesis using get False k s'(1) by (auto simp: due_def)
      qed
    qed
  qed (rule start)
  then show ?thesis by simp
qed

section \<open>Switching\<close>

lemma pick_task_run:
  assumes wf: "mq_wf s qs"
  shows "\<exists>c rqs qs'. pick_task n s = Some (s\<lparr>ready_queues := rqs, mq_current := c\<rparr>) \<and>
    mq_wf (s\<lparr>ready_queues := rqs, mq_current := c\<rparr>) qs' \<and>
    (0 < n \<and> chosen s qs c qs' \<or> (\<forall>r. set (qs' r) = set (qs r)) \<and> (0 < n \<longrightarrow> (\<forall>r. idle_queue s qs r)) \<and> c = mq_tasks s ! 0)"
proof -
  let ?idle = "mq_tasks s ! 0"
  have idle: "?idle \<in> dom (mq_mem s)" using mq_wfD(4,6)[OF wf] mq_wfD(5)[OF wf, of ?idle] by simp
  obtain c rqs qs' where g: "get_next_ready_task s = Some (c, s\<lparr>ready_queues := rqs\<rparr>)" "mq_wf (s\<lparr>ready_queues := rqs\<rparr>) qs'"
      "chosen s qs c qs' \<or> (\<forall>r. idle_queue s qs r) \<and> c = ?idle \<and> s\<lparr>ready_queues := rqs\<rparr> = s \<and> qs' = qs"
    using get_next_run[OF wf] by blast
  have perm: "set (qs' r) = set (qs r)" if "chosen s qs c qs'" for r using that unfolding chosen_def by (auto split: if_splits)
  have none: "pick_task n s = Some (s\<lparr>mq_current := ?idle\<rparr>)" if "\<forall>r. idle_queue s qs r" "c = ?idle" "s\<lparr>ready_queues := rqs\<rparr> = s" for n
  proof (induction n)
    case 0
    then show ?case using g(1) that mq_wfD(4)[OF wf] by simp
  next
    case (Suc n)
    then show ?case using g(1) that idle by auto
  qed
  show ?thesis
  proof (cases "chosen s qs c qs'")
    case True
    show ?thesis
    proof (cases n)
      case 0
      have "mq_wf (s\<lparr>ready_queues := rqs, mq_current := ?idle\<rparr>) qs'" using mq_wf_env(3)[OF g(2), of ?idle] idle by simp
      then show ?thesis using g(1) 0 perm[OF True] mq_wfD(4)[OF wf] by auto
    next
      case (Suc k)
      obtain t where t: "mq_mem s c = Some t" "runnable t" using True unfolding chosen_def can_run_def by (auto split: option.splits)
      then have "pick_task n s = Some (s\<lparr>ready_queues := rqs, mq_current := c\<rparr>)" using g(1) Suc by (auto simp: runnable_def)
      moreover have "mq_wf (s\<lparr>ready_queues := rqs, mq_current := c\<rparr>) qs'" using mq_wf_env(3)[OF g(2), of c] t by auto
      ultimately show ?thesis using True Suc by blast
    qed
  next
    case False
    then have f: "\<forall>r. idle_queue s qs r" "c = ?idle" "s\<lparr>ready_queues := rqs\<rparr> = s" "qs' = qs" using g(3) by blast+
    have "mq_wf (s\<lparr>mq_current := ?idle\<rparr>) qs" using mq_wf_env(3)[OF wf idle] .
    then show ?thesis using none[OF f(1-3)] f(1)
      by (intro exI[of _ ?idle] exI[of _ "ready_queues s"] exI[of _ qs]) simp
  qed
qed

text \<open>After a switch to \<open>c\<close>, it can run; no other task starts or stops being able to, and no priority changes.\<close>

definition switched :: "(ptr \<rightharpoonup> task) \<Rightarrow> ptr \<Rightarrow> (ptr \<rightharpoonup> task) \<Rightarrow> bool" where
  "switched m c m' \<longleftrightarrow> dom m' = dom m \<and> (\<forall>x t. m x = Some t \<longrightarrow> (\<exists>t'. m' x = Some t' \<and> t_priority t' = t_priority t \<and>
     (if x = c then runnable t' else runnable t' = runnable t)))"

lemma switched_at:
  "switched m c m' \<Longrightarrow> m x = Some t \<Longrightarrow> \<exists>t'. m' x = Some t' \<and> t_priority t' = t_priority t \<and>
     (if x = c then runnable t' else runnable t' = runnable t)"
  by (simp add: switched_def)

lemma switched_upd:
  assumes "switched m c m'" "m' p = Some d" "t_priority d' = t_priority d" "runnable d' = runnable d"
  shows "switched m c (m'(p \<mapsto> d'))"
proof -
  have "dom m' = dom m" using assms(1) unfolding switched_def by (rule conjunct1)
  then have "dom (m'(p \<mapsto> d')) = dom m" using domI[of m' p d, OF assms(2)] by (simp add: insert_absorb)
  moreover have "\<exists>t'. (m'(p \<mapsto> d')) x = Some t' \<and> t_priority t' = t_priority t \<and>
     (if x = c then runnable t' else runnable t' = runnable t)" if mx: "m x = Some t" for x t
  proof -
    obtain t' where t': "m' x = Some t'" "t_priority t' = t_priority t" "if x = c then runnable t' else runnable t' = runnable t"
      using switched_at[OF assms(1) mx] by (elim exE conjE)
    show ?thesis
    proof (cases "x = p")
      case True
      then have "t' = d" using t'(1) assms(2) by simp
      then show ?thesis using True t'(2,3) assms(3,4) by (intro exI[of _ d']) (auto split: if_splits)
    next
      case False
      then show ?thesis using t' by (intro exI[of _ t']) simp
    qed
  qed
  ultimately show ?thesis by (simp add: switched_def)
qed

lemma switch_next_mq_run:
  assumes wf: "mq_wf s qs"
  shows "\<exists>s' qs'. mq_switch_next s = Some s' \<and> mq_wf s' qs' \<and> switched (mq_mem s) (mq_current s') (mq_mem s') \<and>
    mq_tasks s' = mq_tasks s \<and> mq_ticks s' = mq_ticks s \<and> mq_heap s' = mq_heap s \<and> mq_next_pid s' = mq_next_pid s \<and>
    (chosen s qs (mq_current s') qs' \<or>
     (\<forall>r. set (qs' r) = set (qs r)) \<and> (\<forall>r. idle_queue s qs r) \<and> mq_current s' = mq_tasks s ! 0)"
proof -
  let ?old = "mq_current s"
  obtain c rqs qs' where p: "pick_task 32 s = Some (s\<lparr>ready_queues := rqs, mq_current := c\<rparr>)"
      "mq_wf (s\<lparr>ready_queues := rqs, mq_current := c\<rparr>) qs'"
      "chosen s qs c qs' \<or> (\<forall>r. set (qs' r) = set (qs r)) \<and> (\<forall>r. idle_queue s qs r) \<and> c = mq_tasks s ! 0"
    using pick_task_run[OF wf, of 32] by auto
  let ?s1 = "s\<lparr>ready_queues := rqs, mq_current := c\<rparr>" and ?run = "\<lambda>t. t\<lparr>t_time_slice := t_quantum t, t_state := TASK_RUNNING\<rparr>"
  obtain t where t: "mq_mem s c = Some t" using mq_wfD(7)[OF p(2)] by auto
  define m2 where "m2 = (mq_mem s)(c \<mapsto> ?run t)"
  let ?s2 = "?s1\<lparr>mq_mem := m2\<rparr>"
  have u2: "mq_upd c ?run ?s1 = Some ?s2" and wf2: "mq_wf ?s2 qs'"
    using mq_wf_map[where f = ?run, OF p(2), of c t] t by (simp_all add: m2_def)
  have sw2: "switched (mq_mem s) c m2" using t by (auto simp: switched_def runnable_def m2_def)
  have c2: "m2 c = Some (?run t)" by (simp add: m2_def)
  obtain d where d: "m2 ?old = Some d" using mq_wfD(7)[OF wf] by (cases "?old = c") (auto simp: m2_def)
  let ?f = "\<lambda>t'. if t_state t' = TASK_RUNNING then t'\<lparr>t_state := TASK_READY, t_time_slice := t_quantum (?run t)\<rparr> else t'"
  define d3 where "d3 = ?f d"
  have d3: "t_priority d3 = t_priority d" "runnable d3 = runnable d" by (simp_all add: d3_def runnable_def)
  define m3 where "m3 = m2(?old \<mapsto> d3)"
  let ?s3 = "?s2\<lparr>mq_mem := m3\<rparr>"
  have u3: "mq_upd ?old ?f ?s2 = Some ?s3" and wf3: "mq_wf ?s3 qs'"
    using mq_wf_map[where f = ?f, OF wf2, of ?old d] d by (simp_all add: m3_def d3_def)
  have sw3: "switched (mq_mem s) c m3" unfolding m3_def by (rule switched_upd[OF sw2 d d3])
  have run: "mq_switch_next s = (if ?old \<noteq> c then mq_task_switch ?old c ?s3 else Some ?s3)"
    using p(1) u2 u3 c2 by (simp add: mq_switch_next_def)
  show ?thesis
  proof (cases "?old = c")
    case True
    then show ?thesis using run wf3 sw3 p(3) by (intro exI[of _ ?s3] exI[of _ qs']) simp
  next
    case False
    let ?g = "\<lambda>t'. t'\<lparr>t_regs := save_context (mq_cpu ?s3) (t_regs t')\<rparr>"
    define m4 where "m4 = m3(?old \<mapsto> ?g d3)"
    have m3: "m3 ?old = Some d3" by (simp add: m3_def)
    let ?s4 = "?s3\<lparr>mq_mem := m4\<rparr>"
    have u4: "mq_upd ?old ?g ?s3 = Some ?s4" and wf4: "mq_wf ?s4 qs'"
      using mq_wf_map[where f = ?g, OF wf3, of ?old d3] m3 by (simp_all add: m4_def)
    have sw4: "switched (mq_mem s) c m4"
      unfolding m4_def by (rule switched_upd[OF sw3 m3]) (simp_all add: runnable_def)
    have t': "m4 c = Some (?run t)" using False c2 by (simp add: m4_def m3_def)
    let ?s5 = "?s4\<lparr>mq_cpu := load_context (c + offset_regs) (t_regs (?run t))\<rparr>"
    have "mq_switch_next s = Some ?s5" using run False u4 t' by (simp add: mq_task_switch_def)
    then show ?thesis using mq_wf_env(2)[OF wf4] sw4 p(3) by (intro exI[of _ ?s5] exI[of _ qs']) simp
  qed
qed

text \<open>A tick up to the switch: the tasks due are woken, the current task's counts change.\<close>

lemma mq_schedule_run:
  assumes wf: "mq_wf s qs"
  shows "\<exists>s1 qs1 t. mq_wf s1 qs1 \<and> mq_current s1 = mq_current s \<and> mq_tasks s1 = mq_tasks s \<and> mq_ticks s1 = mq_ticks s + 1 \<and>
    mq_mem s1 (mq_current s) = Some t \<and> dom (mq_mem s1) = dom (mq_mem s) \<and>
    mq_heap s1 = mq_heap s \<and> mq_next_pid s1 = mq_next_pid s \<and>
    mq_task_schedule s = (if t_time_slice t = 0 \<or> t_state t = TASK_ZOMBIE \<or> t_state t = TASK_BLOCKED
      then mq_switch_next s1 else Some s1) \<and>
    (\<forall>u. mq_mem s (mq_current s) = Some u \<longrightarrow> (t_time_slice u = 0 \<longrightarrow> t_time_slice t = 0) \<and> (runnable u \<longrightarrow> runnable t))"
proof -
  let ?c = "mq_current s"
  obtain u where u: "mq_mem s ?c = Some u" using mq_wfD(7)[OF wf] by auto
  have cn: "?c \<noteq> NULL" by (rule mq_wfD(10)[OF wf])
  let ?f = "\<lambda>t. if t_state t = TASK_RUNNING
              then t\<lparr>t_total_ticks := t_total_ticks t + 1, t_ticks_used := t_ticks_used t + 1\<rparr> else t"
  let ?s0 = "s\<lparr>mq_ticks := mq_ticks s + 1\<rparr>"
  let ?sa = "?s0\<lparr>mq_mem := (mq_mem ?s0)(?c \<mapsto> ?f u)\<rparr>"
  have ua: "mq_upd ?c ?f ?s0 = Some ?sa" and wfa: "mq_wf ?sa qs"
    using mq_wf_map[where f = ?f, OF mq_wf_env(1)[OF wf, of "mq_ticks s + 1"], of ?c u] u by simp_all
  obtain sb where sb: "mq_task_check_sleeping ?sa = Some sb" "woken_upto 32 ?sa qs sb" using check_sleeping_run[OF wfa] by blast
  obtain m rqs qs1 where m: "sb = ?sa\<lparr>mq_mem := m, ready_queues := rqs\<rparr>" "mq_wf sb qs1"
      "relinked (\<lambda>p. map_option (\<lambda>t. if p \<in> set (take 32 (mq_tasks ?sa)) \<and> due (mq_ticks ?sa) t then woken t else t) (mq_mem ?sa p)) m"
    using sb(2) unfolding woken_upto_def by blast
  have dm: "dom m = dom (mq_mem s)" using relinked_dom[OF m(3)] u by (auto simp: dom_def)
  obtain v k where v: "m ?c = Some (v\<lparr>t_next := k\<rparr>)" "t_time_slice v = t_time_slice u"
      "runnable u \<longrightarrow> runnable v"
    using relinked_at[OF m(3), of ?c] by (auto simp: woken_def due_def runnable_def split: if_splits)
  let ?g = "\<lambda>t. if t_time_slice t > 0 then t\<lparr>t_time_slice := t_time_slice t - 1\<rparr> else t"
  let ?v = "v\<lparr>t_next := k\<rparr>"
  let ?s1 = "sb\<lparr>mq_mem := (mq_mem sb)(?c \<mapsto> ?g ?v)\<rparr>"
  have ub: "mq_upd ?c ?g sb = Some ?s1" and wf1: "mq_wf ?s1 qs1"
    using mq_wf_map[where f = ?g, OF m(2), of ?c ?v] v(1) m(1) by simp_all
  have cur: "mq_current sb = ?c" "mq_current ?sa = ?c" using m(1) by simp_all
  have "mq_task_schedule s = (if t_time_slice (?g ?v) = 0 \<or> t_state (?g ?v) = TASK_ZOMBIE \<or> t_state (?g ?v) = TASK_BLOCKED
      then mq_switch_next ?s1 else Some ?s1)"
    using mq_wfD(3)[OF wf] cn ua sb(1) ub cur by (simp add: mq_task_schedule_def Let_def)
  moreover have "t_time_slice u = 0 \<Longrightarrow> t_time_slice (?g ?v) = 0" "runnable u \<longrightarrow> runnable (?g ?v)" using v(2,3) by (auto simp: runnable_def)
  moreover have "dom (mq_mem ?s1) = dom (mq_mem s)" using dm u m(1) by auto
  ultimately show ?thesis using wf1 m(1) u by (intro exI[of _ ?s1] exI[of _ qs1] exI[of _ "?g ?v"]) simp
qed

section \<open>Every operation keeps the lists\<close>

text \<open>The state the operations start and end in: well-formed, and the current task can run.\<close>

definition mq_ok :: "mlfq \<Rightarrow> bool" where
  "mq_ok s \<longleftrightarrow> (\<exists>qs. mq_wf s qs) \<and> can_run (mq_mem s) (mq_current s)"

lemma switched_can_run: "switched m c m' \<Longrightarrow> m c = Some t \<Longrightarrow> can_run m' c"
  using switched_at[of m c m' c t] by (auto simp: can_run_def)

lemma mq_switch_next_ok: "mq_wf s qs \<Longrightarrow> \<exists>s'. mq_switch_next s = Some s' \<and> mq_ok s'"
proof -
  assume wf: "mq_wf s qs"
  obtain s' qs' where s': "mq_switch_next s = Some s'" "mq_wf s' qs'" "switched (mq_mem s) (mq_current s') (mq_mem s')"
    using switch_next_mq_run[OF wf] by blast
  have "mq_current s' \<in> dom (mq_mem s)" using mq_wfD(7)[OF s'(2)] s'(3) by (simp add: switched_def)
  then have "can_run (mq_mem s') (mq_current s')" using switched_can_run[OF s'(3)] by blast
  then show ?thesis using s'(1,2) by (auto simp: mq_ok_def)
qed

lemma can_run_states: "can_run m p \<longleftrightarrow> (\<exists>t. m p = Some t \<and> (t_state t = TASK_READY \<or> t_state t = TASK_RUNNING))"
  by (auto simp: can_run_def runnable_def split: option.splits)

text \<open>A tick: whatever state the current task is in when a task is switched to, and a state it can run in when not.\<close>

lemma mq_task_schedule_ok:
  assumes wf: "mq_wf s qs" and run: "can_run (mq_mem s) (mq_current s) \<or>
    (\<exists>t. mq_mem s (mq_current s) = Some t \<and> t_time_slice t = 0)"
  shows "\<exists>s'. mq_task_schedule s = Some s' \<and> mq_ok s'"
proof -
  let ?c = "mq_current s"
  obtain u where u: "mq_mem s ?c = Some u" using mq_wfD(7)[OF wf] by auto
  obtain s1 qs1 t where s1: "mq_wf s1 qs1" "mq_current s1 = ?c" "mq_mem s1 ?c = Some t"
      "mq_task_schedule s = (if t_time_slice t = 0 \<or> t_state t = TASK_ZOMBIE \<or> t_state t = TASK_BLOCKED
        then mq_switch_next s1 else Some s1)"
      "t_time_slice u = 0 \<Longrightarrow> t_time_slice t = 0" "runnable u \<Longrightarrow> runnable t"
    using mq_schedule_run[OF wf] u by metis
  show ?thesis
  proof (cases "t_time_slice t = 0 \<or> t_state t = TASK_ZOMBIE \<or> t_state t = TASK_BLOCKED")
    case True
    then show ?thesis using s1(4) mq_switch_next_ok[OF s1(1)] by simp
  next
    case False
    then have "can_run (mq_mem s1) ?c" using run u s1(3,5,6) by (auto simp: can_run_def)
    then show ?thesis using False s1 by (auto simp: mq_ok_def)
  qed
qed

lemma mq_task_yield_ok: "mq_wf s qs \<Longrightarrow> \<exists>s'. mq_task_yield s = Some s' \<and> mq_ok s'"
proof -
  assume wf: "mq_wf s qs"
  let ?f = "\<lambda>t. t\<lparr>t_time_slice := 0\<rparr>"
  obtain t where t: "mq_mem s (mq_current s) = Some t" using mq_wfD(7)[OF wf] by auto
  let ?s = "s\<lparr>mq_mem := (mq_mem s)(mq_current s \<mapsto> ?f t)\<rparr>"
  have "mq_upd (mq_current s) ?f s = Some ?s" and wf1: "mq_wf ?s qs"
    using mq_wf_map[where f = ?f, OF wf t] by simp_all
  moreover have "\<exists>s'. mq_task_schedule ?s = Some s' \<and> mq_ok s'" by (rule mq_task_schedule_ok[OF wf1]) simp
  ultimately show ?thesis using mq_wfD(3)[OF wf] by (simp add: mq_task_yield_def)
qed

lemma relinked_can_run: "relinked m m' \<Longrightarrow> can_run m p \<Longrightarrow> can_run m' p"
  using relinked_at[of m m' p] by (auto simp: can_run_def runnable_def split: option.splits)

lemma removed_gone:
  assumes q: "queues m rqs qs" and p: "m p = Some t"
  shows "p \<notin> queued (qs(t_priority t := remove1 p (qs (t_priority t))))"
proof
  let ?r = "t_priority t"
  assume "p \<in> queued (qs(?r := remove1 p (qs ?r)))"
  then obtain r where r: "p \<in> set ((qs(?r := remove1 p (qs ?r))) r)" by (auto simp: queued_def)
  show False
  proof (cases "r = ?r")
    case True
    then have "p \<in> set (remove1 p (qs ?r))" using r by simp
    moreover have "distinct (qs ?r)" using queuesD(2)[OF q, of ?r] by (cases "qs ?r = []") (auto simp: ring_def)
    ultimately show False by simp
  next
    case False
    then show False using r queuesD(3)[OF q, of p r] p by auto
  qed
qed

text \<open>Taking a task off its queue, whatever state it is in now, with every other task on a queue awake.\<close>

lemma queue_remove_awake:
  assumes ls: "mq_lists s qs" and p: "mq_mem s p = Some t"
    and aw: "\<And>x u. x \<in> queued qs \<Longrightarrow> x \<noteq> p \<Longrightarrow> mq_mem s x = Some u \<Longrightarrow> t_state u \<noteq> TASK_SLEEPING"
  shows "\<exists>m rqs qs' n. queue_remove p s = Some (s\<lparr>mq_mem := m, ready_queues := rqs\<rparr>) \<and>
    mq_wf (s\<lparr>mq_mem := m, ready_queues := rqs\<rparr>) qs' \<and> relinked (mq_mem s) m \<and> p \<notin> queued qs' \<and>
    queued qs' \<subseteq> queued qs \<and> m p = Some (t\<lparr>t_next := n\<rparr>)"
proof -
  let ?qs = "qs(t_priority t := remove1 p (qs (t_priority t)))"
  obtain m rqs where m: "queue_remove p s = Some (s\<lparr>mq_mem := m, ready_queues := rqs\<rparr>)"
      "mq_lists (s\<lparr>mq_mem := m, ready_queues := rqs\<rparr>) ?qs" "relinked (mq_mem s) m"
    using queue_remove_run[OF ls p] by blast
  have gone: "p \<notin> queued ?qs" by (rule removed_gone[OF mq_listsD(8)[OF ls] p])
  have sub: "queued ?qs \<subseteq> queued qs" by (rule queued_fewer) (rule set_remove1_subset)
  have "awake (mq_mem s) ?qs" using aw gone sub by (auto simp: awake_def)
  then have "mq_wf (s\<lparr>mq_mem := m, ready_queues := rqs\<rparr>) ?qs" using relinked_awake[OF m(3)] m(2) by (simp add: mq_wf_def)
  then show ?thesis using m(1,3) gone sub relinked_at[OF m(3) p] by blast
qed

lemma mq_task_sleep_ok:
  assumes ok: "mq_ok s"
  shows "\<exists>s'. mq_task_sleep n s = Some s' \<and> mq_ok s'"
proof -
  obtain qs where wf: "mq_wf s qs" using ok by (auto simp: mq_ok_def)
  let ?c = "mq_current s"
  obtain t where t: "mq_mem s ?c = Some t" using mq_wfD(7)[OF wf] by auto
  show ?thesis
  proof (cases "n = 0")
    case True
    then show ?thesis using ok by (simp add: mq_task_sleep_def)
  next
    case False
    let ?f = "\<lambda>t. t\<lparr>t_sleep_until := mq_ticks s + n, t_state := TASK_SLEEPING\<rparr>"
    let ?s1 = "s\<lparr>mq_mem := (mq_mem s)(?c \<mapsto> ?f t)\<rparr>"
    have u1: "mq_upd ?c ?f s = Some ?s1" and ls1: "mq_lists ?s1 qs"
      using mq_lists_upd[where f = ?f, OF mq_wf_lists[OF wf] t] by simp_all
    have t1: "mq_mem ?s1 ?c = Some (?f t)" by simp
    have "x \<noteq> ?c \<Longrightarrow> mq_mem ?s1 x = Some u \<Longrightarrow> x \<in> queued qs \<Longrightarrow> t_state u \<noteq> TASK_SLEEPING" for x u
      using mq_wf_awake[OF wf] by simp
    with queue_remove_awake[OF ls1 t1] obtain m rqs qs' k where m:
        "queue_remove ?c ?s1 = Some (?s1\<lparr>mq_mem := m, ready_queues := rqs\<rparr>)"
        "mq_wf (?s1\<lparr>mq_mem := m, ready_queues := rqs\<rparr>) qs'" "m ?c = Some ((?f t)\<lparr>t_next := k\<rparr>)" by blast
    let ?s2 = "?s1\<lparr>mq_mem := m, ready_queues := rqs\<rparr>" and ?g = "\<lambda>t. t\<lparr>t_time_slice := 0\<rparr>" and ?d = "(?f t)\<lparr>t_next := k\<rparr>"
    let ?s3 = "?s2\<lparr>mq_mem := (mq_mem ?s2)(?c \<mapsto> ?g ?d)\<rparr>"
    have u3: "mq_upd ?c ?g ?s2 = Some ?s3" and wf3: "mq_wf ?s3 qs'"
      using mq_wf_map[where f = ?g, OF m(2), of ?c ?d] m(3) by simp_all
    have "\<exists>s'. mq_task_schedule ?s3 = Some s' \<and> mq_ok s'" by (rule mq_task_schedule_ok[OF wf3]) simp
    then show ?thesis using False mq_wfD(10)[OF wf] u1 m(1) u3 by (simp add: mq_task_sleep_def)
  qed
qed

lemma mq_task_wake_ok:
  assumes ok: "mq_ok s" and p: "p = NULL \<or> p \<in> dom (mq_mem s)"
  shows "\<exists>s'. mq_task_wake p s = Some s' \<and> mq_ok s'"
proof -
  obtain qs where wf: "mq_wf s qs" using ok by (auto simp: mq_ok_def)
  consider "p = NULL" | t where "p \<noteq> NULL" "mq_mem s p = Some t" "t_state t \<noteq> TASK_SLEEPING"
    | t where "mq_mem s p = Some t" "t_state t = TASK_SLEEPING" using p by blast
  then show ?thesis
  proof cases
    case 3
    obtain m rqs qs' where m: "mq_task_wake p s = Some (s\<lparr>mq_mem := m, ready_queues := rqs\<rparr>)"
        "mq_wf (s\<lparr>mq_mem := m, ready_queues := rqs\<rparr>) qs'" "relinked ((mq_mem s)(p \<mapsto> woken t)) m"
      using mq_task_wake_run[OF wf 3] by blast
    have "can_run ((mq_mem s)(p \<mapsto> woken t)) (mq_current s)"
      using ok by (auto simp: mq_ok_def can_run_def woken_def runnable_def)
    then show ?thesis using m relinked_can_run[OF m(3)] by (auto simp: mq_ok_def)
  qed (use ok in \<open>simp_all add: mq_task_wake_def\<close>)
qed

lemma mq_task_check_sleeping_ok:
  assumes ok: "mq_ok s"
  shows "\<exists>s'. mq_task_check_sleeping s = Some s' \<and> mq_ok s'"
proof -
  obtain qs where wf: "mq_wf s qs" using ok by (auto simp: mq_ok_def)
  obtain s' where s': "mq_task_check_sleeping s = Some s'" "woken_upto 32 s qs s'" using check_sleeping_run[OF wf] by blast
  obtain m rqs qs' where m: "s' = s\<lparr>mq_mem := m, ready_queues := rqs\<rparr>" "mq_wf s' qs'"
      "relinked (\<lambda>p. map_option (\<lambda>t. if p \<in> set (take 32 (mq_tasks s)) \<and> due (mq_ticks s) t then woken t else t) (mq_mem s p)) m"
    using s'(2) unfolding woken_upto_def by blast
  have "can_run m (mq_current s)"
    by (rule relinked_can_run[OF m(3)])
      (use ok in \<open>auto simp: mq_ok_def can_run_def woken_def runnable_def split: option.splits\<close>)
  then show ?thesis using s'(1) m(1,2) by (auto simp: mq_ok_def)
qed

lemma mq_task_set_priority_ok:
  assumes ok: "mq_ok s" and p: "p = NULL \<or> p \<in> dom (mq_mem s)"
  shows "\<exists>s'. mq_task_set_priority p n s = Some s' \<and> mq_ok s'"
proof (cases "p = NULL \<or> n \<ge> PRIORITY_LEVELS")
  case True
  then show ?thesis using ok by (simp add: mq_task_set_priority_def)
next
  case False
  let ?r = "priority_levels ! n" and ?c = "mq_current s"
  let ?f = "\<lambda>t. t\<lparr>t_priority := ?r, t_base_priority := ?r, t_quantum := priority_quantum ?r, t_ticks_used := 0\<rparr>"
  obtain qs where wf: "mq_wf s qs" using ok by (auto simp: mq_ok_def)
  obtain t where t: "mq_mem s p = Some t" using p False by blast
  obtain m rqs qs' k where m: "queue_remove p s = Some (s\<lparr>mq_mem := m, ready_queues := rqs\<rparr>)"
      "mq_wf (s\<lparr>mq_mem := m, ready_queues := rqs\<rparr>) qs'" "relinked (mq_mem s) m" "p \<notin> queued qs'"
      "m p = Some (t\<lparr>t_next := k\<rparr>)"
    using queue_remove_awake[OF mq_wf_lists[OF wf] t] mq_wf_awake[OF wf] by metis
  let ?s1 = "s\<lparr>mq_mem := m, ready_queues := rqs\<rparr>" and ?t = "?f (t\<lparr>t_next := k\<rparr>)"
  let ?s2 = "?s1\<lparr>mq_mem := m(p \<mapsto> ?t)\<rparr>"
  have u2: "mq_upd p ?f ?s1 = Some ?s2" using m(5) by (simp add: mq_upd_def)
  have wf2: "mq_wf ?s2 qs'" using mq_wf_unqueued[OF m(2) _ m(4)] m(5) by simp
  have "can_run m ?c" using relinked_can_run[OF m(3)] ok by (simp add: mq_ok_def)
  then have cr2: "can_run (mq_mem ?s2) ?c" using m(5) by (auto simp: can_run_def runnable_def)
  have run: "mq_task_set_priority p n s = (if t_state t = TASK_READY then queue_add p ?s2 else Some ?s2)"
    using False m(1) u2 by (simp add: mq_task_set_priority_def Let_def)
  show ?thesis
  proof (cases "t_state t = TASK_READY")
    case True
    have t2: "mq_mem ?s2 p = Some ?t" "t_state ?t \<noteq> TASK_SLEEPING" using True by simp_all
    obtain m' rqs' where m': "queue_add p ?s2 = Some (?s2\<lparr>mq_mem := m', ready_queues := rqs'\<rparr>)"
        "mq_wf (?s2\<lparr>mq_mem := m', ready_queues := rqs'\<rparr>) (qs'(t_priority ?t := qs' (t_priority ?t) @ [p]))"
        "relinked (mq_mem ?s2) m'"
      using queue_add_awake[OF wf2 t2(1) m(4) t2(2)] by blast
    then show ?thesis using run True relinked_can_run[OF m'(3) cr2] by (auto simp: mq_ok_def)
  next
    case False
    then show ?thesis using run wf2 cr2 by (auto simp: mq_ok_def)
  qed
qed

text \<open>A new task beside the old ones, before it is queued.\<close>

lemma table_add_set: "set (table_add p ts) \<subseteq> insert p (set ts)" "length (table_add p ts) = length ts"
  "table_add p ts ! 0 = ts ! 0"
proof -
  show "set (table_add p ts) \<subseteq> insert p (set ts)"
    using set_update_subset_insert[of ts] by (auto simp: table_add_def split: option.splits)
  show "length (table_add p ts) = length ts" by (simp add: table_add_def split: option.splits)
  show "table_add p ts ! 0 = ts ! 0" by (auto simp: table_add_def find_first_Some split: option.splits)
qed

lemma fresh_task_wf:
  assumes wf: "mq_wf s qs" and p: "kmalloc n (mq_heap s) = Some (p, h1)" "p \<noteq> NULL" and q: "kmalloc k h1 = Some (q, h2)"
  shows "mq_wf (s\<lparr>mq_heap := h2, mq_next_pid := i, mq_mem := (mq_mem s)(p \<mapsto> t), mq_tasks := table_add p (mq_tasks s)\<rparr>) qs"
    "p \<notin> queued qs" "mq_mem s p = None"
proof -
  note d = mq_wfD[OF wf]
  note a = heap.store_ok_alloc[OF d(1) p(1) d(2)]
  show fresh: "mq_mem s p = None" by (rule a(2)[OF p(2)])
  show free: "p \<notin> queued qs" using queuesD(3)[OF d(8), of p] fresh by (auto simp: queued_def)
  have h1: "heap_wf h1" by (rule heap.alloc_SomeD(1)[OF d(1) p(1)])
  have h2: "heap_wf h2" by (rule heap.alloc_SomeD(1)[OF h1 q])
  have ok: "heap.store_ok h2 ((mq_mem s)(p \<mapsto> t))" by (rule heap.store_ok_alloc(1)[OF h1 q a(3)[OF p(2)]])
  have "queues ((mq_mem s)(p \<mapsto> t)) (ready_queues s) qs" by (rule queues_other[OF d(8) free])
  moreover have "awake ((mq_mem s)(p \<mapsto> t)) qs" using wf free by (auto simp: mq_wf_def awake_def)
  ultimately show "mq_wf (s\<lparr>mq_heap := h2, mq_next_pid := i, mq_mem := (mq_mem s)(p \<mapsto> t), mq_tasks := table_add p (mq_tasks s)\<rparr>) qs"
    using wf h2 ok table_add_set[of p "mq_tasks s"] by (auto simp: mq_wf_def mq_lists_def)
qed

lemma mq_task_create_ok:
  assumes ok: "mq_ok s"
  shows "\<exists>pid s'. mq_task_create io name ep s = Some (pid, s') \<and> mq_ok s'"
proof -
  obtain qs where wf: "mq_wf s qs" using ok by (auto simp: mq_ok_def)
  note h = mq_wfD(1)[OF wf]
  obtain p h1 where p: "kmalloc sizeof_task (mq_heap s) = Some (p, h1)" "heap_wf h1" using heap.alloc_ex[OF h] by blast
  show ?thesis
  proof (cases "p = NULL")
    case True
    then have "h1 = mq_heap s" using heap.alloc_SomeD(2)[OF h p(1)] by simp
    then show ?thesis using True p(1) ok by (simp add: mq_task_create_def)
  next
    case False
    obtain q h2 where q: "kmalloc 4096 h1 = Some (q, h2)" using heap.alloc_ex[OF p(2)] by blast
    let ?t = "mq_new_task name ep (q + 4096) io s"
    let ?s1 = "s\<lparr>mq_heap := h2, mq_next_pid := mq_next_pid s + 1, mq_mem := (mq_mem s)(p \<mapsto> ?t), mq_tasks := table_add p (mq_tasks s)\<rparr>"
    note f = fresh_task_wf(1)[OF wf p(1) False q, where i = "mq_next_pid s + 1" and t = ?t] fresh_task_wf(2,3)[OF wf p(1) False q]
    have t: "mq_mem ?s1 p = Some ?t" "t_state ?t \<noteq> TASK_SLEEPING" by (simp_all add: mq_new_task_def)
    obtain m rqs qs' where m: "queue_add p ?s1 = Some (?s1\<lparr>mq_mem := m, ready_queues := rqs\<rparr>)"
        "mq_wf (?s1\<lparr>mq_mem := m, ready_queues := rqs\<rparr>) qs'" "relinked (mq_mem ?s1) m"
      using queue_add_awake[OF f(1) t(1) f(2) t(2)] by blast
    have "can_run (mq_mem ?s1) (mq_current s)" using ok f(3) by (auto simp: mq_ok_def can_run_def split: option.splits)
    then have "can_run m (mq_current s)" by (rule relinked_can_run[OF m(3)])
    then show ?thesis using p(1) False q m by (auto simp: mq_task_create_def Let_def mq_ok_def)
  qed
qed

text \<open>Queueing a child and linking it to its parent, the current task.\<close>

lemma fork_child_ok:
  fixes i :: u32
  assumes ok: "mq_ok s" and wf: "mq_wf s qs" and p: "kmalloc n (mq_heap s) = Some (p, h1)" "p \<noteq> NULL"
    and q: "kmalloc k h1 = Some (q, h2)" and t: "t_state t \<noteq> TASK_SLEEPING"
  defines "s1 \<equiv> s\<lparr>mq_heap := h2, mq_next_pid := i, mq_mem := (mq_mem s)(p \<mapsto> t), mq_tasks := table_add p (mq_tasks s)\<rparr>"
  shows "\<exists>s2 s'. mq_upd (mq_current s) (\<lambda>t. t\<lparr>t_child := p\<rparr>) s1 = Some s2 \<and> queue_add p s2 = Some s' \<and> mq_ok s'"
proof -
  let ?c = "mq_current s" and ?f = "\<lambda>t. t\<lparr>t_child := p\<rparr>"
  note f = fresh_task_wf(1)[OF wf p q, where i = i and t = t, folded s1_def] fresh_task_wf(2,3)[OF wf p q]
  obtain c where c: "mq_mem s ?c = Some c" using mq_wfD(7)[OF wf] by auto
  then have ne: "?c \<noteq> p" using f(3) by auto
  then have c1: "mq_mem s1 ?c = Some c" using c by (simp add: s1_def)
  let ?s2 = "s1\<lparr>mq_mem := (mq_mem s1)(?c \<mapsto> ?f c)\<rparr>"
  have u2: "mq_upd ?c ?f s1 = Some ?s2" and wf2: "mq_wf ?s2 qs" using mq_wf_map[where f = ?f, OF f(1) c1] by simp_all
  have "mq_mem ?s2 p = Some t" using ne by (simp add: s1_def)
  from queue_add_awake[OF wf2 this f(2) t] obtain m rqs qs' where m:
      "queue_add p ?s2 = Some (?s2\<lparr>mq_mem := m, ready_queues := rqs\<rparr>)"
      "mq_wf (?s2\<lparr>mq_mem := m, ready_queues := rqs\<rparr>) qs'" "relinked (mq_mem ?s2) m" by blast
  have "can_run (mq_mem ?s2) ?c" using ok c by (auto simp: mq_ok_def can_run_def runnable_def)
  then have "can_run m ?c" by (rule relinked_can_run[OF m(3)])
  moreover have "mq_current ?s2 = ?c" by (simp add: s1_def)
  ultimately have "mq_ok (?s2\<lparr>mq_mem := m, ready_queues := rqs\<rparr>)" using m(2) unfolding mq_ok_def by auto
  then show ?thesis using u2 m(1) by blast
qed

lemma mq_task_fork_ok:
  assumes ok: "mq_ok s"
  shows "\<exists>r s'. mq_task_fork s = Some (r, s') \<and> mq_ok s'"
proof -
  obtain qs where wf: "mq_wf s qs" using ok by (auto simp: mq_ok_def)
  note h = mq_wfD(1)[OF wf]
  obtain p h1 where p: "kmalloc sizeof_task (mq_heap s) = Some (p, h1)" "heap_wf h1" using heap.alloc_ex[OF h] by blast
  show ?thesis
  proof (cases "p = NULL")
    case True
    then have "h1 = mq_heap s" using heap.alloc_SomeD(2)[OF h p(1)] by simp
    then show ?thesis using True p(1) ok mq_wfD(10)[OF wf] by (simp add: mq_task_fork_def)
  next
    case False
    obtain q h2 where q: "kmalloc 4096 h1 = Some (q, h2)" using heap.alloc_ex[OF p(2)] by blast
    obtain c where c: "mq_mem s (mq_current s) = Some c" "runnable c"
      using ok by (auto simp: mq_ok_def can_run_def split: option.splits)
    then have "t_state c \<noteq> TASK_SLEEPING" by (auto simp: runnable_def)
    then show ?thesis
      using fork_child_ok[OF ok wf p(1) False q, of "c\<lparr>t_pid := mq_next_pid s, t_kernel_stack := q + 4096,
            t_regs := (t_regs c)\<lparr>r_esp := q + 4096, r_eax := 0\<rparr>, t_parent := mq_current s, t_child := NULL,
            t_sibling := t_child c, t_exit_code := 0\<rparr>" "mq_next_pid s + 1"] mq_wfD(10)[OF wf] p(1) False q c(1)
      by (auto simp: mq_task_fork_def)
  qed
qed

lemma mq_wf_other_env:
  "mq_wf s qs \<Longrightarrow> mq_wf (s\<lparr>mq_next_pid := i\<rparr>) qs" "mq_wf s qs \<Longrightarrow> mq_wf (s\<lparr>mq_paging := pg\<rparr>) qs"
  by (simp_all add: mq_wf_def mq_lists_def)

text \<open>Giving back what the heap has handed out beside the tasks.\<close>

lemma mq_wf_kfree:
  assumes wf: "mq_wf s qs" and p: "kmalloc n (mq_heap s) = Some (p, h1)" "p \<noteq> NULL" and q: "kmalloc k h1 = Some (q, h2)"
  shows "kfree p h2 = Some h' \<Longrightarrow> mq_wf (s\<lparr>mq_heap := h'\<rparr>) qs"
    and "kfree q h2 = Some h3 \<Longrightarrow> kfree p h3 = Some h' \<Longrightarrow> mq_wf (s\<lparr>mq_heap := h'\<rparr>) qs"
proof -
  note d = mq_wfD[OF wf]
  note a = heap.store_ok_alloc[OF d(1) p(1) d(2)]
  have h1: "heap_wf h1" by (rule heap.alloc_SomeD(1)[OF d(1) p(1)])
  have h2: "heap_wf h2" by (rule heap.alloc_SomeD(1)[OF h1 q])
  have lp: "p \<in> heap.live h2"
    using heap.live_mono[OF h1 q] heap.alloc_SomeD(4)[OF d(1) p(1) p(2)] by auto
  have ok: "heap.store_ok h2 (mq_mem s)" by (rule heap.store_ok_alloc(1)[OF h1 q a(1)])
  have fresh: "(mq_mem s)(p := None) = mq_mem s" using a(2)[OF p(2)] by (simp add: fun_upd_idem)
  have keep: "heap_wf h \<Longrightarrow> heap.store_ok h (mq_mem s) \<Longrightarrow> mq_wf (s\<lparr>mq_heap := h\<rparr>) qs" for h
    using wf by (simp add: mq_wf_def mq_lists_def)
  have free_p: "heap_wf h \<Longrightarrow> heap.store_ok h (mq_mem s) \<Longrightarrow> p \<in> heap.live h \<Longrightarrow> kfree p h = Some h' \<Longrightarrow>
      mq_wf (s\<lparr>mq_heap := h'\<rparr>) qs" for h
    using heap.release_live[of h p] heap.store_ok_release[of h p h' "mq_mem s"] keep[of h'] unfolding fresh by auto
  show "mq_wf (s\<lparr>mq_heap := h'\<rparr>) qs" if "kfree p h2 = Some h'" using free_p[OF h2 ok lp that] .
  show "mq_wf (s\<lparr>mq_heap := h'\<rparr>) qs" if f: "kfree q h2 = Some h3" "kfree p h3 = Some h'"
  proof (cases "q = NULL")
    case True
    then have "h3 = h2" using f(1) heap.release_NULL by simp
    then show ?thesis using free_p[OF h2 ok lp] f(2) by simp
  next
    case False
    have lq: "q \<in> heap.live h2" "q \<notin> heap.live h1" using heap.alloc_SomeD(3,4)[OF h1 q False] by auto
    obtain "heap_wf h3" "heap.live h3 = heap.live h2 - {q}" using heap.release_live[OF h2 lq(1)] f(1) by auto
    moreover have "p \<in> heap.live h1" using heap.alloc_SomeD(4)[OF d(1) p(1) p(2)] by simp
    then have "p \<noteq> q" using lq(2) by auto
    moreover have "mq_mem s q = None" using lq(2) a(1) by (auto simp: heap.store_ok_def)
    then have "heap.store_ok h3 (mq_mem s)" using heap.store_ok_release[OF h2 lq(1) f(1) ok] by (simp add: fun_upd_idem)
    ultimately show ?thesis using free_p[of h3] lp f(2) by auto
  qed
qed

lemma mq_task_fork_with_regs_ok:
  assumes ok: "mq_ok s" and r: "mq_task_fork_with_regs regs s = Some (r, s')"
  shows "mq_ok s'"
proof (cases regs)
  case None
  then show ?thesis using ok r by (simp add: mq_task_fork_with_regs_def)
next
  case (Some rg)
  obtain qs where wf: "mq_wf s qs" using ok by (auto simp: mq_ok_def)
  note h = mq_wfD(1)[OF wf]
  note cn = mq_wfD(10)[OF wf]
  obtain p h1 where p: "kmalloc sizeof_task (mq_heap s) = Some (p, h1)" "heap_wf h1" using heap.alloc_ex[OF h] by blast
  have env: "mq_ok (s1\<lparr>mq_next_pid := i, mq_paging := pg, mq_heap := h'\<rparr>)" if "mq_ok s1" "mq_wf (s1\<lparr>mq_heap := h'\<rparr>) qs" for s1 i pg h'
    using that mq_wf_other_env by (auto simp: mq_ok_def mq_wf_def mq_lists_def)
  show ?thesis
  proof (cases "p = NULL")
    case True
    then have "h1 = mq_heap s" using heap.alloc_SomeD(2)[OF h p(1)] by simp
    then show ?thesis using True p(1) ok r Some cn by (simp add: mq_task_fork_with_regs_def)
  next
    case False
    obtain q h2 where q: "kmalloc 4096 h1 = Some (q, h2)" using heap.alloc_ex[OF p(2)] by blast
    obtain c where c: "mq_mem s (mq_current s) = Some c" using ok by (auto simp: mq_ok_def can_run_def split: option.splits)
    note fr = mq_wf_kfree[OF wf p(1) False q]
    show ?thesis
    proof (cases "q + 4096 = 0")
      case True
      then obtain h3 where h3: "kfree p h2 = Some h3" "s' = s\<lparr>mq_next_pid := mq_next_pid s + 1, mq_heap := h3\<rparr>"
        using r Some cn p(1) False q c by (auto simp: mq_task_fork_with_regs_def Let_def bind_eq_Some_conv)
      show ?thesis using env[OF ok fr(1)[OF h3(1)], where i = "mq_next_pid s + 1" and pg = "mq_paging s"] h3(2) by simp
    next
      case st: False
      obtain dir pg where fd: "fork_directory (r_cr3 (t_regs c)) (mq_paging s) = Some (dir, pg)"
        using r Some cn p(1) False q c st by (auto simp: mq_task_fork_with_regs_def Let_def bind_eq_Some_conv)
      show ?thesis
      proof (cases "dir = NULL")
        case True
        then obtain h3 h4 where h4: "kfree q h2 = Some h3" "kfree p h3 = Some h4"
            "s' = s\<lparr>mq_next_pid := mq_next_pid s + 1, mq_paging := pg, mq_heap := h4\<rparr>"
          using r Some cn p(1) False q c st fd by (auto simp: mq_task_fork_with_regs_def Let_def bind_eq_Some_conv)
        show ?thesis using env[OF ok fr(2)[OF h4(1,2)], where i = "mq_next_pid s + 1" and pg = pg] h4(3) by simp
      next
        case dn: False
        let ?s = "s\<lparr>mq_paging := pg\<rparr>"
        have ok': "mq_ok ?s" "mq_wf ?s qs" using ok mq_wf_other_env(2) wf by (auto simp: mq_ok_def)
        obtain t where t: "t_state t \<noteq> TASK_SLEEPING" and run: "mq_task_fork_with_regs regs s = do {
              s2 \<leftarrow> mq_upd (mq_current ?s) (\<lambda>t. t\<lparr>t_child := p\<rparr>) (?s\<lparr>mq_heap := h2, mq_next_pid := mq_next_pid s + 1,
                mq_mem := (mq_mem ?s)(p \<mapsto> t), mq_tasks := table_add p (mq_tasks ?s)\<rparr>);
              s3 \<leftarrow> queue_add p s2;
              Some (sint (t_pid t), s3)
            }"
        proof
          let ?t = "c\<lparr>t_pid := mq_next_pid s, t_kernel_stack := q + 4096, t_regs := fork_regs rg dir,
                t_parent := mq_current s, t_child := NULL, t_sibling := t_child c, t_exit_code := 0,
                t_state := TASK_READY, t_time_slice := t_quantum c\<rparr>"
          show "t_state ?t \<noteq> TASK_SLEEPING" by simp
          have order: "?s\<lparr>mq_heap := h2, mq_next_pid := mq_next_pid s + 1, mq_mem := (mq_mem ?s)(p \<mapsto> ?t), mq_tasks := table_add p (mq_tasks ?s)\<rparr> =
              s\<lparr>mq_next_pid := mq_next_pid s + 1, mq_paging := pg, mq_heap := h2, mq_mem := (mq_mem s)(p \<mapsto> ?t), mq_tasks := table_add p (mq_tasks s)\<rparr>"
            by (rule mlfq.equality) simp_all
          show "mq_task_fork_with_regs regs s = do {
              s2 \<leftarrow> mq_upd (mq_current ?s) (\<lambda>t. t\<lparr>t_child := p\<rparr>) (?s\<lparr>mq_heap := h2, mq_next_pid := mq_next_pid s + 1,
                mq_mem := (mq_mem ?s)(p \<mapsto> ?t), mq_tasks := table_add p (mq_tasks ?s)\<rparr>);
              s3 \<leftarrow> queue_add p s2;
              Some (sint (t_pid ?t), s3)
            }"
            unfolding order using Some cn p(1) False q c st fd dn by (simp add: mq_task_fork_with_regs_def Let_def)
        qed
        have "kmalloc sizeof_task (mq_heap ?s) = Some (p, h1)" using p(1) by simp
        from fork_child_ok[OF ok' this False q t, of "mq_next_pid s + 1"] show ?thesis using run r by auto
      qed
    qed
  qed
qed

text \<open>The walk over the children changes parents only.\<close>

lemma orphan_from_wf:
  "orphan_from idle child s = Some s' \<Longrightarrow> mq_wf s qs \<Longrightarrow> mq_wf s' qs \<and> mq_current s' = mq_current s \<and>
   (\<forall>p t. mq_mem s p = Some t \<longrightarrow> (\<exists>t'. mq_mem s' p = Some t' \<and> t_time_slice t' = t_time_slice t))"
proof (induction rule: orphan_from.raw_induct[rotated, consumes 1, case_names step])
  case (step orphan_from idle child s s')
  let ?f = "\<lambda>t. t\<lparr>t_parent := idle\<rparr>"
  show ?case
  proof (cases "child = NULL")
    case True
    then show ?thesis using step(2,3) by simp
  next
    case False
    then obtain t where t: "mq_mem s child = Some t" using step(2) by (auto simp: mq_upd_def bind_eq_Some_conv)
    let ?s1 = "s\<lparr>mq_mem := (mq_mem s)(child \<mapsto> ?f t)\<rparr>"
    have u: "mq_upd child ?f s = Some ?s1" and wf: "mq_wf ?s1 qs" using mq_wf_map[where f = ?f, OF step(3) t] by simp_all
    have "orphan_from idle (t_sibling t) ?s1 = Some s'" using step(2) False u by simp
    from step(1)[OF this wf] have ih: "mq_wf s' qs" "mq_current s' = mq_current s"
        "\<And>p u. mq_mem ?s1 p = Some u \<Longrightarrow> \<exists>t'. mq_mem s' p = Some t' \<and> t_time_slice t' = t_time_slice u" by auto
    have "\<exists>t'. mq_mem s' p = Some t' \<and> t_time_slice t' = t_time_slice u" if "mq_mem s p = Some u" for p u
      using ih(3)[of child "?f t"] ih(3)[of p u] that t by (cases "p = child") auto
    then show ?thesis using ih(1,2) by blast
  qed
qed

lemma mq_task_exit_ok:
  assumes ok: "mq_ok s" and r: "mq_task_exit code s = Some s'"
  shows "mq_ok s'"
proof -
  obtain qs where wf: "mq_wf s qs" using ok by (auto simp: mq_ok_def)
  let ?c = "mq_current s" and ?f = "\<lambda>t. t\<lparr>t_exit_code := code, t_state := TASK_ZOMBIE, t_time_slice := 0\<rparr>"
  obtain t where t: "mq_mem s ?c = Some t" using mq_wfD(7)[OF wf] by auto
  let ?s1 = "s\<lparr>mq_mem := (mq_mem s)(?c \<mapsto> ?f t)\<rparr>"
  have u: "mq_upd ?c ?f s = Some ?s1" and wf1: "mq_wf ?s1 qs" using mq_wf_map[where f = ?f, OF wf t] by simp_all
  have t1: "mq_mem ?s1 ?c = Some (?f t)" by simp
  define after where "after = (if t_child t = NULL then Some ?s1
    else do { idle \<leftarrow> arr_get (mq_tasks ?s1) 0; orphan_from idle (t_child t) ?s1 })"
  have "mq_task_exit code s = Option.bind after mq_task_schedule"
    using mq_wfD(10)[OF wf] u by (simp add: mq_task_exit_def after_def)
  then obtain s2 where s2: "after = Some s2" "mq_task_schedule s2 = Some s'" using r by (cases after) auto
  have "mq_wf s2 qs \<and> mq_current s2 = ?c \<and> (\<exists>t'. mq_mem s2 ?c = Some t' \<and> t_time_slice t' = 0)"
  proof (cases "t_child t = NULL")
    case True
    then have "s2 = ?s1" using s2(1) by (simp add: after_def)
    then show ?thesis using wf1 by auto
  next
    case False
    then obtain idle where "orphan_from idle (t_child t) ?s1 = Some s2"
      using s2(1) by (auto simp: after_def bind_eq_Some_conv)
    from orphan_from_wf[OF this wf1] have o: "mq_wf s2 qs" "mq_current s2 = ?c"
      "\<And>p u. mq_mem ?s1 p = Some u \<Longrightarrow> \<exists>t'. mq_mem s2 p = Some t' \<and> t_time_slice t' = t_time_slice u" by auto
    then show ?thesis using o(3)[OF t1] by simp
  qed
  then show ?thesis using mq_task_schedule_ok[of s2 qs] s2(2) by auto
qed

section \<open>Any sequence of operations\<close>

inductive mq_step :: "mlfq \<Rightarrow> mlfq \<Rightarrow> bool" where
  tick: "mq_task_schedule s = Some s' \<Longrightarrow> mq_step s s'"
| yield: "mq_task_yield s = Some s' \<Longrightarrow> mq_step s s'"
| create: "mq_task_create io name ep s = Some (pid, s') \<Longrightarrow> mq_step s s'"
| fork: "mq_task_fork s = Some (r, s') \<Longrightarrow> mq_step s s'"
| fork_regs: "mq_task_fork_with_regs regs s = Some (r, s') \<Longrightarrow> mq_step s s'"
| sleep: "mq_task_sleep n s = Some s' \<Longrightarrow> mq_step s s'"
| wake: "p = NULL \<or> p \<in> dom (mq_mem s) \<Longrightarrow> mq_task_wake p s = Some s' \<Longrightarrow> mq_step s s'"
| check: "mq_task_check_sleeping s = Some s' \<Longrightarrow> mq_step s s'"
| set_priority: "p = NULL \<or> p \<in> dom (mq_mem s) \<Longrightarrow> mq_task_set_priority p n s = Some s' \<Longrightarrow> mq_step s s'"
| exit: "mq_task_exit code s = Some s' \<Longrightarrow> mq_step s s'"

inductive mq_reach :: "mlfq \<Rightarrow> mlfq \<Rightarrow> bool" for s where
  start: "mq_reach s s"
| step: "mq_reach s t \<Longrightarrow> mq_step t u \<Longrightarrow> mq_reach s u"

inductive_cases mq_stepE: "mq_step s s'"

lemma mq_tick_ok: "mq_ok s \<Longrightarrow> \<exists>s'. mq_task_schedule s = Some s' \<and> mq_ok s'"
  using mq_task_schedule_ok by (auto simp: mq_ok_def)

lemma mq_yield_ok: "mq_ok s \<Longrightarrow> \<exists>s'. mq_task_yield s = Some s' \<and> mq_ok s'"
  using mq_task_yield_ok by (auto simp: mq_ok_def)

lemma mq_step_ok: "mq_step s s' \<Longrightarrow> mq_ok s \<Longrightarrow> mq_ok s'"
proof (erule mq_stepE)
  assume ok: "mq_ok s"
  show "mq_task_schedule s = Some s' \<Longrightarrow> mq_ok s'" using mq_tick_ok[OF ok] by auto
  show "mq_task_yield s = Some s' \<Longrightarrow> mq_ok s'" using mq_yield_ok[OF ok] by auto
  show "mq_task_create io name ep s = Some (pid, s') \<Longrightarrow> mq_ok s'" for io name ep pid
    using mq_task_create_ok[OF ok, of io name ep] by auto
  show "mq_task_fork s = Some (r, s') \<Longrightarrow> mq_ok s'" for r using mq_task_fork_ok[OF ok] by auto
  show "mq_task_fork_with_regs regs s = Some (r, s') \<Longrightarrow> mq_ok s'" for regs r by (rule mq_task_fork_with_regs_ok[OF ok])
  show "mq_task_sleep n s = Some s' \<Longrightarrow> mq_ok s'" for n using mq_task_sleep_ok[OF ok, of n] by auto
  show "p = NULL \<or> p \<in> dom (mq_mem s) \<Longrightarrow> mq_task_wake p s = Some s' \<Longrightarrow> mq_ok s'" for p
    using mq_task_wake_ok[OF ok, of p] by auto
  show "mq_task_check_sleeping s = Some s' \<Longrightarrow> mq_ok s'" using mq_task_check_sleeping_ok[OF ok] by auto
  show "p = NULL \<or> p \<in> dom (mq_mem s) \<Longrightarrow> mq_task_set_priority p n s = Some s' \<Longrightarrow> mq_ok s'" for p n
    using mq_task_set_priority_ok[OF ok, of p n] by auto
  show "mq_task_exit code s = Some s' \<Longrightarrow> mq_ok s'" for code by (rule mq_task_exit_ok[OF ok])
qed

section \<open>Properties\<close>

text \<open>
  C24. The scheduler is never at an end: from a state with well-formed lists whose current task can run, whatever sequence of
  ticks, yields, creations, forks, sleeps, wake-ups, changes of priority and exits is run, the lists stay well-formed, the
  current task can run, and the next tick or yield is defined.
\<close>

theorem mq_reach_ok:
  assumes "mq_reach s s'" "mq_ok s"
  shows "mq_ok s' \<and> (\<exists>t. mq_task_schedule s' = Some t) \<and> (\<exists>t. mq_task_yield s' = Some t)"
proof -
  have "mq_ok s'" using assms by (induction rule: mq_reach.induct) (auto intro: mq_step_ok)
  then show ?thesis using mq_tick_ok mq_yield_ok by blast
qed

text \<open>
  C25. Strict priority: after a yield the current task can run, and no other task on a queue that can run has a higher
  priority (a smaller one, in the order of the code).
\<close>

theorem mq_yield_priority:
  assumes wf: "mq_wf s qs"
  shows "\<exists>s' qs' t. mq_task_yield s = Some s' \<and> mq_wf s' qs' \<and> mq_mem s' (mq_current s') = Some t \<and> runnable t \<and>
    (\<forall>x \<in> queued qs'. \<forall>u. mq_mem s' x = Some u \<longrightarrow> runnable u \<longrightarrow> x \<noteq> mq_current s' \<longrightarrow> t_priority t \<le> t_priority u)"
proof -
  let ?f = "\<lambda>t. t\<lparr>t_time_slice := 0\<rparr>" and ?c = "mq_current s"
  obtain t where t: "mq_mem s ?c = Some t" using mq_wfD(7)[OF wf] by auto
  let ?s = "s\<lparr>mq_mem := (mq_mem s)(?c \<mapsto> ?f t)\<rparr>"
  have u: "mq_upd ?c ?f s = Some ?s" and wf0: "mq_wf ?s qs" using mq_wf_map[where f = ?f, OF wf t] by simp_all
  obtain s1 qs1 where s1: "mq_wf s1 qs1" "mq_task_schedule ?s = mq_switch_next s1" using mq_schedule_run[OF wf0] by auto
  obtain s' qs' where s': "mq_switch_next s1 = Some s'" "mq_wf s' qs'" "switched (mq_mem s1) (mq_current s') (mq_mem s')"
      "chosen s1 qs1 (mq_current s') qs' \<or> (\<forall>r. set (qs' r) = set (qs1 r)) \<and> (\<forall>r. idle_queue s1 qs1 r)"
    using switch_next_mq_run[OF s1(1)] by blast
  let ?d = "mq_current s'"
  have "?d \<in> dom (mq_mem s1)" using mq_wfD(7)[OF s'(2)] s'(3) by (simp add: switched_def)
  then obtain d1 where d1: "mq_mem s1 ?d = Some d1" by blast
  then obtain d where d: "mq_mem s' ?d = Some d" "t_priority d = t_priority d1" "runnable d"
    using switched_at[OF s'(3)] by fastforce
  have "t_priority d \<le> t_priority v" if x: "x \<in> queued qs'" "mq_mem s' x = Some v" "runnable v" "x \<noteq> ?d" for x v
  proof -
    have "x \<in> dom (mq_mem s1)" using x(2) s'(3) by (auto simp: switched_def)
    then obtain v1 where v1: "mq_mem s1 x = Some v1" by blast
    then have v: "t_priority v1 = t_priority v" "runnable v1" using switched_at[OF s'(3) v1] x(2-4) by auto
    have xq: "x \<in> set (qs' (t_priority v))" using queued_iff[OF mq_wfD(8)[OF s'(2)] x(2)] x(1) by simp
    have "set (qs' r) = set (qs1 r)" for r using s'(4) unfolding chosen_def by (auto split: if_splits)
    then have busy: "\<not> idle_queue s1 qs1 (t_priority v)" using xq v1 v(2) by (auto simp: idle_queue_def can_run_def intro!: bexI[of _ x])
    then obtain r as bs where r: "qs1 r = as @ ?d # bs" "\<forall>r' < r. idle_queue s1 qs1 r'" using s'(4) unfolding chosen_def by blast
    have "t_priority d1 = r" using queuesD(3)[OF mq_wfD(8)[OF s1(1)], of ?d r] r(1) d1 by auto
    then show ?thesis using r(2) busy d(2) by (metis not_less)
  qed
  moreover have "mq_task_yield s = Some s'" using mq_wfD(3)[OF wf] u s1(2) s'(1) by (simp add: mq_task_yield_def)
  ultimately show ?thesis using s'(2) d by blast
qed

text \<open>
  Sleepers wake: the check for sleeping tasks makes every task of the table whose time has come ready, puts it at the end
  of the queue of its priority, or of its base priority if it had sunk below, and leaves all others as they were. Tasks
  already on a queue stay in front.
\<close>

theorem mq_sleepers_wake:
  assumes wf: "mq_wf s qs"
  shows "\<exists>s' qs'. mq_task_check_sleeping s = Some s' \<and> mq_wf s' qs' \<and> (\<forall>r. \<exists>ws. qs' r = qs r @ ws) \<and>
    (\<forall>p t. mq_mem s p = Some t \<longrightarrow>
      (if p \<in> set (mq_tasks s) \<and> due (mq_ticks s) t
       then (\<exists>n. mq_mem s' p = Some ((woken t)\<lparr>t_next := n\<rparr>)) \<and> p \<in> set (qs' (t_priority (woken t)))
       else (\<exists>n. mq_mem s' p = Some (t\<lparr>t_next := n\<rparr>)) \<and> (p \<in> queued qs' \<longrightarrow> p \<in> queued qs)))"
proof -
  let ?old = "\<lambda>p. map_option (\<lambda>t. if p \<in> set (take 32 (mq_tasks s)) \<and> due (mq_ticks s) t then woken t else t) (mq_mem s p)"
  obtain s' m rqs qs' where s': "mq_task_check_sleeping s = Some s'" "s' = s\<lparr>mq_mem := m, ready_queues := rqs\<rparr>" "mq_wf s' qs'"
      "relinked ?old m" and q: "\<And>r. \<exists>ws. qs' r = qs r @ ws \<and> set ws = {p \<in> set (take 32 (mq_tasks s)). \<exists>t. mq_mem s p = Some t \<and>
        due (mq_ticks s) t \<and> t_priority (woken t) = r}"
    using check_sleeping_run[OF wf] unfolding woken_upto_def by blast
  have tk: "take 32 (mq_tasks s) = mq_tasks s" using mq_wfD(4)[OF wf] by simp
  have "if p \<in> set (mq_tasks s) \<and> due (mq_ticks s) t
       then (\<exists>n. mq_mem s' p = Some ((woken t)\<lparr>t_next := n\<rparr>)) \<and> p \<in> set (qs' (t_priority (woken t)))
       else (\<exists>n. mq_mem s' p = Some (t\<lparr>t_next := n\<rparr>)) \<and> (p \<in> queued qs' \<longrightarrow> p \<in> queued qs)" if p: "mq_mem s p = Some t" for p t
  proof (cases "p \<in> set (mq_tasks s) \<and> due (mq_ticks s) t")
    case True
    then have "?old p = Some (woken t)" using p tk by simp
    then have "\<exists>n. mq_mem s' p = Some ((woken t)\<lparr>t_next := n\<rparr>)" using relinked_at[OF s'(4)] s'(2) by simp
    moreover have "p \<in> set (qs' (t_priority (woken t)))" using q[of "t_priority (woken t)"] True p tk by auto
    ultimately show ?thesis using True by simp
  next
    case False
    then have "?old p = Some t" using p tk by auto
    then have "\<exists>n. mq_mem s' p = Some (t\<lparr>t_next := n\<rparr>)" using relinked_at[OF s'(4)] s'(2) by simp
    moreover have "p \<in> queued qs" if "p \<in> queued qs'"
    proof -
      obtain r where "p \<in> set (qs' r)" using \<open>p \<in> queued qs'\<close> by (auto simp: queued_def)
      then show ?thesis using q[of r] False p tk by (auto simp: queued_def)
    qed
    ultimately show ?thesis using False by auto
  qed
  moreover have "\<forall>r. \<exists>ws. qs' r = qs r @ ws" using q by blast
  ultimately show ?thesis using s'(1,3) by blast
qed

section \<open>A child that has been waited for\<close>

text \<open>The walk over a queue that a freed task is still in.\<close>

lemma find_ready_dangling:
  "path m cur as c \<Longrightarrow> \<forall>x \<in> set as. \<not> can_run m x \<Longrightarrow> m c = None \<Longrightarrow> as \<noteq> [] \<longrightarrow> start \<notin> set (tl as) \<and> start \<noteq> c \<Longrightarrow>
   find_ready m start cur = None"
proof (induction as arbitrary: cur)
  case Nil
  then show ?case by (simp add: find_ready.simps[of m start c])
next
  case (Cons x xs)
  then obtain t where t: "m cur = Some t" "path m (t_next t) xs c" "cur = x" by (auto split: option.splits)
  have "t_next t \<noteq> start" using t(2) Cons.prems(4) by (cases xs) auto
  moreover have "\<not> runnable t" using Cons.prems(2) t(1,3) by (auto simp: can_run_def)
  moreover have "find_ready m start (t_next t) = None"
    by (rule Cons.IH[OF t(2)]) (use Cons.prems in \<open>auto dest: list.set_sel(2)\<close>)
  ultimately show ?case using t(1) by (simp add: find_ready.simps[of m start cur])
qed

text \<open>Taking a child off the list of children changes no list of the scheduler.\<close>

lemma unlink_child_keeps:
  assumes "unlink_child child s = Some s'"
  shows "ready_queues s' = ready_queues s \<and> mq_tasks s' = mq_tasks s \<and>
    (\<forall>x. link (mq_mem s') x = link (mq_mem s) x \<and> can_run (mq_mem s') x = can_run (mq_mem s) x)"
proof -
  have upd: "ready_queues s' = ready_queues s \<and> mq_tasks s' = mq_tasks s \<and>
      (\<forall>x. link (mq_mem s') x = link (mq_mem s) x \<and> can_run (mq_mem s') x = can_run (mq_mem s) x)"
    if "mq_upd p f s = Some s'" "\<And>t. t_next (f t) = t_next t" "\<And>t. runnable (f t) = runnable t" for p f
    using that by (auto simp: mq_upd_def link_def can_run_def bind_eq_Some_conv split: if_splits option.splits)
  obtain t bf where "mq_mem s (mq_current s) = Some t" and bf: "(case bf of None \<Rightarrow> Some s
     | Some prev \<Rightarrow> do {
         c \<leftarrow> mq_mem s child;
         if prev \<noteq> NULL then mq_upd prev (\<lambda>t. t\<lparr>t_sibling := t_sibling c\<rparr>) s
         else mq_upd (mq_current s) (\<lambda>t. t\<lparr>t_child := t_sibling c\<rparr>) s
       }) = Some s'"
    using assms unfolding unlink_child_def bind_eq_Some_conv by blast
  show ?thesis
  proof (cases bf)
    case None
    then show ?thesis using bf by simp
  next
    case (Some prev)
    then obtain c where mc: "mq_mem s child = Some c" using bf by (cases "mq_mem s child") simp_all
    show ?thesis
    proof (cases "prev = NULL")
      case True
      then have "mq_upd (mq_current s) (\<lambda>t. t\<lparr>t_child := t_sibling c\<rparr>) s = Some s'" using bf Some mc by simp
      then show ?thesis by (rule upd) (simp_all add: runnable_def)
    next
      case False
      then have "mq_upd prev (\<lambda>t. t\<lparr>t_sibling := t_sibling c\<rparr>) s = Some s'" using bf Some mc by simp
      then show ?thesis by (rule upd) (simp_all add: runnable_def)
    qed
  qed
qed

lemma mq_task_waitpid_freed:
  assumes "mq_task_waitpid pid s = Some (r, Some code, s')" "mq_task_find_by_pid pid s = Some c"
  shows "ready_queues s' = ready_queues s \<and> mq_mem s' c = None \<and>
    (\<forall>x. x \<noteq> c \<longrightarrow> link (mq_mem s') x = link (mq_mem s) x \<and> can_run (mq_mem s') x = can_run (mq_mem s) x)"
proof -
  obtain s1 where s1: "unlink_child c s = Some s1" "ready_queues s' = ready_queues s1 \<and> mq_mem s' = (mq_mem s1)(c := None)"
  proof -
    have c0: "mq_current s \<noteq> NULL" using assms(1) by (cases "mq_current s = NULL") (simp_all add: mq_task_waitpid_def)
    have "c \<noteq> NULL" using assms c0 by (cases "c = NULL") (simp_all add: mq_task_waitpid_def)
    note cur = c0 this
    then obtain y where y: "mq_mem s c = Some y" using assms by (cases "mq_mem s c") (auto simp: mq_task_waitpid_def)
    have st: "t_parent y = mq_current s" "t_state y = TASK_ZOMBIE"
      using assms cur y by (auto simp: mq_task_waitpid_def split: if_split_asm)
    obtain s1 where u: "unlink_child c s = Some s1"
      using assms cur y st by (cases "unlink_child c s") (auto simp: mq_task_waitpid_def)
    have "\<exists>tb pg h. s' = s1\<lparr>mq_tasks := tb, mq_paging := pg, mq_heap := h, mq_mem := (mq_mem s1)(c := None)\<rparr>"
      using assms(1) cur y st u unfolding mq_task_waitpid_def assms(2) by (simp add: bind_eq_Some_conv Let_def) blast
    then show thesis using that u by (elim exE) simp
  qed
  then show ?thesis using unlink_child_keeps[OF s1(1)] by (simp add: link_def can_run_def)
qed

text \<open>
  C26. Waiting for a child leaves the scheduler with a pointer to freed memory: \<open>task_waitpid\<close> frees a dead child that is still
  in its ready queue, as \<open>task_exit\<close> left it. When no task of higher priority and none before it in the queue can run, the
  next choice of a task reads the freed task, which is undefined.
\<close>

theorem mq_waitpid_dangles:
  assumes wf: "mq_wf s qs" and w: "mq_task_waitpid pid s = Some (r, Some code, s')" "mq_task_find_by_pid pid s = Some c"
    and q: "qs prio = as @ c # bs" "\<forall>x \<in> set as. \<not> can_run (mq_mem s) x" "\<forall>r < prio. idle_queue s qs r"
  shows "mq_mem s' c = None \<and> get_next_ready_task s' = None"
proof -
  let ?m = "mq_mem s" and ?m' = "mq_mem s'" and ?ts = "as @ c # bs"
  note f = mq_task_waitpid_freed[OF w]
  note qd = mq_wfD(8)[OF wf]
  have r: "ring ?m (ready_queues s prio) ?ts" using queuesD(2)[OF qd, of prio] q(1) by simp
  have only: "c \<notin> set (qs r')" if "r' \<noteq> prio" for r'
    using queuesD(3)[OF qd, of c r'] queuesD(3)[OF qd, of c prio] q(1) that by auto
  have skip: "next_ready_from (pre @ ps) s' = next_ready_from ps s'" if "\<forall>r' \<in> set pre. r' < prio" for pre ps
    using that
  proof (induction pre)
    case (Cons p pre)
    then have p: "p < prio" "c \<notin> set (qs p)" using only[of p] by auto
    have "ring ?m' (ready_queues s' p) (qs p) = ring ?m (ready_queues s p) (qs p)"
      unfolding f[THEN conjunct1] by (rule ring_cong) (use f p(2) in auto)
    then have "if qs p = [] then ready_queues s' p = NULL else ring ?m' (ready_queues s' p) (qs p)"
      using queuesD(1,2)[OF qd, of p] f by auto
    moreover have "\<forall>x \<in> set (qs p). \<not> can_run ?m' x" using q(3) p f by (auto simp: idle_queue_def)
    ultimately show ?case using next_ready_skip[of "qs p" s' p "pre @ ps"] Cons by simp
  qed simp
  have d: "distinct ?ts" "ready_queues s prio = last ?ts" using r by (auto simp: ring_def)
  have bad: "next_ready_from (prio # ps) s' = None" for ps
  proof (cases "last ?ts = c")
    case True
    then show ?thesis using f d ring_rq[OF r] by simp
  next
    case False
    have "path ?m (hd ?ts) ?ts (hd ?ts)" using r by (simp add: ring_def)
    then have "path ?m (hd ?ts) as c" unfolding path_append by (auto split: option.splits)
    moreover have "path ?m' (hd ?ts) as c = path ?m (hd ?ts) as c" by (rule path_cong) (use f d(1) in auto)
    ultimately have pa: "path ?m' (hd ?ts) as c" by simp
    have "as \<noteq> [] \<longrightarrow> hd ?ts \<notin> set (tl as) \<and> hd ?ts \<noteq> c" using d(1) by (cases as) auto
    then have "find_ready ?m' (hd ?ts) (hd ?ts) = None"
      using find_ready_dangling[OF pa, of "hd ?ts"] q(2) f d(1) by (metis UnCI distinct_append list.set_intros(1) disjoint_iff)
    moreover have "link ?m' (last ?ts) = Some (hd ?ts)" using ring_rq[OF r] f False d(2) by simp
    then obtain l where "?m' (last ?ts) = Some l" "t_next l = hd ?ts" by (auto simp: link_def)
    ultimately show ?thesis using f d(2) ring_rq[OF r] by simp
  qed
  have "prio \<in> set priority_levels" by (cases prio) (simp_all add: priority_levels_def)
  then obtain pre post where lv: "priority_levels = pre @ prio # post" by (meson split_list)
  have "sorted_wrt (<) (pre @ prio # post)" unfolding lv[symmetric] by (simp add: priority_levels_def less_task_priority_def)
  then have "\<forall>r' \<in> set pre. r' < prio" by (simp add: sorted_wrt_append)
  then have "get_next_ready_task s' = None" using skip[of pre "prio # post"] bad by (simp add: get_next_ready_task_def lv)
  then show ?thesis using f by simp
qed

section \<open>Sample state\<close>

text \<open>
  The idle task, which runs, and its child of normal priority, made without a stack, on the heap of the two tasks of
  theory \<open>Task\<close>. The child is in state \<open>st\<close>, and on its queue or not.
\<close>

definition mq_child :: "task_state \<Rightarrow> u32 \<Rightarrow> task" where
  "mq_child st until = (new_task (cstr ''child'') 0x101000 0x100000 4096 idle_tasking)\<lparr>t_pid := 1, t_state := st,
     t_sleep_until := until, t_next := 0x4000B0, t_parent := 0x40000C\<rparr>"

definition sample_mq :: "task_state \<Rightarrow> u32 \<Rightarrow> bool \<Rightarrow> mlfq" where
  "sample_mq st until b = \<lparr>mq_heap = tk_heap two_tasking,
     mq_mem = [0x40000C \<mapsto> (mq_idle_task blank_task)\<lparr>t_child := 0x4000B0\<rparr>, 0x4000B0 \<mapsto> mq_child st until],
     mq_tasks = [0x40000C, 0x4000B0] @ replicate 30 NULL, mq_current = 0x40000C,
     ready_queues = (\<lambda>_. NULL)(PRIORITY_NORMAL := if b then 0x4000B0 else NULL), mq_next_pid = 2, mq_enabled = True,
     mq_ticks = 7, mq_cpu = cpu boot_tasking, mq_paging = sample_paging\<rparr>"

definition sample_queues :: "bool \<Rightarrow> task_priority \<Rightarrow> ptr list" where
  "sample_queues b = (\<lambda>_. [])(PRIORITY_NORMAL := if b then [0x4000B0] else [])"

lemma sample_mq_wf:
  assumes "st \<noteq> TASK_SLEEPING \<or> \<not> b"
  shows "mq_wf (sample_mq st until b) (sample_queues b)"
proof -
  have h: "heap_wf (tk_heap two_tasking)" "heap.store_ok (tk_heap two_tasking) (task_mem two_tasking)"
    using two_tasking_facts(2) by (simp_all add: task_wf_def)
  have "heap.store_ok (tk_heap two_tasking) (mq_mem (sample_mq st until b))"
    using h(2) two_tasking_facts(4,5) by (auto simp: heap.store_ok_def sample_mq_def)
  moreover have "queues (mq_mem (sample_mq st until b)) (ready_queues (sample_mq st until b)) (sample_queues b)"
    by (simp add: queues_def sample_mq_def sample_queues_def ring_def mq_child_def new_task_def)
  moreover have "awake (mq_mem (sample_mq st until b)) (sample_queues b)"
    using assms by (auto simp: awake_def queued_def sample_mq_def sample_queues_def mq_child_def split: if_splits)
  ultimately show ?thesis using h(1) unfolding mq_wf_def mq_lists_def by (simp add: sample_mq_def)
qed

lemma sample_mq_ok: "mq_ok (sample_mq TASK_READY 0 True)"
  using sample_mq_wf[of TASK_READY True 0]
  by (auto simp: mq_ok_def can_run_def sample_mq_def mq_idle_task_def runnable_def)

lemma mq_reach_ok_witness: "\<exists>t. mq_task_yield (sample_mq TASK_READY 0 True) = Some t"
  using mq_reach_ok[OF mq_reach.start sample_mq_ok] by simp

lemma mq_yield_priority_witness:
  "\<exists>s' qs'. mq_task_yield (sample_mq TASK_READY 0 True) = Some s' \<and> mq_wf s' qs'"
  using mq_yield_priority[OF sample_mq_wf[of TASK_READY True 0]] by auto

text \<open>A child asleep until tick 7 wakes at tick 7.\<close>

lemma mq_sleepers_wake_witness:
  "\<exists>s' qs'. mq_task_check_sleeping (sample_mq TASK_SLEEPING 7 False) = Some s' \<and> 0x4000B0 \<in> set (qs' PRIORITY_NORMAL) \<and>
    mq_wf s' qs'"
proof -
  let ?s = "sample_mq TASK_SLEEPING 7 False"
  have "mq_mem ?s 0x4000B0 = Some (mq_child TASK_SLEEPING 7)" "0x4000B0 \<in> set (mq_tasks ?s)" "due (mq_ticks ?s) (mq_child TASK_SLEEPING 7)"
    "t_priority (woken (mq_child TASK_SLEEPING 7)) = PRIORITY_NORMAL"
    by (simp_all add: sample_mq_def due_def mq_child_def woken_def new_task_def)
  moreover obtain s' qs' where "mq_task_check_sleeping ?s = Some s'" "mq_wf s' qs'"
      "\<forall>p t. mq_mem ?s p = Some t \<longrightarrow>
      (if p \<in> set (mq_tasks ?s) \<and> due (mq_ticks ?s) t
       then (\<exists>n. mq_mem s' p = Some ((woken t)\<lparr>t_next := n\<rparr>)) \<and> p \<in> set (qs' (t_priority (woken t)))
       else (\<exists>n. mq_mem s' p = Some (t\<lparr>t_next := n\<rparr>)) \<and> (p \<in> queued qs' \<longrightarrow> p \<in> queued (sample_queues False)))"
    using mq_sleepers_wake[OF sample_mq_wf[of TASK_SLEEPING False 7]] by blast
  ultimately show ?thesis by (intro exI[of _ s'] exI[of _ qs']) force
qed

lemma sample_waitpid:
  "mq_task_find_by_pid 1 (sample_mq TASK_ZOMBIE 0 True) = Some 0x4000B0"
  "\<exists>s'. mq_task_waitpid 1 (sample_mq TASK_ZOMBIE 0 True) = Some (1, Some 0, s')"
proof -
  let ?s = "sample_mq TASK_ZOMBIE 0 True" and ?c = "0x4000B0 :: ptr" and ?p = "0x40000C :: ptr"
  have tab: "mq_tasks ?s ! i = (if i = 0 then ?p else if i = 1 then ?c else NULL)" if "i < 32" for i
    using that by (auto simp: sample_mq_def nth_Cons split: nat.splits)
  have mem: "mq_mem ?s ?c = Some (mq_child TASK_ZOMBIE 0)" "mq_mem ?s ?p = Some ((mq_idle_task blank_task)\<lparr>t_child := ?c\<rparr>)"
    by (simp_all add: sample_mq_def)
  have ff: "find_first 0 32 (\<lambda>i. mq_tasks ?s ! i \<noteq> NULL \<and> map_option t_pid (mq_mem ?s (mq_tasks ?s ! i)) = Some 1) = Some 1"
    by (rule find_first_least) (simp_all add: tab mem mq_child_def mq_idle_task_def)
  show find: "mq_task_find_by_pid 1 ?s = Some ?c"
    using ff tab mem by (auto simp: mq_task_find_by_pid_def)
  let ?idle = "(mq_idle_task blank_task)\<lparr>t_child := NULL\<rparr>"
  let ?s1 = "?s\<lparr>mq_mem := (mq_mem ?s)(?p \<mapsto> ?idle)\<rparr>"
  have ul: "unlink_child ?c ?s = Some ?s1"
    using mem by (simp add: unlink_child_def sibling_before.simps mq_upd_def mq_child_def new_task_def sample_mq_def)
  have heap: "heap_wf (mq_heap ?s)" "heap.store_ok (mq_heap ?s) (mq_mem ?s)"
    using mq_wfD(1,2)[OF sample_mq_wf[of TASK_ZOMBIE True 0]] by simp_all
  then have "?c \<in> heap.live (mq_heap ?s)" using mem by (auto simp: heap.store_ok_def)
  then obtain h where h: "kfree ?c (mq_heap ?s) = Some h" using heap.release_live[OF heap(1)] by blast
  have "r_cr3 (t_regs (mq_child TASK_ZOMBIE 0)) = paging_get_kernel_directory (mq_paging ?s1)"
    by (simp add: mq_child_def new_task_def sample_mq_def sample_paging_def paging_get_kernel_directory_def)
  moreover have "mq_current ?s = ?p" "mq_heap ?s1 = mq_heap ?s" by (simp_all add: sample_mq_def)
  moreover have "t_parent (mq_child TASK_ZOMBIE 0) = ?p" "t_state (mq_child TASK_ZOMBIE 0) = TASK_ZOMBIE"
    "t_kernel_stack (mq_child TASK_ZOMBIE 0) = 4096" "t_exit_code (mq_child TASK_ZOMBIE 0) = 0"
    by (simp_all add: mq_child_def new_task_def)
  ultimately show "\<exists>s'. mq_task_waitpid 1 ?s = Some (1, Some 0, s')"
    using find mem ul h heap.release_NULL by (simp add: mq_task_waitpid_def Let_def)
qed

lemma mq_waitpid_dangles_witness:
  "\<exists>s'. mq_task_waitpid 1 (sample_mq TASK_ZOMBIE 0 True) = Some (1, Some 0, s') \<and> mq_mem s' 0x4000B0 = None \<and>
    get_next_ready_task s' = None"
proof -
  let ?s = "sample_mq TASK_ZOMBIE 0 True"
  obtain s' where s': "mq_task_waitpid 1 ?s = Some (1, Some 0, s')" using sample_waitpid(2) by blast
  have "\<forall>r < PRIORITY_NORMAL. idle_queue ?s (sample_queues True) r" by (auto simp: idle_queue_def sample_queues_def)
  then show ?thesis
    using mq_waitpid_dangles[OF sample_mq_wf[of TASK_ZOMBIE True 0] s' sample_waitpid(1), of PRIORITY_NORMAL "[]" "[]"] s'
    by (auto simp: sample_queues_def)
qed

end
