(* ===== verification/Console.thy ===== *)
theory Console
  imports Prelude
begin

text \<open>
  The screen of the shell: \<open>print_char\<close> and \<open>print_string\<close> of \<open>src/src/kernel/kernel.c\<close>, and from
  \<open>src/src/lib/shell.c\<close> the cursor, scrolling, clearing and the two functions that print text. The theory shows
  that the screen is a window on the last 25 lines of what was printed, that nothing is
  written outside of it, and that the blinking cursor is where the next character goes.

  \<open>vga\<close> is the text screen at \<open>0xB8000\<close>, 25 rows of 80 cells of two bytes, a character and its colours. A
  write that is not on the screen is an undefined execution. \<open>crtc\<close> lists the writes to the ports of the video
  controller, the last one at the end.
\<close>

record console =
  vga :: bytes
  crtc :: "(u16 \<times> u8) list"
  shell_row :: int
  shell_col :: int

section \<open>The screen\<close>

definition vga_get :: "int \<Rightarrow> console \<Rightarrow> u8 option" where
  "vga_get index c = do { require (0 \<le> index); arr_get (vga c) (nat index) }"

definition vga_set :: "int \<Rightarrow> u8 \<Rightarrow> console \<Rightarrow> console option" where
  "vga_set index b c = do { require (0 \<le> index); v \<leftarrow> arr_set (vga c) (nat index) b; Some (c\<lparr>vga := v\<rparr>) }"

definition print_char :: "u8 \<Rightarrow> int \<Rightarrow> int \<Rightarrow> console \<Rightarrow> console option" where
  "print_char ch col row c =
     (let index = (row * 80 + col) * 2 in do { c \<leftarrow> vga_set index ch c; vga_set (index + 1) 0x07 c })"

fun print_string_from :: "cstring \<Rightarrow> int \<Rightarrow> int \<Rightarrow> console \<Rightarrow> console option" where
  "print_string_from [] col row c = Some c"
| "print_string_from (ch # str) col row c =
     do { c \<leftarrow> print_char ch col row c; print_string_from str (col + 1) row c }"

definition print_string :: "cstring \<Rightarrow> int \<Rightarrow> console \<Rightarrow> console option" where
  "print_string str row c = print_string_from str 0 row c"

definition outb :: "u16 \<Rightarrow> u8 \<Rightarrow> console \<Rightarrow> console" where
  "outb port v c = c\<lparr>crtc := crtc c @ [(port, v)]\<rparr>"

definition update_cursor :: "int \<Rightarrow> int \<Rightarrow> console \<Rightarrow> console" where
  "update_cursor col row c =
     (let pos = of_int (row * 80 + col) :: u16;
          c = outb 0x3D4 0x0F c;
          c = outb 0x3D5 (ucast (pos AND 0xFF)) c;
          c = outb 0x3D4 0x0E c in
      outb 0x3D5 (ucast (drop_bit 8 pos AND 0xFF)) c)"

text \<open>The body of the loop of \<open>shell_scroll\<close>: a cell of the line above becomes that of this line.\<close>

definition copy_cell :: "nat \<Rightarrow> nat \<Rightarrow> console \<Rightarrow> console option" where
  "copy_cell row col c =
     (let src_index = (int row * 80 + int col) * 2; dst_index = ((int row - 1) * 80 + int col) * 2 in
      do {
        b \<leftarrow> vga_get src_index c;
        c \<leftarrow> vga_set dst_index b c;
        b \<leftarrow> vga_get (src_index + 1) c;
        vga_set (dst_index + 1) b c
      })"

definition shell_scroll :: "console \<Rightarrow> console option" where
  "shell_scroll c = do {
     c \<leftarrow> for_range 1 24 (\<lambda>row. for_range 0 80 (copy_cell row)) c;
     c \<leftarrow> for_range 0 80 (\<lambda>col. print_char 32 (int col) 24) c;
     Some (c\<lparr>shell_row := 24, shell_col := 0\<rparr>)
   }"

definition shell_clear_screen :: "console \<Rightarrow> console option" where
  "shell_clear_screen c = do {
     c \<leftarrow> for_range 0 25 (\<lambda>row. for_range 0 80 (\<lambda>col. print_char 32 (int col) (int row))) c;
     let c = c\<lparr>shell_row := 0, shell_col := 0\<rparr>;
     Some (update_cursor (shell_col c) (shell_row c) c)
   }"

section \<open>Printing\<close>

definition shell_newline :: "console \<Rightarrow> console option" where
  "shell_newline c =
     (let c = c\<lparr>shell_col := 0, shell_row := shell_row c + 1\<rparr> in
      if shell_row c \<ge> 25 then shell_scroll c else Some c)"

text \<open>What both functions do with a character.\<close>

definition shell_put :: "u8 \<Rightarrow> console \<Rightarrow> console option" where
  "shell_put ch c =
     (if ch = 10 then shell_newline c
      else do {
        c \<leftarrow> print_char ch (shell_col c) (shell_row c) c;
        let c = c\<lparr>shell_col := shell_col c + 1\<rparr>;
        if shell_col c \<ge> 80 then shell_newline c else Some c
      })"

fun shell_put_all :: "cstring \<Rightarrow> console \<Rightarrow> console option" where
  "shell_put_all [] c = Some c"
| "shell_put_all (ch # str) c = do { c \<leftarrow> shell_put ch c; shell_put_all str c }"

definition shell_print :: "cstring \<Rightarrow> console \<Rightarrow> console option" where
  "shell_print str c = do { c \<leftarrow> shell_put_all str c; Some (update_cursor (shell_col c) (shell_row c) c) }"

definition shell_print_raw :: "bytes \<Rightarrow> int \<Rightarrow> console \<Rightarrow> console option" where
  "shell_print_raw str len c = do {
     c \<leftarrow> for_range 0 (nat len) (\<lambda>i c. do {
       ch \<leftarrow> arr_get str i;
       if ch \<noteq> 0 then shell_put ch c else Some c
     }) c;
     Some (update_cursor (shell_col c) (shell_row c) c)
   }"

definition shell_print_prompt :: "console \<Rightarrow> console option" where
  "shell_print_prompt = shell_print (10 # cstr ''> '')"

section \<open>Lines\<close>

text \<open>
  What is printed on a terminal: the list of its lines, the one being written last. A line of 80
  characters is followed by a new one.
\<close>

definition term_put :: "u8 \<Rightarrow> cstring list \<Rightarrow> cstring list" where
  "term_put ch ls =
     (if ch = 10 then ls @ [[]]
      else (let l = last ls @ [ch] in butlast ls @ (if length l < 80 then [l] else [l, []])))"

definition term_print :: "cstring \<Rightarrow> cstring list \<Rightarrow> cstring list" where
  "term_print str = fold term_put str"

text \<open>The bytes of a line on the screen, and the 25 lines that are visible.\<close>

definition line_bytes :: "cstring \<Rightarrow> bytes" where
  "line_bytes l = concat (map (\<lambda>ch. [ch, 0x07]) (l @ replicate (80 - length l) 32))"

definition visible :: "cstring list \<Rightarrow> cstring list" where
  "visible ls = (let v = drop (length ls - 25) ls in v @ replicate (25 - length v) [])"

definition lines_ok :: "cstring list \<Rightarrow> bool" where
  "lines_ok ls \<longleftrightarrow> ls \<noteq> [] \<and> (\<forall>l \<in> set ls. length l \<le> 80) \<and> length (last ls) < 80"

definition on_screen :: "console \<Rightarrow> cstring list \<Rightarrow> bool" where
  "on_screen c ls \<longleftrightarrow> lines_ok ls \<and> vga c = concat (map line_bytes (visible ls)) \<and>
     shell_row c = int (min (length ls) 25) - 1 \<and> shell_col c = int (length (last ls))"

text \<open>The cell of the blinking cursor after the last two writes of registers 15 and 14 of the controller.\<close>

definition cursor_cell :: "console \<Rightarrow> nat option" where
  "cursor_cell c = (case rev (crtc c) of
     (d1, hi) # (p1, r1) # (d2, lo) # (p2, r2) # _ \<Rightarrow>
       if (p2, r2) = (0x3D4, 0x0F) \<and> d2 = 0x3D5 \<and> (p1, r1) = (0x3D4, 0x0E) \<and> d1 = 0x3D5
       then Some (unat lo + 256 * unat hi) else None
   | _ \<Rightarrow> None)"

definition con_ok :: "console \<Rightarrow> bool" where
  "con_ok c \<longleftrightarrow> length (vga c) = 4000 \<and> 0 \<le> shell_row c \<and> shell_row c < 25 \<and> 0 \<le> shell_col c \<and> shell_col c < 80"

section \<open>Cells\<close>

lemma print_char_in:
  assumes "length (vga c) = 4000" "0 \<le> row" "row < 25" "0 \<le> col" "col < 80"
  defines "i \<equiv> 2 * (80 * nat row + nat col)"
  shows "print_char ch col row c = Some (c\<lparr>vga := (vga c)[i := ch, Suc i := 0x07]\<rparr>)"
proof -
  have "nat ((row * 80 + col) * 2) = i" "nat ((row * 80 + col) * 2 + 1) = Suc i"
    using assms(2,4) by (simp_all add: i_def nat_eq_iff)
  moreover have "Suc i < 4000" using assms(2-5) unfolding i_def by (simp add: nat_less_iff)
  moreover have "0 \<le> (row * 80 + col) * 2" using assms by simp
  ultimately show ?thesis using assms(1) by (simp add: print_char_def vga_set_def)
qed

lemma length_line_bytes [simp]: "length l \<le> 80 \<Longrightarrow> length (line_bytes l) = 160"
  by (simp add: line_bytes_def length_concat comp_def sum_list_triv sum_list_replicate)

lemma line_bytes_put:
  assumes "length l < 80"
  shows "(line_bytes l)[2 * length l := ch, Suc (2 * length l) := 0x07] = line_bytes (l @ [ch])"
proof -
  have "80 - length l = Suc (79 - length l)" using assms by simp
  then have pad: "replicate (80 - length l) (32 :: u8) = 32 # replicate (80 - Suc (length l)) 32" by simp
  have len: "length (concat (map (\<lambda>ch. [ch, 7 :: u8]) l)) = 2 * length l"
    by (simp add: length_concat comp_def sum_list_triv)
  show ?thesis unfolding line_bytes_def pad using len by (simp add: list_update_append)
qed

lemma length_screen:
  "\<forall>l \<in> set v. length l \<le> 80 \<Longrightarrow> length (concat (map line_bytes v)) = 160 * length v"
  by (induction v) simp_all

lemma screen_put:
  assumes v: "\<forall>l \<in> set v. length l \<le> 80" and r: "r < length v" and l: "length (v ! r) < 80"
  defines "i \<equiv> 160 * r + 2 * length (v ! r)"
  shows "(concat (map line_bytes v))[i := ch, Suc i := 0x07] = concat (map line_bytes (v[r := v ! r @ [ch]]))"
proof -
  have split: "v = take r v @ v ! r # drop (Suc r) v" using r by (rule id_take_nth_drop)
  have len: "length (concat (map line_bytes (take r v))) = 160 * r"
    using length_screen[of "take r v"] v r by (auto dest: in_set_takeD)
  have "v[r := v ! r @ [ch]] = take r v @ (v ! r @ [ch]) # drop (Suc r) v" using r by (simp add: upd_conv_take_nth_drop)
  moreover have "concat (map line_bytes v) = concat (map line_bytes (take r v)) @ line_bytes (v ! r) @
      concat (map line_bytes (drop (Suc r) v))"
    by (subst split) simp
  ultimately show ?thesis using len l by (simp add: i_def list_update_append line_bytes_put[OF l, symmetric])
qed

text \<open>The loops over cells: \<open>copied\<close> and \<open>filled\<close> are the screens after \<open>n\<close> of their steps.\<close>

definition copied :: "nat \<Rightarrow> bytes \<Rightarrow> bytes" where
  "copied n v = take (2 * n) (drop 160 v) @ drop (2 * n) v"

definition filled :: "nat \<Rightarrow> nat \<Rightarrow> bytes \<Rightarrow> bytes" where
  "filled s n v = take (2 * s) v @ concat (replicate n [32, 0x07]) @ drop (2 * (s + n)) v"

lemma length_copied [simp]: "length v = 4000 \<Longrightarrow> n \<le> 1920 \<Longrightarrow> length (copied n v) = 4000"
  by (simp add: copied_def)

lemma copied_step:
  assumes "length v = 4000" "n < 1920"
  shows "copied n v ! (160 + 2 * n) = v ! (160 + 2 * n)"
    and "copied n v ! Suc (160 + 2 * n) = v ! Suc (160 + 2 * n)"
    and "(copied n v)[2 * n := v ! (160 + 2 * n), Suc (2 * n) := v ! Suc (160 + 2 * n)] = copied (Suc n) v"
proof -
  show "copied n v ! (160 + 2 * n) = v ! (160 + 2 * n)" "copied n v ! Suc (160 + 2 * n) = v ! Suc (160 + 2 * n)"
    using assms by (simp_all add: copied_def nth_append add.commute)
  show "(copied n v)[2 * n := v ! (160 + 2 * n), Suc (2 * n) := v ! Suc (160 + 2 * n)] = copied (Suc n) v"
  proof -
    have "drop (2 * n) v = v ! (2 * n) # v ! Suc (2 * n) # drop (2 * Suc n) v"
      using assms by (simp add: Cons_nth_drop_Suc)
    moreover have "take (2 * Suc n) (drop 160 v) = take (2 * n) (drop 160 v) @ [v ! (160 + 2 * n), v ! Suc (160 + 2 * n)]"
      using assms by (simp add: take_Suc_conv_app_nth)
    ultimately show ?thesis using assms by (simp add: copied_def list_update_append)
  qed
qed

lemma length_filled [simp]: "length v = 4000 \<Longrightarrow> s + n \<le> 2000 \<Longrightarrow> length (filled s n v) = 4000"
  by (simp add: filled_def length_concat sum_list_replicate)

lemma filled_step:
  assumes "length v = 4000" "s + n < 2000"
  shows "(filled s n v)[2 * (s + n) := 32, Suc (2 * (s + n)) := 0x07] = filled s (Suc n) v"
proof -
  have "drop (2 * (s + n)) v = v ! (2 * (s + n)) # v ! Suc (2 * (s + n)) # drop (2 * (s + Suc n)) v"
    using assms by (simp add: Cons_nth_drop_Suc)
  moreover have "length (concat (replicate n [32, 7 :: u8])) = 2 * n" by (simp add: length_concat sum_list_replicate)
  moreover have "concat (replicate (Suc n) [32, 7 :: u8]) = concat (replicate n [32, 7]) @ [32, 7]"
    by (simp flip: replicate_append_same)
  ultimately show ?thesis using assms by (simp add: filled_def list_update_append)
qed

lemma fill_row:
  assumes "length v = 4000" "vga c = filled s n v" "s + n = 80 * row" "row < 25"
  shows "for_range 0 80 (\<lambda>col. print_char 32 (int col) (int row)) c = Some (c\<lparr>vga := filled s (n + 80) v\<rparr>)"
proof -
  define I where "I = (\<lambda>col c'. c' = c\<lparr>vga := filled s (n + col) v\<rparr>)"
  have "\<exists>c'. for_range 0 80 (\<lambda>col. print_char 32 (int col) (int row)) c = Some c' \<and> I (0 + 80) c'"
  proof (rule for_range_inv)
    fix col c' assume "col < 0 + (80 :: nat)" and c': "I col c'"
    then have "filled s (Suc (n + col)) v =
        (filled s (n + col) v)[2 * (80 * row + col) := 32, Suc (2 * (80 * row + col)) := 0x07]"
      using filled_step[of v s "n + col"] assms by (simp add: add.assoc[symmetric])
    then have "print_char 32 (int col) (int row) c' = Some (c\<lparr>vga := filled s (Suc (n + col)) v\<rparr>)"
      using c' assms \<open>col < 0 + 80\<close> by (simp add: I_def print_char_in)
    then show "\<exists>s'. print_char 32 (int col) (int row) c' = Some s' \<and> I (Suc col) s'" by (simp add: I_def)
  qed (simp add: I_def assms(2)[symmetric])
  then show ?thesis by (simp add: I_def)
qed

lemma vga_get_int: "vga_get (int i) c = arr_get (vga c) i"
  by (simp add: vga_get_def)

lemma vga_set_int: "vga_set (int i) b c = do { v \<leftarrow> arr_set (vga c) i b; Some (c\<lparr>vga := v\<rparr>) }"
  by (simp add: vga_set_def)

lemma copy_row:
  assumes "length v = 4000" "vga c = copied (80 * k) v" "k < 24"
  shows "for_range 0 80 (copy_cell (Suc k)) c = Some (c\<lparr>vga := copied (80 * Suc k) v\<rparr>)"
proof -
  define I where "I = (\<lambda>col c'. c' = c\<lparr>vga := copied (80 * k + col) v\<rparr>)"
  have "\<exists>c'. for_range 0 80 (copy_cell (Suc k)) c = Some c' \<and> I (0 + 80) c'"
  proof (rule for_range_inv)
    fix col c' assume "col < 0 + (80 :: nat)" and c': "I col c'"
    define n where "n = 80 * k + col"
    have n: "n < 1920" using \<open>col < 0 + 80\<close> assms(3) by (simp add: n_def)
    have ix: "(int (Suc k) * 80 + int col) * 2 = int (160 + 2 * n)"
      "((int (Suc k) - 1) * 80 + int col) * 2 = int (2 * n)"
      "int (160 + 2 * n) + 1 = int (Suc (160 + 2 * n))" "int (2 * n) + 1 = int (Suc (2 * n))"
      by (simp_all add: n_def)
    note step = copied_step[OF assms(1) n]
    have len: "length (copied n v) = 4000" using assms(1) n by simp
    have c'': "c' = c\<lparr>vga := copied n v\<rparr>" using c' by (simp add: I_def n_def)
    have "copy_cell (Suc k) col c' = Some (c\<lparr>vga := (copied n v)[2 * n := copied n v ! (160 + 2 * n),
        Suc (2 * n) := copied n v ! Suc (160 + 2 * n)]\<rparr>)"
      unfolding copy_cell_def Let_def ix vga_get_int vga_set_int c'' using len n by simp
    then have "copy_cell (Suc k) col c' = Some (c\<lparr>vga := copied (Suc n) v\<rparr>)" unfolding step .
    moreover have "I (Suc col) (c\<lparr>vga := copied (Suc n) v\<rparr>)" by (simp add: I_def n_def)
    ultimately show "\<exists>s'. copy_cell (Suc k) col c' = Some s' \<and> I (Suc col) s'" by blast
  qed (simp add: I_def assms(2)[symmetric])
  moreover have "80 * k + (0 + 80) = 80 * Suc k" by simp
  ultimately show ?thesis unfolding I_def by metis
qed

lemma scroll_screen:
  assumes "length (vga c) = 4000"
  shows "shell_scroll c = Some (c\<lparr>vga := drop 160 (vga c) @ line_bytes [], shell_row := 24, shell_col := 0\<rparr>)"
proof -
  let ?v = "vga c"
  let ?f = "\<lambda>row. for_range 0 80 (copy_cell row)"
  define I where "I = (\<lambda>row c'. 1 \<le> row \<and> c' = c\<lparr>vga := copied (80 * (row - 1)) ?v\<rparr>)"
  have "\<exists>c'. for_range 1 24 ?f c = Some c' \<and> I (1 + 24) c'"
  proof (rule for_range_inv)
    fix row c' assume "1 \<le> row" "row < 1 + (24 :: nat)" and c': "I row c'"
    then obtain k where k: "row = Suc k" "k < 24" by (cases row) auto
    show "\<exists>s'. ?f row c' = Some s' \<and> I (Suc row) s'"
      using copy_row[of ?v c' k] c' k assms by (simp add: I_def)
  qed (simp add: I_def copied_def)
  then have copy: "for_range 1 24 ?f c = Some (c\<lparr>vga := copied 1920 ?v\<rparr>)" by (simp add: I_def)
  have "filled 1920 80 (copied 1920 ?v) = drop 160 ?v @ line_bytes []"
    using assms by (simp add: filled_def copied_def line_bytes_def map_concat comp_def flip: map_replicate_const)
  moreover have "for_range 0 80 (\<lambda>col. print_char 32 (int col) (int 24)) (c\<lparr>vga := copied 1920 ?v\<rparr>) =
      Some (c\<lparr>vga := filled 1920 (0 + 80) (copied 1920 ?v)\<rparr>)"
    using fill_row[of "copied 1920 ?v" "c\<lparr>vga := copied 1920 ?v\<rparr>" 1920 0 24] assms by (simp add: filled_def)
  ultimately show ?thesis unfolding shell_scroll_def copy by simp
qed

lemma concat_replicate_concat: "concat (replicate m (concat (replicate n xs))) = concat (replicate (m * n) xs)"
  by (induction m) (simp_all add: replicate_add)

lemma clear_screen:
  assumes "length (vga c) = 4000"
  shows "shell_clear_screen c =
    Some (update_cursor 0 0 (c\<lparr>vga := concat (replicate 25 (line_bytes [])), shell_row := 0, shell_col := 0\<rparr>))"
proof -
  let ?f = "\<lambda>row. for_range 0 80 (\<lambda>col. print_char 32 (int col) (int row))"
  define I where "I = (\<lambda>row c'. c' = c\<lparr>vga := filled 0 (80 * row) (vga c)\<rparr>)"
  have "\<exists>c'. for_range 0 25 ?f c = Some c' \<and> I (0 + 25) c'"
  proof (rule for_range_inv)
    fix row c' assume "row < 0 + (25 :: nat)" and c': "I row c'"
    then show "\<exists>s'. ?f row c' = Some s' \<and> I (Suc row) s'"
      using fill_row[of "vga c" c' 0 "80 * row" row] assms by (simp add: I_def add.commute)
  qed (simp add: I_def filled_def)
  moreover have "filled 0 2000 (vga c) = concat (replicate 25 (line_bytes []))"
    using assms by (simp add: filled_def line_bytes_def map_replicate_const concat_replicate_concat)
  ultimately show ?thesis by (auto simp: shell_clear_screen_def I_def)
qed

section \<open>The screen shows the last lines\<close>

lemma length_visible [simp]: "length (visible ls) = 25"
  by (simp add: visible_def Let_def)

lemma visible_short: "\<forall>l \<in> set ls. length l \<le> 80 \<Longrightarrow> \<forall>l \<in> set (visible ls). length l \<le> 80"
  by (auto simp: visible_def Let_def dest: in_set_dropD)

lemma visible_last: "ls \<noteq> [] \<Longrightarrow> visible ls ! (min (length ls) 25 - 1) = last ls"
  by (cases "length ls \<le> 25") (auto simp: visible_def Let_def nth_append last_conv_nth min_def)

lemma visible_replace:
  assumes "ls \<noteq> []"
  shows "visible (butlast ls @ [l]) = (visible ls)[min (length ls) 25 - 1 := l]"
proof -
  obtain ks k where ls: "ls = ks @ [k]" using assms by (metis append_butlast_last_id)
  show ?thesis unfolding ls by (cases "length ks < 25") (simp_all add: visible_def Let_def list_update_append)
qed

lemma visible_new: "length ls < 25 \<Longrightarrow> visible (ls @ [[]]) = visible ls"
  by (simp add: visible_def Let_def Suc_diff_Suc flip: replicate_Suc)

lemma visible_scroll:
  assumes "25 \<le> length ls"
  shows "visible (ls @ [[]]) = tl (visible ls) @ [[]]"
proof -
  have "length ls - 24 = Suc (length ls - 25)" using assms by simp
  then have "drop (length ls - 24) ls = tl (drop (length ls - 25) ls)" by (simp add: drop_Suc tl_drop)
  then show ?thesis using assms by (simp add: visible_def Let_def)
qed

lemma newline_lines:
  assumes v: "vga c = concat (map line_bytes (visible ls))" and r: "shell_row c = int (min (length ls) 25) - 1"
    and ls: "ls \<noteq> []" and short: "\<forall>l \<in> set ls. length l \<le> 80"
  obtains c' where "shell_newline c = Some c'" "on_screen c' (ls @ [[]])"
proof (cases "length ls < 25")
  case True
  then have "on_screen (c\<lparr>shell_col := 0, shell_row := shell_row c + 1\<rparr>) (ls @ [[]])"
    using assms by (simp add: on_screen_def lines_ok_def visible_new)
  moreover have "shell_newline c = Some (c\<lparr>shell_col := 0, shell_row := shell_row c + 1\<rparr>)"
    using True r by (simp add: shell_newline_def)
  ultimately show ?thesis using that by blast
next
  case False
  obtain l vs where vs: "visible ls = l # vs" by (metis length_visible list.exhaust list.size(3) zero_neq_numeral)
  have l: "\<forall>l \<in> set (visible ls). length l \<le> 80" using short by (rule visible_short)
  have len: "length (vga c) = 4000" using length_screen[OF l] v by simp
  let ?c = "c\<lparr>shell_col := 0, shell_row := shell_row c + 1\<rparr>"
  let ?c' = "?c\<lparr>vga := drop 160 (vga c) @ line_bytes [], shell_row := 24, shell_col := 0\<rparr>"
  have "shell_newline c = Some ?c'" using scroll_screen[of ?c] len False r by (simp add: shell_newline_def)
  moreover have "drop 160 (vga c) @ line_bytes [] = concat (map line_bytes (visible (ls @ [[]])))"
    using v l vs False by (simp add: visible_scroll)
  then have "on_screen ?c' (ls @ [[]])" using ls short False by (simp add: on_screen_def lines_ok_def)
  ultimately show ?thesis using that by blast
qed

lemma put_lines:
  assumes "on_screen c ls"
  obtains c' where "shell_put ch c = Some c'" "on_screen c' (term_put ch ls)"
proof (cases "ch = 10")
  case True
  with assms show ?thesis
    using newline_lines[of c ls] that by (auto simp: on_screen_def lines_ok_def shell_put_def term_put_def)
next
  case False
  let ?r = "min (length ls) 25 - 1" and ?l = "last ls @ [ch]"
  have ls: "ls \<noteq> []" and last: "length (last ls) < 80" and short: "\<forall>l \<in> set ls. length l \<le> 80"
    and v: "vga c = concat (map line_bytes (visible ls))"
    and row: "shell_row c = int ?r" and col: "shell_col c = int (length (last ls))"
    using assms by (auto simp: on_screen_def lines_ok_def of_nat_diff Suc_le_eq)
  have vs: "\<forall>l \<in> set (visible ls). length l \<le> 80" using short by (rule visible_short)
  have r: "?r < 25" by simp
  let ?c = "c\<lparr>vga := concat (map line_bytes (visible (butlast ls @ [?l]))), shell_col := shell_col c + 1\<rparr>"
  have len: "length (vga c) = 4000" using length_screen[OF vs] v by simp
  note put = screen_put[OF vs, of ?r ch, unfolded visible_last[OF ls] length_visible, OF r last]
  have "print_char ch (shell_col c) (shell_row c) c =
      Some (c\<lparr>vga := concat (map line_bytes (visible (butlast ls @ [?l])))\<rparr>)"
    unfolding visible_replace[OF ls] put[symmetric] v[symmetric]
    using print_char_in[OF len, of "int ?r" "int (length (last ls))"] row col r last by simp
  then have put: "shell_put ch c = (if length (last ls) + 1 < 80 then Some ?c else shell_newline ?c)"
    using False col by (simp add: shell_put_def)
  have short': "\<forall>l \<in> set (butlast ls @ [?l]). length l \<le> 80"
    using short last by (auto dest: in_set_butlastD)
  have len: "length (butlast ls @ [?l]) = length ls" using ls by simp
  show ?thesis
  proof (cases "length (last ls) + 1 < 80")
    case True
    then have "on_screen ?c (butlast ls @ [?l])"
      using short' row col ls len by (simp add: on_screen_def lines_ok_def of_nat_diff Suc_le_eq)
    then show ?thesis using that[of ?c] put True False by (simp add: term_put_def)
  next
    case full: False
    have "shell_row ?c = int (min (length (butlast ls @ [?l])) 25) - 1"
      using row ls len by (simp add: of_nat_diff Suc_le_eq)
    then obtain c' where "shell_newline ?c = Some c'" "on_screen c' ((butlast ls @ [?l]) @ [[]])"
      using newline_lines[of ?c "butlast ls @ [?l]"] short' by auto
    then show ?thesis using that[of c'] put full False by (simp add: term_put_def)
  qed
qed

lemma put_all_lines:
  assumes "on_screen c ls"
  obtains c' where "shell_put_all str c = Some c'" "on_screen c' (term_print str ls)"
  using assms
proof (induction str arbitrary: c ls thesis)
  case Nil
  then show ?case by (simp add: term_print_def)
next
  case (Cons ch str)
  obtain d where d: "shell_put ch c = Some d" "on_screen d (term_put ch ls)" using put_lines Cons.prems(2) .
  obtain c' where "shell_put_all str d = Some c'" "on_screen c' (term_print str (term_put ch ls))"
    using Cons.IH[OF _ d(2)] .
  then show ?case using d Cons.prems(1) by (simp add: term_print_def)
qed

lemma on_screen_upd [simp]: "on_screen (update_cursor col row c) ls = on_screen c ls"
  by (simp add: on_screen_def update_cursor_def outb_def Let_def)

lemma con_ok_upd [simp]: "con_ok (update_cursor col row c) = con_ok c"
  by (simp add: con_ok_def update_cursor_def outb_def Let_def)

lemma update_cursor_pos [simp]:
  "shell_row (update_cursor col row c) = shell_row c" "shell_col (update_cursor col row c) = shell_col c"
  by (simp_all add: update_cursor_def outb_def Let_def)

lemma low_high_bytes: "unat (ucast (w AND 0xFF) :: u8) + 256 * unat (ucast (drop_bit 8 w AND 0xFF) :: u8) = unat (w :: u16)"
proof -
  have low: "ucast (v AND 0xFF) = (ucast v :: u8)" for v :: u16
  proof -
    have m: "(0xFF :: u16) = mask 8" by (simp add: mask_eq_exp_minus_1)
    show ?thesis unfolding m by (rule bit_eqI) (auto simp: bit_simps)
  qed
  have w: "unat w < 65536" using unsigned_less[of w, where ?'a = nat] by simp
  then have "unat w div 256 mod 256 = unat w div 256" by (simp add: less_mult_imp_div_less)
  moreover have "unat (drop_bit 8 w) = unat w div 256" using w unfolding unsigned_drop_bit_eq by (simp add: drop_bit_eq_div take_bit_eq_mod)
  ultimately show ?thesis
    unfolding low by (simp add: unsigned_ucast_eq take_bit_eq_mod)
qed

lemma cursor_cell_update:
  assumes "0 \<le> row" "row < 25" "0 \<le> col" "col < 80"
  shows "cursor_cell (update_cursor col row c) = Some (nat (row * 80 + col))"
proof -
  have pos: "of_int (row * 80 + col) = (of_nat (nat (row * 80 + col)) :: u16)" using assms by simp
  have "nat (row * 80 + col) < 65536" using assms by simp
  then have "unat (of_nat (nat (row * 80 + col)) :: u16) = nat (row * 80 + col)"
    by (simp add: unat_of_nat take_bit_eq_mod)
  then show ?thesis
    unfolding update_cursor_def outb_def Let_def pos cursor_cell_def by (simp add: low_high_bytes del: of_nat_nat)
qed

lemma print_lines:
  assumes "on_screen c ls"
  obtains c' where "shell_print str c = Some c'" "on_screen c' (term_print str ls)"
    "cursor_cell c' = Some (nat (shell_row c' * 80 + shell_col c'))"
proof -
  obtain d where d: "shell_put_all str c = Some d" "on_screen d (term_print str ls)" using put_all_lines assms .
  then have "0 \<le> shell_row d" "shell_row d < 25" "0 \<le> shell_col d" "shell_col d < 80"
    by (auto simp: on_screen_def lines_ok_def of_nat_diff Suc_le_eq min_def)
  with d that show ?thesis by (simp add: shell_print_def cursor_cell_update)
qed

text \<open>
  C28. \<open>shell_print\<close> is a terminal: when the screen shows the last 25 of the lines printed so far, it
  returns, nothing is written outside of the screen, the screen shows the last 25 lines with the text
  added, broken at line feeds and after 80 characters, and the cursor stands where the next character goes.
\<close>

theorem shell_print_shows:
  assumes "on_screen c ls"
  shows "\<exists>c'. shell_print str c = Some c' \<and> on_screen c' (term_print str ls) \<and>
    cursor_cell c' = Some (nat (shell_row c' * 80 + shell_col c'))"
  using print_lines[OF assms] by metis

text \<open>A blank screen.\<close>

definition blank_console :: console where
  "blank_console = \<lparr>vga = concat (replicate 25 (line_bytes [])), crtc = [], shell_row = 0, shell_col = 0\<rparr>"

lemma blank_shows: "on_screen blank_console [[]]"
proof -
  have "visible [[]] = replicate 25 []" by (simp add: visible_def flip: replicate_Suc)
  then show ?thesis by (simp add: on_screen_def lines_ok_def blank_console_def)
qed

theorem shell_print_shows_witness:
  "\<exists>c'. shell_print (cstr ''> '') blank_console = Some c' \<and> on_screen c' [cstr ''> ''] \<and> cursor_cell c' = Some 2"
proof -
  obtain c' where c': "shell_print (cstr ''> '') blank_console = Some c'" "on_screen c' (term_print (cstr ''> '') [[]])"
    "cursor_cell c' = Some (nat (shell_row c' * 80 + shell_col c'))"
    using shell_print_shows[OF blank_shows] by blast
  have "term_print (cstr ''> '') [[]] = [cstr ''> '']" by (simp add: term_print_def term_put_def)
  with c' show ?thesis by (auto simp: on_screen_def)
qed

text \<open>The screen after \<open>shell_clear_screen\<close>, from any state.\<close>

lemma clear_shows:
  assumes "length (vga c) = 4000"
  obtains c' where "shell_clear_screen c = Some c'" "on_screen c' [[]]"
proof -
  have "visible [[]] = replicate 25 []" by (simp add: visible_def flip: replicate_Suc)
  then have "on_screen (c\<lparr>vga := concat (replicate 25 (line_bytes [])), shell_row := 0, shell_col := 0\<rparr>) [[]]"
    by (simp add: on_screen_def lines_ok_def)
  then show ?thesis using clear_screen[OF assms] that by simp
qed

text \<open>The rows from 25 on that the boot code prints its messages on are not on the screen.\<close>

lemma print_string_below:
  assumes "length (vga c) = 4000" "25 \<le> row" "str \<noteq> []"
  shows "print_string str row c = None"
proof -
  obtain ch cs where str: "str = ch # cs" using assms(3) by (cases str) auto
  have "4000 \<le> nat (row * 80 * 2)" using assms(2) by simp
  then have "print_char ch 0 row c = None" using assms(1) by (simp add: print_char_def vga_set_def arr_set_def)
  then show ?thesis by (simp add: str print_string_def)
qed

section \<open>Every state of the screen\<close>

lemma newline_ok:
  assumes "length (vga c) = 4000" "0 \<le> shell_row c" "shell_row c < 25"
  obtains c' where "shell_newline c = Some c'" "con_ok c'"
  using that assms by (cases "shell_row c = 24") (auto simp: shell_newline_def scroll_screen con_ok_def)

lemma print_char_ok:
  assumes "con_ok c"
  obtains d where "print_char ch (shell_col c) (shell_row c) c = Some d" "con_ok d"
  using that print_char_in[of c "shell_row c" "shell_col c" ch] assms by (simp add: con_ok_def)

lemma on_screen_ok: "on_screen c ls \<Longrightarrow> con_ok c"
  using length_screen[OF visible_short, of ls]
  by (auto simp: on_screen_def lines_ok_def con_ok_def of_nat_diff Suc_le_eq min_def)

lemma put_ok:
  assumes "con_ok c"
  obtains c' where "shell_put ch c = Some c'" "con_ok c'"
proof (cases "ch = 10 \<or> shell_col c \<ge> 79")
  case True
  obtain v where v: "print_char ch (shell_col c) (shell_row c) c = Some (c\<lparr>vga := v\<rparr>)" "length v = 4000"
    using print_char_in[of c "shell_row c" "shell_col c" ch] assms by (simp add: con_ok_def)
  let ?c = "if ch = 10 then c else c\<lparr>vga := v, shell_col := shell_col c + 1\<rparr>"
  obtain c' where "shell_newline ?c = Some c'" "con_ok c'"
    by (rule newline_ok[of ?c]) (use v(2) assms in \<open>auto simp: con_ok_def\<close>)
  then show ?thesis using that[of c'] True v(1) by (auto simp: shell_put_def split: if_splits)
next
  case False
  then show ?thesis using that print_char_in[of c "shell_row c" "shell_col c" ch] assms
    by (auto simp: con_ok_def shell_put_def)
qed

lemma put_all_ok:
  assumes "con_ok c"
  obtains c' where "shell_put_all str c = Some c'" "con_ok c'"
  using assms
proof (induction str arbitrary: c thesis)
  case (Cons ch str)
  obtain d where d: "shell_put ch c = Some d" "con_ok d" using put_ok Cons.prems(2) .
  then show ?case using Cons.IH[of d] Cons.prems(1) by auto
qed simp

lemma term_print_append [simp]: "term_print (a @ b) ls = term_print b (term_print a ls)"
  by (simp add: term_print_def)

lemma print_ok:
  assumes "con_ok c"
  obtains c' where "shell_print str c = Some c'" "con_ok c'"
proof -
  obtain d where "shell_put_all str c = Some d" "con_ok d" using put_all_ok assms .
  then show ?thesis using that by (simp add: shell_print_def)
qed

text \<open>The loop of \<open>shell_print_raw\<close> prints what is not zero of the first \<open>len\<close> bytes.\<close>

lemma print_raw_eq:
  assumes "nat len \<le> length str"
  shows "shell_print_raw str len c = shell_print (filter (\<lambda>ch. ch \<noteq> 0) (take (nat len) str)) c"
proof -
  let ?f = "\<lambda>i c. do { ch \<leftarrow> arr_get str i; if ch \<noteq> 0 then shell_put ch c else Some c }"
  have "for_range i n ?f = shell_put_all (filter (\<lambda>ch. ch \<noteq> 0) (take n (drop i str)))" if "i + n \<le> length str" for i n
    using that
  proof (induction n arbitrary: i)
    case (Suc n)
    then have "drop i str = str ! i # drop (Suc i) str" by (simp add: Cons_nth_drop_Suc)
    with Suc show ?case by (intro ext) simp
  qed (intro ext, simp)
  from this[of 0 "nat len"] assms show ?thesis by (simp add: shell_print_raw_def shell_print_def)
qed

end
