(* ===== verification/Blkdev.thy ===== *)
theory Blkdev
  imports Prelude
begin

text \<open>
  The table of block devices (\<open>src/src/drivers/blkdev.c\<close>). The two functions a driver registers
  work on the state \<open>'d\<close> of its hardware: \<open>read\<close> takes the block number and the old contents of
  the caller's buffer and gives the result and the new contents, \<open>write\<close> takes the block number
  and the bytes of the buffer. A pointer to a device is its index in the table.
\<close>

section \<open>State and operations\<close>

definition MAX_BLOCK_DEVICES :: nat where "MAX_BLOCK_DEVICES = 8"

type_synonym 'd blk_read = "u32 \<Rightarrow> bytes \<Rightarrow> 'd \<Rightarrow> (int \<times> bytes \<times> 'd) option"
type_synonym 'd blk_write = "u32 \<Rightarrow> bytes \<Rightarrow> 'd \<Rightarrow> (int \<times> 'd) option"

record 'd block_device =
  bd_name :: cstring
  bd_in_use :: bool
  bd_size :: u32
  bd_read :: "'d blk_read option"
  bd_write :: "'d blk_write option"
  bd_private :: ptr

record 'd blkdevs =
  block_devices :: "'d block_device list"
  bd_hw :: 'd

definition blkdev_init :: "'d blkdevs \<Rightarrow> 'd blkdevs option" where
  "blkdev_init s = for_range 0 MAX_BLOCK_DEVICES (\<lambda>i s. do {
     d \<leftarrow> arr_get (block_devices s) i;
     ds \<leftarrow> arr_set (block_devices s) i (d\<lparr>bd_name := [], bd_in_use := False\<rparr>);
     Some (s\<lparr>block_devices := ds\<rparr>)
   }) s"

definition blkdev_register ::
  "cstring \<Rightarrow> u32 \<Rightarrow> 'd blk_read option \<Rightarrow> 'd blk_write option \<Rightarrow> ptr \<Rightarrow> 'd blkdevs \<Rightarrow> int \<times> 'd blkdevs" where
  "blkdev_register name sz rd wr private_data s =
     (case find_first 0 MAX_BLOCK_DEVICES (\<lambda>i. \<not> bd_in_use (block_devices s ! i)) of
        None \<Rightarrow> (- 1, s)
      | Some i \<Rightarrow> (int i, s\<lparr>block_devices := (block_devices s)[i :=
          \<lparr>bd_name = strncpy_buf 16 name, bd_in_use = True, bd_size = sz, bd_read = rd, bd_write = wr,
           bd_private = private_data\<rparr>]\<rparr>))"

definition blkdev_get :: "cstring \<Rightarrow> 'd blkdevs \<Rightarrow> nat option" where
  "blkdev_get name s = find_first 0 MAX_BLOCK_DEVICES
     (\<lambda>i. bd_in_use (block_devices s ! i) \<and> strcmp_eq (bd_name (block_devices s ! i)) name)"

definition blkdev_read :: "nat option \<Rightarrow> u32 \<Rightarrow> bytes \<Rightarrow> 'd blkdevs \<Rightarrow> (int \<times> bytes \<times> 'd blkdevs) option" where
  "blkdev_read dev block buffer s = (case dev of
     None \<Rightarrow> Some (- 1, buffer, s)
   | Some i \<Rightarrow> do {
       d \<leftarrow> arr_get (block_devices s) i;
       case bd_read d of
         None \<Rightarrow> Some (- 1, buffer, s)
       | Some rd \<Rightarrow>
           if \<not> bd_in_use d then Some (- 1, buffer, s)
           else if block \<ge> bd_size d then Some (- 1, buffer, s)
           else do {
             (r, buffer, hw) \<leftarrow> rd block buffer (bd_hw s);
             Some (r, buffer, s\<lparr>bd_hw := hw\<rparr>)
           }
     })"

definition blkdev_write :: "nat option \<Rightarrow> u32 \<Rightarrow> bytes \<Rightarrow> 'd blkdevs \<Rightarrow> (int \<times> 'd blkdevs) option" where
  "blkdev_write dev block buffer s = (case dev of
     None \<Rightarrow> Some (- 1, s)
   | Some i \<Rightarrow> do {
       d \<leftarrow> arr_get (block_devices s) i;
       case bd_write d of
         None \<Rightarrow> Some (- 1, s)
       | Some wr \<Rightarrow>
           if \<not> bd_in_use d then Some (- 1, s)
           else if block \<ge> bd_size d then Some (- 1, s)
           else do {
             (r, hw) \<leftarrow> wr block buffer (bd_hw s);
             Some (r, s\<lparr>bd_hw := hw\<rparr>)
           }
     })"

section \<open>Registration and lookup\<close>

definition blk_wf :: "'d blkdevs \<Rightarrow> bool" where
  "blk_wf s \<longleftrightarrow> length (block_devices s) = MAX_BLOCK_DEVICES"

lemma MAX_BLOCK_DEVICES_simp [simp]: "MAX_BLOCK_DEVICES = 8"
  by (simp add: MAX_BLOCK_DEVICES_def)

lemma blkdev_get_SomeD:
  assumes "blkdev_get name s = Some i"
  shows "i < 8" and "bd_in_use (block_devices s ! i)" and "bd_name (block_devices s ! i) = name"
  using find_first_SomeD[of 8 _ i] assms by (auto simp: blkdev_get_def)

text \<open>
  Registering a block device: with a free place the result is the place, the device can then be
  found under the first 15 bytes of its name, and every device found before under another name is
  found where it was. With none the result is -1 and nothing changes.
\<close>
theorem blkdev_register_correct:
  assumes "blk_wf s"
  shows "if \<forall>i<8. bd_in_use (block_devices s ! i) then blkdev_register name sz rd wr priv s = (- 1, s)
    else \<exists>i s'. blkdev_register name sz rd wr priv s = (int i, s') \<and> blk_wf s' \<and> i < 8 \<and>
      \<not> bd_in_use (block_devices s ! i) \<and> bd_size (block_devices s' ! i) = sz \<and>
      bd_read (block_devices s' ! i) = rd \<and> bd_write (block_devices s' ! i) = wr \<and>
      blkdev_get (take 15 name) s' \<noteq> None \<and>
      (\<forall>n. n \<noteq> take 15 name \<longrightarrow> blkdev_get n s' = blkdev_get n s)"
proof (cases "find_first 0 8 (\<lambda>i. \<not> bd_in_use (block_devices s ! i))")
  case None
  then show ?thesis using find_first_None[of 0 8 "\<lambda>i. \<not> bd_in_use (block_devices s ! i)"]
    by (simp add: blkdev_register_def)
next
  case (Some i)
  note i = find_first_SomeD[OF Some]
  let ?d = "\<lparr>bd_name = strncpy_buf 16 name, bd_in_use = True, bd_size = sz, bd_read = rd, bd_write = wr,
     bd_private = priv\<rparr>"
  let ?s = "s\<lparr>block_devices := (block_devices s)[i := ?d]\<rparr>"
  have len: "i < length (block_devices s)" using i(1) assms by (simp add: blk_wf_def)
  have "blkdev_get (take 15 name) ?s \<noteq> None"
    unfolding blkdev_get_def find_first_None using i(1) len by (auto simp: nth_list_update strncpy_buf_def)
  moreover have "blkdev_get n ?s = blkdev_get n s" if "n \<noteq> take 15 name" for n
    unfolding blkdev_get_def by (rule find_first_cong) (use i(2) len that in \<open>auto simp: nth_list_update strncpy_buf_def\<close>)
  ultimately show ?thesis using i Some assms by (auto simp: blkdev_register_def blk_wf_def)
qed

text \<open>
  C12. A device that is missing, not in use or without the function, and a block past the end of the
  device, are refused with -1, and neither the device nor the buffer is touched: the driver only
  sees block numbers of its device.
\<close>
theorem blkdev_bounds:
  assumes "i < length (block_devices s)" "d = block_devices s ! i"
    and "\<not> bd_in_use d \<or> block \<ge> bd_size d"
  shows "blkdev_read (Some i) block buf s = Some (- 1, buf, s) \<and> blkdev_write (Some i) block buf s = Some (- 1, s)"
  using assms by (auto simp: blkdev_read_def blkdev_write_def split: option.splits)

definition sample_blkdevs :: "unit blkdevs" where
  "sample_blkdevs = \<lparr>block_devices = replicate 8 \<lparr>bd_name = [], bd_in_use = False, bd_size = 0, bd_read = None,
     bd_write = None, bd_private = NULL\<rparr>, bd_hw = ()\<rparr>"

lemma blkdev_register_correct_witness:
  "\<exists>i s'. blkdev_register (cstr ''hda'') 100 None None NULL sample_blkdevs = (int i, s') \<and>
     blkdev_get (cstr ''hda'') s' \<noteq> None"
proof -
  have "blk_wf sample_blkdevs" "\<not> (\<forall>i<8. bd_in_use (block_devices sample_blkdevs ! i))"
    by (auto simp: blk_wf_def sample_blkdevs_def intro: exI[of _ 0])
  with blkdev_register_correct[of sample_blkdevs "cstr ''hda''" 100 None None NULL] show ?thesis
    by (auto simp: cstr_def)
qed

lemma blkdev_bounds_witness: "blkdev_write (Some 2) 7 [] sample_blkdevs = Some (- 1, sample_blkdevs)"
proof -
  have "2 < length (block_devices sample_blkdevs)" "\<not> bd_in_use (block_devices sample_blkdevs ! 2)"
    by (simp_all add: sample_blkdevs_def)
  with blkdev_bounds[of 2 sample_blkdevs] show ?thesis by blast
qed

end
