(* ===== verification/FsTypes.thy ===== *)
theory FsTypes
  imports Kmalloc Blkdev
begin

text \<open>
  The data of the file systems (\<open>vfs.h\<close>, \<open>ramfs.h\<close>, \<open>vrfs.h\<close>, \<open>mount.h\<close>, \<open>devfs.h\<close>, \<open>procfs.h\<close> in \<open>src/src/include/\<close>) and the store
  they live in. Every structure comes from \<open>kmalloc\<close>: \<open>objs\<close> maps the addresses that are in use for
  a structure to its value, tagged with its type, and the heap is the model of \<open>kmalloc.c\<close>. Reading
  memory as a structure that is not there, or as one of another type, is an undefined execution. The
  tables of operations are static, so a pointer to one is a tag.

  What \<open>kmalloc\<close> returns is not cleared: \<open>junk\<close> is what the memory of each allocation holds, in
  words. It is arbitrary, and the properties hold for every value of it.
\<close>

section \<open>Structures\<close>

datatype fs_ops = No_ops | Ramfs_ops | Vrfs_ops | Devfs_ops | Procfs_ops

record inode =
  i_ino :: u32
  i_mode :: u32
  i_type :: u32
  i_uid :: u32
  i_gid :: u32
  i_size :: u32
  i_atime :: u32
  i_mtime :: u32
  i_ctime :: u32
  i_links :: u32
  i_private :: ptr
  i_iop :: fs_ops
  i_fop :: fs_ops
  i_sb :: ptr

record open_file =
  f_inode :: ptr
  f_flags :: u32
  f_pos :: u32
  f_ref_count :: u32
  f_op :: fs_ops
  f_private :: ptr

record dentry =
  d_name :: cstring
  d_inode :: ptr
  d_parent :: ptr
  d_next :: ptr
  d_child :: ptr

record superblock =
  sb_magic :: u32
  sb_block_size :: u32
  sb_max_files :: u32
  sb_private :: ptr
  sb_root :: ptr
  sb_root_inode :: ptr

record ramfs_dirent =
  rd_name :: cstring
  rd_inode :: ptr
  rd_next :: ptr

text \<open>
  The node of the RAM file system is a union: a file has a buffer, its capacity and its size, a
  directory a list of entries and their number (in the places of the buffer and the capacity).
\<close>

datatype ramfs_node =
    Ram_file (rn_data: ptr) (rn_capacity: u32) (rn_size: u32)
  | Ram_dir (rn_entries: ptr) (rn_num_entries: u32)

record vrfs_superblock =
  vs_magic :: u32
  vs_block_count :: u32
  vs_inode_count :: u32
  vs_free_blocks :: u32
  vs_free_inodes :: u32
  vs_inode_bitmap_block :: u32
  vs_block_bitmap_block :: u32
  vs_inode_table_block :: u32
  vs_data_block_start :: u32

text \<open>The block pointers of an inode are kept as a list of 12, its padding as 12 bytes.\<close>

record vrfs_inode =
  vi_mode :: u16
  vi_links :: u16
  vi_size :: u32
  vi_blocks :: u32
  vi_direct :: "u32 list"
  vi_indirect :: u32
  vi_padding :: bytes

record vrfs_sb_info =
  si_sb :: vrfs_superblock
  si_bdev :: "nat option"
  si_inode_bitmap :: ptr
  si_block_bitmap :: ptr

record vrfs_inode_info =
  ii_disk :: vrfs_inode
  ii_no :: u32

datatype devfs_device_type = DEV_NULL | DEV_ZERO | DEV_RANDOM

datatype procfs_file_type = PROCFS_UPTIME | PROCFS_MEMINFO | PROCFS_TASKS

datatype obj =
    Inode inode
  | File open_file
  | Dentry dentry
  | Superblock superblock
  | Ram_node ramfs_node
  | Ram_dirent ramfs_dirent
  | Buf bytes
  | Vrfs_sb vrfs_sb_info
  | Vrfs_info vrfs_inode_info
  | Dev_node devfs_device_type
  | Proc_node procfs_file_type

record mount_point =
  mp_path :: cstring
  mp_sb :: ptr
  mp_bdev :: "nat option"
  mp_in_use :: bool

definition MAX_MOUNT_POINTS :: nat where "MAX_MOUNT_POINTS = 8"

record 'd fs =
  fs_heap :: heap
  objs :: "ptr \<rightharpoonup> obj"
  junk :: "nat \<Rightarrow> nat \<Rightarrow> u32"
  fresh :: nat
  next_ino :: u32
  root_sb :: ptr
  mount_table :: "mount_point list"
  random_seed :: u32
  blk :: "'d blkdevs"

definition VFS_NAME_MAX :: nat where "VFS_NAME_MAX = 256"
definition VFS_FILE :: u32 where "VFS_FILE = 0x01"
definition VFS_DIRECTORY :: u32 where "VFS_DIRECTORY = 0x02"

text \<open>Sizes of the structures, on the 32-bit machine.\<close>

definition sizeof_inode :: u32 where "sizeof_inode = 56"
definition sizeof_file :: u32 where "sizeof_file = 24"
definition sizeof_dentry :: u32 where "sizeof_dentry = 272"
definition sizeof_superblock :: u32 where "sizeof_superblock = 24"
definition sizeof_ramfs_node :: u32 where "sizeof_ramfs_node = 12"
definition sizeof_ramfs_dirent :: u32 where "sizeof_ramfs_dirent = 264"
definition sizeof_devfs_node :: u32 where "sizeof_devfs_node = 8"
definition sizeof_procfs_node :: u32 where "sizeof_procfs_node = 12"
definition sizeof_vrfs_sb_info :: u32 where "sizeof_vrfs_sb_info = 524"
definition sizeof_vrfs_inode_info :: u32 where "sizeof_vrfs_inode_info = 80"

section \<open>The store\<close>

definition inode_at :: "'d fs \<Rightarrow> ptr \<Rightarrow> inode option" where
  "inode_at s p = (case objs s p of Some (Inode i) \<Rightarrow> Some i | _ \<Rightarrow> None)"

definition file_at :: "'d fs \<Rightarrow> ptr \<Rightarrow> open_file option" where
  "file_at s p = (case objs s p of Some (File f) \<Rightarrow> Some f | _ \<Rightarrow> None)"

definition dentry_at :: "'d fs \<Rightarrow> ptr \<Rightarrow> dentry option" where
  "dentry_at s p = (case objs s p of Some (Dentry d) \<Rightarrow> Some d | _ \<Rightarrow> None)"

definition sb_at :: "'d fs \<Rightarrow> ptr \<Rightarrow> superblock option" where
  "sb_at s p = (case objs s p of Some (Superblock b) \<Rightarrow> Some b | _ \<Rightarrow> None)"

definition node_at :: "'d fs \<Rightarrow> ptr \<Rightarrow> ramfs_node option" where
  "node_at s p = (case objs s p of Some (Ram_node n) \<Rightarrow> Some n | _ \<Rightarrow> None)"

definition dirent_at :: "'d fs \<Rightarrow> ptr \<Rightarrow> ramfs_dirent option" where
  "dirent_at s p = (case objs s p of Some (Ram_dirent d) \<Rightarrow> Some d | _ \<Rightarrow> None)"

definition buf_at :: "'d fs \<Rightarrow> ptr \<Rightarrow> bytes option" where
  "buf_at s p = (case objs s p of Some (Buf b) \<Rightarrow> Some b | _ \<Rightarrow> None)"

definition vsb_at :: "'d fs \<Rightarrow> ptr \<Rightarrow> vrfs_sb_info option" where
  "vsb_at s p = (case objs s p of Some (Vrfs_sb b) \<Rightarrow> Some b | _ \<Rightarrow> None)"

definition info_at :: "'d fs \<Rightarrow> ptr \<Rightarrow> vrfs_inode_info option" where
  "info_at s p = (case objs s p of Some (Vrfs_info i) \<Rightarrow> Some i | _ \<Rightarrow> None)"

definition dev_at :: "'d fs \<Rightarrow> ptr \<Rightarrow> devfs_device_type option" where
  "dev_at s p = (case objs s p of Some (Dev_node d) \<Rightarrow> Some d | _ \<Rightarrow> None)"

definition proc_at :: "'d fs \<Rightarrow> ptr \<Rightarrow> procfs_file_type option" where
  "proc_at s p = (case objs s p of Some (Proc_node d) \<Rightarrow> Some d | _ \<Rightarrow> None)"

definition put :: "ptr \<Rightarrow> obj \<Rightarrow> 'd fs \<Rightarrow> 'd fs" where
  "put p x s = s\<lparr>objs := (objs s)(p \<mapsto> x)\<rparr>"

text \<open>
  \<open>kmalloc\<close> of a structure whose value depends on what its memory held, \<open>kmalloc\<close> of a buffer, and
  \<open>kfree\<close>. A request so large that its size wraps gives a region that is shorter than asked for.
\<close>

definition new_obj :: "u32 \<Rightarrow> ((nat \<Rightarrow> u32) \<Rightarrow> obj) \<Rightarrow> 'd fs \<Rightarrow> (ptr \<times> 'd fs) option" where
  "new_obj sz mk s = do {
     (p, h) \<leftarrow> kmalloc sz (fs_heap s);
     if p = NULL then Some (NULL, s\<lparr>fs_heap := h\<rparr>)
     else Some (p, s\<lparr>fs_heap := h, objs := (objs s)(p \<mapsto> mk (junk s (fresh s))), fresh := Suc (fresh s)\<rparr>)
   }"

definition region_size :: "u32 \<Rightarrow> nat" where
  "region_size sz = min (unat sz) (unat (align4 sz))"

definition new_buf :: "u32 \<Rightarrow> 'd fs \<Rightarrow> (ptr \<times> 'd fs) option" where
  "new_buf sz = new_obj sz (\<lambda>w. Buf (map (\<lambda>i. ucast (w i)) [0..<region_size sz]))"

definition free_obj :: "ptr \<Rightarrow> 'd fs \<Rightarrow> 'd fs option" where
  "free_obj p s = do { h \<leftarrow> kfree p (fs_heap s); Some (s\<lparr>fs_heap := h, objs := (objs s)(p := None)\<rparr>) }"

lemma region_size_le: "sz \<le> 0xFFFFFFFC \<Longrightarrow> region_size sz = unat sz"
  using align4_ge[of sz] by (simp add: region_size_def)

text \<open>The bytes \<open>new\<close> copied over \<open>old\<close> at the offset \<open>n\<close>.\<close>

definition splice :: "nat \<Rightarrow> bytes \<Rightarrow> bytes \<Rightarrow> bytes" where
  "splice n new old = take n old @ new @ drop (n + length new) old"

lemma length_splice: "n + length new \<le> length old \<Longrightarrow> length (splice n new old) = length old"
  by (simp add: splice_def)

text \<open>\<open>memcpy (dest + n, src, length new)\<close> into the buffer \<open>p\<close>.\<close>

definition copy_to :: "ptr \<Rightarrow> nat \<Rightarrow> bytes \<Rightarrow> 'd fs \<Rightarrow> 'd fs option" where
  "copy_to p n new s = do {
     old \<leftarrow> buf_at s p;
     require (n + length new \<le> length old);
     Some (put p (Buf (splice n new old)) s)
   }"

text \<open>A structure in fresh memory: every member is what the memory held.\<close>

definition raw_inode :: "(nat \<Rightarrow> u32) \<Rightarrow> inode" where
  "raw_inode w = \<lparr>i_ino = w 0, i_mode = w 1, i_type = w 2, i_uid = w 3, i_gid = w 4, i_size = w 5,
     i_atime = w 6, i_mtime = w 7, i_ctime = w 8, i_links = w 9, i_private = w 10, i_iop = No_ops,
     i_fop = No_ops, i_sb = w 13\<rparr>"

definition fs_wf :: "'d fs \<Rightarrow> bool" where
  "fs_wf s \<longleftrightarrow> heap_wf (fs_heap s) \<and> heap.store_ok (fs_heap s) (objs s)"

lemma at_simps [simp]:
  "inode_at s p = Some i \<longleftrightarrow> objs s p = Some (Inode i)"
  "file_at s p = Some f \<longleftrightarrow> objs s p = Some (File f)"
  "dentry_at s p = Some d \<longleftrightarrow> objs s p = Some (Dentry d)"
  "sb_at s p = Some b \<longleftrightarrow> objs s p = Some (Superblock b)"
  "node_at s p = Some n \<longleftrightarrow> objs s p = Some (Ram_node n)"
  "dirent_at s p = Some e \<longleftrightarrow> objs s p = Some (Ram_dirent e)"
  "buf_at s p = Some bs \<longleftrightarrow> objs s p = Some (Buf bs)"
  "vsb_at s p = Some v \<longleftrightarrow> objs s p = Some (Vrfs_sb v)"
  "info_at s p = Some w \<longleftrightarrow> objs s p = Some (Vrfs_info w)"
  "dev_at s p = Some dt \<longleftrightarrow> objs s p = Some (Dev_node dt)"
  "proc_at s p = Some pt \<longleftrightarrow> objs s p = Some (Proc_node pt)"
  by (auto simp: inode_at_def file_at_def dentry_at_def sb_at_def node_at_def dirent_at_def buf_at_def vsb_at_def info_at_def dev_at_def proc_at_def
      split: option.splits obj.splits)

lemma at_obj:
  "objs s p = Some (Inode i) \<Longrightarrow> inode_at s p = Some i"
  "objs s p = Some (File f) \<Longrightarrow> file_at s p = Some f"
  "objs s p = Some (Dentry d) \<Longrightarrow> dentry_at s p = Some d"
  "objs s p = Some (Superblock b) \<Longrightarrow> sb_at s p = Some b"
  "objs s p = Some (Ram_node n) \<Longrightarrow> node_at s p = Some n"
  "objs s p = Some (Ram_dirent e) \<Longrightarrow> dirent_at s p = Some e"
  "objs s p = Some (Buf bs) \<Longrightarrow> buf_at s p = Some bs"
  "objs s p = Some (Vrfs_sb v) \<Longrightarrow> vsb_at s p = Some v"
  "objs s p = Some (Vrfs_info w) \<Longrightarrow> info_at s p = Some w"
  "objs s p = Some (Dev_node dt) \<Longrightarrow> dev_at s p = Some dt"
  "objs s p = Some (Proc_node pt) \<Longrightarrow> proc_at s p = Some pt"
  by simp_all

lemma objs_put [simp]: "objs (put p x s) = (objs s)(p \<mapsto> x)"
  by (simp add: put_def)

lemma put_fields [simp]:
  "fs_heap (put p x s) = fs_heap s" "junk (put p x s) = junk s" "fresh (put p x s) = fresh s"
  "next_ino (put p x s) = next_ino s" "root_sb (put p x s) = root_sb s"
  "mount_table (put p x s) = mount_table s" "random_seed (put p x s) = random_seed s" "blk (put p x s) = blk s"
  by (simp_all add: put_def)

lemma fs_wf_put [wf_intros]: "fs_wf s \<Longrightarrow> objs s p \<noteq> None \<Longrightarrow> fs_wf (put p x s)"
  unfolding fs_wf_def by (auto simp: heap.store_ok_def dom_def)

lemma fs_wf_NULL: "fs_wf s \<Longrightarrow> objs s NULL = None"
  unfolding fs_wf_def by (auto intro: heap.store_ok_NULL)

lemma fs_wf_other [simp]:
  "fs_wf (s\<lparr>next_ino := n\<rparr>) = fs_wf s" "fs_wf (s\<lparr>root_sb := p\<rparr>) = fs_wf s"
  "fs_wf (s\<lparr>mount_table := m\<rparr>) = fs_wf s" "fs_wf (s\<lparr>random_seed := r\<rparr>) = fs_wf s" "fs_wf (s\<lparr>blk := b\<rparr>) = fs_wf s"
  by (simp_all add: fs_wf_def)

text \<open>Two states that differ in their memory only.\<close>

definition same_env :: "'d fs \<Rightarrow> 'd fs \<Rightarrow> bool" where
  "same_env s s' \<longleftrightarrow> root_sb s' = root_sb s \<and> mount_table s' = mount_table s \<and>
     random_seed s' = random_seed s \<and> blk s' = blk s"

lemma same_envI [intro, simp]: "same_env s s"
  by (simp add: same_env_def)

lemma new_obj_cases:
  assumes "fs_wf s"
  obtains (none) "new_obj sz mk s = Some (NULL, s)"
  | (some) p s' where "new_obj sz mk s = Some (p, s')" "p \<noteq> NULL" "fs_wf s'" "objs s p = None"
      "objs s' = (objs s)(p \<mapsto> mk (junk s (fresh s)))" "junk s' = junk s" "fresh s' = Suc (fresh s)"
      "next_ino s' = next_ino s" "same_env s s'"
proof -
  have h: "heap_wf (fs_heap s)" "heap.store_ok (fs_heap s) (objs s)" using assms by (simp_all add: fs_wf_def)
  obtain p h' where p: "kmalloc sz (fs_heap s) = Some (p, h')" "heap_wf h'" using heap.alloc_ex[OF h(1)] by blast
  show ?thesis
  proof (cases "p = NULL")
    case True
    then have "h' = fs_heap s" using heap.alloc_SomeD(2)[OF h(1) p(1)] by simp
    then have "new_obj sz mk s = Some (NULL, s)" using p(1) True by (simp add: new_obj_def)
    then show ?thesis by (rule none)
  next
    case False
    have "fs_wf (s\<lparr>fs_heap := h', objs := (objs s)(p \<mapsto> x), fresh := Suc (fresh s)\<rparr>)" for x
      using heap.store_ok_alloc(3)[OF h(1) p(1) h(2) False] p(2) by (simp add: fs_wf_def)
    then show ?thesis using p False heap.store_ok_alloc(2)[OF h(1) p(1) h(2) False]
      by (intro some[of p "s\<lparr>fs_heap := h', objs := (objs s)(p \<mapsto> mk (junk s (fresh s))), fresh := Suc (fresh s)\<rparr>"])
        (simp_all add: new_obj_def same_env_def)
  qed
qed

lemma free_obj_run:
  assumes "fs_wf s" "objs s p \<noteq> None"
  shows "\<exists>h. free_obj p s = Some (s\<lparr>fs_heap := h, objs := (objs s)(p := None)\<rparr>) \<and>
    fs_wf (s\<lparr>fs_heap := h, objs := (objs s)(p := None)\<rparr>)"
proof -
  have h: "heap_wf (fs_heap s)" "heap.store_ok (fs_heap s) (objs s)" using assms(1) by (simp_all add: fs_wf_def)
  have live: "p \<in> heap.live (fs_heap s)" using h(2) assms(2) by (auto simp: heap.store_ok_def)
  from heap.release_live[OF h(1) live] obtain h' where h': "kfree p (fs_heap s) = Some h'" "heap_wf h'" by blast
  with heap.store_ok_release[OF h(1) live h'(1) h(2)] show ?thesis
    by (intro exI[of _ h']) (simp add: free_obj_def fs_wf_def)
qed

lemma free_obj_cases:
  assumes "fs_wf s" "objs s p \<noteq> None"
  obtains s' where "free_obj p s = Some s'" "fs_wf s'" "objs s' = (objs s)(p := None)" "junk s' = junk s"
    "fresh s' = fresh s" "next_ino s' = next_ino s" "same_env s s'"
  using free_obj_run[OF assms] by (auto simp: same_env_def)

text \<open>The addresses of the first regions of a heap in regular use, for concrete states.\<close>

definition cell :: "nat \<Rightarrow> ptr" where "cell i = of_nat (0x40000C + 524 * i)"

lemma cell_eq: "i < 8000 \<Longrightarrow> j < 8000 \<Longrightarrow> cell i = cell j \<longleftrightarrow> i = j"
proof -
  assume "i < 8000" "j < 8000"
  then have "unat (cell i) = 0x40000C + 524 * i" "unat (cell j) = 0x40000C + 524 * j"
    unfolding cell_def by (intro of_nat_unat_less; simp)+
  then show ?thesis by (metis add_left_cancel mult_cancel1 zero_neq_numeral)
qed

lemma cell_NULL: "i < 8000 \<Longrightarrow> cell i \<noteq> NULL"
proof -
  assume "i < 8000"
  then have "unat (cell i) = 0x40000C + 524 * i" unfolding cell_def by (intro of_nat_unat_less) simp
  then show ?thesis by auto
qed

lemmas cells = cell_eq cell_NULL

lemma used_cells: "k \<le> 1000 \<Longrightarrow> cell ` {0..<k} \<subseteq> heap.live (used_heap k)"
  using used_heap_live by (auto simp: cell_def)

end
