(* ===== verification/VfsCore.thy ===== *)
theory VfsCore
  imports FsTypes
begin

text \<open>
  The part of the virtual file system (\<open>src/src/fs/vfs.c\<close>) that the file systems build on: inodes
  and directory entries from the heap, the root superblock, and the tree of directory entries under
  it, which device files and process files are put into.
\<close>

section \<open>Inodes and the root\<close>

definition vfs_alloc_inode :: "ptr \<Rightarrow> 'd fs \<Rightarrow> (ptr \<times> 'd fs) option" where
  "vfs_alloc_inode sb s = do {
     (p, s) \<leftarrow> new_obj sizeof_inode (\<lambda>w. Inode (raw_inode w)) s;
     if p = NULL then Some (NULL, s)
     else Some (p, put p (Inode \<lparr>i_ino = next_ino s, i_mode = 0x1ED, i_type = VFS_FILE, i_uid = 0, i_gid = 0,
         i_size = 0, i_atime = 0, i_mtime = 0, i_ctime = 0, i_links = 1, i_private = NULL, i_iop = No_ops,
         i_fop = No_ops, i_sb = sb\<rparr>) (s\<lparr>next_ino := next_ino s + 1\<rparr>))
   }"

definition vfs_free_inode :: "ptr \<Rightarrow> 'd fs \<Rightarrow> 'd fs option" where
  "vfs_free_inode inode s = (if inode \<noteq> NULL then free_obj inode s else Some s)"

definition vfs_alloc_dentry :: "cstring \<Rightarrow> ptr \<Rightarrow> 'd fs \<Rightarrow> (ptr \<times> 'd fs) option" where
  "vfs_alloc_dentry name inode s = do {
     (p, s) \<leftarrow> new_obj sizeof_dentry
       (\<lambda>w. Dentry \<lparr>d_name = [], d_inode = w 64, d_parent = w 65, d_next = w 66, d_child = w 67\<rparr>) s;
     if p = NULL then Some (NULL, s)
     else do {
       nm \<leftarrow> strcpy_buf VFS_NAME_MAX name;
       Some (p, put p (Dentry \<lparr>d_name = nm, d_inode = inode, d_parent = NULL, d_next = NULL, d_child = NULL\<rparr>) s)
     }
   }"

definition vfs_free_dentry :: "ptr \<Rightarrow> 'd fs \<Rightarrow> 'd fs option" where
  "vfs_free_dentry dentry s = (if dentry \<noteq> NULL then free_obj dentry s else Some s)"

definition vfs_get_root_sb :: "'d fs \<Rightarrow> ptr" where
  "vfs_get_root_sb s = root_sb s"

text \<open>When an allocation fails the superblock is freed but \<open>root_sb\<close> keeps its address.\<close>

definition vfs_init :: "'d fs \<Rightarrow> 'd fs option" where
  "vfs_init s = do {
     (p, s) \<leftarrow> new_obj sizeof_superblock (\<lambda>w. Superblock \<lparr>sb_magic = w 0, sb_block_size = w 1, sb_max_files = w 2,
         sb_private = w 3, sb_root = w 4, sb_root_inode = w 5\<rparr>) s;
     let s = s\<lparr>root_sb := p\<rparr>;
     if p = NULL then Some s
     else do {
       sb \<leftarrow> sb_at s p;
       let sb = sb\<lparr>sb_magic := 0xDEADBEEF, sb_block_size := 512, sb_max_files := 1024, sb_private := NULL\<rparr>;
       (i, s) \<leftarrow> vfs_alloc_inode p (put p (Superblock sb) s);
       let sb = sb\<lparr>sb_root_inode := i\<rparr>;
       let s = put p (Superblock sb) s;
       if i = NULL then free_obj p s
       else do {
         ino \<leftarrow> inode_at s i;
         let s = put i (Inode (ino\<lparr>i_type := VFS_DIRECTORY, i_mode := 0x1ED\<rparr>)) s;
         (d, s) \<leftarrow> vfs_alloc_dentry (cstr ''/'') i s;
         let s = put p (Superblock (sb\<lparr>sb_root := d\<rparr>)) s;
         if d = NULL
         then do { s \<leftarrow> vfs_free_inode i s; free_obj p s }
         else Some s
       }
     }
   }"

section \<open>Paths in the tree of directory entries\<close>

text \<open>
  The components of a path, at most \<open>max_components\<close> of them; \<open>None\<close> stands for the error result -1
  on a component of 255 bytes. \<open>cur\<close> is the component being collected, \<open>acc\<close> those before it.
\<close>

fun split_from :: "cstring \<Rightarrow> nat \<Rightarrow> cstring \<Rightarrow> cstring list \<Rightarrow> cstring list option" where
  "split_from [] max_components cur acc = Some (if cur \<noteq> [] then acc @ [cur] else acc)"
| "split_from (c # path) max_components cur acc =
     (if length acc \<ge> max_components then Some (if cur \<noteq> [] then acc @ [cur] else acc)
      else if c = 47 then split_from path max_components [] (acc @ [cur])
      else if length cur + 1 \<ge> VFS_NAME_MAX - 1 then None
      else split_from path max_components (cur @ [c]) acc)"

definition split_path :: "cstring \<Rightarrow> nat \<Rightarrow> cstring list option" where
  "split_path path max_components = split_from (dropWhile (\<lambda>c. c = 47) path) max_components [] []"

text \<open>The first child of that name, or \<open>NULL\<close>.\<close>

partial_function (option) find_child :: "'d fs \<Rightarrow> cstring \<Rightarrow> ptr \<Rightarrow> ptr option" where
  "find_child s name child =
     (if child = NULL then Some NULL
      else Option.bind (dentry_at s child) (\<lambda>d.
        if strcmp_eq (d_name d) name then Some child else find_child s name (d_next d)))"

fun lookup_components :: "cstring list \<Rightarrow> ptr \<Rightarrow> 'd fs \<Rightarrow> ptr option" where
  "lookup_components [] current s = Some current"
| "lookup_components (c # cs) current s =
     (if current = NULL then Some NULL
      else do {
        d \<leftarrow> dentry_at s current;
        if d_inode d = NULL then Some NULL
        else do {
          i \<leftarrow> inode_at s (d_inode d);
          if i_type i \<noteq> VFS_DIRECTORY then Some NULL
          else do {
            child \<leftarrow> find_child s c (d_child d);
            if child = NULL then Some NULL else lookup_components cs child s
          }
        }
      })"

definition vfs_lookup :: "cstring \<Rightarrow> 'd fs \<Rightarrow> ptr option" where
  "vfs_lookup path s =
     (if root_sb s = NULL then Some NULL
      else do {
        sb \<leftarrow> sb_at s (root_sb s);
        if sb_root sb = NULL then Some NULL
        else if strcmp_eq path (cstr ''/'') \<or> length path = 0 then Some (sb_root sb)
        else (case split_path path 16 of
            None \<Rightarrow> Some NULL
          | Some cs \<Rightarrow> lookup_components cs (sb_root sb) s)
      })"

section \<open>Special directories\<close>

text \<open>A new entry in front of the children of \<open>dir\<close>.\<close>

definition add_child :: "ptr \<Rightarrow> ptr \<Rightarrow> 'd fs \<Rightarrow> 'd fs option" where
  "add_child dir p s = do {
     d \<leftarrow> dentry_at s p;
     parent \<leftarrow> dentry_at s dir;
     let s = put p (Dentry (d\<lparr>d_parent := dir, d_next := d_child parent\<rparr>)) s;
     parent \<leftarrow> dentry_at s dir;
     Some (put dir (Dentry (parent\<lparr>d_child := p\<rparr>)) s)
   }"

text \<open>The entries \<open>/dev\<close>, \<open>/proc\<close>: a directory under the root of the tree.\<close>

definition mount_dir :: "cstring \<Rightarrow> u32 \<Rightarrow> 'd fs \<Rightarrow> (int \<times> 'd fs) option" where
  "mount_dir name mode s =
     (if vfs_get_root_sb s = NULL then Some (- 1, s)
      else do {
        sb \<leftarrow> sb_at s (vfs_get_root_sb s);
        if sb_root sb = NULL then Some (- 1, s)
        else do {
          (p, s) \<leftarrow> vfs_alloc_inode (vfs_get_root_sb s) s;
          if p = NULL then Some (- 1, s)
          else do {
            i \<leftarrow> inode_at s p;
            let s = put p (Inode (i\<lparr>i_type := VFS_DIRECTORY, i_mode := mode\<rparr>)) s;
            (d, s) \<leftarrow> vfs_alloc_dentry name p s;
            if d = NULL then do { s \<leftarrow> vfs_free_inode p s; Some (- 1, s) }
            else do { s \<leftarrow> add_child (sb_root sb) d s; Some (0, s) }
          }
        }
      })"

section \<open>Allocation\<close>

lemma fs_consts [simp]: "VFS_NAME_MAX = 256" "VFS_FILE = 1" "VFS_DIRECTORY = 2"
  by (simp_all add: VFS_NAME_MAX_def VFS_FILE_def VFS_DIRECTORY_def)

lemma same_env_trans: "same_env s t \<Longrightarrow> same_env t u \<Longrightarrow> same_env s u"
  by (simp add: same_env_def)

lemma same_env_upd [simp]: "same_env s (put p x t) = same_env s t" "same_env s (t\<lparr>next_ino := n\<rparr>) = same_env s t"
  by (simp_all add: same_env_def)

definition fresh_inode :: "u32 \<Rightarrow> ptr \<Rightarrow> inode" where
  "fresh_inode n sb = \<lparr>i_ino = n, i_mode = 0x1ED, i_type = 1, i_uid = 0, i_gid = 0, i_size = 0, i_atime = 0,
     i_mtime = 0, i_ctime = 0, i_links = 1, i_private = NULL, i_iop = No_ops, i_fop = No_ops, i_sb = sb\<rparr>"

lemma alloc_inode_cases:
  assumes "fs_wf s"
  obtains (none) "vfs_alloc_inode sb s = Some (NULL, s)"
  | (some) p s' where "vfs_alloc_inode sb s = Some (p, s')" "p \<noteq> NULL" "fs_wf s'" "objs s p = None"
      "objs s' = (objs s)(p \<mapsto> Inode (fresh_inode (next_ino s) sb))" "same_env s s'"
proof (cases rule: new_obj_cases[OF assms, of sizeof_inode "\<lambda>w. Inode (raw_inode w)"])
  case 1
  then have "vfs_alloc_inode sb s = Some (NULL, s)" by (simp add: vfs_alloc_inode_def)
  then show ?thesis by (rule none)
next
  case (2 p s')
  let ?s = "put p (Inode (fresh_inode (next_ino s) sb)) (s'\<lparr>next_ino := next_ino s' + 1\<rparr>)"
  have "vfs_alloc_inode sb s = Some (p, ?s)" using 2 by (simp add: vfs_alloc_inode_def fresh_inode_def)
  moreover have "fs_wf ?s" using 2 by (intro fs_wf_put) simp_all
  ultimately show ?thesis using 2 by (intro some[of p ?s]) (simp_all add: same_env_def)
qed

lemma free_inode_cases:
  assumes "fs_wf s" "objs s p \<noteq> None"
  obtains s' where "vfs_free_inode p s = Some s'" "fs_wf s'" "objs s' = (objs s)(p := None)" "same_env s s'"
proof -
  have "p \<noteq> NULL" using fs_wf_NULL[OF assms(1)] assms(2) by auto
  with free_obj_cases[OF assms] that show ?thesis by (auto simp: vfs_free_inode_def)
qed

end
