(* ===== verification/Ramfs.thy ===== *)
theory Ramfs
  imports VfsCore
begin

text \<open>
  The RAM file system (\<open>src/src/fs/ramfs.c\<close>): directories as linked lists of named entries, files as
  heap buffers that grow, and paths from the root. A directory is shown to be a map from names to
  inodes that create, mkdir, unlink and rmdir update at one name, and a file a string of bytes that a
  write splices into and a read takes a part of.
\<close>

section \<open>Entries of a directory\<close>

text \<open>
  The walk along the entries, which every operation has as its own loop: the first entry of that
  name and the one before it, \<open>NULL\<close> for the entry when there is none.
\<close>

partial_function (option) find_entry :: "'d fs \<Rightarrow> cstring \<Rightarrow> ptr \<Rightarrow> ptr \<Rightarrow> (ptr \<times> ptr) option" where
  "find_entry s name prev cur =
     (if cur = NULL then Some (prev, NULL)
      else Option.bind (dirent_at s cur) (\<lambda>e.
        if strcmp_eq (rd_name e) name then Some (prev, cur)
        else find_entry s name cur (rd_next e)))"

text \<open>The members of a directory's node; those of a file's node are not entries.\<close>

definition dir_node_at :: "'d fs \<Rightarrow> ptr \<Rightarrow> (ptr \<times> u32) option" where
  "dir_node_at s p = (case node_at s p of Some (Ram_dir e n) \<Rightarrow> Some (e, n) | _ \<Rightarrow> None)"

definition ramfs_add_entry :: "ptr \<Rightarrow> cstring \<Rightarrow> ptr \<Rightarrow> 'd fs \<Rightarrow> (int \<times> 'd fs) option" where
  "ramfs_add_entry dir_node name inode s =
     (if dir_node = NULL \<or> inode = NULL then Some (- 1, s)
      else do {
        (entry, s) \<leftarrow> new_obj sizeof_ramfs_dirent
          (\<lambda>w. Ram_dirent \<lparr>rd_name = [], rd_inode = w 64, rd_next = w 65\<rparr>) s;
        if entry = NULL then Some (- 1, s)
        else do {
          nm \<leftarrow> strcpy_buf VFS_NAME_MAX name;
          (entries, n) \<leftarrow> dir_node_at s dir_node;
          let s = put entry (Ram_dirent \<lparr>rd_name = nm, rd_inode = inode, rd_next = entries\<rparr>) s;
          Some (0, put dir_node (Ram_node (Ram_dir entry (n + 1))) s)
        }
      })"

text \<open>Taking an entry out of the list: from the entry before it, or from the node.\<close>

definition unlink_entry :: "ptr \<Rightarrow> ptr \<Rightarrow> ptr \<Rightarrow> 'd fs \<Rightarrow> 'd fs option" where
  "unlink_entry dir_node prev cur s = do {
     c \<leftarrow> dirent_at s cur;
     if prev \<noteq> NULL
     then do { p \<leftarrow> dirent_at s prev; Some (put prev (Ram_dirent (p\<lparr>rd_next := rd_next c\<rparr>)) s) }
     else do {
       (e, n) \<leftarrow> dir_node_at s dir_node;
       Some (put dir_node (Ram_node (Ram_dir (rd_next c) n)) s)
     }
   }"

definition dec_entries :: "ptr \<Rightarrow> 'd fs \<Rightarrow> 'd fs option" where
  "dec_entries dir_node s = do {
     (e, n) \<leftarrow> dir_node_at s dir_node;
     Some (put dir_node (Ram_node (Ram_dir e (n - 1))) s)
   }"

definition ramfs_remove_entry :: "ptr \<Rightarrow> cstring \<Rightarrow> 'd fs \<Rightarrow> (int \<times> 'd fs) option" where
  "ramfs_remove_entry dir_node name s =
     (if dir_node = NULL then Some (- 1, s)
      else do {
        (e, n) \<leftarrow> dir_node_at s dir_node;
        (prev, cur) \<leftarrow> find_entry s name NULL e;
        if cur = NULL then Some (- 1, s)
        else do {
          s \<leftarrow> unlink_entry dir_node prev cur s;
          s \<leftarrow> free_obj cur s;
          s \<leftarrow> dec_entries dir_node s;
          Some (0, s)
        }
      })"

section \<open>Files\<close>

definition ramfs_open :: "ptr \<Rightarrow> ptr \<Rightarrow> int" where "ramfs_open inode f = 0"
definition ramfs_close :: "ptr \<Rightarrow> int" where "ramfs_close f = 0"

text \<open>
  Reading gives the result and the bytes copied to the caller's buffer. The node of a directory read
  as a file has the entries for data; when there are any, its size is the part of the union that
  was never written.
\<close>

definition ramfs_read :: "ptr \<Rightarrow> u32 \<Rightarrow> u32 \<Rightarrow> 'd fs \<Rightarrow> (int \<times> bytes) option" where
  "ramfs_read f sz offset s = do {
     f \<leftarrow> file_at s f;
     i \<leftarrow> inode_at s (f_inode f);
     if i_private i = NULL then Some (0, [])
     else do {
       node \<leftarrow> node_at s (i_private i);
       case node of
         Ram_dir entries n \<Rightarrow> if entries = NULL then Some (0, []) else None
       | Ram_file data capacity fsize \<Rightarrow>
           if data = NULL then Some (0, [])
           else if offset \<ge> fsize then Some (0, [])
           else do {
             let to_read = (if offset + sz > fsize then fsize - offset else sz);
             bs \<leftarrow> buf_at s data;
             require (unat offset + unat to_read \<le> length bs);
             Some (sint to_read, take (unat to_read) (drop (unat offset) bs))
           }
     }
   }"

text \<open>
  The buffer that holds the file when a write ends at \<open>required\<close>: the present one, or a new one of
  twice that size with the contents copied. The first result is false when there is no memory.
\<close>

definition ramfs_expand :: "ptr \<Rightarrow> u32 \<Rightarrow> ptr \<Rightarrow> u32 \<Rightarrow> u32 \<Rightarrow> 'd fs \<Rightarrow> (bool \<times> ptr \<times> u32 \<times> 'd fs) option" where
  "ramfs_expand node required data capacity fsize s =
     (if required > capacity
      then do {
        let new_capacity = required * 2;
        (new_data, s) \<leftarrow> new_buf new_capacity s;
        if new_data = NULL then Some (False, data, capacity, s)
        else do {
          s \<leftarrow> (if data \<noteq> NULL
            then do {
              old \<leftarrow> buf_at s data;
              require (unat fsize \<le> length old);
              s \<leftarrow> copy_to new_data 0 (take (unat fsize) old) s;
              free_obj data s
            }
            else Some s);
          Some (True, new_data, new_capacity, put node (Ram_node (Ram_file new_data new_capacity fsize)) s)
        }
      }
      else Some (True, data, capacity, s))"

definition ramfs_write :: "ptr \<Rightarrow> bytes \<Rightarrow> u32 \<Rightarrow> u32 \<Rightarrow> 'd fs \<Rightarrow> (int \<times> 'd fs) option" where
  "ramfs_write f buffer sz offset s = do {
     f \<leftarrow> file_at s f;
     i \<leftarrow> inode_at s (f_inode f);
     if i_private i = NULL then Some (- 1, s)
     else do {
       node \<leftarrow> node_at s (i_private i);
       let required = offset + sz;
       case node of
         Ram_dir entries n \<Rightarrow>
           if required > n
           then do { (new_data, s) \<leftarrow> new_buf (required * 2) s; if new_data = NULL then Some (- 1, s) else None }
           else None
       | Ram_file data capacity fsize \<Rightarrow> do {
           (ok, data, capacity, s) \<leftarrow> ramfs_expand (i_private i) required data capacity fsize s;
           if \<not> ok then Some (- 1, s)
           else do {
             require (unat sz \<le> length buffer);
             s \<leftarrow> (if sz = 0 then Some s else copy_to data (unat offset) (take (unat sz) buffer) s);
             s \<leftarrow> (if required > fsize
               then do {
                 j \<leftarrow> inode_at s (f_inode f);
                 Some (put (f_inode f) (Inode (j\<lparr>i_size := required\<rparr>))
                   (put (i_private i) (Ram_node (Ram_file data capacity required)) s))
               }
               else Some s);
             Some (sint sz, s)
           }
         }
     }
   }"

section \<open>Directories\<close>

text \<open>Entry number \<open>index\<close>: its name and inode are stored in the caller's directory entry.\<close>

partial_function (option) nth_entry :: "'d fs \<Rightarrow> u32 \<Rightarrow> ptr \<Rightarrow> ptr option" where
  "nth_entry s k entry =
     (if entry = NULL \<or> k = 0 then Some entry
      else Option.bind (dirent_at s entry) (\<lambda>e. nth_entry s (k - 1) (rd_next e)))"

definition ramfs_readdir :: "ptr \<Rightarrow> u32 \<Rightarrow> 'd fs \<Rightarrow> (int \<times> (cstring \<times> ptr) option) option" where
  "ramfs_readdir f index s = do {
     f \<leftarrow> file_at s f;
     i \<leftarrow> inode_at s (f_inode f);
     if i_private i = NULL \<or> i_type i \<noteq> VFS_DIRECTORY then Some (- 1, None)
     else do {
       (e, n) \<leftarrow> dir_node_at s (i_private i);
       entry \<leftarrow> nth_entry s index e;
       if entry = NULL then Some (- 1, None)
       else do { d \<leftarrow> dirent_at s entry; Some (0, Some (rd_name d, rd_inode d)) }
     }
   }"

definition ramfs_create :: "ptr \<Rightarrow> cstring \<Rightarrow> 'd fs \<Rightarrow> (ptr \<times> 'd fs) option" where
  "ramfs_create dir name s =
     (if dir = NULL then Some (NULL, s)
      else do {
        d \<leftarrow> inode_at s dir;
        if i_type d \<noteq> VFS_DIRECTORY then Some (NULL, s)
        else do {
          (e, n) \<leftarrow> dir_node_at s (i_private d);
          (prev, cur) \<leftarrow> find_entry s name NULL e;
          if cur \<noteq> NULL then Some (NULL, s)
          else do {
            (p, s) \<leftarrow> vfs_alloc_inode (i_sb d) s;
            if p = NULL then Some (NULL, s)
            else do {
              i \<leftarrow> inode_at s p;
              let i = i\<lparr>i_type := VFS_FILE, i_fop := Ramfs_ops, i_iop := Ramfs_ops\<rparr>;
              (node, s) \<leftarrow> new_obj sizeof_ramfs_node (\<lambda>w. Ram_node (Ram_file (w 0) (w 1) (w 2))) (put p (Inode i) s);
              if node = NULL then do { s \<leftarrow> vfs_free_inode p s; Some (NULL, s) }
              else do {
                let s = put p (Inode (i\<lparr>i_private := node\<rparr>)) (put node (Ram_node (Ram_file NULL 0 0)) s);
                (r, s) \<leftarrow> ramfs_add_entry (i_private d) name p s;
                if r < 0
                then do { s \<leftarrow> free_obj node s; s \<leftarrow> vfs_free_inode p s; Some (NULL, s) }
                else Some (p, s)
              }
            }
          }
        }
      })"

definition ramfs_lookup :: "ptr \<Rightarrow> cstring \<Rightarrow> 'd fs \<Rightarrow> ptr option" where
  "ramfs_lookup dir name s =
     (if dir = NULL then Some NULL
      else do {
        d \<leftarrow> inode_at s dir;
        if i_type d \<noteq> VFS_DIRECTORY then Some NULL
        else if i_private d = NULL then Some NULL
        else do {
          (e, n) \<leftarrow> dir_node_at s (i_private d);
          (prev, cur) \<leftarrow> find_entry s name NULL e;
          if cur = NULL then Some NULL else do { c \<leftarrow> dirent_at s cur; Some (rd_inode c) }
        }
      })"

text \<open>The memory of a file's node and its data.\<close>

definition free_node :: "ptr \<Rightarrow> 'd fs \<Rightarrow> 'd fs option" where
  "free_node node s =
     (if node = NULL then Some s
      else do {
        n \<leftarrow> node_at s node;
        case n of
          Ram_dir e k \<Rightarrow> None
        | Ram_file data capacity fsize \<Rightarrow> do {
            s \<leftarrow> (if data \<noteq> NULL then free_obj data s else Some s);
            free_obj node s
          }
      })"

definition ramfs_unlink :: "ptr \<Rightarrow> cstring \<Rightarrow> 'd fs \<Rightarrow> (int \<times> 'd fs) option" where
  "ramfs_unlink dir name s =
     (if dir = NULL then Some (- 1, s)
      else do {
        d \<leftarrow> inode_at s dir;
        if i_type d \<noteq> VFS_DIRECTORY then Some (- 1, s)
        else if i_private d = NULL then Some (- 1, s)
        else do {
          (e, n) \<leftarrow> dir_node_at s (i_private d);
          (prev, cur) \<leftarrow> find_entry s name NULL e;
          if cur = NULL then Some (- 1, s)
          else do {
            c \<leftarrow> dirent_at s cur;
            i \<leftarrow> inode_at s (rd_inode c);
            if i_type i = VFS_DIRECTORY then Some (- 1, s)
            else do {
              s \<leftarrow> unlink_entry (i_private d) prev cur s;
              s \<leftarrow> free_node (i_private i) s;
              s \<leftarrow> vfs_free_inode (rd_inode c) s;
              s \<leftarrow> free_obj cur s;
              s \<leftarrow> dec_entries (i_private d) s;
              Some (0, s)
            }
          }
        }
      })"

definition ramfs_mkdir :: "ptr \<Rightarrow> cstring \<Rightarrow> 'd fs \<Rightarrow> (ptr \<times> 'd fs) option" where
  "ramfs_mkdir dir name s =
     (if dir = NULL then Some (NULL, s)
      else do {
        d \<leftarrow> inode_at s dir;
        if i_type d \<noteq> VFS_DIRECTORY then Some (NULL, s)
        else do {
          (e, n) \<leftarrow> dir_node_at s (i_private d);
          (prev, cur) \<leftarrow> find_entry s name NULL e;
          if cur \<noteq> NULL then Some (NULL, s)
          else do {
            (p, s) \<leftarrow> vfs_alloc_inode (i_sb d) s;
            if p = NULL then Some (NULL, s)
            else do {
              i \<leftarrow> inode_at s p;
              let i = i\<lparr>i_type := VFS_DIRECTORY, i_fop := Ramfs_ops, i_iop := Ramfs_ops\<rparr>;
              (node, s) \<leftarrow> new_obj sizeof_ramfs_node (\<lambda>w. Ram_node (Ram_dir (w 0) (w 1))) (put p (Inode i) s);
              if node = NULL then do { s \<leftarrow> vfs_free_inode p s; Some (NULL, s) }
              else do {
                let s = put p (Inode (i\<lparr>i_private := node\<rparr>)) (put node (Ram_node (Ram_dir NULL 0)) s);
                (r, s) \<leftarrow> ramfs_add_entry (i_private d) name p s;
                if r < 0
                then do { s \<leftarrow> free_obj node s; s \<leftarrow> vfs_free_inode p s; Some (NULL, s) }
                else Some (p, s)
              }
            }
          }
        }
      })"

definition ramfs_rmdir :: "ptr \<Rightarrow> cstring \<Rightarrow> 'd fs \<Rightarrow> (int \<times> 'd fs) option" where
  "ramfs_rmdir dir name s =
     (if dir = NULL then Some (- 1, s)
      else do {
        d \<leftarrow> inode_at s dir;
        if i_type d \<noteq> VFS_DIRECTORY then Some (- 1, s)
        else if i_private d = NULL then Some (- 1, s)
        else do {
          (e, n) \<leftarrow> dir_node_at s (i_private d);
          (prev, cur) \<leftarrow> find_entry s name NULL e;
          if cur = NULL then Some (- 1, s)
          else do {
            c \<leftarrow> dirent_at s cur;
            i \<leftarrow> inode_at s (rd_inode c);
            if i_type i \<noteq> VFS_DIRECTORY then Some (- 1, s)
            else do {
              k \<leftarrow> (if i_private i = NULL then Some 0 else map_option snd (dir_node_at s (i_private i)));
              if k > 0 then Some (- 1, s)
              else do {
                s \<leftarrow> unlink_entry (i_private d) prev cur s;
                s \<leftarrow> (if i_private i \<noteq> NULL then free_obj (i_private i) s else Some s);
                s \<leftarrow> vfs_free_inode (rd_inode c) s;
                s \<leftarrow> free_obj cur s;
                s \<leftarrow> dec_entries (i_private d) s;
                Some (0, s)
              }
            }
          }
        }
      })"

section \<open>The root, and paths from it\<close>

definition ramfs_mount_root :: "'d fs \<Rightarrow> (int \<times> 'd fs) option" where
  "ramfs_mount_root s =
     (if vfs_get_root_sb s = NULL then Some (- 1, s)
      else do {
        (r, s) \<leftarrow> vfs_alloc_inode (root_sb s) s;
        if r = NULL then Some (- 1, s)
        else do {
          i \<leftarrow> inode_at s r;
          let i = i\<lparr>i_type := VFS_DIRECTORY, i_fop := Ramfs_ops, i_iop := Ramfs_ops\<rparr>;
          (node, s) \<leftarrow> new_obj sizeof_ramfs_node (\<lambda>w. Ram_node (Ram_dir (w 0) (w 1))) (put r (Inode i) s);
          if node = NULL then do { s \<leftarrow> vfs_free_inode r s; Some (- 1, s) }
          else do {
            let s = put r (Inode (i\<lparr>i_private := node\<rparr>)) (put node (Ram_node (Ram_dir NULL 0)) s);
            sb \<leftarrow> sb_at s (root_sb s);
            Some (0, put (root_sb s) (Superblock (sb\<lparr>sb_root_inode := r\<rparr>)) s)
          }
        }
      })"

text \<open>
  One component of a path, cut at 255 bytes (the rest of a longer one is taken as the next), and the
  path after it, without one slash.
\<close>

definition next_component :: "cstring \<Rightarrow> cstring \<times> cstring" where
  "next_component path =
     (let c = take 255 (takeWhile (\<lambda>b. b \<noteq> 47) path);
          rest = drop (length c) path
      in (c, case rest of b # bs \<Rightarrow> if b = 47 then bs else rest | [] \<Rightarrow> []))"

lemma next_component_shorter:
  "path \<noteq> [] \<Longrightarrow> length (snd (next_component path)) < length path"
  by (cases path) (auto simp: next_component_def Let_def split: list.splits dest: arg_cong[of _ _ length])

function find_parent_from :: "cstring \<Rightarrow> ptr \<Rightarrow> 'd fs \<Rightarrow> (ptr \<times> cstring) option" where
  "find_parent_from path current s =
     (if path = [] then Some (current, [])
      else (case next_component path of (c, rest) \<Rightarrow>
        if rest = [] then Some (current, c)
        else do {
          next \<leftarrow> ramfs_lookup current c s;
          if next = NULL then Some (NULL, [])
          else do {
            i \<leftarrow> inode_at s next;
            if i_type i \<noteq> VFS_DIRECTORY then Some (NULL, []) else find_parent_from rest next s
          }
        }))"
  by pat_completeness auto

termination
  by (relation "measure (\<lambda>(path, current, s). length path)") (auto dest: next_component_shorter simp: prod_eq_iff)

declare find_parent_from.simps [simp del]

definition ramfs_find_parent :: "cstring \<Rightarrow> 'd fs \<Rightarrow> (ptr \<times> cstring) option" where
  "ramfs_find_parent path s =
     (if root_sb s = NULL then Some (NULL, [])
      else do {
        sb \<leftarrow> sb_at s (root_sb s);
        if sb_root_inode sb = NULL then Some (NULL, [])
        else (let path = (case path of b # bs \<Rightarrow> if b = 47 then bs else path | [] \<Rightarrow> []) in
              find_parent_from path (sb_root_inode sb) s)
      })"

text \<open>A new file with its first contents, when there is memory for them.\<close>

definition set_content :: "ptr \<Rightarrow> cstring \<Rightarrow> 'd fs \<Rightarrow> 'd fs option" where
  "set_content inode content s = do {
     i \<leftarrow> inode_at s inode;
     node \<leftarrow> node_at s (i_private i);
     (data, s) \<leftarrow> new_buf (of_nat (length content + 1)) s;
     case node of
       Ram_dir e n \<Rightarrow> None
     | Ram_file data0 capacity fsize \<Rightarrow>
         if data = NULL then Some (put (i_private i) (Ram_node (Ram_file NULL capacity fsize)) s)
         else do {
           s \<leftarrow> copy_to data 0 (content @ [0]) s;
           Some (put inode (Inode (i\<lparr>i_size := of_nat (length content)\<rparr>))
             (put (i_private i) (Ram_node (Ram_file data (of_nat (length content + 1)) (of_nat (length content)))) s))
         }
   }"

definition ramfs_create_file :: "cstring \<Rightarrow> cstring option \<Rightarrow> 'd fs \<Rightarrow> (ptr \<times> 'd fs) option" where
  "ramfs_create_file path initial_content s = do {
     (parent, filename) \<leftarrow> ramfs_find_parent path s;
     if parent = NULL \<or> filename = [] then Some (NULL, s)
     else do {
       (p, s) \<leftarrow> ramfs_create parent filename s;
       if p = NULL then Some (NULL, s)
       else (case initial_content of
           None \<Rightarrow> Some (p, s)
         | Some content \<Rightarrow> do { s \<leftarrow> set_content p content s; Some (p, s) })
     }
   }"

definition ramfs_create_dir :: "cstring \<Rightarrow> 'd fs \<Rightarrow> (ptr \<times> 'd fs) option" where
  "ramfs_create_dir path s = do {
     (parent, dirname) \<leftarrow> ramfs_find_parent path s;
     if parent = NULL \<or> dirname = [] then Some (NULL, s) else ramfs_mkdir parent dirname s
   }"

section \<open>A directory is a map\<close>

text \<open>The entries from \<open>p\<close> on: address, name and inode of each.\<close>

type_synonym entry = "ptr \<times> cstring \<times> ptr"

fun entries :: "(ptr \<rightharpoonup> obj) \<Rightarrow> ptr \<Rightarrow> entry list \<Rightarrow> bool" where
  "entries m p [] \<longleftrightarrow> p = NULL"
| "entries m p ((q, n, i) # es) \<longleftrightarrow> p = q \<and> q \<noteq> NULL \<and>
     (\<exists>r. m q = Some (Ram_dirent \<lparr>rd_name = n, rd_inode = i, rd_next = r\<rparr>) \<and> entries m r es)"

definition names :: "entry list \<Rightarrow> cstring set" where
  "names es = (\<lambda>e. fst (snd e)) ` set es"

lemma names_simps [simp]: "names [] = {}" "names ((q, n, i) # es) = insert n (names es)"
    "names (xs @ ys) = names xs \<union> names ys"
  by (auto simp: names_def)

definition ram_dir :: "'d fs \<Rightarrow> ptr \<Rightarrow> entry list \<Rightarrow> bool" where
  "ram_dir s d es \<longleftrightarrow> d \<noteq> NULL \<and> (\<exists>i e. objs s d = Some (Inode i) \<and> i_type i = VFS_DIRECTORY \<and> i_private i \<noteq> NULL \<and>
     objs s (i_private i) = Some (Ram_node (Ram_dir e (of_nat (length es)))) \<and> entries (objs s) e es \<and>
     distinct (map (\<lambda>e. fst (snd e)) es) \<and> distinct (map fst es) \<and> (\<forall>(q, n, c) \<in> set es. c \<noteq> NULL))"

lemma entries_upd:
  "(\<And>q. q \<in> fst ` set es \<Longrightarrow> m' q = m q) \<Longrightarrow> entries m' p es = entries m p es"
  by (induction es arbitrary: p) auto

lemma entries_put: "a \<notin> fst ` set es \<Longrightarrow> entries (m(a := y)) p es = entries m p es"
  by (rule entries_upd) (metis fun_upd_other)

lemma entries_dirent: "entries m p es \<Longrightarrow> q \<in> fst ` set es \<Longrightarrow> \<exists>e. m q = Some (Ram_dirent e)"
  by (induction m p es rule: entries.induct) (auto simp: image_iff)

text \<open>The walk finds the first entry of the name, with the entry before it.\<close>

lemma find_entry_absent:
  "entries (objs s) p es \<Longrightarrow> name \<notin> names es \<Longrightarrow> \<exists>pv. find_entry s name prev p = Some (pv, NULL)"
proof (induction es arbitrary: p prev)
  case Nil
  then show ?case by (subst find_entry.simps) simp
next
  case (Cons e es)
  obtain q n i where e: "e = (q, n, i)" by (cases e)
  with Cons.prems obtain r where r: "p = q" "q \<noteq> NULL" "entries (objs s) r es"
    "objs s q = Some (Ram_dirent \<lparr>rd_name = n, rd_inode = i, rd_next = r\<rparr>)" by auto
  with Cons.IH[OF r(3)] Cons.prems(2) e show ?case by (subst find_entry.simps) (auto simp: at_obj)
qed

lemma find_entry_present:
  "entries (objs s) p (xs @ (q, name, i) # ys) \<Longrightarrow> name \<notin> names xs \<Longrightarrow>
   find_entry s name prev p = Some (if xs = [] then prev else fst (last xs), q)"
proof (induction xs arbitrary: p prev)
  case Nil
  then show ?case by (subst find_entry.simps) (auto simp: at_obj)
next
  case (Cons e xs)
  obtain q' n i' where e: "e = (q', n, i')" by (cases e)
  with Cons.prems obtain r where r: "p = q'" "q' \<noteq> NULL" "entries (objs s) r (xs @ (q, name, i) # ys)"
    "objs s q' = Some (Ram_dirent \<lparr>rd_name = n, rd_inode = i', rd_next = r\<rparr>)" by auto
  with Cons.IH[OF r(3), of q'] Cons.prems(2) e show ?case by (subst find_entry.simps) (auto simp: at_obj)
qed

lemma names_split:
  assumes "name \<in> names es"
  obtains xs q i ys where "es = xs @ (q, name, i) # ys" "name \<notin> names xs"
proof -
  from assms have "\<exists>e \<in> set es. fst (snd e) = name" by (auto simp: names_def)
  from split_list_first_prop[OF this] obtain xs e ys where
    s: "es = xs @ e # ys" "fst (snd e) = name" "\<forall>e \<in> set xs. fst (snd e) \<noteq> name" by blast
  then show ?thesis by (intro that[of xs "fst e" "snd (snd e)" ys]) (auto simp: names_def)
qed

lemma names_distinct:
  "distinct (map (\<lambda>e. fst (snd e)) (xs @ (q, name, i) # ys)) \<Longrightarrow> name \<notin> names xs \<and> name \<notin> names ys"
  by (auto simp: names_def)

definition entry_of :: "entry list \<Rightarrow> cstring \<Rightarrow> ptr" where
  "entry_of es name = (case map_of (map (\<lambda>(q, n, i). (n, i)) es) name of Some i \<Rightarrow> i | None \<Rightarrow> NULL)"

lemma entry_of_absent: "name \<notin> names es \<Longrightarrow> entry_of es name = NULL"
  by (induction es) (auto simp: entry_of_def)

lemma entry_of_present: "name \<notin> names xs \<Longrightarrow> entry_of (xs @ (q, name, i) # ys) name = i"
  by (induction xs) (auto simp: entry_of_def)

lemma entry_of_Cons: "entry_of ((q, n, i) # es) m = (if m = n then i else entry_of es m)"
  by (simp add: entry_of_def)

lemma entry_of_remove:
  "name \<notin> names xs \<Longrightarrow> name \<notin> names ys \<Longrightarrow>
   entry_of (xs @ ys) m = (if m = name then NULL else entry_of (xs @ (q, name, i) # ys) m)"
  by (induction xs) (auto simp: entry_of_Cons entry_of_absent)

lemma entry_of_NULL: "ram_dir s d es \<Longrightarrow> entry_of es name = NULL \<longleftrightarrow> name \<notin> names es"
proof -
  assume d: "ram_dir s d es"
  show ?thesis
  proof (cases "name \<in> names es")
    case True
    then obtain xs q i ys where "es = xs @ (q, name, i) # ys" "name \<notin> names xs" by (rule names_split)
    moreover from this(1) d have "i \<noteq> NULL" by (auto simp: ram_dir_def)
    ultimately show ?thesis using entry_of_present[of name xs q i ys] True by simp
  qed (simp add: entry_of_absent)
qed

lemma ramfs_lookup_run: "ram_dir s d es \<Longrightarrow> ramfs_lookup d name s = Some (entry_of es name)"
proof -
  assume "ram_dir s d es"
  then obtain i e where d: "d \<noteq> NULL" "objs s d = Some (Inode i)" "i_type i = VFS_DIRECTORY" "i_private i \<noteq> NULL"
    "objs s (i_private i) = Some (Ram_node (Ram_dir e (of_nat (length es))))" "entries (objs s) e es"
    by (auto simp: ram_dir_def)
  show ?thesis
  proof (cases "name \<in> names es")
    case True
    then obtain xs q c ys where x: "es = xs @ (q, name, c) # ys" "name \<notin> names xs" by (rule names_split)
    have "q \<noteq> NULL \<and> (\<exists>e. objs s q = Some (Ram_dirent e) \<and> rd_inode e = c)"
      using d(6) unfolding x(1) by (induction xs arbitrary: e) auto
    then show ?thesis using d find_entry_present[OF d(6)[unfolded x(1)] x(2), of NULL] entry_of_present[OF x(2)]
      by (auto simp: ramfs_lookup_def at_obj dir_node_at_def x(1))
  next
    case False
    then show ?thesis using d find_entry_absent[OF d(6) False, of NULL] entry_of_absent[OF False]
      by (auto simp: ramfs_lookup_def at_obj dir_node_at_def)
  qed
qed

lemma ram_dirE:
  assumes "ram_dir s d es"
  obtains i e where "d \<noteq> NULL" "objs s d = Some (Inode i)" "i_type i = 2" "i_private i \<noteq> NULL"
    "objs s (i_private i) = Some (Ram_node (Ram_dir e (of_nat (length es))))" "entries (objs s) e es"
    "distinct (map (\<lambda>e. fst (snd e)) es)" "distinct (map fst es)" "\<forall>(q, n, c) \<in> set es. c \<noteq> NULL"
  using assms by (auto simp: ram_dir_def)

lemma ram_dirI:
  "d \<noteq> NULL \<Longrightarrow> objs s d = Some (Inode i) \<Longrightarrow> i_type i = 2 \<Longrightarrow> i_private i \<noteq> NULL \<Longrightarrow>
   objs s (i_private i) = Some (Ram_node (Ram_dir e (of_nat (length es)))) \<Longrightarrow> entries (objs s) e es \<Longrightarrow>
   distinct (map (\<lambda>e. fst (snd e)) es) \<Longrightarrow> distinct (map fst es) \<Longrightarrow> \<forall>(q, n, c) \<in> set es. c \<noteq> NULL \<Longrightarrow>
   ram_dir s d es"
  unfolding ram_dir_def by auto

text \<open>The directory depends on its inode, its node and its entries only.\<close>

definition dir_cells :: "'d fs \<Rightarrow> ptr \<Rightarrow> entry list \<Rightarrow> ptr set" where
  "dir_cells s d es = {d} \<union> {p. \<exists>i. objs s d = Some (Inode i) \<and> p = i_private i} \<union> fst ` set es"

lemma ram_dir_cong:
  assumes "ram_dir s d es" "\<And>p. p \<in> dir_cells s d es \<Longrightarrow> objs s' p = objs s p"
  shows "ram_dir s' d es"
proof -
  obtain i e where d: "d \<noteq> NULL" "objs s d = Some (Inode i)" "i_type i = 2" "i_private i \<noteq> NULL"
    "objs s (i_private i) = Some (Ram_node (Ram_dir e (of_nat (length es))))" "entries (objs s) e es"
    "distinct (map (\<lambda>e. fst (snd e)) es)" "distinct (map fst es)" "\<forall>(q, n, c) \<in> set es. c \<noteq> NULL"
    using assms(1) by (rule ram_dirE)
  have "entries (objs s') e es" using entries_upd[of es "objs s'" "objs s" e] assms(2) d(6) by (auto simp: dir_cells_def)
  then show ?thesis using d assms(2)[of d] assms(2)[of "i_private i"] by (intro ram_dirI[of d s' i e]) (auto simp: dir_cells_def)
qed

lemma dir_cells_live: "ram_dir s d es \<Longrightarrow> p \<in> dir_cells s d es \<Longrightarrow> objs s p \<noteq> None"
  by (auto simp: dir_cells_def elim!: ram_dirE dest: entries_dirent)

lemma add_entry_cases:
  assumes "fs_wf s" "ram_dir s d es" "objs s d = Some (Inode i)" "p \<noteq> NULL" "name \<notin> names es" "length name < 256"
  obtains (none) "ramfs_add_entry (i_private i) name p s = Some (- 1, s)"
  | (some) q s' where "ramfs_add_entry (i_private i) name p s = Some (0, s')" "fs_wf s'" "same_env s s'"
      "ram_dir s' d ((q, name, p) # es)" "objs s q = None" "\<And>a. a \<noteq> i_private i \<Longrightarrow> a \<noteq> q \<Longrightarrow> objs s' a = objs s a"
proof -
  from assms(2) obtain i' e where d: "d \<noteq> NULL" "objs s d = Some (Inode i')" "i_type i' = 2" "i_private i' \<noteq> NULL"
    "objs s (i_private i') = Some (Ram_node (Ram_dir e (of_nat (length es))))" "entries (objs s) e es"
    "distinct (map (\<lambda>e. fst (snd e)) es)" "distinct (map fst es)" "\<forall>(q, n, c) \<in> set es. c \<noteq> NULL" by (rule ram_dirE)
  have i: "i' = i" using d(2) assms(3) by simp
  note d = d[unfolded i]
  show ?thesis
  proof (cases rule: new_obj_cases[OF assms(1), of sizeof_ramfs_dirent
      "\<lambda>w. Ram_dirent \<lparr>rd_name = [], rd_inode = w 64, rd_next = w 65\<rparr>"])
    case 1
    then have "ramfs_add_entry (i_private i) name p s = Some (- 1, s)"
      using d(4) assms(4) by (simp add: ramfs_add_entry_def)
    then show ?thesis by (rule none)
  next
    case (2 q s1)
    let ?e = "Ram_dirent \<lparr>rd_name = name, rd_inode = p, rd_next = e\<rparr>"
    let ?n = "Ram_node (Ram_dir q (of_nat (length es) + 1))"
    let ?s = "put (i_private i) ?n (put q ?e s1)"
    have ne: "q \<noteq> i_private i" "q \<noteq> d" "i_private i \<noteq> d" using 2(4) d(2,5) by auto
    have q: "q \<notin> fst ` set es" "i_private i \<notin> fst ` set es"
      using entries_dirent[OF d(6), of q] entries_dirent[OF d(6), of "i_private i"] 2(4) d(5) by auto
    have "ramfs_add_entry (i_private i) name p s = Some (0, ?s)"
      using 2 d(4,5) assms(4,6) ne by (simp add: ramfs_add_entry_def strcpy_buf_def dir_node_at_def at_obj)
    moreover have "fs_wf ?s" using 2 ne d(5) by (intro fs_wf_put) auto
    moreover have "entries (objs ?s) e es = entries (objs s) e es"
    proof (rule entries_upd)
      fix a assume "a \<in> fst ` set es"
      then have "a \<noteq> q" "a \<noteq> i_private i" using q by metis+
      then show "objs ?s a = objs s a" by (simp add: 2(5))
    qed
    then have "ram_dir ?s d ((q, name, p) # es)"
      using d q ne assms(4,5) 2(2,5) by (intro ram_dirI[of d ?s i q]) (auto simp: names_def)
    ultimately show ?thesis using 2 by (intro some[of ?s q]) auto
  qed
qed

text \<open>Creating an entry, for a file or a directory: what the two operations share.\<close>

lemma ramfs_create_cases:
  assumes "fs_wf s" "ram_dir s d es" "name \<notin> names es" "length name < 256"
  obtains (none) s' where "ramfs_create d name s = Some (NULL, s')" "fs_wf s'" "same_env s s'" "objs s' = objs s"
  | (some) p q n s' i where "ramfs_create d name s = Some (p, s')" "p \<noteq> NULL" "fs_wf s'" "same_env s s'"
      "ram_dir s' d ((q, name, p) # es)" "objs s p = None" "objs s q = None" "objs s n = None" "n \<noteq> NULL"
      "objs s' p = Some (Inode i)" "i_type i = 1" "i_private i = n" "i_size i = 0" "i_fop i = Ramfs_ops"
      "objs s' n = Some (Ram_node (Ram_file NULL 0 0))" "q \<notin> {p, n}" "p \<noteq> n"
      "\<And>a. a \<in> dom (objs s) \<Longrightarrow> (\<forall>j. objs s d = Some (Inode j) \<longrightarrow> a \<noteq> i_private j) \<Longrightarrow> objs s' a = objs s a"
proof -
  from assms(2) obtain i e where d: "d \<noteq> NULL" "objs s d = Some (Inode i)" "i_type i = 2" "i_private i \<noteq> NULL"
    "objs s (i_private i) = Some (Ram_node (Ram_dir e (of_nat (length es))))" "entries (objs s) e es"
    "distinct (map (\<lambda>e. fst (snd e)) es)" "distinct (map fst es)" "\<forall>(q, n, c) \<in> set es. c \<noteq> NULL" by (rule ram_dirE)
  obtain pv where pv: "find_entry s name NULL e = Some (pv, NULL)" using find_entry_absent[OF d(6) assms(3)] by blast
  show ?thesis
  proof (cases rule: alloc_inode_cases[OF assms(1), of "i_sb i"])
    case 1
    then have "ramfs_create d name s = Some (NULL, s)" using d pv by (simp add: ramfs_create_def dir_node_at_def at_obj)
    then show ?thesis using assms(1) by (intro none) auto
  next
    case (2 p s1)
    let ?i = "(fresh_inode (next_ino s) (i_sb i))\<lparr>i_type := 1, i_fop := Ramfs_ops, i_iop := Ramfs_ops\<rparr>"
    let ?s1 = "put p (Inode ?i) s1"
    have w1: "fs_wf ?s1" using 2 by (intro fs_wf_put) auto
    have o1: "objs ?s1 = (objs s)(p \<mapsto> Inode ?i)" using 2 by simp
    show ?thesis
    proof (cases rule: new_obj_cases[OF w1, of sizeof_ramfs_node "\<lambda>w. Ram_node (Ram_file (w 0) (w 1) (w 2))"])
      case 11: 1
      obtain s2 where s2: "vfs_free_inode p ?s1 = Some s2" "fs_wf s2" "objs s2 = (objs ?s1)(p := None)" "same_env ?s1 s2"
        using free_inode_cases[OF w1, of p] by auto
      have "ramfs_create d name s = Some (NULL, s2)"
        using d pv 2 11 s2 by (simp add: ramfs_create_def dir_node_at_def at_obj)
      then show ?thesis using s2 2 o1 by (intro none[of s2]) (auto simp: same_env_def)
    next
      case 22: (2 n s2)
      let ?s2 = "put p (Inode (?i\<lparr>i_private := n\<rparr>)) (put n (Ram_node (Ram_file NULL 0 0)) s2)"
      have n: "n \<noteq> p" "objs s n = None" using 22(4) 2(5) by (auto split: if_splits)
      have w2: "fs_wf ?s2" using 22 n by (intro fs_wf_put) auto
      have o2: "objs ?s2 = (objs s)(p \<mapsto> Inode (?i\<lparr>i_private := n\<rparr>), n \<mapsto> Ram_node (Ram_file NULL 0 0))"
        using 22 o1 n by auto
      have live: "objs s a = None \<Longrightarrow> a \<notin> dir_cells s d es" for a using dir_cells_live[OF assms(2), of a] by auto
      have dir2: "ram_dir ?s2 d es"
        using live[OF 2(4)] live[OF n(2)] by (intro ram_dir_cong[OF assms(2)]) (auto simp: o2 simp del: objs_put)
      have d2: "objs ?s2 d = Some (Inode i)" using d(2) 2(4) n(2) unfolding o2 by auto
      have pre: "ramfs_create d name s = do {
          (r, s) \<leftarrow> ramfs_add_entry (i_private i) name p ?s2;
          if r < 0 then do { s \<leftarrow> free_obj n s; s \<leftarrow> vfs_free_inode p s; Some (NULL, s) } else Some (p, s) }"
        using d pv 2 22 by (simp add: ramfs_create_def dir_node_at_def at_obj)
      show ?thesis
      proof (cases rule: add_entry_cases[OF w2 dir2 d2 2(2) assms(3,4)])
        case 1
        obtain s3 where s3: "free_obj n ?s2 = Some s3" "fs_wf s3" "objs s3 = (objs ?s2)(n := None)" "same_env ?s2 s3"
          using free_obj_cases[OF w2, of n] o2 by (metis fun_upd_same option.distinct(1))
        have "objs s3 p \<noteq> None" using s3(3) n(1) by simp
        then obtain s4 where s4: "vfs_free_inode p s3 = Some s4" "fs_wf s4" "objs s4 = (objs s3)(p := None)" "same_env s3 s4"
          using free_inode_cases[OF s3(2)] by blast
        have "objs s4 = objs s" unfolding s4(3) s3(3) o2 using 2(4) n by auto
        moreover have "ramfs_create d name s = Some (NULL, s4)" unfolding pre 1 using s3(1) s4(1) by simp
        ultimately show ?thesis using s4 s3 2 22 by (intro none[of s4]) (auto simp: same_env_def)
      next
        case (2 q s3)
        have q: "objs s q = None" "q \<noteq> p" "q \<noteq> n" using 2(5) n unfolding o2 by (auto split: if_splits)
        have priv: "i_private i \<noteq> p" "i_private i \<noteq> n" using d(5) \<open>objs s p = None\<close> n by auto
        have "objs s3 p = Some (Inode (?i\<lparr>i_private := n\<rparr>))" "objs s3 n = Some (Ram_node (Ram_file NULL 0 0))"
          using 2(6)[of p] 2(6)[of n] priv q n unfolding o2 by auto
        moreover have "objs s3 a = objs s a" if "a \<in> dom (objs s)" "\<forall>j. objs s d = Some (Inode j) \<longrightarrow> a \<noteq> i_private j" for a
        proof -
          have "a \<noteq> q" "a \<noteq> p" "a \<noteq> n" using that(1) q(1) \<open>objs s p = None\<close> n(2) by auto
          then show ?thesis using that(2) 2(6)[of a] d(2) unfolding o2 by auto
        qed
        moreover have "ramfs_create d name s = Some (p, s3)" unfolding pre 2 by simp
        ultimately show ?thesis
          using 2 q n \<open>objs s p = None\<close> \<open>p \<noteq> NULL\<close> \<open>same_env s s1\<close> 22
          by (intro some[of p s3 q n "?i\<lparr>i_private := n\<rparr>"]) (auto simp: same_env_def fresh_inode_def)
      qed
    qed
  qed
qed

text \<open>
  Creating a file: a name that is there already, and a heap without room, give \<open>NULL\<close> and leave
  every structure as it was. Otherwise the directory has the new, empty file under that name, every
  other name of it as before, and no other directory or file changes.
\<close>
theorem ramfs_create_correct:
  assumes "fs_wf s" "ram_dir s d es" "length name < 256"
  shows "\<exists>p s'. ramfs_create d name s = Some (p, s') \<and> fs_wf s' \<and>
    (if p = NULL then objs s' = objs s
     else name \<notin> names es \<and> objs s p = None \<and> ramfs_lookup d name s' = Some p \<and>
       (\<forall>m. m \<noteq> name \<longrightarrow> ramfs_lookup d m s' = ramfs_lookup d m s) \<and>
       (\<exists>q. ram_dir s' d ((q, name, p) # es)) \<and>
       (\<forall>d' fs. ram_dir s d' fs \<and> dir_cells s d' fs \<inter> dir_cells s d es = {} \<longrightarrow> ram_dir s' d' fs))"
proof (cases "name \<in> names es")
  case True
  then obtain xs q c ys where x: "es = xs @ (q, name, c) # ys" "name \<notin> names xs" by (rule names_split)
  from assms(2) obtain i e where d: "d \<noteq> NULL" "objs s d = Some (Inode i)" "i_type i = 2" "i_private i \<noteq> NULL"
    "objs s (i_private i) = Some (Ram_node (Ram_dir e (of_nat (length es))))" "entries (objs s) e es" by (rule ram_dirE)
  have "q \<noteq> NULL" using d(6) unfolding x(1) by (induction xs arbitrary: e) auto
  then have "ramfs_create d name s = Some (NULL, s)"
    using d find_entry_present[OF d(6)[unfolded x(1)] x(2), of NULL]
    by (simp add: ramfs_create_def dir_node_at_def at_obj)
  with assms(1) show ?thesis by auto
next
  case False
  show ?thesis
  proof (cases rule: ramfs_create_cases[OF assms(1,2) False assms(3)])
    case (1 s')
    then show ?thesis by auto
  next
    case (2 p q n s' i)
    have "ramfs_lookup d m s' = Some (if m = name then p else entry_of es m)" for m
      using ramfs_lookup_run[OF 2(5)] by (simp add: entry_of_Cons)
    moreover have "ram_dir s' d' fs" if "ram_dir s d' fs" "dir_cells s d' fs \<inter> dir_cells s d es = {}" for d' fs
    proof (rule ram_dir_cong[OF that(1)])
      fix a assume a: "a \<in> dir_cells s d' fs"
      then have "a \<in> dom (objs s)" "\<forall>j. objs s d = Some (Inode j) \<longrightarrow> a \<noteq> i_private j"
        using dir_cells_live[OF that(1) a] that(2) by (auto simp: dir_cells_def[of s d es])
      then show "objs s' a = objs s a" by (rule 2(18))
    qed
    ultimately show ?thesis using 2 False ramfs_lookup_run[OF assms(2)] by auto
  qed
qed

section \<open>Removing an entry\<close>

lemma entries_unlink:
  "entries m p (xs @ (q, n, c) # ys) \<Longrightarrow> distinct (map fst (xs @ (q, n, c) # ys)) \<Longrightarrow> xs \<noteq> [] \<Longrightarrow>
   m q = Some (Ram_dirent eq) \<Longrightarrow> m (fst (last xs)) = Some (Ram_dirent el) \<Longrightarrow>
   entries (m(fst (last xs) \<mapsto> Ram_dirent (el\<lparr>rd_next := rd_next eq\<rparr>))) p (xs @ ys)"
proof (induction xs arbitrary: p)
  case (Cons x xs)
  obtain l nm i where x: "x = (l, nm, i)" by (cases x)
  show ?case
  proof (cases "xs = []")
    case True
    define m' where "m' = m(l \<mapsto> Ram_dirent (el\<lparr>rd_next := rd_next eq\<rparr>))"
    obtain r where r: "p = l" "l \<noteq> NULL" "el = \<lparr>rd_name = nm, rd_inode = i, rd_next = q\<rparr>"
        "eq = \<lparr>rd_name = n, rd_inode = c, rd_next = r\<rparr>" "entries m r ys"
      using Cons.prems x True by auto
    have "l \<notin> fst ` set ys" using Cons.prems(2) x True by auto
    then have "entries m' r ys = entries m r ys" unfolding m'_def by (rule entries_put)
    then have "entries m' r ys" using r(5) by simp
    moreover have "m' l = Some (Ram_dirent \<lparr>rd_name = nm, rd_inode = i, rd_next = r\<rparr>)" by (simp add: m'_def r)
    ultimately have "entries m' p ((l, nm, i) # ys)" using r(1,2) by simp
    then show ?thesis by (simp only: m'_def x True append_Cons append_Nil last.simps if_P[OF refl] fst_conv)
  next
    case False
    have "l \<noteq> fst (last xs)" using Cons.prems(2) x False by (auto simp: image_iff)
    then show ?thesis using Cons.prems x False Cons.IH by auto
  qed
qed simp

lemma entries_first:
  "entries m p (xs @ (q, n, c) # ys) \<Longrightarrow>
   q \<noteq> NULL \<and> (\<exists>r. m q = Some (Ram_dirent \<lparr>rd_name = n, rd_inode = c, rd_next = r\<rparr>) \<and> entries m r ys) \<and> (xs = [] \<longrightarrow> p = q)"
  by (induction xs arbitrary: p) auto

text \<open>After the list operation, before the memory of the entry is freed and the count lowered.\<close>

lemma unlink_entry_run:
  assumes "fs_wf s" "ram_dir s d (xs @ (q, name, c) # ys)" "objs s d = Some (Inode i)"
  shows "\<exists>s' e. unlink_entry (i_private i) (if xs = [] then NULL else fst (last xs)) q s = Some s' \<and> fs_wf s' \<and>
    same_env s s' \<and> objs s' (i_private i) = Some (Ram_node (Ram_dir e (of_nat (Suc (length (xs @ ys)))))) \<and>
    entries (objs s') e (xs @ ys) \<and> (\<forall>a. a \<noteq> i_private i \<longrightarrow> a \<notin> fst ` set xs \<longrightarrow> objs s' a = objs s a) \<and>
    (\<forall>a \<in> fst ` set xs. \<exists>x. objs s' a = Some (Ram_dirent x))"
proof -
  let ?es = "xs @ (q, name, c) # ys"
  from assms(2) obtain i' e where d: "d \<noteq> NULL" "objs s d = Some (Inode i')" "i_type i' = 2" "i_private i' \<noteq> NULL"
    "objs s (i_private i') = Some (Ram_node (Ram_dir e (of_nat (length ?es))))" "entries (objs s) e ?es"
    "distinct (map (\<lambda>e. fst (snd e)) ?es)" "distinct (map fst ?es)" "\<forall>(q, n, c) \<in> set ?es. c \<noteq> NULL" by (rule ram_dirE)
  note d = d[unfolded inj_eq[OF inj_Some, THEN iffD1, OF trans[OF sym[OF d(2)] assms(3)], unfolded obj.inject]]
  from entries_first[OF d(6)] obtain r where r: "q \<noteq> NULL" "objs s q = Some (Ram_dirent \<lparr>rd_name = name, rd_inode = c, rd_next = r\<rparr>)"
    "entries (objs s) r ys" "xs = [] \<Longrightarrow> e = q" by blast
  have ds: "\<exists>x. objs s a = Some (Ram_dirent x)" if "a \<in> fst ` set ?es" for a using entries_dirent[OF d(6) that] .
  show ?thesis
  proof (cases "xs = []")
    case True
    let ?s = "put (i_private i) (Ram_node (Ram_dir r (of_nat (length ?es)))) s"
    have "i_private i \<notin> fst ` set ys" using ds[of "i_private i"] d(5) by auto
    then have "entries (objs ?s) r ys = entries (objs s) r ys" unfolding objs_put by (rule entries_put)
    then show ?thesis using True r d(5) assms(1)
      by (intro exI[of _ ?s] exI[of _ r]) (auto simp: unlink_entry_def at_obj dir_node_at_def intro: fs_wf_put)
  next
    case False
    obtain el where el: "objs s (fst (last xs)) = Some (Ram_dirent el)" using ds[of "fst (last xs)"] False by auto
    let ?s = "put (fst (last xs)) (Ram_dirent (el\<lparr>rd_next := r\<rparr>)) s"
    have nn: "fst (last xs) \<noteq> NULL" using el fs_wf_NULL[OF assms(1)] by auto
    have "entries (objs ?s) e (xs @ ys)" using entries_unlink[OF d(6,8) False r(2) el] by simp
    moreover have "fst (last xs) \<noteq> i_private i" using el d(5) by auto
    moreover have "\<forall>a \<in> fst ` set xs. \<exists>x. objs ?s a = Some (Ram_dirent x)" using ds by auto
    moreover have "fst (last xs) \<in> fst ` set xs" using False by auto
    ultimately show ?thesis using False r el d(5) assms(1) nn
      by (intro exI[of _ ?s] exI[of _ e]) (auto simp: unlink_entry_def at_obj intro: fs_wf_put)
  qed
qed

text \<open>
  A file: its inode, its node, and the buffer of its bytes when there is one. An empty directory is
  \<open>ram_dir s c []\<close>.
\<close>

definition ram_file :: "'d fs \<Rightarrow> ptr \<Rightarrow> bytes \<Rightarrow> bool" where
  "ram_file s c bs \<longleftrightarrow> (\<exists>i data cap n. objs s c = Some (Inode i) \<and> i_type i = VFS_FILE \<and> i_private i \<noteq> NULL \<and>
     i_size i = n \<and> objs s (i_private i) = Some (Ram_node (Ram_file data cap n)) \<and> unat n = length bs \<and>
     (if data = NULL then n = 0 \<and> cap = 0
      else n \<le> cap \<and> (\<exists>buf. objs s data = Some (Buf buf) \<and> length buf = unat cap \<and> take (length bs) buf = bs)))"

definition file_cells :: "'d fs \<Rightarrow> ptr \<Rightarrow> ptr set" where
  "file_cells s c = {c} \<union> {p. \<exists>i. objs s c = Some (Inode i) \<and> (p = i_private i \<or>
     (\<exists>data cap n. objs s (i_private i) = Some (Ram_node (Ram_file data cap n)) \<and> p = data))}"

lemma ram_file_cong:
  assumes "ram_file s c bs" "\<And>a. a \<in> file_cells s c \<Longrightarrow> objs s' a = objs s a"
  shows "ram_file s' c bs \<and> file_cells s' c = file_cells s c"
proof -
  obtain i data cap n where f: "objs s c = Some (Inode i)" "i_type i = VFS_FILE" "i_private i \<noteq> NULL"
    "i_size i = n" "objs s (i_private i) = Some (Ram_node (Ram_file data cap n))" "unat n = length bs"
    "if data = NULL then n = 0 \<and> cap = 0
      else n \<le> cap \<and> (\<exists>buf. objs s data = Some (Buf buf) \<and> length buf = unat cap \<and> take (length bs) buf = bs)"
    using assms(1) unfolding ram_file_def by blast
  have "objs s' c = objs s c" "objs s' (i_private i) = objs s (i_private i)" "objs s' data = objs s data"
    by (rule assms(2); use f in \<open>simp add: file_cells_def\<close>)+
  with f show ?thesis by (auto simp: ram_file_def file_cells_def)
qed

text \<open>Freeing a file's inode and node, and the entry, in the order of the code.\<close>

lemma free_file_run:
  assumes "fs_wf s" "ram_file s c bs" "objs s c = Some (Inode i)" "objs s q = Some (Ram_dirent x)"
  shows "\<exists>s1 s2 s3. free_node (i_private i) s = Some s1 \<and> vfs_free_inode c s1 = Some s2 \<and> free_obj q s2 = Some s3 \<and>
    fs_wf s3 \<and> same_env s s3 \<and>
    (\<forall>a. objs s3 a = (if a = q \<or> a \<in> file_cells s c then None else objs s a))"
proof -
  obtain data cap n where f: "i_private i \<noteq> NULL" "objs s (i_private i) = Some (Ram_node (Ram_file data cap n))"
    "data \<noteq> NULL \<Longrightarrow> \<exists>buf. objs s data = Some (Buf buf)"
    using assms(2,3) by (auto simp: ram_file_def split: if_splits)
  have cells: "file_cells s c = {c, i_private i, data}" using assms(3) f(2) by (auto simp: file_cells_def)
  obtain s0 where s0: "(if data \<noteq> NULL then free_obj data s else Some s) = Some s0" "fs_wf s0" "same_env s s0"
    "\<And>a. objs s0 a = (if a = data then None else objs s a)"
  proof (cases "data = NULL")
    case True
    then show ?thesis using assms(1) fs_wf_NULL[OF assms(1)] by (intro that[of s]) auto
  next
    case False
    then have "objs s data \<noteq> None" using f(3) by auto
    from free_obj_cases[OF assms(1) this] False show ?thesis by (metis that fun_upd_apply)
  qed
  have ne: "i_private i \<noteq> data" "c \<noteq> data" "q \<noteq> data" "c \<noteq> i_private i" "q \<noteq> c" "q \<noteq> i_private i"
    using f fs_wf_NULL[OF assms(1)] assms(3,4) by (cases "data = NULL"; force)+
  have "objs s0 (i_private i) \<noteq> None" using s0(4) ne f(2) by simp
  from free_obj_cases[OF s0(2) this] obtain s1 where
    s1: "free_obj (i_private i) s0 = Some s1" "fs_wf s1" "objs s1 = (objs s0)(i_private i := None)" "same_env s0 s1" by metis
  have "objs s1 c \<noteq> None" using s1(3) s0(4) ne assms(3) by simp
  from free_inode_cases[OF s1(2) this] obtain s2 where
    s2: "vfs_free_inode c s1 = Some s2" "fs_wf s2" "objs s2 = (objs s1)(c := None)" "same_env s1 s2" by metis
  have "objs s2 q \<noteq> None" using s2(3) s1(3) s0(4) ne assms(4) by simp
  from free_obj_cases[OF s2(2) this] obtain s3 where
    s3: "free_obj q s2 = Some s3" "fs_wf s3" "objs s3 = (objs s2)(q := None)" "same_env s2 s3" by metis
  have "free_node (i_private i) s = Some s1" using f(1,2) s0(1) s1(1) by (auto simp: free_node_def at_obj)
  moreover have "objs s3 a = (if a = q \<or> a \<in> file_cells s c then None else objs s a)" for a
    unfolding s3(3) s2(3) s1(3) cells using s0(4) by auto
  ultimately show ?thesis using s2 s3 s1(4) s0(3) by (auto simp: same_env_def)
qed

lemma free_dir_run:
  assumes "fs_wf s" "ram_dir s c []" "objs s c = Some (Inode i)" "objs s q = Some (Ram_dirent x)"
  shows "\<exists>s1 s2 s3. free_obj (i_private i) s = Some s1 \<and> vfs_free_inode c s1 = Some s2 \<and> free_obj q s2 = Some s3 \<and>
    fs_wf s3 \<and> same_env s s3 \<and>
    (\<forall>a. objs s3 a = (if a = q \<or> a \<in> dir_cells s c [] then None else objs s a))"
proof -
  obtain e n where f: "objs s (i_private i) = Some (Ram_node (Ram_dir e n))"
    using assms(2,3) by (auto elim!: ram_dirE)
  have cells: "dir_cells s c [] = {c, i_private i}" using assms(3) by (auto simp: dir_cells_def)
  have ne: "c \<noteq> i_private i" "q \<noteq> c" "q \<noteq> i_private i" using f assms(3,4) by auto
  from free_obj_cases[OF assms(1), of "i_private i"] f obtain s1 where
    s1: "free_obj (i_private i) s = Some s1" "fs_wf s1" "objs s1 = (objs s)(i_private i := None)" "same_env s s1" by auto
  have "objs s1 c \<noteq> None" using s1(3) ne assms(3) by simp
  from free_inode_cases[OF s1(2) this] obtain s2 where
    s2: "vfs_free_inode c s1 = Some s2" "fs_wf s2" "objs s2 = (objs s1)(c := None)" "same_env s1 s2" by metis
  have "objs s2 q \<noteq> None" using s2(3) s1(3) ne assms(4) by simp
  from free_obj_cases[OF s2(2) this] obtain s3 where
    s3: "free_obj q s2 = Some s3" "fs_wf s3" "objs s3 = (objs s2)(q := None)" "same_env s2 s3" by metis
  have "objs s3 a = (if a = q \<or> a \<in> dir_cells s c [] then None else objs s a)" for a
    unfolding s3(3) s2(3) s1(3) cells by auto
  then show ?thesis using s1 s2 s3 by (auto simp: same_env_def)
qed

text \<open>What is left of the directory: the entry and its structures are gone, all else is as it was.\<close>

lemma removed_dir:
  assumes d: "ram_dir s d (xs @ (q, name, c) # ys)" "objs s d = Some (Inode i)"
    and u: "objs s1 (i_private i) = Some (Ram_node (Ram_dir e (of_nat (Suc (length (xs @ ys))))))"
      "entries (objs s1) e (xs @ ys)" "\<forall>a. a \<noteq> i_private i \<longrightarrow> a \<notin> fst ` set xs \<longrightarrow> objs s1 a = objs s a"
    and w: "fs_wf s3" and f: "\<forall>a. objs s3 a = (if a = q \<or> a \<in> F then None else objs s1 a)"
    and F: "d \<notin> F" "i_private i \<notin> F" "fst ` set (xs @ ys) \<inter> F = {}"
  shows "\<exists>s4. dec_entries (i_private i) s3 = Some s4 \<and> fs_wf s4 \<and> same_env s3 s4 \<and> ram_dir s4 d (xs @ ys) \<and>
    (\<forall>a. a \<noteq> i_private i \<longrightarrow> objs s4 a = objs s3 a)"
proof -
  let ?es = "xs @ (q, name, c) # ys"
  obtain e0 where d: "d \<noteq> NULL" "objs s d = Some (Inode i)" "i_type i = 2" "i_private i \<noteq> NULL"
    "objs s (i_private i) = Some (Ram_node (Ram_dir e0 (of_nat (length ?es))))" "entries (objs s) e0 ?es"
    "distinct (map (\<lambda>e. fst (snd e)) ?es)" "distinct (map fst ?es)" "\<forall>(q, n, c) \<in> set ?es. c \<noteq> NULL"
    using assms(1,2) by (auto elim!: ram_dirE)
  have ds: "\<exists>x. objs s a = Some (Ram_dirent x)" if "a \<in> fst ` set ?es" for a using entries_dirent[OF d(6) that] .
  have nq: "i_private i \<noteq> q" "d \<noteq> q" "d \<noteq> i_private i" "d \<notin> fst ` set xs" "i_private i \<notin> fst ` set (xs @ ys)"
    using ds[of q] ds[of d] ds[of "i_private i"] d(2,5) by auto
  let ?s = "put (i_private i) (Ram_node (Ram_dir e (of_nat (length (xs @ ys))))) s3"
  have node: "objs s3 (i_private i) = Some (Ram_node (Ram_dir e (of_nat (Suc (length (xs @ ys))))))"
    using f F(2) nq(1) u(1) by simp
  have "of_nat (Suc (length (xs @ ys))) - 1 = (of_nat (length (xs @ ys)) :: u32)" by simp
  then have "dec_entries (i_private i) s3 = Some ?s" using node by (simp add: dec_entries_def dir_node_at_def at_obj)
  moreover have "fs_wf ?s" using w node by (intro fs_wf_put) auto
  moreover have "ram_dir ?s d (xs @ ys)"
  proof (rule ram_dirI)
    show "objs ?s d = Some (Inode i)" using f F(1) nq(2-4) u(3) d(2) by simp
    have "entries (objs s3) e (xs @ ys) = entries (objs s1) e (xs @ ys)"
    proof (rule entries_upd)
      fix a assume a: "a \<in> fst ` set (xs @ ys)"
      then have "a \<noteq> q" using d(8) by auto
      moreover have "a \<notin> F" using a F(3) by blast
      ultimately show "objs s3 a = objs s1 a" using f by simp
    qed
    moreover have "entries (objs ?s) e (xs @ ys) = entries (objs s3) e (xs @ ys)"
      unfolding objs_put by (rule entries_put) (rule nq(5))
    ultimately show "entries (objs ?s) e (xs @ ys)" using u(2) by simp
  qed (use d in auto)
  ultimately show ?thesis by (intro exI[of _ ?s]) auto
qed

lemma distinct_ptrs: "ram_dir s d es \<Longrightarrow> distinct (map fst es)"
  by (erule ram_dirE)

lemma distinct_names: "ram_dir s d (xs @ (q, name, c) # ys) \<Longrightarrow> name \<notin> names xs \<and> name \<notin> names ys"
  using names_distinct by (auto elim!: ram_dirE)

text \<open>The first steps of both removals, up to the checks on the entry that was found.\<close>

lemma remove_found:
  assumes "ram_dir s d (xs @ (q, name, c) # ys)" "objs s d = Some (Inode i)"
  shows "i_type i = 2 \<and> i_private i \<noteq> NULL \<and> d \<noteq> NULL \<and> q \<noteq> NULL \<and> (\<exists>e n r. dir_node_at s (i_private i) = Some (e, n) \<and>
    find_entry s name NULL e = Some (if xs = [] then NULL else fst (last xs), q) \<and>
    objs s q = Some (Ram_dirent \<lparr>rd_name = name, rd_inode = c, rd_next = r\<rparr>))"
proof -
  obtain e0 where d: "d \<noteq> NULL" "i_type i = 2" "i_private i \<noteq> NULL"
    "objs s (i_private i) = Some (Ram_node (Ram_dir e0 (of_nat (length (xs @ (q, name, c) # ys)))))"
    "entries (objs s) e0 (xs @ (q, name, c) # ys)"
    using assms by (auto elim!: ram_dirE)
  then show ?thesis
    using find_entry_present[OF d(5), of NULL] distinct_names[OF assms(1)] entries_first[OF d(5)]
    by (auto simp: dir_node_at_def at_obj)
qed

lemma cells_file_dir: "fs_wf s \<Longrightarrow> ram_file s c bs \<Longrightarrow> ram_dir s d es \<Longrightarrow> file_cells s c \<inter> dir_cells s d es = {}"
proof (rule ccontr)
  assume w: "fs_wf s" and a: "ram_file s c bs" "ram_dir s d es" "file_cells s c \<inter> dir_cells s d es \<noteq> {}"
  then obtain p where p: "p \<in> file_cells s c" "p \<in> dir_cells s d es" by blast
  have "(\<exists>i. objs s p = Some (Inode i) \<and> i_type i = 1) \<or> (\<exists>a b c. objs s p = Some (Ram_node (Ram_file a b c))) \<or>
    (\<exists>b. objs s p = Some (Buf b)) \<or> p = NULL"
    using a(1) p(1) by (auto simp: ram_file_def file_cells_def split: if_splits)
  moreover have "(\<exists>i. objs s p = Some (Inode i) \<and> i_type i = 2) \<or> (\<exists>a b. objs s p = Some (Ram_node (Ram_dir a b))) \<or>
    (\<exists>e. objs s p = Some (Ram_dirent e))"
    using a(2) p(2) by (auto elim!: ram_dirE simp: dir_cells_def dest: entries_dirent)
  ultimately show False using fs_wf_NULL[OF w] by auto
qed

text \<open>
  What unlink and rmdir share: the entry is taken out of the list, \<open>run\<close> frees it and the structures
  \<open>F\<close> it stood for, and the count of the directory is lowered.
\<close>

lemma remove_entry_run:
  assumes w: "fs_wf s" and d: "ram_dir s d es" and es: "es = xs @ (q, name, c) # ys" and i: "objs s d = Some (Inode i)"
    and F: "F \<inter> dir_cells s d es = {}"
    and run: "\<And>s1. fs_wf s1 \<Longrightarrow> (\<And>a. a = q \<or> a \<in> F \<Longrightarrow> objs s1 a = objs s a) \<Longrightarrow>
      \<exists>s3. run s1 = Some s3 \<and> fs_wf s3 \<and> (\<forall>a. objs s3 a = (if a = q \<or> a \<in> F then None else objs s1 a))"
  shows "\<exists>s1 s3 s4. unlink_entry (i_private i) (if xs = [] then NULL else fst (last xs)) q s = Some s1 \<and>
    run s1 = Some s3 \<and> dec_entries (i_private i) s3 = Some s4 \<and> fs_wf s4 \<and> ram_dir s4 d (xs @ ys) \<and>
    names (xs @ ys) = names es - {name} \<and>
    (\<forall>m. ramfs_lookup d m s4 = (if m = name then Some NULL else ramfs_lookup d m s)) \<and>
    (\<forall>a \<in> F. objs s4 a = None) \<and> (\<forall>a. a \<notin> F \<longrightarrow> a \<notin> dir_cells s d es \<longrightarrow> objs s4 a = objs s a)"
proof -
  from unlink_entry_run[OF w d[unfolded es] i] obtain s1 e1 where
    s1: "unlink_entry (i_private i) (if xs = [] then NULL else fst (last xs)) q s = Some s1" "fs_wf s1"
      "objs s1 (i_private i) = Some (Ram_node (Ram_dir e1 (of_nat (Suc (length (xs @ ys))))))"
      "entries (objs s1) e1 (xs @ ys)" "\<forall>a. a \<noteq> i_private i \<longrightarrow> a \<notin> fst ` set xs \<longrightarrow> objs s1 a = objs s a" by blast
  have cells: "i_private i \<in> dir_cells s d es" "fst ` set es \<subseteq> dir_cells s d es" "d \<in> dir_cells s d es"
    using i by (auto simp: dir_cells_def)
  have xs: "fst ` set xs \<subseteq> dir_cells s d es" using cells(2) unfolding es by auto
  have "q \<notin> fst ` set xs" using distinct_ptrs[OF d] unfolding es by simp
  moreover have "q \<noteq> i_private i"
    using remove_found[OF d[unfolded es] i] by (auto simp: dir_node_at_def split: option.splits)
  ultimately have same: "objs s1 a = objs s a" if "a = q \<or> a \<in> F" for a
  proof -
    have "a \<noteq> i_private i \<and> a \<notin> fst ` set xs"
      using that F cells(1) subsetD[OF xs] \<open>q \<notin> fst ` set xs\<close> \<open>q \<noteq> i_private i\<close> by (metis disjoint_iff)
    with s1(5) show ?thesis by simp
  qed
  from run[OF s1(2) same] obtain s3 where
    s3: "run s1 = Some s3" "fs_wf s3" "\<forall>a. objs s3 a = (if a = q \<or> a \<in> F then None else objs s1 a)" by blast
  have dF: "d \<notin> F" "i_private i \<notin> F" "fst ` set (xs @ ys) \<inter> F = {}" using F cells unfolding es by auto
  from removed_dir[OF d[unfolded es] i s1(3-5) s3(2,3) dF] obtain s4 where
    s4: "dec_entries (i_private i) s3 = Some s4" "fs_wf s4" "ram_dir s4 d (xs @ ys)"
      "\<forall>a. a \<noteq> i_private i \<longrightarrow> objs s4 a = objs s3 a" by blast
  have nm: "name \<notin> names xs" "name \<notin> names ys" using distinct_names[OF d[unfolded es]] by auto
  have look: "\<forall>m. ramfs_lookup d m s4 = (if m = name then Some NULL else ramfs_lookup d m s)"
    using ramfs_lookup_run[OF s4(3)] ramfs_lookup_run[OF d] entry_of_remove[OF nm, of _ q c] unfolding es by simp
  have ns: "names (xs @ ys) = names es - {name}" using nm unfolding es by auto
  have gone: "\<forall>a \<in> F. objs s4 a = None" using s4(4) s3(3) dF(2) by metis
  have rest: "objs s4 a = objs s a" if "a \<notin> F" "a \<notin> dir_cells s d es" for a
  proof -
    have "a \<noteq> q" "a \<noteq> i_private i" "a \<notin> fst ` set xs" using that(2) cells unfolding es by auto
    then show ?thesis using s4(4) s3(3) s1(5) that(1) by simp
  qed
  show ?thesis
    by (rule exI[of _ s1], rule exI[of _ s3], rule exI[of _ s4]) (use s1(1) s3(1) s4(1-3) ns look gone rest in blast)
qed

text \<open>The entry that is found, and what a name that is absent gives.\<close>

lemma remove_absent:
  assumes "ram_dir s d es" "name \<notin> names es"
  shows "ramfs_unlink d name s = Some (- 1, s) \<and> ramfs_rmdir d name s = Some (- 1, s)"
proof -
  from assms(1) obtain i e where d: "d \<noteq> NULL" "objs s d = Some (Inode i)" "i_type i = 2" "i_private i \<noteq> NULL"
    "objs s (i_private i) = Some (Ram_node (Ram_dir e (of_nat (length es))))" "entries (objs s) e es" by (rule ram_dirE)
  with find_entry_absent[OF d(6) assms(2), of NULL] show ?thesis
    by (auto simp: ramfs_unlink_def ramfs_rmdir_def at_obj dir_node_at_def)
qed

text \<open>
  Unlinking: a name that is not in the directory, or names a directory, gives -1 and changes
  nothing. A file is removed: its name is no longer found, every other name is found as before, the
  memory of its inode, node and data is free again, and no other structure changes.
\<close>
theorem ramfs_unlink_correct:
  assumes "fs_wf s" "ram_dir s d es"
    and "name \<in> names es \<Longrightarrow> (\<exists>cs. ram_dir s (entry_of es name) cs) \<or> (\<exists>bs. ram_file s (entry_of es name) bs)"
  shows "\<exists>r s'. ramfs_unlink d name s = Some (r, s') \<and> fs_wf s' \<and>
    (if name \<in> names es \<and> (\<exists>bs. ram_file s (entry_of es name) bs)
     then r = 0 \<and> (\<forall>m. ramfs_lookup d m s' = (if m = name then Some NULL else ramfs_lookup d m s)) \<and>
       (\<exists>es'. ram_dir s' d es' \<and> names es' = names es - {name}) \<and>
       (\<forall>a \<in> file_cells s (entry_of es name). objs s' a = None) \<and>
       (\<forall>a. a \<notin> file_cells s (entry_of es name) \<longrightarrow> a \<notin> dir_cells s d es \<longrightarrow> objs s' a = objs s a)
     else r = - 1 \<and> s' = s)"
proof (cases "name \<in> names es")
  case False
  then show ?thesis using remove_absent[OF assms(2)] assms(1) by auto
next
  case True
  then obtain xs q c ys where es: "es = xs @ (q, name, c) # ys" "name \<notin> names xs" by (rule names_split)
  have c: "entry_of es name = c" unfolding es(1) by (rule entry_of_present[OF es(2)])
  obtain i where i: "objs s d = Some (Inode i)" using assms(2) by (auto elim: ram_dirE)
  note rf = remove_found[OF assms(2)[unfolded es(1)] i]
  then obtain e n r where r: "dir_node_at s (i_private i) = Some (e, n)"
    "find_entry s name NULL e = Some (if xs = [] then NULL else fst (last xs), q)"
    "objs s q = Some (Ram_dirent \<lparr>rd_name = name, rd_inode = c, rd_next = r\<rparr>)" by blast
  from assms(3)[OF True, unfolded c] show ?thesis
  proof
    assume "\<exists>cs. ram_dir s c cs"
    then obtain k where k: "objs s c = Some (Inode k)" "i_type k = 2" by (auto elim: ram_dirE)
    then have "\<not> (\<exists>bs. ram_file s c bs)" by (auto simp: ram_file_def)
    with k r rf assms(1) i show ?thesis unfolding c by (simp add: ramfs_unlink_def at_obj)
  next
    assume "\<exists>bs. ram_file s c bs"
    then obtain bs k where f: "ram_file s c bs" "objs s c = Some (Inode k)" "i_type k = 1" by (auto simp: ram_file_def)
    let ?F = "file_cells s c"
    let ?run = "\<lambda>s. do { s \<leftarrow> free_node (i_private k) s; s \<leftarrow> vfs_free_inode c s; free_obj q s }"
    have run: "\<exists>s3. ?run s1 = Some s3 \<and> fs_wf s3 \<and> (\<forall>a. objs s3 a = (if a = q \<or> a \<in> ?F then None else objs s1 a))"
      if "fs_wf s1" "\<And>a. a = q \<or> a \<in> ?F \<Longrightarrow> objs s1 a = objs s a" for s1
    proof -
      from ram_file_cong[OF f(1), of s1] that(2) have f1: "ram_file s1 c bs" "file_cells s1 c = ?F" by blast+
      have "objs s1 c = Some (Inode k)" "objs s1 q = objs s q" using that(2) f(2) by (simp_all add: file_cells_def)
      from free_file_run[OF that(1) f1(1) this(1) trans[OF this(2) r(3)], unfolded f1(2)] show ?thesis by auto
    qed
    from remove_entry_run[OF assms(1,2) es(1) i cells_file_dir[OF assms(1) f(1) assms(2)] run] obtain s1 s3 s4 where
      s: "unlink_entry (i_private i) (if xs = [] then NULL else fst (last xs)) q s = Some s1" "?run s1 = Some s3"
        "dec_entries (i_private i) s3 = Some s4" and
      p: "fs_wf s4" "ram_dir s4 d (xs @ ys)" "names (xs @ ys) = names es - {name}"
        "\<forall>m. ramfs_lookup d m s4 = (if m = name then Some NULL else ramfs_lookup d m s)"
        "\<forall>a \<in> ?F. objs s4 a = None" "\<forall>a. a \<notin> ?F \<longrightarrow> a \<notin> dir_cells s d es \<longrightarrow> objs s4 a = objs s a" by blast
    have "ramfs_unlink d name s = Some (0, s4)"
      using rf r i f(2,3) s by (auto simp: ramfs_unlink_def at_obj Option.bind_eq_Some_conv)
    moreover have cond: "name \<in> names es \<and> (\<exists>bs. ram_file s c bs)" using True f(1) by blast
    ultimately show ?thesis unfolding c if_P[OF cond]
      by (intro exI[of _ 0] exI[of _ s4]) (use p in blast)
  qed
qed

lemma entries_fewer: "ram_dir s d es \<Longrightarrow> fs_wf s \<Longrightarrow> length es < 2 ^ 32"
proof -
  assume d: "ram_dir s d es" and w: "fs_wf s"
  have "NULL \<notin> fst ` set es" using d entries_dirent fs_wf_NULL[OF w] by (fastforce elim!: ram_dirE)
  then have "fst ` set es \<subset> UNIV" by blast
  then have "card (fst ` set es) < card (UNIV :: ptr set)" by (intro psubset_card_mono) auto
  moreover have "card (fst ` set es) = length es" using distinct_ptrs[OF d] distinct_card[of "map fst es"] by simp
  ultimately show ?thesis by (simp add: card_word)
qed

lemma empty_dir_cells:
  assumes "fs_wf s" "ram_dir s c []" "ram_dir s d es" "es \<noteq> []"
  shows "dir_cells s c [] \<inter> dir_cells s d es = {}"
proof -
  obtain k where k: "objs s c = Some (Inode k)" "objs s (i_private k) = Some (Ram_node (Ram_dir NULL 0))"
    using assms(2) by (auto elim: ram_dirE)
  obtain i e where i: "objs s d = Some (Inode i)" "objs s (i_private i) = Some (Ram_node (Ram_dir e (of_nat (length es))))"
      "entries (objs s) e es"
    using assms(3) by (rule ram_dirE)
  have "e \<noteq> NULL" using i(3) assms(4) by (cases es) auto
  then have "i_private k \<noteq> i_private i" "c \<noteq> d" "c \<noteq> i_private i" "i_private k \<noteq> d" using k i(1,2) by auto
  moreover have "c \<notin> fst ` set es" "i_private k \<notin> fst ` set es" 
    using entries_dirent[OF i(3), of c] entries_dirent[OF i(3), of "i_private k"] k by auto
  ultimately show ?thesis using k(1) i(1) by (auto simp: dir_cells_def)
qed

text \<open>
  Removing a directory: a name that is absent, or names a file or a directory with entries, gives -1
  and changes nothing. An empty directory is removed: its name is no longer found, every other name is
  found as before, the memory of its inode and node is free again, and no other structure changes.
\<close>
theorem ramfs_rmdir_correct:
  assumes "fs_wf s" "ram_dir s d es"
    and "name \<in> names es \<Longrightarrow> (\<exists>cs. ram_dir s (entry_of es name) cs) \<or> (\<exists>bs. ram_file s (entry_of es name) bs)"
  shows "\<exists>r s'. ramfs_rmdir d name s = Some (r, s') \<and> fs_wf s' \<and>
    (if name \<in> names es \<and> ram_dir s (entry_of es name) []
     then r = 0 \<and> (\<forall>m. ramfs_lookup d m s' = (if m = name then Some NULL else ramfs_lookup d m s)) \<and>
       (\<exists>es'. ram_dir s' d es' \<and> names es' = names es - {name}) \<and>
       (\<forall>a \<in> dir_cells s (entry_of es name) []. objs s' a = None) \<and>
       (\<forall>a. a \<notin> dir_cells s (entry_of es name) [] \<longrightarrow> a \<notin> dir_cells s d es \<longrightarrow> objs s' a = objs s a)
     else r = - 1 \<and> s' = s)"
proof (cases "name \<in> names es")
  case False
  then show ?thesis using remove_absent[OF assms(2)] assms(1) by auto
next
  case True
  then obtain xs q c ys where es: "es = xs @ (q, name, c) # ys" "name \<notin> names xs" by (rule names_split)
  have c: "entry_of es name = c" unfolding es(1) by (rule entry_of_present[OF es(2)])
  obtain i where i: "objs s d = Some (Inode i)" using assms(2) by (auto elim: ram_dirE)
  note rf = remove_found[OF assms(2)[unfolded es(1)] i]
  then obtain e n r where r: "dir_node_at s (i_private i) = Some (e, n)"
    "find_entry s name NULL e = Some (if xs = [] then NULL else fst (last xs), q)"
    "objs s q = Some (Ram_dirent \<lparr>rd_name = name, rd_inode = c, rd_next = r\<rparr>)" by blast
  from assms(3)[OF True, unfolded c] consider (plain) k where "objs s c = Some (Inode k)" "i_type k = 1"
    | (dir) cs where "ram_dir s c cs" by (auto simp: ram_file_def)
  then show ?thesis
  proof cases
    case plain
    then have "\<not> ram_dir s c []" by (auto simp: ram_dir_def)
    with plain r rf assms(1) i show ?thesis unfolding c by (simp add: ramfs_rmdir_def at_obj)
  next
    case dir
    then obtain k e1 where k: "objs s c = Some (Inode k)" "i_type k = 2" "i_private k \<noteq> NULL"
      "objs s (i_private k) = Some (Ram_node (Ram_dir e1 (of_nat (length cs))))" "entries (objs s) e1 cs"
      by (auto elim!: ram_dirE)
    show ?thesis
    proof (cases "cs = []")
      case False
      then have "(of_nat (length cs) :: u32) \<noteq> 0"
        using of_nat_unat_less[of "length cs"] entries_fewer[OF dir assms(1)] by auto
      then have pos: "(of_nat (length cs) :: u32) > 0" by (simp add: word_gt_0)
      have "\<not> ram_dir s c []" using k(1,4,5) False by (cases cs) (auto simp: ram_dir_def)
      with k r rf assms(1) i pos show ?thesis unfolding c by (simp add: ramfs_rmdir_def at_obj dir_node_at_def)
    next
      case cs: True
      let ?F = "dir_cells s c []"
      let ?run = "\<lambda>s. do { s \<leftarrow> free_obj (i_private k) s; s \<leftarrow> vfs_free_inode c s; free_obj q s }"
      note dir = dir[unfolded cs]
      have run: "\<exists>s3. ?run s1 = Some s3 \<and> fs_wf s3 \<and> (\<forall>a. objs s3 a = (if a = q \<or> a \<in> ?F then None else objs s1 a))"
        if "fs_wf s1" "\<And>a. a = q \<or> a \<in> ?F \<Longrightarrow> objs s1 a = objs s a" for s1
      proof -
        have "ram_dir s1 c []" using ram_dir_cong[OF dir, of s1] that(2) by blast
        moreover have o: "objs s1 c = Some (Inode k)" "objs s1 q = objs s q" using that(2) k(1) by (simp_all add: dir_cells_def)
        moreover have "dir_cells s1 c [] = ?F" using o(1) k(1) by (simp add: dir_cells_def)
        ultimately show ?thesis using free_dir_run[OF that(1) _ o(1) trans[OF o(2) r(3)]] by auto
      qed
      from remove_entry_run[OF assms(1,2) es(1) i empty_dir_cells[OF assms(1) dir assms(2)] run] obtain s1 s3 s4 where
        s: "unlink_entry (i_private i) (if xs = [] then NULL else fst (last xs)) q s = Some s1" "?run s1 = Some s3"
          "dec_entries (i_private i) s3 = Some s4" and
        p: "fs_wf s4" "ram_dir s4 d (xs @ ys)" "names (xs @ ys) = names es - {name}"
          "\<forall>m. ramfs_lookup d m s4 = (if m = name then Some NULL else ramfs_lookup d m s)"
          "\<forall>a \<in> ?F. objs s4 a = None" "\<forall>a. a \<notin> ?F \<longrightarrow> a \<notin> dir_cells s d es \<longrightarrow> objs s4 a = objs s a"
        using es(1) by blast
      have "ramfs_rmdir d name s = Some (0, s4)"
        using rf r i k(1-4) cs s by (auto simp: ramfs_rmdir_def at_obj Option.bind_eq_Some_conv dir_node_at_def)
      moreover have cond: "name \<in> names es \<and> ram_dir s c []" using True dir by blast
      ultimately show ?thesis unfolding c if_P[OF cond]
        by (intro exI[of _ 0] exI[of _ s4]) (use p in blast)
    qed
  qed
qed

section \<open>Reading and writing a file\<close>

lemma splice_take:
  assumes "n + length new \<le> length buf" "take (length bs) buf = bs"
  shows "take (max (length bs) (n + length new)) (splice n new buf) =
    splice n new (bs @ take (n - length bs) (drop (length bs) buf))"
proof -
  let ?m = "max (length bs) n"
  have m: "length bs + (n - length bs) = ?m" by simp
  have "take ?m buf = bs @ take (n - length bs) (drop (length bs) buf)"
    using take_add[of "length bs" "n - length bs" buf] assms(2) unfolding m by simp
  moreover have "splice n new (take ?m buf) = take n buf @ new @ take (?m - (n + length new)) (drop (n + length new) buf)"
    by (simp add: splice_def drop_take min_def)
  moreover have "take (max (length bs) (n + length new)) (splice n new buf) =
      take n buf @ new @ take (max (length bs) (n + length new) - n - length new) (drop (n + length new) buf)"
  proof -
    let ?M = "max (length bs) (n + length new)"
    have "length (take n buf) = n" "take ?M (take n buf) = take n buf" "take (?M - n) new = new"
      using assms(1) by (auto intro!: take_all)
    then show ?thesis by (simp only: splice_def take_append)
  qed
  moreover have "max (length bs) (n + length new) - n - length new = ?m - (n + length new)" by auto
  ultimately show ?thesis by (simp only:)
qed

lemma length_splice_file:
  "length (splice n new (bs @ gap)) = max (length bs) (n + length new)" if "length gap = n - length bs"
  using that by (auto simp: splice_def)

lemma copy_to_run:
  "fs_wf s \<Longrightarrow> objs s p = Some (Buf old) \<Longrightarrow> n + length new \<le> length old \<Longrightarrow>
   copy_to p n new s = Some (put p (Buf (splice n new old)) s) \<and> fs_wf (put p (Buf (splice n new old)) s)"
  by (auto simp: copy_to_def at_obj intro: fs_wf_put)

text \<open>The buffer after \<open>ramfs_expand\<close>: it has room up to \<open>required\<close>, and starts with the file.\<close>

lemma expand_cases:
  assumes w: "fs_wf s" and node: "objs s p = Some (Ram_node (Ram_file data cap n))" and bs: "unat n = length bs"
    and buf: "if data = NULL then n = 0 \<and> cap = 0
      else n \<le> cap \<and> (\<exists>buf. objs s data = Some (Buf buf) \<and> length buf = unat cap \<and> take (length bs) buf = bs)"
    and r: "unat required < 0x7FFFFFFF"
  obtains (none) "ramfs_expand p required data cap n s = Some (False, data, cap, s)"
  | (empty) "ramfs_expand p required data cap n s = Some (True, data, cap, s)" "data = NULL" "required = 0"
  | (room) d' cap' s' buf' where "ramfs_expand p required data cap n s = Some (True, d', cap', s')" "fs_wf s'" "same_env s s'"
      "objs s' p = Some (Ram_node (Ram_file d' cap' n))" "objs s' d' = Some (Buf buf')" "length buf' = unat cap'"
      "unat required \<le> unat cap'" "n \<le> cap'" "take (length bs) buf' = bs" "d' \<noteq> NULL" "d' = data \<or> objs s d' = None"
      "\<And>a. a \<notin> {p, data, d'} \<Longrightarrow> objs s' a = objs s a"
proof (cases "required > cap")
  case False
  then have e: "ramfs_expand p required data cap n s = Some (True, data, cap, s)" by (simp add: ramfs_expand_def)
  show ?thesis
  proof (cases "data = NULL")
    case True
    then show ?thesis using e buf False by (intro empty) (auto simp: word_gt_0)
  next
    case dn: False
    then obtain b where "objs s data = Some (Buf b)" "length b = unat cap" "take (length bs) b = bs" "n \<le> cap"
      using buf by auto
    then show ?thesis using e w node False dn
      by (intro room[of data cap s b]) (auto simp: word_le_nat_alt word_less_nat_alt)
  qed
next
  case True
  let ?cap = "required * 2"
  have two: "unat ?cap = 2 * unat required"
    using r by (subst unat_word_ariths) (simp add: mult.commute)
  have le: "?cap \<le> 0xFFFFFFFC" using r by (simp add: word_le_nat_alt two)
  have nc: "unat n \<le> unat cap" using buf by (auto simp: word_le_nat_alt split: if_splits)
  have rc: "unat cap < unat required" using True by (simp add: word_less_nat_alt)
  show ?thesis
  proof (cases rule: new_obj_cases[OF w, of ?cap "\<lambda>w. Buf (map (\<lambda>i. ucast (w i)) [0..<region_size ?cap])"])
    case 1
    then have "ramfs_expand p required data cap n s = Some (False, data, cap, s)"
      using True by (simp add: ramfs_expand_def new_buf_def)
    then show ?thesis by (rule none)
  next
    case (2 q s1)
    define b0 :: bytes where "b0 = map (\<lambda>i. ucast (junk s (fresh s) i)) [0..<region_size ?cap]"
    have b0: "length b0 = unat ?cap" "objs s1 = (objs s)(q \<mapsto> Buf b0)" using 2(5) le by (simp_all add: b0_def region_size_le)
    have new: "new_buf ?cap s = Some (q, s1)" using 2(1) by (simp add: new_buf_def)
    have qp: "q \<noteq> p" using 2(4) node by auto
    show ?thesis
    proof (cases "data = NULL")
      case dn: True
      let ?s = "put p (Ram_node (Ram_file q ?cap n)) s1"
      have "bs = []" using buf dn bs by simp
      moreover have "ramfs_expand p required data cap n s = Some (True, q, ?cap, ?s)"
        using True new dn 2(2) by (simp add: ramfs_expand_def Let_def)
      moreover have "fs_wf ?s" using 2(3) node qp b0(2) by (intro fs_wf_put) auto
      ultimately show ?thesis using 2(2-4,9) b0 qp two buf dn
        by (intro room[of q ?cap ?s b0]) (auto simp: word_le_nat_alt)
    next
      case dn: False
      then obtain b where b: "objs s data = Some (Buf b)" "length b = unat cap" "take (length bs) b = bs" using buf by auto
      have qd: "q \<noteq> data" "data \<noteq> p" using 2(4) b(1) node by auto
      define b1 where "b1 = splice 0 (take (unat n) b) b0"
      have fit: "0 + length (take (unat n) b) \<le> length b0" using b0(1) two nc rc b(2) by simp
      let ?s2 = "put q (Buf b1) s1"
      from copy_to_run[OF 2(3), of q b0 0 "take (unat n) b"] b0(2) fit have
        s2: "copy_to q 0 (take (unat n) b) s1 = Some ?s2" "fs_wf ?s2" by (simp_all add: b1_def)
      have "objs ?s2 data \<noteq> None" using b0(2) b(1) qd by simp
      from free_obj_cases[OF s2(2) this] obtain s3 where
        s3: "free_obj data ?s2 = Some s3" "fs_wf s3" "objs s3 = (objs ?s2)(data := None)" "same_env ?s2 s3" by metis
      let ?s = "put p (Ram_node (Ram_file q ?cap n)) s3"
      have "objs s1 data = Some (Buf b)" using b0(2) b(1) qd by simp
      then have run: "ramfs_expand p required data cap n s = Some (True, q, ?cap, ?s)"
        using True new dn 2(2) s2(1) s3(1) nc b(2) by (simp add: ramfs_expand_def Let_def at_obj)
      have w3: "fs_wf ?s" using s3(2,3) node qd qp b0(2) by (intro fs_wf_put) auto
      have "length b1 = unat ?cap" using fit b0(1) by (simp add: b1_def length_splice)
      moreover have "take (length bs) b1 = bs" using b(3) bs fit nc b(2) by (simp add: b1_def splice_def)
      ultimately show ?thesis using run w3 2(2-4,9) b0 qp qd two s3(3,4) nc rc
        by (intro room[of q ?cap ?s b1]) (auto simp: word_le_nat_alt same_env_def)
    qed
  qed
qed

text \<open>What \<open>ramfs_write\<close> makes of the buffer it has room in.\<close>

lemma write_into:
  assumes w: "fs_wf s" and i: "objs s c = Some (Inode i)" "i_type i = 1" "i_private i = p" "p \<noteq> NULL" "i_size i = n"
    and p: "objs s p = Some (Ram_node (Ram_file d cap n))" and b: "objs s d = Some (Buf buf)" "length buf = unat cap"
    and d: "d \<noteq> NULL" and n: "unat n = length bs" "n \<le> cap" "take (length bs) buf = bs"
    and fit: "unat off + length new \<le> unat cap" and req: "unat required = unat off + length new"
  defines "s1 \<equiv> if new = [] then s else put d (Buf (splice (unat off) new buf)) s"
  defines "s2 \<equiv> if required > n then put c (Inode (i\<lparr>i_size := required\<rparr>)) (put p (Ram_node (Ram_file d cap required)) s1) else s1"
  shows "fs_wf s2 \<and> (\<exists>gap. length gap = unat off - length bs \<and> ram_file s2 c (splice (unat off) new (bs @ gap)))"
proof -
  define gap where "gap = take (unat off - length bs) (drop (length bs) buf)"
  let ?bs = "splice (unat off) new (bs @ gap)"
  define buf' where "buf' = splice (unat off) new buf"
  have gap: "length gap = unat off - length bs"
    using fit b(2) n(1,2) by (simp add: gap_def word_le_nat_alt)
  have ne: "c \<noteq> p" "d \<noteq> p" "d \<noteq> c" using i p b by auto
  have len: "length ?bs = max (length bs) (unat off + length new)" by (rule length_splice_file[OF gap])
  have b': "objs s1 d = Some (Buf buf')" "length buf' = unat cap" "take (length ?bs) buf' = ?bs"
    using b fit splice_take[of "unat off" new buf bs] n(3) unfolding len
    by (simp_all add: s1_def buf'_def length_splice gap_def) (auto simp: splice_def)
  have o: "objs s1 c = Some (Inode i)" "objs s1 p = Some (Ram_node (Ram_file d cap n))"
    using i(1) p ne by (auto simp: s1_def)
  have w1: "fs_wf s1" using w b(1) by (auto simp: s1_def intro: fs_wf_put)
  have size: "unat (if required > n then required else n) = length ?bs"
    unfolding len using req n(1) by (auto simp: word_less_nat_alt)
  have cap: "(if required > n then required else n) \<le> cap" using req fit n(2) by (simp add: word_le_nat_alt)
  have "fs_wf s2" unfolding s2_def using w1 o ne by (auto intro!: fs_wf_put)
  moreover have "ram_file s2 c ?bs"
    using b' o ne size cap i(2-5) d unfolding ram_file_def s2_def by (auto split: if_splits)
  ultimately show ?thesis using gap by blast
qed

text \<open>
  Without memory for a larger buffer the result is -1 and the file is as before. Otherwise the bytes
  are in the file at the offset, a write past its end first extends it (by bytes that are whatever the
  heap held), and everything before and after them is kept. No other structure changes.
\<close>

lemma ramfs_write_run:
  assumes "fs_wf s" "objs s f = Some (File fl)" "ram_file s (f_inode fl) bs"
    and "unat sz \<le> length buffer" "unat offset + unat sz < 0x7FFFFFFF"
  shows "\<exists>r s'. ramfs_write f buffer sz offset s = Some (r, s') \<and> fs_wf s' \<and>
    (if r = - 1 then ram_file s' (f_inode fl) bs
     else r = int (unat sz) \<and> (\<exists>gap. length gap = unat offset - length bs \<and>
       ram_file s' (f_inode fl) (splice (unat offset) (take (unat sz) buffer) (bs @ gap)))) \<and>
    (\<forall>a. a \<notin> file_cells s (f_inode fl) \<longrightarrow> objs s a \<noteq> None \<longrightarrow> objs s' a = objs s a)"
proof -
  let ?c = "f_inode fl" let ?new = "take (unat sz) buffer"
  obtain i data cap n where i: "objs s ?c = Some (Inode i)" "i_type i = 1" "i_private i \<noteq> NULL" "i_size i = n"
    and p: "objs s (i_private i) = Some (Ram_node (Ram_file data cap n))" and n: "unat n = length bs"
    and b: "if data = NULL then n = 0 \<and> cap = 0
      else n \<le> cap \<and> (\<exists>buf. objs s data = Some (Buf buf) \<and> length buf = unat cap \<and> take (length bs) buf = bs)"
    using assms(3) unfolding ram_file_def by (metis fs_consts(2))
  let ?p = "i_private i"
  have cells: "file_cells s ?c = {?c, ?p, data}" using i(1) p by (auto simp: file_cells_def)
  define required where "required = offset + sz"
  have req: "unat required = unat offset + unat sz" using assms(5) by (simp add: required_def unat_add_no_wrap)
  have rl: "unat required < 0x7FFFFFFF" using req assms(5) by simp
  have ss: "sint sz = int (unat sz)" using assms(5) by (intro sint_small) simp
  have ln: "length ?new = unat sz" using assms(4) by simp
  have pre: "ramfs_write f buffer sz offset s = do {
      (ok, data, capacity, s) \<leftarrow> ramfs_expand ?p required data cap n s;
      if \<not> ok then Some (- 1, s)
      else do {
        s \<leftarrow> (if sz = 0 then Some s else copy_to data (unat offset) ?new s);
        s \<leftarrow> (if required > n
          then do {
            j \<leftarrow> inode_at s ?c;
            Some (put ?c (Inode (j\<lparr>i_size := required\<rparr>)) (put ?p (Ram_node (Ram_file data capacity required)) s))
          }
          else Some s);
        Some (sint sz, s)
      }}"
    using assms(2,4) i(1,3) p by (simp add: ramfs_write_def at_obj required_def Let_def cong: if_cong)
  show ?thesis
  proof (cases rule: expand_cases[OF assms(1) p n b rl])
    case 1
    then have "ramfs_write f buffer sz offset s = Some (- 1, s)" unfolding pre by simp
    then show ?thesis using assms(1,3) by auto
  next
    case 2
    have "unat required = 0" using 2(3) by simp
    then have z: "sz = 0" "unat offset = 0" using req by (simp_all add: unat_eq_0)
    have "n = 0" "bs = []" using b 2(2) n by auto
    then have "ramfs_write f buffer sz offset s = Some (0, s)" unfolding pre using 2 z by simp
    then show ?thesis using assms(1,3) z \<open>bs = []\<close> by (auto simp: splice_def intro!: exI[of _ "[]"])
  next
    case (3 d' cap' s1 buf')
    have ne: "?c \<notin> {?p, data, d'}"
      using i(1) p b 3(11) fs_wf_NULL[OF assms(1)] by (auto split: if_splits)
    have i1: "objs s1 ?c = Some (Inode i)" using 3(12)[OF ne] i(1) by simp
    have fit: "unat offset + length ?new \<le> unat cap'" using 3(7) req ln by simp
    note wi = write_into[OF 3(2) i1 i(2) refl i(3,4) 3(4,5,6,10) n 3(8,9) fit, of required, unfolded ln, OF req]
    let ?s1 = "if ?new = [] then s1 else put d' (Buf (splice (unat offset) ?new buf')) s1"
    let ?s2 = "if required > n then put ?c (Inode (i\<lparr>i_size := required\<rparr>)) (put ?p (Ram_node (Ram_file d' cap' required)) ?s1) else ?s1"
    have new: "?new = [] \<longleftrightarrow> sz = 0" using ln by (metis length_0_conv unat_eq_0)
    have c1: "(if sz = 0 then Some s1 else copy_to d' (unat offset) ?new s1) = Some ?s1"
      using copy_to_run[OF 3(2,5), of "unat offset" ?new] 3(6) fit new by simp
    have o1: "objs ?s1 ?c = Some (Inode i)" using i1 ne by auto
    have run: "ramfs_write f buffer sz offset s = Some (int (unat sz), ?s2)"
      unfolding pre 3(1) using o1 c1 ss by (simp add: at_obj)
    have frame: "objs ?s2 a = objs s a" if "a \<notin> file_cells s ?c" "objs s a \<noteq> None" for a
    proof -
      have "a \<noteq> ?c" "a \<noteq> ?p" "a \<noteq> d'" "a \<noteq> data" using that 3(11) unfolding cells by auto
      then show ?thesis using 3(12)[of a] by auto
    qed
    define s2 where "s2 = ?s2"
    note facts = run[folded s2_def] wi[folded s2_def] frame[folded s2_def]
    have nn: "int (unat sz) \<noteq> - 1" using of_nat_0_le_iff[of "unat sz"] by linarith
    show ?thesis
      by (rule exI[of _ "int (unat sz)"], rule exI[of _ s2], unfold if_not_P[OF nn]) (use facts in blast)
  qed
qed

section \<open>Reading\<close>

text \<open>A read gives the bytes of the file from the offset on, at most as many as asked for.\<close>

lemma ramfs_read_run:
  assumes "objs s f = Some (File fl)" "ram_file s (f_inode fl) bs"
    and "unat sz < 0x80000000" "unat offset + unat sz < 2 ^ 32"
  shows "ramfs_read f sz offset s =
    Some (int (length (take (unat sz) (drop (unat offset) bs))), take (unat sz) (drop (unat offset) bs))"
proof -
  let ?c = "f_inode fl"
  obtain i data cap n where i: "objs s ?c = Some (Inode i)" "i_private i \<noteq> NULL"
    and p: "objs s (i_private i) = Some (Ram_node (Ram_file data cap n))" and n: "unat n = length bs"
    and b: "if data = NULL then n = 0 \<and> cap = 0
      else n \<le> cap \<and> (\<exists>buf. objs s data = Some (Buf buf) \<and> length buf = unat cap \<and> take (length bs) buf = bs)"
    using assms(2) unfolding ram_file_def by blast
  show ?thesis
  proof (cases "data = NULL \<or> offset \<ge> n")
    case True
    then have "data = NULL \<or> length bs \<le> unat offset" using n by (simp add: word_le_nat_alt)
    then have "drop (unat offset) bs = []" using b n by auto
    then show ?thesis using assms(1) i p True by (auto simp: ramfs_read_def at_obj)
  next
    case False
    then obtain buf where buf: "objs s data = Some (Buf buf)" "length buf = unat cap" "take (length bs) buf = bs" and nc: "n \<le> cap"
      using b by auto
    have lt: "unat offset < length bs" using False n by (simp add: word_less_nat_alt not_le)
    define k where "k = (if offset + sz > n then n - offset else sz)"
    have "unat (offset + sz) = unat offset + unat sz" using assms(4) by (rule unat_add_no_wrap)
    moreover have "unat (n - offset) = length bs - unat offset"
      using False n unat_sub_le[of offset n] by (metis linear)
    ultimately have uk: "unat k = min (unat sz) (length bs - unat offset)"
      using n lt by (auto simp: k_def word_less_nat_alt min_def)
    then have sk: "sint k = int (unat k)" using assms(3) by (intro sint_small) simp
    have fit: "unat offset + unat k \<le> length buf" using uk lt buf(2) nc n by (simp add: word_le_nat_alt)
    have "take (unat k) (drop (unat offset) buf) = take (unat k) (drop (unat offset) bs)"
      using uk lt by (subst buf(3)[symmetric]) (simp add: drop_take)
    also have "\<dots> = take (unat sz) (drop (unat offset) bs)" using uk by (auto simp: min_def)
    finally have "take (unat k) (drop (unat offset) buf) = take (unat sz) (drop (unat offset) bs)" .
    moreover have "ramfs_read f sz offset s = Some (sint k, take (unat k) (drop (unat offset) buf))"
      using assms(1) i p False buf(1) fit unfolding k_def by (simp add: ramfs_read_def at_obj Let_def cong: if_cong)
    moreover have "unat k = length (take (unat sz) (drop (unat offset) bs))" using uk by simp
    ultimately show ?thesis using sk by simp
  qed
qed

text \<open>
  C13. Writing and reading a file: a write of \<open>sz\<close> bytes at an offset gives -1 and keeps the file when
  there is no memory for a larger buffer. Otherwise its result is \<open>sz\<close> and every later read gives the
  bytes that were written where it overlaps them, the old bytes of the file elsewhere, and between the
  old end and the offset bytes that are whatever the heap held. The end of the write must stay below
  2 GB. No other structure changes.
\<close>
theorem ramfs_write_read:
  assumes "fs_wf s" "objs s f = Some (File fl)" "ram_file s (f_inode fl) bs"
    and "unat sz \<le> length buffer" "unat offset + unat sz < 0x7FFFFFFF"
  shows "\<exists>r s'. ramfs_write f buffer sz offset s = Some (r, s') \<and> fs_wf s' \<and>
    (if r = - 1 then ram_file s' (f_inode fl) bs
     else r = int (unat sz) \<and>
       (\<exists>gap bs'. length gap = unat offset - length bs \<and>
          bs' = splice (unat offset) (take (unat sz) buffer) (bs @ gap) \<and> ram_file s' (f_inode fl) bs' \<and>
          (\<forall>n k. unat n < 0x80000000 \<longrightarrow> unat k + unat n < 2 ^ 32 \<longrightarrow>
            ramfs_read f n k s' = Some (int (length (take (unat n) (drop (unat k) bs'))), take (unat n) (drop (unat k) bs'))))) \<and>
    (\<forall>a. a \<notin> file_cells s (f_inode fl) \<longrightarrow> objs s a \<noteq> None \<longrightarrow> objs s' a = objs s a)"
proof -
  from ramfs_write_run[OF assms] obtain r s' where run: "ramfs_write f buffer sz offset s = Some (r, s')" "fs_wf s'"
    and res: "if r = - 1 then ram_file s' (f_inode fl) bs
     else r = int (unat sz) \<and> (\<exists>gap. length gap = unat offset - length bs \<and>
       ram_file s' (f_inode fl) (splice (unat offset) (take (unat sz) buffer) (bs @ gap)))"
    and frame: "\<forall>a. a \<notin> file_cells s (f_inode fl) \<longrightarrow> objs s a \<noteq> None \<longrightarrow> objs s' a = objs s a" by blast
  have "f \<notin> file_cells s (f_inode fl)"
  proof -
    obtain i data cap n where "objs s (f_inode fl) = Some (Inode i)" "objs s (i_private i) = Some (Ram_node (Ram_file data cap n))"
      "data \<noteq> NULL \<longrightarrow> (\<exists>buf. objs s data = Some (Buf buf))"
      using assms(3) unfolding ram_file_def by (metis (full_types))
    then show ?thesis using assms(2) fs_wf_NULL[OF assms(1)] by (auto simp: file_cells_def)
  qed
  then have f: "objs s' f = Some (File fl)" using frame assms(2) by simp
  show ?thesis
  proof (cases "r = - 1")
    case True
    then show ?thesis using run res frame by auto
  next
    case False
    then obtain gap where r: "r = int (unat sz)" and g: "length gap = unat offset - length bs"
      "ram_file s' (f_inode fl) (splice (unat offset) (take (unat sz) buffer) (bs @ gap))" using res by auto
    show ?thesis
      by (rule exI[of _ r], rule exI[of _ s'], unfold if_not_P[OF False])
        (use run r g frame ramfs_read_run[OF f g(2)] in blast)
  qed
qed

section \<open>A file system with a file and a directory\<close>

text \<open>
  The root directory (at \<open>cell 10\<close>) has a file \<open>a\<close> (character 97) of three bytes, with a buffer of eight, and an empty directory
  \<open>b\<close>; the file is open.
\<close>

definition sample_ramfs :: "unit fs" where
  "sample_ramfs = \<lparr>fs_heap = used_heap 20, objs = [
     cell 10 \<mapsto> Inode ((fresh_inode 1 NULL)\<lparr>i_type := 2, i_private := cell 11, i_iop := Ramfs_ops, i_fop := Ramfs_ops\<rparr>),
     cell 11 \<mapsto> Ram_node (Ram_dir (cell 12) 2),
     cell 12 \<mapsto> Ram_dirent \<lparr>rd_name = [97], rd_inode = cell 14, rd_next = cell 13\<rparr>,
     cell 13 \<mapsto> Ram_dirent \<lparr>rd_name = [98], rd_inode = cell 17, rd_next = NULL\<rparr>,
     cell 14 \<mapsto> Inode ((fresh_inode 2 NULL)\<lparr>i_size := 3, i_private := cell 15, i_iop := Ramfs_ops, i_fop := Ramfs_ops\<rparr>),
     cell 15 \<mapsto> Ram_node (Ram_file (cell 16) 8 3),
     cell 16 \<mapsto> Buf [1, 2, 3, 0, 0, 0, 0, 0],
     cell 17 \<mapsto> Inode ((fresh_inode 3 NULL)\<lparr>i_type := 2, i_private := cell 18, i_iop := Ramfs_ops, i_fop := Ramfs_ops\<rparr>),
     cell 18 \<mapsto> Ram_node (Ram_dir NULL 0),
     cell 19 \<mapsto> File \<lparr>f_inode = cell 14, f_flags = 0, f_pos = 0, f_ref_count = 1, f_op = Ramfs_ops, f_private = NULL\<rparr>],
     junk = (\<lambda>_ _. 0xA5A5A5A5), fresh = 20, next_ino = 4, root_sb = NULL, mount_table = [], random_seed = 12345,
     blk = \<lparr>block_devices = [], bd_hw = ()\<rparr>\<rparr>"

lemma sample_ramfs_objs:
  "objs sample_ramfs (cell 10) = Some (Inode ((fresh_inode 1 NULL)\<lparr>i_type := 2, i_private := cell 11, i_iop := Ramfs_ops, i_fop := Ramfs_ops\<rparr>))"
  "objs sample_ramfs (cell 11) = Some (Ram_node (Ram_dir (cell 12) 2))"
  "objs sample_ramfs (cell 12) = Some (Ram_dirent \<lparr>rd_name = [97], rd_inode = cell 14, rd_next = cell 13\<rparr>)"
  "objs sample_ramfs (cell 13) = Some (Ram_dirent \<lparr>rd_name = [98], rd_inode = cell 17, rd_next = NULL\<rparr>)"
  "objs sample_ramfs (cell 14) = Some (Inode ((fresh_inode 2 NULL)\<lparr>i_size := 3, i_private := cell 15, i_iop := Ramfs_ops, i_fop := Ramfs_ops\<rparr>))"
  "objs sample_ramfs (cell 15) = Some (Ram_node (Ram_file (cell 16) 8 3))"
  "objs sample_ramfs (cell 16) = Some (Buf [1, 2, 3, 0, 0, 0, 0, 0])"
  "objs sample_ramfs (cell 17) = Some (Inode ((fresh_inode 3 NULL)\<lparr>i_type := 2, i_private := cell 18, i_iop := Ramfs_ops, i_fop := Ramfs_ops\<rparr>))"
  "objs sample_ramfs (cell 18) = Some (Ram_node (Ram_dir NULL 0))"
  "objs sample_ramfs (cell 19) = Some (File \<lparr>f_inode = cell 14, f_flags = 0, f_pos = 0, f_ref_count = 1, f_op = Ramfs_ops, f_private = NULL\<rparr>)"
  by (simp_all add: sample_ramfs_def cells)

lemma sample_ramfs_wf: "fs_wf sample_ramfs"
proof -
  have "dom (objs sample_ramfs) \<subseteq> cell ` {0..<20}" by (auto simp: sample_ramfs_def split: if_splits)
  then show ?thesis using used_heap_wf[of 20] used_cells[of 20]
    by (auto simp: fs_wf_def heap.store_ok_def sample_ramfs_def)
qed

lemma sample_root: "ram_dir sample_ramfs (cell 10) [(cell 12, [97], cell 14), (cell 13, [98], cell 17)]"
  by (rule ram_dirI[OF _ sample_ramfs_objs(1)]) (simp_all add: sample_ramfs_objs cells fresh_inode_def cstr_def)

lemma sample_b: "ram_dir sample_ramfs (cell 17) []"
  by (rule ram_dirI[OF _ sample_ramfs_objs(8)]) (simp_all add: sample_ramfs_objs cells fresh_inode_def)

lemma sample_a: "ram_file sample_ramfs (cell 14) [1, 2, 3]"
  unfolding ram_file_def by (simp add: sample_ramfs_objs cells fresh_inode_def)

lemma sample_names:
  "entry_of [(cell 12, [97], cell 14), (cell 13, [98], cell 17)] ([97]) = cell 14"
  "entry_of [(cell 12, [97], cell 14), (cell 13, [98], cell 17)] ([98]) = cell 17"
  by (simp_all add: entry_of_Cons)

section \<open>The properties at the sample\<close>

lemma ramfs_create_correct_witness:
  "\<exists>p s'. ramfs_create (cell 10) ([99]) sample_ramfs = Some (p, s') \<and> fs_wf s'"
  using ramfs_create_correct[OF sample_ramfs_wf sample_root, of "[99]"] by auto

lemma ramfs_unlink_correct_witness:
  "\<exists>s'. ramfs_unlink (cell 10) ([97]) sample_ramfs = Some (0, s') \<and> fs_wf s' \<and>
     ramfs_lookup (cell 10) ([97]) s' = Some NULL"
proof -
  have "\<exists>bs. ram_file sample_ramfs (cell 14) bs" using sample_a by blast
  then show ?thesis using ramfs_unlink_correct[OF sample_ramfs_wf sample_root, of "[97]"]
    by (auto simp: sample_names)
qed

lemma ramfs_rmdir_correct_witness:
  "\<exists>s'. ramfs_rmdir (cell 10) ([98]) sample_ramfs = Some (0, s') \<and> fs_wf s' \<and>
     ramfs_lookup (cell 10) ([98]) s' = Some NULL"
proof -
  have "\<exists>cs. ram_dir sample_ramfs (cell 17) cs" using sample_b by blast
  then show ?thesis using ramfs_rmdir_correct[OF sample_ramfs_wf sample_root, of "[98]"] sample_b
    by (auto simp: sample_names)
qed

lemma ramfs_write_read_witness:
  "\<exists>r s'. ramfs_write (cell 19) [7, 8] 2 1 sample_ramfs = Some (r, s') \<and>
     (r \<noteq> - 1 \<longrightarrow> r = 2 \<and> ramfs_read (cell 19) 10 0 s' = Some (3, [1, 7, 8]))"
proof -
  from ramfs_write_read[OF sample_ramfs_wf sample_ramfs_objs(10), of "[1, 2, 3]" 2 "[7, 8]" 1] sample_a
  obtain r s' where w: "ramfs_write (cell 19) [7, 8] 2 1 sample_ramfs = Some (r, s')"
    "r \<noteq> - 1 \<Longrightarrow> r = 2 \<and> (\<exists>gap bs'. length gap = 0 \<and> bs' = splice 1 [7, 8] ([1, 2, 3] @ gap) \<and>
       (\<forall>n k. unat n < 0x80000000 \<longrightarrow> unat k + unat n < 2 ^ 32 \<longrightarrow>
         ramfs_read (cell 19) n k s' = Some (int (length (take (unat n) (drop (unat k) bs'))), take (unat n) (drop (unat k) bs'))))"
    by (auto split: if_splits)
  have "ramfs_read (cell 19) 10 0 s' = Some (3, [1, 7, 8])" if "r \<noteq> - 1"
    using w(2)[OF that] by (auto simp: splice_def dest!: spec[of _ "10 :: u32"] spec[of _ "0 :: u32"])
  with w show ?thesis by blast
qed

end
