(* ===== verification/Vrfs.thy ===== *)
theory Vrfs
  imports Ramfs Bitmaps
begin

text \<open>
  The disk file system (\<open>src/src/fs/vrfs.c\<close>). Block 0 of the device holds the superblock, block 1 the
  bitmap of inodes, block 2 the bitmap of blocks, then come the inode table and the data. The
  structures on disk are bytes: the first section gives their layout. A mounted file system has its
  superblock and both bitmaps in memory, and each inode in use has a copy of its disk inode.

  Every block passes through a buffer of its own from the heap, so an operation fails when the heap
  is full. The driver of the device is the parameter of the block device table.
\<close>

section \<open>Layout\<close>

definition VRFS_MAGIC :: u32 where "VRFS_MAGIC = 0x56524653"
definition VRFS_BLOCK_SIZE :: u32 where "VRFS_BLOCK_SIZE = 512"
definition VRFS_MAX_INODES :: u32 where "VRFS_MAX_INODES = 128"
definition VRFS_MAX_BLOCKS :: u32 where "VRFS_MAX_BLOCKS = 1024"
definition VRFS_MAX_NAME :: nat where "VRFS_MAX_NAME = 28"
definition VRFS_INODE_FILE :: u16 where "VRFS_INODE_FILE = 1"
definition VRFS_INODE_DIR :: u16 where "VRFS_INODE_DIR = 2"

text \<open>The compiler's sizes; the inode's comment says it is padded to 64 bytes.\<close>

definition sizeof_vrfs_inode :: u32 where "sizeof_vrfs_inode = 76"
definition sizeof_vrfs_dirent :: nat where "sizeof_vrfs_dirent = 32"

definition word_at :: "bytes \<Rightarrow> nat \<Rightarrow> u32" where
  "word_at bs n = of_le32 (drop n bs)"

definition superblock_bytes :: "vrfs_superblock \<Rightarrow> bytes" where
  "superblock_bytes sb = concat (map le32 [vs_magic sb, vs_block_count sb, vs_inode_count sb, vs_free_blocks sb,
     vs_free_inodes sb, vs_inode_bitmap_block sb, vs_block_bitmap_block sb, vs_inode_table_block sb,
     vs_data_block_start sb]) @ replicate 476 0"

definition superblock_of :: "bytes \<Rightarrow> vrfs_superblock" where
  "superblock_of bs = \<lparr>vs_magic = word_at bs 0, vs_block_count = word_at bs 4, vs_inode_count = word_at bs 8,
     vs_free_blocks = word_at bs 12, vs_free_inodes = word_at bs 16, vs_inode_bitmap_block = word_at bs 20,
     vs_block_bitmap_block = word_at bs 24, vs_inode_table_block = word_at bs 28, vs_data_block_start = word_at bs 32\<rparr>"

definition vrfs_inode_bytes :: "vrfs_inode \<Rightarrow> bytes" where
  "vrfs_inode_bytes i = le16 (vi_mode i) @ le16 (vi_links i) @ le32 (vi_size i) @ le32 (vi_blocks i) @
     concat (map le32 (vi_direct i)) @ le32 (vi_indirect i) @ vi_padding i"

definition vrfs_inode_of :: "bytes \<Rightarrow> vrfs_inode" where
  "vrfs_inode_of bs = \<lparr>vi_mode = of_le16 bs, vi_links = of_le16 (drop 2 bs), vi_size = word_at bs 4,
     vi_blocks = word_at bs 8, vi_direct = map (\<lambda>k. word_at bs (12 + 4 * k)) [0..<12], vi_indirect = word_at bs 60,
     vi_padding = take 12 (drop 64 bs)\<rparr>"

text \<open>A zeroed disk inode, as \<open>fs_memset\<close> leaves it.\<close>

definition zero_inode :: vrfs_inode where
  "zero_inode = \<lparr>vi_mode = 0, vi_links = 0, vi_size = 0, vi_blocks = 0, vi_direct = replicate 12 0,
     vi_indirect = 0, vi_padding = replicate 12 0\<rparr>"

section \<open>The store\<close>

definition put_disk :: "ptr \<Rightarrow> (vrfs_inode \<Rightarrow> vrfs_inode) \<Rightarrow> 'd fs \<Rightarrow> 'd fs option" where
  "put_disk p f s = do { i \<leftarrow> info_at s p; Some (put p (Vrfs_info (i\<lparr>ii_disk := f (ii_disk i)\<rparr>)) s) }"

text \<open>Reading a block into a buffer and writing a block from one.\<close>

definition read_into :: "nat option \<Rightarrow> u32 \<Rightarrow> ptr \<Rightarrow> 'd fs \<Rightarrow> (int \<times> 'd fs) option" where
  "read_into dev block p s = do {
     old \<leftarrow> buf_at s p;
     (r, bs, b) \<leftarrow> blkdev_read dev block old (blk s);
     Some (r, put p (Buf bs) (s\<lparr>blk := b\<rparr>))
   }"

definition write_from :: "nat option \<Rightarrow> u32 \<Rightarrow> ptr \<Rightarrow> 'd fs \<Rightarrow> (int \<times> 'd fs) option" where
  "write_from dev block p s = do {
     bs \<leftarrow> buf_at s p;
     (r, b) \<leftarrow> blkdev_write dev block bs (blk s);
     Some (r, s\<lparr>blk := b\<rparr>)
   }"

section \<open>Bitmaps\<close>

fun find_free_from :: "bytes \<Rightarrow> nat \<Rightarrow> nat \<Rightarrow> int option" where
  "find_free_from m i 0 = Some (- 1)"
| "find_free_from m i (Suc n) = do { t \<leftarrow> byte_test i m; if t then find_free_from m (Suc i) n else Some (int i) }"

definition bitmap_find_free :: "bytes \<Rightarrow> u32 \<Rightarrow> int option" where
  "bitmap_find_free m max_bits = find_free_from m 0 (unat max_bits)"

definition vrfs_alloc_inode :: "ptr \<Rightarrow> 'd fs \<Rightarrow> (int \<times> 'd fs) option" where
  "vrfs_alloc_inode sbi s =
     (if sbi = NULL then Some (- 1, s)
      else do {
        i \<leftarrow> vsb_at s sbi;
        if vs_free_inodes (si_sb i) = 0 then Some (- 1, s)
        else do {
          m \<leftarrow> buf_at s (si_inode_bitmap i);
          n \<leftarrow> bitmap_find_free m (vs_inode_count (si_sb i));
          if n < 0 then Some (- 1, s)
          else do {
            m \<leftarrow> byte_set (nat n) m;
            let s = put sbi (Vrfs_sb (i\<lparr>si_sb := (si_sb i)\<lparr>vs_free_inodes := vs_free_inodes (si_sb i) - 1\<rparr>\<rparr>))
              (put (si_inode_bitmap i) (Buf m) s);
            (r, s) \<leftarrow> write_from (si_bdev i) (vs_inode_bitmap_block (si_sb i)) (si_inode_bitmap i) s;
            Some (n, s)
          }
        }
      })"

definition vrfs_alloc_block :: "ptr \<Rightarrow> 'd fs \<Rightarrow> (int \<times> 'd fs) option" where
  "vrfs_alloc_block sbi s =
     (if sbi = NULL then Some (- 1, s)
      else do {
        i \<leftarrow> vsb_at s sbi;
        if vs_free_blocks (si_sb i) = 0 then Some (- 1, s)
        else do {
          m \<leftarrow> buf_at s (si_block_bitmap i);
          n \<leftarrow> bitmap_find_free m (vs_block_count (si_sb i));
          if n < 0 then Some (- 1, s)
          else do {
            m \<leftarrow> byte_set (nat n) m;
            let s = put sbi (Vrfs_sb (i\<lparr>si_sb := (si_sb i)\<lparr>vs_free_blocks := vs_free_blocks (si_sb i) - 1\<rparr>\<rparr>))
              (put (si_block_bitmap i) (Buf m) s);
            (r, s) \<leftarrow> write_from (si_bdev i) (vs_block_bitmap_block (si_sb i)) (si_block_bitmap i) s;
            Some (n, s)
          }
        }
      })"

section \<open>Inodes on disk\<close>

definition inodes_per_block :: u32 where
  "inodes_per_block = VRFS_BLOCK_SIZE div sizeof_vrfs_inode"

definition inode_block :: "vrfs_superblock \<Rightarrow> u32 \<Rightarrow> u32" where
  "inode_block sb inode_no = vs_inode_table_block sb + inode_no div inodes_per_block"

definition inode_offset :: "u32 \<Rightarrow> nat" where
  "inode_offset inode_no = unat ((inode_no mod inodes_per_block) * sizeof_vrfs_inode)"

text \<open>The callers pass the address of a disk inode, in an info structure or on the stack: its value here.\<close>

definition vrfs_write_inode :: "ptr \<Rightarrow> u32 \<Rightarrow> vrfs_inode \<Rightarrow> 'd fs \<Rightarrow> (int \<times> 'd fs) option" where
  "vrfs_write_inode sbi inode_no inode_data s =
     (if sbi = NULL then Some (- 1, s)
      else do {
        i \<leftarrow> vsb_at s sbi;
        (buffer, s) \<leftarrow> new_buf VRFS_BLOCK_SIZE s;
        if buffer = NULL then Some (- 1, s)
        else do {
          (r, s) \<leftarrow> read_into (si_bdev i) (inode_block (si_sb i) inode_no) buffer s;
          if r < 0 then do { s \<leftarrow> free_obj buffer s; Some (- 1, s) }
          else do {
            bs \<leftarrow> buf_at s buffer;
            require (inode_offset inode_no + unat sizeof_vrfs_inode \<le> length bs);
            let s = put buffer (Buf (splice (inode_offset inode_no) (vrfs_inode_bytes inode_data) bs)) s;
            (r, s) \<leftarrow> write_from (si_bdev i) (inode_block (si_sb i) inode_no) buffer s;
            s \<leftarrow> free_obj buffer s;
            Some (r, s)
          }
        }
      })"

definition vrfs_read_inode :: "ptr \<Rightarrow> u32 \<Rightarrow> 'd fs \<Rightarrow> (int \<times> vrfs_inode option \<times> 'd fs) option" where
  "vrfs_read_inode sbi inode_no s =
     (if sbi = NULL then Some (- 1, None, s)
      else do {
        i \<leftarrow> vsb_at s sbi;
        (buffer, s) \<leftarrow> new_buf VRFS_BLOCK_SIZE s;
        if buffer = NULL then Some (- 1, None, s)
        else do {
          (r, s) \<leftarrow> read_into (si_bdev i) (inode_block (si_sb i) inode_no) buffer s;
          if r < 0 then do { s \<leftarrow> free_obj buffer s; Some (- 1, None, s) }
          else do {
            bs \<leftarrow> buf_at s buffer;
            require (inode_offset inode_no + unat sizeof_vrfs_inode \<le> length bs);
            s \<leftarrow> free_obj buffer s;
            Some (0, Some (vrfs_inode_of (drop (inode_offset inode_no) bs)), s)
          }
        }
      })"

section \<open>Making a file system\<close>

definition mkfs_superblock :: "u32 \<Rightarrow> vrfs_superblock" where
  "mkfs_superblock sz =
     (let block_count = (if sz < VRFS_MAX_BLOCKS then sz else VRFS_MAX_BLOCKS);
          start = 3 + (VRFS_MAX_INODES * 64 + 511) div 512
      in \<lparr>vs_magic = VRFS_MAGIC, vs_block_count = block_count, vs_inode_count = VRFS_MAX_INODES,
          vs_free_blocks = block_count - start, vs_free_inodes = VRFS_MAX_INODES - 1, vs_inode_bitmap_block = 1,
          vs_block_bitmap_block = 2, vs_inode_table_block = 3, vs_data_block_start = start\<rparr>)"

text \<open>One block, filled with \<open>bs\<close>, written to the device from the buffer; on an error the buffer is freed.\<close>

definition mkfs_block :: "nat option \<Rightarrow> u32 \<Rightarrow> bytes \<Rightarrow> ptr \<Rightarrow> 'd fs \<Rightarrow> (bool \<times> 'd fs) option" where
  "mkfs_block bdev block bs buffer s = do {
     let s = put buffer (Buf bs) s;
     (r, s) \<leftarrow> write_from bdev block buffer s;
     if r < 0 then do { s \<leftarrow> free_obj buffer s; Some (False, s) } else Some (True, s)
   }"

definition vrfs_mkfs :: "nat option \<Rightarrow> 'd fs \<Rightarrow> (int \<times> 'd fs) option" where
  "vrfs_mkfs bdev s = (case bdev of
     None \<Rightarrow> Some (- 1, s)
   | Some dev \<Rightarrow> do {
       (buffer, s) \<leftarrow> new_buf VRFS_BLOCK_SIZE s;
       if buffer = NULL then Some (- 1, s)
       else do {
         d \<leftarrow> arr_get (block_devices (blk s)) dev;
         let sb = mkfs_superblock (bd_size d);
         (ok, s) \<leftarrow> mkfs_block bdev 0 (superblock_bytes sb) buffer s;
         if \<not> ok then Some (- 1, s)
         else do {
           inodes \<leftarrow> byte_set 0 (replicate 512 0);
           (ok, s) \<leftarrow> mkfs_block bdev (vs_inode_bitmap_block sb) inodes buffer s;
           if \<not> ok then Some (- 1, s)
           else do {
             blocks \<leftarrow> for_range 0 (unat (vs_data_block_start sb)) byte_set (replicate 512 0);
             (ok, s) \<leftarrow> mkfs_block bdev (vs_block_bitmap_block sb) blocks buffer s;
             if \<not> ok then Some (- 1, s)
             else do {
               let root = zero_inode\<lparr>vi_mode := VRFS_INODE_DIR, vi_links := 2\<rparr>;
               (ok, s) \<leftarrow> mkfs_block bdev (vs_inode_table_block sb) (splice 0 (vrfs_inode_bytes root) (replicate 512 0)) buffer s;
               if \<not> ok then Some (- 1, s)
               else do { s \<leftarrow> free_obj buffer s; Some (0, s) }
             }
           }
         }
       }
     })"

section \<open>Files\<close>

definition vrfs_open :: "ptr \<Rightarrow> ptr \<Rightarrow> int" where "vrfs_open inode f = 0"
definition vrfs_close :: "ptr \<Rightarrow> int" where "vrfs_close f = 0"

text \<open>The superblock info that an inode leads to: \<open>NULL\<close> when there is none.\<close>

definition sbi_of :: "inode \<Rightarrow> 'd fs \<Rightarrow> ptr option" where
  "sbi_of i s = (if i_sb i = NULL then Some NULL else do { sb \<leftarrow> sb_at s (i_sb i); Some (sb_private sb) })"

definition vrfs_read :: "ptr \<Rightarrow> u32 \<Rightarrow> u32 \<Rightarrow> 'd fs \<Rightarrow> (int \<times> bytes \<times> 'd fs) option" where
  "vrfs_read f sz offset s =
     (if f = NULL then Some (- 1, [], s)
      else do {
        fl \<leftarrow> file_at s f;
        if f_inode fl = NULL then Some (- 1, [], s)
        else do {
          i \<leftarrow> inode_at s (f_inode fl);
          if i_private i = NULL then Some (- 1, [], s)
          else do {
            sbi \<leftarrow> sbi_of i s;
            if sbi = NULL then Some (- 1, [], s)
            else if offset \<ge> i_size i then Some (0, [], s)
            else (let sz = (if offset + sz > i_size i then i_size i - offset else sz) in
              if offset \<noteq> 0 then Some (- 1, [], s)
              else do {
                info \<leftarrow> info_at s (i_private i);
                b0 \<leftarrow> arr_get (vi_direct (ii_disk info)) 0;
                if b0 = 0 then Some (0, [], s)
                else do {
                  (buffer, s) \<leftarrow> new_buf VRFS_BLOCK_SIZE s;
                  if buffer = NULL then Some (- 1, [], s)
                  else do {
                    si \<leftarrow> vsb_at s sbi;
                    (r, s) \<leftarrow> read_into (si_bdev si) b0 buffer s;
                    if r < 0 then do { s \<leftarrow> free_obj buffer s; Some (- 1, [], s) }
                    else do {
                      let to_read = (if sz < i_size i then sz else i_size i);
                      bs \<leftarrow> buf_at s buffer;
                      require (unat to_read \<le> length bs);
                      s \<leftarrow> free_obj buffer s;
                      Some (sint to_read, take (unat to_read) bs, s)
                    }
                  }
                }
              })
          }
        }
      })"

text \<open>The first block of an inode, allocated when there is none yet. The first result is false on failure.\<close>

definition first_block :: "ptr \<Rightarrow> ptr \<Rightarrow> 'd fs \<Rightarrow> (bool \<times> 'd fs) option" where
  "first_block sbi p s = do {
     info \<leftarrow> info_at s p;
     b0 \<leftarrow> arr_get (vi_direct (ii_disk info)) 0;
     if b0 = 0
     then do {
       (n, s) \<leftarrow> vrfs_alloc_block sbi s;
       if n < 0 then Some (False, s)
       else do {
         s \<leftarrow> put_disk p (\<lambda>d. d\<lparr>vi_direct := (vi_direct d)[0 := of_int n], vi_blocks := 1\<rparr>) s;
         Some (True, s)
       }
     }
     else Some (True, s)
   }"

text \<open>The data written to that block, and the new size to the inode \<open>c\<close>, in memory and on the disk.\<close>

definition write_data :: "ptr \<Rightarrow> inode \<Rightarrow> ptr \<Rightarrow> bytes \<Rightarrow> u32 \<Rightarrow> 'd fs \<Rightarrow> (int \<times> 'd fs) option" where
  "write_data c i sbi data sz s = do {
     (buffer, s) \<leftarrow> new_buf VRFS_BLOCK_SIZE s;
     if buffer = NULL then Some (- 1, s)
     else do {
       require (unat sz \<le> length data);
       let s = put buffer (Buf (splice 0 (take (unat sz) data) (replicate 512 0))) s;
       si \<leftarrow> vsb_at s sbi;
       info \<leftarrow> info_at s (i_private i);
       b0 \<leftarrow> arr_get (vi_direct (ii_disk info)) 0;
       (r, s) \<leftarrow> write_from (si_bdev si) b0 buffer s;
       if r < 0 then do { s \<leftarrow> free_obj buffer s; Some (- 1, s) }
       else do {
         s \<leftarrow> free_obj buffer s;
         s \<leftarrow> put_disk (i_private i) (\<lambda>d. d\<lparr>vi_size := sz\<rparr>) s;
         let s = put c (Inode (i\<lparr>i_size := sz\<rparr>)) s;
         info \<leftarrow> info_at s (i_private i);
         (r, s) \<leftarrow> vrfs_write_inode sbi (ii_no info) (ii_disk info) s;
         Some (sint sz, s)
       }
     }
   }"

definition vrfs_write :: "ptr \<Rightarrow> bytes \<Rightarrow> u32 \<Rightarrow> u32 \<Rightarrow> 'd fs \<Rightarrow> (int \<times> 'd fs) option" where
  "vrfs_write f data sz offset s =
     (if f = NULL then Some (- 1, s)
      else do {
        fl \<leftarrow> file_at s f;
        if f_inode fl = NULL \<or> sz = 0 then Some (- 1, s)
        else do {
          i \<leftarrow> inode_at s (f_inode fl);
          if i_private i = NULL then Some (- 1, s)
          else do {
            sbi \<leftarrow> sbi_of i s;
            if sbi = NULL then Some (- 1, s)
            else if offset \<noteq> 0 \<or> sz > VRFS_BLOCK_SIZE then Some (- 1, s)
            else do {
              (ok, s) \<leftarrow> first_block sbi (i_private i) s;
              if \<not> ok then Some (- 1, s) else write_data (f_inode fl) i sbi data sz s
            }
          }
        }
      })"

section \<open>Directories\<close>

text \<open>A directory is one block of 16 entries; number 0 marks an unused one.\<close>

definition entry_no :: "bytes \<Rightarrow> nat \<Rightarrow> u32" where
  "entry_no bs i = word_at bs (sizeof_vrfs_dirent * i)"

definition entry_name :: "bytes \<Rightarrow> nat \<Rightarrow> bytes" where
  "entry_name bs i = take VRFS_MAX_NAME (drop (sizeof_vrfs_dirent * i + 4) bs)"

definition max_entries :: nat where
  "max_entries = unat VRFS_BLOCK_SIZE div sizeof_vrfs_dirent"

text \<open>The comparison of the 28 bytes of an entry with a string.\<close>

fun dirent_match :: "bytes \<Rightarrow> cstring \<Rightarrow> bool" where
  "dirent_match [] name \<longleftrightarrow> True"
| "dirent_match (b # bs) [] \<longleftrightarrow> b = 0"
| "dirent_match (b # bs) (c # name) \<longleftrightarrow> b = c \<and> (b = 0 \<or> dirent_match bs name)"

definition find_dirent :: "bytes \<Rightarrow> cstring \<Rightarrow> nat option" where
  "find_dirent bs name = find_first 0 max_entries (\<lambda>i. entry_no bs i \<noteq> 0 \<and> dirent_match (entry_name bs i) name)"

text \<open>The directory's own first block, cleared when it is new. The result is false on failure.\<close>

definition dir_block :: "ptr \<Rightarrow> ptr \<Rightarrow> u32 \<Rightarrow> 'd fs \<Rightarrow> (bool \<times> 'd fs) option" where
  "dir_block sbi dir_info dir_inode_no s = do {
     info \<leftarrow> info_at s dir_info;
     b0 \<leftarrow> arr_get (vi_direct (ii_disk info)) 0;
     if b0 = 0
     then do {
       (ok, s) \<leftarrow> first_block sbi dir_info s;
       if \<not> ok then Some (False, s)
       else do {
         info \<leftarrow> info_at s dir_info;
         (r, s) \<leftarrow> vrfs_write_inode sbi dir_inode_no (ii_disk info) s;
         (buffer, s) \<leftarrow> new_buf VRFS_BLOCK_SIZE s;
         if buffer = NULL then Some (False, s)
         else do {
           let s = put buffer (Buf (replicate 512 0)) s;
           si \<leftarrow> vsb_at s sbi;
           b0 \<leftarrow> arr_get (vi_direct (ii_disk info)) 0;
           (r, s) \<leftarrow> write_from (si_bdev si) b0 buffer s;
           s \<leftarrow> free_obj buffer s;
           Some (True, s)
         }
       }
     }
     else Some (True, s)
   }"

definition vrfs_add_dir_entry :: "ptr \<Rightarrow> ptr \<Rightarrow> u32 \<Rightarrow> cstring \<Rightarrow> u32 \<Rightarrow> 'd fs \<Rightarrow> (int \<times> 'd fs) option" where
  "vrfs_add_dir_entry sbi dir_info dir_inode_no name inode_no s = do {
     (ok, s) \<leftarrow> dir_block sbi dir_info dir_inode_no s;
     if \<not> ok then Some (- 1, s)
     else do {
       (buffer, s) \<leftarrow> new_buf VRFS_BLOCK_SIZE s;
       if buffer = NULL then Some (- 1, s)
       else do {
         si \<leftarrow> vsb_at s sbi;
         info \<leftarrow> info_at s dir_info;
         b0 \<leftarrow> arr_get (vi_direct (ii_disk info)) 0;
         (r, s) \<leftarrow> read_into (si_bdev si) b0 buffer s;
         if r < 0 then do { s \<leftarrow> free_obj buffer s; Some (- 1, s) }
         else do {
           bs \<leftarrow> buf_at s buffer;
           require (sizeof_vrfs_dirent * max_entries \<le> length bs);
           case find_first 0 max_entries (\<lambda>i. entry_no bs i = 0) of
             None \<Rightarrow> do { s \<leftarrow> free_obj buffer s; Some (- 1, s) }
           | Some i \<Rightarrow> do {
               let s = put buffer (Buf (splice (sizeof_vrfs_dirent * i) (le32 inode_no @ take (VRFS_MAX_NAME - 1) name @ [0]) bs)) s;
               (r, s) \<leftarrow> write_from (si_bdev si) b0 buffer s;
               if r < 0 then do { s \<leftarrow> free_obj buffer s; Some (- 1, s) }
               else do {
                 s \<leftarrow> put_disk dir_info (\<lambda>d. d\<lparr>vi_size := of_nat ((i + 1) * sizeof_vrfs_dirent)\<rparr>) s;
                 info \<leftarrow> info_at s dir_info;
                 (r, s) \<leftarrow> vrfs_write_inode sbi dir_inode_no (ii_disk info) s;
                 s \<leftarrow> free_obj buffer s;
                 Some (0, s)
               }
             }
         }
       }
     }
   }"

text \<open>
  The in-memory inode of a disk inode: what \<open>kmalloc\<close> gave, with the members that are set. The members
  that are not set keep what the memory held.
\<close>

definition vfs_inode_from :: "u32 \<Rightarrow> u32 \<Rightarrow> u32 \<Rightarrow> ptr \<Rightarrow> ptr \<Rightarrow> inode \<Rightarrow> inode" where
  "vfs_inode_from no kind sz sb info i = i\<lparr>i_ino := no, i_mode := kind, i_type := kind, i_size := sz,
     i_fop := Vrfs_ops, i_iop := Vrfs_ops, i_sb := sb, i_private := info\<rparr>"

definition new_inode :: "'d fs \<Rightarrow> (ptr \<times> 'd fs) option" where
  "new_inode = new_obj sizeof_inode (\<lambda>w. Inode (raw_inode w))"

definition new_info :: "'d fs \<Rightarrow> (ptr \<times> 'd fs) option" where
  "new_info = new_obj sizeof_vrfs_inode_info (\<lambda>w. Vrfs_info \<lparr>ii_disk = vrfs_inode_of (concat (map (\<lambda>k. le32 (w k)) [0..<19])), ii_no = w 19\<rparr>)"

text \<open>The inode and info of a disk inode that was found; the first result is \<open>NULL\<close> without memory.\<close>

definition load_inode :: "ptr \<Rightarrow> u32 \<Rightarrow> vrfs_inode \<Rightarrow> 'd fs \<Rightarrow> (ptr \<times> 'd fs) option" where
  "load_inode sb inode_no disk s = do {
     (p, s) \<leftarrow> new_inode s;
     if p = NULL then Some (NULL, s)
     else do {
       (q, s) \<leftarrow> new_info s;
       if q = NULL then do { s \<leftarrow> free_obj p s; Some (NULL, s) }
       else do {
         i \<leftarrow> inode_at s p;
         let kind = (if vi_mode disk = VRFS_INODE_DIR then VFS_DIRECTORY else VFS_FILE);
         Some (p, put p (Inode (vfs_inode_from inode_no kind (vi_size disk) sb q i))
           (put q (Vrfs_info \<lparr>ii_disk = disk, ii_no = inode_no\<rparr>) s))
       }
     }
   }"

definition vrfs_lookup :: "ptr \<Rightarrow> cstring \<Rightarrow> 'd fs \<Rightarrow> (ptr \<times> 'd fs) option" where
  "vrfs_lookup dir name s =
     (if dir = NULL then Some (NULL, s)
      else do {
        d \<leftarrow> inode_at s dir;
        sbi \<leftarrow> sbi_of d s;
        if sbi = NULL then Some (NULL, s)
        else if i_private d = NULL then Some (NULL, s)
        else do {
          info \<leftarrow> info_at s (i_private d);
          b0 \<leftarrow> arr_get (vi_direct (ii_disk info)) 0;
          if b0 = 0 then Some (NULL, s)
          else do {
            (buffer, s) \<leftarrow> new_buf VRFS_BLOCK_SIZE s;
            if buffer = NULL then Some (NULL, s)
            else do {
              si \<leftarrow> vsb_at s sbi;
              (r, s) \<leftarrow> read_into (si_bdev si) b0 buffer s;
              if r < 0 then do { s \<leftarrow> free_obj buffer s; Some (NULL, s) }
              else do {
                bs \<leftarrow> buf_at s buffer;
                require (sizeof_vrfs_dirent * max_entries \<le> length bs);
                s \<leftarrow> free_obj buffer s;
                case find_dirent bs name of
                  None \<Rightarrow> Some (NULL, s)
                | Some i \<Rightarrow> do {
                    (r, disk, s) \<leftarrow> vrfs_read_inode sbi (entry_no bs i) s;
                    if r < 0 then Some (NULL, s)
                    else do { disk \<leftarrow> disk; load_inode (i_sb d) (entry_no bs i) disk s }
                  }
              }
            }
          }
        }
      })"

text \<open>
  Creating a file: the inode is allocated and written, then entered in the directory. When that fails
  the two structures are freed, but the number stays allocated. \<open>create_new\<close> is the part of
  \<open>vrfs_create\<close> for a name that the lookup did not find; the inodes of VRFS have its own operations,
  so the lookup that is called through the table is \<open>vrfs_lookup\<close>.
\<close>

definition create_new :: "inode \<Rightarrow> ptr \<Rightarrow> cstring \<Rightarrow> 'd fs \<Rightarrow> (ptr \<times> 'd fs) option" where
  "create_new d sbi name s = do {
     (n, s) \<leftarrow> vrfs_alloc_inode sbi s;
     if n < 0 then Some (NULL, s)
     else do {
       let inode_no = of_int n;
       (p, s) \<leftarrow> new_inode s;
       if p = NULL then Some (NULL, s)
       else do {
         (q, s) \<leftarrow> new_info s;
         if q = NULL then do { s \<leftarrow> free_obj p s; Some (NULL, s) }
         else do {
           let disk = zero_inode\<lparr>vi_mode := VRFS_INODE_FILE, vi_links := 1\<rparr>;
           let s = put q (Vrfs_info \<lparr>ii_disk = disk, ii_no = inode_no\<rparr>) s;
           (r, s) \<leftarrow> vrfs_write_inode sbi inode_no disk s;
           dir_info \<leftarrow> info_at s (i_private d);
           (r, s) \<leftarrow> vrfs_add_dir_entry sbi (i_private d) (ii_no dir_info) name inode_no s;
           if r < 0
           then do { s \<leftarrow> free_obj q s; s \<leftarrow> free_obj p s; Some (NULL, s) }
           else do {
             i \<leftarrow> inode_at s p;
             Some (p, put p (Inode (vfs_inode_from inode_no VFS_FILE 0 (i_sb d) q i)) s)
           }
         }
       }
     }
   }"

definition vrfs_create :: "ptr \<Rightarrow> cstring \<Rightarrow> 'd fs \<Rightarrow> (ptr \<times> 'd fs) option" where
  "vrfs_create dir name s =
     (if dir = NULL then Some (NULL, s)
      else do {
        d \<leftarrow> inode_at s dir;
        sbi \<leftarrow> sbi_of d s;
        if sbi = NULL then Some (NULL, s)
        else if i_private d = NULL then Some (NULL, s)
        else do {
          (existing, s) \<leftarrow> (if i_iop d = Vrfs_ops then vrfs_lookup dir name s
            else if i_iop d = No_ops then Some (NULL, s) else None);
          if existing \<noteq> NULL then Some (existing, s) else create_new d sbi name s
        }
      })"

definition vrfs_unlink :: "ptr \<Rightarrow> cstring \<Rightarrow> 'd fs \<Rightarrow> (int \<times> 'd fs) option" where
  "vrfs_unlink dir name s =
     (if dir = NULL then Some (- 1, s)
      else do {
        d \<leftarrow> inode_at s dir;
        sbi \<leftarrow> sbi_of d s;
        if sbi = NULL then Some (- 1, s)
        else if i_private d = NULL then Some (- 1, s)
        else do {
          info \<leftarrow> info_at s (i_private d);
          b0 \<leftarrow> arr_get (vi_direct (ii_disk info)) 0;
          if b0 = 0 then Some (- 1, s)
          else do {
            (buffer, s) \<leftarrow> new_buf VRFS_BLOCK_SIZE s;
            if buffer = NULL then Some (- 1, s)
            else do {
              si \<leftarrow> vsb_at s sbi;
              (r, s) \<leftarrow> read_into (si_bdev si) b0 buffer s;
              if r < 0 then do { s \<leftarrow> free_obj buffer s; Some (- 1, s) }
              else do {
                bs \<leftarrow> buf_at s buffer;
                require (sizeof_vrfs_dirent * max_entries \<le> length bs);
                case find_dirent bs name of
                  None \<Rightarrow> do { s \<leftarrow> free_obj buffer s; Some (- 1, s) }
                | Some i \<Rightarrow> do {
                    let s = put buffer (Buf (splice (sizeof_vrfs_dirent * i) (le32 0 @ replicate VRFS_MAX_NAME 0) bs)) s;
                    (r, s) \<leftarrow> write_from (si_bdev si) b0 buffer s;
                    s \<leftarrow> free_obj buffer s;
                    Some (if r < 0 then - 1 else 0, s)
                  }
              }
            }
          }
        }
      })"

section \<open>Mounting\<close>

text \<open>
  The structures of a mounted file system, freed in the code's order when a later step fails: the list
  of the addresses to free. The members of the superblock info and of the superblock are set once all
  their values are there; the code sets some of them earlier, where nothing reads them.
\<close>

fun free_all :: "ptr list \<Rightarrow> 'd fs \<Rightarrow> 'd fs option" where
  "free_all [] s = Some s"
| "free_all (p # ps) s = do { s \<leftarrow> free_obj p s; free_all ps s }"

definition new_vrfs_sb :: "'d fs \<Rightarrow> (ptr \<times> 'd fs) option" where
  "new_vrfs_sb = new_obj sizeof_vrfs_sb_info (\<lambda>w. Vrfs_sb
     \<lparr>si_sb = superblock_of (concat (map (\<lambda>k. le32 (w k)) [0..<9])), si_bdev = None, si_inode_bitmap = w 129,
      si_block_bitmap = w 130\<rparr>)"

definition new_superblock :: "'d fs \<Rightarrow> (ptr \<times> 'd fs) option" where
  "new_superblock = new_obj sizeof_superblock (\<lambda>w. Superblock \<lparr>sb_magic = w 0, sb_block_size = w 1, sb_max_files = w 2,
     sb_private = w 3, sb_root = w 4, sb_root_inode = w 5\<rparr>)"

text \<open>The two bitmaps, read from the device into buffers of their own; the result is \<open>NULL\<close> without memory.\<close>

definition load_bitmap :: "nat option \<Rightarrow> u32 \<Rightarrow> 'd fs \<Rightarrow> (ptr \<times> 'd fs) option" where
  "load_bitmap bdev block s = do {
     (p, s) \<leftarrow> new_buf VRFS_BLOCK_SIZE s;
     if p = NULL then Some (NULL, s) else do { (r, s) \<leftarrow> read_into bdev block p s; Some (p, s) }
   }"

text \<open>
  The last part of the mount: the root inode from inode 0 of the disk. The superblock info \<open>sbi\<close>, the
  bitmaps \<open>ib\<close> and \<open>bb\<close>, the superblock \<open>vfs_sb\<close> and the buffer are allocated already.
\<close>

definition mount_root :: "ptr \<Rightarrow> ptr \<Rightarrow> ptr \<Rightarrow> ptr \<Rightarrow> ptr \<Rightarrow> 'd fs \<Rightarrow> (ptr \<times> 'd fs) option" where
  "mount_root vfs_sb bb ib sbi buffer s = do {
     (root, s) \<leftarrow> new_inode s;
     if root = NULL then do { s \<leftarrow> free_all [vfs_sb, bb, ib, sbi, buffer] s; Some (NULL, s) }
     else do {
       (info, s) \<leftarrow> new_info s;
       if info = NULL then do { s \<leftarrow> free_all [root, vfs_sb, bb, ib, sbi, buffer] s; Some (NULL, s) }
       else do {
         (r, disk, s) \<leftarrow> vrfs_read_inode sbi 0 s;
         if r < 0 then do { s \<leftarrow> free_all [info, root, vfs_sb, bb, ib, sbi, buffer] s; Some (NULL, s) }
         else do {
           disk \<leftarrow> disk;
           v \<leftarrow> sb_at s vfs_sb;
           i \<leftarrow> inode_at s root;
           let s = put vfs_sb (Superblock (v\<lparr>sb_magic := VRFS_MAGIC, sb_block_size := VRFS_BLOCK_SIZE,
               sb_private := sbi, sb_root_inode := root\<rparr>))
             (put root (Inode (vfs_inode_from 0 VFS_DIRECTORY (vi_size disk) vfs_sb info i))
               (put info (Vrfs_info \<lparr>ii_disk = disk, ii_no = 0\<rparr>) s));
           s \<leftarrow> free_obj buffer s;
           Some (vfs_sb, s)
         }
       }
     }
   }"

text \<open>The part before it: both bitmaps, and the superblock.\<close>

definition mount_bitmaps :: "nat option \<Rightarrow> vrfs_superblock \<Rightarrow> ptr \<Rightarrow> ptr \<Rightarrow> 'd fs \<Rightarrow> (ptr \<times> 'd fs) option" where
  "mount_bitmaps bdev sb sbi buffer s = do {
     (ib, s) \<leftarrow> load_bitmap bdev (vs_inode_bitmap_block sb) s;
     if ib = NULL then do { s \<leftarrow> free_all [sbi, buffer] s; Some (NULL, s) }
     else do {
       (bb, s) \<leftarrow> load_bitmap bdev (vs_block_bitmap_block sb) s;
       if bb = NULL then do { s \<leftarrow> free_all [ib, sbi, buffer] s; Some (NULL, s) }
       else do {
         let s = put sbi (Vrfs_sb \<lparr>si_sb = sb, si_bdev = bdev, si_inode_bitmap = ib, si_block_bitmap = bb\<rparr>) s;
         (vfs_sb, s) \<leftarrow> new_superblock s;
         if vfs_sb = NULL then do { s \<leftarrow> free_all [bb, ib, sbi, buffer] s; Some (NULL, s) }
         else mount_root vfs_sb bb ib sbi buffer s
       }
     }
   }"

definition vrfs_mount :: "nat option \<Rightarrow> 'd fs \<Rightarrow> (ptr \<times> 'd fs) option" where
  "vrfs_mount bdev s = (if bdev = None then Some (NULL, s) else do {
     (buffer, s) \<leftarrow> new_buf VRFS_BLOCK_SIZE s;
     if buffer = NULL then Some (NULL, s)
     else do {
       (r, s) \<leftarrow> read_into bdev 0 buffer s;
       if r < 0 then do { s \<leftarrow> free_obj buffer s; Some (NULL, s) }
       else do {
         bs \<leftarrow> buf_at s buffer;
         require (unat VRFS_BLOCK_SIZE \<le> length bs);
         let sb = superblock_of bs;
         if vs_magic sb \<noteq> VRFS_MAGIC then do { s \<leftarrow> free_obj buffer s; Some (NULL, s) }
         else do {
           (sbi, s) \<leftarrow> new_vrfs_sb s;
           if sbi = NULL then do { s \<leftarrow> free_obj buffer s; Some (NULL, s) }
           else mount_bitmaps bdev sb sbi buffer s
         }
       }
     }
   })"

definition vrfs_unmount :: "ptr \<Rightarrow> 'd fs \<Rightarrow> (int \<times> 'd fs) option" where
  "vrfs_unmount sb s =
     (if sb = NULL then Some (- 1, s)
      else do {
        v \<leftarrow> sb_at s sb;
        s \<leftarrow> (if sb_private v = NULL then Some s
          else do {
            i \<leftarrow> vsb_at s (sb_private v);
            s \<leftarrow> (if si_block_bitmap i \<noteq> NULL then free_obj (si_block_bitmap i) s else Some s);
            s \<leftarrow> (if si_inode_bitmap i \<noteq> NULL then free_obj (si_inode_bitmap i) s else Some s);
            free_obj (sb_private v) s
          });
        s \<leftarrow> (if sb_root_inode v \<noteq> NULL then free_obj (sb_root_inode v) s else Some s);
        s \<leftarrow> free_obj sb s;
        Some (0, s)
      })"

definition vrfs_init :: int where "vrfs_init = 0"

section \<open>The device\<close>

text \<open>
  A driver that keeps blocks: \<open>content\<close> gives the blocks of a state of the hardware, \<open>ready\<close> the states
  between calls of the driver. In these, reading and writing a block of the device succeed, a block reads as it was last written, and a
  write changes no other. This is what a disk driver promises; a driver is registered by other code.
\<close>

definition disk_driver :: "('d \<Rightarrow> nat \<Rightarrow> bytes) \<Rightarrow> ('d \<Rightarrow> bool) \<Rightarrow> nat \<Rightarrow> 'd blk_read \<Rightarrow> 'd blk_write \<Rightarrow> bool" where
  "disk_driver content ready n rd wr \<longleftrightarrow>
     (\<forall>d k. ready d \<longrightarrow> k < n \<longrightarrow> length (content d k) = 512) \<and>
     (\<forall>b buf d. ready d \<longrightarrow> unat b < n \<longrightarrow> length buf = 512 \<longrightarrow>
        (\<exists>d'. rd b buf d = Some (0, content d (unat b), d') \<and> ready d' \<and> content d' = content d) \<and>
        (\<exists>d'. wr b buf d = Some (0, d') \<and> ready d' \<and> content d' = (content d)(unat b := buf)))"

definition on_disk :: "('d \<Rightarrow> nat \<Rightarrow> bytes) \<Rightarrow> nat \<Rightarrow> nat \<Rightarrow> 'd fs \<Rightarrow> bool" where
  "on_disk content dev n s \<longleftrightarrow> dev < length (block_devices (blk s)) \<and> bd_in_use (block_devices (blk s) ! dev) \<and>
     unat (bd_size (block_devices (blk s) ! dev)) = n \<and>
     (\<exists>rd wr ready. bd_read (block_devices (blk s) ! dev) = Some rd \<and> bd_write (block_devices (blk s) ! dev) = Some wr \<and>
        ready (bd_hw (blk s)) \<and> disk_driver content ready n rd wr)"

definition disk :: "('d \<Rightarrow> nat \<Rightarrow> bytes) \<Rightarrow> 'd fs \<Rightarrow> nat \<Rightarrow> bytes" where
  "disk content s = content (bd_hw (blk s))"

lemma disk_put [simp]: "disk C (put p x s) = disk C s"
  by (simp add: disk_def)

lemma on_disk_put [simp]: "on_disk C dev n (put p x s) = on_disk C dev n s"
  by (simp add: on_disk_def)

lemma same_env_disk: "same_env s s' \<Longrightarrow> disk C s' = disk C s \<and> on_disk C dev n s' = on_disk C dev n s"
  by (simp add: disk_def on_disk_def same_env_def)

lemma disk_length: "on_disk C dev n s \<Longrightarrow> k < n \<Longrightarrow> length (disk C s k) = 512"
  by (auto simp: on_disk_def disk_driver_def disk_def)

lemma read_into_run:
  assumes "fs_wf s" "on_disk C dev n s" "objs s p = Some (Buf buf)" "length buf = 512" "unat b < n"
  obtains s' where "read_into (Some dev) b p s = Some (0, s')" "fs_wf s'" "on_disk C dev n s'"
    "objs s' = (objs s)(p \<mapsto> Buf (disk C s (unat b)))" "disk C s' = disk C s"
proof -
  let ?d = "block_devices (blk s) ! dev"
  obtain rd wr ready where d: "dev < length (block_devices (blk s))" "bd_in_use ?d" "unat (bd_size ?d) = n"
    "bd_read ?d = Some rd" "bd_write ?d = Some wr" "ready (bd_hw (blk s))" "disk_driver C ready n rd wr"
    using assms(2) by (auto simp: on_disk_def)
  then obtain hw where hw: "rd b buf (bd_hw (blk s)) = Some (0, C (bd_hw (blk s)) (unat b), hw)" "C hw = C (bd_hw (blk s))" "ready hw"
    using assms(4,5) unfolding disk_driver_def by blast
  have lt: "\<not> b \<ge> bd_size ?d" using d(3) assms(5) by (simp add: word_le_nat_alt)
  let ?s = "put p (Buf (C (bd_hw (blk s)) (unat b))) (s\<lparr>blk := (blk s)\<lparr>bd_hw := hw\<rparr>\<rparr>)"
  have "read_into (Some dev) b p s = Some (0, ?s)"
    using d assms(3) hw(1) lt by (simp add: read_into_def blkdev_read_def at_obj)
  moreover have "fs_wf ?s" by (rule fs_wf_put) (use assms(1,3) in simp_all)
  ultimately show ?thesis using d hw(2,3) by (intro that[of ?s]) (auto simp: on_disk_def disk_def)
qed

lemma write_from_run:
  assumes "fs_wf s" "on_disk C dev n s" "objs s p = Some (Buf buf)" "length buf = 512" "unat b < n"
  obtains s' where "write_from (Some dev) b p s = Some (0, s')" "fs_wf s'" "on_disk C dev n s'" "objs s' = objs s"
    "disk C s' = (disk C s)(unat b := buf)"
proof -
  let ?d = "block_devices (blk s) ! dev"
  obtain rd wr ready where d: "dev < length (block_devices (blk s))" "bd_in_use ?d" "unat (bd_size ?d) = n"
    "bd_read ?d = Some rd" "bd_write ?d = Some wr" "ready (bd_hw (blk s))" "disk_driver C ready n rd wr"
    using assms(2) by (auto simp: on_disk_def)
  then obtain hw where hw: "wr b buf (bd_hw (blk s)) = Some (0, hw)" "C hw = (C (bd_hw (blk s)))(unat b := buf)" "ready hw"
    using assms(4,5) unfolding disk_driver_def by blast
  have lt: "\<not> b \<ge> bd_size ?d" using d(3) assms(5) by (simp add: word_le_nat_alt)
  let ?s = "s\<lparr>blk := (blk s)\<lparr>bd_hw := hw\<rparr>\<rparr>"
  have "write_from (Some dev) b p s = Some (0, ?s)"
    using d assms(3) hw(1) lt by (simp add: write_from_def blkdev_write_def at_obj)
  then show ?thesis using d hw(2,3) assms(1) by (intro that[of ?s]) (auto simp: on_disk_def disk_def)
qed

lemma block_size [simp]: "VRFS_BLOCK_SIZE = 512" "region_size 512 = 512"
  by (simp_all add: VRFS_BLOCK_SIZE_def region_size_le)

text \<open>A buffer for a block.\<close>

lemma block_buf_cases:
  assumes "fs_wf s"
  obtains (none) "new_buf 512 s = Some (NULL, s)"
  | (some) p s' buf where "new_buf 512 s = Some (p, s')" "p \<noteq> NULL" "fs_wf s'" "objs s p = None"
      "objs s' = (objs s)(p \<mapsto> Buf buf)" "length buf = 512" "same_env s s'"
proof (cases rule: new_obj_cases[OF assms, of 512 "\<lambda>w. Buf (map (\<lambda>i. ucast (w i)) [0..<region_size 512])"])
  case 1
  then show ?thesis by (intro none) (simp add: new_buf_def)
next
  case (2 p s')
  then show ?thesis by (intro some[of p s' "map (\<lambda>i. ucast (junk s (fresh s) i)) [0..<512]"]) (simp_all add: new_buf_def)
qed

section \<open>Layout\<close>

definition inode_ok :: "vrfs_inode \<Rightarrow> bool" where
  "inode_ok i \<longleftrightarrow> length (vi_direct i) = 12 \<and> length (vi_padding i) = 12"

lemma length_inode_bytes: "inode_ok i \<Longrightarrow> length (vrfs_inode_bytes i) = 76"
  by (simp add: vrfs_inode_bytes_def inode_ok_def length_concat sum_list_triv o_def)

lemma drop_le [simp]:
  "drop (4 + m) (le32 w @ ys) = drop m ys" "drop 4 (le32 w @ ys) = ys" "drop (2 + m) (le16 v @ ys) = drop m ys" "drop 2 (le16 v @ ys) = ys"
  by (simp_all add: le32_def le16_def numeral_eq_Suc)

lemma word_at_cells: "k < length ws \<Longrightarrow> word_at (concat (map le32 ws) @ xs) (4 * k) = ws ! k"
proof (induction ws arbitrary: k)
  case (Cons w ws)
  show ?case
  proof (cases k)
    case 0
    then show ?thesis by (simp add: word_at_def del: drop_append)
  next
    case (Suc j)
    have "word_at (concat (map le32 (w # ws)) @ xs) (4 * k) = word_at (concat (map le32 ws) @ xs) (4 * j)"
      unfolding word_at_def Suc by (simp del: drop_append)
    with Cons Suc show ?thesis by simp
  qed
qed simp

lemma vrfs_inode_round: "inode_ok i \<Longrightarrow> vrfs_inode_of (vrfs_inode_bytes i @ xs) = i"
proof -
  assume i: "inode_ok i"
  let ?m = "le16 (vi_mode i)" and ?l = "le16 (vi_links i)"
  let ?r = "concat (map le32 (vi_size i # vi_blocks i # vi_direct i @ [vi_indirect i])) @ vi_padding i @ xs"
  have b: "vrfs_inode_bytes i @ xs = ?m @ ?l @ ?r" by (simp add: vrfs_inode_bytes_def)
  have w: "word_at (?m @ ?l @ ?r) (4 + 4 * k) = (vi_size i # vi_blocks i # vi_direct i @ [vi_indirect i]) ! k" if "k < 15" for k
  proof -
    have "4 + 4 * k = 2 + (2 + 4 * k)" by simp
    then have "word_at (?m @ ?l @ ?r) (4 + 4 * k) = word_at ?r (4 * k)"
      unfolding word_at_def by (simp only: drop_le)
    also have "\<dots> = (vi_size i # vi_blocks i # vi_direct i @ [vi_indirect i]) ! k"
      using that i by (intro word_at_cells) (simp add: inode_ok_def)
    finally show ?thesis .
  qed
  have "map (\<lambda>k. word_at (?m @ ?l @ ?r) (12 + 4 * k)) [0..<12] = vi_direct i"
  proof (rule nth_equalityI)
    fix k assume "k < length (map (\<lambda>k. word_at (?m @ ?l @ ?r) (12 + 4 * k)) [0..<12])"
    then have k: "k < 12" by simp
    then have "word_at (?m @ ?l @ ?r) (12 + 4 * k) = vi_direct i ! k"
      using w[of "k + 2"] i by (simp add: inode_ok_def nth_append)
    then show "map (\<lambda>k. word_at (?m @ ?l @ ?r) (12 + 4 * k)) [0..<12] ! k = vi_direct i ! k" using k by simp
  qed (use i in \<open>simp add: inode_ok_def\<close>)
  moreover have "take 12 (drop 64 (?m @ ?l @ ?r)) = vi_padding i"
  proof -
    have "length (?m @ ?l @ concat (map le32 (vi_size i # vi_blocks i # vi_direct i @ [vi_indirect i]))) = 64"
      using i by (simp add: inode_ok_def length_concat sum_list_triv o_def)
    then have "drop 64 (?m @ ?l @ ?r) = vi_padding i @ xs"
      by (metis (no_types, opaque_lifting) append.assoc append_eq_conv_conj)
    then show ?thesis using i by (simp add: inode_ok_def)
  qed
  moreover have "of_le16 (drop 2 (?m @ ?l @ ?r)) = vi_links i"
  proof -
    have "drop 2 (?m @ ?l @ ?r) = ?l @ ?r" by (simp only: drop_le)
    then show ?thesis by (simp del: append_assoc drop_append)
  qed
  ultimately show ?thesis unfolding b vrfs_inode_of_def
    using w[of 0] w[of 1] w[of 14] i by (simp add: inode_ok_def nth_append)
qed

lemma superblock_round: "superblock_of (superblock_bytes sb @ xs) = sb"
proof -
  let ?ws = "[vs_magic sb, vs_block_count sb, vs_inode_count sb, vs_free_blocks sb,
     vs_free_inodes sb, vs_inode_bitmap_block sb, vs_block_bitmap_block sb, vs_inode_table_block sb, vs_data_block_start sb]"
  have "word_at (concat (map le32 ?ws) @ replicate 476 0 @ xs) (4 * k) = ?ws ! k" if "k < 9" for k
    using that by (intro word_at_cells) simp
  from this[of 0] this[of 1] this[of 2] this[of 3] this[of 4] this[of 5] this[of 6] this[of 7] this[of 8]
  show ?thesis by (simp add: superblock_of_def superblock_bytes_def)
qed

lemma length_superblock_bytes: "length (superblock_bytes sb) = 512"
  by (simp add: superblock_bytes_def)

section \<open>Bitmaps and disk inodes\<close>

lemma find_free_from_run:
  "i + n \<le> 8 * length m \<Longrightarrow>
   find_free_from m i n = Some (case find_first i n (\<lambda>j. \<not> bytes_tst m j) of None \<Rightarrow> - 1 | Some k \<Rightarrow> int k)"
  by (induction m i n rule: find_free_from.induct) (auto simp: byte_test_eq bytes_nbits_def)

lemma bitmap_find_free_run:
  assumes "unat c \<le> 8 * length m"
  obtains (full) "bitmap_find_free m c = Some (- 1)" "\<forall>j<unat c. bytes_tst m j"
  | (free) k where "bitmap_find_free m c = Some (int k)" "k < unat c" "\<not> bytes_tst m k" "\<forall>j<k. bytes_tst m j"
proof (cases "find_first 0 (unat c) (\<lambda>j. \<not> bytes_tst m j)")
  case None
  then show ?thesis using assms find_first_None[of 0 "unat c" "\<lambda>j. \<not> bytes_tst m j"]
    by (intro full) (simp_all add: bitmap_find_free_def find_free_from_run)
next
  case (Some k)
  then show ?thesis using assms find_first_SomeD[OF Some]
    by (intro free[of k]) (auto simp: bitmap_find_free_def find_free_from_run)
qed

text \<open>The superblock of a mounted file system on a device of \<open>n\<close> blocks, as \<open>vrfs_mkfs\<close> makes it.\<close>

definition layout_ok :: "nat \<Rightarrow> vrfs_superblock \<Rightarrow> bool" where
  "layout_ok n sb \<longleftrightarrow> vs_inode_count sb = 128 \<and> vs_inode_bitmap_block sb = 1 \<and> vs_block_bitmap_block sb = 2 \<and>
     vs_inode_table_block sb = 3 \<and> vs_data_block_start sb = 19 \<and> unat (vs_block_count sb) \<le> n \<and>
     unat (vs_block_count sb) \<le> 1024 \<and> 25 \<le> n"

text \<open>
  A mounted file system: the superblock info at \<open>sbi\<close> with its two bitmaps, each 512 bytes, and the
  device. \<open>ib\<close> and \<open>bb\<close> are the bitmaps.
\<close>

definition mounted :: "('d \<Rightarrow> nat \<Rightarrow> bytes) \<Rightarrow> nat \<Rightarrow> nat \<Rightarrow> ptr \<Rightarrow> vrfs_sb_info \<Rightarrow> bytes \<Rightarrow> bytes \<Rightarrow> 'd fs \<Rightarrow> bool" where
  "mounted C dev n sbi i ib bb s \<longleftrightarrow> sbi \<noteq> NULL \<and> objs s sbi = Some (Vrfs_sb i) \<and> si_bdev i = Some dev \<and>
     on_disk C dev n s \<and> layout_ok n (si_sb i) \<and> objs s (si_inode_bitmap i) = Some (Buf ib) \<and> length ib = 512 \<and>
     objs s (si_block_bitmap i) = Some (Buf bb) \<and> length bb = 512 \<and> si_inode_bitmap i \<noteq> si_block_bitmap i"

lemma mounted_cong:
  assumes "mounted C dev n sbi i ib bb s" "on_disk C dev n s'"
    "\<And>p. p \<in> {sbi, si_inode_bitmap i, si_block_bitmap i} \<Longrightarrow> objs s' p = objs s p"
  shows "mounted C dev n sbi i ib bb s'"
  using assms by (simp add: mounted_def)

lemma mounted_keep:
  assumes "mounted C dev n sbi i ib bb s" "on_disk C dev n s'" "\<And>a. objs s a \<noteq> None \<Longrightarrow> objs s' a = objs s a"
  shows "mounted C dev n sbi i ib bb s'"
  by (rule mounted_cong[OF assms(1,2)], rule assms(3)) (use assms(1) in \<open>auto simp: mounted_def\<close>)

lemma inode_place:
  assumes "layout_ok n sb"
  shows "inode_offset no + 76 \<le> 512"
    and "unat no < 128 \<Longrightarrow> unat (inode_block sb no) = 3 + unat no div 6 \<and> unat (inode_block sb no) < n"
    and "inode_offset no = 76 * (unat no mod 6)"
proof -
  have six: "inodes_per_block = 6" by (simp add: inodes_per_block_def sizeof_vrfs_inode_def)
  have m: "unat (no mod 6) = unat no mod 6" by (simp add: unat_mod_distrib)
  have lt6: "unat no mod 6 < 6" by simp
  then have "unat no mod 6 * 76 < 4294967296" by linarith
  then have "unat ((no mod 6) * 76) = unat (no mod 6) * unat (76 :: u32)"
    by (intro unat_mult_lem[THEN iffD1]) (simp add: m)
  then have "unat ((no mod 6) * 76) = (unat no mod 6) * 76" by (simp add: m)
  then show o: "inode_offset no = 76 * (unat no mod 6)" by (simp add: inode_offset_def six sizeof_vrfs_inode_def)
  show "inode_offset no + 76 \<le> 512" using o lt6 by linarith
  assume lt: "unat no < 128"
  have d: "unat (no div 6) = unat no div 6" by (simp add: unat_div_distrib)
  then have "unat (no div 6) \<le> 21" using lt by simp
  then have "unat (3 + no div 6) = 3 + unat no div 6" using d by (subst unat_add_no_wrap) simp_all
  moreover have "3 + unat no div 6 \<le> 24" using lt by simp
  ultimately show "unat (inode_block sb no) = 3 + unat no div 6 \<and> unat (inode_block sb no) < n"
    using assms by (simp add: inode_block_def six layout_ok_def)
qed

lemma write_inode_cases:
  assumes "fs_wf s" "mounted C dev n sbi i ib bb s" "unat no < 128" "inode_ok d"
  obtains (none) "vrfs_write_inode sbi no d s = Some (- 1, s)"
  | (some) s' where "vrfs_write_inode sbi no d s = Some (0, s')" "fs_wf s'" "objs s' = objs s" "on_disk C dev n s'"
      "disk C s' = (disk C s)(3 + unat no div 6 := splice (inode_offset no) (vrfs_inode_bytes d) (disk C s (3 + unat no div 6)))"
proof -
  let ?B = "inode_block (si_sb i) no"
  have m: "sbi \<noteq> NULL" "objs s sbi = Some (Vrfs_sb i)" "si_bdev i = Some dev" "on_disk C dev n s" "layout_ok n (si_sb i)"
    using assms(2) by (simp_all add: mounted_def)
  note pl = inode_place[OF m(5), of no]
  have B: "unat ?B = 3 + unat no div 6" "unat ?B < n" using pl(2) assms(3) by auto
  show ?thesis
  proof (cases rule: block_buf_cases[OF assms(1)])
    case 1
    then show ?thesis using m by (intro none) (simp add: vrfs_write_inode_def at_obj)
  next
    case (2 p s1 buf)
    have d1: "on_disk C dev n s1" "disk C s1 = disk C s" using same_env_disk[OF 2(7)] m(4) by auto
    have o1: "objs s1 p = Some (Buf buf)" using 2(5) by simp
    obtain s2 where s2: "read_into (Some dev) ?B p s1 = Some (0, s2)" "fs_wf s2" "on_disk C dev n s2"
      "objs s2 = (objs s1)(p \<mapsto> Buf (disk C s1 (unat ?B)))" "disk C s2 = disk C s1"
      by (rule read_into_run[OF 2(3) d1(1) o1 2(6) B(2)]) blast
    let ?blk = "disk C s (unat ?B)" let ?new = "splice (inode_offset no) (vrfs_inode_bytes d) ?blk"
    have len: "length ?blk = 512" by (rule disk_length[OF m(4) B(2)])
    have ln: "length ?new = 512" using len pl(1) by (simp add: length_splice length_inode_bytes assms(4))
    let ?s3 = "put p (Buf ?new) s2"
    have w3: "fs_wf ?s3" by (rule fs_wf_put[OF s2(2)]) (simp add: s2(4))
    obtain s4 where s4: "write_from (Some dev) ?B p ?s3 = Some (0, s4)" "fs_wf s4" "on_disk C dev n s4"
      "objs s4 = objs ?s3" "disk C s4 = (disk C ?s3)(unat ?B := ?new)"
      by (rule write_from_run[OF w3, of C dev n p ?new ?B]) (use s2(3) ln B(2) in auto)
    have "objs s4 p \<noteq> None" using s4(4) by simp
    then obtain s5 where s5: "free_obj p s4 = Some s5" "fs_wf s5" "objs s5 = (objs s4)(p := None)" "same_env s4 s5"
      using free_obj_cases[OF s4(2)] by metis
    have "objs s5 = objs s" using s5(3) s4(4) s2(4) 2(4,5) by (auto simp: fun_eq_iff)
    moreover have "vrfs_write_inode sbi no d s = Some (0, s5)"
      using m 2(1,2) s2(1,4) d1(2) s4(1) s5(1) len pl(1)
      by (simp add: vrfs_write_inode_def at_obj sizeof_vrfs_inode_def Let_def)
    moreover have "on_disk C dev n s5" "disk C s5 = disk C s4" using same_env_disk[OF s5(4)] s4(3) by auto
    ultimately show ?thesis using s5(2) s4(5) s2(5) d1(2) unfolding B(1) by (intro some[of s5]) simp_all
  qed
qed

lemma read_inode_cases:
  assumes "fs_wf s" "mounted C dev n sbi i ib bb s" "unat no < 128"
  obtains (none) "vrfs_read_inode sbi no s = Some (- 1, None, s)"
  | (some) s' where "vrfs_read_inode sbi no s = Some (0, Some (vrfs_inode_of (drop (inode_offset no) (disk C s (3 + unat no div 6)))), s')"
      "fs_wf s'" "objs s' = objs s" "on_disk C dev n s'" "disk C s' = disk C s"
proof -
  let ?B = "inode_block (si_sb i) no"
  have m: "sbi \<noteq> NULL" "objs s sbi = Some (Vrfs_sb i)" "si_bdev i = Some dev" "on_disk C dev n s" "layout_ok n (si_sb i)"
    using assms(2) by (simp_all add: mounted_def)
  note pl = inode_place[OF m(5), of no]
  have B: "unat ?B = 3 + unat no div 6" "unat ?B < n" using pl(2) assms(3) by auto
  show ?thesis
  proof (cases rule: block_buf_cases[OF assms(1)])
    case 1
    then show ?thesis using m by (intro none) (simp add: vrfs_read_inode_def at_obj)
  next
    case (2 p s1 buf)
    have d1: "on_disk C dev n s1" "disk C s1 = disk C s" using same_env_disk[OF 2(7)] m(4) by auto
    have o1: "objs s1 p = Some (Buf buf)" using 2(5) by simp
    obtain s2 where s2: "read_into (Some dev) ?B p s1 = Some (0, s2)" "fs_wf s2" "on_disk C dev n s2"
      "objs s2 = (objs s1)(p \<mapsto> Buf (disk C s1 (unat ?B)))" "disk C s2 = disk C s1"
      by (rule read_into_run[OF 2(3) d1(1) o1 2(6) B(2)]) blast
    have len: "length (disk C s (unat ?B)) = 512" by (rule disk_length[OF m(4) B(2)])
    have "objs s2 p \<noteq> None" using s2(4) by simp
    then obtain s5 where s5: "free_obj p s2 = Some s5" "fs_wf s5" "objs s5 = (objs s2)(p := None)" "same_env s2 s5"
      using free_obj_cases[OF s2(2)] by metis
    have "objs s5 = objs s" using s5(3) s2(4) 2(4,5) by (auto simp: fun_eq_iff)
    moreover have "vrfs_read_inode sbi no s = Some (0, Some (vrfs_inode_of (drop (inode_offset no) (disk C s (unat ?B)))), s5)"
      using m 2(1,2) s2(1,4) d1(2) s5(1) len pl(1)
      by (simp add: vrfs_read_inode_def at_obj sizeof_vrfs_inode_def Let_def)
    moreover have "on_disk C dev n s5" "disk C s5 = disk C s2" using same_env_disk[OF s5(4)] s2(3) by auto
    ultimately show ?thesis using s5(2) s2(5) d1(2) unfolding B(1) by (intro some[of s5]) simp_all
  qed
qed

text \<open>
  A block is allocated from the bitmap: the first that is free, which is then marked in memory and on
  the disk and taken from the count.
\<close>

lemma alloc_block_cases:
  assumes "fs_wf s" "mounted C dev n sbi i ib bb s"
  obtains (none) "vrfs_alloc_block sbi s = Some (- 1, s)"
      "vs_free_blocks (si_sb i) = 0 \<or> (\<forall>j<unat (vs_block_count (si_sb i)). bytes_tst bb j)"
  | (some) k s' i' bb' where "vrfs_alloc_block sbi s = Some (int k, s')" "k < unat (vs_block_count (si_sb i))"
      "\<not> bytes_tst bb k" "\<forall>j<k. bytes_tst bb j" "fs_wf s'" "byte_set k bb = Some bb'"
      "i' = i\<lparr>si_sb := (si_sb i)\<lparr>vs_free_blocks := vs_free_blocks (si_sb i) - 1\<rparr>\<rparr>"
      "objs s' = (objs s)(sbi \<mapsto> Vrfs_sb i', si_block_bitmap i \<mapsto> Buf bb')"
      "mounted C dev n sbi i' ib bb' s'" "disk C s' = (disk C s)(2 := bb')"
proof -
  have m: "sbi \<noteq> NULL" "objs s sbi = Some (Vrfs_sb i)" "si_bdev i = Some dev" "on_disk C dev n s" "layout_ok n (si_sb i)"
    "objs s (si_block_bitmap i) = Some (Buf bb)" "length bb = 512" using assms(2) by (simp_all add: mounted_def)
  have two: "vs_block_bitmap_block (si_sb i) = 2" "2 < n" using m(5) by (simp_all add: layout_ok_def)
  have le: "unat (vs_block_count (si_sb i)) \<le> 8 * length bb" using m(5,7) by (simp add: layout_ok_def)
  show ?thesis
  proof (cases "vs_free_blocks (si_sb i) = 0")
    case True
    then show ?thesis using m by (intro none) (simp_all add: vrfs_alloc_block_def at_obj)
  next
    case nz: False
    show ?thesis
    proof (cases rule: bitmap_find_free_run[OF le])
      case 1
      then show ?thesis using m nz by (intro none) (simp_all add: vrfs_alloc_block_def at_obj)
    next
      case (2 k)
      have kb: "k < bytes_nbits bb" using 2(2) le by (simp add: bytes_nbits_def)
      obtain bb' where bb': "byte_set k bb = Some bb'" "bytes_nbits bb' = bytes_nbits bb" using bb.setb_ex[OF kb] by blast
      have len: "length bb' = 512" using bb'(2) m(7) by (simp add: bytes_nbits_def)
      let ?i = "i\<lparr>si_sb := (si_sb i)\<lparr>vs_free_blocks := vs_free_blocks (si_sb i) - 1\<rparr>\<rparr>"
      let ?s1 = "put sbi (Vrfs_sb ?i) (put (si_block_bitmap i) (Buf bb') s)"
      have ne: "sbi \<noteq> si_block_bitmap i" using m(2,6) by auto
      have w1: "fs_wf ?s1" using assms(1) m(2,6) by (intro fs_wf_put) auto
      have o: "objs ?s1 (si_block_bitmap i) = Some (Buf bb')" using ne by simp
      obtain s2 where s2: "write_from (Some dev) 2 (si_block_bitmap i) ?s1 = Some (0, s2)" "fs_wf s2" "on_disk C dev n s2"
        "objs s2 = objs ?s1" "disk C s2 = (disk C ?s1)(unat (2 :: u32) := bb')"
        by (rule write_from_run[OF w1 _ o len, of C dev n 2]) (use m(4) two(2) in auto)
      have "vrfs_alloc_block sbi s = Some (int k, s2)"
        using m nz 2(1) bb'(1) s2(1) two(1) by (simp add: vrfs_alloc_block_def at_obj Let_def)
      moreover have os2: "objs s2 = (objs s)(sbi \<mapsto> Vrfs_sb ?i, si_block_bitmap i \<mapsto> Buf bb')"
        using s2(4) ne by (auto simp: fun_eq_iff)
      moreover have "mounted C dev n sbi ?i ib bb' s2"
        using assms(2) s2(3) os2 ne len unfolding mounted_def layout_ok_def by auto
      ultimately show ?thesis using 2 bb'(1) s2(2,5) by (intro some[of k s2 bb' ?i]) simp_all
    qed
  qed
qed

section \<open>Reading and writing\<close>

text \<open>The inode \<open>x\<close> at \<open>c\<close> with its info \<open>w\<close>, in the file system of \<open>sbi\<close>.\<close>

definition vrfs_node :: "'d fs \<Rightarrow> ptr \<Rightarrow> ptr \<Rightarrow> inode \<Rightarrow> vrfs_inode_info \<Rightarrow> bool" where
  "vrfs_node s c sbi x w \<longleftrightarrow> c \<noteq> NULL \<and> objs s c = Some (Inode x) \<and> i_private x \<noteq> NULL \<and>
     objs s (i_private x) = Some (Vrfs_info w) \<and> inode_ok (ii_disk w) \<and> i_sb x \<noteq> NULL \<and>
     (\<exists>v. objs s (i_sb x) = Some (Superblock v) \<and> sb_private v = sbi)"

lemma vrfs_node_sbi: "vrfs_node s c sbi x w \<Longrightarrow> sbi_of x s = Some sbi"
  by (auto simp: vrfs_node_def sbi_of_def at_obj)

lemma first_block_cases:
  assumes "fs_wf s" "mounted C dev n sbi i ib bb s" "objs s p = Some (Vrfs_info w)" "inode_ok (ii_disk w)"
    and "\<forall>j<19. bytes_tst bb j"
  obtains (none) "first_block sbi p s = Some (False, s)" "vi_direct (ii_disk w) ! 0 = 0"
      "vs_free_blocks (si_sb i) = 0 \<or> (\<forall>j<unat (vs_block_count (si_sb i)). bytes_tst bb j)"
  | (old) "first_block sbi p s = Some (True, s)" "vi_direct (ii_disk w) ! 0 \<noteq> 0"
  | (new) k s' i' bb' where "first_block sbi p s = Some (True, s')" "vi_direct (ii_disk w) ! 0 = 0"
      "19 \<le> k" "k < n" "k < 1024" "\<not> bytes_tst bb k" "fs_wf s'" "byte_set k bb = Some bb'" "mounted C dev n sbi i' ib bb' s'"
      "si_bdev i' = si_bdev i" "si_inode_bitmap i' = si_inode_bitmap i" "si_block_bitmap i' = si_block_bitmap i"
      "objs s' = (objs s)(sbi \<mapsto> Vrfs_sb i', si_block_bitmap i \<mapsto> Buf bb',
         p \<mapsto> Vrfs_info (w\<lparr>ii_disk := (ii_disk w)\<lparr>vi_direct := (vi_direct (ii_disk w))[0 := of_nat k], vi_blocks := 1\<rparr>\<rparr>))"
      "disk C s' = (disk C s)(2 := bb')"
proof -
  have l0: "0 < length (vi_direct (ii_disk w))" using assms(4) by (simp add: inode_ok_def)
  show ?thesis
  proof (cases "vi_direct (ii_disk w) ! 0 = 0")
    case False
    then show ?thesis using assms(3) l0 by (intro old) (simp_all add: first_block_def at_obj)
  next
    case z: True
    show ?thesis
    proof (cases rule: alloc_block_cases[OF assms(1,2)])
      case 1
      then show ?thesis using assms(3) l0 z by (intro none) (simp_all add: first_block_def at_obj)
    next
      case (2 k s1 i' bb')
      have m: "objs s sbi = Some (Vrfs_sb i)" "objs s (si_block_bitmap i) = Some (Buf bb)" "layout_ok n (si_sb i)"
        "objs s (si_inode_bitmap i) = Some (Buf ib)"
        using assms(2) by (simp_all add: mounted_def)
      have ne: "p \<noteq> sbi" "p \<noteq> si_block_bitmap i" "p \<noteq> si_inode_bitmap i" using m assms(3) by auto
      have i': "si_inode_bitmap i' = si_inode_bitmap i" "si_block_bitmap i' = si_block_bitmap i" "si_bdev i' = si_bdev i"
        by (simp_all add: 2(7))
      let ?w = "w\<lparr>ii_disk := (ii_disk w)\<lparr>vi_direct := (vi_direct (ii_disk w))[0 := of_nat k], vi_blocks := 1\<rparr>\<rparr>"
      let ?s = "put p (Vrfs_info ?w) s1"
      have op: "objs s1 p = Some (Vrfs_info w)" using 2(8) ne assms(3) by simp
      have k: "19 \<le> k" "k < n" "k < 1024" using 2(2,3) assms(5) m(3) by (auto simp: layout_ok_def not_less[symmetric])
      have "first_block sbi p s = Some (True, ?s)"
        using assms(3) l0 z 2(1) op by (simp add: first_block_def put_disk_def at_obj)
      moreover have "fs_wf ?s" by (rule fs_wf_put[OF 2(5)]) (simp add: op)
      moreover have "mounted C dev n sbi i' ib bb' ?s"
        by (rule mounted_cong[OF 2(9)]) (use 2(9) ne in \<open>auto simp: mounted_def i'\<close>)
      ultimately show ?thesis using z k 2(3,6,8,10) i' by (intro new[of ?s k bb' i']) simp_all
    qed
  qed
qed

lemma vrfs_read_run:
  assumes "fs_wf s" "mounted C dev n sbi i ib bb s" "f \<noteq> NULL" "objs s f = Some (File fl)"
    and "vrfs_node s (f_inode fl) sbi x w" "vi_direct (ii_disk w) ! 0 = b" "b \<noteq> 0" "unat b < n" "unat (i_size x) \<le> 512"
  shows "\<exists>r. vrfs_read f sz 0 s = Some r \<and> (fst r = - 1 \<and> fst (snd r) = [] \<or>
     fst r = int (min (unat sz) (unat (i_size x))) \<and> fst (snd r) = take (min (unat sz) (unat (i_size x))) (disk C s (unat b)))"
proof (cases "i_size x = 0")
  case True
  then have "vrfs_read f sz 0 s = Some (0, [], s)"
    using assms vrfs_node_sbi[OF assms(5)] by (auto simp: vrfs_read_def at_obj vrfs_node_def mounted_def)
  then show ?thesis using True by auto
next
  case nz: False
  have m: "sbi \<noteq> NULL" "objs s sbi = Some (Vrfs_sb i)" "si_bdev i = Some dev" "on_disk C dev n s"
    using assms(2) by (simp_all add: mounted_def)
  have x: "f_inode fl \<noteq> NULL" "objs s (f_inode fl) = Some (Inode x)" "i_private x \<noteq> NULL" "objs s (i_private x) = Some (Vrfs_info w)"
    "sbi_of x s = Some sbi" "0 < length (vi_direct (ii_disk w))"
    using assms(5) vrfs_node_sbi[OF assms(5)] by (auto simp: vrfs_node_def inode_ok_def)
  define k where "k = (let z = if sz > i_size x then i_size x else sz in if z < i_size x then z else i_size x)"
  have uk: "unat k = min (unat sz) (unat (i_size x))"
    by (auto simp: k_def Let_def min_def word_less_nat_alt)
  have sk: "sint k = int (unat k)" using uk assms(9) by (intro sint_small) simp
  have pre: "vrfs_read f sz 0 s = do {
      (buffer, s) \<leftarrow> new_buf VRFS_BLOCK_SIZE s;
      if buffer = NULL then Some (- 1, [], s)
      else do {
        si \<leftarrow> vsb_at s sbi;
        (r, s) \<leftarrow> read_into (si_bdev si) b buffer s;
        if r < 0 then do { s \<leftarrow> free_obj buffer s; Some (- 1, [], s) }
        else do {
          bs \<leftarrow> buf_at s buffer;
          require (unat k \<le> length bs);
          s \<leftarrow> free_obj buffer s;
          Some (sint k, take (unat k) bs, s)
        }
      }}"
    using assms(3,4,6,7) x m(1) nz by (simp add: vrfs_read_def at_obj Let_def k_def cong: if_cong)
  show ?thesis
  proof (cases rule: block_buf_cases[OF assms(1)])
    case 1
    then show ?thesis unfolding pre by simp
  next
    case (2 p s1 buf)
    have d1: "on_disk C dev n s1" "disk C s1 = disk C s" using same_env_disk[OF 2(7)] m(4) by auto
    have o1: "objs s1 p = Some (Buf buf)" using 2(5) by simp
    obtain s2 where s2: "read_into (Some dev) b p s1 = Some (0, s2)" "fs_wf s2"
      "objs s2 = (objs s1)(p \<mapsto> Buf (disk C s1 (unat b)))"
      by (rule read_into_run[OF 2(3) d1(1) o1 2(6) assms(8)]) blast
    have "objs s2 p \<noteq> None" using s2(3) by simp
    then obtain s5 where s5: "free_obj p s2 = Some s5" using free_obj_cases[OF s2(2)] by metis
    have "objs s1 sbi = Some (Vrfs_sb i)" using 2(4,5) m(2) by auto
    moreover have "unat k \<le> length (disk C s (unat b))" using disk_length[OF m(4) assms(8)] uk assms(9) by simp
    ultimately have "vrfs_read f sz 0 s = Some (sint k, take (unat k) (disk C s (unat b)), s5)"
      unfolding pre using 2(1,2) s2(1,3) d1(2) s5 m(3) by (simp add: at_obj)
    then show ?thesis using uk sk by simp
  qed
qed

lemma vrfs_node_types:
  assumes "vrfs_node s c sbi x w" "mounted C dev n sbi i ib bb s"
  shows "c \<noteq> i_private x" "c \<noteq> sbi" "i_private x \<noteq> sbi" "c \<noteq> si_block_bitmap i" "i_private x \<noteq> si_block_bitmap i"
    "c \<noteq> si_inode_bitmap i" "i_private x \<noteq> si_inode_bitmap i" "i_sb x \<noteq> c" "i_sb x \<noteq> i_private x" "i_sb x \<noteq> sbi"
    "i_sb x \<noteq> si_block_bitmap i"
  using assms by (auto simp: vrfs_node_def mounted_def)

lemma write_data_cases:
  assumes "fs_wf s" "mounted C dev n sbi i ib bb s" "vrfs_node s c sbi x w"
    and b: "vi_direct (ii_disk w) ! 0 = b" "unat b < n" and no: "unat (ii_no w) < 128"
    and sz: "unat sz \<le> 512" "unat sz \<le> length data"
  obtains (none) "write_data c x sbi data sz s = Some (- 1, s)"
  | (some) s' bs where "write_data c x sbi data sz s = Some (int (unat sz), s')" "fs_wf s'" "mounted C dev n sbi i ib bb s'"
      "vrfs_node s' c sbi (x\<lparr>i_size := sz\<rparr>) (w\<lparr>ii_disk := (ii_disk w)\<lparr>vi_size := sz\<rparr>\<rparr>)"
      "objs s' = (objs s)(i_private x \<mapsto> Vrfs_info (w\<lparr>ii_disk := (ii_disk w)\<lparr>vi_size := sz\<rparr>\<rparr>), c \<mapsto> Inode (x\<lparr>i_size := sz\<rparr>))"
      "bs = take (unat sz) data @ replicate (512 - unat sz) 0"
      "disk C s' = (disk C s)(unat b := bs) \<or>
       disk C s' = ((disk C s)(unat b := bs))(3 + unat (ii_no w) div 6 :=
         splice (inode_offset (ii_no w)) (vrfs_inode_bytes ((ii_disk w)\<lparr>vi_size := sz\<rparr>)) (((disk C s)(unat b := bs)) (3 + unat (ii_no w) div 6)))"
proof -
  have m: "sbi \<noteq> NULL" "objs s sbi = Some (Vrfs_sb i)" "si_bdev i = Some dev" "on_disk C dev n s" "layout_ok n (si_sb i)"
    using assms(2) by (simp_all add: mounted_def)
  have x: "c \<noteq> NULL" "objs s c = Some (Inode x)" "i_private x \<noteq> NULL" "objs s (i_private x) = Some (Vrfs_info w)"
    "inode_ok (ii_disk w)" "0 < length (vi_direct (ii_disk w))" using assms(3) by (auto simp: vrfs_node_def inode_ok_def)
  note ne = vrfs_node_types[OF assms(3,2)]
  let ?bs = "take (unat sz) data @ replicate (512 - unat sz) 0"
  have bs: "splice 0 (take (unat sz) data) (replicate 512 0) = ?bs" "length ?bs = 512"
    using sz by (simp_all add: splice_def drop_replicate)
  let ?w = "w\<lparr>ii_disk := (ii_disk w)\<lparr>vi_size := sz\<rparr>\<rparr>" let ?x = "x\<lparr>i_size := sz\<rparr>"
  show ?thesis
  proof (cases rule: block_buf_cases[OF assms(1)])
    case 1
    then show ?thesis by (intro none) (simp add: write_data_def)
  next
    case (2 p s1 buf)
    have d1: "on_disk C dev n s1" "disk C s1 = disk C s" using same_env_disk[OF 2(7)] m(4) by auto
    have p: "sbi \<noteq> p" "i_private x \<noteq> p" using 2(4) m(2) x(2,4) by auto
    let ?s2 = "put p (Buf ?bs) s1"
    have w2: "fs_wf ?s2" by (rule fs_wf_put[OF 2(3)]) (simp add: 2(5))
    have o2: "objs ?s2 p = Some (Buf ?bs)" by simp
    obtain s3 where s3: "write_from (Some dev) b p ?s2 = Some (0, s3)" "fs_wf s3" "on_disk C dev n s3" "objs s3 = objs ?s2"
      "disk C s3 = (disk C ?s2)(unat b := ?bs)"
      by (rule write_from_run[OF w2 _ o2 bs(2) b(2), of C dev]) (use d1(1) in auto)
    have "objs s3 p \<noteq> None" using s3(4) by simp
    then obtain s4 where s4: "free_obj p s3 = Some s4" "fs_wf s4" "objs s4 = (objs s3)(p := None)" "same_env s3 s4"
      using free_obj_cases[OF s3(2)] by metis
    have o4: "objs s4 = objs s" using s4(3) s3(4) 2(4,5) by (auto simp: fun_eq_iff)
    have d4: "on_disk C dev n s4" "disk C s4 = (disk C s)(unat b := ?bs)"
      using same_env_disk[OF s4(4)] s3(3,5) d1(2) by auto
    let ?s5 = "put (i_private x) (Vrfs_info ?w) s4" let ?s6 = "put c (Inode ?x) ?s5"
    have w6: "fs_wf ?s6" by (intro fs_wf_put s4(2)) (use o4 x in auto)
    have m6: "mounted C dev n sbi i ib bb ?s6"
      by (rule mounted_cong[OF assms(2)]) (use d4(1) o4 ne in auto)
    have ok: "inode_ok (ii_disk ?w)" using x(5) by (simp add: inode_ok_def)
    have no': "unat (ii_no ?w) < 128" using no by simp
    have ss: "sint sz = int (unat sz)" using sz(1) by (intro sint_small) simp
    have run: "write_data c x sbi data sz s = do { (r, s) \<leftarrow> vrfs_write_inode sbi (ii_no ?w) (ii_disk ?w) ?s6; Some (sint sz, s) }"
    proof -
      have at: "vsb_at ?s2 sbi = Some i" "info_at ?s2 (i_private x) = Some w" "info_at s4 (i_private x) = Some w"
        "info_at ?s6 (i_private x) = Some ?w" using p m(2) x(4) o4 ne(1) 2(5) by (simp_all add: at_obj)
      show ?thesis unfolding write_data_def
        using 2(1,2) m(3) x(6) b(1) sz(2) bs(1) s3(1) s4(1) at by (simp add: put_disk_def Let_def del: at_simps)
    qed
    have fin: ?thesis if "write_data c x sbi data sz s = Some (sint sz, s')" "fs_wf s'" "objs s' = objs ?s6" "on_disk C dev n s'"
      "disk C s' = (disk C s)(unat b := ?bs) \<or>
       disk C s' = ((disk C s)(unat b := ?bs))(3 + unat (ii_no w) div 6 :=
         splice (inode_offset (ii_no w)) (vrfs_inode_bytes (ii_disk ?w)) (((disk C s)(unat b := ?bs)) (3 + unat (ii_no w) div 6)))" for s'
    proof (rule some[of s' ?bs])
      show "mounted C dev n sbi i ib bb s'" by (rule mounted_cong[OF m6 that(4)]) (simp add: that(3))
      show "objs s' = (objs s)(i_private x \<mapsto> Vrfs_info ?w, c \<mapsto> Inode ?x)" using that(3) o4 by simp
      then show "vrfs_node s' c sbi ?x ?w" using assms(3) ne ok by (auto simp: vrfs_node_def)
    qed (use that ss in auto)
    show ?thesis
    proof (cases rule: write_inode_cases[OF w6 m6 no' ok])
      case 1
      show ?thesis by (rule fin[of ?s6]) (use run 1 w6 d4 in simp_all)
    next
      case (2 s7)
      show ?thesis by (rule fin[of s7]) (use run 2 d4 in simp_all)
    qed
  qed
qed

lemma write_data_read:
  assumes "fs_wf s" "mounted C dev n sbi i ib bb s" "f \<noteq> NULL" "objs s f = Some (File fl)" "vrfs_node s (f_inode fl) sbi x w"
    and b: "vi_direct (ii_disk w) ! 0 = b" "19 \<le> unat b" "unat b < n" and no: "unat (ii_no w) < 96"
    and sz: "unat sz \<le> 512" "unat sz \<le> length data"
  shows "\<exists>r s'. write_data (f_inode fl) x sbi data sz s = Some (r, s') \<and> fs_wf s' \<and>
    (r = - 1 \<and> s' = s \<or>
     r = int (unat sz) \<and> (\<forall>k. k \<noteq> unat b \<longrightarrow> k \<noteq> 3 + unat (ii_no w) div 6 \<longrightarrow> disk C s' k = disk C s k) \<and>
     (\<forall>m. \<exists>q. vrfs_read f m 0 s' = Some q \<and> (fst q = - 1 \<and> fst (snd q) = [] \<or>
        fst q = int (min (unat m) (unat sz)) \<and> fst (snd q) = take (min (unat m) (unat sz)) data)))"
proof (cases rule: write_data_cases[OF assms(1,2,5) b(1,3) _ sz])
  case 1
  then show ?case using no by simp
next
  case 2
  then show ?thesis using assms(1) by auto
next
  case (3 s' bs)
  let ?x = "x\<lparr>i_size := sz\<rparr>" let ?w = "w\<lparr>ii_disk := (ii_disk w)\<lparr>vi_size := sz\<rparr>\<rparr>"
  have tb: "3 + unat (ii_no w) div 6 \<noteq> unat b" using no b(2) by linarith
  have db: "disk C s' (unat b) = bs" using 3(7) tb by auto
  have fr: "disk C s' k = disk C s k" if "k \<noteq> unat b" "k \<noteq> 3 + unat (ii_no w) div 6" for k using 3(7) that by auto
  have "f \<noteq> f_inode fl" "f \<noteq> i_private x" using assms(4,5) by (auto simp: vrfs_node_def)
  then have f: "objs s' f = Some (File fl)" using 3(5) assms(4) by simp
  have d0: "vi_direct (ii_disk ?w) ! 0 = b" using b(1) by simp
  have "b \<noteq> 0" using b(2) by auto
  have "\<exists>q. vrfs_read f m 0 s' = Some q \<and> (fst q = - 1 \<and> fst (snd q) = [] \<or>
      fst q = int (min (unat m) (unat sz)) \<and> fst (snd q) = take (min (unat m) (unat sz)) data)" for m
  proof -
    have x: "i_size ?x = sz" by simp
    have "take (min (unat m) (unat sz)) bs = take (min (unat m) (unat sz)) data" using sz unfolding 3(6) by (simp add: min_def)
    with vrfs_read_run[OF 3(2,3) assms(3) f 3(4) d0 \<open>b \<noteq> 0\<close> b(3), of m, unfolded x db, OF sz(1)] show ?thesis by metis
  qed
  then show ?thesis using 3(1,2) fr by blast
qed


section \<open>A directory block is a map\<close>

lemma max_entries [simp]: "max_entries = 16" "sizeof_vrfs_dirent = 32" "VRFS_MAX_NAME = 28"
  by (simp_all add: max_entries_def sizeof_vrfs_dirent_def VRFS_MAX_NAME_def)

definition dir_map :: "bytes \<Rightarrow> cstring \<Rightarrow> u32 option" where
  "dir_map bs name = map_option (entry_no bs) (find_dirent bs name)"

text \<open>The bytes of entry \<open>j\<close>.\<close>

lemma entry_slice:
  "entry_no bs j = of_le32 (take 32 (drop (32 * j) bs))"
  "entry_name bs j = take 28 (drop 4 (take 32 (drop (32 * j) bs)))"
proof -
  have "of_le32 (take 32 ys) = of_le32 ys" for ys
    by (cases ys rule: of_le32.cases) (auto simp: numeral_eq_Suc)
  then show "entry_no bs j = of_le32 (take 32 (drop (32 * j) bs))" by (simp add: entry_no_def word_at_def)
  show "entry_name bs j = take 28 (drop 4 (take 32 (drop (32 * j) bs)))"
    by (simp add: entry_name_def drop_take add.commute)
qed

lemma slice_other:
  assumes "length new \<le> 32" "32 * i + length new \<le> length bs" "j \<noteq> i"
  shows "take 32 (drop (32 * j) (splice (32 * i) new bs)) = take 32 (drop (32 * j) bs)"
proof (cases "j < i")
  case True
  then obtain d where d: "i = j + Suc d" using less_iff_Suc_add by auto
  have i: "32 * i = 32 * j + (32 + 32 * d)" by (simp add: d)
  have l: "32 \<le> length (take (32 + 32 * d) (drop (32 * j) bs))" using assms(2) unfolding i by simp
  have "drop (32 * j) (splice (32 * i) new bs) = take (32 + 32 * d) (drop (32 * j) bs) @ new @ drop (32 * i + length new) bs"
    using assms(2) unfolding splice_def i by (simp add: drop_take min_def)
  then show ?thesis using l by simp
next
  case False
  then have ij: "32 * i + 32 \<le> 32 * j" using assms(3) by simp
  then have "drop (32 * j) (splice (32 * i) new bs) = drop (32 * j) bs"
    using assms by (simp add: splice_def)
  then show ?thesis by simp
qed

lemma slice_same:
  assumes "length new = 32" "32 * i + 32 \<le> length bs"
  shows "take 32 (drop (32 * i) (splice (32 * i) new bs)) = new"
  using assms by (simp add: splice_def)

lemma entry_other:
  assumes "length new \<le> 32" "32 * i + length new \<le> length bs" "j \<noteq> i"
  shows "entry_no (splice (32 * i) new bs) j = entry_no bs j" "entry_name (splice (32 * i) new bs) j = entry_name bs j"
  by (simp_all add: entry_slice slice_other[OF assms])

lemma entry_new:
  assumes "length name < 28" "32 * i + 32 \<le> length bs"
  shows "entry_no (splice (32 * i) (le32 no @ take 27 name @ [0]) bs) i = no"
    and "\<exists>rest. entry_name (splice (32 * i) (le32 no @ take 27 name @ [0]) bs) i = name @ 0 # rest"
proof -
  let ?d = "drop (32 * i) (splice (32 * i) (le32 no @ take 27 name @ [0]) bs)"
  let ?r = "drop (32 * i + length (le32 no @ take 27 name @ [0])) bs"
  have d: "?d = le32 no @ name @ 0 # ?r" using assms by (simp add: splice_def add.commute)
  show "entry_no (splice (32 * i) (le32 no @ take 27 name @ [0]) bs) i = no"
    unfolding entry_no_def word_at_def max_entries d by simp
  have "drop (32 * i + 4) (splice (32 * i) (le32 no @ take 27 name @ [0]) bs) = name @ 0 # ?r"
  proof -
    have "drop (32 * i + 4) ys = drop 4 (drop (32 * i) ys)" for ys :: bytes by (simp add: add.commute)
    then show ?thesis by (simp only: d drop_le)
  qed
  then have "entry_name (splice (32 * i) (le32 no @ take 27 name @ [0]) bs) i = take 28 (name @ 0 # ?r)"
    unfolding entry_name_def max_entries by (simp only:)
  also have "28 - length name = Suc (27 - length name)" using assms(1) by simp
  then have "take 28 (name @ 0 # ?r) = name @ 0 # take (27 - length name) ?r" using assms(1) by simp
  finally show "\<exists>rest. entry_name (splice (32 * i) (le32 no @ take 27 name @ [0]) bs) i = name @ 0 # rest" by blast
qed

lemma dirent_match_iff: "c_string m \<Longrightarrow> c_string name \<Longrightarrow> dirent_match (name @ 0 # rest) m \<longleftrightarrow> m = name"
proof (induction name arbitrary: m)
  case Nil
  then show ?case by (cases m) (auto simp: c_string_def)
next
  case (Cons a name)
  then show ?case by (cases m) (auto simp: c_string_def)
qed

text \<open>A new entry in an unused place makes its name known, and no other.\<close>

lemma dir_map_add:
  assumes "length bs = 512" "find_first 0 16 (\<lambda>i. entry_no bs i = 0) = Some i" "no \<noteq> 0"
    and "c_string name" "length name < 28" "dir_map bs name = None" "c_string m"
  shows "dir_map (splice (32 * i) (le32 no @ take 27 name @ [0]) bs) m = (if m = name then Some no else dir_map bs m)"
proof -
  let ?new = "le32 no @ take 27 name @ [0]" let ?bs = "splice (32 * i) ?new bs"
  have i: "i < 16" "entry_no bs i = 0" using find_first_SomeD[OF assms(2)] by auto
  have l: "length ?new \<le> 32" "32 * i + length ?new \<le> length bs" "32 * i + 32 \<le> length bs" using assms(1) i(1) by auto
  note other = entry_other[OF l(1,2)]
  obtain rest where new: "entry_no ?bs i = no" "entry_name ?bs i = name @ 0 # rest"
    using entry_new[OF assms(5) l(3), of no] by blast
  let ?P = "\<lambda>bs m j. entry_no bs j \<noteq> 0 \<and> dirent_match (entry_name bs j) m"
  have at_i: "?P ?bs m i \<longleftrightarrow> m = name" using new assms(3) dirent_match_iff[OF assms(7,4)] by simp
  have oth: "?P ?bs m j \<longleftrightarrow> ?P bs m j" "entry_no ?bs j = entry_no bs j" if "j \<noteq> i" for j using other[OF that] by simp_all
  show ?thesis
  proof (cases "m = name")
    case True
    have "\<not> ?P bs m j" if "j < 16" for j
      using assms(6) that True by (auto simp: dir_map_def find_dirent_def find_first_None)
    then have "find_dirent ?bs m = Some i" unfolding find_dirent_def max_entries
      by (intro find_first_least) (use at_i True i oth in auto)
    then show ?thesis using True new(1) by (simp add: dir_map_def)
  next
    case False
    have eq: "?P ?bs m j \<longleftrightarrow> ?P bs m j" for j using at_i False i(2) oth by (cases "j = i") auto
    have "find_dirent ?bs m = find_dirent bs m" unfolding find_dirent_def by (rule find_first_cong) (use eq in simp)
    moreover have "entry_no ?bs j = entry_no bs j" if "find_dirent bs m = Some j" for j
    proof -
      have "entry_no bs j \<noteq> 0" using find_first_SomeD[OF that[unfolded find_dirent_def]] by simp
      then show ?thesis using oth i(2) by (cases "j = i") auto
    qed
    ultimately show ?thesis using False by (auto simp: dir_map_def intro!: option.map_cong0)
  qed
qed

section \<open>Lookup\<close>

lemma put_cong_kind: "i_type (vfs_inode_from no k sz sb q i) = k" "i_private (vfs_inode_from no k sz sb q i) = q"
  "i_sb (vfs_inode_from no k sz sb q i) = sb" "i_size (vfs_inode_from no k sz sb q i) = sz"
  "i_ino (vfs_inode_from no k sz sb q i) = no" "i_iop (vfs_inode_from no k sz sb q i) = Vrfs_ops"
  by (simp_all add: vfs_inode_from_def)

lemma load_inode_cases:
  assumes "fs_wf s"
  obtains (none) s' where "load_inode sb no d s = Some (NULL, s')" "fs_wf s'" "objs s' = objs s" "same_env s s'"
  | (some) p q y s' where "load_inode sb no d s = Some (p, s')" "fs_wf s'" "p \<noteq> NULL" "q \<noteq> NULL" "p \<noteq> q" "objs s p = None"
      "objs s q = None" "same_env s s'" "objs s' = (objs s)(p \<mapsto> Inode (vfs_inode_from no
        (if vi_mode d = VRFS_INODE_DIR then VFS_DIRECTORY else VFS_FILE) (vi_size d) sb q y),
         q \<mapsto> Vrfs_info \<lparr>ii_disk = d, ii_no = no\<rparr>)"
proof (cases rule: new_obj_cases[OF assms, of sizeof_inode "\<lambda>w. Inode (raw_inode w)"])
  case 1
  then have "load_inode sb no d s = Some (NULL, s)" by (simp add: load_inode_def new_inode_def)
  then show ?thesis using assms by (intro none) auto
next
  case (2 p s1)
  let ?y = "raw_inode (junk s (fresh s))"
  let ?mk = "\<lambda>w. Vrfs_info \<lparr>ii_disk = vrfs_inode_of (concat (map (\<lambda>k. le32 (w k)) [0..<19])), ii_no = w 19\<rparr>"
  have op: "objs s1 p = Some (Inode ?y)" using 2(5) by simp
  show ?thesis
  proof (cases rule: new_obj_cases[OF 2(3), of sizeof_vrfs_inode_info ?mk])
    case 1
    have "objs s1 p \<noteq> None" using op by simp
    from free_obj_cases[OF 2(3) this] obtain s2 where s2: "free_obj p s1 = Some s2" "fs_wf s2" "objs s2 = (objs s1)(p := None)" "same_env s1 s2"
      by metis
    have "load_inode sb no d s = Some (NULL, s2)" using 2(1,2) 1 s2(1) by (simp add: load_inode_def new_inode_def new_info_def)
    moreover have "objs s2 = objs s" using s2(3) 2(4,5) by (auto simp: fun_eq_iff)
    ultimately show ?thesis using s2(2,4) 2(9) by (intro none[of s2] same_env_trans[OF 2(9)])
  next
    case q: (2 q s2)
    let ?i = "vfs_inode_from no (if vi_mode d = VRFS_INODE_DIR then VFS_DIRECTORY else VFS_FILE) (vi_size d) sb q ?y"
    let ?s = "put p (Inode ?i) (put q (Vrfs_info \<lparr>ii_disk = d, ii_no = no\<rparr>) s2)"
    have pq: "p \<noteq> q" "q \<noteq> p" "objs s q = None" using op q(4) 2(5) by (auto split: if_splits)
    have o2: "objs s2 p = Some (Inode ?y)" using q(5) op pq by simp
    have "load_inode sb no d s = Some (p, ?s)"
      using 2(1,2) q(1,2) o2 by (simp add: load_inode_def new_inode_def new_info_def at_obj Let_def)
    moreover have "fs_wf ?s" by (intro fs_wf_put q(3)) (use q(5) o2 in auto)
    moreover have "objs ?s = (objs s)(p \<mapsto> Inode ?i, q \<mapsto> Vrfs_info \<lparr>ii_disk = d, ii_no = no\<rparr>)"
      using q(5) 2(5) pq by (auto simp: fun_eq_iff)
    ultimately show ?thesis using 2(2,4,9) q(2,9) pq by (intro some[of p ?s q ?y]) (auto intro: same_env_trans)
  qed
qed

text \<open>The disk inode number \<open>no\<close>.\<close>

definition disk_inode :: "(nat \<Rightarrow> bytes) \<Rightarrow> u32 \<Rightarrow> vrfs_inode" where
  "disk_inode blocks no = vrfs_inode_of (drop (inode_offset no) (blocks (3 + unat no div 6)))"

lemma disk_inode_ok:
  assumes "on_disk C dev n s" "layout_ok n sb" "unat no < 128"
  shows "inode_ok (disk_inode (disk C s) no)"
proof -
  have "3 + unat no div 6 < n" "inode_offset no + 76 \<le> 512" using inode_place(1,2)[OF assms(2), of no] assms(3) by auto
  then have "76 \<le> length (drop (inode_offset no) (disk C s (3 + unat no div 6)))" using disk_length[OF assms(1)] by simp
  then show ?thesis by (simp add: disk_inode_def inode_ok_def vrfs_inode_of_def)
qed

lemma lookup_cases:
  assumes "fs_wf s" "mounted C dev n sbi i ib bb s" "vrfs_node s c sbi x w" "vi_direct (ii_disk w) ! 0 = b" "b \<noteq> 0" "unat b < n"
    and small: "\<forall>no. dir_map (disk C s (unat b)) name = Some no \<longrightarrow> unat no < 128"
  obtains (none) s' where "vrfs_lookup c name s = Some (NULL, s')" "fs_wf s'" "objs s' = objs s" "on_disk C dev n s'" "disk C s' = disk C s"
  | (some) no p y s' where "dir_map (disk C s (unat b)) name = Some no" "vrfs_lookup c name s = Some (p, s')"
      "fs_wf s'" "on_disk C dev n s'" "disk C s' = disk C s" "p \<noteq> NULL" "\<forall>a. objs s a \<noteq> None \<longrightarrow> objs s' a = objs s a"
      "vrfs_node s' p sbi y \<lparr>ii_disk = disk_inode (disk C s) no, ii_no = no\<rparr>"
      "i_size y = vi_size (disk_inode (disk C s) no)"
      "i_type y = (if vi_mode (disk_inode (disk C s) no) = VRFS_INODE_DIR then VFS_DIRECTORY else VFS_FILE)"
proof -
  have m: "sbi \<noteq> NULL" "objs s sbi = Some (Vrfs_sb i)" "si_bdev i = Some dev" "on_disk C dev n s" "layout_ok n (si_sb i)"
    using assms(2) by (simp_all add: mounted_def)
  have x: "c \<noteq> NULL" "objs s c = Some (Inode x)" "i_private x \<noteq> NULL" "objs s (i_private x) = Some (Vrfs_info w)"
    "sbi_of x s = Some sbi" "0 < length (vi_direct (ii_disk w))"
    using assms(3) vrfs_node_sbi[OF assms(3)] by (auto simp: vrfs_node_def inode_ok_def)
  show ?thesis
  proof (cases rule: block_buf_cases[OF assms(1)])
    case 1
    then have "vrfs_lookup c name s = Some (NULL, s)" using x m(1) assms(4,5) by (simp add: vrfs_lookup_def at_obj)
    then show ?thesis using assms(1) m(4) by (intro none) auto
  next
    case (2 p s1 buf)
    have d1: "on_disk C dev n s1" "disk C s1 = disk C s" using same_env_disk[OF 2(7)] m(4) by auto
    have o1: "objs s1 p = Some (Buf buf)" using 2(5) by simp
    let ?blk = "disk C s (unat b)"
    obtain s2 where s2: "read_into (Some dev) b p s1 = Some (0, s2)" "fs_wf s2" "on_disk C dev n s2"
      "objs s2 = (objs s1)(p \<mapsto> Buf (disk C s1 (unat b)))" "disk C s2 = disk C s1"
      by (rule read_into_run[OF 2(3) d1(1) o1 2(6) assms(6)]) blast
    have len: "length ?blk = 512" by (rule disk_length[OF m(4) assms(6)])
    have "objs s2 p \<noteq> None" using s2(4) by simp
    from free_obj_cases[OF s2(2) this] obtain s3 where s3: "free_obj p s2 = Some s3" "fs_wf s3" "objs s3 = (objs s2)(p := None)" "same_env s2 s3"
      by metis
    have o3: "objs s3 = objs s" using s3(3) s2(4) 2(4,5) by (auto simp: fun_eq_iff)
    have d3: "on_disk C dev n s3" "disk C s3 = disk C s" using same_env_disk[OF s3(4)] s2(3,5) d1(2) by auto
    have m3: "mounted C dev n sbi i ib bb s3" by (rule mounted_cong[OF assms(2) d3(1)]) (simp add: o3)
    have "sbi \<noteq> p" using 2(4) m(2) by auto
    then have v1: "vsb_at s1 sbi = Some i" using 2(5) m(2) by (simp add: at_obj)
    have pre: "vrfs_lookup c name s = (case find_dirent ?blk name of
        None \<Rightarrow> Some (NULL, s3)
      | Some k \<Rightarrow> do { (r, disk, s) \<leftarrow> vrfs_read_inode sbi (entry_no ?blk k) s3;
          if r < 0 then Some (NULL, s) else do { disk \<leftarrow> disk; load_inode (i_sb x) (entry_no ?blk k) disk s } })"
      using x m(1,3) assms(4,5) 2(1,2) v1 s2(1,4) d1(2) s3(1) len
      by (simp add: vrfs_lookup_def at_obj del: at_simps)
    show ?thesis
    proof (cases "find_dirent ?blk name")
      case None
      then show ?thesis using pre s3(2) o3 d3 by (intro none[of s3]) auto
    next
      case (Some k)
      let ?no = "entry_no ?blk k"
      have dm: "dir_map ?blk name = Some ?no" using Some by (simp add: dir_map_def)
      with small have no: "unat ?no < 128" by simp
      show ?thesis
      proof (cases rule: read_inode_cases[OF s3(2) m3 no])
        case 1
        then show ?thesis using pre Some s3(2) o3 d3 by (intro none[of s3]) auto
      next
        case (2 s4)
        let ?d = "disk_inode (disk C s) ?no"
        have pre4: "vrfs_lookup c name s = load_inode (i_sb x) ?no ?d s4"
          using pre Some 2(1) d3(2) by (simp add: disk_inode_def)
        show ?thesis
        proof (cases rule: load_inode_cases[OF 2(2), of "i_sb x" ?no ?d])
          case (1 s5)
          then show ?thesis using pre4 2(3-5) o3 d3(2) same_env_disk[OF 1(4)] by (intro none[of s5]) auto
        next
          case (2 p q y s5)
          let ?y = "vfs_inode_from ?no (if vi_mode ?d = VRFS_INODE_DIR then VFS_DIRECTORY else VFS_FILE) (vi_size ?d) (i_sb x) q y"
          have s4: "objs s4 = objs s" "on_disk C dev n s4" "disk C s4 = disk C s" using \<open>objs s4 = objs s3\<close> \<open>on_disk C dev n s4\<close> \<open>disk C s4 = disk C s3\<close> o3 d3(2) by auto
          obtain v where v: "objs s (i_sb x) = Some (Superblock v)" "sb_private v = sbi" "i_sb x \<noteq> NULL" using assms(3) by (auto simp: vrfs_node_def)
          have "i_sb x \<noteq> p" "i_sb x \<noteq> q" using 2(6,7) v(1) s4(1) by auto
          then have node: "vrfs_node s5 p sbi ?y \<lparr>ii_disk = ?d, ii_no = ?no\<rparr>"
            using 2(3-5,9) v s4(1) disk_inode_ok[OF m(4,5) no] by (auto simp: vrfs_node_def put_cong_kind)
          have "\<forall>a. objs s a \<noteq> None \<longrightarrow> objs s5 a = objs s a" using 2(6,7,9) s4(1) by auto
          then show ?thesis using pre4 2(1,2,3) dm node same_env_disk[OF 2(8)] s4
            by (intro some[of ?no p s5 ?y]) (auto simp: put_cong_kind)
        qed
      qed
    qed
  qed
qed

section \<open>Creating a file\<close>

text \<open>An inode number is allocated in the same way.\<close>

lemma vrfs_alloc_inode_cases:
  assumes "fs_wf s" "mounted C dev n sbi i ib bb s"
  obtains (none) "vrfs_alloc_inode sbi s = Some (- 1, s)"
  | (some) k s' i' ib' where "vrfs_alloc_inode sbi s = Some (int k, s')" "k < 128"
      "\<not> bytes_tst ib k" "\<forall>j<k. bytes_tst ib j" "fs_wf s'" "byte_set k ib = Some ib'"
      "si_bdev i' = si_bdev i" "si_inode_bitmap i' = si_inode_bitmap i" "si_block_bitmap i' = si_block_bitmap i"
      "objs s' = (objs s)(sbi \<mapsto> Vrfs_sb i', si_inode_bitmap i \<mapsto> Buf ib')"
      "mounted C dev n sbi i' ib' bb s'" "disk C s' = (disk C s)(1 := ib')"
proof -
  have m: "sbi \<noteq> NULL" "objs s sbi = Some (Vrfs_sb i)" "si_bdev i = Some dev" "on_disk C dev n s" "layout_ok n (si_sb i)"
    "objs s (si_inode_bitmap i) = Some (Buf ib)" "length ib = 512" using assms(2) by (simp_all add: mounted_def)
  have c: "vs_inode_bitmap_block (si_sb i) = 1" "vs_inode_count (si_sb i) = 128" "1 < n" using m(5) by (simp_all add: layout_ok_def)
  have le: "unat (vs_inode_count (si_sb i)) \<le> 8 * length ib" using m(7) c(2) by simp
  show ?thesis
  proof (cases "vs_free_inodes (si_sb i) = 0")
    case True
    then show ?thesis using m by (intro none) (simp_all add: vrfs_alloc_inode_def at_obj)
  next
    case nz: False
    show ?thesis
    proof (cases rule: bitmap_find_free_run[OF le])
      case 1
      then show ?thesis using m nz by (intro none) (simp_all add: vrfs_alloc_inode_def at_obj)
    next
      case (2 k)
      have kb: "k < bytes_nbits ib" using 2(2) le by (simp add: bytes_nbits_def)
      obtain ib' where ib': "byte_set k ib = Some ib'" "bytes_nbits ib' = bytes_nbits ib" using bb.setb_ex[OF kb] by blast
      have len: "length ib' = 512" using ib'(2) m(7) by (simp add: bytes_nbits_def)
      let ?i = "i\<lparr>si_sb := (si_sb i)\<lparr>vs_free_inodes := vs_free_inodes (si_sb i) - 1\<rparr>\<rparr>"
      let ?s1 = "put sbi (Vrfs_sb ?i) (put (si_inode_bitmap i) (Buf ib') s)"
      have ne: "sbi \<noteq> si_inode_bitmap i" using m(2,6) by auto
      have w1: "fs_wf ?s1" using assms(1) m(2,6) by (intro fs_wf_put) auto
      have o: "objs ?s1 (si_inode_bitmap i) = Some (Buf ib')" using ne by simp
      obtain s2 where s2: "write_from (Some dev) 1 (si_inode_bitmap i) ?s1 = Some (0, s2)" "fs_wf s2" "on_disk C dev n s2"
        "objs s2 = objs ?s1" "disk C s2 = (disk C ?s1)(unat (1 :: u32) := ib')"
        by (rule write_from_run[OF w1 _ o len, of C dev n 1]) (use m(4) c(3) in auto)
      have "vrfs_alloc_inode sbi s = Some (int k, s2)"
        using m nz 2(1) ib'(1) s2(1) c(1) by (simp add: vrfs_alloc_inode_def at_obj Let_def)
      moreover have os2: "objs s2 = (objs s)(sbi \<mapsto> Vrfs_sb ?i, si_inode_bitmap i \<mapsto> Buf ib')"
        using s2(4) ne by (auto simp: fun_eq_iff)
      moreover have "mounted C dev n sbi ?i ib' bb s2"
        using assms(2) s2(3) os2 ne len unfolding mounted_def layout_ok_def by auto
      ultimately show ?thesis using 2 ib'(1) s2(2,5) c(2) by (intro some[of k s2 ib' ?i]) simp_all
    qed
  qed
qed

text \<open>A directory that has its block: the entry goes into the first unused place of it.\<close>

lemma add_dirent_cases:
  assumes "fs_wf s" "mounted C dev n sbi i ib bb s" "objs s q = Some (Vrfs_info w)" "inode_ok (ii_disk w)"
    and b: "vi_direct (ii_disk w) ! 0 = b" "b \<noteq> 0" "unat b < n" "unat dno < 128"
  obtains (none) s' where "vrfs_add_dir_entry sbi q dno name no s = Some (- 1, s')" "fs_wf s'" "objs s' = objs s"
      "on_disk C dev n s'" "disk C s' = disk C s"
  | (some) e s' d D where "vrfs_add_dir_entry sbi q dno name no s = Some (0, s')"
      "find_first 0 16 (\<lambda>e. entry_no (disk C s (unat b)) e = 0) = Some e" "fs_wf s'" "on_disk C dev n s'"
      "d = (ii_disk w)\<lparr>vi_size := of_nat ((e + 1) * 32)\<rparr>" "objs s' = (objs s)(q \<mapsto> Vrfs_info (w\<lparr>ii_disk := d\<rparr>))"
      "D = (disk C s)(unat b := splice (32 * e) (le32 no @ take 27 name @ [0]) (disk C s (unat b)))"
      "disk C s' = D \<or> disk C s' = D(3 + unat dno div 6 := splice (inode_offset dno) (vrfs_inode_bytes d) (D (3 + unat dno div 6)))"
proof -
  have m: "sbi \<noteq> NULL" "objs s sbi = Some (Vrfs_sb i)" "si_bdev i = Some dev" "on_disk C dev n s" "layout_ok n (si_sb i)"
    using assms(2) by (simp_all add: mounted_def)
  have l0: "0 < length (vi_direct (ii_disk w))" using assms(4) by (simp add: inode_ok_def)
  have db: "dir_block sbi q dno s = Some (True, s)" using assms(3) b(1,2) l0 by (simp add: dir_block_def at_obj)
  let ?blk = "disk C s (unat b)"
  have len: "length ?blk = 512" by (rule disk_length[OF m(4) b(3)])
  show ?thesis
  proof (cases rule: block_buf_cases[OF assms(1)])
    case 1
    then have "vrfs_add_dir_entry sbi q dno name no s = Some (- 1, s)" using db by (simp add: vrfs_add_dir_entry_def)
    then show ?thesis using assms(1) m(4) by (intro none[of s]) auto
  next
    case (2 p s1 buf)
    have d1: "on_disk C dev n s1" "disk C s1 = disk C s" using same_env_disk[OF 2(7)] m(4) by auto
    have o1: "objs s1 p = Some (Buf buf)" using 2(5) by simp
    obtain s2 where s2: "read_into (Some dev) b p s1 = Some (0, s2)" "fs_wf s2" "on_disk C dev n s2"
      "objs s2 = (objs s1)(p \<mapsto> Buf (disk C s1 (unat b)))" "disk C s2 = disk C s1"
      by (rule read_into_run[OF 2(3) d1(1) o1 2(6) b(3)]) blast
    have p: "sbi \<noteq> p" "q \<noteq> p" "q \<noteq> sbi" using 2(4) m(2) assms(3) by auto
    have at1: "vsb_at s1 sbi = Some i" "info_at s1 q = Some w" using p 2(5) m(2) assms(3) by (simp_all add: at_obj)
    have at2: "buf_at s2 p = Some ?blk" using s2(4) d1(2) by (simp add: at_obj)
    show ?thesis
    proof (cases "find_first 0 16 (\<lambda>e. entry_no ?blk e = 0)")
      case None
      have "objs s2 p \<noteq> None" using s2(4) by simp
      from free_obj_cases[OF s2(2) this] obtain s3 where s3: "free_obj p s2 = Some s3" "fs_wf s3" "objs s3 = (objs s2)(p := None)" "same_env s2 s3"
        by metis
      have "vrfs_add_dir_entry sbi q dno name no s = Some (- 1, s3)"
        using db 2(1,2) at1 at2 m(3) l0 b(1) s2(1) s3(1) len None by (simp add: vrfs_add_dir_entry_def del: at_simps)
      moreover have "objs s3 = objs s" using s3(3) s2(4) 2(4,5) by (auto simp: fun_eq_iff)
      ultimately show ?thesis using s3(2) same_env_disk[OF s3(4)] s2(3,5) d1(2) by (intro none[of s3]) auto
    next
      case (Some e)
      have e: "e < 16" using find_first_SomeD[OF Some] by simp
      let ?new = "le32 no @ take 27 name @ [0]" let ?nb = "splice (32 * e) ?new ?blk"
      have ln: "length ?nb = 512" using len e by (simp add: length_splice)
      let ?s3 = "put p (Buf ?nb) s2"
      have w3: "fs_wf ?s3" by (rule fs_wf_put[OF s2(2)]) (simp add: s2(4))
      obtain s4 where s4: "write_from (Some dev) b p ?s3 = Some (0, s4)" "fs_wf s4" "on_disk C dev n s4"
        "objs s4 = objs ?s3" "disk C s4 = (disk C ?s3)(unat b := ?nb)"
        by (rule write_from_run[OF w3, of C dev n p ?nb b]) (use s2(3) ln b(3) in auto)
      let ?d = "(ii_disk w)\<lparr>vi_size := of_nat ((e + 1) * 32)\<rparr>" let ?w = "w\<lparr>ii_disk := ?d\<rparr>"
      have at4: "info_at s4 q = Some w" using s4(4) s2(4) 2(5) p assms(3) by (simp add: at_obj)
      let ?s5 = "put q (Vrfs_info ?w) s4"
      have o5: "objs ?s5 = (objs s)(q \<mapsto> Vrfs_info ?w, p \<mapsto> Buf ?nb)" using s4(4) s2(4) 2(5) p by (auto simp: fun_eq_iff)
      have w5: "fs_wf ?s5" by (rule fs_wf_put[OF s4(2)]) (use at4 in simp)
      have m5: "mounted C dev n sbi i ib bb ?s5"
      proof (rule mounted_cong[OF assms(2)])
        have "si_inode_bitmap i \<noteq> p" "si_block_bitmap i \<noteq> p" "si_inode_bitmap i \<noteq> q" "si_block_bitmap i \<noteq> q"
          using assms(2,3) 2(4) by (auto simp: mounted_def)
        then show "a \<in> {sbi, si_inode_bitmap i, si_block_bitmap i} \<Longrightarrow> objs ?s5 a = objs s a" for a unfolding o5 using p by auto
      qed (use s4(3) in simp)
      have ok: "inode_ok ?d" using assms(4) by (simp add: inode_ok_def)
      let ?D = "(disk C s)(unat b := ?nb)"
      have d5: "disk C ?s5 = ?D" using s4(5) s2(5) d1(2) by simp
      have "info_at ?s5 q = Some ?w" by (simp add: at_obj)
      then have pre: "vrfs_add_dir_entry sbi q dno name no s = do {
          (r, s) \<leftarrow> vrfs_write_inode sbi dno ?d ?s5; s \<leftarrow> free_obj p s; Some (0, s) }"
        using db 2(1,2) at1 at2 m(3) l0 b(1) s2(1) s4(1) at4 len Some
        by (simp add: vrfs_add_dir_entry_def put_disk_def Let_def del: at_simps)
      have fin: ?thesis if s6: "vrfs_write_inode sbi dno ?d ?s5 = Some (r, s6)" "fs_wf s6" "objs s6 = objs ?s5" "on_disk C dev n s6"
        "disk C s6 = ?D \<or> disk C s6 = ?D(3 + unat dno div 6 := splice (inode_offset dno) (vrfs_inode_bytes ?d) (?D (3 + unat dno div 6)))" for r s6
      proof -
        have "objs s6 p \<noteq> None" using s6(3) o5 by simp
        from free_obj_cases[OF s6(2) this] obtain s7 where s7: "free_obj p s6 = Some s7" "fs_wf s7" "objs s7 = (objs s6)(p := None)" "same_env s6 s7"
          by metis
        have "vrfs_add_dir_entry sbi q dno name no s = Some (0, s7)" using pre s6(1) s7(1) by simp
        moreover have "objs s7 = (objs s)(q \<mapsto> Vrfs_info ?w)" unfolding s7(3) s6(3) o5 using 2(4) p by (auto simp: fun_eq_iff)
        ultimately show ?thesis using Some s7(2) same_env_disk[OF s7(4)] s6(4,5) by (intro some[of s7 e ?d ?D]) auto
      qed
      show ?thesis
      proof (cases rule: write_inode_cases[OF w5 m5 b(4) ok])
        case 1
        show ?thesis by (rule fin[OF 1 w5 refl]) (use s4(3) d5 in auto)
      next
        case (2 s6)
        show ?thesis by (rule fin[OF 2(1-4)]) (use 2(5) d5 in auto)
      qed
    qed
  qed
qed

lemma create_new_cases:
  assumes "fs_wf s" "mounted C dev n sbi i ib bb s" "vrfs_node s c sbi x w" "unat (ii_no w) < 96"
    and b: "vi_direct (ii_disk w) ! 0 = b" "19 \<le> unat b" "unat b < n"
    and ib: "bytes_tst ib 0" "\<exists>k<96. \<not> bytes_tst ib k"
  obtains (none) s' where "create_new x sbi name s = Some (NULL, s')" "fs_wf s'" "disk C s' (unat b) = disk C s (unat b)"
  | (some) p s' no e y d i' ib' where "create_new x sbi name s = Some (p, s')" "p \<noteq> NULL" "fs_wf s'" "no \<noteq> 0" "unat no < 96"
      "\<not> bytes_tst ib (unat no)" "find_first 0 16 (\<lambda>e. entry_no (disk C s (unat b)) e = 0) = Some e"
      "disk C s' (unat b) = splice (32 * e) (le32 no @ take 27 name @ [0]) (disk C s (unat b))"
      "vrfs_node s' p sbi y \<lparr>ii_disk = zero_inode\<lparr>vi_mode := VRFS_INODE_FILE, vi_links := 1\<rparr>, ii_no = no\<rparr>"
      "i_type y = VFS_FILE" "i_size y = 0" "mounted C dev n sbi i' ib' bb s'" "vrfs_node s' c sbi x (w\<lparr>ii_disk := d\<rparr>)"
      "vi_direct d ! 0 = b"
proof (cases rule: vrfs_alloc_inode_cases[OF assms(1,2)])
  case 1
  then have "create_new x sbi name s = Some (NULL, s)" by (simp add: create_new_def)
  then show ?thesis using assms(1) by (intro none[of s]) auto
next
  case (2 k s1 i1 ib1)
  have k: "0 < k" "k < 96" using 2(3,4) ib by (auto intro: Nat.gr0I) (meson le_less_trans not_le)
  have uk: "unat (of_nat k :: u32) = k" using 2(2) by (intro of_nat_unat_less) simp
  let ?no = "of_nat k :: u32"
  have nz: "?no \<noteq> 0" using uk k(1) by (metis unat_0 less_irrefl)
  have bn: "unat b \<noteq> 1" "3 + k div 6 \<noteq> unat b" "3 + unat (ii_no w) div 6 \<noteq> unat b" using b(2) k(2) assms(4) by linarith+
  have m: "sbi \<noteq> NULL" "objs s sbi = Some (Vrfs_sb i)" "objs s (si_inode_bitmap i) = Some (Buf ib)"
    using assms(2) by (simp_all add: mounted_def)
  note ne = vrfs_node_types[OF assms(3,2)]
  have node1: "vrfs_node s1 c sbi x w" using assms(3) ne m by (auto simp: vrfs_node_def 2(10))
  have d1: "disk C s1 (unat b) = disk C s (unat b)" using bn(1) by (simp add: 2(12))
  let ?d = "zero_inode\<lparr>vi_mode := VRFS_INODE_FILE, vi_links := 1\<rparr>"
  have ok: "inode_ok ?d" by (simp add: inode_ok_def zero_inode_def)
  show ?thesis
  proof (cases rule: new_obj_cases[OF 2(5), of sizeof_inode "\<lambda>w. Inode (raw_inode w)"])
    case 1
    then have "create_new x sbi name s = Some (NULL, s1)" using 2(1) by (simp add: create_new_def new_inode_def)
    then show ?thesis using 2(5) d1 by (rule none)
  next
    case p: (2 p s2)
    let ?mk = "\<lambda>w. Vrfs_info \<lparr>ii_disk = vrfs_inode_of (concat (map (\<lambda>k. le32 (w k)) [0..<19])), ii_no = w 19\<rparr>"
    have d2: "disk C s2 = disk C s1" "on_disk C dev n s2" using same_env_disk[OF p(9)] 2(11) by (auto simp: mounted_def)
    show ?thesis
    proof (cases rule: new_obj_cases[OF p(3), of sizeof_vrfs_inode_info ?mk])
      case 1
      have "objs s2 p \<noteq> None" using p(5) by simp
      from free_obj_cases[OF p(3) this] obtain s3 where s3: "free_obj p s2 = Some s3" "fs_wf s3" "same_env s2 s3" by metis
      have "create_new x sbi name s = Some (NULL, s3)"
        using 2(1) p(1,2) 1 s3(1) by (simp add: create_new_def new_inode_def new_info_def)
      then show ?thesis using s3(2) same_env_disk[OF s3(3)] d1 d2(1) by (intro none[of s3]) auto
    next
      case q: (2 q s3)
      let ?s4 = "put q (Vrfs_info \<lparr>ii_disk = ?d, ii_no = ?no\<rparr>) s3"
      let ?y = "raw_inode (junk s1 (fresh s1))"
      have pq: "p \<noteq> q" "objs s1 p = None" "objs s1 q = None" using q(4) p(4,5) by (auto split: if_splits)
      have o4: "objs ?s4 = (objs s1)(p \<mapsto> Inode ?y, q \<mapsto> Vrfs_info \<lparr>ii_disk = ?d, ii_no = ?no\<rparr>)"
        using p(5) q(5) by (auto simp: fun_eq_iff)
      have w4: "fs_wf ?s4" by (rule fs_wf_put[OF q(3)]) (simp add: q(5))
      have d4: "disk C ?s4 = disk C s1" "on_disk C dev n ?s4" using same_env_disk[OF q(9)] d2 by auto
      have keep: "objs ?s4 a = objs s1 a" if "objs s1 a \<noteq> None" for a using that pq o4 by auto
      have m4: "mounted C dev n sbi i1 ib1 bb ?s4"
        by (rule mounted_keep[OF 2(11) d4(2) keep])
      have no: "unat ?no < 128" using uk k(2) by simp
      obtain r s5 where s5: "vrfs_write_inode sbi ?no ?d ?s4 = Some (r, s5)" "fs_wf s5" "objs s5 = objs ?s4" "on_disk C dev n s5"
        "disk C s5 (unat b) = disk C s (unat b)"
      proof (cases rule: write_inode_cases[OF w4 m4 no ok])
        case 1
        then show ?thesis using w4 d4 d1 by (intro that[of "- 1" ?s4]) auto
      next
        case (2 s5)
        then show ?thesis using d4 d1 bn(2) uk by (intro that[of 0 s5]) auto
      qed
      have m5: "mounted C dev n sbi i1 ib1 bb s5" by (rule mounted_cong[OF m4 s5(4)]) (simp add: s5(3))
      have x: "objs s1 (i_private x) = Some (Vrfs_info w)" "inode_ok (ii_disk w)" using node1 by (simp_all add: vrfs_node_def)
      have o5: "objs s5 (i_private x) = Some (Vrfs_info w)" using keep[of "i_private x"] x(1) s5(3) by simp
      have pre: "create_new x sbi name s = do {
          (r, s) \<leftarrow> vrfs_add_dir_entry sbi (i_private x) (ii_no w) name ?no s5;
          if r < 0 then do { s \<leftarrow> free_obj q s; s \<leftarrow> free_obj p s; Some (NULL, s) }
          else do { i \<leftarrow> inode_at s p; Some (p, put p (Inode (vfs_inode_from ?no VFS_FILE 0 (i_sb x) q i)) s) } }"
        using 2(1) p(1,2) q(1,2) s5(1) o5 by (simp add: create_new_def new_inode_def new_info_def at_obj Let_def)
      have bz: "b \<noteq> 0" using b(2) by auto
      have dno: "unat (ii_no w) < 128" using assms(4) by simp
      show ?thesis
      proof (cases rule: add_dirent_cases[OF s5(2) m5 o5 x(2) b(1) bz b(3) dno, of name ?no])
        case (1 s6)
        have "objs s6 q \<noteq> None" using 1(3) s5(3) by simp
        from free_obj_cases[OF 1(2) this] obtain s7 where s7: "free_obj q s6 = Some s7" "fs_wf s7" "objs s7 = (objs s6)(q := None)" "same_env s6 s7" by metis
        have "objs s7 p = objs ?s4 p" using s7(3) 1(3) s5(3) pq(1) by simp
        then have "objs s7 p \<noteq> None" using fun_cong[OF o4, of p] pq(1) by simp
        from free_obj_cases[OF s7(2) this] obtain s8 where s8: "free_obj p s7 = Some s8" "fs_wf s8" "same_env s7 s8" by metis
        have "create_new x sbi name s = Some (NULL, s8)" unfolding pre using 1(1) s7(1) s8(1) by simp
        then show ?thesis using s8(2) same_env_disk[OF s8(3)] same_env_disk[OF s7(4)] 1(5) s5(5) by (intro none[of s8]) auto
      next
        case (2 e s6 d D)
        have d6: "disk C s6 (unat b) = splice (32 * e) (le32 ?no @ take 27 name @ [0]) (disk C s (unat b))"
          using 2(7,8) s5(5) bn(3) by auto
        have ff: "find_first 0 16 (\<lambda>e. entry_no (disk C s (unat b)) e = 0) = Some e" using 2(2) s5(5) by simp
        have px: "i_private x \<noteq> p" "i_private x \<noteq> q" using x(1) pq by auto
        have o6: "objs s6 p = Some (Inode ?y)" using 2(6) s5(3) o4 px(1) pq(1) by simp
        let ?y' = "vfs_inode_from ?no VFS_FILE 0 (i_sb x) q ?y" let ?s7 = "put p (Inode ?y') s6"
        have run: "create_new x sbi name s = Some (p, ?s7)" unfolding pre using 2(1) o6 by (simp add: at_obj)
        have w7: "fs_wf ?s7" by (rule fs_wf_put[OF 2(3)]) (simp add: o6)
        have o7: "objs ?s7 a = (if a = i_private x then Some (Vrfs_info (w\<lparr>ii_disk := d\<rparr>)) else objs s1 a)" if "objs s1 a \<noteq> None" for a
          using that 2(6) s5(3) keep[OF that] pq px by auto
        obtain v where v: "objs s1 (i_sb x) = Some (Superblock v)" "sb_private v = sbi" "i_sb x \<noteq> NULL" using node1 by (auto simp: vrfs_node_def)
        have okd: "inode_ok d" "vi_direct d ! 0 = b" using x(2) b(1) by (simp_all add: 2(5) inode_ok_def)
        have xs: "i_sb x \<noteq> i_private x" "c \<noteq> i_private x" using node1 by (auto simp: vrfs_node_def)
        have os: "objs ?s7 (i_sb x) = Some (Superblock v)" using o7[of "i_sb x"] v(1) xs(1) by simp
        have oq: "objs ?s7 q = Some (Vrfs_info \<lparr>ii_disk = ?d, ii_no = ?no\<rparr>)" using 2(6) s5(3) o4 pq(1) px(2) by auto
        have np: "vrfs_node ?s7 p sbi ?y' \<lparr>ii_disk = ?d, ii_no = ?no\<rparr>"
          using p(2) q(2) os oq v ok by (auto simp: vrfs_node_def put_cong_kind)
        have nc: "vrfs_node ?s7 c sbi x (w\<lparr>ii_disk := d\<rparr>)"
          using node1 o7[of c] o7[of "i_private x"] os v okd(1) xs(2) x(1) unfolding vrfs_node_def by simp
        have m7: "mounted C dev n sbi i1 ib1 bb ?s7"
        proof (rule mounted_cong[OF \<open>mounted C dev n sbi i1 ib1 bb s1\<close>])
          show "on_disk C dev n ?s7" using 2(4) by simp
          show "objs ?s7 a = objs s1 a" if "a \<in> {sbi, si_inode_bitmap i1, si_block_bitmap i1}" for a
          proof -
            have "objs s1 a \<noteq> None" "a \<noteq> i_private x"
              using that \<open>mounted C dev n sbi i1 ib1 bb s1\<close> x(1) by (auto simp: mounted_def)
            then show ?thesis using o7 by simp
          qed
        qed
        have d7: "disk C ?s7 (unat b) = splice (32 * e) (le32 ?no @ take 27 name @ [0]) (disk C s (unat b))" using d6 by simp
        show ?thesis
          by (rule some[of p ?s7 ?no e ?y' i1 ib1 d])
            (use run p(2) w7 nz uk k(2) \<open>\<not> bytes_tst ib k\<close> ff d7 np m7 nc okd(2) in \<open>simp_all add: put_cong_kind\<close>)
      qed
    qed
  qed
qed

lemma lookup_again:
  assumes "fs_wf s" "mounted C dev n sbi i ib bb s" "vrfs_node s c sbi x w" "vi_direct (ii_disk w) ! 0 = b" "b \<noteq> 0" "unat b < n"
    and "dir_map (disk C s (unat b)) name = Some no" "unat no < 128"
  shows "\<exists>q s'. vrfs_lookup c name s = Some (q, s') \<and> (q = NULL \<or> (\<exists>y v. vrfs_node s' q sbi y v \<and> ii_no v = no))"
proof -
  have small: "\<forall>k. dir_map (disk C s (unat b)) name = Some k \<longrightarrow> unat k < 128" using assms(7,8) by simp
  show ?thesis
  proof (cases rule: lookup_cases[OF assms(1-6) small])
    case (1 s')
    then show ?thesis by blast
  next
    case (2 k p y s')
    have "ii_no \<lparr>ii_disk = disk_inode (disk C s) k, ii_no = k\<rparr> = no" using 2(1) assms(7) by simp
    with 2(2,8) show ?thesis by blast
  qed
qed


section \<open>Mounting what was made\<close>

lemma free_all_ex:
  "fs_wf s \<Longrightarrow> distinct ps \<Longrightarrow> \<forall>p\<in>set ps. objs s p \<noteq> None \<Longrightarrow> \<exists>s'. free_all ps s = Some s' \<and> fs_wf s'"
proof (induction ps arbitrary: s)
  case (Cons p ps)
  have "objs s p \<noteq> None" using Cons.prems(3) by simp
  from free_obj_cases[OF Cons.prems(1) this] obtain s1 where
    s1: "free_obj p s = Some s1" "fs_wf s1" "objs s1 = (objs s)(p := None)" by metis
  have "\<forall>q\<in>set ps. objs s1 q \<noteq> None" using Cons.prems(2,3) s1(3) by auto
  from Cons.IH[OF s1(2) _ this] Cons.prems(2) s1(1) show ?case by auto
qed simp

lemma mount_root_cases:
  assumes "fs_wf s" "mounted C dev n sbi i ib bb s" "vsb \<noteq> NULL" "objs s vsb = Some (Superblock v)" "objs s buffer = Some (Buf bs)"
    and "buffer \<noteq> si_inode_bitmap i" "buffer \<noteq> si_block_bitmap i"
  obtains (none) s' where "mount_root vsb (si_block_bitmap i) (si_inode_bitmap i) sbi buffer s = Some (NULL, s')" "fs_wf s'"
  | (some) s' c x v' where "mount_root vsb (si_block_bitmap i) (si_inode_bitmap i) sbi buffer s = Some (vsb, s')" "fs_wf s'"
      "mounted C dev n sbi i ib bb s'" "objs s' vsb = Some (Superblock v')" "sb_private v' = sbi" "sb_root_inode v' = c"
      "vrfs_node s' c sbi x \<lparr>ii_disk = disk_inode (disk C s) 0, ii_no = 0\<rparr>" "i_type x = VFS_DIRECTORY" "i_iop x = Vrfs_ops"
      "disk C s' = disk C s" "\<forall>a. objs s a \<noteq> None \<longrightarrow> a \<noteq> vsb \<longrightarrow> a \<noteq> buffer \<longrightarrow> objs s' a = objs s a"
proof -
  let ?ib = "si_inode_bitmap i" and ?bb = "si_block_bitmap i"
  let ?run = "mount_root vsb ?bb ?ib sbi buffer s"
  have m: "sbi \<noteq> NULL" "objs s sbi = Some (Vrfs_sb i)" "objs s ?ib = Some (Buf ib)" "objs s ?bb = Some (Buf bb)" "?ib \<noteq> ?bb"
    "on_disk C dev n s" "layout_ok n (si_sb i)" using assms(2) by (simp_all add: mounted_def)
  have dist: "distinct [vsb, ?bb, ?ib, sbi, buffer]" using m assms(4-7) by auto
  show ?thesis
  proof (cases rule: new_obj_cases[OF assms(1), of sizeof_inode "\<lambda>w. Inode (raw_inode w)"])
    case 1
    have "\<forall>p\<in>set [vsb, ?bb, ?ib, sbi, buffer]. objs s p \<noteq> None" using m assms(4,5) by simp
    from free_all_ex[OF assms(1) dist this] obtain s' where s': "free_all [vsb, ?bb, ?ib, sbi, buffer] s = Some s'" "fs_wf s'" by blast
    have "?run = Some (NULL, s')" using 1 s'(1) by (simp add: mount_root_def new_inode_def del: free_all.simps)
    then show ?thesis using s'(2) by (rule none)
  next
    case p: (2 p s1)
    let ?y = "raw_inode (junk s (fresh s))"
    have op: "objs s1 p = Some (Inode ?y)" using p(5) by simp
    have keep1: "objs s1 a = objs s a" if "objs s a \<noteq> None" for a using that p(4,5) by auto
    have pd: "p \<notin> set [vsb, ?bb, ?ib, sbi, buffer]" using p(4) m assms(4,5) by auto
    let ?mk = "\<lambda>w. Vrfs_info \<lparr>ii_disk = vrfs_inode_of (concat (map (\<lambda>k. le32 (w k)) [0..<19])), ii_no = w 19\<rparr>"
    show ?thesis
    proof (cases rule: new_obj_cases[OF p(3), of sizeof_vrfs_inode_info ?mk])
      case 1
      have "\<forall>a\<in>set [p, vsb, ?bb, ?ib, sbi, buffer]. objs s1 a \<noteq> None" using m assms(4,5) keep1 op by simp
      moreover have "distinct [p, vsb, ?bb, ?ib, sbi, buffer]" using dist pd by simp
      ultimately obtain s' where s': "free_all [p, vsb, ?bb, ?ib, sbi, buffer] s1 = Some s'" "fs_wf s'"
        using free_all_ex[OF p(3)] by blast
      have "?run = Some (NULL, s')" using p(1,2) 1 s'(1) by (simp add: mount_root_def new_inode_def new_info_def del: free_all.simps)
      then show ?thesis using s'(2) by (rule none)
    next
      case q: (2 q s2)
      have keep2: "objs s2 a = objs s1 a" if "objs s1 a \<noteq> None" for a using that q(4,5) by auto
      have keep: "objs s2 a = objs s a" if "objs s a \<noteq> None" for a using keep1[OF that] keep2 that by simp
      have oq: "objs s2 q = Some (?mk (junk s1 (fresh s1)))" "objs s2 p = Some (Inode ?y)" using q(5) keep2[of p] op by simp_all
      have e2: "disk C s2 = disk C s" "on_disk C dev n s2"
        using same_env_disk[OF p(9)] same_env_disk[OF q(9)] m(6) by auto
      have m2: "mounted C dev n sbi i ib bb s2" by (rule mounted_keep[OF assms(2) e2(2) keep])
      have qd: "q \<notin> set [p, vsb, ?bb, ?ib, sbi, buffer]" using q(4) op keep1 m assms(4,5) by auto
      have z: "unat (0 :: u32) < 128" by simp
      show ?thesis
      proof (cases rule: read_inode_cases[OF q(3) m2 z])
        case 1
        have "\<forall>a\<in>set [q, p, vsb, ?bb, ?ib, sbi, buffer]. objs s2 a \<noteq> None" using m assms(4,5) keep oq by simp
        moreover have "distinct [q, p, vsb, ?bb, ?ib, sbi, buffer]" using dist pd qd by simp
        ultimately obtain s' where s': "free_all [q, p, vsb, ?bb, ?ib, sbi, buffer] s2 = Some s'" "fs_wf s'"
          using free_all_ex[OF q(3)] by blast
        have "?run = Some (NULL, s')" using p(1,2) q(1,2) 1 s'(1) by (simp add: mount_root_def new_inode_def new_info_def del: free_all.simps)
        then show ?thesis using s'(2) by (rule none)
      next
        case (2 s3)
        let ?d = "disk_inode (disk C s) 0"
        let ?v = "v\<lparr>sb_magic := VRFS_MAGIC, sb_block_size := VRFS_BLOCK_SIZE, sb_private := sbi, sb_root_inode := p\<rparr>"
        let ?x = "vfs_inode_from 0 VFS_DIRECTORY (vi_size ?d) vsb q ?y"
        let ?s4 = "put vsb (Superblock ?v) (put p (Inode ?x) (put q (Vrfs_info \<lparr>ii_disk = ?d, ii_no = 0\<rparr>) s3))"
        have o3: "objs s3 = objs s2" by fact
        have w4: "fs_wf ?s4" by (intro fs_wf_put 2(2)) (use o3 oq keep assms(4) in auto)
        have "objs ?s4 buffer \<noteq> None" using o3 keep assms(5) by simp
        from free_obj_cases[OF w4 this] obtain s5 where s5: "free_obj buffer ?s4 = Some s5" "fs_wf s5" "objs s5 = (objs ?s4)(buffer := None)" "same_env ?s4 s5"
          by metis
        have sv: "objs s2 vsb = Some (Superblock v)" using keep assms(4) by simp
        have run: "?run = Some (vsb, s5)"
          using p(1,2) q(1,2) 2(1) s5(1) o3 oq(2) sv e2(1)
          by (simp add: mount_root_def new_inode_def new_info_def at_obj Let_def disk_inode_def)
        have o5: "objs s5 a = objs s a" if "objs s a \<noteq> None" "a \<noteq> vsb" "a \<noteq> buffer" for a
        proof -
          have "a \<noteq> p" "a \<noteq> q" using that(1) p(4) q(4) keep1[OF that(1)] by auto
          then show ?thesis using that s5(3) o3 keep[OF that(1)] by simp
        qed
        then have frame: "\<forall>a. objs s a \<noteq> None \<longrightarrow> a \<noteq> vsb \<longrightarrow> a \<noteq> buffer \<longrightarrow> objs s5 a = objs s a" by blast
        have e5: "disk C s5 = disk C s" "on_disk C dev n s5" using same_env_disk[OF s5(4)] 2(4,5) e2(1) by auto
        have m5: "mounted C dev n sbi i ib bb s5"
          by (rule mounted_cong[OF assms(2) e5(2)], rule o5) (use m dist in auto)
        have ov: "objs s5 vsb = Some (Superblock ?v)" "objs s5 p = Some (Inode ?x)" "objs s5 q = Some (Vrfs_info \<lparr>ii_disk = ?d, ii_no = 0\<rparr>)"
          using s5(3) dist pd qd by auto
        have kx: "i_type ?x = VFS_DIRECTORY" "i_iop ?x = Vrfs_ops" by (simp_all only: put_cong_kind)
        have node: "vrfs_node s5 p sbi ?x \<lparr>ii_disk = ?d, ii_no = 0\<rparr>"
          using ov p(2) q(2) assms(3) disk_inode_ok[OF m(6,7) z] by (simp add: vrfs_node_def put_cong_kind)
        show ?thesis by (rule some[OF run s5(2) m5 ov(1) _ _ node kx e5(1) frame]) simp_all
      qed
    qed
  qed
qed

lemma load_bitmap_cases:
  assumes "fs_wf s" "on_disk C dev n s" "unat b < n"
  obtains (none) "load_bitmap (Some dev) b s = Some (NULL, s)"
  | (some) p s' where "load_bitmap (Some dev) b s = Some (p, s')" "p \<noteq> NULL" "fs_wf s'" "on_disk C dev n s'" "disk C s' = disk C s"
      "objs s p = None" "objs s' = (objs s)(p \<mapsto> Buf (disk C s (unat b)))"
proof (cases rule: block_buf_cases[OF assms(1)])
  case 1
  then show ?thesis by (intro none) (simp add: load_bitmap_def)
next
  case (2 p s1 buf)
  have d1: "on_disk C dev n s1" "disk C s1 = disk C s" using same_env_disk[OF 2(7)] assms(2) by auto
  have o1: "objs s1 p = Some (Buf buf)" using 2(5) by simp
  obtain s2 where s2: "read_into (Some dev) b p s1 = Some (0, s2)" "fs_wf s2" "on_disk C dev n s2"
    "objs s2 = (objs s1)(p \<mapsto> Buf (disk C s1 (unat b)))" "disk C s2 = disk C s1"
    by (rule read_into_run[OF 2(3) d1(1) o1 2(6) assms(3)]) blast
  have "load_bitmap (Some dev) b s = Some (p, s2)" using 2(1,2) s2(1) by (simp add: load_bitmap_def)
  then show ?thesis using 2(2,4,5) s2 d1(2) by (intro some[of p s2]) auto
qed

lemma mount_bitmaps_cases:
  assumes "fs_wf s" "on_disk C dev n s" "layout_ok n sb" "sbi \<noteq> NULL" "objs s sbi = Some (Vrfs_sb i0)" "objs s buffer = Some (Buf bs)"
  obtains (none) s' where "mount_bitmaps (Some dev) sb sbi buffer s = Some (NULL, s')" "fs_wf s'"
  | (some) p s' i c x v where "mount_bitmaps (Some dev) sb sbi buffer s = Some (p, s')" "p \<noteq> NULL" "fs_wf s'" "si_sb i = sb"
      "mounted C dev n sbi i (disk C s 1) (disk C s 2) s'" "objs s' p = Some (Superblock v)" "sb_private v = sbi" "sb_root_inode v = c"
      "vrfs_node s' c sbi x \<lparr>ii_disk = disk_inode (disk C s) 0, ii_no = 0\<rparr>" "i_type x = VFS_DIRECTORY" "i_iop x = Vrfs_ops"
      "disk C s' = disk C s" "\<forall>a. objs s a \<noteq> None \<longrightarrow> a \<noteq> sbi \<longrightarrow> a \<noteq> buffer \<longrightarrow> objs s' a = objs s a"
proof -
  let ?run = "mount_bitmaps (Some dev) sb sbi buffer s"
  have l: "vs_inode_bitmap_block sb = 1" "vs_block_bitmap_block sb = 2" "1 < n" "2 < n" using assms(3) by (simp_all add: layout_ok_def)
  have ub: "unat (1 :: u32) < n" "unat (2 :: u32) < n" using l by simp_all
  have ne: "sbi \<noteq> buffer" using assms(5,6) by auto
  show ?thesis
  proof (cases rule: load_bitmap_cases[OF assms(1,2) ub(1)])
    case 1
    obtain s' where s': "free_all [sbi, buffer] s = Some s'" "fs_wf s'" using free_all_ex[OF assms(1), of "[sbi, buffer]"] assms(5,6) ne by auto
    have "?run = Some (NULL, s')" using 1 s'(1) l by (simp add: mount_bitmaps_def del: free_all.simps)
    then show ?thesis using s'(2) by (rule none)
  next
    case a: (2 ib s1)
    have ibn: "ib \<noteq> sbi" "ib \<noteq> buffer" using a(6) assms(5,6) by auto
    have keep1: "objs s1 x = objs s x" if "objs s x \<noteq> None" for x using that a(6,7) by auto
    show ?thesis
    proof (cases rule: load_bitmap_cases[OF a(3,4) ub(2)])
      case 1
      have "\<forall>x\<in>set [ib, sbi, buffer]. objs s1 x \<noteq> None" "distinct [ib, sbi, buffer]" using keep1 assms(5,6) a(7) ibn ne by auto
      then obtain s' where s': "free_all [ib, sbi, buffer] s1 = Some s'" "fs_wf s'" using free_all_ex[OF a(3)] by blast
      have "?run = Some (NULL, s')" using a(1,2) 1 s'(1) l by (simp add: mount_bitmaps_def del: free_all.simps)
      then show ?thesis using s'(2) by (rule none)
    next
      case b: (2 bb s2)
      have oib: "objs s1 ib = Some (Buf (disk C s 1))" using a(7) by simp
      have bbn: "bb \<noteq> ib" "bb \<noteq> sbi" "bb \<noteq> buffer" using b(6) oib keep1 assms(5,6) by auto
      have keep2: "objs s2 x = objs s1 x" if "objs s1 x \<noteq> None" for x using that b(6,7) by auto
      let ?i = "\<lparr>si_sb = sb, si_bdev = Some dev, si_inode_bitmap = ib, si_block_bitmap = bb\<rparr>"
      let ?s3 = "put sbi (Vrfs_sb ?i) s2"
      have osb: "objs s2 sbi = Some (Vrfs_sb i0)" "objs s2 buffer = Some (Buf bs)" using keep1 keep2 assms(5,6) by simp_all
      have w3: "fs_wf ?s3" by (rule fs_wf_put[OF b(3)]) (simp add: osb)
      have o3: "objs ?s3 ib = Some (Buf (disk C s 1))" "objs ?s3 bb = Some (Buf (disk C s 2))" "objs ?s3 buffer = Some (Buf bs)"
        using keep2[of ib] oib b(7) a(5) ibn bbn osb ne by auto
      have m3: "mounted C dev n sbi ?i (disk C s 1) (disk C s 2) ?s3"
        using assms(3,4) b(4) o3 bbn(1) disk_length[OF assms(2) l(3)] disk_length[OF assms(2) l(4)] by (simp add: mounted_def)
      let ?mk = "\<lambda>w. Superblock \<lparr>sb_magic = w 0, sb_block_size = w 1, sb_max_files = w 2, sb_private = w 3, sb_root = w 4, sb_root_inode = w 5\<rparr>"
      show ?thesis
      proof (cases rule: new_obj_cases[OF w3, of sizeof_superblock ?mk])
        case 1
        have "\<forall>x\<in>set [bb, ib, sbi, buffer]. objs ?s3 x \<noteq> None" "distinct [bb, ib, sbi, buffer]" using o3 bbn ibn ne by auto
        then obtain s' where s': "free_all [bb, ib, sbi, buffer] ?s3 = Some s'" "fs_wf s'" using free_all_ex[OF w3] by blast
        have "?run = Some (NULL, s')" using a(1,2) b(1,2) 1 s'(1) l
          by (simp add: mount_bitmaps_def new_superblock_def Let_def del: free_all.simps)
        then show ?thesis using s'(2) by (rule none)
      next
        case v: (2 vsb s4)
        have run: "?run = mount_root vsb (si_block_bitmap ?i) (si_inode_bitmap ?i) sbi buffer s4"
          using a(1,2) b(1,2) v(1,2) l by (simp add: mount_bitmaps_def new_superblock_def Let_def)
        have keep: "objs s4 x = objs ?s3 x" if "objs ?s3 x \<noteq> None" for x using that v(4,5) by auto
        have e4: "disk C s4 = disk C s" "on_disk C dev n s4" using same_env_disk[OF v(9)] a(5) b(4,5) by auto
        have m4: "mounted C dev n sbi ?i (disk C s 1) (disk C s 2) s4" by (rule mounted_keep[OF m3 e4(2) keep])
        have ov: "objs s4 vsb = Some (?mk (junk ?s3 (fresh ?s3)))" "objs s4 buffer = Some (Buf bs)" using v(5) keep[of buffer] o3(3) by simp_all
        have bn: "buffer \<noteq> si_inode_bitmap ?i" "buffer \<noteq> si_block_bitmap ?i" using ibn bbn by auto
        show ?thesis
        proof (cases rule: mount_root_cases[OF v(3) m4 v(2) ov bn])
          case (1 s')
          then show ?thesis using run by (intro none[of s']) simp_all
        next
          case (2 s' c x v')
          have e: "si_sb ?i = sb" by simp
          have frame: "\<forall>a. objs s a \<noteq> None \<longrightarrow> a \<noteq> sbi \<longrightarrow> a \<noteq> buffer \<longrightarrow> objs s' a = objs s a"
          proof (intro allI impI)
            fix a assume a: "objs s a \<noteq> None" "a \<noteq> sbi" "a \<noteq> buffer"
            have a3: "objs ?s3 a = objs s a" using keep1[OF a(1)] keep2[of a] a by simp
            then have "objs s4 a = objs s a" "a \<noteq> vsb" using keep[of a] a(1) v(4) by auto
            then show "objs s' a = objs s a" using 2(11) a by simp
          qed
          have d: "disk C s' = disk C s" using 2(10) e4(1) by simp
          show ?thesis by (rule some[OF run[unfolded 2(1)] v(2) 2(2) e 2(3,4,5,6) 2(7)[unfolded e4(1)] 2(8,9) d frame])
        qed
      qed
    qed
  qed
qed

lemma mount_cases:
  assumes "fs_wf s" "on_disk C dev n s" "layout_ok n sb" "disk C s 0 = superblock_bytes sb" "vs_magic sb = VRFS_MAGIC"
  obtains (none) s' where "vrfs_mount (Some dev) s = Some (NULL, s')" "fs_wf s'"
  | (some) p s' i c x v sbi where "vrfs_mount (Some dev) s = Some (p, s')" "p \<noteq> NULL" "fs_wf s'" "si_sb i = sb"
      "mounted C dev n sbi i (disk C s 1) (disk C s 2) s'" "objs s' p = Some (Superblock v)" "sb_private v = sbi" "sb_root_inode v = c"
      "vrfs_node s' c sbi x \<lparr>ii_disk = disk_inode (disk C s) 0, ii_no = 0\<rparr>" "i_type x = VFS_DIRECTORY" "i_iop x = Vrfs_ops"
      "disk C s' = disk C s" "\<forall>a. objs s a \<noteq> None \<longrightarrow> objs s' a = objs s a"
proof -
  let ?run = "vrfs_mount (Some dev) s"
  have n0: "unat (0 :: u32) < n" using assms(3) by (simp add: layout_ok_def)
  show ?thesis
  proof (cases rule: block_buf_cases[OF assms(1)])
    case 1
    then have "?run = Some (NULL, s)" by (simp add: vrfs_mount_def)
    then show ?thesis using assms(1) by (rule none)
  next
    case p: (2 p s1 buf)
    have d1: "on_disk C dev n s1" "disk C s1 = disk C s" using same_env_disk[OF p(7)] assms(2) by auto
    have o1: "objs s1 p = Some (Buf buf)" using p(5) by simp
    let ?bs = "superblock_bytes sb"
    obtain s2 where s2: "read_into (Some dev) 0 p s1 = Some (0, s2)" "fs_wf s2" "on_disk C dev n s2"
      "objs s2 = (objs s1)(p \<mapsto> Buf (disk C s1 (unat (0 :: u32))))" "disk C s2 = disk C s1"
      by (rule read_into_run[OF p(3) d1(1) o1 p(6) n0]) blast
    have o2: "objs s2 p = Some (Buf ?bs)" using s2(4) d1(2) assms(4) by simp
    have sb: "superblock_of ?bs = sb" using superblock_round[of sb "[]"] by simp
    let ?mk = "\<lambda>w. Vrfs_sb \<lparr>si_sb = superblock_of (concat (map (\<lambda>k. le32 (w k)) [0..<9])), si_bdev = None, si_inode_bitmap = w 129,
      si_block_bitmap = w 130\<rparr>"
    show ?thesis
    proof (cases rule: new_obj_cases[OF s2(2), of sizeof_vrfs_sb_info ?mk])
      case 1
      have "objs s2 p \<noteq> None" using o2 by simp
      from free_obj_cases[OF s2(2) this] obtain s3 where s3: "free_obj p s2 = Some s3" "fs_wf s3" by metis
      have "?run = Some (NULL, s3)" using p(1,2) s2(1) o2 sb assms(5) 1 s3(1) length_superblock_bytes[of sb]
        by (simp add: vrfs_mount_def new_vrfs_sb_def at_obj Let_def)
      then show ?thesis using s3(2) by (rule none)
    next
      case q: (2 q s3)
      have o3: "objs s3 q = Some (?mk (junk s2 (fresh s2)))" "objs s3 p = Some (Buf ?bs)" using q(4,5) o2 by auto
      have run: "?run = mount_bitmaps (Some dev) sb q p s3"
        using p(1,2) s2(1) o2 sb assms(5) q(1,2) length_superblock_bytes[of sb]
        by (simp add: vrfs_mount_def new_vrfs_sb_def at_obj Let_def)
      have e3: "disk C s3 = disk C s" "on_disk C dev n s3" using same_env_disk[OF q(9)] s2(3,5) d1(2) by auto
      show ?thesis
      proof (cases rule: mount_bitmaps_cases[OF q(3) e3(2) assms(3) q(2) o3])
        case (1 s')
        then show ?thesis using run by (intro none[of s']) simp_all
      next
        case (2 vsb s' i c x v)
        have frame: "\<forall>a. objs s a \<noteq> None \<longrightarrow> objs s' a = objs s a"
        proof (intro allI impI)
          fix a assume a: "objs s a \<noteq> None"
          then have "a \<noteq> p" using p(4) by auto
          then have s2a: "objs s2 a = objs s a" using s2(4) p(5) by simp
          then have "a \<noteq> q" "objs s3 a = objs s a" using q(4,5) a by auto
          then show "objs s' a = objs s a" using 2(13) a \<open>a \<noteq> p\<close> by simp
        qed
        show ?thesis by (rule some[OF run[unfolded 2(1)] 2(2-4) 2(5)[unfolded e3(1)] 2(6-8) 2(9)[unfolded e3(1)] 2(10,11) 2(12)[unfolded e3(1)] frame])
      qed
    qed
  qed
qed

lemma mkfs_layout:
  assumes "unat sz = n" "25 \<le> n"
  shows "layout_ok n (mkfs_superblock sz)" "vs_magic (mkfs_superblock sz) = VRFS_MAGIC" "unat (vs_data_block_start (mkfs_superblock sz)) = 19"
  using assms by (auto simp: layout_ok_def mkfs_superblock_def Let_def VRFS_MAX_INODES_def VRFS_MAX_BLOCKS_def word_less_nat_alt)

lemma mkfs_block_run:
  assumes "fs_wf s" "on_disk C dev n s" "objs s p \<noteq> None" "length bs = 512" "unat b < n"
  obtains s' where "mkfs_block (Some dev) b bs p s = Some (True, s')" "fs_wf s'" "on_disk C dev n s'" "objs s' = (objs s)(p \<mapsto> Buf bs)"
    "disk C s' = (disk C s)(unat b := bs)"
proof -
  have w: "fs_wf (put p (Buf bs) s)" using assms(1,3) by (intro fs_wf_put) auto
  have d: "on_disk C dev n (put p (Buf bs) s)" "objs (put p (Buf bs) s) p = Some (Buf bs)" using assms(2) by simp_all
  obtain s' where s': "write_from (Some dev) b p (put p (Buf bs) s) = Some (0, s')" "fs_wf s'" "on_disk C dev n s'"
    "objs s' = objs (put p (Buf bs) s)" "disk C s' = (disk C (put p (Buf bs) s))(unat b := bs)"
    by (rule write_from_run[OF w d assms(4,5)])
  then show ?thesis by (intro that[of s']) (simp_all add: mkfs_block_def Let_def)
qed

definition fresh_inodes :: bytes where "fresh_inodes = the (byte_set 0 (replicate 512 0))"
definition fresh_blocks :: bytes where "fresh_blocks = the (for_range 0 19 byte_set (replicate 512 0))"
definition root_block :: bytes where
  "root_block = splice 0 (vrfs_inode_bytes (zero_inode\<lparr>vi_mode := VRFS_INODE_DIR, vi_links := 2\<rparr>)) (replicate 512 0)"

lemma fresh_bitmaps:
  "byte_set 0 (replicate 512 0) = Some fresh_inodes" "length fresh_inodes = 512" "bytes_tst fresh_inodes j \<longleftrightarrow> j = 0"
  "for_range 0 19 byte_set (replicate 512 0) = Some fresh_blocks" "length fresh_blocks = 512" "bytes_tst fresh_blocks j \<longleftrightarrow> j < 19"
proof -
  have e: "bb.bits (replicate 512 0) = {}" by (auto simp: bb.bits_def bytes_tst_empty)
  have nb: "bytes_nbits (replicate 512 0) = 4096" by (simp add: bytes_nbits_def)
  from bb.setb_ex[of 0 "replicate 512 0"] obtain m where m: "byte_set 0 (replicate 512 0) = Some m" "bytes_nbits m = 4096" "bb.bits m = {0}"
    unfolding nb e by auto
  then show "byte_set 0 (replicate 512 0) = Some fresh_inodes" by (simp add: fresh_inodes_def)
  show "length fresh_inodes = 512" "bytes_tst fresh_inodes j \<longleftrightarrow> j = 0" using m by (auto simp: fresh_inodes_def bytes_nbits_def bb.bits_def)
  from bb.set_range[of 0 19 "replicate 512 0"] obtain k where k: "for_range 0 19 byte_set (replicate 512 0) = Some k"
    "bytes_nbits k = 4096" "bb.bits k = {0..<19}" unfolding nb e by auto
  then show "for_range 0 19 byte_set (replicate 512 0) = Some fresh_blocks" by (simp add: fresh_blocks_def)
  show "length fresh_blocks = 512" "bytes_tst fresh_blocks j \<longleftrightarrow> j < 19" using k by (auto simp: fresh_blocks_def bytes_nbits_def bb.bits_def)
qed

lemma root_ok: "inode_ok (zero_inode\<lparr>vi_mode := VRFS_INODE_DIR, vi_links := 2\<rparr>)"
  by (simp add: inode_ok_def zero_inode_def)

lemma length_root_block: "length root_block = 512"
  unfolding root_block_def by (subst length_splice) (simp_all add: length_inode_bytes[OF root_ok])

lemma mkfs_cases:
  assumes "fs_wf s" "on_disk C dev n s" "25 \<le> n" "sb = mkfs_superblock (bd_size (block_devices (blk s) ! dev))"
  obtains (none) "vrfs_mkfs (Some dev) s = Some (- 1, s)"
  | (some) s' where "vrfs_mkfs (Some dev) s = Some (0, s')" "fs_wf s'" "objs s' = objs s" "on_disk C dev n s'"
      "disk C s' = (disk C s)(0 := superblock_bytes sb, 1 := fresh_inodes, 2 := fresh_blocks, 3 := root_block)"
proof (cases rule: block_buf_cases[OF assms(1)])
  case 1
  then show ?thesis by (intro none) (simp add: vrfs_mkfs_def)
next
  case (2 p s1 buf)
  have d1: "on_disk C dev n s1" "disk C s1 = disk C s" "blk s1 = blk s" using same_env_disk[OF 2(7)] assms(2) 2(7) by (auto simp: same_env_def)
  have dev: "dev < length (block_devices (blk s))" "unat (bd_size (block_devices (blk s) ! dev)) = n" using assms(2) by (simp_all add: on_disk_def)
  have lay: "vs_inode_bitmap_block sb = 1" "vs_block_bitmap_block sb = 2" "vs_inode_table_block sb = 3" "unat (vs_data_block_start sb) = 19"
    using mkfs_layout[OF dev(2) assms(3)] by (simp_all add: assms(4) layout_ok_def)
  have lt: "unat (0 :: u32) < n" "unat (1 :: u32) < n" "unat (2 :: u32) < n" "unat (3 :: u32) < n" using assms(3) by simp_all
  have o1: "objs s1 p \<noteq> None" using 2(5) by simp
  obtain s2 where s2: "mkfs_block (Some dev) 0 (superblock_bytes sb) p s1 = Some (True, s2)" "fs_wf s2" "on_disk C dev n s2"
    "objs s2 = (objs s1)(p \<mapsto> Buf (superblock_bytes sb))" "disk C s2 = (disk C s1)(unat (0 :: u32) := superblock_bytes sb)"
    by (rule mkfs_block_run[OF 2(3) d1(1) o1 length_superblock_bytes lt(1)])
  have o2: "objs s2 p \<noteq> None" by (simp add: s2(4))
  obtain s3 where s3: "mkfs_block (Some dev) 1 fresh_inodes p s2 = Some (True, s3)" "fs_wf s3" "on_disk C dev n s3"
    "objs s3 = (objs s2)(p \<mapsto> Buf fresh_inodes)" "disk C s3 = (disk C s2)(unat (1 :: u32) := fresh_inodes)"
    by (rule mkfs_block_run[OF s2(2,3) o2 fresh_bitmaps(2) lt(2)])
  have o3: "objs s3 p \<noteq> None" by (simp add: s3(4))
  obtain s4 where s4: "mkfs_block (Some dev) 2 fresh_blocks p s3 = Some (True, s4)" "fs_wf s4" "on_disk C dev n s4"
    "objs s4 = (objs s3)(p \<mapsto> Buf fresh_blocks)" "disk C s4 = (disk C s3)(unat (2 :: u32) := fresh_blocks)"
    by (rule mkfs_block_run[OF s3(2,3) o3 fresh_bitmaps(5) lt(3)])
  have o4: "objs s4 p \<noteq> None" by (simp add: s4(4))
  obtain s5 where s5: "mkfs_block (Some dev) 3 root_block p s4 = Some (True, s5)" "fs_wf s5" "on_disk C dev n s5"
    "objs s5 = (objs s4)(p \<mapsto> Buf root_block)" "disk C s5 = (disk C s4)(unat (3 :: u32) := root_block)"
    by (rule mkfs_block_run[OF s4(2,3) o4 length_root_block lt(4)])
  have "objs s5 p \<noteq> None" by (simp add: s5(4))
  from free_obj_cases[OF s5(2) this] obtain s6 where s6: "free_obj p s5 = Some s6" "fs_wf s6" "objs s6 = (objs s5)(p := None)" "same_env s5 s6" by metis
  have "vrfs_mkfs (Some dev) s = Some (0, s6)"
    using 2(1,2) d1(3) dev(1) assms(4) s2(1) s3(1) s4(1) s5(1) s6(1) lay fresh_bitmaps(1,4)
    by (simp add: vrfs_mkfs_def Let_def root_block_def)
  moreover have "objs s6 = objs s" using s6(3) s5(4) s4(4) s3(4) s2(4) 2(4,5) by (auto simp: fun_eq_iff)
  moreover have "disk C s6 = (disk C s)(0 := superblock_bytes sb, 1 := fresh_inodes, 2 := fresh_blocks, 3 := root_block)"
    using same_env_disk[OF s6(4)] s5(5) s4(5) s3(5) s2(5) d1(2) by simp
  ultimately show ?thesis using s6(2) same_env_disk[OF s6(4)] s5(3) by (intro some[of s6]) auto
qed


section \<open>Removing a file\<close>

text \<open>Every name has at most one entry.\<close>

definition names_unique :: "bytes \<Rightarrow> bool" where
  "names_unique bs \<longleftrightarrow> (\<forall>j<16. \<forall>k<16. \<forall>m. c_string m \<longrightarrow> entry_no bs j \<noteq> 0 \<longrightarrow> entry_no bs k \<noteq> 0 \<longrightarrow>
     dirent_match (entry_name bs j) m \<longrightarrow> dirent_match (entry_name bs k) m \<longrightarrow> j = k)"

lemma dir_map_remove:
  assumes "length bs = 512" "find_dirent bs name = Some i" "names_unique bs" "c_string name" "c_string m"
  shows "dir_map (splice (32 * i) (le32 0 @ replicate 28 0) bs) m = (if dirent_match (entry_name bs i) m then None else dir_map bs m)"
proof -
  let ?new = "le32 0 @ replicate 28 0" let ?bs = "splice (32 * i) ?new bs"
  let ?P = "\<lambda>bs m j. entry_no bs j \<noteq> 0 \<and> dirent_match (entry_name bs j) m"
  have i: "i < 16" "?P bs name i" using find_first_SomeD[OF assms(2)[unfolded find_dirent_def]] by auto
  have l: "length ?new = 32" "32 * i + 32 \<le> length bs" using assms(1) i(1) by auto
  note other = entry_other[of ?new i bs, unfolded l(1), OF _ l(2)]
  have z: "entry_no ?bs i = 0"
  proof -
    have "entry_no ?bs i = of_le32 ?new" unfolding entry_slice slice_same[OF l] ..
    then show ?thesis by simp
  qed
  have oth: "?P ?bs m j \<longleftrightarrow> ?P bs m j" "entry_no ?bs j = entry_no bs j" if "j \<noteq> i" for j using other[of j] that by simp_all
  show ?thesis
  proof (cases "dirent_match (entry_name bs i) m")
    case True
    have "\<not> ?P ?bs m j" if "j < 16" for j
    proof (cases "j = i")
      case False
      then show ?thesis using oth(1)[OF False] assms(3,5) True i that unfolding names_unique_def by blast
    qed (simp add: z)
    then have "find_dirent ?bs m = None" by (simp add: find_dirent_def find_first_None)
    then show ?thesis using True by (simp add: dir_map_def)
  next
    case False
    have eq: "?P ?bs m j \<longleftrightarrow> ?P bs m j" for j using False z oth(1)[of j] by (cases "j = i") auto
    have "find_dirent ?bs m = find_dirent bs m" unfolding find_dirent_def by (rule find_first_cong) (use eq in simp)
    moreover have "entry_no ?bs j = entry_no bs j" if "find_dirent bs m = Some j" for j
    proof -
      have "?P bs m j" using find_first_SomeD[OF that[unfolded find_dirent_def]] by simp
      then show ?thesis using oth(2) False by (cases "j = i") auto
    qed
    ultimately show ?thesis using False by (auto simp: dir_map_def intro!: option.map_cong0)
  qed
qed

text \<open>
  Removing a file from a directory whose names are unique: a name that is not there, and a lack of memory, give -1 and
  change nothing. Otherwise the result is 0 and the entry is gone: the strings that named it
  are no longer found, and every other name is found as before. No other block of the disk changes: the inode
  and the data of the file stay allocated.
\<close>
theorem vrfs_unlink_correct:
  assumes "fs_wf s" "mounted C dev n sbi i ib bb s" "vrfs_node s c sbi x w"
    and "b = vi_direct (ii_disk w) ! 0" "b \<noteq> 0" "unat b < n" "names_unique (disk C s (unat b))" "c_string name"
  shows "\<exists>r s'. vrfs_unlink c name s = Some (r, s') \<and> fs_wf s' \<and> objs s' = objs s \<and>
    (r = - 1 \<and> disk C s' = disk C s \<or>
     r = 0 \<and> dir_map (disk C s (unat b)) name \<noteq> None \<and> dir_map (disk C s' (unat b)) name = None \<and>
     (\<exists>e. find_dirent (disk C s (unat b)) name = Some e \<and>
       (\<forall>m. c_string m \<longrightarrow> \<not> dirent_match (entry_name (disk C s (unat b)) e) m \<longrightarrow>
          dir_map (disk C s' (unat b)) m = dir_map (disk C s (unat b)) m)) \<and>
     (\<forall>k. k \<noteq> unat b \<longrightarrow> disk C s' k = disk C s k))"
proof -
  have m: "sbi \<noteq> NULL" "objs s sbi = Some (Vrfs_sb i)" "si_bdev i = Some dev" "on_disk C dev n s"
    using assms(2) by (simp_all add: mounted_def)
  have x: "c \<noteq> NULL" "objs s c = Some (Inode x)" "i_private x \<noteq> NULL" "objs s (i_private x) = Some (Vrfs_info w)"
    "sbi_of x s = Some sbi" "0 < length (vi_direct (ii_disk w))"
    using assms(3) vrfs_node_sbi[OF assms(3)] by (auto simp: vrfs_node_def inode_ok_def)
  let ?D = "disk C s (unat b)"
  have len: "length ?D = 512" by (rule disk_length[OF m(4) assms(6)])
  show ?thesis
  proof (cases rule: block_buf_cases[OF assms(1)])
    case 1
    then have "vrfs_unlink c name s = Some (- 1, s)" using x m(1) assms(4,5) by (simp add: vrfs_unlink_def at_obj)
    then show ?thesis using assms(1) by auto
  next
    case (2 p s1 buf)
    have d1: "on_disk C dev n s1" "disk C s1 = disk C s" using same_env_disk[OF 2(7)] m(4) by auto
    have o1: "objs s1 p = Some (Buf buf)" using 2(5) by simp
    obtain s2 where s2: "read_into (Some dev) b p s1 = Some (0, s2)" "fs_wf s2" "on_disk C dev n s2"
      "objs s2 = (objs s1)(p \<mapsto> Buf (disk C s1 (unat b)))" "disk C s2 = disk C s1"
      by (rule read_into_run[OF 2(3) d1(1) o1 2(6) assms(6)]) blast
    have "sbi \<noteq> p" using 2(4) m(2) by auto
    then have v1: "vsb_at s1 sbi = Some i" using 2(5) m(2) by (simp add: at_obj)
    have o2: "buf_at s2 p = Some ?D" using s2(4) d1(2) by (simp add: at_obj)
    have same: "objs t = objs s" if "objs t = (objs u)(p := None)" "objs u = (objs s1)(p \<mapsto> y)" for t u y
      using that 2(4,5) by (auto simp: fun_eq_iff)
    show ?thesis
    proof (cases "find_dirent ?D name")
      case None
      have "objs s2 p \<noteq> None" by (simp add: s2(4))
      from free_obj_cases[OF s2(2) this] obtain s3 where s3: "free_obj p s2 = Some s3" "fs_wf s3" "objs s3 = (objs s2)(p := None)" "same_env s2 s3" by metis
      have "vrfs_unlink c name s = Some (- 1, s3)"
        using x m(1,3) assms(4,5) 2(1,2) v1 s2(1) o2 s3(1) len None by (simp add: vrfs_unlink_def at_obj del: at_simps)
      then show ?thesis using s3(2) same[OF s3(3) s2(4)] same_env_disk[OF s3(4), where C = C] s2(5) d1(2) by auto
    next
      case (Some e)
      have e: "e < 16" "dirent_match (entry_name ?D e) name" using find_first_SomeD[OF Some[unfolded find_dirent_def]] by auto
      let ?nb = "splice (32 * e) (le32 0 @ replicate 28 0) ?D"
      have ln: "length ?nb = 512" using len e by (simp add: length_splice)
      let ?s3 = "put p (Buf ?nb) s2"
      have w3: "fs_wf ?s3" by (rule fs_wf_put[OF s2(2)]) (simp add: s2(4))
      obtain s4 where s4: "write_from (Some dev) b p ?s3 = Some (0, s4)" "fs_wf s4" "on_disk C dev n s4"
        "objs s4 = objs ?s3" "disk C s4 = (disk C ?s3)(unat b := ?nb)"
        by (rule write_from_run[OF w3, of C dev n p ?nb b]) (use s2(3) ln assms(6) in auto)
      have "objs s4 p \<noteq> None" by (simp add: s4(4))
      from free_obj_cases[OF s4(2) this] obtain s5 where s5: "free_obj p s4 = Some s5" "fs_wf s5" "objs s5 = (objs s4)(p := None)" "same_env s4 s5" by metis
      have run: "vrfs_unlink c name s = Some (0, s5)"
        using x m(1,3) assms(4,5) 2(1,2) v1 s2(1) o2 s4(1) s5(1) len Some by (simp add: vrfs_unlink_def at_obj Let_def del: at_simps)
      have os: "objs s5 = objs s" by (rule same[OF s5(3)]) (simp add: s4(4) s2(4))
      have d5: "disk C s5 = (disk C s)(unat b := ?nb)" using same_env_disk[OF s5(4), where C = C] s4(5) s2(5) d1(2) by simp
      note dm = dir_map_remove[OF len Some assms(7,8)]
      have "dir_map ?D name \<noteq> None" using Some by (simp add: dir_map_def)
      moreover have "dir_map (disk C s5 (unat b)) name = None" using dm[OF assms(8)] e(2) by (simp add: d5)
      moreover have "\<forall>m. c_string m \<longrightarrow> \<not> dirent_match (entry_name ?D e) m \<longrightarrow> dir_map (disk C s5 (unat b)) m = dir_map ?D m"
        using dm by (simp add: d5)
      ultimately show ?thesis using run os s5(2) Some d5 by (intro exI[of _ 0] exI[of _ s5]) auto
    qed
  qed
qed

section \<open>What the layout gets wrong\<close>

text \<open>
  C17. The inode table has room for 96 inodes only: the first data block, which is the first block
  that a newly made file system hands out, is also the place of inodes 96 to 101 of its 128.
\<close>
theorem vrfs_inode_table_overlap:
  assumes "fs_wf s" "mounted C dev n sbi i ib bb s" "\<forall>j. bytes_tst bb j \<longleftrightarrow> j < 19" "vs_free_blocks (si_sb i) \<noteq> 0"
    and "20 \<le> unat (vs_block_count (si_sb i))" "96 \<le> unat no" "unat no < 102"
  shows "\<exists>s'. vrfs_alloc_block sbi s = Some (19, s') \<and> unat (inode_block (si_sb i) no) = 19 \<and> no < vs_inode_count (si_sb i)"
proof -
  have lay: "layout_ok n (si_sb i)" using assms(2) by (simp add: mounted_def)
  have "unat no div 6 = 16" using assms(6,7) by (intro div_nat_eqI) simp_all
  then have "unat (inode_block (si_sb i) no) = 19" using inode_place(2)[OF lay, of no] assms(7) by simp
  moreover have "no < vs_inode_count (si_sb i)" using lay assms(7) by (simp add: layout_ok_def word_less_nat_alt)
  moreover have "\<exists>s'. vrfs_alloc_block sbi s = Some (19, s')"
  proof (cases rule: alloc_block_cases[OF assms(1,2)])
    case 1
    then show ?thesis using assms(3-5) by (auto dest: spec[of _ 19])
  next
    case (2 k s' i' bb')
    have "k = 19" using 2(3,4) assms(3) by (metis linorder_neqE_nat nless_le)
    with 2(1) show ?thesis by auto
  qed
  ultimately show ?thesis by blast
qed

text \<open>A name of 28 bytes or more is cut when it is stored, and the stored entry does not match it.\<close>

lemma vrfs_long_name:
  assumes "c_string name" "28 \<le> length name"
  shows "\<not> dirent_match (take 27 name @ 0 # rest) name"
proof
  assume "dirent_match (take 27 name @ 0 # rest) name"
  then have "name = take 27 name" using dirent_match_iff[of name "take 27 name" rest] assms(1) by simp
  then have "length name = min (length name) 27" by (metis length_take)
  with assms(2) show False by simp
qed

section \<open>A mounted file system\<close>

text \<open>
  A device of 100 blocks, all zero, and a file system on it with a root directory (\<open>cell 10\<close>), whose block is
  block 20, and an empty file (\<open>cell 16\<close>, inode 1), which is open.
\<close>

definition ram_block :: "(nat \<Rightarrow> bytes) \<Rightarrow> nat \<Rightarrow> bytes" where
  "ram_block d k = take 512 (d k @ replicate 512 0)"

definition ram_device :: "(nat \<Rightarrow> bytes) block_device" where
  "ram_device = \<lparr>bd_name = [], bd_in_use = True, bd_size = 100, bd_read = Some (\<lambda>b buf d. Some (0, ram_block d (unat b), d)),
     bd_write = Some (\<lambda>b buf d. Some (0, d(unat b := buf))), bd_private = NULL\<rparr>"

definition sample_vrfs :: "(nat \<Rightarrow> bytes) fs" where
  "sample_vrfs = \<lparr>fs_heap = used_heap 20, objs = [
     cell 10 \<mapsto> Inode ((fresh_inode 0 (cell 12))\<lparr>i_type := 2, i_private := cell 11, i_iop := Vrfs_ops, i_fop := Vrfs_ops\<rparr>),
     cell 11 \<mapsto> Vrfs_info \<lparr>ii_disk = zero_inode\<lparr>vi_mode := 2, vi_direct := 20 # replicate 11 0\<rparr>, ii_no = 0\<rparr>,
     cell 12 \<mapsto> Superblock \<lparr>sb_magic = 0, sb_block_size = 512, sb_max_files = 0, sb_private = cell 13, sb_root = NULL, sb_root_inode = cell 10\<rparr>,
     cell 13 \<mapsto> Vrfs_sb \<lparr>si_sb = mkfs_superblock 100, si_bdev = Some 0, si_inode_bitmap = cell 14, si_block_bitmap = cell 15\<rparr>,
     cell 14 \<mapsto> Buf fresh_inodes,
     cell 15 \<mapsto> Buf fresh_blocks,
     cell 16 \<mapsto> Inode ((fresh_inode 1 (cell 12))\<lparr>i_private := cell 17, i_iop := Vrfs_ops, i_fop := Vrfs_ops\<rparr>),
     cell 17 \<mapsto> Vrfs_info \<lparr>ii_disk = zero_inode\<lparr>vi_mode := 1\<rparr>, ii_no = 1\<rparr>,
     cell 18 \<mapsto> File \<lparr>f_inode = cell 16, f_flags = 0, f_pos = 0, f_ref_count = 1, f_op = Vrfs_ops, f_private = NULL\<rparr>],
     junk = (\<lambda>_ _. 0xA5A5A5A5), fresh = 20, next_ino = 4, root_sb = NULL, mount_table = [], random_seed = 12345,
     blk = \<lparr>block_devices = [ram_device], bd_hw = (\<lambda>_. [])\<rparr>\<rparr>"

lemma sample_vrfs_objs:
  "objs sample_vrfs (cell 10) = Some (Inode ((fresh_inode 0 (cell 12))\<lparr>i_type := 2, i_private := cell 11, i_iop := Vrfs_ops, i_fop := Vrfs_ops\<rparr>))"
  "objs sample_vrfs (cell 11) = Some (Vrfs_info \<lparr>ii_disk = zero_inode\<lparr>vi_mode := 2, vi_direct := 20 # replicate 11 0\<rparr>, ii_no = 0\<rparr>)"
  "objs sample_vrfs (cell 12) = Some (Superblock \<lparr>sb_magic = 0, sb_block_size = 512, sb_max_files = 0, sb_private = cell 13, sb_root = NULL, sb_root_inode = cell 10\<rparr>)"
  "objs sample_vrfs (cell 13) = Some (Vrfs_sb \<lparr>si_sb = mkfs_superblock 100, si_bdev = Some 0, si_inode_bitmap = cell 14, si_block_bitmap = cell 15\<rparr>)"
  "objs sample_vrfs (cell 14) = Some (Buf fresh_inodes)"
  "objs sample_vrfs (cell 15) = Some (Buf fresh_blocks)"
  "objs sample_vrfs (cell 16) = Some (Inode ((fresh_inode 1 (cell 12))\<lparr>i_private := cell 17, i_iop := Vrfs_ops, i_fop := Vrfs_ops\<rparr>))"
  "objs sample_vrfs (cell 17) = Some (Vrfs_info \<lparr>ii_disk = zero_inode\<lparr>vi_mode := 1\<rparr>, ii_no = 1\<rparr>)"
  "objs sample_vrfs (cell 18) = Some (File \<lparr>f_inode = cell 16, f_flags = 0, f_pos = 0, f_ref_count = 1, f_op = Vrfs_ops, f_private = NULL\<rparr>)"
  by (simp_all add: sample_vrfs_def cells)

lemma sample_vrfs_wf: "fs_wf sample_vrfs"
proof -
  have "dom (objs sample_vrfs) \<subseteq> cell ` {0..<20}" by (auto simp: sample_vrfs_def split: if_splits)
  then show ?thesis using used_heap_wf[of 20] used_cells[of 20]
    by (auto simp: fs_wf_def heap.store_ok_def sample_vrfs_def)
qed

lemma ram_driver:
  "disk_driver ram_block (\<lambda>d. True) n (\<lambda>b buf d. Some (0, ram_block d (unat b), d)) (\<lambda>b buf d. Some (0, d(unat b := buf)))"
proof -
  have "ram_block (d(b := buf)) = (ram_block d)(b := buf)" if "length buf = 512" for d b buf
    using that by (auto simp: ram_block_def fun_eq_iff)
  moreover have "length (ram_block d k) = 512" for d k by (simp add: ram_block_def min_def)
  ultimately show ?thesis by (simp add: disk_driver_def)
qed

lemma sample_disk: "on_disk ram_block 0 100 sample_vrfs"
  using ram_driver[of 100] unfolding on_disk_def by (auto simp: sample_vrfs_def ram_device_def intro: exI[of _ "\<lambda>d. True"])

lemma sample_mounted:
  "mounted ram_block 0 100 (cell 13) \<lparr>si_sb = mkfs_superblock 100, si_bdev = Some 0, si_inode_bitmap = cell 14, si_block_bitmap = cell 15\<rparr>
     fresh_inodes fresh_blocks sample_vrfs"
  using mkfs_layout(1)[of 100 100] sample_disk fresh_bitmaps(2,5) by (simp add: mounted_def sample_vrfs_objs cells)

lemma sample_dir:
  "vrfs_node sample_vrfs (cell 10) (cell 13) ((fresh_inode 0 (cell 12))\<lparr>i_type := 2, i_private := cell 11, i_iop := Vrfs_ops, i_fop := Vrfs_ops\<rparr>)
     \<lparr>ii_disk = zero_inode\<lparr>vi_mode := 2, vi_direct := 20 # replicate 11 0\<rparr>, ii_no = 0\<rparr>"
  by (simp add: vrfs_node_def sample_vrfs_objs cells fresh_inode_def inode_ok_def zero_inode_def)

lemma sample_file:
  "vrfs_node sample_vrfs (cell 16) (cell 13) ((fresh_inode 1 (cell 12))\<lparr>i_private := cell 17, i_iop := Vrfs_ops, i_fop := Vrfs_ops\<rparr>)
     \<lparr>ii_disk = zero_inode\<lparr>vi_mode := 1\<rparr>, ii_no = 1\<rparr>"
  by (simp add: vrfs_node_def sample_vrfs_objs cells fresh_inode_def inode_ok_def zero_inode_def)

lemma sample_dir_empty: "dir_map (disk ram_block sample_vrfs 20) name = None"
proof -
  have "disk ram_block sample_vrfs 20 = replicate 512 0" by (simp add: disk_def sample_vrfs_def ram_block_def)
  moreover have zero: "of_le32 xs = 0" if "set xs \<subseteq> {0}" for xs
    using that by (induction xs rule: of_le32.induct) auto
  have "of_le32 (replicate k 0) = 0" for k by (rule zero) auto
  then have "entry_no (replicate 512 0) j = 0" for j
    by (simp add: entry_no_def word_at_def)
  ultimately show ?thesis by (simp add: dir_map_def find_dirent_def find_first_None)
qed




lemma vrfs_unlink_correct_witness:
  "\<exists>r s'. vrfs_unlink (cell 10) [97] sample_vrfs = Some (r, s') \<and> fs_wf s' \<and> r = - 1"
proof -
  have "names_unique (disk ram_block sample_vrfs (unat (20 :: u32)))"
    using sample_dir_empty unfolding names_unique_def by (auto simp: dir_map_def find_dirent_def find_first_None)
  with vrfs_unlink_correct[OF sample_vrfs_wf sample_mounted sample_dir, of 20 "[97]"] sample_dir_empty[of "[97]"]
  show ?thesis by (auto simp: c_string_def)
qed

lemma vrfs_inode_table_overlap_witness:
  "\<exists>s'. vrfs_alloc_block (cell 13) sample_vrfs = Some (19, s') \<and> unat (inode_block (mkfs_superblock 100) 96) = 19"
proof -
  have f: "\<forall>j. bytes_tst fresh_blocks j \<longleftrightarrow> j < 19" using fresh_bitmaps(6) by blast
  have "vs_free_blocks (mkfs_superblock 100) \<noteq> 0" "20 \<le> unat (vs_block_count (mkfs_superblock 100))"
    by (simp_all add: mkfs_superblock_def Let_def VRFS_MAX_BLOCKS_def VRFS_MAX_INODES_def)
  with vrfs_inode_table_overlap[OF sample_vrfs_wf sample_mounted f, of 96] show ?thesis by auto
qed

end
