(* ===== verification/Mount.thy ===== *)
theory Mount
  imports Vrfs
begin

text \<open>
  The mount table (\<open>src/src/fs/mount.c\<close>): eight places, each with a path, the superblock of a mounted
  VRFS and its device. Paths are compared as strings.
\<close>

section \<open>Operations\<close>

definition mount_init :: "'d fs \<Rightarrow> 'd fs option" where
  "mount_init s = for_range 0 MAX_MOUNT_POINTS (\<lambda>i s. do {
     m \<leftarrow> arr_get (mount_table s) i;
     t \<leftarrow> arr_set (mount_table s) i (m\<lparr>mp_in_use := False, mp_sb := NULL, mp_bdev := None\<rparr>);
     Some (s\<lparr>mount_table := t\<rparr>)
   }) s"

definition mounted_at :: "mount_point list \<Rightarrow> cstring \<Rightarrow> nat \<Rightarrow> bool" where
  "mounted_at t path i \<longleftrightarrow> mp_in_use (t ! i) \<and> strcmp_eq (mp_path (t ! i)) path"

definition mount_fs :: "cstring \<Rightarrow> cstring \<Rightarrow> cstring \<Rightarrow> 'd fs \<Rightarrow> (int \<times> 'd fs) option" where
  "mount_fs device path fstype s =
     (if find_first 0 MAX_MOUNT_POINTS (mounted_at (mount_table s) path) \<noteq> None then Some (- 2, s)
      else (case find_first 0 MAX_MOUNT_POINTS (\<lambda>i. \<not> mp_in_use (mount_table s ! i)) of
          None \<Rightarrow> Some (- 1, s)
        | Some slot \<Rightarrow>
          (let bdev = blkdev_get device (blk s) in
           if bdev = None then Some (- 1, s)
           else if strcmp_eq fstype (cstr ''vrfs'')
           then do {
             (sb, s) \<leftarrow> vrfs_mount bdev s;
             if sb = NULL then Some (- 1, s)
             else do {
               t \<leftarrow> arr_set (mount_table s) slot
                 \<lparr>mp_path = strncpy_buf 256 path, mp_sb = sb, mp_bdev = bdev, mp_in_use = True\<rparr>;
               Some (0, s\<lparr>mount_table := t\<rparr>)
             }
           }
           else Some (- 1, s))))"

definition unmount_fs :: "cstring \<Rightarrow> 'd fs \<Rightarrow> (int \<times> 'd fs) option" where
  "unmount_fs path s = (case find_first 0 MAX_MOUNT_POINTS (mounted_at (mount_table s) path) of
     None \<Rightarrow> Some (- 1, s)
   | Some i \<Rightarrow> do {
       m \<leftarrow> arr_get (mount_table s) i;
       s \<leftarrow> (if mp_sb m \<noteq> NULL then do { (r, s) \<leftarrow> vrfs_unmount (mp_sb m) s; Some s } else Some s);
       t \<leftarrow> arr_set (mount_table s) i (m\<lparr>mp_in_use := False, mp_sb := NULL, mp_bdev := None\<rparr>);
       Some (0, s\<lparr>mount_table := t\<rparr>)
     })"

definition mount_get_sb :: "cstring \<Rightarrow> 'd fs \<Rightarrow> ptr" where
  "mount_get_sb path s = (case find_first 0 MAX_MOUNT_POINTS (mounted_at (mount_table s) path) of
     None \<Rightarrow> NULL
   | Some i \<Rightarrow> mp_sb (mount_table s ! i))"

section \<open>Mounting and unmounting\<close>

text \<open>The table as the operations leave it: a place in use has a superblock, and no path is there twice.\<close>

definition table_ok :: "mount_point list \<Rightarrow> bool" where
  "table_ok t \<longleftrightarrow> length t = 8 \<and> (\<forall>i<8. mp_in_use (t ! i) \<longrightarrow> mp_sb (t ! i) \<noteq> NULL) \<and>
     (\<forall>i<8. \<forall>j<8. mp_in_use (t ! i) \<longrightarrow> mp_in_use (t ! j) \<longrightarrow> mp_path (t ! i) = mp_path (t ! j) \<longrightarrow> i = j)"

lemma MAX_MOUNT_POINTS_simp [simp]: "MAX_MOUNT_POINTS = 8"
  by (simp add: MAX_MOUNT_POINTS_def)

text \<open>The operations of VRFS do not touch the table, nor the root of the VFS.\<close>

lemma new_obj_table: "new_obj sz mk s = Some (p, s') \<Longrightarrow> mount_table s' = mount_table s \<and> root_sb s' = root_sb s"
  by (auto simp: new_obj_def bind_eq_Some_conv split: if_splits prod.splits)

lemma free_obj_table: "free_obj p s = Some s' \<Longrightarrow> mount_table s' = mount_table s \<and> root_sb s' = root_sb s"
  by (auto simp: free_obj_def bind_eq_Some_conv)

lemma free_all_table: "free_all ps s = Some s' \<Longrightarrow> mount_table s' = mount_table s \<and> root_sb s' = root_sb s"
  by (induction ps arbitrary: s) (auto simp: bind_eq_Some_conv dest: free_obj_table)

lemma read_into_table: "read_into dev b p s = Some (r, s') \<Longrightarrow> mount_table s' = mount_table s \<and> root_sb s' = root_sb s"
  by (auto simp: read_into_def bind_eq_Some_conv split: prod.splits)

lemmas vrfs_table = new_obj_table free_obj_table free_all_table read_into_table

lemma load_bitmap_table: "load_bitmap dev b s = Some (p, s') \<Longrightarrow> mount_table s' = mount_table s \<and> root_sb s' = root_sb s"
  by (auto simp: load_bitmap_def new_buf_def bind_eq_Some_conv split: if_splits prod.splits dest!: vrfs_table)

lemma read_inode_table: "vrfs_read_inode sbi no s = Some (r, d, s') \<Longrightarrow> mount_table s' = mount_table s \<and> root_sb s' = root_sb s"
  by (auto simp: vrfs_read_inode_def new_buf_def bind_eq_Some_conv split: if_splits prod.splits dest!: vrfs_table)

lemma mount_root_table: "mount_root v b i sbi buf s = Some (p, s') \<Longrightarrow> mount_table s' = mount_table s \<and> root_sb s' = root_sb s"
  by (auto simp: mount_root_def new_inode_def new_info_def bind_eq_Some_conv Let_def split: if_splits prod.splits
      simp del: free_all.simps dest!: vrfs_table read_inode_table)

lemma mount_bitmaps_table: "mount_bitmaps dev sb sbi buf s = Some (p, s') \<Longrightarrow> mount_table s' = mount_table s \<and> root_sb s' = root_sb s"
  by (auto simp: mount_bitmaps_def new_superblock_def bind_eq_Some_conv Let_def split: if_splits prod.splits
      simp del: free_all.simps dest!: vrfs_table load_bitmap_table mount_root_table)

lemma vrfs_mount_table: "vrfs_mount dev s = Some (p, s') \<Longrightarrow> mount_table s' = mount_table s \<and> root_sb s' = root_sb s"
  by (auto simp: vrfs_mount_def new_buf_def new_vrfs_sb_def bind_eq_Some_conv Let_def split: if_splits prod.splits
      dest!: vrfs_table mount_bitmaps_table)

lemma vrfs_unmount_table: "vrfs_unmount p s = Some (r, s') \<Longrightarrow> mount_table s' = mount_table s \<and> root_sb s' = root_sb s"
  by (auto simp: vrfs_unmount_def bind_eq_Some_conv split: if_splits dest!: vrfs_table)

lemma mounted_at_iff: "mounted_at t path i \<longleftrightarrow> mp_in_use (t ! i) \<and> mp_path (t ! i) = path"
  by (simp add: mounted_at_def)

text \<open>What the table holds for a path: the place of the path, if there is one.\<close>

lemma get_sb_at:
  assumes "table_ok (mount_table s)" "i < 8" "mounted_at (mount_table s) path i"
  shows "find_first 0 8 (mounted_at (mount_table s) path) = Some i" "mount_get_sb path s = mp_sb (mount_table s ! i)"
proof -
  show f: "find_first 0 8 (mounted_at (mount_table s) path) = Some i"
  proof (rule find_first_least)
    fix j assume j: "j < i"
    then have "j < 8" "j \<noteq> i" using assms(2) by auto
    then show "\<not> mounted_at (mount_table s) path j" using assms unfolding table_ok_def mounted_at_iff by blast
  qed (use assms in auto)
  then show "mount_get_sb path s = mp_sb (mount_table s ! i)" by (simp add: mount_get_sb_def)
qed

lemma get_sb_none:
  assumes "table_ok (mount_table s)"
  shows "mount_get_sb path s = NULL \<longleftrightarrow> (\<forall>i<8. \<not> mounted_at (mount_table s) path i)"
proof (cases "find_first 0 8 (mounted_at (mount_table s) path)")
  case None
  then have "mount_get_sb path s = NULL" by (simp add: mount_get_sb_def)
  with None show ?thesis unfolding find_first_None by simp
next
  case (Some i)
  note i = find_first_SomeD[OF Some]
  then show ?thesis using get_sb_at[OF assms i(1,2)] assms by (auto simp: table_ok_def mounted_at_iff)
qed

text \<open>Changing one place of the table changes what the paths before and after it give, and no other.\<close>

lemma get_sb_other:
  assumes "length (mount_table s) = 8" "i < 8" "\<not> mounted_at (mount_table s) path i" "\<not> (mp_in_use m \<and> mp_path m = path)"
    and "mount_table s' = (mount_table s)[i := m]"
  shows "mount_get_sb path s' = mount_get_sb path s"
proof -
  have eq: "mounted_at (mount_table s') path j \<longleftrightarrow> mounted_at (mount_table s) path j" if "j < 8" for j
    using assms that by (cases "j = i") (auto simp: mounted_at_iff)
  have "find_first 0 8 (mounted_at (mount_table s') path) = find_first 0 8 (mounted_at (mount_table s) path)"
    by (rule find_first_cong) (use eq in simp)
  moreover have "mount_table s' ! j = mount_table s ! j" if "find_first 0 8 (mounted_at (mount_table s) path) = Some j" for j
    using find_first_SomeD[OF that] assms(3,5) by (cases "j = i") auto
  ultimately show ?thesis by (auto simp: mount_get_sb_def split: option.splits)
qed

text \<open>The table with the file system \<open>sb\<close> put in the free place \<open>slot\<close>.\<close>

lemma mount_slot:
  fixes b :: "nat option"
  assumes "table_ok (mount_table s)" "mount_get_sb path s = NULL" "length path < 256" "sb \<noteq> NULL"
    and "find_first 0 8 (\<lambda>i. \<not> mp_in_use (mount_table s ! i)) = Some slot" "mount_table t = mount_table s"
  defines "s' \<equiv> t\<lparr>mount_table := (mount_table t)[slot := \<lparr>mp_path = strncpy_buf 256 path, mp_sb = sb, mp_bdev = b, mp_in_use = True\<rparr>]\<rparr>"
  shows "table_ok (mount_table s')" "mount_get_sb path s' = sb" "p \<noteq> path \<Longrightarrow> mount_get_sb p s' = mount_get_sb p s"
proof -
  note sl = find_first_SomeD[OF assms(5)]
  let ?m = "\<lparr>mp_path = path, mp_sb = sb, mp_bdev = b, mp_in_use = True\<rparr>"
  have t': "mount_table s' = (mount_table s)[slot := ?m]"
    using assms(6) strncpy_buf_id[OF assms(3)] by (simp add: s'_def)
  have len: "length (mount_table s) = 8" using assms(1) by (simp add: table_ok_def)
  have nm: "\<not> mounted_at (mount_table s) path j" if "j < 8" for j using get_sb_none[OF assms(1), of path] assms(2) that by simp
  show ok: "table_ok (mount_table s')"
    using assms(1) sl(1) len nm assms(4) unfolding t' by (auto simp: table_ok_def nth_list_update mounted_at_iff)
  have at: "mounted_at (mount_table s') path slot" unfolding t' using sl(1) len by (simp add: mounted_at_iff)
  show "mount_get_sb path s' = sb" using get_sb_at(2)[OF ok sl(1) at] sl(1) len by (simp add: t')
  show "mount_get_sb p s' = mount_get_sb p s" if "p \<noteq> path"
    by (rule get_sb_other[OF len sl(1) _ _ t']) (use sl(2) that in \<open>auto simp: mounted_at_iff\<close>)
qed

text \<open>A device that holds a file system \<open>vrfs_mkfs\<close> can have made: its first block is a superblock with the usual layout.\<close>

definition vrfs_device :: "('d \<Rightarrow> nat \<Rightarrow> bytes) \<Rightarrow> nat \<Rightarrow> 'd fs \<Rightarrow> bool" where
  "vrfs_device C d s \<longleftrightarrow> (\<exists>n sb. on_disk C d n s \<and> layout_ok n sb \<and> disk C s 0 = superblock_bytes sb \<and> vs_magic sb = VRFS_MAGIC)"

text \<open>A superblock of a mounted file system, with the structures of the mount and its root directory.\<close>

definition vrfs_mounted :: "('d \<Rightarrow> nat \<Rightarrow> bytes) \<Rightarrow> nat \<Rightarrow> ptr \<Rightarrow> 'd fs \<Rightarrow> bool" where
  "vrfs_mounted C d p s \<longleftrightarrow> (\<exists>v x w i n ib bb. objs s p = Some (Superblock v) \<and>
     mounted C d n (sb_private v) i ib bb s \<and> vrfs_node s (sb_root_inode v) (sb_private v) x w \<and> ii_no w = 0 \<and>
     i_type x = VFS_DIRECTORY \<and> i_iop x = Vrfs_ops)"

lemma vrfs_mounted_table [simp]: "vrfs_mounted C d p (s\<lparr>mount_table := t\<rparr>) = vrfs_mounted C d p s"
  by (simp add: vrfs_mounted_def mounted_def vrfs_node_def on_disk_def)

lemma vrfs_mount_run:
  assumes "fs_wf s" "vrfs_device C d s"
  obtains (none) s' where "vrfs_mount (Some d) s = Some (NULL, s')" "fs_wf s'"
  | (some) p s' where "vrfs_mount (Some d) s = Some (p, s')" "p \<noteq> NULL" "fs_wf s'" "vrfs_mounted C d p s'"
      "\<forall>a. objs s a \<noteq> None \<longrightarrow> objs s' a = objs s a"
proof -
  from assms(2) obtain n sb where d: "on_disk C d n s" "layout_ok n sb" "disk C s 0 = superblock_bytes sb" "vs_magic sb = VRFS_MAGIC"
    by (auto simp: vrfs_device_def)
  show ?thesis
  proof (cases rule: mount_cases[OF assms(1) d])
    case (1 s')
    then show ?thesis by (rule none)
  next
    case (2 p s' i c x v sbi)
    have "vrfs_mounted C d p s'" unfolding vrfs_mounted_def using 2(5-11) by fastforce
    with 2 show ?thesis by (intro some[of p s']) simp_all
  qed
qed

text \<open>All that mounting can lead to.\<close>

lemma mount_fs_cases:
  assumes "fs_wf s" "table_ok (mount_table s)" "length path < 256"
    and dev: "\<forall>d. blkdev_get device (blk s) = Some d \<longrightarrow> vrfs_device C d s"
  obtains (fail) s' where "mount_fs device path fstype s = Some (if mount_get_sb path s \<noteq> NULL then - 2 else - 1, s')" "fs_wf s'"
      "mount_table s' = mount_table s"
  | (ok) s' d where "mount_fs device path fstype s = Some (0, s')" "fs_wf s'" "table_ok (mount_table s')" "mount_get_sb path s = NULL"
      "mount_get_sb path s' \<noteq> NULL" "\<And>p. p \<noteq> path \<Longrightarrow> mount_get_sb p s' = mount_get_sb p s"
      "fstype = cstr ''vrfs''" "blkdev_get device (blk s) = Some d" "vrfs_mounted C d (mount_get_sb path s') s'"
      "root_sb s' = root_sb s" "\<forall>a. objs s a \<noteq> None \<longrightarrow> objs s' a = objs s a"
proof (cases "find_first 0 8 (mounted_at (mount_table s) path)")
  case (Some i)
  then have "mount_get_sb path s \<noteq> NULL" using find_first_SomeD[OF Some] get_sb_none[OF assms(2)] by blast
  then show ?thesis using assms(1) Some by (intro fail[of s]) (simp_all add: mount_fs_def)
next
  case None
  then have free: "mount_get_sb path s = NULL" by (simp add: mount_get_sb_def)
  let ?slot = "find_first 0 8 (\<lambda>i. \<not> mp_in_use (mount_table s ! i))"
  show ?thesis
  proof (cases "?slot = None \<or> blkdev_get device (blk s) = None \<or> fstype \<noteq> cstr ''vrfs''")
    case True
    then show ?thesis using assms(1) None free
      by (intro fail[of s]) (auto simp: mount_fs_def Let_def split: option.splits)
  next
    case False
    then obtain slot d where slot: "?slot = Some slot" and d: "blkdev_get device (blk s) = Some d" and f: "fstype = cstr ''vrfs''" by auto
    show ?thesis
    proof (cases rule: vrfs_mount_run[OF assms(1) dev[rule_format, OF d]])
      case (1 s')
      then show ?thesis using None free slot d f vrfs_mount_table[OF 1(1)]
        by (intro fail[of s']) (auto simp: mount_fs_def Let_def)
    next
      case (2 p t)
      have t: "mount_table t = mount_table s" "root_sb t = root_sb s" using vrfs_mount_table[OF 2(1)] by simp_all
      let ?s = "t\<lparr>mount_table := (mount_table t)[slot := \<lparr>mp_path = strncpy_buf 256 path, mp_sb = p, mp_bdev = Some d, mp_in_use = True\<rparr>]\<rparr>"
      note ms = mount_slot[OF assms(2) free assms(3) 2(2) slot t(1), where b = "Some d"]
      have "slot < length (mount_table t)" using find_first_SomeD(1)[OF slot] assms(2) t(1) by (simp add: table_ok_def)
      then have run: "mount_fs device path fstype s = Some (0, ?s)"
        using None slot d f 2(1,2) by (simp add: mount_fs_def Let_def)
      show ?thesis
        by (rule ok[OF run _ ms(1) free _ ms(3) f d]) (use 2 ms(2) t(2) in simp_all)
    qed
  qed
qed

text \<open>
  Mounting: with a device that is there but holds a file system, \<open>mount_fs\<close> always ends. A path that
  is mounted already gives -2, and a missing device, an unknown type, a full table or a lack of memory -1,
  without a change of the table. Otherwise the result is 0, the path, which was not mounted, leads to a
  superblock whose root is the directory with inode 0, and every other path to what it led to before.
\<close>
theorem mount_fs_correct:
  assumes "fs_wf s" "table_ok (mount_table s)" "length path < 256"
    and "\<forall>d. blkdev_get device (blk s) = Some d \<longrightarrow> vrfs_device C d s"
  shows "\<exists>r s'. mount_fs device path fstype s = Some (r, s') \<and> fs_wf s' \<and> table_ok (mount_table s') \<and>
    (if r = 0 then fstype = cstr ''vrfs'' \<and> mount_get_sb path s = NULL \<and>
       (\<exists>d. blkdev_get device (blk s) = Some d \<and> vrfs_mounted C d (mount_get_sb path s') s') \<and>
       (\<forall>p. p \<noteq> path \<longrightarrow> mount_get_sb p s' = mount_get_sb p s)
     else r = (if mount_get_sb path s \<noteq> NULL then - 2 else - 1) \<and> mount_table s' = mount_table s)"
proof (cases rule: mount_fs_cases[OF assms, where fstype = fstype])
  case (1 s')
  have "(if mount_get_sb path s \<noteq> NULL then - 2 else - 1) \<noteq> (0 :: int)" by simp
  from if_not_P[OF this] 1 assms(2) show ?thesis by auto
next
  case (2 s' d)
  then show ?thesis by (intro exI[of _ 0] exI[of _ s']) auto
qed

lemma unmount_fs_result:
  assumes "table_ok (mount_table s)" "unmount_fs path s = Some (r, s')"
  shows "table_ok (mount_table s') \<and>
    (if mount_get_sb path s = NULL then r = - 1 \<and> s' = s
     else r = 0 \<and> mount_get_sb path s' = NULL \<and> (\<forall>p. p \<noteq> path \<longrightarrow> mount_get_sb p s' = mount_get_sb p s))"
proof (cases "find_first 0 8 (mounted_at (mount_table s) path)")
  case None
  then show ?thesis using assms by (simp add: unmount_fs_def mount_get_sb_def)
next
  case (Some i)
  note i = find_first_SomeD[OF Some]
  have len: "length (mount_table s) = 8" using assms(1) by (simp add: table_ok_def)
  have sb: "mount_get_sb path s \<noteq> NULL" using i get_sb_none[OF assms(1)] by blast
  let ?m = "(mount_table s ! i)\<lparr>mp_in_use := False, mp_sb := NULL, mp_bdev := None\<rparr>"
  have t': "mount_table s' = (mount_table s)[i := ?m]" and r: "r = 0"
    using assms(2) Some i(1) len
    by (auto simp: unmount_fs_def bind_eq_Some_conv split: if_splits prod.splits dest!: vrfs_unmount_table arr_set_SomeD)
  have ok: "table_ok (mount_table s')" using assms(1) i(1) len unfolding t' by (auto simp: table_ok_def nth_list_update)
  have "mount_get_sb path s' = NULL"
    unfolding get_sb_none[OF ok] using assms(1) i len unfolding t' by (auto simp: mounted_at_iff nth_list_update table_ok_def)
  moreover have "mount_get_sb p s' = mount_get_sb p s" if "p \<noteq> path" for p
    by (rule get_sb_other[OF len i(1) _ _ t']) (use i(2) that in \<open>auto simp: mounted_at_iff\<close>)
  ultimately show ?thesis using ok sb r by simp
qed

lemma free_all_run:
  "fs_wf s \<Longrightarrow> distinct ps \<Longrightarrow> \<forall>p\<in>set ps. objs s p \<noteq> None \<Longrightarrow>
   \<exists>s'. free_all ps s = Some s' \<and> fs_wf s' \<and> objs s' = (\<lambda>a. if a \<in> set ps then None else objs s a)"
proof (induction ps arbitrary: s)
  case (Cons p ps)
  have "objs s p \<noteq> None" using Cons.prems(3) by simp
  from free_obj_cases[OF Cons.prems(1) this] obtain s1 where
    s1: "free_obj p s = Some s1" "fs_wf s1" "objs s1 = (objs s)(p := None)" by metis
  have "\<forall>q\<in>set ps. objs s1 q \<noteq> None" using Cons.prems(2,3) s1(3) by auto
  from Cons.IH[OF s1(2) _ this] Cons.prems(2) s1(1,3) show ?case by (auto simp: fun_eq_iff)
qed auto

text \<open>Unmounting frees the bitmaps, the superblock and the root, but not the info of the root.\<close>

lemma vrfs_unmount_run:
  assumes "fs_wf s" "vrfs_mounted C d p s"
  obtains s' v x where "vrfs_unmount p s = Some (0, s')" "fs_wf s'" "sb_at s p = Some v" "inode_at s (sb_root_inode v) = Some x"
    "objs s (i_private x) \<noteq> None" "objs s' (i_private x) = objs s (i_private x)"
proof -
  from assms(2) obtain v x w i n ib bb where v: "objs s p = Some (Superblock v)"
    "mounted C d n (sb_private v) i ib bb s" "vrfs_node s (sb_root_inode v) (sb_private v) x w" unfolding vrfs_mounted_def by blast
  let ?ps = "[si_block_bitmap i, si_inode_bitmap i, sb_private v, sb_root_inode v, p]"
  have o: "objs s (sb_private v) = Some (Vrfs_sb i)" "objs s (si_inode_bitmap i) = Some (Buf ib)"
    "objs s (si_block_bitmap i) = Some (Buf bb)" "si_inode_bitmap i \<noteq> si_block_bitmap i"
    "objs s (sb_root_inode v) = Some (Inode x)" "objs s (i_private x) = Some (Vrfs_info w)"
    using v(2,3) by (simp_all add: mounted_def vrfs_node_def)
  have "distinct ?ps" "\<forall>q\<in>set ?ps. objs s q \<noteq> None" using o v(1) by auto
  from free_all_run[OF assms(1) this] obtain s' where
    s': "free_all ?ps s = Some s'" "fs_wf s'" "objs s' = (\<lambda>a. if a \<in> set ?ps then None else objs s a)" by blast
  have nn: "q \<noteq> NULL" if "objs s q \<noteq> None" for q using that fs_wf_NULL[OF assms(1)] by auto
  have "vrfs_unmount p s = do { s \<leftarrow> free_all ?ps s; Some (0, s) }"
    using o v(1) nn by (simp add: vrfs_unmount_def at_obj)
  then have "vrfs_unmount p s = Some (0, s')" using s'(1) by (simp del: free_all.simps)
  moreover have "i_private x \<notin> set ?ps" using o v(1) by auto
  ultimately show ?thesis using s'(2,3) v(1) o by (intro that[of s' v x]) simp_all
qed

text \<open>
  Unmounting a path where a file system is mounted gives 0; then the path leads nowhere, and every
  other path to what it led to before. The info of the root directory stays allocated, with nothing left
  that leads to it. A path that is not mounted gives -1 and changes nothing.
\<close>
theorem unmount_fs_correct:
  assumes "fs_wf s" "table_ok (mount_table s)"
    and "mount_get_sb path s \<noteq> NULL \<longrightarrow> vrfs_mounted C d (mount_get_sb path s) s"
  shows "if mount_get_sb path s = NULL then unmount_fs path s = Some (- 1, s)
    else (\<exists>s' v x. unmount_fs path s = Some (0, s') \<and> fs_wf s' \<and> table_ok (mount_table s') \<and> mount_get_sb path s' = NULL \<and>
      (\<forall>p. p \<noteq> path \<longrightarrow> mount_get_sb p s' = mount_get_sb p s) \<and>
      sb_at s (mount_get_sb path s) = Some v \<and> inode_at s (sb_root_inode v) = Some x \<and> objs s' (i_private x) \<noteq> None)"
proof (cases "find_first 0 8 (mounted_at (mount_table s) path)")
  case None
  then show ?thesis by (simp add: unmount_fs_def mount_get_sb_def)
next
  case (Some i)
  note i = find_first_SomeD[OF Some]
  have len: "length (mount_table s) = 8" using assms(2) by (simp add: table_ok_def)
  have sb: "mount_get_sb path s = mp_sb (mount_table s ! i)" using Some by (simp add: mount_get_sb_def)
  have ne: "mount_get_sb path s \<noteq> NULL" using i get_sb_none[OF assms(2)] by blast
  from vrfs_unmount_run[OF assms(1) assms(3)[rule_format, OF ne]] obtain t v x where
    t: "vrfs_unmount (mount_get_sb path s) s = Some (0, t)" "fs_wf t" "sb_at s (mount_get_sb path s) = Some v"
    "inode_at s (sb_root_inode v) = Some x" "objs t (i_private x) \<noteq> None" by metis
  have "length (mount_table t) = 8" using vrfs_unmount_table[OF t(1)] len by simp
  then obtain m where run: "unmount_fs path s = Some (0, t\<lparr>mount_table := m\<rparr>)"
    using Some i(1) len ne t(1) unfolding sb by (simp add: unmount_fs_def)
  from unmount_fs_result[OF assms(2) run] ne t show ?thesis
    unfolding if_not_P[OF ne] by (intro exI[of _ "t\<lparr>mount_table := m\<rparr>"] exI[of _ v] exI[of _ x]) (simp add: run)
qed

section \<open>A file system that is mounted, and one to mount\<close>

text \<open>
  The file system of \<open>Vrfs\<close> is mounted at \<open>/m\<close> (bytes 47, 109); the device \<open>a\<close> (byte 97) starts with
  a superblock.
\<close>

definition no_device :: "(nat \<Rightarrow> bytes) block_device" where
  "no_device = \<lparr>bd_name = [], bd_in_use = False, bd_size = 0, bd_read = None, bd_write = None, bd_private = NULL\<rparr>"

definition no_mount :: mount_point where
  "no_mount = \<lparr>mp_path = [], mp_sb = NULL, mp_bdev = None, mp_in_use = False\<rparr>"

definition sample_mounts :: "(nat \<Rightarrow> bytes) fs" where
  "sample_mounts = sample_vrfs\<lparr>
     mount_table := \<lparr>mp_path = [47, 109], mp_sb = cell 12, mp_bdev = Some 0, mp_in_use = True\<rparr> # replicate 7 no_mount,
     blk := \<lparr>block_devices = ram_device\<lparr>bd_name := [97]\<rparr> # replicate 7 no_device,
       bd_hw = (\<lambda>_. [])(0 := superblock_bytes (mkfs_superblock 100))\<rparr>\<rparr>"

lemma sample_mounts_objs: "objs sample_mounts = objs sample_vrfs"
  by (simp add: sample_mounts_def)

lemma sample_mounts_wf: "fs_wf sample_mounts"
  using sample_vrfs_wf by (simp add: sample_mounts_def fs_wf_def)

lemma sample_mounts_disk: "on_disk ram_block 0 100 sample_mounts"
  using ram_driver[of 100] unfolding on_disk_def by (auto simp: sample_mounts_def ram_device_def intro: exI[of _ "\<lambda>d. True"])

lemma sample_table: "table_ok (mount_table sample_mounts)"
proof -
  have "mp_in_use (mount_table sample_mounts ! i) \<longleftrightarrow> i = 0" if "i < 8" for i
    using that by (cases i) (simp_all add: sample_mounts_def no_mount_def)
  moreover have "mp_sb (mount_table sample_mounts ! 0) \<noteq> NULL" by (simp add: sample_mounts_def cells)
  ultimately show ?thesis by (auto simp: table_ok_def sample_mounts_def)
qed

lemma sample_device: "\<forall>d. blkdev_get device (blk sample_mounts) = Some d \<longrightarrow> vrfs_device ram_block d sample_mounts"
proof (intro allI impI)
  fix d
  assume "blkdev_get device (blk sample_mounts) = Some d"
  then have "d < 8" "bd_in_use (block_devices (blk sample_mounts) ! d)"
    unfolding blkdev_get_def MAX_BLOCK_DEVICES_simp using find_first_SomeD by blast+
  then have "d = 0" by (cases d) (simp_all add: sample_mounts_def no_device_def)
  moreover have "layout_ok 100 (mkfs_superblock 100)" "vs_magic (mkfs_superblock 100) = VRFS_MAGIC" using mkfs_layout[of 100 100] by simp_all
  moreover have "disk ram_block sample_mounts 0 = superblock_bytes (mkfs_superblock 100)"
    by (simp add: disk_def sample_mounts_def ram_block_def length_superblock_bytes)
  ultimately show "vrfs_device ram_block d sample_mounts" using sample_mounts_disk unfolding vrfs_device_def by blast
qed

lemma mount_fs_correct_witness:
  "\<exists>r s'. mount_fs [97] [47, 110] (cstr ''vrfs'') sample_mounts = Some (r, s') \<and>
     (r = 0 \<and> mount_get_sb [47, 110] s' \<noteq> NULL \<or> r = - 1 \<and> mount_table s' = mount_table sample_mounts)"
proof -
  have "find_first 0 8 (mounted_at (mount_table sample_mounts) [47, 110]) = None"
  proof -
    have "\<not> mounted_at (mount_table sample_mounts) [47, 110] i" if "i < 8" for i
      using that by (cases i) (simp_all add: sample_mounts_def no_mount_def mounted_at_iff)
    then show ?thesis by (simp add: find_first_None)
  qed
  then have free: "mount_get_sb [47, 110] sample_mounts = NULL" by (simp add: mount_get_sb_def)
  obtain r s' where run: "mount_fs [97] [47, 110] (cstr ''vrfs'') sample_mounts = Some (r, s')" "fs_wf s'"
      "if r = 0 then \<exists>d. vrfs_mounted ram_block d (mount_get_sb [47, 110] s') s' else r = - 1 \<and> mount_table s' = mount_table sample_mounts"
    using mount_fs_correct[OF sample_mounts_wf sample_table _ sample_device, of "[47, 110]" "[97]" "cstr ''vrfs''"] free
    by (auto split: if_splits simp del: cstr_simps) (metis+)?
  have "mount_get_sb [47, 110] s' \<noteq> NULL" if "r = 0" using run(3) that fs_wf_NULL[OF run(2)] by (auto simp: vrfs_mounted_def)
  with run show ?thesis by (auto split: if_splits)
qed

lemma sample_mounted_sb: "vrfs_mounted ram_block 0 (cell 12) sample_mounts"
proof -
  have m: "mounted ram_block 0 100 (cell 13) \<lparr>si_sb = mkfs_superblock 100, si_bdev = Some 0, si_inode_bitmap = cell 14, si_block_bitmap = cell 15\<rparr>
      fresh_inodes fresh_blocks sample_mounts"
    by (rule mounted_cong[OF sample_mounted sample_mounts_disk]) (simp add: sample_mounts_objs)
  have n: "vrfs_node sample_mounts (cell 10) (cell 13) ((fresh_inode 0 (cell 12))\<lparr>i_type := 2, i_private := cell 11, i_iop := Vrfs_ops, i_fop := Vrfs_ops\<rparr>)
      \<lparr>ii_disk = zero_inode\<lparr>vi_mode := 2, vi_direct := 20 # replicate 11 0\<rparr>, ii_no = 0\<rparr>"
    using sample_dir by (simp add: vrfs_node_def sample_mounts_objs)
  show ?thesis unfolding vrfs_mounted_def
    by (rule exI, rule exI, rule exI, rule exI, rule exI, rule exI, rule exI, rule conjI)
      (use m n sample_vrfs_objs(3) in \<open>auto simp: sample_mounts_objs fresh_inode_def\<close>)
qed

lemma unmount_fs_correct_witness:
  "\<exists>s'. unmount_fs [47, 109] sample_mounts = Some (0, s') \<and> table_ok (mount_table s') \<and> mount_get_sb [47, 109] s' = NULL"
proof -
  have m0: "mount_table sample_mounts ! 0 = \<lparr>mp_path = [47, 109], mp_sb = cell 12, mp_bdev = Some 0, mp_in_use = True\<rparr>"
    by (simp add: sample_mounts_def)
  have "find_first 0 8 (mounted_at (mount_table sample_mounts) [47, 109]) = Some 0"
    by (rule find_first_least) (simp_all add: m0 mounted_at_iff)
  then have p: "mount_get_sb [47, 109] sample_mounts = cell 12" using m0 by (simp add: mount_get_sb_def)
  from unmount_fs_correct[OF sample_mounts_wf sample_table, of "[47, 109]" ram_block 0] sample_mounted_sb p cell_NULL[of 12]
  show ?thesis by auto
qed

end
