(* ===== verification/Devfs.thy ===== *)
theory Devfs
  imports VfsCore
begin

text \<open>
  The device files (\<open>src/src/fs/devfs.c\<close>): \<open>null\<close>, \<open>zero\<close> and \<open>random\<close>, as directory entries under \<open>/dev\<close>
  in the tree of the VFS.
\<close>

section \<open>Devices\<close>

definition rand_next :: "u32 \<Rightarrow> u32 \<times> u32" where
  "rand_next seed = (let r = seed * 1103515245 + 12345 in ((r div 65536) mod 32768, r))"

definition dev_null_read :: "u32 \<Rightarrow> int \<times> bytes" where "dev_null_read sz = (0, [])"
definition dev_null_write :: "u32 \<Rightarrow> int" where "dev_null_write sz = sint sz"
definition dev_zero_read :: "u32 \<Rightarrow> int \<times> bytes" where "dev_zero_read sz = (sint sz, replicate (unat sz) 0)"
definition dev_zero_write :: "u32 \<Rightarrow> int" where "dev_zero_write sz = sint sz"

fun random_bytes :: "nat \<Rightarrow> u32 \<Rightarrow> bytes \<times> u32" where
  "random_bytes 0 seed = ([], seed)"
| "random_bytes (Suc n) seed =
     (let (r, seed) = rand_next seed; (bs, seed) = random_bytes n seed in (ucast (r AND 0xFF) # bs, seed))"

definition dev_random_read :: "u32 \<Rightarrow> 'd fs \<Rightarrow> int \<times> bytes \<times> 'd fs" where
  "dev_random_read sz s = (let (bs, seed) = random_bytes (unat sz) (random_seed s) in (sint sz, bs, s\<lparr>random_seed := seed\<rparr>))"

text \<open>A byte is a signed \<open>char\<close>, so it is sign-extended before it goes into the seed.\<close>

definition mix_seed :: "u8 \<Rightarrow> u32 \<Rightarrow> u32" where
  "mix_seed b seed = (let x = seed XOR scast b in push_bit 1 x OR drop_bit 31 x)"

definition dev_random_write :: "bytes \<Rightarrow> u32 \<Rightarrow> 'd fs \<Rightarrow> (int \<times> 'd fs) option" where
  "dev_random_write buffer sz s = do {
     require (unat sz \<le> length buffer);
     Some (sint sz, s\<lparr>random_seed := fold mix_seed (take (unat sz) buffer) (random_seed s)\<rparr>)
   }"

section \<open>Device files\<close>

definition devfs_open :: "ptr \<Rightarrow> ptr \<Rightarrow> int" where "devfs_open inode f = 0"
definition devfs_close :: "ptr \<Rightarrow> int" where "devfs_close f = 0"

definition devfs_read :: "ptr \<Rightarrow> u32 \<Rightarrow> u32 \<Rightarrow> 'd fs \<Rightarrow> (int \<times> bytes \<times> 'd fs) option" where
  "devfs_read f sz offset s = do {
     fl \<leftarrow> file_at s f;
     i \<leftarrow> inode_at s (f_inode fl);
     if i_private i = NULL then Some (0, [], s)
     else do {
       t \<leftarrow> dev_at s (i_private i);
       Some (case t of
           DEV_NULL \<Rightarrow> (let (r, bs) = dev_null_read sz in (r, bs, s))
         | DEV_ZERO \<Rightarrow> (let (r, bs) = dev_zero_read sz in (r, bs, s))
         | DEV_RANDOM \<Rightarrow> dev_random_read sz s)
     }
   }"

definition devfs_write :: "ptr \<Rightarrow> bytes \<Rightarrow> u32 \<Rightarrow> u32 \<Rightarrow> 'd fs \<Rightarrow> (int \<times> 'd fs) option" where
  "devfs_write f buffer sz offset s = do {
     fl \<leftarrow> file_at s f;
     i \<leftarrow> inode_at s (f_inode fl);
     if i_private i = NULL then Some (- 1, s)
     else do {
       t \<leftarrow> dev_at s (i_private i);
       case t of
         DEV_NULL \<Rightarrow> Some (dev_null_write sz, s)
       | DEV_ZERO \<Rightarrow> Some (dev_zero_write sz, s)
       | DEV_RANDOM \<Rightarrow> dev_random_write buffer sz s
     }
   }"

section \<open>Mounting\<close>

definition VFS_CHARDEVICE :: u32 where "VFS_CHARDEVICE = 0x03"

definition devfs_register_device :: "cstring \<Rightarrow> devfs_device_type \<Rightarrow> 'd fs \<Rightarrow> (int \<times> 'd fs) option" where
  "devfs_register_device name type s =
     (if vfs_get_root_sb s = NULL then Some (- 1, s)
      else do {
        dev_dir \<leftarrow> vfs_lookup (cstr ''/dev'') s;
        if dev_dir = NULL then Some (- 1, s)
        else do {
          (p, s) \<leftarrow> vfs_alloc_inode (vfs_get_root_sb s) s;
          if p = NULL then Some (- 1, s)
          else do {
            i \<leftarrow> inode_at s p;
            let i = i\<lparr>i_type := VFS_CHARDEVICE, i_mode := 0x1B6, i_fop := Devfs_ops\<rparr>;
            let s = put p (Inode i) s;
            (node, s) \<leftarrow> new_obj sizeof_devfs_node (\<lambda>_. Dev_node type) s;
            if node = NULL then do { s \<leftarrow> vfs_free_inode p s; Some (- 1, s) }
            else do {
              let s = put p (Inode (i\<lparr>i_private := node\<rparr>)) s;
              (d, s) \<leftarrow> vfs_alloc_dentry name p s;
              if d = NULL then do { s \<leftarrow> free_obj node s; s \<leftarrow> vfs_free_inode p s; Some (- 1, s) }
              else do { s \<leftarrow> add_child dev_dir d s; Some (0, s) }
            }
          }
        }
      })"

definition devfs_mount :: "'d fs \<Rightarrow> (int \<times> 'd fs) option" where
  "devfs_mount s = do {
     (r, s) \<leftarrow> mount_dir (cstr ''dev'') 0x1ED s;
     if r < 0 then Some (- 1, s)
     else do {
       (r, s) \<leftarrow> devfs_register_device (cstr ''null'') DEV_NULL s;
       (r, s) \<leftarrow> devfs_register_device (cstr ''zero'') DEV_ZERO s;
       (r, s) \<leftarrow> devfs_register_device (cstr ''random'') DEV_RANDOM s;
       Some (0, s)
     }
   }"

end
