(* ===== verification/Procfs.thy ===== *)
theory Procfs
  imports VfsCore Pmm Task
begin

text \<open>
  The process file system (\<open>src/src/fs/procfs.c\<close>): \<open>uptime\<close>, \<open>meminfo\<close> and \<open>tasks\<close> under \<open>/proc\<close>,
  whose text is made when they are read. The theory shows that the decimal numbers in it are right,
  that the text fits the buffer it is made in, and that a read gives the part of it asked for.
\<close>

section \<open>Numbers\<close>

text \<open>The digits of a number, the last one first, as the loop leaves them in \<open>temp\<close>.\<close>

fun temp_digits :: "nat \<Rightarrow> bytes" where
  "temp_digits num = (if num > 0 then of_nat (48 + num mod 10) # temp_digits (num div 10) else [])"

declare temp_digits.simps [simp del]

text \<open>\<open>num = -num\<close> is undefined for the smallest \<open>int\<close>.\<close>

definition int_to_str :: "int \<Rightarrow> cstring option" where
  "int_to_str num =
     (if num = 0 then Some [48]
      else if num < 0
      then do { require (num \<noteq> - (2 ^ 31)); Some (45 # rev (temp_digits (nat (- num)))) }
      else Some (rev (temp_digits (nat num))))"

definition uint32_to_str :: "u32 \<Rightarrow> cstring" where
  "uint32_to_str num = (if num = 0 then [48] else rev (temp_digits (unat num)))"

section \<open>The text of the files\<close>

text \<open>
  Each text is put together in a buffer from \<open>kmalloc\<close> with \<open>strcpy\<close> and \<open>strcat\<close>, which check no
  bound: a text that does not fit with its zero is an undefined execution.
\<close>

definition text_in_buffer :: "u32 \<Rightarrow> cstring \<Rightarrow> 'd fs \<Rightarrow> (ptr \<times> 'd fs) option" where
  "text_in_buffer sz content s = do {
     (p, s) \<leftarrow> new_buf sz s;
     if p = NULL then Some (NULL, s) else do { s \<leftarrow> copy_to p 0 (content @ [0]) s; Some (p, s) }
   }"

definition uptime_text :: "u32 \<Rightarrow> cstring" where
  "uptime_text timer_ticks = cstr ''Uptime: '' @ uint32_to_str (timer_ticks div 18) @ cstr '' seconds'' @ [10]"

definition meminfo_text :: "pmm \<Rightarrow> cstring" where
  "meminfo_text m =
     (let total_blocks = pmm_get_total_blocks m; used_blocks = pmm_get_used_blocks m in
      cstr ''Memory Information:'' @ [10] @
      (if total_blocks = 0 \<or> total_blocks > 1000000 then cstr ''  Error: Invalid memory data'' @ [10]
       else
         (let used_blocks = (if used_blocks > total_blocks then total_blocks else used_blocks);
              free_blocks = total_blocks - used_blocks in
          cstr ''  Total blocks:  '' @ uint32_to_str total_blocks @ [10] @
          cstr ''  Used blocks:   '' @ uint32_to_str used_blocks @ [10] @
          cstr ''  Free blocks:   '' @ uint32_to_str free_blocks @ [10] @
          cstr ''  (1 block = 4KB)'' @ [10])))"

definition state_name :: "task_state \<Rightarrow> cstring" where
  "state_name st = (case st of
     TASK_RUNNING \<Rightarrow> cstr ''Running''
   | TASK_READY \<Rightarrow> cstr ''Ready''
   | TASK_BLOCKED \<Rightarrow> cstr ''Blocked''
   | TASK_ZOMBIE \<Rightarrow> cstr ''Zombie''
   | _ \<Rightarrow> cstr ''Unknown'') @ [10]"

definition tasks_text :: "tasking \<Rightarrow> cstring option" where
  "tasks_text k =
     (if task_get_current k = NULL then Some (cstr ''Current Task:'' @ [10] @ cstr ''  No task running'' @ [10])
      else do {
        t \<leftarrow> task_mem k (task_get_current k);
        pid \<leftarrow> int_to_str (sint (t_pid t));
        Some (cstr ''Current Task:'' @ [10] @
          cstr ''  PID:   '' @ pid @ [10] @
          cstr ''  Name:  '' @ t_name t @ [10] @
          cstr ''  State: '' @ state_name (t_state t))
      })"

definition procfs_generate_uptime :: "u32 \<Rightarrow> 'd fs \<Rightarrow> (ptr \<times> 'd fs) option" where
  "procfs_generate_uptime timer_ticks = text_in_buffer 256 (uptime_text timer_ticks)"

definition procfs_generate_meminfo :: "pmm \<Rightarrow> 'd fs \<Rightarrow> (ptr \<times> 'd fs) option" where
  "procfs_generate_meminfo m = text_in_buffer 512 (meminfo_text m)"

text \<open>The task is looked at only when there is a buffer.\<close>

definition procfs_generate_tasks :: "tasking \<Rightarrow> 'd fs \<Rightarrow> (ptr \<times> 'd fs) option" where
  "procfs_generate_tasks k s = do {
     (p, s) \<leftarrow> new_buf 512 s;
     if p = NULL then Some (NULL, s)
     else do { content \<leftarrow> tasks_text k; s \<leftarrow> copy_to p 0 (content @ [0]) s; Some (p, s) }
   }"

section \<open>The files\<close>

definition procfs_open :: "ptr \<Rightarrow> ptr \<Rightarrow> int" where "procfs_open inode f = 0"
definition procfs_close :: "ptr \<Rightarrow> int" where "procfs_close f = 0"
definition procfs_write :: "ptr \<Rightarrow> bytes \<Rightarrow> u32 \<Rightarrow> u32 \<Rightarrow> int" where "procfs_write f buffer sz offset = - 1"

definition procfs_read :: "u32 \<Rightarrow> pmm \<Rightarrow> tasking \<Rightarrow> ptr \<Rightarrow> u32 \<Rightarrow> u32 \<Rightarrow> 'd fs \<Rightarrow> (int \<times> bytes \<times> 'd fs) option" where
  "procfs_read timer_ticks m k f sz offset s = do {
     fl \<leftarrow> file_at s f;
     i \<leftarrow> inode_at s (f_inode fl);
     if i_private i = NULL then Some (0, [], s)
     else do {
       t \<leftarrow> proc_at s (i_private i);
       (content, s) \<leftarrow> (case t of
           PROCFS_UPTIME \<Rightarrow> procfs_generate_uptime timer_ticks s
         | PROCFS_MEMINFO \<Rightarrow> procfs_generate_meminfo m s
         | PROCFS_TASKS \<Rightarrow> procfs_generate_tasks k s);
       if content = NULL then Some (0, [], s)
       else do {
         bs \<leftarrow> buf_at s content;
         let content_len = of_nat (length (takeWhile (\<lambda>c. c \<noteq> 0) bs));
         if offset \<ge> content_len then do { s \<leftarrow> free_obj content s; Some (0, [], s) }
         else do {
           let to_read = (if offset + sz > content_len then content_len - offset else sz);
           require (unat offset + unat to_read \<le> length bs);
           s \<leftarrow> free_obj content s;
           Some (sint to_read, take (unat to_read) (drop (unat offset) bs), s)
         }
       }
     }
   }"

section \<open>Mounting\<close>

definition procfs_create_file :: "cstring \<Rightarrow> procfs_file_type \<Rightarrow> 'd fs \<Rightarrow> (ptr \<times> 'd fs) option" where
  "procfs_create_file name type s =
     (if vfs_get_root_sb s = NULL then Some (NULL, s)
      else do {
        proc_dir \<leftarrow> vfs_lookup (cstr ''/proc'') s;
        if proc_dir = NULL then Some (NULL, s)
        else do {
          (p, s) \<leftarrow> vfs_alloc_inode (vfs_get_root_sb s) s;
          if p = NULL then Some (NULL, s)
          else do {
            i \<leftarrow> inode_at s p;
            let i = i\<lparr>i_type := VFS_FILE, i_mode := 0x124, i_fop := Procfs_ops\<rparr>;
            let s = put p (Inode i) s;
            (node, s) \<leftarrow> new_obj sizeof_procfs_node (\<lambda>_. Proc_node type) s;
            if node = NULL then do { s \<leftarrow> vfs_free_inode p s; Some (NULL, s) }
            else do {
              let s = put p (Inode (i\<lparr>i_private := node\<rparr>)) s;
              (d, s) \<leftarrow> vfs_alloc_dentry name p s;
              if d = NULL then do { s \<leftarrow> free_obj node s; s \<leftarrow> vfs_free_inode p s; Some (NULL, s) }
              else do { s \<leftarrow> add_child proc_dir d s; Some (p, s) }
            }
          }
        }
      })"

definition procfs_mount :: "'d fs \<Rightarrow> (int \<times> 'd fs) option" where
  "procfs_mount s = do {
     (r, s) \<leftarrow> mount_dir (cstr ''proc'') 0x16D s;
     if r < 0 then Some (- 1, s)
     else do {
       (p, s) \<leftarrow> procfs_create_file (cstr ''uptime'') PROCFS_UPTIME s;
       (p, s) \<leftarrow> procfs_create_file (cstr ''meminfo'') PROCFS_MEMINFO s;
       (p, s) \<leftarrow> procfs_create_file (cstr ''tasks'') PROCFS_TASKS s;
       Some (0, s)
     }
   }"

section \<open>Decimal numbers\<close>

text \<open>The value of a string of digits, first digit first.\<close>

definition decimal :: "cstring \<Rightarrow> nat" where
  "decimal ds = foldl (\<lambda>n c. 10 * n + (unat c - 48)) 0 ds"

definition is_digit :: "u8 \<Rightarrow> bool" where
  "is_digit c \<longleftrightarrow> 48 \<le> c \<and> c \<le> 57"

lemma temp_digits_simps [simp]:
  "temp_digits 0 = []"
  "0 < n \<Longrightarrow> temp_digits n = of_nat (48 + n mod 10) # temp_digits (n div 10)"
  by (subst temp_digits.simps, simp)+

lemma digit_value: "unat (of_nat (48 + n mod 10) :: u8) = 48 + n mod 10"
  by (simp add: unat_of_nat take_bit_eq_mod del: of_nat_add)

lemma digit_ok: "is_digit (of_nat (48 + n mod 10))"
proof -
  have "n mod 10 \<le> 9" by simp
  then show ?thesis unfolding is_digit_def word_le_nat_alt digit_value by simp
qed

lemma decimal_temp_digits: "decimal (rev (temp_digits n)) = n"
proof (induction n rule: temp_digits.induct)
  case (1 n)
  show ?case
  proof (cases "0 < n")
    case True
    then have "decimal (rev (temp_digits n)) = 10 * decimal (rev (temp_digits (n div 10))) + n mod 10"
      by (simp add: decimal_def digit_value del: of_nat_add)
    then show ?thesis using 1 True by simp
  qed (simp add: decimal_def)
qed

lemma temp_digits_ok: "c \<in> set (temp_digits n) \<Longrightarrow> is_digit c"
proof (induction n rule: temp_digits.induct)
  case (1 n)
  then show ?case by (cases "0 < n") (auto simp: digit_ok simp del: of_nat_add)
qed

lemma temp_digits_last: "0 < n \<Longrightarrow> temp_digits n \<noteq> [] \<and> last (temp_digits n) \<noteq> 48"
proof (induction n rule: temp_digits.induct)
  case (1 n)
  show ?case
  proof (cases "n < 10")
    case True
    have "unat (of_nat (48 + n mod 10) :: u8) \<noteq> unat (48 :: u8)"
      unfolding digit_value using True 1(2) by simp
    then have "of_nat (48 + n mod 10) \<noteq> (48 :: u8)" by metis
    then show ?thesis using True 1(2) by (simp del: of_nat_add)
  next
    case False
    then show ?thesis using 1 by simp
  qed
qed

lemma length_temp_digits: "n < 10 ^ k \<Longrightarrow> length (temp_digits n) \<le> k"
proof (induction k arbitrary: n)
  case (Suc k)
  have "n div 10 < 10 ^ k" using Suc.prems by (simp add: less_mult_imp_div_less mult.commute)
  with Suc.IH show ?case by (cases "0 < n") auto
qed simp

lemma length_uint32_to_str: "length (uint32_to_str n) \<le> 10"
proof -
  have "unat n < 4294967296" using unsigned_less[of n, where ?'a = nat] by simp
  then have "unat n < 10 ^ 10" by (rule less_le_trans) simp
  then show ?thesis using length_temp_digits[of "unat n" 10] by (simp add: uint32_to_str_def)
qed


section \<open>Reading a file\<close>

lemma uint32_to_str_no_zero: "0 \<notin> set (uint32_to_str n)"
proof -
  have "\<not> is_digit 0" by (simp add: is_digit_def)
  then show ?thesis by (auto simp: uint32_to_str_def dest: temp_digits_ok simp del: temp_digits_simps)
qed

lemma int_to_str_ok:
  assumes "- (2 ^ 31) < n" "n < 2 ^ 31"
  obtains ds where "int_to_str n = Some ds" "length ds \<le> 11" "0 \<notin> set ds"
proof -
  have "nat (- n) < 10 ^ 10" "nat n < 10 ^ 10" using assms by simp_all
  note len = this[THEN length_temp_digits]
  have z: "\<not> is_digit 0" by (simp add: is_digit_def)
  show ?thesis
    by (rule that[of "if n = 0 then [48] else if n < 0 then 45 # rev (temp_digits (nat (- n))) else rev (temp_digits (nat n))"])
      (use assms len z in \<open>auto simp: int_to_str_def require_def dest: temp_digits_ok simp del: temp_digits_simps\<close>)
qed

lemma uptime_text_ok: "length (uptime_text t) < 256 \<and> 0 \<notin> set (uptime_text t)"
  using length_uint32_to_str[of "t div 18"] uint32_to_str_no_zero[of "t div 18"] by (simp add: uptime_text_def)

lemma meminfo_text_ok: "length (meminfo_text m) < 512 \<and> 0 \<notin> set (meminfo_text m)"
proof -
  let ?t = "pmm_get_total_blocks m"
  let ?u = "if pmm_get_used_blocks m > ?t then ?t else pmm_get_used_blocks m"
  show ?thesis
    using length_uint32_to_str[of ?t] length_uint32_to_str[of ?u] length_uint32_to_str[of "?t - ?u"]
      uint32_to_str_no_zero[of ?t] uint32_to_str_no_zero[of ?u] uint32_to_str_no_zero[of "?t - ?u"]
    unfolding meminfo_text_def Let_def by simp
qed

text \<open>What is needed of the current task: its name ends in its place, and its pid can be negated.\<close>

definition current_shown :: "tasking \<Rightarrow> bool" where
  "current_shown k \<longleftrightarrow> task_get_current k = NULL \<or>
     (case task_mem k (task_get_current k) of
        None \<Rightarrow> False
      | Some t \<Rightarrow> t_pid t \<noteq> 0x80000000 \<and> length (t_name t) < 32 \<and> 0 \<notin> set (t_name t))"

lemma state_name_ok: "length (state_name st) \<le> 8 \<and> 0 \<notin> set (state_name st)"
  by (cases st) (simp_all add: state_name_def)

lemma sint_pid_range: "p \<noteq> 0x80000000 \<Longrightarrow> - (2 ^ 31) < sint (p :: u32) \<and> sint p < 2 ^ 31"
proof -
  assume p: "p \<noteq> 0x80000000"
  have "- (2 ^ 31) \<le> sint p" "sint p < 2 ^ 31" using sint_ge[of p] sint_lt[of p] by simp_all
  moreover have "sint p \<noteq> - (2 ^ 31)"
  proof
    assume "sint p = - (2 ^ 31)"
    then have "word_of_int (sint p) = (word_of_int (- (2 ^ 31)) :: u32)" by simp
    then have "p = - (2 ^ 31)" by simp
    with p show False by simp
  qed
  ultimately show ?thesis by simp
qed

lemma tasks_text_ok:
  assumes "current_shown k"
  obtains content where "tasks_text k = Some content" "length content < 512" "0 \<notin> set content"
proof (cases "task_get_current k = NULL")
  case True
  then show ?thesis using that by (simp add: tasks_text_def)
next
  case False
  with assms obtain t where t: "task_mem k (task_get_current k) = Some t" "t_pid t \<noteq> 0x80000000"
    "length (t_name t) < 32" "0 \<notin> set (t_name t)" by (auto simp: current_shown_def split: option.splits)
  obtain ds where "int_to_str (sint (t_pid t)) = Some ds" "length ds \<le> 11" "0 \<notin> set ds"
    using sint_pid_range[OF t(2)] by (rule conjE) (erule (1) int_to_str_ok)
  with t False state_name_ok[of "t_state t"] that show ?thesis by (auto simp: tasks_text_def)
qed

lemma generate_tasks_eq:
  "tasks_text k = Some content \<Longrightarrow> procfs_generate_tasks k s = text_in_buffer 512 content s"
  by (simp add: procfs_generate_tasks_def text_in_buffer_def cong: if_cong)

lemma text_in_buffer_cases:
  assumes "fs_wf s" "length content < unat sz" "sz \<le> 0xFFFFFFFC"
  obtains (none) "text_in_buffer sz content s = Some (NULL, s)" "new_buf sz s = Some (NULL, s)"
  | (some) p s' rest s0 where "new_buf sz s = Some (p, s0)" "text_in_buffer sz content s = Some (p, s')" "p \<noteq> NULL" "fs_wf s'" "objs s p = None"
      "objs s' = (objs s)(p \<mapsto> Buf (content @ 0 # rest))" "same_env s s'"
proof (cases rule: new_obj_cases[OF assms(1), of sz "\<lambda>w. Buf (map (\<lambda>i. ucast (w i)) [0..<region_size sz])"])
  case 1
  then have "text_in_buffer sz content s = Some (NULL, s)" "new_buf sz s = Some (NULL, s)"
    by (simp_all add: text_in_buffer_def new_buf_def)
  then show ?thesis by (rule none)
next
  case (2 p s')
  let ?b = "map (\<lambda>i. ucast (junk s (fresh s) i)) [0..<region_size sz]"
  let ?s = "put p (Buf (splice 0 (content @ [0]) ?b)) s'"
  have len: "length ?b = unat sz" using region_size_le[OF assms(3)] by simp
  have "copy_to p 0 (content @ [0]) s' = Some ?s"
    using 2 len assms(2) by (simp add: copy_to_def at_obj del: at_simps)
  then have "text_in_buffer sz content s = Some (p, ?s)"
    using 2 by (simp add: text_in_buffer_def new_buf_def)
  moreover have "fs_wf ?s" using 2 by (intro fs_wf_put) simp_all
  moreover have "objs ?s = (objs s)(p \<mapsto> Buf (content @ 0 # drop (Suc (length content)) ?b))"
    using 2 by (simp add: splice_def)
  moreover have "new_buf sz s = Some (p, s')" using 2 by (simp add: new_buf_def)
  ultimately show ?thesis using 2 by (intro some[of p s' ?s]) simp_all
qed

lemma takeWhile_content: "0 \<notin> set content \<Longrightarrow> takeWhile (\<lambda>c. c \<noteq> 0) (content @ 0 # rest) = (content :: bytes)"
  by (induction content) auto

text \<open>The text of a file of each type.\<close>

definition file_text :: "u32 \<Rightarrow> pmm \<Rightarrow> tasking \<Rightarrow> procfs_file_type \<Rightarrow> cstring option" where
  "file_text timer_ticks m k t = (case t of
     PROCFS_UPTIME \<Rightarrow> Some (uptime_text timer_ticks)
   | PROCFS_MEMINFO \<Rightarrow> Some (meminfo_text m)
   | PROCFS_TASKS \<Rightarrow> tasks_text k)"

definition buffer_size :: "procfs_file_type \<Rightarrow> u32" where
  "buffer_size t = (if t = PROCFS_UPTIME then 256 else 512)"

lemma file_text_ok:
  assumes "current_shown k"
  obtains content where "file_text ticks m k t = Some content" "length content < unat (buffer_size t)" "0 \<notin> set content"
proof (cases t)
  case PROCFS_TASKS
  with tasks_text_ok[OF assms] that show ?thesis by (auto simp: file_text_def buffer_size_def)
qed (use uptime_text_ok[of ticks] meminfo_text_ok[of m] that in \<open>simp_all add: file_text_def buffer_size_def\<close>)

lemma generate_eq:
  assumes "file_text ticks m k t = Some content"
  shows "(case t of PROCFS_UPTIME \<Rightarrow> procfs_generate_uptime ticks s
     | PROCFS_MEMINFO \<Rightarrow> procfs_generate_meminfo m s
     | PROCFS_TASKS \<Rightarrow> procfs_generate_tasks k s) = text_in_buffer (buffer_size t) content s"
  using assms by (cases t) (simp_all add: file_text_def buffer_size_def procfs_generate_uptime_def
    procfs_generate_meminfo_def generate_tasks_eq)

text \<open>The loop's count of bytes, for a range that does not wrap.\<close>

lemma to_read_eq:
  fixes offset sz :: u32
  assumes "n < 2 ^ 31" "\<not> of_nat n \<le> offset" "unat offset + unat sz < 2 ^ 32"
  defines "k \<equiv> if offset + sz > of_nat n then of_nat n - offset else sz"
  shows "unat k = min (unat sz) (n - unat offset)" "unat offset + unat k \<le> n" "sint k = int (unat k)"
proof -
  have n: "unat (of_nat n :: u32) = n" using assms(1) by (simp add: unat_of_nat take_bit_eq_mod)
  then have lt: "unat offset < n" using assms(2) by (simp add: word_le_nat_alt)
  have sum: "unat (offset + sz) = unat offset + unat sz"
    using assms(3) by (simp add: unat_word_ariths)
  have diff: "unat (of_nat n - offset) = n - unat offset"
    using lt n by (simp add: unat_sub word_le_nat_alt)
  show k: "unat k = min (unat sz) (n - unat offset)"
    using lt n sum diff by (auto simp: k_def word_less_nat_alt)
  then show "unat offset + unat k \<le> n" using lt by simp
  have "unat k < 2 ^ 31" using k assms(1) by simp
  then show "sint k = int (unat k)" by (rule sint_small)
qed

text \<open>
  A read of a process file gives the part of its text that is asked for: as many of the \<open>sz\<close>
  bytes from \<open>offset\<close> on as there are. The text fits the buffer it is made in, whatever the numbers in it, and the buffer is
  freed again. Without memory for it nothing is read.
\<close>

theorem procfs_read_correct:
  assumes "fs_wf s" "file_at s f = Some fl" "inode_at s (f_inode fl) = Some i"
    "i_private i \<noteq> NULL" "proc_at s (i_private i) = Some t" "current_shown k"
    "unat offset + unat sz < 2 ^ 32"
  shows "\<exists>s' content. file_text ticks m k t = Some content \<and> fs_wf s' \<and> objs s' = objs s \<and> same_env s s' \<and>
    procfs_read ticks m k f sz offset s =
     (if \<exists>s1. new_buf (buffer_size t) s = Some (NULL, s1) then Some (0, [], s')
      else let part = take (unat sz) (drop (unat offset) content) in Some (int (length part), part, s'))"
proof -
  obtain content where c: "file_text ticks m k t = Some content" "length content < unat (buffer_size t)" "0 \<notin> set content"
    using file_text_ok[OF assms(6)] by blast
  have sz: "buffer_size t \<le> 0xFFFFFFFC" "unat (buffer_size t) \<le> 512" by (simp_all add: buffer_size_def)
  note run = procfs_read_def assms(2,3,4,5) generate_eq[OF c(1)]
  show ?thesis
  proof (cases rule: text_in_buffer_cases[OF assms(1) c(2) sz(1)])
    case 1
    then have "procfs_read ticks m k f sz offset s = Some (0, [], s)" by (simp add: run del: at_simps)
    with assms(1) c(1) 1(2) show ?thesis by (intro exI[of _ s] exI[of _ content]) simp
  next
    case (2 p s1 rest s0)
    note some = this(2-)
    have mem: "\<not> (\<exists>s1. new_buf (buffer_size t) s = Some (NULL, s1))" using 2(1,3) by simp
    let ?n = "of_nat (length content) :: u32"
    let ?k = "if offset + sz > ?n then ?n - offset else sz"
    obtain s2 where s2: "free_obj p s1 = Some s2" "fs_wf s2" "objs s2 = (objs s1)(p := None)" "same_env s1 s2"
      using free_obj_cases[OF some(3), of p] some(5) by auto
    have env: "objs s2 = objs s" "same_env s s2" using some s2 by (auto intro: same_env_trans)
    have "buf_at s1 p = Some (content @ 0 # rest)" using some(5) by simp
    note run = run some(1) this takeWhile_content[OF c(3)] s2(1) some(2)
    have small: "length content < 2 ^ 31" using c(2) sz(2) by simp
    show ?thesis
    proof (cases "?n \<le> offset")
      case True
      then have "procfs_read ticks m k f sz offset s = Some (0, [], s2)" by (simp add: run del: at_simps)
      moreover have "length content \<le> unat offset"
        using True small by (simp add: word_le_nat_alt unat_of_nat take_bit_eq_mod)
      ultimately show ?thesis using env s2(2) c(1)
        unfolding if_not_P[OF mem] by (intro exI[of _ s2] exI[of _ content]) simp
    next
      case False
      note k = to_read_eq[OF small False assms(7)]
      have part: "take (unat ?k) (drop (unat offset) (content @ 0 # rest)) = take (unat sz) (drop (unat offset) content)"
        using k(1,2) by (simp add: min_def)
      have "length (take (unat sz) (drop (unat offset) content)) = unat ?k" using k(1) by simp
      moreover have "unat offset + unat ?k \<le> length (content @ 0 # rest)" using k(2) by simp
      ultimately have "procfs_read ticks m k f sz offset s =
          (let part = take (unat sz) (drop (unat offset) content) in Some (int (length part), part, s2))"
        unfolding Let_def part[symmetric] using k(3) False
        by (simp add: run Let_def require_bind del: at_simps cong: if_cong split del: if_split)
      with env s2(2) c(1) show ?thesis
        unfolding if_not_P[OF mem] by (intro exI[of _ s2] exI[of _ content]) (simp add: Let_def)
    qed
  qed
qed

text \<open>An open file \<open>tasks\<close>, on a heap with room for its text, while the task \<open>idle\<close> runs.\<close>

definition sample_procfs :: "unit fs" where
  "sample_procfs = \<lparr>fs_heap = used_heap 20, objs = [
     cell 10 \<mapsto> Inode ((fresh_inode 1 NULL)\<lparr>i_private := cell 11, i_fop := Procfs_ops\<rparr>),
     cell 11 \<mapsto> Proc_node PROCFS_TASKS,
     cell 12 \<mapsto> File \<lparr>f_inode = cell 10, f_flags = 0, f_pos = 0, f_ref_count = 1, f_op = Procfs_ops, f_private = NULL\<rparr>],
     junk = (\<lambda>_ _. 0xA5A5A5A5), fresh = 20, next_ino = 2, root_sb = NULL, mount_table = [], random_seed = 12345,
     blk = \<lparr>block_devices = [], bd_hw = ()\<rparr>\<rparr>"

lemma sample_procfs_wf: "fs_wf sample_procfs"
proof -
  have "dom (objs sample_procfs) \<subseteq> cell ` {0..<20}" by (auto simp: sample_procfs_def split: if_splits)
  then show ?thesis using used_heap_wf[of 20] used_cells[of 20]
    by (auto simp: fs_wf_def heap.store_ok_def sample_procfs_def)
qed

lemma sample_current:
  "current_shown two_tasking"
  "tasks_text two_tasking = Some (cstr ''Current Task:'' @ [10] @ cstr ''  PID:   0'' @ [10] @ cstr ''  Name:  idle'' @ [10] @
     cstr ''  State: Running'' @ [10])"
proof -
  obtain k where "task_mem two_tasking 0x40000C = Some (idle_task 0x40000C blank_task\<lparr>t_next := k\<rparr>)"
    using two_tasking_facts(5) by blast
  then show "current_shown two_tasking"
    "tasks_text two_tasking = Some (cstr ''Current Task:'' @ [10] @ cstr ''  PID:   0'' @ [10] @ cstr ''  Name:  idle'' @ [10] @
     cstr ''  State: Running'' @ [10])"
    using two_tasking_facts(3)
    by (simp_all add: current_shown_def tasks_text_def task_get_current_def idle_task_def int_to_str_def state_name_def)
qed

lemma sample_procfs_memory: "\<nexists>s1. new_buf 512 sample_procfs = Some (NULL, s1)"
proof -
  have "kmalloc 512 (used_heap 20) = Some (cell 20, used_heap 21)" using used_heap_rel[of 20] by (simp add: cell_def)
  then show ?thesis using cell_NULL[of 20] by (simp add: new_buf_def new_obj_def sample_procfs_def)
qed

lemma procfs_read_correct_witness:
  "\<exists>s'. procfs_read 0 (pmm_init 0x8000000) two_tasking (cell 12) 4 34 sample_procfs = Some (4, cstr ''idle'', s')"
proof -
  have f: "file_at sample_procfs (cell 12) =
      Some \<lparr>f_inode = cell 10, f_flags = 0, f_pos = 0, f_ref_count = 1, f_op = Procfs_ops, f_private = NULL\<rparr>"
    "inode_at sample_procfs (cell 10) = Some ((fresh_inode 1 NULL)\<lparr>i_private := cell 11, i_fop := Procfs_ops\<rparr>)"
    "proc_at sample_procfs (cell 11) = Some PROCFS_TASKS"
    by (simp_all add: sample_procfs_def cells)
  have mem: "\<not> (\<exists>s1. new_buf (buffer_size PROCFS_TASKS) sample_procfs = Some (NULL, s1))"
    using sample_procfs_memory by (simp add: buffer_size_def)
  from procfs_read_correct[OF sample_procfs_wf f(1), of _ PROCFS_TASKS two_tasking 34 4 0 "pmm_init 0x8000000"] f(2,3) sample_current
  show ?thesis unfolding if_not_P[OF mem] by (auto simp: Let_def file_text_def fresh_inode_def cells cstr_def)
qed

end
