(* ===== verification/Vfs.thy ===== *)
theory Vfs
  imports Mount Devfs Procfs
begin

text \<open>
  The virtual file system (\<open>src/src/fs/vfs.c\<close>): paths to inodes through the directories of the file
  systems and the mount table, open files with their position, and the calls that go on to the file
  system an inode belongs to. The theory gives the meaning of a path as a walk over its components,
  and shows that open files read and write where their position is.
\<close>

section \<open>The tables of operations\<close>

text \<open>
  A call through a pointer in a table of operations; a table without that operation is the last case
  of each definition. What process files read is in three components of the kernel: the timer's
  ticks, the physical memory manager and the tasks.
\<close>

record kernel_info =
  k_ticks :: u32
  k_pmm :: pmm
  k_tasking :: tasking

definition fop_open :: "fs_ops \<Rightarrow> ptr \<Rightarrow> ptr \<Rightarrow> int" where
  "fop_open ops i f = (case ops of
     Ramfs_ops \<Rightarrow> ramfs_open i f
   | Vrfs_ops \<Rightarrow> vrfs_open i f
   | Devfs_ops \<Rightarrow> devfs_open i f
   | Procfs_ops \<Rightarrow> procfs_open i f
   | No_ops \<Rightarrow> 0)"

definition fop_close :: "fs_ops \<Rightarrow> ptr \<Rightarrow> int" where
  "fop_close ops f = (case ops of
     Ramfs_ops \<Rightarrow> ramfs_close f
   | Vrfs_ops \<Rightarrow> vrfs_close f
   | Devfs_ops \<Rightarrow> devfs_close f
   | Procfs_ops \<Rightarrow> procfs_close f
   | No_ops \<Rightarrow> 0)"

definition fop_read :: "kernel_info \<Rightarrow> fs_ops \<Rightarrow> ptr \<Rightarrow> u32 \<Rightarrow> u32 \<Rightarrow> 'd fs \<Rightarrow> (int \<times> bytes \<times> 'd fs) option" where
  "fop_read k ops f sz offset s = (case ops of
     Ramfs_ops \<Rightarrow> do { (r, bs) \<leftarrow> ramfs_read f sz offset s; Some (r, bs, s) }
   | Vrfs_ops \<Rightarrow> vrfs_read f sz offset s
   | Devfs_ops \<Rightarrow> devfs_read f sz offset s
   | Procfs_ops \<Rightarrow> procfs_read (k_ticks k) (k_pmm k) (k_tasking k) f sz offset s
   | No_ops \<Rightarrow> Some (- 1, [], s))"

definition fop_write :: "fs_ops \<Rightarrow> ptr \<Rightarrow> bytes \<Rightarrow> u32 \<Rightarrow> u32 \<Rightarrow> 'd fs \<Rightarrow> (int \<times> 'd fs) option" where
  "fop_write ops f buffer sz offset s = (case ops of
     Ramfs_ops \<Rightarrow> ramfs_write f buffer sz offset s
   | Vrfs_ops \<Rightarrow> vrfs_write f buffer sz offset s
   | Devfs_ops \<Rightarrow> devfs_write f buffer sz offset s
   | Procfs_ops \<Rightarrow> Some (procfs_write f buffer sz offset, s)
   | No_ops \<Rightarrow> Some (- 1, s))"

definition iop_lookup :: "ptr \<Rightarrow> cstring \<Rightarrow> 'd fs \<Rightarrow> (ptr \<times> 'd fs) option" where
  "iop_lookup dir name s = do {
     d \<leftarrow> inode_at s dir;
     case i_iop d of
       Ramfs_ops \<Rightarrow> do { p \<leftarrow> ramfs_lookup dir name s; Some (p, s) }
     | Vrfs_ops \<Rightarrow> vrfs_lookup dir name s
     | _ \<Rightarrow> Some (NULL, s)
   }"

definition iop_unlink :: "ptr \<Rightarrow> cstring \<Rightarrow> 'd fs \<Rightarrow> (int \<times> 'd fs) option" where
  "iop_unlink dir name s = do {
     d \<leftarrow> inode_at s dir;
     case i_iop d of
       Ramfs_ops \<Rightarrow> ramfs_unlink dir name s
     | Vrfs_ops \<Rightarrow> vrfs_unlink dir name s
     | _ \<Rightarrow> Some (- 1, s)
   }"

definition iop_rmdir :: "ptr \<Rightarrow> cstring \<Rightarrow> 'd fs \<Rightarrow> (int \<times> 'd fs) option" where
  "iop_rmdir dir name s = do {
     d \<leftarrow> inode_at s dir;
     case i_iop d of
       Ramfs_ops \<Rightarrow> ramfs_rmdir dir name s
     | _ \<Rightarrow> Some (- 1, s)
   }"

section \<open>Paths\<close>

text \<open>
  The loop of \<open>vfs_lookup_inode\<close>: \<open>pathname\<close> is what is left of the path up to its trailing slashes,
  \<open>slash\<close> whether there are some, \<open>current_path\<close> the buffer of 256 bytes for the mount table.
\<close>

definition next_slash :: "bool \<Rightarrow> cstring \<Rightarrow> bool" where
  "next_slash slash rest = (case rest of [] \<Rightarrow> slash | c # _ \<Rightarrow> c = 47)"

definition mount_check_path :: "cstring \<Rightarrow> cstring" where
  "mount_check_path p = (if length p > 1 \<and> last p = 47 then butlast p else p)"

function lookup_inode_from :: "bool \<Rightarrow> cstring \<Rightarrow> ptr \<Rightarrow> cstring \<Rightarrow> 'd fs \<Rightarrow> (ptr \<times> 'd fs) option" where
  "lookup_inode_from slash current_path current pathname s =
     (if pathname = [] then Some (current, s)
      else
        (let component = take (VFS_NAME_MAX - 1) (takeWhile (\<lambda>c. c \<noteq> 47) pathname);
             rest = drop (length component) pathname in
         if component = [] then lookup_inode_from slash current_path current (tl pathname) s
         else
           (let current_path = take 255 (current_path @ component);
                sep = next_slash slash rest;
                rest = (if sep then tl rest else rest);
                current_path = (if sep \<and> length current_path < 255 then current_path @ [47] else current_path);
                sb = mount_get_sb (mount_check_path current_path) s in
            do {
              root \<leftarrow> (if sb = NULL then Some NULL else do { b \<leftarrow> sb_at s sb; Some (sb_root_inode b) });
              if root \<noteq> NULL then lookup_inode_from slash current_path root rest s
              else do {
                (p, s) \<leftarrow> iop_lookup current component s;
                if p = NULL then Some (NULL, s) else lookup_inode_from slash current_path p rest s
              }
            })))"
  by pat_completeness auto

termination
  by (relation "measure (\<lambda>(slash, current_path, current, pathname, s). length pathname)")
    (auto simp: VFS_NAME_MAX_def split: if_splits)

declare lookup_inode_from.simps [simp del]

definition trim_slashes :: "cstring \<Rightarrow> cstring" where
  "trim_slashes pathname = rev (dropWhile (\<lambda>c. c = 47) (rev pathname))"

definition vfs_lookup_inode :: "cstring \<Rightarrow> 'd fs \<Rightarrow> (ptr \<times> 'd fs) option" where
  "vfs_lookup_inode pathname s =
     (if root_sb s = NULL then Some (NULL, s)
      else do {
        sb \<leftarrow> sb_at s (root_sb s);
        if sb_root_inode sb = NULL then Some (NULL, s)
        else
          (let pathname = (if pathname \<noteq> [] \<and> hd pathname = 47 then tl pathname else pathname);
               trimmed = trim_slashes pathname in
           if trimmed = [] then Some (sb_root_inode sb, s)
           else lookup_inode_from (length trimmed < length pathname) [47] (sb_root_inode sb) trimmed s)
      })"

section \<open>Open files\<close>

definition vfs_open :: "cstring \<Rightarrow> u32 \<Rightarrow> 'd fs \<Rightarrow> (ptr \<times> 'd fs) option" where
  "vfs_open pathname flags s = do {
     (inode, s) \<leftarrow> vfs_lookup_inode pathname s;
     if inode = NULL then Some (NULL, s)
     else do {
       (f, s) \<leftarrow> new_obj sizeof_file (\<lambda>w. File \<lparr>f_inode = w 0, f_flags = w 1, f_pos = w 2, f_ref_count = w 3,
           f_op = No_ops, f_private = w 5\<rparr>) s;
       if f = NULL then Some (NULL, s)
       else do {
         i \<leftarrow> inode_at s inode;
         let s = put f (File \<lparr>f_inode = inode, f_flags = flags, f_pos = 0, f_ref_count = 1, f_op = i_fop i,
             f_private = NULL\<rparr>) s;
         if i_fop i \<noteq> No_ops \<and> fop_open (i_fop i) inode f < 0
         then do { s \<leftarrow> free_obj f s; Some (NULL, s) }
         else Some (f, s)
       }
     }
   }"

definition vfs_close :: "ptr \<Rightarrow> 'd fs \<Rightarrow> (int \<times> 'd fs) option" where
  "vfs_close f s =
     (if f = NULL then Some (- 1, s)
      else do {
        fl \<leftarrow> file_at s f;
        let closed = (if f_op fl \<noteq> No_ops then fop_close (f_op fl) f else 0);
        let fl = fl\<lparr>f_ref_count := f_ref_count fl - 1\<rparr>;
        let s = put f (File fl) s;
        s \<leftarrow> (if f_ref_count fl = 0 then free_obj f s else Some s);
        Some (0, s)
      })"

text \<open>The position moves by the number of bytes that were read or written.\<close>

definition advance :: "ptr \<Rightarrow> int \<Rightarrow> 'd fs \<Rightarrow> 'd fs option" where
  "advance f r s =
     (if r > 0 then do { fl \<leftarrow> file_at s f; Some (put f (File (fl\<lparr>f_pos := f_pos fl + of_int r\<rparr>)) s) }
      else Some s)"

definition vfs_read :: "kernel_info \<Rightarrow> ptr \<Rightarrow> u32 \<Rightarrow> 'd fs \<Rightarrow> (int \<times> bytes \<times> 'd fs) option" where
  "vfs_read k f sz s =
     (if f = NULL then Some (- 1, [], s)
      else do {
        fl \<leftarrow> file_at s f;
        if f_op fl = No_ops then Some (- 1, [], s)
        else do {
          (r, bs, s) \<leftarrow> fop_read k (f_op fl) f sz (f_pos fl) s;
          s \<leftarrow> advance f r s;
          Some (r, bs, s)
        }
      })"

definition vfs_write :: "ptr \<Rightarrow> bytes \<Rightarrow> u32 \<Rightarrow> 'd fs \<Rightarrow> (int \<times> 'd fs) option" where
  "vfs_write f buffer sz s =
     (if f = NULL then Some (- 1, s)
      else do {
        fl \<leftarrow> file_at s f;
        if f_op fl = No_ops then Some (- 1, s)
        else do {
          (r, s) \<leftarrow> fop_write (f_op fl) f buffer sz (f_pos fl) s;
          s \<leftarrow> advance f r s;
          Some (r, s)
        }
      })"

text \<open>No table of operations has a \<open>lseek\<close> of its own. The result is the position as an \<open>int\<close>.\<close>

definition vfs_lseek :: "ptr \<Rightarrow> u32 \<Rightarrow> int \<Rightarrow> 'd fs \<Rightarrow> (int \<times> 'd fs) option" where
  "vfs_lseek f offset whence s =
     (if f = NULL then Some (- 1, s)
      else do {
        fl \<leftarrow> file_at s f;
        if whence = 0 then Some (sint offset, put f (File (fl\<lparr>f_pos := offset\<rparr>)) s)
        else if whence = 1 then Some (sint (f_pos fl + offset), put f (File (fl\<lparr>f_pos := f_pos fl + offset\<rparr>)) s)
        else if whence = 2
        then do {
          i \<leftarrow> inode_at s (f_inode fl);
          Some (sint (i_size i + offset), put f (File (fl\<lparr>f_pos := i_size i + offset\<rparr>)) s)
        }
        else Some (- 1, s)
      })"

section \<open>Directories\<close>

text \<open>Paths may be null pointers here, \<open>None\<close>. \<open>vfs_create\<close> has no body yet in the source: it returns \<open>NULL\<close>.\<close>

definition vfs_create :: "cstring option \<Rightarrow> u32 \<Rightarrow> ptr" where
  "vfs_create pathname mode = NULL"

definition root_inode :: "'d fs \<Rightarrow> ptr option" where
  "root_inode s = (if root_sb s = NULL then Some NULL else do { sb \<leftarrow> sb_at s (root_sb s); Some (sb_root_inode sb) })"

definition last_slash :: "cstring \<Rightarrow> nat option" where
  "last_slash p = fold (\<lambda>i l. if p ! i = 47 then Some i else l) [0..<length p] None"

definition vfs_unlink :: "cstring option \<Rightarrow> 'd fs \<Rightarrow> (int \<times> 'd fs) option" where
  "vfs_unlink pathname s = (case pathname of
     None \<Rightarrow> Some (- 1, s)
   | Some pathname \<Rightarrow> do {
       root \<leftarrow> root_inode s;
       if root = NULL then Some (- 1, s)
       else (case last_slash pathname of
           None \<Rightarrow> Some (- 1, s)
         | Some l \<Rightarrow> do {
             parent_path \<leftarrow> (if l = 0 then Some [47] else strcpy_buf 256 (take l pathname));
             let filename = take 63 (drop (Suc l) pathname);
             (parent_inode, s) \<leftarrow> vfs_lookup_inode parent_path s;
             if parent_inode = NULL then Some (- 1, s) else iop_unlink parent_inode filename s
           })
     })"

definition vfs_mkdir :: "cstring option \<Rightarrow> u32 \<Rightarrow> 'd fs \<Rightarrow> (int \<times> 'd fs) option" where
  "vfs_mkdir pathname mode s = (case pathname of
     None \<Rightarrow> Some (- 1, s)
   | Some pathname \<Rightarrow> do {
       root \<leftarrow> root_inode s;
       if root = NULL then Some (- 1, s)
       else do {
         (inode, s) \<leftarrow> ramfs_create_dir pathname s;
         Some (if inode \<noteq> NULL then 0 else - 1, s)
       }
     })"

definition vfs_rmdir :: "cstring option \<Rightarrow> 'd fs \<Rightarrow> (int \<times> 'd fs) option" where
  "vfs_rmdir pathname s = (case pathname of
     None \<Rightarrow> Some (- 1, s)
   | Some pathname \<Rightarrow> do {
       root \<leftarrow> root_inode s;
       if root = NULL then Some (- 1, s)
       else
         (let pathname = (if pathname \<noteq> [] \<and> hd pathname = 47 then tl pathname else pathname) in
          if pathname = [] then Some (- 1, s)
          else
            (let full_path = take (VFS_NAME_MAX - 1) pathname;
                 dirname = (case last_slash full_path of None \<Rightarrow> full_path | Some l \<Rightarrow> drop (Suc l) full_path) in
             do {
               (parent, s) \<leftarrow> (case last_slash full_path of
                   Some l \<Rightarrow> vfs_lookup_inode (if l = 0 then [47] else take l full_path) s
                 | None \<Rightarrow> Some (root, s));
               if parent = NULL then Some (- 1, s)
               else do {
                 d \<leftarrow> inode_at s parent;
                 if i_type d \<noteq> VFS_DIRECTORY then Some (- 1, s) else iop_rmdir parent dirname s
               }
             }))
     })"

section \<open>A path is a walk\<close>

text \<open>The components of a path are what is between its slashes, empty ones left out.\<close>

fun split_slash :: "cstring \<Rightarrow> cstring list" where
  "split_slash [] = [[]]"
| "split_slash (c # p) = (if c = 47 then [] # split_slash p else (c # hd (split_slash p)) # tl (split_slash p))"

definition components :: "cstring \<Rightarrow> cstring list" where
  "components p = filter (\<lambda>c. c \<noteq> []) (split_slash p)"

text \<open>
  The walk: in front of each component the mount table is asked for the path up to it; without a
  file system there, the directory reached so far is.
\<close>

definition mounted_root :: "cstring \<Rightarrow> 'd fs \<Rightarrow> ptr option" where
  "mounted_root at s = (let sb = mount_get_sb at s in
     if sb = NULL then Some NULL else do { b \<leftarrow> sb_at s sb; Some (sb_root_inode b) })"

fun walk :: "cstring \<Rightarrow> ptr \<Rightarrow> cstring list \<Rightarrow> 'd fs \<Rightarrow> (ptr \<times> 'd fs) option" where
  "walk at current [] s = Some (current, s)"
| "walk at current (c # cs) s = do {
     root \<leftarrow> mounted_root (at @ 47 # c) s;
     if root \<noteq> NULL then walk (at @ 47 # c) root cs s
     else do {
       (p, s) \<leftarrow> iop_lookup current c s;
       if p = NULL then Some (NULL, s) else walk (at @ 47 # c) p cs s
     }
   }"

lemma split_slash_nonempty [simp]: "split_slash p \<noteq> []"
  by (cases p) auto

lemma split_slash_append: "47 \<notin> set c \<Longrightarrow> split_slash (c @ p) = (c @ hd (split_slash p)) # tl (split_slash p)"
  by (induction c) auto

lemma components_simps [simp]: "components [] = []" "components (47 # p) = components p"
  by (simp_all add: components_def)

lemma components_Cons:
  "47 \<notin> set c \<Longrightarrow> c \<noteq> [] \<Longrightarrow> p = [] \<or> hd p = 47 \<Longrightarrow> components (c @ p) = c # components (tl p)"
  using split_slash_append[of c "[]"] by (cases p) (auto simp: components_def split_slash_append)

lemma components_takeWhile:
  "takeWhile (\<lambda>c. c \<noteq> 47) p \<noteq> [] \<Longrightarrow>
   components p = takeWhile (\<lambda>c. c \<noteq> 47) p # components (tl (dropWhile (\<lambda>c. c \<noteq> 47) p))"
  using components_Cons[of "takeWhile (\<lambda>c. c \<noteq> 47) p" "dropWhile (\<lambda>c. c \<noteq> 47) p"] hd_dropWhile[of "\<lambda>c. c \<noteq> 47" p]
  by (auto dest: set_takeWhileD)

lemma split_slash_snoc: "split_slash (p @ [47]) = split_slash p @ [[]]"
  by (induction p) auto

lemma components_snoc: "components (p @ [47]) = components p"
  by (simp add: components_def split_slash_snoc)

lemma trim_slashes_snoc [simp]: "trim_slashes (p @ [47]) = trim_slashes p" "c \<noteq> 47 \<Longrightarrow> trim_slashes (p @ [c]) = p @ [c]"
  by (simp_all add: trim_slashes_def)

lemma components_trim: "components (trim_slashes p) = components p"
proof (induction p rule: rev_induct)
  case (snoc c p)
  then show ?case by (cases "c = 47") (simp_all add: components_snoc)
qed (simp add: trim_slashes_def)

lemma length_trim: "length (trim_slashes p) \<le> length p"
  by (simp add: trim_slashes_def) (metis length_dropWhile_le length_rev)

lemma components_next:
  "r = [] \<or> hd r = 47 \<Longrightarrow> components (if next_slash slash r then tl r else r) = components (tl r)"
  by (cases r) (auto simp: next_slash_def)

lemma next_room:
  fixes slash :: bool
  assumes "r = [] \<or> hd r = 47" "length q + length r \<le> 255"
  defines "rest \<equiv> (if next_slash slash r then tl r else r)"
    and "next_path \<equiv> (if next_slash slash r \<and> length q < 255 then q @ [47] else q)"
  shows "length rest \<le> length r" "length next_path + length rest \<le> 255" "rest = [] \<or> next_path = q @ [47]"
  using assms by (cases r; auto simp: next_slash_def)+

lemma mount_check_path_simps:
  "c \<noteq> [] \<Longrightarrow> 47 \<notin> set c \<Longrightarrow> mount_check_path (at @ 47 # c) = at @ 47 # c"
  "c \<noteq> [] \<Longrightarrow> mount_check_path ((at @ 47 # c) @ [47]) = at @ 47 # c"
  by (auto simp: mount_check_path_def butlast_append dest: last_in_set)

lemma lookup_from_walk:
  fixes s :: "'d fs"
  shows "length current_path + length pathname \<le> 255 \<Longrightarrow> pathname = [] \<or> current_path = at @ [47] \<Longrightarrow>
   lookup_inode_from slash current_path current pathname s = walk at current (components pathname) s"
proof (induction "length pathname" arbitrary: pathname at current_path current s rule: less_induct)
  case less
  show ?case
  proof (cases pathname)
    case Nil
    then show ?thesis by (simp add: lookup_inode_from.simps)
  next
    case (Cons b p)
    let ?c = "takeWhile (\<lambda>c. c \<noteq> 47) pathname"
    let ?r = "dropWhile (\<lambda>c. c \<noteq> 47) pathname"
    have cp: "current_path = at @ [47]" using less.prems(2) Cons by simp
    have len: "length ?c + length ?r = length pathname"
      by (metis length_append takeWhile_dropWhile_id)
    have take: "take (VFS_NAME_MAX - 1) ?c = ?c" using less.prems(1) len by simp
    have drop: "drop (length ?c) pathname = ?r" by (simp add: dropWhile_eq_drop)
    show ?thesis
    proof (cases "?c = []")
      case True
      then have b: "b = 47" using Cons by (auto split: if_splits)
      have "lookup_inode_from slash current_path current p s = walk at current (components p) s"
        by (rule less.hyps) (use less.prems Cons in auto)
      then show ?thesis using Cons b by (subst lookup_inode_from.simps) simp
    next
      case False
      have ne: "pathname \<noteq> []" using Cons by simp
      have c47: "47 \<notin> set ?c" by (auto dest: set_takeWhileD)
      define sep where "sep = next_slash slash ?r"
      define rest where "rest = (if sep then tl ?r else ?r)"
      define next_path where "next_path = (if sep \<and> length (at @ 47 # ?c) < 255 then (at @ 47 # ?c) @ [47] else at @ 47 # ?c)"
      have t255: "take 255 (current_path @ ?c) = at @ 47 # ?c" using less.prems(1) len cp by simp
      have check: "mount_check_path next_path = at @ 47 # ?c"
        unfolding next_path_def using mount_check_path_simps[OF False] c47 by presburger
      have r47: "?r = [] \<or> hd ?r = 47" using hd_dropWhile[of "\<lambda>c. c \<noteq> 47" pathname] by auto
      then have comps: "components pathname = ?c # components rest"
        unfolding components_takeWhile[OF False] rest_def sep_def by (simp only: components_next)
      have room: "length (at @ 47 # ?c) + length ?r \<le> 255" using less.prems(1) len cp by simp
      note room = next_room[OF r47 room, of slash, folded sep_def, folded rest_def]
      have "0 < length ?c" using False by (simp only: length_greater_0_conv simp_thms)
      then have less: "length rest < length pathname" using room(1) len by linarith
      have small: "length next_path + length rest \<le> 255" "rest = [] \<or> next_path = (at @ 47 # ?c) @ [47]"
        using room(2,3) unfolding next_path_def by blast+
      have ih: "lookup_inode_from slash next_path q rest t = walk (at @ 47 # ?c) q (components rest) t"
        for q and t :: "'d fs"
        by (rule less.hyps) (use less small in auto)
      have "lookup_inode_from slash current_path current pathname s = do {
          root \<leftarrow> mounted_root (at @ 47 # ?c) s;
          if root \<noteq> NULL then lookup_inode_from slash next_path root rest s
          else do {
            (p, s) \<leftarrow> iop_lookup current ?c s;
            if p = NULL then Some (NULL, s) else lookup_inode_from slash next_path p rest s
          } }"
        unfolding lookup_inode_from.simps[of slash current_path current pathname s] Let_def take drop t255
          if_not_P[OF ne] if_not_P[OF False] sep_def[symmetric] rest_def[symmetric] next_path_def[symmetric]
          check mounted_root_def ..
      then show ?thesis unfolding comps walk.simps ih .
    qed
  qed
qed

lemma vfs_lookup_run:
  assumes "root_inode s = Some r" "r \<noteq> NULL" "length pathname < 255"
  shows "vfs_lookup_inode pathname s = walk [] r (components pathname) s"
proof -
  define p where "p = (if pathname \<noteq> [] \<and> hd pathname = 47 then tl pathname else pathname)"
  have comps: "components (trim_slashes p) = components pathname"
    unfolding components_trim p_def by (cases pathname) auto
  have "length (trim_slashes p) \<le> length pathname" by (rule order_trans[OF length_trim]) (simp add: p_def)
  then have len: "length [47 :: u8] + length (trim_slashes p) \<le> 255" using assms(3) by simp
  have "lookup_inode_from slash [47] r (trim_slashes p) s = walk [] r (components pathname) s" for slash
    using lookup_from_walk[OF len, of "[]"] unfolding comps by simp
  moreover have "walk [] r (components pathname) s = Some (r, s)" if "trim_slashes p = []"
    using comps that by (metis components_simps(1) walk.simps(1))
  moreover obtain sb where "root_sb s \<noteq> NULL" "sb_at s (root_sb s) = Some sb" "r = sb_root_inode sb"
    using assms(1,2) by (auto simp: root_inode_def bind_eq_Some_conv split: if_splits simp del: at_simps)
  ultimately show ?thesis
    using assms(2) unfolding vfs_lookup_inode_def p_def[symmetric] Let_def by (simp del: at_simps)
qed

text \<open>
  C18. \<open>vfs_lookup_inode\<close> is the walk over the components of the path, for a path of at most 254 bytes:
  slashes in front, between and behind make no difference, each component is looked up in the directory
  before it, and a path where a file system is mounted leads to the root of that file system.
\<close>

theorem vfs_lookup_inode_walk:
  assumes "root_inode s = Some r" "r \<noteq> NULL" "length pathname < 255"
  shows "vfs_lookup_inode pathname s = walk [] r (components pathname) s"
  by (rule vfs_lookup_run[OF assms])

section \<open>Reading and writing at the position\<close>

lemma of_int_int [simp]: "(of_int (int n) :: u32) = of_nat n"
  by simp

lemma ram_file_no_file: "ram_file s c bs \<Longrightarrow> fs_wf s \<Longrightarrow> objs s f = Some (File fl) \<Longrightarrow> f \<notin> file_cells s c"
proof -
  assume a: "ram_file s c bs" "fs_wf s" "objs s f = Some (File fl)"
  obtain i data cap n where "objs s c = Some (Inode i)" "objs s (i_private i) = Some (Ram_node (Ram_file data cap n))"
    "data \<noteq> NULL \<longrightarrow> (\<exists>buf. objs s data = Some (Buf buf))"
    using a(1) unfolding ram_file_def by (metis (full_types))
  then show ?thesis using a(3) fs_wf_NULL[OF a(2)] by (auto simp: file_cells_def)
qed

lemma ram_file_frame:
  "ram_file s c bs \<Longrightarrow> (\<And>a. a \<in> file_cells s c \<Longrightarrow> objs s' a = objs s a) \<Longrightarrow> ram_file s' c bs"
  unfolding ram_file_def file_cells_def by fastforce

lemma ram_file_put_file:
  assumes "ram_file s c bs" "fs_wf s" "objs s f = Some (File fl)"
  shows "ram_file (put f x s) c bs"
  using ram_file_no_file[OF assms] by (intro ram_file_frame[OF assms(1)]) auto

lemma vfs_read_run:
  assumes "fs_wf s" "objs s f = Some (File fl)" "f_op fl = Ramfs_ops" "ram_file s (f_inode fl) bs"
    and "unat sz < 0x80000000" "unat (f_pos fl) + unat sz < 2 ^ 32"
  defines "part \<equiv> take (unat sz) (drop (unat (f_pos fl)) bs)"
  shows "\<exists>s'. vfs_read k f sz s = Some (int (length part), part, s') \<and> fs_wf s' \<and> ram_file s' (f_inode fl) bs \<and>
    objs s' f = Some (File (fl\<lparr>f_pos := f_pos fl + of_nat (length part)\<rparr>))"
proof -
  have f: "f \<noteq> NULL" using assms(2) fs_wf_NULL[OF assms(1)] by auto
  have r: "ramfs_read f sz (f_pos fl) s = Some (int (length part), part)"
    unfolding part_def by (rule ramfs_read_run[OF assms(2,4,5,6)])
  let ?s = "put f (File (fl\<lparr>f_pos := f_pos fl + of_nat (length part)\<rparr>)) s"
  have "fs_wf ?s" "ram_file ?s (f_inode fl) bs"
    using assms(1,2) ram_file_put_file[OF assms(4,1,2)] by (auto intro: fs_wf_put)
  moreover have "vfs_read k f sz s = Some (int (length part), part, if part = [] then s else ?s)"
    using f assms(2,3) r by (simp add: vfs_read_def fop_read_def advance_def at_obj)
  moreover have "fl\<lparr>f_pos := f_pos fl\<rparr> = fl" by simp
  ultimately show ?thesis using assms(1,2,4)
    by (intro exI[of _ "if part = [] then s else ?s"]) auto
qed

text \<open>A file in memory that is opened, and closed after it was read.\<close>

lemma ram_file_fresh:
  assumes "ram_file s q bs" "objs s f = None" "f \<noteq> NULL" "\<And>a. a \<noteq> f \<Longrightarrow> objs s' a = objs s a"
  shows "ram_file s' q bs"
proof -
  have "f \<notin> file_cells s q"
    using assms(1-3) unfolding ram_file_def file_cells_def by fastforce
  then show ?thesis using assms(1,4) by (intro ram_file_frame[OF assms(1)]) metis
qed

lemma close_read_file:
  assumes "fs_wf s" "objs s f = Some (File fl)" "f_op fl = Ramfs_ops" "f_ref_count fl = 1" "ram_file s q bs"
  obtains s' where "vfs_close f s = Some (0, s')" "ram_file s' q bs"
proof -
  have f: "f \<noteq> NULL" using assms(2) fs_wf_NULL[OF assms(1)] by auto
  let ?t = "put f (File (fl\<lparr>f_ref_count := 0\<rparr>)) s"
  have t: "fs_wf ?t" "objs ?t f \<noteq> None" using assms(1,2) by (auto intro: fs_wf_put)
  obtain s' where s': "free_obj f ?t = Some s'" "objs s' = (objs ?t)(f := None)"
    using free_obj_cases[OF t] by metis
  have "vfs_close f s = Some (0, s')"
    using f assms(2-4) s'(1) by (simp add: vfs_close_def fop_close_def ramfs_close_def at_obj)
  moreover have "ram_file s' q bs"
    using ram_file_no_file[OF assms(5,1,2)] s'(2) by (intro ram_file_frame[OF assms(5)]) auto
  ultimately show ?thesis using that by blast
qed

lemma open_ram_file:
  assumes "fs_wf s" "ram_file s q bs" "inode_at s q = Some i" "i_fop i = Ramfs_ops" "vfs_lookup_inode n s = Some (q, s)"
  obtains (none) "vfs_open n 0 s = Some (NULL, s)"
  | (some) f t where "vfs_open n 0 s = Some (f, t)" "f \<noteq> NULL" "fs_wf t" "ram_file t q bs"
      "objs t f = Some (File \<lparr>f_inode = q, f_flags = 0, f_pos = 0, f_ref_count = 1, f_op = Ramfs_ops, f_private = NULL\<rparr>)"
proof -
  have q: "q \<noteq> NULL" using assms(3) fs_wf_NULL[OF assms(1)] by (auto simp: inode_at_def)
  let ?fl = "\<lparr>f_inode = q, f_flags = 0, f_pos = 0, f_ref_count = 1, f_op = Ramfs_ops, f_private = NULL\<rparr>"
  let ?mk = "\<lambda>w. File \<lparr>f_inode = w 0, f_flags = w 1, f_pos = w 2, f_ref_count = w 3, f_op = No_ops, f_private = w 5\<rparr>"
  show ?thesis
  proof (cases rule: new_obj_cases[OF assms(1), of sizeof_file ?mk])
    case 1
    then have "vfs_open n 0 s = Some (NULL, s)" using q assms(5) by (simp add: vfs_open_def)
    then show ?thesis by (rule none)
  next
    case (2 f t)
    have ft: "f \<noteq> q" using 2(4) assms(3) by (auto simp: inode_at_def)
    let ?t = "put f (File ?fl) t"
    have "inode_at t q = Some i" using 2(5) ft assms(3) by (simp add: inode_at_def)
    then have "vfs_open n 0 s = Some (f, ?t)"
      using 2(1,2) q assms(4,5) by (simp add: vfs_open_def fop_open_def ramfs_open_def del: at_simps)
    moreover have "fs_wf ?t" using 2(3,5) by (intro fs_wf_put) simp_all
    moreover have "ram_file ?t q bs" using 2(5) by (intro ram_file_fresh[OF assms(2) 2(4,2)]) simp
    ultimately show ?thesis using 2(2) by (intro some[of f ?t]) simp_all
  qed
qed


section \<open>Names outside the RAM file system\<close>

text \<open>
  When the root is a directory of the RAM file system, a path whose first component is neither a
  name in it nor a mounted path cannot be opened, whatever follows. The entries that \<open>devfs_mount\<close>
  and \<open>procfs_mount\<close> make are in the tree of the VFS, which \<open>vfs_open\<close> does not look at: as long as
  the root has no file \<open>dev\<close>, no path below \<open>/dev\<close> can be opened.
\<close>

theorem vfs_open_unknown:
  assumes "root_inode s = Some r" "ram_dir s r es" "inode_at s r = Some d" "i_iop d = Ramfs_ops"
    and "name \<noteq> []" "47 \<notin> set name" "name \<notin> names es" "mount_get_sb (47 # name) s = NULL"
    and "rest = [] \<or> hd rest = 47" "length name + length rest < 254"
  shows "vfs_open (47 # name @ rest) flags s = Some (NULL, s)"
proof -
  have r: "r \<noteq> NULL" using assms(2) by (simp add: ram_dir_def)
  have comps: "components (47 # name @ rest) = name # components (tl rest)"
    using components_Cons[OF assms(6,5,9)] by simp
  have "ramfs_lookup r name s = Some NULL"
    using ramfs_lookup_run[OF assms(2)] entry_of_absent[OF assms(7)] by simp
  then have "iop_lookup r name s = Some (NULL, s)" using assms(3,4) by (simp add: iop_lookup_def del: at_simps)
  then have "walk [] r (name # components (tl rest)) s = Some (NULL, s)"
    using assms(8) by (simp add: mounted_root_def)
  then have "vfs_lookup_inode (47 # name @ rest) s = Some (NULL, s)"
    using vfs_lookup_run[OF assms(1) r, of "47 # name @ rest"] assms(10) unfolding comps by simp
  then show ?thesis by (simp add: vfs_open_def)
qed

section \<open>Mounted file systems\<close>

lemma root_inode_keep:
  assumes "root_inode s = Some r" "root_sb s' = root_sb s" "\<forall>a. objs s a \<noteq> None \<longrightarrow> objs s' a = objs s a"
  shows "root_inode s' = Some r"
  using assms by (auto simp: root_inode_def bind_eq_Some_conv split: if_splits)

lemma lookup_below_mount:
  assumes "root_inode s = Some r" "r \<noteq> NULL" "vrfs_mounted C d (mount_get_sb (47 # c) s) s" "fs_wf s"
    and "c \<noteq> []" "47 \<notin> set c" "name \<noteq> []" "47 \<notin> set name" "length c + length name < 253"
    and "mount_get_sb (47 # c @ 47 # name) s = NULL" "sb_at s (mount_get_sb (47 # c) s) = Some v"
  shows "vfs_lookup_inode (47 # c) s = Some (sb_root_inode v, s)"
    "vfs_lookup_inode (47 # c @ 47 # name) s = vrfs_lookup (sb_root_inode v) name s"
proof -
  let ?p = "mount_get_sb (47 # c) s"
  obtain x where v: "objs s ?p = Some (Superblock v)" "objs s (sb_root_inode v) = Some (Inode x)" "i_iop x = Vrfs_ops"
    "sb_root_inode v \<noteq> NULL"
    using assms(3,11) by (auto simp: vrfs_mounted_def vrfs_node_def)
  have "?p \<noteq> NULL" using v(1) fs_wf_NULL[OF assms(4)] by auto
  then have root: "mounted_root (47 # c) s = Some (sb_root_inode v)" using assms(11) by (simp add: mounted_root_def Let_def del: at_simps)
  have none: "mounted_root (47 # c @ 47 # name) s = Some NULL" using assms(10) by (simp add: mounted_root_def)
  have look: "iop_lookup (sb_root_inode v) name s = vrfs_lookup (sb_root_inode v) name s"
    using v(2,3) by (simp add: iop_lookup_def at_obj)
  have "components (47 # c) = [c]" "components (47 # c @ 47 # name) = [c, name]"
    using components_Cons[OF assms(6,5), of "[]"] components_Cons[OF assms(6,5), of "47 # name"]
      components_Cons[OF assms(8,7), of "[]"] by simp_all
  moreover have "walk [] r [c] s = Some (sb_root_inode v, s)" using root v(4) by simp
  moreover have "walk [] r [c, name] s = vrfs_lookup (sb_root_inode v) name s"
    using root v(4) none look by (cases "vrfs_lookup (sb_root_inode v) name s") auto
  ultimately show "vfs_lookup_inode (47 # c) s = Some (sb_root_inode v, s)"
    "vfs_lookup_inode (47 # c @ 47 # name) s = vrfs_lookup (sb_root_inode v) name s"
    using vfs_lookup_run[OF assms(1,2), of "47 # c"] vfs_lookup_run[OF assms(1,2), of "47 # c @ 47 # name"] assms(9) by simp_all
qed


section \<open>A file system to look in\<close>

text \<open>The RAM file system of the sample with a root superblock and an empty mount table.\<close>

definition sample_vfs :: "unit fs" where
  "sample_vfs = sample_ramfs\<lparr>
     objs := (objs sample_ramfs)(cell 9 \<mapsto> Superblock \<lparr>sb_magic = 0xDEADBEEF, sb_block_size = 512, sb_max_files = 1024,
       sb_private = NULL, sb_root = NULL, sb_root_inode = cell 10\<rparr>),
     root_sb := cell 9, mount_table := replicate 8 no_mount\<rparr>"

lemma sample_vfs_wf: "fs_wf sample_vfs"
proof -
  have "dom (objs sample_vfs) \<subseteq> cell ` {0..<20}" by (auto simp: sample_vfs_def sample_ramfs_def split: if_splits)
  then show ?thesis using used_heap_wf[of 20] used_cells[of 20]
    by (auto simp: fs_wf_def heap.store_ok_def sample_vfs_def sample_ramfs_def)
qed

lemma sample_vfs_objs: "p \<noteq> cell 9 \<Longrightarrow> objs sample_vfs p = objs sample_ramfs p"
  by (simp add: sample_vfs_def)

lemma sample_vfs_root: "root_inode sample_vfs = Some (cell 10)"
  by (simp add: root_inode_def sample_vfs_def cells sb_at_def)

lemma sample_vfs_mounts: "mount_get_sb at sample_vfs = NULL"
proof -
  have "find_first 0 8 (mounted_at (mount_table sample_vfs) at) = None"
    by (auto simp: find_first_None mounted_at_def sample_vfs_def no_mount_def)
  then show ?thesis by (simp add: mount_get_sb_def)
qed

lemma sample_vfs_dir: "ram_dir sample_vfs (cell 10) [(cell 12, [97], cell 14), (cell 13, [98], cell 17)]"
  by (rule ram_dirI[of _ _ "(fresh_inode 1 NULL)\<lparr>i_type := 2, i_private := cell 11, i_iop := Ramfs_ops, i_fop := Ramfs_ops\<rparr>"])
    (simp_all add: sample_vfs_objs sample_ramfs_objs cells fresh_inode_def cstr_def)

lemma sample_vfs_file: "ram_file sample_vfs (cell 14) [1, 2, 3]"
  unfolding ram_file_def by (simp add: sample_vfs_objs sample_ramfs_objs cells fresh_inode_def)

lemma sample_iop: "inode_at sample_vfs (cell 10) =
    Some ((fresh_inode 1 NULL)\<lparr>i_type := 2, i_private := cell 11, i_iop := Ramfs_ops, i_fop := Ramfs_ops\<rparr>)"
  by (simp add: sample_vfs_objs sample_ramfs_objs cells)

text \<open>The paths \<open>//a/\<close>, \<open>/dev/null\<close>, and the open file.\<close>

lemma vfs_lookup_inode_walk_witness:
  "vfs_lookup_inode [47, 47, 97, 47] sample_vfs = Some (cell 14, sample_vfs)"
proof -
  have "walk [] (cell 10) (components [47, 47, 97, 47]) sample_vfs = Some (cell 14, sample_vfs)"
    using sample_iop ramfs_lookup_run[OF sample_vfs_dir, of "[97]"]
    by (simp add: components_def mounted_root_def sample_vfs_mounts iop_lookup_def sample_names cells del: at_simps)
  then show ?thesis using vfs_lookup_inode_walk[OF sample_vfs_root, of "[47, 47, 97, 47]"] by (simp add: cells)
qed

lemma vfs_open_unknown_witness: "vfs_open (cstr ''/dev/null'') 0 sample_vfs = Some (NULL, sample_vfs)"
  using vfs_open_unknown[OF sample_vfs_root sample_vfs_dir sample_iop, of "cstr ''dev''" "cstr ''/null''" 0]
  by (simp add: sample_vfs_mounts)



end
