(* ===== verification/Shellpath.thy ===== *)
theory Shellpath
  imports Vfs
begin

text \<open>
  The helpers of the shell (\<open>src/src/lib/shell.c\<close>) that work on strings: \<open>normalize_path\<close>, which makes a path
  absolute and resolves its dots, and \<open>int_to_str\<close>, here \<open>shell_int_to_str\<close>. The theory shows that \<open>normalize_path\<close> is the resolution
  of the path's components as long as its tables are large enough, and that \<open>int_to_str\<close> is right for
  numbers below \<open>2 ^ 31\<close> and writes in front of its buffer for all others.
\<close>

section \<open>Paths\<close>

text \<open>
  The loop over the segments: \<open>token\<close> is what is left of the path, \<open>segs\<close> the first \<open>segment_count\<close> entries
  of \<open>segment_storage\<close>, which has room for 32 segments of at most 63 bytes.
\<close>

function parse_segments :: "cstring \<Rightarrow> cstring list \<Rightarrow> cstring list" where
  "parse_segments token segs =
     (if token = [] then segs
      else
        (let segment = take 63 (takeWhile (\<lambda>c. c \<noteq> 47) token);
             rest = drop (length segment) token;
             rest = (if rest \<noteq> [] \<and> hd rest = 47 then tl rest else rest) in
         if segment = [] \<or> segment = [46] then parse_segments rest segs
         else if segment = [46, 46] then parse_segments rest (if length segs > 0 then butlast segs else segs)
         else parse_segments rest (if length segs < 32 then segs @ [segment] else segs)))"
  by pat_completeness auto

termination
proof (relation "measure (\<lambda>(token, segs). length token)", goal_cases)
  case 1
  then show ?case by simp
qed (auto split: if_splits, (case_tac token; auto)+)

declare parse_segments.simps [simp del]

text \<open>The loop that writes a segment to the end of \<open>result\<close>, within its 256 bytes.\<close>

definition append_segment :: "cstring \<Rightarrow> cstring \<Rightarrow> cstring" where
  "append_segment seg result =
     (let len = length result in if len < 254 then result @ 47 # take (255 - (len + 1)) seg else result)"

definition normalize_path :: "cstring \<Rightarrow> cstring option \<Rightarrow> cstring option" where
  "normalize_path current_dir pathname = (case pathname of
     None \<Rightarrow> Some [47]
   | Some pathname \<Rightarrow> do {
       temp \<leftarrow>
         (if pathname \<noteq> [] \<and> hd pathname = 47 then Some (take 255 pathname)
          else do {
            temp \<leftarrow> strcpy_buf 256 current_dir;
            require (temp \<noteq> []);
            let temp = (if last temp \<noteq> 47 \<and> length temp < 255 then temp @ [47] else temp);
            Some (temp @ take (255 - length temp) pathname)
          });
       let token = (if temp \<noteq> [] \<and> hd temp = 47 then tl temp else temp);
       let segs = parse_segments token [];
       Some (if segs = [] then [47] else fold append_segment segs [])
     })"

section \<open>Numbers\<close>

text \<open>
  \<open>temp\<close> is a signed copy of \<open>num\<close>, whose digits are counted; \<open>str\<close> is the buffer of the caller, and an
  index in front of it is an undefined execution.
\<close>

fun count_digits :: "nat \<Rightarrow> nat" where
  "count_digits temp = (if temp > 0 then Suc (count_digits (temp div 10)) else 0)"

declare count_digits.simps [simp del]

fun put_digits :: "nat \<Rightarrow> int \<Rightarrow> bytes \<Rightarrow> bytes option" where
  "put_digits num i str =
     (if num > 0
      then do {
        require (0 \<le> i);
        str \<leftarrow> arr_set str (nat i) (of_nat (48 + num mod 10));
        put_digits (num div 10) (i - 1) str
      }
      else Some str)"

declare put_digits.simps [simp del]

definition shell_int_to_str :: "u32 \<Rightarrow> bytes \<Rightarrow> bytes option" where
  "shell_int_to_str num str =
     (if num = 0 then do { str \<leftarrow> arr_set str 0 48; arr_set str 1 0 }
      else
        (let temp = sint num; digits = count_digits (nat temp) in
         do { str \<leftarrow> put_digits (unat num) (int digits - 1) str; arr_set str digits 0 }))"

section \<open>What a path means\<close>

text \<open>A path relative to a directory, the directory its components lead to, and the text of a list of components.\<close>

definition absolute :: "cstring \<Rightarrow> cstring \<Rightarrow> cstring" where
  "absolute current_dir p = (if p \<noteq> [] \<and> hd p = 47 then p else current_dir @ 47 # p)"

fun resolve :: "cstring list \<Rightarrow> cstring list \<Rightarrow> cstring list" where
  "resolve at [] = at"
| "resolve at (c # cs) =
     resolve (if c = cstr ''.'' then at else if c = cstr ''..'' then butlast at else at @ [c]) cs"

definition render :: "cstring list \<Rightarrow> cstring" where
  "render cs = (if cs = [] then cstr ''/'' else concat (map (\<lambda>c. 47 # c) cs))"

text \<open>Components without dots, and the bytes a path of them has.\<close>

definition clean :: "cstring list \<Rightarrow> bool" where
  "clean cs \<longleftrightarrow> (\<forall>c \<in> set cs. c \<noteq> [] \<and> c \<noteq> cstr ''.'' \<and> c \<noteq> cstr ''..'' \<and> 47 \<notin> set c)"

definition weight :: "cstring list \<Rightarrow> nat" where
  "weight cs = sum_list (map (\<lambda>c. Suc (length c)) cs)"

lemma weight_simps [simp]: "weight [] = 0" "weight (c # cs) = Suc (length c) + weight cs"
    "weight (cs @ ds) = weight cs + weight ds"
  by (simp_all add: weight_def)

lemma weight_butlast: "weight (butlast cs) \<le> weight cs"
  by (cases cs rule: rev_cases) simp_all

lemma weight_resolve: "weight (resolve at cs) \<le> weight at + weight cs"
proof (induction cs arbitrary: at)
  case (Cons c cs)
  show ?case
    using Cons[of at] Cons[of "butlast at"] Cons[of "at @ [c]"] weight_butlast[of at] by auto
qed simp

lemma clean_resolve:
  "clean at \<Longrightarrow> \<forall>c \<in> set cs. c \<noteq> [] \<and> 47 \<notin> set c \<Longrightarrow> clean (resolve at cs)"
proof (induction cs arbitrary: at)
  case (Cons c cs)
  have "clean (butlast at)" using Cons.prems(1) by (auto simp: clean_def dest: in_set_butlastD)
  moreover have "c \<noteq> cstr ''.'' \<Longrightarrow> c \<noteq> cstr ''..'' \<Longrightarrow> clean (at @ [c])" using Cons.prems by (auto simp: clean_def)
  ultimately show ?case using Cons.prems unfolding resolve.simps by (intro Cons.IH) auto
qed simp

lemma resolve_clean: "clean cs \<Longrightarrow> resolve at cs = at @ cs"
  by (induction cs arbitrary: at) (auto simp: clean_def)

lemma split_slash_Cons:
  obtains h t where "split_slash p = h # t" "split_slash (c # p) = (if c = 47 then [] # h # t else (c # h) # t)"
  using that[of "hd (split_slash p)" "tl (split_slash p)"] by simp

lemma split_slash_no_slash: "47 \<notin> \<Union> (set ` set (split_slash p))"
proof (induction p)
  case (Cons c p)
  obtain h t where "split_slash p = h # t" "split_slash (c # p) = (if c = 47 then [] # h # t else (c # h) # t)"
    by (rule split_slash_Cons)
  with Cons show ?case by (simp del: split_slash.simps)
qed simp

lemma components_token: "c \<in> set (components p) \<Longrightarrow> c \<noteq> [] \<and> 47 \<notin> set c"
  using split_slash_no_slash[of p] by (auto simp: components_def)

lemma split_slash_join: "split_slash (a @ 47 # b) = split_slash a @ split_slash b"
  by (induction a) simp_all

lemma components_slash: "components (a @ 47 # b) = components a @ components b"
  by (simp add: components_def split_slash_join)

lemma weight_components: "weight (components p) \<le> Suc (length p)"
proof -
  have "weight (split_slash p) = Suc (length p)"
  proof (induction p)
    case (Cons c p)
    obtain h t where "split_slash p = h # t" "split_slash (c # p) = (if c = 47 then [] # h # t else (c # h) # t)"
      by (rule split_slash_Cons)
    with Cons show ?case by (simp del: split_slash.simps)
  qed simp
  moreover have "weight (filter P cs) \<le> weight cs" for P cs by (induction cs) simp_all
  ultimately show ?thesis unfolding components_def by metis
qed

section \<open>\<open>normalize_path\<close>\<close>

lemma parse_segments_resolve:
  assumes "\<forall>c \<in> set (components token). length c \<le> 63" "length segs + length (components token) \<le> 32"
  shows "parse_segments token segs = resolve segs (components token)"
  using assms
proof (induction token segs rule: parse_segments.induct)
  case (1 token segs)
  show ?case
  proof (cases "token = []")
    case True
    then show ?thesis by (simp add: parse_segments.simps)
  next
    case ne: False
    define seg where "seg = takeWhile (\<lambda>c. c \<noteq> 47) token"
    define rest where "rest = dropWhile (\<lambda>c. c \<noteq> 47) token"
    have token: "token = seg @ rest" by (simp add: seg_def rest_def)
    have seg: "47 \<notin> set seg" by (auto simp: seg_def dest: set_takeWhileD)
    have rest: "rest = [] \<or> hd rest = 47" unfolding rest_def by (metis (full_types) hd_dropWhile)
    show ?thesis
    proof (cases "seg = []")
      case True
      then obtain p where p: "token = 47 # p" using rest ne token by (cases token) auto
      have "parse_segments token segs = parse_segments p segs" by (simp add: p parse_segments.simps[of "47 # p"])
      moreover have "parse_segments p segs = resolve segs (components p)"
        using "1.IH"(1) "1.prems" by (simp add: p)
      ultimately show ?thesis by (simp add: p)
    next
      case False
      have comps: "components token = seg # components (tl rest)"
        unfolding token using seg False rest by (rule components_Cons)
      have take: "take 63 (takeWhile (\<lambda>c. c \<noteq> 47) token) = seg" using "1.prems"(1) comps by (simp flip: seg_def)
      have drop: "(if drop (length seg) token \<noteq> [] \<and> hd (drop (length seg) token) = 47
          then tl (drop (length seg) token) else drop (length seg) token) = tl rest"
        using rest by (auto simp: token)
      note step = parse_segments.simps[of token segs, unfolded Let_def take drop]
      note IH = "1.IH"[OF ne refl refl refl, unfolded take drop]
      have short: "\<forall>c \<in> set (components (tl rest)). length c \<le> 63" using "1.prems"(1) comps by simp
      have dots: "cstr ''.'' = [46]" "cstr ''..'' = [46, 46]" by simp_all
      consider "seg = [46]" | "seg = [46, 46]" | "seg \<noteq> [46]" "seg \<noteq> [46, 46]" by blast
      then show ?thesis
      proof cases
        case 1
        then show ?thesis using ne IH(1) short "1.prems"(2) by (simp add: step comps)
      next
        case 2
        then show ?thesis using ne IH(2) short "1.prems"(2) unfolding step comps by (cases "segs = []") simp_all
      next
        case 3
        then show ?thesis using ne False IH(3) short "1.prems"(2) comps by (simp add: step comps)
      qed
    qed
  qed
qed

lemma fold_append_segment:
  "length result + weight cs \<le> 255 \<Longrightarrow> clean cs \<Longrightarrow>
    fold append_segment cs result = result @ concat (map (\<lambda>c. 47 # c) cs)"
proof (induction cs arbitrary: result)
  case (Cons c cs)
  then have "append_segment c result = result @ 47 # c"
    by (cases c) (simp_all add: append_segment_def clean_def)
  with Cons show ?case by (simp add: clean_def)
qed simp

lemma components_render: "clean cs \<Longrightarrow> components (render cs) = cs"
proof (induction cs rule: rev_induct)
  case (snoc c cs)
  then have cs: "components (render cs) = cs" "clean cs" and c: "c \<noteq> []" "47 \<notin> set c" by (auto simp: clean_def)
  have "components c = [c]" using components_Cons[of c "[]"] c by simp
  moreover have "components (concat (map (\<lambda>c. 47 # c) cs)) = cs"
    using cs by (cases "cs = []") (simp_all add: render_def)
  moreover have "render (cs @ [c]) = concat (map (\<lambda>c. 47 # c) cs) @ 47 # c" by (simp add: render_def)
  ultimately show ?case by (simp add: components_slash)
qed (simp add: render_def)

text \<open>What fits in the buffers of \<open>normalize_path\<close>.\<close>

definition path_fits :: "cstring \<Rightarrow> bool" where
  "path_fits p \<longleftrightarrow> length p \<le> 255 \<and> length (components p) \<le> 32 \<and> (\<forall>c \<in> set (components p). length c \<le> 63)"

text \<open>The characters in \<open>temp\<close> have the components of the absolute path.\<close>

lemma temp_components:
  assumes "current_dir \<noteq> []" "hd current_dir = 47" "length (absolute current_dir p) \<le> 255"
  obtains temp where "components temp = components (absolute current_dir p)" "length temp \<le> 254"
    "normalize_path current_dir (Some p) =
       Some (let segs = parse_segments temp [] in if segs = [] then [47] else fold append_segment segs [])"
proof (cases "p \<noteq> [] \<and> hd p = 47")
  case True
  then obtain q where "p = 47 # q" by (cases p) auto
  then show ?thesis using that[of q] assms(3) by (simp add: absolute_def normalize_path_def Let_def)
next
  case False
  obtain d where d: "current_dir = 47 # d" using assms(1,2) by (cases current_dir) auto
  have len: "length current_dir + Suc (length p) \<le> 255" using assms(3) False by (auto simp: absolute_def split: if_splits)
  define temp where "temp = (if last current_dir \<noteq> 47 then current_dir @ 47 # p else current_dir @ p)"
  have "components temp = components (absolute current_dir p)"
  proof (cases "last current_dir = 47")
    case True
    then have "current_dir = butlast current_dir @ [47]" using assms(1) by (metis append_butlast_last_id)
    then obtain a where a: "current_dir = a @ [47]" by blast
    have "components (a @ 47 # 47 # p) = components (a @ 47 # p)" by (simp add: components_slash)
    then show ?thesis using False by (auto simp: temp_def absolute_def a)
  next
    case False
    then show ?thesis using \<open>\<not> (p \<noteq> [] \<and> hd p = 47)\<close> by (auto simp: temp_def absolute_def)
  qed
  moreover have "temp \<noteq> []" "hd temp = 47" "length temp \<le> 255" using d len by (simp_all add: temp_def)
  moreover have "normalize_path current_dir (Some p) =
      Some (let segs = parse_segments (tl temp) [] in if segs = [] then [47] else fold append_segment segs [])"
    using False len d unfolding normalize_path_def strcpy_buf_def temp_def by (auto simp: Let_def)
  ultimately show ?thesis using that[of "tl temp"] by (cases temp) auto
qed

lemma normalize_path_run:
  assumes "current_dir \<noteq> []" "hd current_dir = 47" "path_fits (absolute current_dir p)"
  defines "cs \<equiv> resolve [] (components (absolute current_dir p))"
  shows "normalize_path current_dir (Some p) = Some (render cs) \<and> clean cs \<and> components (render cs) = cs"
proof -
  let ?full = "components (absolute current_dir p)"
  have clean: "clean cs" unfolding cs_def by (rule clean_resolve) (auto simp: clean_def dest: components_token)
  obtain temp where temp: "components temp = ?full" "length temp \<le> 254" "normalize_path current_dir (Some p) =
       Some (let segs = parse_segments temp [] in if segs = [] then [47] else fold append_segment segs [])"
    using temp_components[OF assms(1,2), of p] assms(3) unfolding path_fits_def by blast
  have "parse_segments temp [] = cs"
    using parse_segments_resolve[of temp "[]"] temp(1) assms(3) by (simp add: cs_def path_fits_def)
  moreover have "weight cs \<le> 255"
    using weight_resolve[of "[]" ?full] weight_components[of temp] temp by (simp add: cs_def)
  then have "fold append_segment cs [] = concat (map (\<lambda>c. 47 # c) cs)"
    using fold_append_segment[of "[]" cs] clean by simp
  ultimately show ?thesis using temp(3) clean components_render[OF clean] by (simp add: render_def)
qed

text \<open>
  C29. \<open>normalize_path\<close> is the resolution of a path: when the path, made absolute, has at most 255 bytes and 32 components of at
  most 63 bytes each, the result is the text of the list of components that is left when
  \<open>.\<close> is dropped and \<open>..\<close> takes away the one before it; no component of the result is empty, \<open>.\<close> or \<open>..\<close>.
\<close>

theorem normalize_path_resolves:
  assumes "current_dir \<noteq> []" "hd current_dir = 47" "path_fits (absolute current_dir p)"
  defines "cs \<equiv> resolve [] (components (absolute current_dir p))"
  shows "normalize_path current_dir (Some p) = Some (render cs) \<and> clean cs \<and> components (render cs) = cs"
  using normalize_path_run[OF assms(1-3)] unfolding cs_def .

theorem normalize_path_resolves_witness:
  "normalize_path (cstr ''/mnt/a'') (Some (cstr ''../b/./c'')) = Some (cstr ''/mnt/b/c'')"
proof -
  have comps: "components (cstr ''/mnt/a/../b/./c'') = map cstr [''mnt'', ''a'', ''..'', ''b'', ''.'', ''c'']"
    by (simp add: components_def)
  have abs: "absolute (cstr ''/mnt/a'') (cstr ''../b/./c'') = cstr ''/mnt/a/../b/./c''" by (simp add: absolute_def)
  show ?thesis
    using normalize_path_resolves[of "cstr ''/mnt/a''" "cstr ''../b/./c''", unfolded abs comps path_fits_def]
    by (simp add: render_def)
qed

text \<open>Every path gives an absolute path that fits in 256 bytes, also one that is too long for the tables.\<close>

definition abs_path :: "cstring \<Rightarrow> bool" where
  "abs_path p \<longleftrightarrow> p \<noteq> [] \<and> hd p = 47 \<and> length p \<le> 255"

lemma append_segment_abs: "result = [] \<or> abs_path result \<Longrightarrow> abs_path (append_segment seg result)"
  by (auto simp: append_segment_def abs_path_def Let_def)

lemma fold_append_abs: "abs_path result \<Longrightarrow> abs_path (fold append_segment segs result)"
  by (induction segs arbitrary: result) (simp_all add: append_segment_abs)

lemma normalize_path_absolute:
  assumes "abs_path cur"
  obtains r where "normalize_path cur p = Some r" "abs_path r"
proof (cases p)
  case None
  then show ?thesis using that by (simp add: normalize_path_def abs_path_def)
next
  case (Some q)
  define temp where "temp = (let t = if last cur \<noteq> 47 \<and> length cur < 255 then cur @ [47] else cur in t @ take (255 - length t) q)"
  let ?temp = "if q \<noteq> [] \<and> hd q = 47 then take 255 q else temp"
  let ?segs = "parse_segments (if ?temp \<noteq> [] \<and> hd ?temp = 47 then tl ?temp else ?temp) []"
  have "normalize_path cur p = Some (if ?segs = [] then [47] else fold append_segment ?segs [])"
    using assms by (simp add: normalize_path_def Some strcpy_buf_def abs_path_def temp_def Let_def)
  moreover have "abs_path (if segs = [] then [47] else fold append_segment segs [])" for segs
    by (cases segs) (auto simp: append_segment_abs fold_append_abs, simp add: abs_path_def)
  ultimately show ?thesis using that by blast
qed

lemma length_render:
  assumes "p \<noteq> []" "hd p = 47"
  shows "length (render (resolve [] (components p))) \<le> length p"
proof -
  obtain q where q: "p = 47 # q" using assms by (cases p) auto
  have "length (concat (map (\<lambda>c. 47 # c) cs)) = weight cs" for cs :: "cstring list" by (induction cs) simp_all
  then have "length (render cs) \<le> max 1 (weight cs)" for cs by (simp add: render_def)
  moreover have "weight (resolve [] (components p)) \<le> length p"
    using weight_resolve[of "[]" "components p"] weight_components[of q] by (simp add: q)
  moreover have "1 \<le> length p" by (simp add: q)
  ultimately show ?thesis by (metis max.bounded_iff order_trans)
qed

lemma absolute_slash: "abs_path cur \<Longrightarrow> absolute cur p \<noteq> [] \<and> hd (absolute cur p) = 47"
  by (auto simp: absolute_def abs_path_def)

text \<open>An absolute path without dots stays as it is.\<close>

lemma normalize_path_id:
  assumes "current_dir \<noteq> []" "hd current_dir = 47" "clean cs" "path_fits (render cs)"
  shows "normalize_path current_dir (Some (render cs)) = Some (render cs)"
proof -
  have "absolute current_dir (render cs) = render cs"
    by (cases cs) (simp_all add: absolute_def render_def)
  then show ?thesis
    using normalize_path_run[OF assms(1,2), of "render cs"] assms(3,4)
    by (simp add: components_render resolve_clean)
qed

section \<open>\<open>int_to_str\<close>\<close>

text \<open>The string in a buffer.\<close>

definition buf_string :: "bytes \<Rightarrow> cstring" where
  "buf_string b = takeWhile (\<lambda>c. c \<noteq> 0) b"

lemma count_digits_length: "count_digits n = length (temp_digits n)"
proof (induction n rule: count_digits.induct)
  case (1 n)
  then show ?case by (cases "n > 0") (simp_all add: count_digits.simps[of n] count_digits.simps[of 0])
qed

lemma put_digits_write:
  "count_digits n \<le> length str \<Longrightarrow>
    put_digits n (int (count_digits n) - 1) str = Some (rev (temp_digits n) @ drop (count_digits n) str)"
proof (induction n arbitrary: str rule: count_digits.induct)
  case (1 n)
  show ?case
  proof (cases "n > 0")
    case True
    define k where "k = count_digits (n div 10)"
    define d :: u8 where "d = of_nat (48 + n mod 10)"
    have n: "count_digits n = Suc k" using True by (simp add: k_def count_digits.simps[of n])
    have "drop k (str[k := d]) = d # drop (Suc k) str"
      using "1.prems" n by (simp add: drop_update_swap flip: Cons_nth_drop_Suc)
    moreover have "put_digits (n div 10) (int k - 1) (str[k := d]) =
        Some (rev (temp_digits (n div 10)) @ drop k (str[k := d]))"
      using "1.IH"[OF True, of "str[k := d]"] "1.prems" n by (simp add: k_def)
    moreover have "temp_digits n = d # temp_digits (n div 10)" using True by (simp add: d_def del: of_nat_add)
    moreover have "put_digits n (int (count_digits n) - 1) str = put_digits (n div 10) (int k - 1) (str[k := d])"
      unfolding n using True "1.prems" n by (simp add: put_digits.simps[of n] d_def del: of_nat_add)
    ultimately show ?thesis using n by simp
  qed (simp add: count_digits.simps put_digits.simps)
qed

lemma sint_large: "2 ^ 31 \<le> unat (x :: u32) \<Longrightarrow> sint x < 0"
proof -
  assume x: "2 ^ 31 \<le> unat x"
  define k where "k = int (unat x)"
  have "int 2147483648 \<le> k" "k < int 4294967296"
    unfolding k_def of_nat_le_iff of_nat_less_iff using x unat_lt_32'[of x] by simp_all
  then have k: "2147483648 \<le> k" "k < 4294967296" by simp_all
  have "sint x = (k + 2147483648) mod 4294967296 - 2147483648"
    by (simp add: k_def sint_uint signed_take_bit_eq_take_bit_shift take_bit_eq_mod del: of_nat_mod)
  moreover have "(k + 2147483648) mod 4294967296 = k - 2147483648"
    using mod_pos_pos_trivial[of "k - 2147483648" 4294967296] k by (simp add: add.commute flip: mod_add_self2[of "k - 2147483648"])
  ultimately show ?thesis using k by simp
qed

lemma shell_int_to_str_small:
  assumes "10 < length str" "unat num < 2 ^ 31"
  shows "\<exists>b. shell_int_to_str num str = Some b \<and> length b = length str \<and> buf_string b = uint32_to_str num"
proof (cases "num = 0")
  case True
  obtain a b cs where "str = a # b # cs" using assms by (cases str rule: remdups_adj.cases) auto
  then show ?thesis using True by (simp add: shell_int_to_str_def uint32_to_str_def buf_string_def arr_set_def)
next
  case False
  let ?n = "unat num"
  have num: "nat (sint num) = ?n" "num \<noteq> 0" using assms(2) False sint_small[of num] by auto
  have len: "count_digits ?n \<le> 10" using length_temp_digits[of ?n 10] unat_lt_32'[of num] by (simp add: count_digits_length)
  let ?b = "rev (temp_digits ?n) @ 0 # drop (Suc (count_digits ?n)) str"
  have "(rev (temp_digits ?n) @ drop (count_digits ?n) str)[count_digits ?n := 0] = ?b"
    using len assms by (simp add: list_update_append count_digits_length flip: Cons_nth_drop_Suc)
  then have "shell_int_to_str num str = Some ?b"
    using put_digits_write[of ?n str] len assms num by (simp add: shell_int_to_str_def arr_set_def count_digits_length)
  moreover have "length ?b = length str" using len assms by (simp add: count_digits_length)
  moreover have "\<forall>c \<in> set (temp_digits ?n). c \<noteq> 0" by (auto dest!: temp_digits_ok simp: is_digit_def)
  then have "buf_string ?b = uint32_to_str num"
    using num by (simp add: buf_string_def uint32_to_str_def takeWhile_append)
  ultimately show ?thesis by auto
qed

lemma shell_int_to_str_large: "2 ^ 31 \<le> unat num \<Longrightarrow> shell_int_to_str num str = None"
proof -
  assume n: "2 ^ 31 \<le> unat num"
  then have "num \<noteq> 0" by auto
  moreover have "count_digits (nat (sint num)) = 0" using sint_large[OF n] by (simp add: count_digits.simps)
  moreover have "put_digits (unat num) (- 1) str = None"
    using \<open>num \<noteq> 0\<close> by (simp add: put_digits.simps[of "unat num"] unat_gt_0)
  ultimately show ?thesis by (simp add: shell_int_to_str_def)
qed

text \<open>
  The number printer of the shell: for numbers below \<open>2 ^ 31\<close> the buffer of at least 11 bytes holds the
  same digits as those of \<open>uint32_to_str\<close> of the process files; for every number from \<open>2 ^ 31\<close> on, which is negative in its signed
  copy, no digit is counted and the first one is written in front of the buffer.
\<close>

theorem shell_int_to_str_correct:
  assumes "10 < length str"
  shows "if unat num < 2 ^ 31
    then \<exists>b. shell_int_to_str num str = Some b \<and> length b = length str \<and> buf_string b = uint32_to_str num
    else shell_int_to_str num str = None"
  using shell_int_to_str_small[OF assms, of num] shell_int_to_str_large[of num str] by (simp add: not_less)

theorem shell_int_to_str_correct_witness:
  "shell_int_to_str 0x80000000 (replicate 16 0) = None \<and>
   (\<exists>b. shell_int_to_str 1024 (replicate 16 0) = Some b \<and> buf_string b = cstr ''1024'')"
  using shell_int_to_str_correct[where str = "replicate 16 0" and num = "0x80000000"]
    shell_int_to_str_correct[where str = "replicate 16 0" and num = 1024]
  by (auto simp: uint32_to_str_def)

end
