(* ===== verification/Shellfs.thy ===== *)
theory Shellfs
  imports Console Shellpath Netif
begin

text \<open>
  The commands of the shell on files and file systems (\<open>src/src/lib/shell.c\<close>), each with the text it
  prints. They call the virtual file system, the mount table and the block devices.
\<close>

section \<open>State\<close>

text \<open>
  What the shell keeps, and the parts of the kernel its commands reach: the store of the file systems with the
  kernel heap, the state that process files and \<open>ps\<close> show, the page tables and the network interfaces. \<open>command_buffer\<close> holds the
  \<open>command_pos\<close> characters typed so far. \<open>sh_frame\<close> is the address of the local \<open>struct file\<close> of
  \<open>cmd_write\<close> and what its memory held: both are arbitrary.
\<close>

record ('d, 'n) shell =
  sh_con :: console
  command_buffer :: bytes
  current_dir :: cstring
  sh_fs :: "'d fs"
  sh_kernel :: kernel_info
  sh_paging :: paging
  sh_net :: "'n netifs"
  sh_frame :: "ptr \<times> open_file"

definition MAX_COMMAND_LENGTH :: nat where "MAX_COMMAND_LENGTH = 256"

section \<open>Output and calls\<close>

definition say :: "cstring \<Rightarrow> ('d, 'n) shell \<Rightarrow> ('d, 'n) shell option" where
  "say str s = do { c \<leftarrow> shell_print str (sh_con s); Some (s\<lparr>sh_con := c\<rparr>) }"

text \<open>Calls of \<open>shell_print\<close> one after the other.\<close>

fun says :: "cstring list \<Rightarrow> ('d, 'n) shell \<Rightarrow> ('d, 'n) shell option" where
  "says [] s = Some s"
| "says (str # strs) s = do { s \<leftarrow> say str s; says strs s }"

text \<open>A string literal that ends with a line feed, and one that starts with it too.\<close>

definition line :: "string \<Rightarrow> cstring" where
  "line str = cstr str @ [10]"

definition nline :: "string \<Rightarrow> cstring" where
  "nline str = 10 # line str"

text \<open>\<open>int_to_str (num, buffer); shell_print (buffer)\<close> with a local buffer of \<open>n\<close> bytes; what it holds before does not matter.\<close>

definition say_num :: "nat \<Rightarrow> u32 \<Rightarrow> ('d, 'n) shell \<Rightarrow> ('d, 'n) shell option" where
  "say_num n num s = do { b \<leftarrow> shell_int_to_str num (replicate n 0); say (buf_string b) s }"

definition call :: "('d fs \<Rightarrow> ('a \<times> 'd fs) option) \<Rightarrow> ('d, 'n) shell \<Rightarrow> ('a \<times> ('d, 'n) shell) option" where
  "call f s = do { (r, t) \<leftarrow> f (sh_fs s); Some (r, s\<lparr>sh_fs := t\<rparr>) }"

text \<open>\<open>!args || args[0] == 0\<close>\<close>

definition no_args :: "cstring option \<Rightarrow> bool" where
  "no_args args \<longleftrightarrow> args = None \<or> args = Some []"

section \<open>Directories\<close>

definition cmd_cd :: "cstring option \<Rightarrow> ('d, 'n) shell \<Rightarrow> ('d, 'n) shell option" where
  "cmd_cd args s =
     (if no_args args then Some (s\<lparr>current_dir := [47]\<rparr>)
      else do {
        normalized \<leftarrow> normalize_path (current_dir s) args;
        (inode, s) \<leftarrow> call (vfs_lookup_inode normalized) s;
        if inode = NULL then says [10 # cstr ''Error: Directory not found: '', normalized, [10]] s
        else do {
          i \<leftarrow> inode_at (sh_fs s) inode;
          if i_type i \<noteq> VFS_DIRECTORY then says [10 # cstr ''Error: Not a directory: '', normalized, [10]] s
          else do { d \<leftarrow> strcpy_buf 256 normalized; Some (s\<lparr>current_dir := d\<rparr>) }
        }
      })"

text \<open>The argument of \<open>mkdir\<close> and \<open>rmdir\<close>: up to a space, with a slash in front. The current directory plays no part.\<close>

definition dir_arg :: "cstring \<Rightarrow> cstring" where
  "dir_arg a =
     (let w = takeWhile (\<lambda>c. c \<noteq> 32) a in
      if hd a \<noteq> 47 then 47 # take 254 w else take 255 w)"

definition cmd_mkdir :: "cstring option \<Rightarrow> ('d, 'n) shell \<Rightarrow> ('d, 'n) shell option" where
  "cmd_mkdir path_arg s = (case path_arg of
     None \<Rightarrow> says [nline ''Usage: mkdir <directory>''] s
   | Some a \<Rightarrow>
       (let a = dropWhile (\<lambda>c. c = 32) a in
        if a = [] then says [nline ''Usage: mkdir <directory>''] s
        else do {
          let p = dir_arg a;
          s \<leftarrow> says [10 # cstr ''Creating directory: '', p, [10]] s;
          (r, s) \<leftarrow> call (vfs_mkdir (Some p) 0x1ED) s;
          if r = 0 then says [line ''  Success!''] s
          else says [line ''  Error: Failed to create directory'',
              line ''  (Check if parent exists or name is valid)''] s
        }))"

definition cmd_rmdir :: "cstring option \<Rightarrow> ('d, 'n) shell \<Rightarrow> ('d, 'n) shell option" where
  "cmd_rmdir path_arg s = (case path_arg of
     None \<Rightarrow> says [nline ''Usage: rmdir <directory>''] s
   | Some a \<Rightarrow>
       (let a = dropWhile (\<lambda>c. c = 32) a in
        if a = [] then says [nline ''Usage: rmdir <directory>''] s
        else do {
          let p = dir_arg a;
          s \<leftarrow> says [10 # cstr ''Removing directory: '', p, [10]] s;
          (r, s) \<leftarrow> call (vfs_rmdir (Some p)) s;
          if r = 0 then says [line ''  Success!''] s
          else says [line ''  Error: Failed to remove directory'',
              line ''  (Directory must be empty or may not exist)''] s
        }))"

section \<open>Listing\<close>

text \<open>
  The entries of a directory in memory, at most \<open>n\<close> of them: prints each one and gives the number printed.
\<close>

fun list_ramfs :: "nat \<Rightarrow> ptr \<Rightarrow> ('d, 'n) shell \<Rightarrow> (nat \<times> ('d, 'n) shell) option" where
  "list_ramfs 0 entry s = Some (0, s)"
| "list_ramfs (Suc n) entry s =
     (if entry = NULL then Some (0, s)
      else do {
        s \<leftarrow> says [cstr ''  ''] s;
        e \<leftarrow> dirent_at (sh_fs s) entry;
        type \<leftarrow> (if rd_inode e = NULL then Some None
          else do { i \<leftarrow> inode_at (sh_fs s) (rd_inode e); Some (Some (i_type i, i_size i)) });
        s \<leftarrow> says [if type \<noteq> None \<and> fst (the type) = VFS_DIRECTORY then cstr ''[DIR]  '' else cstr ''[FILE] '',
          rd_name e] s;
        s \<leftarrow> (if type \<noteq> None \<and> fst (the type) \<noteq> VFS_DIRECTORY
          then do {
            s \<leftarrow> says [cstr '' ('' ] s;
            s \<leftarrow> say_num 16 (snd (the type)) s;
            says [cstr '' bytes)''] s
          }
          else Some s);
        s \<leftarrow> says [[10]] s;
        (count, s) \<leftarrow> list_ramfs n (rd_next e) s;
        Some (Suc count, s)
      })"

definition say_count :: "nat \<Rightarrow> ('d, 'n) shell \<Rightarrow> ('d, 'n) shell option" where
  "say_count count s =
     (if count = 0 then says [line ''  (empty)''] s
      else do {
        s \<leftarrow> says [10 # cstr ''Total: ''] s;
        s \<leftarrow> say_num 16 (of_nat count) s;
        says [line '' item(s)''] s
      })"

definition ls_ramfs :: "inode \<Rightarrow> ('d, 'n) shell \<Rightarrow> ('d, 'n) shell option" where
  "ls_ramfs i s =
     (if i_private i = NULL then says [line ''  Error: Invalid directory''] s
      else do {
        node \<leftarrow> node_at (sh_fs s) (i_private i);
        let entry = (case node of Ram_dir e _ \<Rightarrow> e | Ram_file d _ _ \<Rightarrow> d);
        (count, s) \<leftarrow> list_ramfs 1000 entry s;
        s \<leftarrow> (if count \<ge> 1000
          then says [line ''  Warning: Directory listing truncated (too many entries or loop detected)''] s
          else Some s);
        say_count count s
      })"

text \<open>
  The entries of a directory block. A name is printed up to its zero, which need not be among
  the 28 bytes of its own entry.
\<close>

fun list_block :: "bytes \<Rightarrow> nat \<Rightarrow> nat \<Rightarrow> ('d, 'n) shell \<Rightarrow> (nat \<times> ('d, 'n) shell) option" where
  "list_block bs i 0 s = Some (0, s)"
| "list_block bs i (Suc n) s =
     (if entry_no bs i = 0 then list_block bs (Suc i) n s
      else do {
        let rest = drop (sizeof_vrfs_dirent * i + 4) bs;
        require (0 \<in> set rest);
        s \<leftarrow> says [cstr ''  [FILE] '', buf_string rest, [10]] s;
        (count, s) \<leftarrow> list_block bs (Suc i) n s;
        Some (Suc count, s)
      })"

text \<open>The directory of a mounted VRFS; the block is read from the device \<open>hda\<close>, whatever is mounted.\<close>

definition ls_vrfs :: "inode \<Rightarrow> ptr \<Rightarrow> ('d, 'n) shell \<Rightarrow> ('d, 'n) shell option" where
  "ls_vrfs i mounted_sb s =
     (if i_private i = NULL then says [line ''  Error: No directory info''] s
      else do {
        dir_info \<leftarrow> info_at (sh_fs s) (i_private i);
        sb \<leftarrow> sb_at (sh_fs s) mounted_sb;
        s \<leftarrow> (if sb_private sb \<noteq> NULL
          then do {
            (r, disk, t) \<leftarrow> vrfs_read_inode (sb_private sb) (ii_no dir_info) (sh_fs s);
            t \<leftarrow> (case disk of None \<Rightarrow> Some t | Some d \<Rightarrow> put_disk (i_private i) (\<lambda>_. d) t);
            Some (s\<lparr>sh_fs := t\<rparr>)
          }
          else Some s);
        dir_info \<leftarrow> info_at (sh_fs s) (i_private i);
        b0 \<leftarrow> arr_get (vi_direct (ii_disk dir_info)) 0;
        if b0 = 0 then says [line ''  (empty - no data block)''] s
        else do {
          (buf, s) \<leftarrow> call (new_buf 512) s;
          if buf = NULL then says [line ''  Error: Memory allocation failed''] s
          else (case blkdev_get (cstr ''hda'') (blk (sh_fs s)) of
              None \<Rightarrow> do {
                s \<leftarrow> says [line ''  Error: Cannot access disk''] s;
                t \<leftarrow> free_obj buf (sh_fs s);
                Some (s\<lparr>sh_fs := t\<rparr>)
              }
            | Some bdev \<Rightarrow> do {
                (r, s) \<leftarrow> call (read_into (Some bdev) b0 buf) s;
                if r < 0
                then do {
                  s \<leftarrow> says [line ''  Error: Cannot read directory''] s;
                  t \<leftarrow> free_obj buf (sh_fs s);
                  Some (s\<lparr>sh_fs := t\<rparr>)
                }
                else do {
                  bs \<leftarrow> buf_at (sh_fs s) buf;
                  require (sizeof_vrfs_dirent * max_entries \<le> length bs);
                  (count, s) \<leftarrow> list_block bs 0 max_entries s;
                  t \<leftarrow> free_obj buf (sh_fs s);
                  say_count count (s\<lparr>sh_fs := t\<rparr>)
                }
              })
        }
      })"

text \<open>The path without trailing slashes, for the mount table.\<close>

definition strip_slashes :: "cstring \<Rightarrow> cstring" where
  "strip_slashes p =
     (let p = take 255 p; q = rev (dropWhile (\<lambda>c. c = 47) (rev p)) in if q = [] then take 1 p else q)"

definition close_file :: "ptr \<Rightarrow> ('d, 'n) shell \<Rightarrow> ('d, 'n) shell option" where
  "close_file f s = do { (r, s) \<leftarrow> call (vfs_close f) s; Some s }"

definition cmd_ls_dir :: "cstring \<Rightarrow> ('d, 'n) shell \<Rightarrow> ('d, 'n) shell option" where
  "cmd_ls_dir p s = do {
     s \<leftarrow> says [10 # cstr ''Files in '', p, line '':''] s;
     (f, s) \<leftarrow> call (vfs_open p 0) s;
     if f = NULL then says [line ''  Error: Cannot access directory''] s
     else do {
       fl \<leftarrow> file_at (sh_fs s) f;
       i \<leftarrow> inode_at (sh_fs s) (f_inode fl);
       if i_type i \<noteq> VFS_DIRECTORY
       then do { s \<leftarrow> says [line ''  Error: Not a directory''] s; close_file f s }
       else do {
         let mounted_sb = mount_get_sb (strip_slashes p) (sh_fs s);
         s \<leftarrow> (if mounted_sb \<noteq> NULL then ls_vrfs i mounted_sb s else ls_ramfs i s);
         close_file f s
       }
     }
   }"

definition cmd_ls :: "cstring option \<Rightarrow> ('d, 'n) shell \<Rightarrow> ('d, 'n) shell option" where
  "cmd_ls args s =
     (let a = (case args of None \<Rightarrow> [] | Some a \<Rightarrow> dropWhile (\<lambda>c. c = 32) a) in
      if a \<noteq> [] then do { normalized \<leftarrow> normalize_path (current_dir s) (Some a); cmd_ls_dir normalized s }
      else cmd_ls_dir (current_dir s) s)"

section \<open>Files\<close>

definition cmd_rm :: "cstring option \<Rightarrow> ('d, 'n) shell \<Rightarrow> ('d, 'n) shell option" where
  "cmd_rm args s =
     (if no_args args then says [nline ''Usage: rm <file>''] s
      else do {
        normalized \<leftarrow> normalize_path (current_dir s) args;
        s \<leftarrow> says [10 # cstr ''Removing file: '', normalized, [10]] s;
        (r, s) \<leftarrow> call (vfs_unlink (Some normalized)) s;
        if r = 0 then says [line ''File removed successfully.''] s
        else says [line ''Error: Failed to remove file.''] s
      })"

text \<open>\<open>cat\<close> reads once, into a buffer of 512 bytes, and prints the string in it.\<close>

definition cmd_cat :: "cstring \<Rightarrow> ('d, 'n) shell \<Rightarrow> ('d, 'n) shell option" where
  "cmd_cat filename s = do {
     normalized \<leftarrow> normalize_path (current_dir s) (Some filename);
     (f, s) \<leftarrow> call (vfs_open normalized 0) s;
     if f = NULL then says [10 # cstr ''Error: Cannot open file '' @ [39], normalized, [39, 10]] s
     else do {
       s \<leftarrow> says [[10]] s;
       (r, bs, t) \<leftarrow> vfs_read (sh_kernel s) f 511 (sh_fs s);
       let s = s\<lparr>sh_fs := t\<rparr>;
       s \<leftarrow> (if r > 0
         then do {
           require (nat r \<le> length bs \<and> nat r < 512);
           says [buf_string (take (nat r) bs)] s
         }
         else says [line ''(empty file)''] s);
       close_file f s
     }
   }"

text \<open>The function \<open>create\<close> of a directory's table of operations; the other tables have none.\<close>

definition can_create :: "fs_ops \<Rightarrow> bool" where
  "can_create ops \<longleftrightarrow> ops = Ramfs_ops \<or> ops = Vrfs_ops"

definition iop_create :: "ptr \<Rightarrow> cstring \<Rightarrow> 'd fs \<Rightarrow> (ptr \<times> 'd fs) option" where
  "iop_create dir name s = do {
     d \<leftarrow> inode_at s dir;
     case i_iop d of
       Ramfs_ops \<Rightarrow> ramfs_create dir name s
     | Vrfs_ops \<Rightarrow> Vrfs.vrfs_create dir name s
     | _ \<Rightarrow> None
   }"

text \<open>What both commands check first: whether the file system at \<open>/mnt\<close> can create files.\<close>

definition mnt_creates :: "'d fs \<Rightarrow> bool option" where
  "mnt_creates s =
     (let sb = mount_get_sb (cstr ''/mnt'') s in
      if sb = NULL then Some False
      else do {
        b \<leftarrow> sb_at s sb;
        if sb_root_inode b = NULL then Some False
        else do { i \<leftarrow> inode_at s (sb_root_inode b); Some (can_create (i_iop i)) }
      })"

text \<open>
  The part that \<open>touch\<close> and \<open>write\<close> share: the directory and the name of a normalized path, with the error
  messages, and the new file; \<open>NULL\<close> when there is none.
\<close>

definition create_file :: "cstring \<Rightarrow> ('d, 'n) shell \<Rightarrow> (ptr \<times> ('d, 'n) shell) option" where
  "create_file normalized s = (case last_slash normalized of
     None \<Rightarrow> do { s \<leftarrow> says [line ''Error: Invalid path''] s; Some (NULL, s) }
   | Some l \<Rightarrow> do {
       parent_path \<leftarrow> (if l = 0 then Some [47] else strcpy_buf 256 (take l normalized));
       let filename = take 63 (drop (Suc l) normalized);
       if filename = [] then do { s \<leftarrow> says [line ''Error: Invalid filename!''] s; Some (NULL, s) }
       else do {
         (parent, s) \<leftarrow> call (vfs_lookup_inode parent_path) s;
         is_dir \<leftarrow> (if parent = NULL then Some False
           else do { i \<leftarrow> inode_at (sh_fs s) parent; Some (i_type i = VFS_DIRECTORY) });
         if \<not> is_dir then do { s \<leftarrow> says [line ''Error: Parent directory not found!''] s; Some (NULL, s) }
         else do {
           i \<leftarrow> inode_at (sh_fs s) parent;
           if \<not> can_create (i_iop i)
           then do { s \<leftarrow> says [line (''Error: Directory doesn'' @ [CHR 39] @ ''t support file creation!'')] s; Some (NULL, s) }
           else do {
             (inode, s) \<leftarrow> call (iop_create parent filename) s;
             if inode = NULL then do { s \<leftarrow> says [line ''Error: Failed to create file!''] s; Some (NULL, s) }
             else Some (inode, s)
           }
         }
       }
     })"

definition cmd_touch :: "cstring option \<Rightarrow> ('d, 'n) shell \<Rightarrow> ('d, 'n) shell option" where
  "cmd_touch args s = (case args of
     None \<Rightarrow> says [nline ''Usage: touch <filename>'', line ''Example: touch /mnt/test.txt''] s
   | Some a \<Rightarrow>
       if a = [] then says [nline ''Usage: touch <filename>'', line ''Example: touch /mnt/test.txt''] s
       else do {
         s \<leftarrow> says [10 # cstr ''Creating file: '', a, [10]] s;
         ok \<leftarrow> mnt_creates (sh_fs s);
         if \<not> ok
         then says [line (''Error: /mnt not mounted or doesn'' @ [CHR 39] @ ''t support file creation!'')] s
         else do {
           normalized \<leftarrow> normalize_path (current_dir s) (Some a);
           (inode, s) \<leftarrow> create_file normalized s;
           if inode = NULL then Some s
           else says [cstr ''Success! File created: '', normalized, [10]] s
         }
       })"

text \<open>The local \<open>struct file\<close>: four of its members are set, the others are what the stack holds there.\<close>

definition write_new :: "ptr \<Rightarrow> cstring \<Rightarrow> ('d, 'n) shell \<Rightarrow> (int \<times> ('d, 'n) shell) option" where
  "write_new inode content s = do {
     i \<leftarrow> inode_at (sh_fs s) inode;
     let (f, old) = sh_frame s;
     require (objs (sh_fs s) f = None);
     require (i_fop i \<noteq> No_ops);
     let t = put f (File (old\<lparr>f_inode := inode, f_flags := 0, f_pos := 0, f_op := i_fop i\<rparr>)) (sh_fs s);
     (r, t) \<leftarrow> fop_write (i_fop i) f content (of_nat (length content)) 0 t;
     Some (r, s\<lparr>sh_fs := t\<lparr>objs := (objs t)(f := None)\<rparr>\<rparr>)
   }"

definition cmd_write :: "cstring option \<Rightarrow> ('d, 'n) shell \<Rightarrow> ('d, 'n) shell option" where
  "cmd_write args s =
     (if no_args args
      then says [nline ''Usage: write <filename> <text>'', line ''Example: write /mnt/hello.txt Hello World''] s
      else
        (let filename = takeWhile (\<lambda>c. c \<noteq> 32) (the args); content = drop (length filename) (the args) in
         if content = [] then says [nline ''Error: Text required!''] s
         else do {
           ok \<leftarrow> mnt_creates (sh_fs s);
           if \<not> ok
           then says [10 # line (''Error: /mnt not mounted or doesn'' @ [CHR 39] @ ''t support file creation!'')] s
           else do {
             normalized \<leftarrow> normalize_path (current_dir s) (Some (take 255 filename));
             s \<leftarrow> says [10 # cstr ''Writing to file: '', normalized, [10]] s;
             (inode, s) \<leftarrow> create_file normalized s;
             if inode = NULL then Some s
             else do {
               (written, s) \<leftarrow> write_new inode (tl content) s;
               if written < 0 then says [line ''Error: Failed to write data!''] s
               else do {
                 s \<leftarrow> says [cstr ''Success! Wrote ''] s;
                 s \<leftarrow> say_num 16 (of_int written) s;
                 says [cstr '' bytes to '', normalized, [10]] s
               }
             }
           }
         }))"

section \<open>Disks and mounts\<close>

text \<open>Four words of the block that was read back, in hexadecimal.\<close>

definition hex_digit :: "u32 \<Rightarrow> u8" where
  "hex_digit v = cstr ''0123456789ABCDEF'' ! unat (v AND 0xF)"

definition hex_word :: "u32 \<Rightarrow> cstring" where
  "hex_word v = map (\<lambda>i. hex_digit (drop_bit (4 * (7 - i)) v)) [0..<8]"

definition cmd_mkfs :: "cstring option \<Rightarrow> ('d, 'n) shell \<Rightarrow> ('d, 'n) shell option" where
  "cmd_mkfs args s =
     (if no_args args then says [nline ''Usage: mkfs <device>'', line ''Example: mkfs hda''] s
      else do {
        let a = the args;
        s \<leftarrow> says [10 # cstr ''Formatting '', a, line '' with VRFS...''] s;
        case blkdev_get a (blk (sh_fs s)) of
          None \<Rightarrow> says [line ''Error: Device not found!'',
              line (''Use '' @ [CHR 39] @ ''lsblk'' @ [CHR 39] @ '' to list available devices.'')] s
        | Some bdev \<Rightarrow> do {
            s \<leftarrow> says [line ''Formatting disk...''] s;
            (r, s) \<leftarrow> call (vrfs_mkfs (Some bdev)) s;
            if r \<noteq> 0 then says [line ''ERROR: mkfs failed!''] s
            else do {
              s \<leftarrow> says [cstr ''Success! Filesystem created on '', a, [10], line ''Verifying...''] s;
              (buf, s) \<leftarrow> call (new_buf 512) s;
              if buf = NULL then says [line ''ERROR: Cannot allocate test buffer!''] s
              else do {
                s \<leftarrow> says [line ''Reading back block 0...''] s;
                (r, s) \<leftarrow> call (read_into (Some bdev) 0 buf) s;
                s \<leftarrow> (if r < 0 then says [line ''ERROR: Read failed!''] s
                  else do {
                    bs \<leftarrow> buf_at (sh_fs s) buf;
                    require (16 \<le> length bs);
                    says ([line ''Read OK. Checking magic...'', line ''First 16 bytes:''] @
                      map (\<lambda>j. cstr ''  0x'' @ hex_word (word_at bs (4 * j)) @ [10]) [0..<4] @
                      [if word_at bs 0 = VRFS_MAGIC then line ''Verification: OK!'' else line ''Verification: FAILED!'']) s
                  });
                t \<leftarrow> free_obj buf (sh_fs s);
                Some (s\<lparr>sh_fs := t\<rparr>)
              }
            }
          }
      })"

text \<open>
  The disk is mounted and unmounted once for a test, then entered in the mount table.
\<close>

definition cmd_mount :: "cstring option \<Rightarrow> ('d, 'n) shell \<Rightarrow> ('d, 'n) shell option" where
  "cmd_mount args s =
     (if no_args args
      then says [nline ''Usage: mount <device> <mount_point>'', line ''Example: mount hda /mnt''] s
      else
        (let device = takeWhile (\<lambda>c. c \<noteq> 32) (the args); rest = drop (length device) (the args) in
         if rest = []
         then says [nline ''Error: Mount point required!'', line ''Usage: mount <device> <mount_point>''] s
         else
           (let mount_point = dropWhile (\<lambda>c. c = 32) rest; dev_name = take 15 device in
            do {
              s \<leftarrow> says [10 # cstr ''Mounting '', dev_name, cstr '' at '', mount_point, line ''...''] s;
              (ok, s) \<leftarrow> (case blkdev_get dev_name (blk (sh_fs s)) of
                  None \<Rightarrow> Some (True, s)
                | Some bdev \<Rightarrow> do {
                    s \<leftarrow> says [line ''Device found, testing read...''] s;
                    (test_sb, s) \<leftarrow> call (vrfs_mount (Some bdev)) s;
                    if test_sb \<noteq> NULL
                    then do {
                      s \<leftarrow> says [line ''Superblock read OK!''] s;
                      (r, s) \<leftarrow> call (vrfs_unmount test_sb) s;
                      Some (True, s)
                    }
                    else do {
                      s \<leftarrow> says [line ''ERROR: Cannot read superblock!'',
                        line ''The disk may not be formatted or read failed.''] s;
                      Some (False, s)
                    }
                  });
              if \<not> ok then Some s
              else do {
                (result, s) \<leftarrow> call (mount_fs dev_name mount_point (cstr ''vrfs'')) s;
                if result = - 2
                then says [line (''Error: Already mounted! Use '' @ [CHR 39] @ ''umount'' @ [CHR 39] @ '' first.'')] s
                else if result < 0 then says [line ''Error: Mount system failed!''] s
                else says [cstr ''Success! Filesystem mounted at '', mount_point, [10]] s
              }
            })))"

definition cmd_umount :: "cstring option \<Rightarrow> ('d, 'n) shell \<Rightarrow> ('d, 'n) shell option" where
  "cmd_umount args s =
     (if no_args args then says [nline ''Usage: umount <mount_point>'', line ''Example: umount /mnt''] s
      else do {
        s \<leftarrow> says [10 # cstr ''Unmounting '', the args, line ''...''] s;
        (r, s) \<leftarrow> call (unmount_fs (the args)) s;
        if r < 0 then says [line ''Error: Unmount failed!''] s
        else says [line ''Success! Filesystem unmounted.''] s
      })"

text \<open>
  The list of mounts. The name of a device is looked for among \<open>hda\<close> to \<open>hdd\<close>; a device with another name
  leaves the column empty.
\<close>

definition hd_name :: "nat \<Rightarrow> cstring" where
  "hd_name j = cstr ''hd'' @ [97 + of_nat j]"

definition mount_line :: "mount_point \<Rightarrow> 'd fs \<Rightarrow> cstring list option" where
  "mount_line m s = do {
     vrfs \<leftarrow> (if mp_sb m = NULL then Some False else do { b \<leftarrow> sb_at s (mp_sb m); Some (sb_magic b = VRFS_MAGIC) });
     Some ((case mp_bdev m of
         None \<Rightarrow> [cstr ''none       '']
       | Some d \<Rightarrow> (case find_first 0 4 (\<lambda>j. blkdev_get (hd_name j) (blk s) = Some d) of
           None \<Rightarrow> []
         | Some j \<Rightarrow> [hd_name j, cstr ''        ''])) @
       [mp_path m] @ replicate (15 - length (mp_path m)) [32] @
       [line (if vrfs then ''vrfs'' else ''unknown'')])
   }"

definition cmd_mount_show :: "('d, 'n) shell \<Rightarrow> ('d, 'n) shell option" where
  "cmd_mount_show s = do {
     s \<leftarrow> says [nline ''Mounted Filesystems:'', line ''DEVICE     MOUNT_POINT    TYPE'',
       line ''----------------------------------------''] s;
     (count, s) \<leftarrow> for_range 0 MAX_MOUNT_POINTS (\<lambda>i (count, s). do {
       m \<leftarrow> arr_get (mount_table (sh_fs s)) i;
       if mp_in_use m
       then do { l \<leftarrow> mount_line m (sh_fs s); s \<leftarrow> says l s; Some (Suc count, s) }
       else Some (count, s)
     }) (0 :: nat, s);
     if count = 0 then says [line ''(no mounted filesystems)''] s
     else do {
       s \<leftarrow> says [10 # cstr ''Total: ''] s;
       s \<leftarrow> say_num 16 (of_nat count) s;
       says [line '' mounted filesystem(s)''] s
     }
   }"

section \<open>What commands leave as it is\<close>

text \<open>
  Every command but \<open>cd\<close> keeps the line that is typed and the current directory, and the screen in a state that can be
  printed on. \<open>keeps s0\<close> says so of a state that was reached from \<open>s0\<close>; \<open>keeps_rules\<close> follow a command step by step.
\<close>

definition keeps :: "('d, 'n) shell \<Rightarrow> ('d, 'n) shell \<Rightarrow> bool" where
  "keeps s0 s \<longleftrightarrow> (con_ok (sh_con s0) \<longrightarrow> con_ok (sh_con s)) \<and> command_buffer s = command_buffer s0 \<and>
     current_dir s = current_dir s0"

abbreviation all_keep :: "('d, 'n) shell \<Rightarrow> ('d, 'n) shell option \<Rightarrow> bool" where
  "all_keep s0 m \<equiv> pred_option (keeps s0) m"

abbreviation all_keep2 :: "('d, 'n) shell \<Rightarrow> ('a \<times> ('d, 'n) shell) option \<Rightarrow> bool" where
  "all_keep2 s0 m \<equiv> pred_option (\<lambda>x. keeps s0 (snd x)) m"

lemma keeps_refl [simp]: "keeps s s"
  by (simp add: keeps_def)

lemma keeps_fs [simp]: "keeps s0 (s\<lparr>sh_fs := t\<rparr>) = keeps s0 s"
  by (simp add: keeps_def)

lemma keeps_say:
  assumes "keeps s0 s"
  shows "all_keep s0 (say str s)"
proof (cases "say str s")
  case (Some s')
  then obtain c where c: "shell_print str (sh_con s) = Some c" "s' = s\<lparr>sh_con := c\<rparr>"
    by (auto simp: say_def bind_eq_Some_conv)
  have "con_ok c" if "con_ok (sh_con s)" using print_ok[OF that, of str] c(1) by auto
  then show ?thesis using assms c(2) Some by (simp add: keeps_def)
qed simp

text \<open>Sequences: a step that changes the shell, one that also has a result, and one that only reads.\<close>

lemma keeps_seq:
  "all_keep s0 m \<Longrightarrow> (\<And>s. keeps s0 s \<Longrightarrow> pred_option Q (f s)) \<Longrightarrow> pred_option Q (Option.bind m f)"
  by (cases m) simp_all

lemma keeps_seq2:
  "all_keep2 s0 m \<Longrightarrow> (\<And>r s. keeps s0 s \<Longrightarrow> pred_option Q (f (r, s))) \<Longrightarrow> pred_option Q (Option.bind m f)"
  by (cases m) auto

lemma keeps_read: "(\<And>x. pred_option Q (f x)) \<Longrightarrow> pred_option Q (Option.bind m f)"
  by (cases m) simp_all

lemma keeps_if: "(b \<Longrightarrow> pred_option Q m) \<Longrightarrow> (\<not> b \<Longrightarrow> pred_option Q n) \<Longrightarrow> pred_option Q (if b then m else n)"
  by simp

lemma keeps_option:
  "pred_option Q m \<Longrightarrow> (\<And>x. pred_option Q (f x)) \<Longrightarrow> pred_option Q (case y of None \<Rightarrow> m | Some x \<Rightarrow> f x)"
  by (cases y) simp_all

lemma keeps_prod: "(\<And>a b. pred_option Q (f a b)) \<Longrightarrow> pred_option Q (case y of (a, b) \<Rightarrow> f a b)"
  by (cases y) simp

lemma keeps_pair: "pred_option Q (f a b) \<Longrightarrow> pred_option Q (case (a, b) of (a, b) \<Rightarrow> f a b)"
  by simp

lemma keeps_let: "pred_option Q (f x) \<Longrightarrow> pred_option Q (let y = x in f y)"
  by simp

lemma keeps_Some: "keeps s0 s \<Longrightarrow> all_keep s0 (Some s)" "keeps s0 s \<Longrightarrow> all_keep2 s0 (Some (r, s))"
  by simp_all

lemma keeps_set_fs: "keeps s0 s \<Longrightarrow> keeps s0 (s\<lparr>sh_fs := t\<rparr>)"
  by simp

lemma keeps_says: "keeps s0 s \<Longrightarrow> all_keep s0 (says strs s)"
proof (induction strs arbitrary: s)
  case (Cons str strs)
  show ?case unfolding says.simps by (rule keeps_seq[OF keeps_say[OF Cons.prems]]) (rule Cons.IH)
qed simp

lemma keeps_say_num: "keeps s0 s \<Longrightarrow> all_keep s0 (say_num n num s)"
  unfolding say_num_def by (rule keeps_read) (rule keeps_say)

lemma keeps_call: "keeps s0 s \<Longrightarrow> all_keep2 s0 (call f s)"
  unfolding call_def by (rule keeps_read, rule keeps_prod) simp

lemmas keeps_rules = keeps_pair keeps_says keeps_say_num keeps_call keeps_Some keeps_set_fs keeps_let keeps_if keeps_option
  keeps_prod keeps_seq keeps_seq2 keeps_read

lemma keeps_close_file: "keeps s0 s \<Longrightarrow> all_keep s0 (close_file f s)"
  unfolding close_file_def by (rule keeps_rules | assumption)+

lemma keeps_cmd_mkdir: "keeps s0 s \<Longrightarrow> all_keep s0 (cmd_mkdir args s)"
  unfolding cmd_mkdir_def by (rule keeps_rules | assumption)+

lemma keeps_cmd_rmdir: "keeps s0 s \<Longrightarrow> all_keep s0 (cmd_rmdir args s)"
  unfolding cmd_rmdir_def by (rule keeps_rules | assumption)+

lemma keeps_cmd_rm: "keeps s0 s \<Longrightarrow> all_keep s0 (cmd_rm args s)"
  unfolding cmd_rm_def by (rule keeps_rules | assumption)+

lemma keeps_cmd_umount: "keeps s0 s \<Longrightarrow> all_keep s0 (cmd_umount args s)"
  unfolding cmd_umount_def by (rule keeps_rules | assumption)+

lemma keeps_list_ramfs: "keeps s0 s \<Longrightarrow> all_keep2 s0 (list_ramfs n entry s)"
proof (induction n arbitrary: entry s)
  case (Suc n)
  show ?case unfolding list_ramfs.simps by (rule keeps_rules Suc | assumption)+
qed simp

lemma keeps_list_block: "keeps s0 s \<Longrightarrow> all_keep2 s0 (list_block bs i n s)"
proof (induction n arbitrary: i s)
  case (Suc n)
  show ?case unfolding list_block.simps by (rule keeps_rules Suc | assumption)+
qed simp

lemma keeps_say_count: "keeps s0 s \<Longrightarrow> all_keep s0 (say_count n s)"
  unfolding say_count_def by (rule keeps_rules | assumption)+

lemma keeps_ls_ramfs: "keeps s0 s \<Longrightarrow> all_keep s0 (ls_ramfs i s)"
  unfolding ls_ramfs_def by (rule keeps_list_ramfs keeps_say_count keeps_rules | assumption)+

lemma keeps_ls_vrfs: "keeps s0 s \<Longrightarrow> all_keep s0 (ls_vrfs i sb s)"
  unfolding ls_vrfs_def by (rule keeps_list_block keeps_say_count keeps_rules | assumption)+

lemma keeps_cmd_ls_dir: "keeps s0 s \<Longrightarrow> all_keep s0 (cmd_ls_dir p s)"
  unfolding cmd_ls_dir_def by (rule keeps_ls_ramfs keeps_ls_vrfs keeps_close_file keeps_rules | assumption)+

lemma keeps_cmd_ls: "keeps s0 s \<Longrightarrow> all_keep s0 (cmd_ls args s)"
  unfolding cmd_ls_def by (rule keeps_cmd_ls_dir keeps_let keeps_if keeps_read | assumption)+

lemma keeps_cmd_cat: "keeps s0 s \<Longrightarrow> all_keep s0 (cmd_cat filename s)"
  unfolding cmd_cat_def by (rule keeps_close_file keeps_rules | assumption)+

lemma keeps_create_file: "keeps s0 s \<Longrightarrow> all_keep2 s0 (create_file normalized s)"
  unfolding create_file_def by (rule keeps_rules | assumption)+

lemma keeps_write_new: "keeps s0 s \<Longrightarrow> all_keep2 s0 (write_new inode content s)"
  unfolding write_new_def by (rule keeps_rules | assumption)+

lemma keeps_cmd_touch: "keeps s0 s \<Longrightarrow> all_keep s0 (cmd_touch args s)"
  unfolding cmd_touch_def by (rule keeps_create_file keeps_rules | assumption)+

lemma keeps_cmd_write: "keeps s0 s \<Longrightarrow> all_keep s0 (cmd_write args s)"
  unfolding cmd_write_def by (rule keeps_create_file keeps_write_new keeps_rules | assumption)+

lemma keeps_cmd_mkfs: "keeps s0 s \<Longrightarrow> all_keep s0 (cmd_mkfs args s)"
  unfolding cmd_mkfs_def by (rule keeps_rules | assumption)+

lemma keeps_cmd_mount: "keeps s0 s \<Longrightarrow> all_keep s0 (cmd_mount args s)"
  unfolding cmd_mount_def by (rule keeps_rules | assumption)+

lemma keeps_for_range:
  assumes "\<And>i a s. keeps s0 s \<Longrightarrow> all_keep2 s0 (f i (a, s))" "keeps s0 s"
  shows "all_keep2 s0 (for_range i n f (a, s))"
  using assms(2)
proof (induction n arbitrary: i a s)
  case (Suc n)
  show ?case unfolding for_range.simps by (rule keeps_seq2[OF assms(1)[OF Suc.prems]]) (rule Suc.IH)
qed simp

lemma keeps_cmd_mount_show: "keeps s0 s \<Longrightarrow> all_keep s0 (cmd_mount_show s)"
  unfolding cmd_mount_show_def by (rule keeps_for_range keeps_rules | assumption)+

section \<open>What commands print\<close>

lemma say_lines:
  assumes "on_screen (sh_con s) ls"
  obtains c where "say str s = Some (s\<lparr>sh_con := c\<rparr>)" "on_screen c (term_print str ls)"
proof -
  obtain c where "shell_print str (sh_con s) = Some c" "on_screen c (term_print str ls)" using print_lines[OF assms] .
  then show ?thesis using that by (simp add: say_def)
qed

lemma says_lines:
  assumes "on_screen (sh_con s) ls"
  obtains c where "says strs s = Some (s\<lparr>sh_con := c\<rparr>)" "on_screen c (term_print (concat strs) ls)"
  using assms
proof (induction strs arbitrary: s ls thesis)
  case Nil
  then show ?case using Nil.prems(1)[of "sh_con s"] by (simp add: term_print_def)
next
  case (Cons str strs)
  obtain d where d: "say str s = Some (s\<lparr>sh_con := d\<rparr>)" "on_screen d (term_print str ls)"
    using say_lines Cons.prems(2) .
  obtain c where "says strs (s\<lparr>sh_con := d\<rparr>) = Some (s\<lparr>sh_con := c\<rparr>)" "on_screen c (term_print (concat strs) (term_print str ls))"
    using Cons.IH[of "s\<lparr>sh_con := d\<rparr>" "term_print str ls"] d(2) by auto
  with d Cons.prems(1) show ?case by simp
qed

section \<open>\<open>cd\<close>\<close>

text \<open>
  C31. \<open>cd\<close> follows the path from the current directory: the components of the path, with \<open>.\<close> and \<open>..\<close> resolved, are
  walked from the root, and when that ends at a directory its path becomes the current directory; otherwise the
  current directory stays and the error is printed. Nothing else changes but what the walk itself does.
\<close>

theorem cmd_cd_walks:
  assumes "abs_path (current_dir s)" "on_screen (sh_con s) ls" "p \<noteq> []"
    and "path_fits (absolute (current_dir s) p)" "length (absolute (current_dir s) p) < 255"
    and "root_inode (sh_fs s) = Some r" "r \<noteq> NULL"
    and "walk [] r (resolve [] (components (absolute (current_dir s) p))) (sh_fs s) = Some (q, t)"
    and "q \<noteq> NULL \<longrightarrow> inode_at t q = Some i"
  defines "dir \<equiv> render (resolve [] (components (absolute (current_dir s) p)))"
  shows "if q \<noteq> NULL \<and> i_type i = VFS_DIRECTORY
    then cmd_cd (Some p) s = Some (s\<lparr>sh_fs := t, current_dir := dir\<rparr>)
    else \<exists>c. cmd_cd (Some p) s = Some (s\<lparr>sh_fs := t, sh_con := c\<rparr>) \<and>
      on_screen c (term_print (10 # cstr (if q = NULL then ''Error: Directory not found: '' else ''Error: Not a directory: '') @ dir @ [10]) ls)"
proof -
  have abs: "current_dir s \<noteq> []" "hd (current_dir s) = 47" using assms(1) by (simp_all add: abs_path_def)
  have norm: "normalize_path (current_dir s) (Some p) = Some dir" and
    comps: "components dir = resolve [] (components (absolute (current_dir s) p))"
    using normalize_path_run[OF abs assms(4)] by (simp_all add: dir_def)
  have len: "length dir < 255"
    using length_render[of "absolute (current_dir s) p"] absolute_slash[OF assms(1), of p] assms(5) by (simp add: dir_def)
  have look: "call (vfs_lookup_inode dir) s = Some (q, s\<lparr>sh_fs := t\<rparr>)"
    using vfs_lookup_run[OF assms(6,7) len] assms(8) by (simp add: call_def comps)
  note run = cmd_cd_def[of "Some p" s, unfolded no_args_def norm bind.bind_lunit look split_conv]
  have says: "\<exists>c. says [10 # msg, dir, [10]] (s\<lparr>sh_fs := t\<rparr>) = Some (s\<lparr>sh_fs := t, sh_con := c\<rparr>) \<and>
      on_screen c (term_print (10 # msg @ dir @ [10]) ls)" for msg
    using says_lines[of "s\<lparr>sh_fs := t\<rparr>" ls "[10 # msg, dir, [10]]"] assms(2) by (auto simp del: says.simps)
  consider "q = NULL" | "q \<noteq> NULL" "i_type i = VFS_DIRECTORY" | "q \<noteq> NULL" "i_type i \<noteq> VFS_DIRECTORY" by blast
  then show ?thesis
  proof cases
    case 1
    then have "cmd_cd (Some p) s = says [10 # cstr ''Error: Directory not found: '', dir, [10]] (s\<lparr>sh_fs := t\<rparr>)"
      using assms(3) by (simp add: run del: says.simps cstr_simps)
    then show ?thesis using 1 says by (simp del: says.simps cstr_simps)
  next
    case 2
    then show ?thesis using assms(3,9) len by (simp add: run strcpy_buf_def del: at_simps)
  next
    case 3
    then have "cmd_cd (Some p) s = says [10 # cstr ''Error: Not a directory: '', dir, [10]] (s\<lparr>sh_fs := t\<rparr>)"
      using assms(3,9) by (simp add: run del: says.simps cstr_simps at_simps)
    then show ?thesis using 3 says by (simp del: says.simps cstr_simps)
  qed
qed

section \<open>\<open>cat\<close>\<close>

text \<open>
  \<open>cat\<close> of a file in memory shows its first 511 bytes up to the first zero, or that the file is empty, and leaves the file as it
  is; when there is no memory for the open file it says that the file cannot be opened.
\<close>

theorem cmd_cat_shows:
  assumes "fs_wf (sh_fs s)" "ram_file (sh_fs s) q bs" "inode_at (sh_fs s) q = Some i" "i_fop i = Ramfs_ops"
    and "normalize_path (current_dir s) (Some name) = Some n" "vfs_lookup_inode n (sh_fs s) = Some (q, sh_fs s)"
    and "on_screen (sh_con s) ls"
  shows "\<exists>s'. cmd_cat name s = Some s' \<and> ram_file (sh_fs s') q bs \<and> on_screen (sh_con s') (term_print
    (10 # (if vfs_open n 0 (sh_fs s) = Some (NULL, sh_fs s) then cstr ''Error: Cannot open file '' @ [39] @ n @ [39, 10]
      else if bs = [] then line ''(empty file)'' else buf_string (take 511 bs))) ls)"
  using assms(1-4,6)
proof (cases rule: open_ram_file)
  case none
  obtain c where c: "says [10 # cstr ''Error: Cannot open file '' @ [39], n, [39, 10]] s = Some (s\<lparr>sh_con := c\<rparr>)"
    "on_screen c (term_print (concat [10 # cstr ''Error: Cannot open file '' @ [39], n, [39, 10]]) ls)"
    using says_lines[OF assms(7)] .
  have "call (vfs_open n 0) s = Some (NULL, s)" using none by (simp add: call_def)
  then have "cmd_cat name s = Some (s\<lparr>sh_con := c\<rparr>)"
    using c(1) assms(5) by (simp add: cmd_cat_def del: says.simps cstr_simps)
  then show ?thesis using none c(2) assms(2) by (simp del: cstr_simps)
next
  case (some f t)
  let ?part = "take 511 bs"
  obtain c where c: "says [[10]] (s\<lparr>sh_fs := t\<rparr>) = Some (s\<lparr>sh_fs := t, sh_con := c\<rparr>)" "on_screen c (term_print [10] ls)"
    using says_lines[of "s\<lparr>sh_fs := t\<rparr>" ls "[[10]]"] assms(7) by auto
  obtain u where u: "vfs_read (sh_kernel s) f 511 t = Some (int (length ?part), ?part, u)" "fs_wf u" "ram_file u q bs"
    "objs u f = Some (File \<lparr>f_inode = q, f_flags = 0, f_pos = of_nat (length ?part), f_ref_count = 1, f_op = Ramfs_ops,
       f_private = NULL\<rparr>)"
    using vfs_read_run[OF some(3,5), of bs 511 "sh_kernel s"] some(4) by auto
  let ?text = "if bs = [] then line ''(empty file)'' else buf_string ?part"
  obtain d where d: "says [?text] (s\<lparr>sh_con := c, sh_fs := u\<rparr>) = Some (s\<lparr>sh_fs := u, sh_con := d\<rparr>)"
    "on_screen d (term_print ?text (term_print [10] ls))"
    using says_lines[of "s\<lparr>sh_con := c, sh_fs := u\<rparr>" "term_print [10] ls" "[?text]"] c(2) by (auto simp del: says.simps)
  obtain w where w: "vfs_close f u = Some (0, w)" "ram_file w q bs" using close_read_file[OF u(2,4)] u(3) by auto
  have "call (vfs_open n 0) s = Some (f, s\<lparr>sh_fs := t\<rparr>)" using some(1) by (simp add: call_def)
  moreover have "take (min (length bs) 511) bs = ?part" "min (length bs) 511 < 512" by (simp_all add: min_def)
  moreover have "close_file f (s\<lparr>sh_fs := u, sh_con := d\<rparr>) = Some (s\<lparr>sh_fs := w, sh_con := d\<rparr>)"
    using w(1) by (simp add: close_file_def call_def)
  ultimately have "cmd_cat name s = Some (s\<lparr>sh_fs := w, sh_con := d\<rparr>)"
    using some(2) c(1) u(1) d(1) assms(5) by (cases "bs = []") (simp_all add: cmd_cat_def del: says.simps)
  moreover have "vfs_open n 0 (sh_fs s) \<noteq> Some (NULL, sh_fs s)" using some(1,2) by simp
  moreover have "term_print (10 # ?text) ls = term_print ?text (term_print [10] ls)" by (simp add: term_print_def)
  ultimately show ?thesis using w(2) d(2) by simp
qed

section \<open>Relative paths that are not\<close>

text \<open>\<open>mkdir\<close> and \<open>rmdir\<close> take a path without a slash in front from the root, wherever the shell is.\<close>

lemma dir_arg_root: "p \<noteq> [] \<Longrightarrow> hd p \<noteq> 32 \<Longrightarrow> hd p \<noteq> 47 \<Longrightarrow> dir_arg p = dir_arg (47 # p)"
  by (cases p) (simp_all add: dir_arg_def Let_def)

text \<open>\<open>touch\<close> creates no file anywhere unless something is mounted at \<open>/mnt\<close>.\<close>

lemma touch_needs_mnt:
  assumes "mount_get_sb (cstr ''/mnt'') (sh_fs s) = NULL" "a \<noteq> []" "on_screen (sh_con s) ls"
  shows "\<exists>c. cmd_touch (Some a) s = Some (s\<lparr>sh_con := c\<rparr>)"
proof -
  obtain c where c: "says [10 # cstr ''Creating file: '', a, [10]] s = Some (s\<lparr>sh_con := c\<rparr>)"
    "on_screen c (term_print (concat [10 # cstr ''Creating file: '', a, [10]]) ls)"
    using says_lines[OF assms(3)] .
  obtain d where d: "says [line (''Error: /mnt not mounted or doesn'' @ [CHR 39] @ ''t support file creation!'')] (s\<lparr>sh_con := c\<rparr>)
      = Some (s\<lparr>sh_con := d\<rparr>)"
    using says_lines[of "s\<lparr>sh_con := c\<rparr>", simplified, OF c(2), of "[line (''Error: /mnt not mounted or doesn'' @ [CHR 39] @ ''t support file creation!'')]"]
    by (metis (no_types))
  have "mnt_creates (sh_fs (s\<lparr>sh_con := c\<rparr>)) = Some False"
    using assms(1) unfolding mnt_creates_def Let_def by (simp del: cstr_simps)
  then show ?thesis using assms(2) c(1) d by (intro exI[of _ d]) (simp add: cmd_touch_def del: says.simps cstr_simps)
qed

section \<open>A shell\<close>

text \<open>The shell in front of the sample of the VFS: the root has a file \<open>a\<close> and a directory \<open>b\<close>.\<close>

definition sample_shell :: "(unit, unit) shell" where
  "sample_shell = \<lparr>sh_con = blank_console, command_buffer = [], current_dir = [47], sh_fs = sample_vfs,
     sh_kernel = \<lparr>k_ticks = 0, k_pmm = pmm_init 0, k_tasking = two_tasking\<rparr>,
     sh_paging = \<lparr>phys = (\<lambda>_. 0), pg_frames = pmm_init 0, current_directory = 0x1000, kernel_directory = 0x1000,
       kernel_tables = 0x2000, cr0 = 0, cr3 = 0\<rparr>,
     sh_net = \<lparr>netifs = [], netif_count = 0, nif_dev = ()\<rparr>,
     sh_frame = (0x9000, \<lparr>f_inode = 0, f_flags = 0, f_pos = 0, f_ref_count = 0, f_op = No_ops, f_private = 0\<rparr>)\<rparr>"

lemma sample_shell_simps [simp]:
  "sh_con sample_shell = blank_console" "current_dir sample_shell = [47]" "sh_fs sample_shell = sample_vfs"
  "command_buffer sample_shell = []"
  by (simp_all add: sample_shell_def)

lemma sample_walks:
  "walk [] (cell 10) [[97]] sample_vfs = Some (cell 14, sample_vfs)"
  "walk [] (cell 10) [[98]] sample_vfs = Some (cell 17, sample_vfs)"
  using sample_iop ramfs_lookup_run[OF sample_vfs_dir, of "[97]"] ramfs_lookup_run[OF sample_vfs_dir, of "[98]"]
  by (simp_all add: mounted_root_def sample_vfs_mounts iop_lookup_def sample_names cells del: at_simps)

lemma sample_cells: "cell 10 \<noteq> NULL" "cell 14 \<noteq> NULL" "cell 17 \<noteq> NULL"
  by (simp_all add: cells)

lemma sample_paths: "components [97] = [[97]]" "components [98] = [[98]]"
  by (simp_all add: components_def)

text \<open>\<open>cd b\<close> and \<open>cat a\<close>\<close>

theorem cmd_cd_walks_witness:
  "cmd_cd (Some [98]) sample_shell = Some (sample_shell\<lparr>current_dir := [47, 98]\<rparr>)"
proof -
  have i: "inode_at sample_vfs (cell 17) =
      Some ((fresh_inode 3 NULL)\<lparr>i_type := 2, i_private := cell 18, i_iop := Ramfs_ops, i_fop := Ramfs_ops\<rparr>)"
    by (simp add: sample_vfs_objs sample_ramfs_objs cells)
  have abs: "absolute [47] [98] = [47, 47, 98]" by (simp add: absolute_def)
  have "sample_shell\<lparr>sh_fs := sample_vfs, current_dir := [47, 98]\<rparr> = sample_shell\<lparr>current_dir := [47, 98]\<rparr>"
    by (rule shell.equality) simp_all
  then show ?thesis
    using cmd_cd_walks[of sample_shell "[[]]" "[98]" "cell 10" "cell 17" sample_vfs, OF _ _ _ _ _ _ sample_cells(1)]
      blank_shows sample_vfs_root sample_walks(2) i sample_cells(3)
    by (simp add: abs sample_paths path_fits_def abs_path_def render_def fresh_inode_def del: at_simps)
qed

theorem cmd_cat_shows_witness:
  "\<exists>s'. cmd_cat [97] sample_shell = Some s' \<and> ram_file (sh_fs s') (cell 14) [1, 2, 3] \<and>
    (vfs_open [47, 97] 0 sample_vfs \<noteq> Some (NULL, sample_vfs) \<longrightarrow> on_screen (sh_con s') [[], [1, 2, 3]])"
proof -
  have i: "inode_at sample_vfs (cell 14) =
      Some ((fresh_inode 2 NULL)\<lparr>i_size := 3, i_private := cell 15, i_iop := Ramfs_ops, i_fop := Ramfs_ops\<rparr>)"
    by (simp add: sample_vfs_objs sample_ramfs_objs cells)
  have norm: "normalize_path [47] (Some [97]) = Some [47, 97]"
    using normalize_path_run[of "[47]" "[97]"] by (simp add: absolute_def sample_paths path_fits_def render_def)
  have look: "vfs_lookup_inode [47, 97] sample_vfs = Some (cell 14, sample_vfs)"
    using vfs_lookup_run[OF sample_vfs_root sample_cells(1), of "[47, 97]"] sample_walks(1) by (simp add: sample_paths)
  obtain s' where s': "cmd_cat [97] sample_shell = Some s'" "ram_file (sh_fs s') (cell 14) [1, 2, 3]"
    "on_screen (sh_con s') (term_print (10 # (if vfs_open [47, 97] 0 sample_vfs = Some (NULL, sample_vfs)
       then cstr ''Error: Cannot open file '' @ [39] @ [47, 97] @ [39, 10]
       else if [1, 2, 3] = ([] :: bytes) then line ''(empty file)'' else buf_string (take 511 [1, 2, 3]))) [[]])"
    using cmd_cat_shows[of sample_shell "cell 14" "[1, 2, 3]" _ "[97]" "[47, 97]" "[[]]", unfolded sample_shell_simps,
      OF sample_vfs_wf sample_vfs_file i _ norm look blank_shows] by auto
  have "term_print (10 # buf_string (take 511 [1, 2, 3])) [[]] = [[], [1, 2, 3]]"
    by (simp add: term_print_def term_put_def buf_string_def)
  with s' show ?thesis by (intro exI[of _ s']) auto
qed

end
