(* ===== verification/Shellinfo.thy ===== *)
theory Shellinfo
  imports Shellfs
begin

text \<open>
  The commands of the shell (\<open>src/src/lib/shell.c\<close>) that show the state of the kernel: memory, heap, page
  tables, tasks, network interfaces, and the fixed texts.
\<close>

section \<open>Fixed texts\<close>

definition help_text :: "cstring list" where
  "help_text = [
    nline ''Available commands:'',
    line ''  help    - Show this help message'',
    line ''  clear   - Clear the screen'',
    line ''  cd      - Change directory'',
    line ''  echo    - Echo text to screen'',
    line ''  about   - Show system information'',
    line ''  mem     - Show memory information'',
    line ''  page    - Test paging system'',
    line ''  heap    - Show heap information'',
    line ''  malloc  - Test memory allocation'',
    line ''  ps      - Show current task'',
    line ''  syscall - Test system calls'',
    line ''  ls      - List files (usage: ls [path])'',
    line ''  cat     - Display file contents'',
    line ''  rm      - Remove file (usage: rm <file>)'',
    line ''  devtest - Test device files'',
    line ''  usertest - Test user mode execution'',
    line ''  forktest - Test fork() system call'',
    line ''  exectest - Test exec() system call'',
    line ''  mkdir    - Create directory'',
    line ''  rmdir    - Remove directory'',
    line ''  schedtest - Test scheduler (MLFQ)'',
    line ''  schedstop - Stop scheduler test'',
    line ''  ipctest  - Test IPC (Inter-Process Communication)'',
    line ''  ipcstop  - Stop IPC test'',
    line ''  ipcinfo  - Show IPC statistics and ports'',
    line ''  drvtest  - Test user-space driver (microkernel demo)'',
    line ''  drvstop  - Stop driver test'',
    line ''  iotest   - Test I/O port permissions and IRQ bridge'',
    line ''  atadrv   - Start user-space ATA driver'',
    line ''  netdrv   - Start user-space NE2000 driver'',
    line ''  blktest  - Test block device IPC'',
    line ''  net2ktest    - Test network device IPC'',
    line ''  netstacktest - Test network protocol stack'',
    line ''  arp      - Display ARP cache'',
    line ''  ping     - Send ICMP Echo Request (ping)'',
    line ''  mkfs     - Format a disk with VRFS'',
    line ''  mount    - Show mounted filesystems'',
    line ''  mount <dev> <path> - Mount a disk'',
    line ''  umount   - Unmount a filesystem'',
    line ''  lsblk    - List block devices'',
    line ''  atatest  - Test ATA read/write'',
    line ''  touch    - Create an empty file'',
    line ''  write    - Write text to a file'',
    line ''  ifconfig - Show network interfaces'',
    line ''  nettest  - Test network packet send/receive''
  ]"

definition cmd_help :: "('d, 'n) shell \<Rightarrow> ('d, 'n) shell option" where
  "cmd_help = says help_text"

definition cmd_about :: "('d, 'n) shell \<Rightarrow> ('d, 'n) shell option" where
  "cmd_about = says [nline ''VROS - Virtual Real-time Operating System'', line ''Version: 0.1.0'',
     line ''A microkernel-based operating system'', line ''Built with C and x86 assembly'']"

definition cmd_echo :: "cstring \<Rightarrow> ('d, 'n) shell \<Rightarrow> ('d, 'n) shell option" where
  "cmd_echo args = says [[10], args]"

section \<open>Memory\<close>

text \<open>A line of a report: a title, a number, and what follows it.\<close>

definition say_value :: "nat \<Rightarrow> cstring \<Rightarrow> u32 \<Rightarrow> cstring \<Rightarrow> ('d, 'n) shell \<Rightarrow> ('d, 'n) shell option" where
  "say_value n title num rest s = do { s \<leftarrow> says [title] s; s \<leftarrow> say_num n num s; says [rest] s }"

definition cmd_mem :: "('d, 'n) shell \<Rightarrow> ('d, 'n) shell option" where
  "cmd_mem s =
     (let m = k_pmm (sh_kernel s); total = pmm_get_memory_size m;
          used = pmm_get_used_blocks m * 4; free = pmm_get_free_blocks m * 4 in
      do {
        s \<leftarrow> says [nline ''Memory Information:''] s;
        s \<leftarrow> say_value 64 (cstr ''  Total:  '') (total div 1024) (line '' KB'') s;
        s \<leftarrow> say_value 64 (cstr ''  Used:   '') used (line '' KB'') s;
        say_value 64 (cstr ''  Free:   '') free (line '' KB'') s
      })"

text \<open>The addresses are printed in decimal behind the \<open>0x\<close>, and the list of them ends at its first entry, which is 0.\<close>

fun page_lines :: "ptr list \<Rightarrow> ('d, 'n) shell \<Rightarrow> ('d, 'n) shell option" where
  "page_lines [] s = Some s"
| "page_lines (virt # rest) s =
     (if virt = NULL then Some s
      else do {
        phys \<leftarrow> paging_get_physical_address virt (sh_paging s);
        s \<leftarrow> say_value 64 (cstr ''  Virtual: 0x'') virt (cstr '' -> Physical: 0x'') s;
        s \<leftarrow> say_num 64 phys s;
        s \<leftarrow> says [[10]] s;
        page_lines rest s
      })"

definition cmd_page :: "('d, 'n) shell \<Rightarrow> ('d, 'n) shell option" where
  "cmd_page s = do {
     s \<leftarrow> says [nline ''Paging System Test:''] s;
     s \<leftarrow> page_lines [0, 0x100000, 0xB8000, 0] s;
     says [line ''Paging is active!''] s
   }"

definition cmd_heap :: "('d, 'n) shell \<Rightarrow> ('d, 'n) shell option" where
  "cmd_heap s = do {
     (total, used, free_mem) \<leftarrow> kmalloc_stats (fs_heap (sh_fs s));
     s \<leftarrow> says [nline ''Heap Information:''] s;
     s \<leftarrow> say_value 64 (cstr ''  Total:  '') (total div 1024) (line '' KB'') s;
     s \<leftarrow> say_value 64 (cstr ''  Used:   '') (used div 1024) (line '' KB'') s;
     say_value 64 (cstr ''  Free:   '') (free_mem div 1024) (line '' KB'') s
   }"

text \<open>Two allocations, then their release in the same order.\<close>

definition sh_kmalloc :: "u32 \<Rightarrow> ('d, 'n) shell \<Rightarrow> (ptr \<times> ('d, 'n) shell) option" where
  "sh_kmalloc sz s = do {
     (p, h) \<leftarrow> kmalloc sz (fs_heap (sh_fs s));
     Some (p, s\<lparr>sh_fs := (sh_fs s)\<lparr>fs_heap := h\<rparr>\<rparr>)
   }"

definition sh_kfree :: "ptr \<Rightarrow> ('d, 'n) shell \<Rightarrow> ('d, 'n) shell option" where
  "sh_kfree p s = do { h \<leftarrow> kfree p (fs_heap (sh_fs s)); Some (s\<lparr>sh_fs := (sh_fs s)\<lparr>fs_heap := h\<rparr>\<rparr>) }"

definition say_allocated :: "ptr \<Rightarrow> ('d, 'n) shell \<Rightarrow> ('d, 'n) shell option" where
  "say_allocated p s =
     (if p \<noteq> NULL then say_value 64 (cstr ''  Success! Address: 0x'') p [10] s else says [line ''  Failed!''] s)"

definition cmd_malloc_test :: "('d, 'n) shell \<Rightarrow> ('d, 'n) shell option" where
  "cmd_malloc_test s = do {
     s \<leftarrow> says [nline ''Testing kmalloc/kfree:'', line ''  Allocating 128 bytes...''] s;
     (ptr1, s) \<leftarrow> sh_kmalloc 128 s;
     s \<leftarrow> say_allocated ptr1 s;
     s \<leftarrow> says [line ''  Allocating 256 bytes...''] s;
     (ptr2, s) \<leftarrow> sh_kmalloc 256 s;
     s \<leftarrow> say_allocated ptr2 s;
     s \<leftarrow> says [line ''  Freeing first allocation...''] s;
     s \<leftarrow> sh_kfree ptr1 s;
     s \<leftarrow> says [line ''  Done!'', line ''  Freeing second allocation...''] s;
     s \<leftarrow> sh_kfree ptr2 s;
     says [line ''  Done!'', line ''Memory allocation test complete!''] s
   }"

section \<open>Tasks\<close>

definition state_column :: "task_state \<Rightarrow> cstring" where
  "state_column st = cstr (case st of TASK_RUNNING \<Rightarrow> ''RUNNING   '' | TASK_READY \<Rightarrow> ''READY     ''
     | TASK_BLOCKED \<Rightarrow> ''BLOCKED   '' | TASK_SLEEPING \<Rightarrow> ''SLEEPING  '' | TASK_ZOMBIE \<Rightarrow> ''ZOMBIE    '')"

definition priority_column :: "task_priority \<Rightarrow> cstring" where
  "priority_column p = cstr (case p of PRIORITY_HIGH \<Rightarrow> ''HIGH      '' | PRIORITY_NORMAL \<Rightarrow> ''NORMAL    ''
     | PRIORITY_LOW \<Rightarrow> ''LOW       '' | PRIORITY_IDLE \<Rightarrow> ''IDLE      '')"

text \<open>The line of a task; the name is cut at 11 characters and, like the ticks, padded character by character.\<close>

definition ps_line :: "task \<Rightarrow> ('d, 'n) shell \<Rightarrow> ('d, 'n) shell option" where
  "ps_line t s = do {
     s \<leftarrow> say_num 64 (t_pid t) s;
     let name = take 11 (t_name t);
     s \<leftarrow> says ([if t_pid t < 10 then cstr ''    '' else cstr ''   ''] @ map (\<lambda>c. [c]) name @
       replicate (13 - length name) [32] @ [state_column (t_state t), priority_column (t_priority t)]) s;
     b \<leftarrow> shell_int_to_str (t_total_ticks t) (replicate 64 0);
     s \<leftarrow> says (buf_string b # replicate (12 - length (buf_string b)) [32]) s;
     say_value 64 [] (t_context_switches t) [10] s
   }"

definition cmd_ps :: "('d, 'n) shell \<Rightarrow> ('d, 'n) shell option" where
  "cmd_ps s =
     (let ts = k_tasking (sh_kernel s); current = task_get_current ts in
      do {
        s \<leftarrow> says [10 # cstr ''Current Task: ''] s;
        s \<leftarrow> (if current \<noteq> NULL
          then do {
            t \<leftarrow> task_mem ts current;
            s \<leftarrow> says [t_name t, cstr '' (PID ''] s;
            s \<leftarrow> say_num 64 (t_pid t) s;
            says [line '')''] s
          }
          else says [line ''None''] s);
        s \<leftarrow> says [nline ''All Tasks:'', line ''PID  Name         State     Priority  CPU(ticks)  Switches'',
          line ''---  -----------  --------  --------  ----------  --------''] s;
        for_range 0 32 (\<lambda>i s. do {
          p \<leftarrow> task_find_by_pid (of_nat i) ts;
          if p \<noteq> NULL then do { t \<leftarrow> task_mem ts p; ps_line t s } else Some s
        }) s
      })"

section \<open>Network\<close>

definition hex_byte :: "u8 \<Rightarrow> cstring" where
  "hex_byte b = [hex_digit (ucast (drop_bit 4 b)), hex_digit (ucast b)]"

definition cmd_ifconfig :: "('d, 'n) shell \<Rightarrow> ('d, 'n) shell option" where
  "cmd_ifconfig s = do {
     s \<leftarrow> says [nline ''=== Network Interfaces ===''] s;
     case netif_get (cstr ''eth0'') (sh_net s) of
       None \<Rightarrow> says [line ''No network interfaces found.''] s
     | Some j \<Rightarrow> do {
         n \<leftarrow> arr_get (netifs (sh_net s)) j;
         require (6 \<le> length (mac_addr n));
         s \<leftarrow> says ([cstr ''Interface: '', nif_name n, [10], cstr ''  MAC Address: ''] @
           concat (map (\<lambda>i. hex_byte (mac_addr n ! i) # (if i < 5 then [cstr '':''] else [])) [0..<6]) @ [[10]]) s;
         let st = stats n;
         s \<leftarrow> say_value 32 (cstr ''  TX packets: '') (packets_sent st) (cstr ''  bytes: '') s;
         s \<leftarrow> say_num 32 (bytes_sent st) s;
         s \<leftarrow> says [[10]] s;
         s \<leftarrow> say_value 32 (cstr ''  RX packets: '') (packets_received st) (cstr ''  bytes: '') s;
         s \<leftarrow> say_num 32 (bytes_received st) s;
         s \<leftarrow> says [[10]] s;
         say_value 32 (cstr ''  Errors: '') (errors st) [10] s
       }
   }"

section \<open>What the commands leave as it is\<close>

lemma keeps_say_value: "keeps s0 s \<Longrightarrow> all_keep s0 (say_value n title num rest s)"
  unfolding say_value_def by (rule keeps_rules | assumption)+

lemma keeps_page_lines: "keeps s0 s \<Longrightarrow> all_keep s0 (page_lines as s)"
proof (induction as arbitrary: s)
  case (Cons a as)
  show ?case unfolding page_lines.simps by (rule Cons keeps_say_value keeps_rules | assumption)+
qed simp

lemma keeps_sh_kmalloc: "keeps s0 s \<Longrightarrow> all_keep2 s0 (sh_kmalloc sz s)"
  unfolding sh_kmalloc_def by (rule keeps_rules | assumption)+

lemma keeps_sh_kfree: "keeps s0 s \<Longrightarrow> all_keep s0 (sh_kfree p s)"
  unfolding sh_kfree_def by (rule keeps_rules | assumption)+

lemma keeps_say_allocated: "keeps s0 s \<Longrightarrow> all_keep s0 (say_allocated p s)"
  unfolding say_allocated_def by (rule keeps_say_value keeps_rules | assumption)+

lemma keeps_ps_line: "keeps s0 s \<Longrightarrow> all_keep s0 (ps_line t s)"
  unfolding ps_line_def by (rule keeps_say_value keeps_rules | assumption)+

lemma keeps_for_lines:
  assumes "\<And>i s. keeps s0 s \<Longrightarrow> all_keep s0 (f i s)" "keeps s0 s"
  shows "all_keep s0 (for_range i n f s)"
  using assms(2)
proof (induction n arbitrary: i s)
  case (Suc n)
  show ?case unfolding for_range.simps by (rule keeps_seq[OF assms(1)[OF Suc.prems]]) (rule Suc.IH)
qed simp

lemma keeps_infos:
  assumes "keeps s0 s"
  shows "all_keep s0 (cmd_help s)" "all_keep s0 (cmd_about s)" "all_keep s0 (cmd_echo args s)"
    "all_keep s0 (cmd_mem s)" "all_keep s0 (cmd_page s)" "all_keep s0 (cmd_heap s)" "all_keep s0 (cmd_malloc_test s)"
    "all_keep s0 (cmd_ps s)" "all_keep s0 (cmd_ifconfig s)"
proof -
  note rules = keeps_say_value keeps_page_lines keeps_sh_kmalloc keeps_sh_kfree keeps_say_allocated keeps_rules
  show "all_keep s0 (cmd_help s)" unfolding cmd_help_def by (rule keeps_says assms)+
  show "all_keep s0 (cmd_about s)" unfolding cmd_about_def by (rule keeps_says assms)+
  show "all_keep s0 (cmd_echo args s)" unfolding cmd_echo_def by (rule keeps_says assms)+
  show "all_keep s0 (cmd_mem s)" unfolding cmd_mem_def by (rule rules assms | assumption)+
  show "all_keep s0 (cmd_page s)" unfolding cmd_page_def by (rule rules assms | assumption)+
  show "all_keep s0 (cmd_heap s)" unfolding cmd_heap_def by (rule rules assms | assumption)+
  show "all_keep s0 (cmd_malloc_test s)" unfolding cmd_malloc_test_def by (rule rules assms | assumption)+
  show "all_keep s0 (cmd_ps s)" unfolding cmd_ps_def by (rule keeps_for_lines keeps_ps_line rules assms | assumption)+
  show "all_keep s0 (cmd_ifconfig s)" unfolding cmd_ifconfig_def by (rule rules assms | assumption)+
qed

text \<open>
  \<open>cmd_page\<close> shows no translation at all: its list of addresses starts with the 0 that ends it.
\<close>

lemma cmd_page_empty: "cmd_page s = do { s \<leftarrow> says [nline ''Paging System Test:''] s; says [line ''Paging is active!''] s }"
  unfolding cmd_page_def page_lines.simps if_P[OF refl] bind.bind_lunit ..

end
