(* ===== verification/Shell.thy ===== *)
theory Shell
  imports Shellinfo
begin

text \<open>
  The shell proper (\<open>src/src/lib/shell.c\<close>): the line that is typed, and what is done with it. The theory shows that no key
  and no command leaves the shell with a line too long for its buffer, a current directory that is not an absolute path of at
  most 255 bytes, or a cursor outside of the screen.
\<close>

section \<open>Commands\<close>

text \<open>
  The commands that run tests of the system, show hardware or start drivers are not translated: what they do to the state is
  the parameter \<open>run_test\<close>.
\<close>

datatype shell_test =
      Cmd_syscall | Cmd_devtest | Cmd_usertest | Cmd_forktest | Cmd_exectest | Cmd_schedtest | Cmd_schedstop
  | Cmd_ipctest | Cmd_ipcstop | Cmd_ipcinfo | Cmd_drvtest | Cmd_drvstop | Cmd_iotest | Cmd_atadrv
  | Cmd_netdrv | Cmd_blktest | Cmd_net2ktest | Cmd_netstacktest | Cmd_arp | Cmd_ping cstring | Cmd_lsblk
  | Cmd_atatest | Cmd_nettest

text \<open>\<open>strncmp (s1, s2, n) == 0\<close>\<close>

fun strncmp_eq :: "cstring \<Rightarrow> cstring \<Rightarrow> nat \<Rightarrow> bool" where
  "strncmp_eq s t 0 = True"
| "strncmp_eq (a # s) (b # t) (Suc n) = (a = b \<and> strncmp_eq s t n)"
| "strncmp_eq [] [] (Suc n) = True"
| "strncmp_eq _ _ _ = False"

definition cmd_clear :: "('d, 'n) shell \<Rightarrow> ('d, 'n) shell option" where
  "cmd_clear s = do { c \<leftarrow> shell_clear_screen (sh_con s); Some (s\<lparr>sh_con := c\<rparr>) }"

definition shell_dispatch ::
  "(shell_test \<Rightarrow> ('d, 'n) shell \<Rightarrow> ('d, 'n) shell option) \<Rightarrow> cstring \<Rightarrow> ('d, 'n) shell \<Rightarrow> ('d, 'n) shell option" where
  "shell_dispatch run_test cmd s =
  (if strcmp_eq cmd (cstr ''help'') then cmd_help s
   else if strcmp_eq cmd (cstr ''clear'') then cmd_clear s
   else if strcmp_eq cmd (cstr ''cd'') then cmd_cd None s
   else if strncmp_eq cmd (cstr ''cd '') 3 then cmd_cd (Some (drop 3 cmd)) s
   else if strcmp_eq cmd (cstr ''about'') then cmd_about s
   else if strcmp_eq cmd (cstr ''mem'') then cmd_mem s
   else if strcmp_eq cmd (cstr ''page'') then cmd_page s
   else if strcmp_eq cmd (cstr ''heap'') then cmd_heap s
   else if strcmp_eq cmd (cstr ''malloc'') then cmd_malloc_test s
   else if strcmp_eq cmd (cstr ''ps'') then cmd_ps s
   else if strcmp_eq cmd (cstr ''syscall'') then run_test Cmd_syscall s
   else if strcmp_eq cmd (cstr ''ls'') then cmd_ls None s
   else if strncmp_eq cmd (cstr ''ls '') 3 then cmd_ls (Some (drop 3 cmd)) s
   else if strncmp_eq cmd (cstr ''cat '') 4 then cmd_cat (drop 4 cmd) s
   else if strcmp_eq cmd (cstr ''cat'') then says [nline ''Usage: cat <filename>''] s
   else if strcmp_eq cmd (cstr ''rm'') then says [nline ''Usage: rm <file>''] s
   else if strncmp_eq cmd (cstr ''rm '') 3 then cmd_rm (Some (drop 3 cmd)) s
   else if strcmp_eq cmd (cstr ''devtest'') then run_test Cmd_devtest s
   else if strcmp_eq cmd (cstr ''usertest'') then run_test Cmd_usertest s
   else if strcmp_eq cmd (cstr ''forktest'') then run_test Cmd_forktest s
   else if strncmp_eq cmd (cstr ''echo '') 5 then cmd_echo (drop 5 cmd) s
   else if strcmp_eq cmd (cstr ''echo'') then says [[10]] s
   else if strcmp_eq cmd (cstr ''exectest'') then run_test Cmd_exectest s
   else if strncmp_eq cmd (cstr ''mkdir '') 6 then cmd_mkdir (Some (drop 6 cmd)) s
   else if strcmp_eq cmd (cstr ''mkdir'') then says [nline ''Usage: mkdir <directory>''] s
   else if strncmp_eq cmd (cstr ''rmdir '') 6 then cmd_rmdir (Some (drop 6 cmd)) s
   else if strcmp_eq cmd (cstr ''rmdir'') then says [nline ''Usage: rmdir <directory>''] s
   else if strcmp_eq cmd (cstr ''schedtest'') then run_test Cmd_schedtest s
   else if strcmp_eq cmd (cstr ''schedstop'') then run_test Cmd_schedstop s
   else if strcmp_eq cmd (cstr ''ipctest'') then run_test Cmd_ipctest s
   else if strcmp_eq cmd (cstr ''ipcstop'') then run_test Cmd_ipcstop s
   else if strcmp_eq cmd (cstr ''ipcinfo'') then run_test Cmd_ipcinfo s
   else if strcmp_eq cmd (cstr ''drvtest'') then run_test Cmd_drvtest s
   else if strcmp_eq cmd (cstr ''drvstop'') then run_test Cmd_drvstop s
   else if strcmp_eq cmd (cstr ''iotest'') then run_test Cmd_iotest s
   else if strcmp_eq cmd (cstr ''atadrv'') then run_test Cmd_atadrv s
   else if strcmp_eq cmd (cstr ''netdrv'') then run_test Cmd_netdrv s
   else if strcmp_eq cmd (cstr ''blktest'') then run_test Cmd_blktest s
   else if strcmp_eq cmd (cstr ''net2ktest'') then run_test Cmd_net2ktest s
   else if strcmp_eq cmd (cstr ''netstacktest'') then run_test Cmd_netstacktest s
   else if strcmp_eq cmd (cstr ''arp'') then run_test Cmd_arp s
   else if strncmp_eq cmd (cstr ''ping '') 5 then run_test (Cmd_ping (drop 5 cmd)) s
   else if strcmp_eq cmd (cstr ''ping'') then says [nline ''Usage: ping <ip_address>'' @ line ''Example: ping 10.0.2.2''] s
   else if strcmp_eq cmd (cstr ''lsblk'') then run_test Cmd_lsblk s
   else if strcmp_eq cmd (cstr ''atatest'') then run_test Cmd_atatest s
   else if strcmp_eq cmd (cstr ''ifconfig'') then cmd_ifconfig s
   else if strcmp_eq cmd (cstr ''nettest'') then run_test Cmd_nettest s
   else if strncmp_eq cmd (cstr ''mkfs '') 5 then cmd_mkfs (Some (drop 5 cmd)) s
   else if strcmp_eq cmd (cstr ''mkfs'') then cmd_mkfs None s
   else if strncmp_eq cmd (cstr ''mount '') 6 then cmd_mount (Some (drop 6 cmd)) s
   else if strcmp_eq cmd (cstr ''mount'') then cmd_mount_show s
   else if strncmp_eq cmd (cstr ''umount '') 7 then cmd_umount (Some (drop 7 cmd)) s
   else if strcmp_eq cmd (cstr ''umount'') then says [nline ''Usage: umount <mount_point>''] s
   else if strncmp_eq cmd (cstr ''touch '') 6 then cmd_touch (Some (drop 6 cmd)) s
   else if strcmp_eq cmd (cstr ''touch'') then says [nline ''Usage: touch <filename>''] s
   else if strncmp_eq cmd (cstr ''write '') 6 then cmd_write (Some (drop 6 cmd)) s
   else if strcmp_eq cmd (cstr ''write'') then says [nline ''Usage: write <filename> <text>''] s
   else says [10 # cstr ''Unknown command: '', cmd, 10 # cstr (''Type '' @ [CHR 39] @ ''help'' @ [CHR 39] @ '' for available commands'')] s)"

definition say_prompt :: "('d, 'n) shell \<Rightarrow> ('d, 'n) shell option" where
  "say_prompt s = do { c \<leftarrow> shell_print_prompt (sh_con s); Some (s\<lparr>sh_con := c\<rparr>) }"

text \<open>The zero is written behind the line; the command is the line up to its first zero.\<close>

definition shell_execute_command ::
  "(shell_test \<Rightarrow> ('d, 'n) shell \<Rightarrow> ('d, 'n) shell option) \<Rightarrow> ('d, 'n) shell \<Rightarrow> ('d, 'n) shell option" where
  "shell_execute_command run_test s = do {
     require (length (command_buffer s) < MAX_COMMAND_LENGTH);
     if command_buffer s = [] then say_prompt s
     else do {
       s \<leftarrow> shell_dispatch run_test (buf_string (command_buffer s)) s;
       say_prompt (s\<lparr>command_buffer := []\<rparr>)
     }
   }"

section \<open>The line\<close>

definition cursor_back :: "console \<Rightarrow> console" where
  "cursor_back c =
     (let c = c\<lparr>shell_col := shell_col c - 1\<rparr> in
      if shell_col c < 0
      then (let c = c\<lparr>shell_col := 79, shell_row := shell_row c - 1\<rparr> in
            if shell_row c < 0 then c\<lparr>shell_row := 0\<rparr> else c)
      else c)"

text \<open>At the end of the last row the cursor goes to the start of that row: nothing scrolls here.\<close>

definition cursor_forward :: "console \<Rightarrow> console" where
  "cursor_forward c =
     (let c = c\<lparr>shell_col := shell_col c + 1\<rparr> in
      if shell_col c \<ge> 80
      then (let c = c\<lparr>shell_col := 0, shell_row := shell_row c + 1\<rparr> in
            if shell_row c \<ge> 25 then c\<lparr>shell_row := 24\<rparr> else c)
      else c)"

definition erase_char :: "console \<Rightarrow> console option" where
  "erase_char c =
     (let c = cursor_back c in
      do { c \<leftarrow> print_char 32 (shell_col c) (shell_row c) c; Some (update_cursor (shell_col c) (shell_row c) c) })"

definition echo_char :: "u8 \<Rightarrow> console \<Rightarrow> console option" where
  "echo_char ch c = do {
     c \<leftarrow> print_char ch (shell_col c) (shell_row c) c;
     let c = cursor_forward c;
     Some (update_cursor (shell_col c) (shell_row c) c)
   }"

definition shell_handle_input ::
  "(shell_test \<Rightarrow> ('d, 'n) shell \<Rightarrow> ('d, 'n) shell option) \<Rightarrow> u8 \<Rightarrow> ('d, 'n) shell \<Rightarrow> ('d, 'n) shell option" where
  "shell_handle_input run_test ch s =
     (if ch = 10 then shell_execute_command run_test s
      else if ch = 8
      then (if length (command_buffer s) > 0
            then do {
              c \<leftarrow> erase_char (sh_con s);
              Some (s\<lparr>command_buffer := butlast (command_buffer s), sh_con := c\<rparr>)
            }
            else Some s)
      else if length (command_buffer s) < MAX_COMMAND_LENGTH - 1
      then do {
        c \<leftarrow> echo_char ch (sh_con s);
        Some (s\<lparr>command_buffer := command_buffer s @ [ch], sh_con := c\<rparr>)
      }
      else Some s)"

fun shell_run ::
  "(shell_test \<Rightarrow> ('d, 'n) shell \<Rightarrow> ('d, 'n) shell option) \<Rightarrow> bytes \<Rightarrow> ('d, 'n) shell \<Rightarrow> ('d, 'n) shell option" where
  "shell_run run_test [] s = Some s"
| "shell_run run_test (ch # chs) s = do { s \<leftarrow> shell_handle_input run_test ch s; shell_run run_test chs s }"

section \<open>Starting the shell\<close>

text \<open>
  \<open>shell_init\<close> without its reads of the keyboard: it empties the keyboard's buffer, shows a banner, waits until an interrupt has
  put a character into the buffer, takes that character and starts. Its state, the console and the line, does not depend on them.
\<close>

definition banner :: "console \<Rightarrow> console option" where
  "banner c = do {
     c \<leftarrow> print_string (cstr ''================================================'') 21 c;
     c \<leftarrow> print_string (cstr ''   PRESS ANY KEY TO START SHELL'') 22 c;
     c \<leftarrow> print_string (cstr ''   (Check boot messages above)'') 23 c;
     print_string (cstr ''================================================'') 24 c
   }"

definition shell_start :: "('d, 'n) shell \<Rightarrow> ('d, 'n) shell option" where
  "shell_start s = do {
     s \<leftarrow> cmd_clear s;
     s \<leftarrow> says [line ''Welcome to VROS Shell!'',
       line (''Type '' @ [CHR 39] @ ''help'' @ [CHR 39] @ '' for available commands.'')] s;
     say_prompt s
   }"

definition shell_init :: "('d, 'n) shell \<Rightarrow> ('d, 'n) shell option" where
  "shell_init s = do {
     c \<leftarrow> banner ((sh_con s)\<lparr>shell_row := 0, shell_col := 0\<rparr>);
     shell_start (s\<lparr>command_buffer := [], sh_con := c\<rparr>)
   }"

section \<open>Typing\<close>

lemma cursor_ok: "con_ok c \<Longrightarrow> con_ok (cursor_back c)" "con_ok c \<Longrightarrow> con_ok (cursor_forward c)"
  by (simp_all add: con_ok_def cursor_back_def cursor_forward_def Let_def)

lemma erase_ok:
  assumes "con_ok c"
  obtains c' where "erase_char c = Some c'" "con_ok c'"
proof -
  obtain d where "print_char 32 (shell_col (cursor_back c)) (shell_row (cursor_back c)) (cursor_back c) = Some d" "con_ok d"
    using print_char_ok[OF cursor_ok(1)[OF assms]] .
  then show ?thesis using that by (simp add: erase_char_def)
qed

lemma echo_ok:
  assumes "con_ok c"
  obtains c' where "echo_char ch c = Some c'" "con_ok c'"
proof -
  obtain d where "print_char ch (shell_col c) (shell_row c) c = Some d" "con_ok d" using print_char_ok[OF assms] .
  then show ?thesis using that by (simp add: echo_char_def cursor_ok Let_def)
qed

text \<open>The line after keys other than Enter: backspace takes the last character away, a full line takes no more.\<close>

definition edit_key :: "u8 \<Rightarrow> bytes \<Rightarrow> bytes" where
  "edit_key ch l = (if ch = 8 then butlast l else if length l < 255 then l @ [ch] else l)"

definition edit :: "bytes \<Rightarrow> bytes \<Rightarrow> bytes" where
  "edit keys l = fold edit_key keys l"

lemma length_edit_key: "length l \<le> 255 \<Longrightarrow> length (edit_key ch l) \<le> 255"
  by (auto simp: edit_key_def)

lemma key_typed:
  assumes "con_ok (sh_con s)" "ch \<noteq> 10"
  obtains c where "shell_handle_input run_test ch s = Some (s\<lparr>command_buffer := edit_key ch (command_buffer s), sh_con := c\<rparr>)"
    "con_ok c"
proof -
  obtain e where e: "erase_char (sh_con s) = Some e" "con_ok e" using erase_ok assms(1) .
  obtain a where a: "echo_char ch (sh_con s) = Some a" "con_ok a" using echo_ok assms(1) .
  consider "ch = 8" "command_buffer s \<noteq> []" | "ch = 8" "command_buffer s = []"
    | "ch \<noteq> 8" "length (command_buffer s) < 255" | "ch \<noteq> 8" "\<not> length (command_buffer s) < 255" by blast
  then show ?thesis
  proof cases
    case 1
    then show ?thesis using that[of e] e by (simp add: shell_handle_input_def edit_key_def)
  next
    case 2
    then have "s = s\<lparr>command_buffer := edit_key ch (command_buffer s), sh_con := sh_con s\<rparr>" by (simp add: edit_key_def)
    then show ?thesis using that[of "sh_con s"] 2 assms(1) by (simp add: shell_handle_input_def)
  next
    case 3
    then show ?thesis using that[of a] a assms(2) by (simp add: shell_handle_input_def edit_key_def MAX_COMMAND_LENGTH_def)
  next
    case 4
    then have "s = s\<lparr>command_buffer := edit_key ch (command_buffer s), sh_con := sh_con s\<rparr>" by (simp add: edit_key_def)
    then show ?thesis using that[of "sh_con s"] 4 assms by (simp add: shell_handle_input_def MAX_COMMAND_LENGTH_def)
  qed
qed

lemma keys_typed:
  assumes "con_ok (sh_con s)" "10 \<notin> set keys"
  obtains c where "shell_run run_test keys s = Some (s\<lparr>command_buffer := edit keys (command_buffer s), sh_con := c\<rparr>)" "con_ok c"
  using assms
proof (induction keys arbitrary: s thesis)
  case Nil
  then show ?case using Nil.prems(1)[of "sh_con s"] by (simp add: edit_def)
next
  case (Cons k keys)
  obtain d where d: "shell_handle_input run_test k s = Some (s\<lparr>command_buffer := edit_key k (command_buffer s), sh_con := d\<rparr>)"
      "con_ok d"
    using key_typed[OF Cons.prems(2), of k] Cons.prems(3) by auto
  let ?s = "s\<lparr>command_buffer := edit_key k (command_buffer s), sh_con := d\<rparr>"
  obtain c where "shell_run run_test keys ?s = Some (?s\<lparr>command_buffer := edit keys (command_buffer ?s), sh_con := c\<rparr>)" "con_ok c"
    using Cons.IH[of ?s] Cons.prems(3) d(2) by auto
  then show ?case using d Cons.prems(1)[of c] by (simp add: edit_def)
qed

lemma shell_run_append: "shell_run run_test (a @ b) s = do { s \<leftarrow> shell_run run_test a s; shell_run run_test b s }"
proof (induction a arbitrary: s)
  case (Cons ch a)
  then show ?case by (cases "shell_handle_input run_test ch s") simp_all
qed simp

text \<open>
  Typing a line and Enter: whatever keys were pressed, with backspaces, the shell returns from each of them without a write outside of
  the screen, and Enter runs the command that the edited line is, cut at its first zero, with the rest of the state
  as before; then the line is empty and the prompt is shown.
\<close>

lemma shell_line_executed:
  assumes "con_ok (sh_con s)" "length (command_buffer s) \<le> 255" "10 \<notin> set keys"
  defines "l \<equiv> edit keys (command_buffer s)"
  shows "\<exists>c. con_ok c \<and> shell_run run_test (keys @ [10]) s =
    (if l = [] then say_prompt (s\<lparr>command_buffer := [], sh_con := c\<rparr>)
     else do {
       t \<leftarrow> shell_dispatch run_test (buf_string l) (s\<lparr>command_buffer := l, sh_con := c\<rparr>);
       say_prompt (t\<lparr>command_buffer := []\<rparr>)
     })"
proof -
  obtain c where c: "shell_run run_test keys s = Some (s\<lparr>command_buffer := l, sh_con := c\<rparr>)" "con_ok c"
    using keys_typed[OF assms(1,3)] unfolding l_def by blast
  have "length (edit keys m) \<le> 255" if "length m \<le> 255" for m
    using that by (induction keys arbitrary: m) (simp_all add: edit_def length_edit_key)
  from this[OF assms(2)] have "length l < MAX_COMMAND_LENGTH" by (simp add: l_def MAX_COMMAND_LENGTH_def)
  moreover have "shell_run run_test [] = Some" by (rule ext) simp
  ultimately show ?thesis using c
    by (intro exI[of _ c]) (simp add: shell_run_append shell_handle_input_def shell_execute_command_def del: shell_run.simps(1))
qed

text \<open>
  Typing does not scroll: at the end of the last row the next character overwrites the first one of that row.
\<close>

lemma typing_wraps:
  assumes "length (vga c) = 4000" "shell_row c = 24" "shell_col c = 79"
  obtains d where "echo_char a c = Some d" "shell_row d = 24" "shell_col d = 0" "take 3840 (vga d) = take 3840 (vga c)"
  using that print_char_in[of c 24 79 a] assms
  by (auto simp: echo_char_def cursor_forward_def Let_def update_cursor_def outb_def)

section \<open>Every state of the shell\<close>

definition shell_ok :: "('d, 'n) shell \<Rightarrow> bool" where
  "shell_ok s \<longleftrightarrow> con_ok (sh_con s) \<and> length (command_buffer s) \<le> 255 \<and> abs_path (current_dir s)"

lemma keeps_ok: "keeps s0 s \<Longrightarrow> shell_ok s0 \<Longrightarrow> shell_ok s"
  by (simp add: keeps_def shell_ok_def)

lemma clear_keeps: "keeps s0 s \<Longrightarrow> shell_ok s0 \<Longrightarrow> all_keep s0 (cmd_clear s)"
proof -
  assume s: "keeps s0 s" "shell_ok s0"
  then have "length (vga (sh_con s)) = 4000" by (simp add: keeps_def shell_ok_def con_ok_def)
  then obtain c where c: "shell_clear_screen (sh_con s) = Some c" "on_screen c [[]]" using clear_shows by blast
  then show ?thesis using s by (simp add: cmd_clear_def keeps_def on_screen_ok)
qed

text \<open>\<open>cd\<close> makes the current directory an absolute path, or leaves it.\<close>

lemma cd_ok:
  assumes "shell_ok s"
  shows "pred_option shell_ok (cmd_cd args s)"
proof (cases "no_args args")
  case True
  then show ?thesis using assms by (simp add: cmd_cd_def shell_ok_def abs_path_def)
next
  case False
  obtain r where r: "normalize_path (current_dir s) args = Some r" "abs_path r"
    using normalize_path_absolute assms unfolding shell_ok_def by blast
  have ok: "shell_ok t" if "keeps s t" for t using keeps_ok that assms .
  have says: "pred_option shell_ok (says strs t)" if "keeps s t" for strs t
    using keeps_says[OF that, of strs] ok by (cases "says strs t") simp_all
  show ?thesis unfolding cmd_cd_def if_not_P[OF False] r(1) bind.bind_lunit
  proof (rule keeps_seq2[where ?s0.0 = s], goal_cases)
    case 1
    show ?case by (rule keeps_call) simp
  next
    case (2 p t)
    have "pred_option shell_ok (do { d \<leftarrow> strcpy_buf 256 r; Some (t\<lparr>current_dir := d\<rparr>) })"
      using ok[OF 2] r(2) by (simp add: strcpy_buf_def abs_path_def shell_ok_def)
    then show ?case
      by (auto intro!: keeps_if keeps_read says 2 simp del: says.simps)
  qed
qed

lemma keep_ok: "all_keep s m \<Longrightarrow> shell_ok s \<Longrightarrow> pred_option shell_ok m"
  by (cases m) (auto dest: keeps_ok)

lemma dispatch_ok:
  assumes "shell_ok s" "\<And>t. pred_option shell_ok (run_test t s)"
  shows "pred_option shell_ok (shell_dispatch run_test cmd s)"
proof -
  note files = keeps_cmd_ls keeps_cmd_cat keeps_cmd_rm keeps_cmd_mkdir keeps_cmd_rmdir keeps_cmd_mkfs keeps_cmd_mount
    keeps_cmd_mount_show keeps_cmd_umount keeps_cmd_touch keeps_cmd_write
  note all = keeps_infos[OF keeps_refl] files[OF keeps_refl] keeps_says[OF keeps_refl] clear_keeps[OF keeps_refl assms(1)]
  show ?thesis unfolding shell_dispatch_def
    by (rule keeps_if cd_ok assms all[THEN keep_ok])+
qed

lemma prompt_ok: "shell_ok s \<Longrightarrow> pred_option shell_ok (say_prompt s)"
proof -
  assume s: "shell_ok s"
  then have "con_ok (sh_con s)" by (simp add: shell_ok_def)
  then obtain c where "shell_print_prompt (sh_con s) = Some c" "con_ok c"
    unfolding shell_print_prompt_def by (rule print_ok)
  then show ?thesis using s by (simp add: say_prompt_def shell_ok_def)
qed



end
