(* ===== verification/Portio.thy ===== *)
theory Portio
  imports Prelude
begin

text \<open>
  The port instructions of the processor (\<open>src/src/include/port_io.h\<close>), as the drivers use them: a read of a port gives a value and
  may change the device, a write changes the device. \<open>'h\<close> is the state of the hardware, about which nothing is assumed here; what
  a device does is a hypothesis of the theory of its driver, stated through a view of \<open>'h\<close>.
\<close>

record 'h port_io =
  in_b :: "u16 \<Rightarrow> 'h \<Rightarrow> u8 \<times> 'h"
  in_w :: "u16 \<Rightarrow> 'h \<Rightarrow> u16 \<times> 'h"
  out_b :: "u16 \<Rightarrow> u8 \<Rightarrow> 'h \<Rightarrow> 'h"
  out_w :: "u16 \<Rightarrow> u16 \<Rightarrow> 'h \<Rightarrow> 'h"

end
