(* ===== verification/Ata.thy ===== *)
theory Ata
  imports Vrfs Portio
begin

text \<open>
  The disk driver of the kernel: \<open>src/src/drivers/ata.c\<close>, which moves sectors through the ports of an ATA controller, and
  \<open>src/src/drivers/ata_blk.c\<close>, which enters the drives in the table of block devices. The port instructions are the record
  \<open>port_io\<close> of theory \<open>Portio\<close>, over any state \<open>'h\<close> of the hardware. What a controller does is a hypothesis, \<open>ata_bus\<close>: the
  protocol of PIO transfers, seen through a view \<open>V\<close> of the hardware, for any delays of the drive. The theory shows
  that over such a controller the driver reads and writes the sectors it is asked for and nothing else, that it keeps the
  contract \<open>disk_driver\<close> on which the disk file system rests, and that it gives up when a drive does not answer.
\<close>

section \<open>Drives\<close>

definition ATA_REG_DATA :: u16 where "ATA_REG_DATA = 0"
definition ATA_REG_SECCOUNT0 :: u16 where "ATA_REG_SECCOUNT0 = 2"
definition ATA_REG_LBA0 :: u16 where "ATA_REG_LBA0 = 3"
definition ATA_REG_LBA1 :: u16 where "ATA_REG_LBA1 = 4"
definition ATA_REG_LBA2 :: u16 where "ATA_REG_LBA2 = 5"
definition ATA_REG_HDDEVSEL :: u16 where "ATA_REG_HDDEVSEL = 6"
definition ATA_REG_COMMAND :: u16 where "ATA_REG_COMMAND = 7"
definition ATA_REG_STATUS :: u16 where "ATA_REG_STATUS = 7"
definition ATA_SR_BSY :: u8 where "ATA_SR_BSY = 0x80"
definition ATA_SR_DRQ :: u8 where "ATA_SR_DRQ = 0x08"
definition ATA_SR_DRDY :: u8 where "ATA_SR_DRDY = 0x40"
definition ATA_SR_ERR :: u8 where "ATA_SR_ERR = 0x01"
definition ATA_CMD_READ_PIO :: u8 where "ATA_CMD_READ_PIO = 0x20"
definition ATA_CMD_WRITE_PIO :: u8 where "ATA_CMD_WRITE_PIO = 0x30"
definition ATA_CMD_CACHE_FLUSH :: u8 where "ATA_CMD_CACHE_FLUSH = 0xE7"
definition ATA_CMD_IDENTIFY :: u8 where "ATA_CMD_IDENTIFY = 0xEC"
definition ATA_PRIMARY_IO :: u16 where "ATA_PRIMARY_IO = 0x1F0"
definition ATA_PRIMARY_CONTROL :: u16 where "ATA_PRIMARY_CONTROL = 0x3F6"
definition ATA_SECONDARY_IO :: u16 where "ATA_SECONDARY_IO = 0x170"
definition ATA_SECONDARY_CONTROL :: u16 where "ATA_SECONDARY_CONTROL = 0x376"

lemmas ata_consts = ATA_REG_DATA_def ATA_REG_SECCOUNT0_def ATA_REG_LBA0_def ATA_REG_LBA1_def ATA_REG_LBA2_def
  ATA_REG_HDDEVSEL_def ATA_REG_COMMAND_def ATA_REG_STATUS_def ATA_SR_BSY_def ATA_SR_DRQ_def ATA_SR_DRDY_def ATA_SR_ERR_def ATA_CMD_READ_PIO_def
  ATA_CMD_WRITE_PIO_def ATA_CMD_CACHE_FLUSH_def ATA_CMD_IDENTIFY_def

record ata_device =
  io_base :: u16
  control_base :: u16
  slave :: u8
  ad_exists :: bool
  model :: bytes
  ad_size :: u32

text \<open>\<open>ata_messages\<close> lists the calls of \<open>print_string\<close>: the text and the row.\<close>

record 'h ata =
  ata_devices :: "ata_device list"
  ata_hw :: 'h
  ata_messages :: "(cstring \<times> int) list"

section \<open>Operations on a drive\<close>

definition ata_read_reg :: "'h port_io \<Rightarrow> ata_device \<Rightarrow> u16 \<Rightarrow> 'h \<Rightarrow> u8 \<times> 'h" where
  "ata_read_reg P dev reg h = in_b P (io_base dev + reg) h"

definition ata_write_reg :: "'h port_io \<Rightarrow> ata_device \<Rightarrow> u16 \<Rightarrow> u8 \<Rightarrow> 'h \<Rightarrow> 'h" where
  "ata_write_reg P dev reg v h = out_b P (io_base dev + reg) v h"

text \<open>Reads of the status, at most \<open>timeout\<close> of them, until it is as wanted.\<close>

fun poll_status :: "'h port_io \<Rightarrow> ata_device \<Rightarrow> (u8 \<Rightarrow> bool) \<Rightarrow> nat \<Rightarrow> 'h \<Rightarrow> int \<times> 'h" where
  "poll_status P dev wanted 0 h = (- 1, h)"
| "poll_status P dev wanted (Suc timeout) h =
     (let (status, h) = ata_read_reg P dev ATA_REG_STATUS h in
      if wanted status then (0, h) else poll_status P dev wanted timeout h)"

definition ata_wait_bsy :: "'h port_io \<Rightarrow> ata_device \<Rightarrow> 'h \<Rightarrow> int \<times> 'h" where
  "ata_wait_bsy P dev h = poll_status P dev (\<lambda>status. status AND ATA_SR_BSY = 0) 100000 h"

definition ata_wait_drq :: "'h port_io \<Rightarrow> ata_device \<Rightarrow> 'h \<Rightarrow> int \<times> 'h" where
  "ata_wait_drq P dev h = poll_status P dev (\<lambda>status. status AND ATA_SR_DRQ \<noteq> 0) 100000 h"

fun status_reads :: "'h port_io \<Rightarrow> ata_device \<Rightarrow> nat \<Rightarrow> 'h \<Rightarrow> 'h" where
  "status_reads P dev 0 h = h"
| "status_reads P dev (Suc n) h = (let (status, h) = ata_read_reg P dev ATA_REG_STATUS h in status_reads P dev n h)"

definition ata_select_drive :: "'h port_io \<Rightarrow> ata_device \<Rightarrow> 'h \<Rightarrow> 'h" where
  "ata_select_drive P dev h =
     status_reads P dev 4 (ata_write_reg P dev ATA_REG_HDDEVSEL (0xA0 OR push_bit 4 (slave dev)) h)"

text \<open>\<open>n\<close> words from the data port.\<close>

fun read_data :: "'h port_io \<Rightarrow> ata_device \<Rightarrow> nat \<Rightarrow> 'h \<Rightarrow> u16 list \<times> 'h" where
  "read_data P dev 0 h = ([], h)"
| "read_data P dev (Suc n) h =
     (let (w, h) = in_w P (io_base dev + ATA_REG_DATA) h; (ws, h) = read_data P dev n h in (w # ws, h))"

definition model_of :: "u16 list \<Rightarrow> bytes" where
  "model_of identify = concat (map (\<lambda>i. [ucast (drop_bit 8 (identify ! (27 + i))), ucast (identify ! (27 + i) AND 0xFF)]) [0..<20])"

definition size_of :: "u16 list \<Rightarrow> u32" where
  "size_of identify = push_bit 16 (ucast (identify ! 61)) OR ucast (identify ! 60)"

definition ata_detect :: "'h port_io \<Rightarrow> ata_device \<Rightarrow> 'h \<Rightarrow> int \<times> ata_device \<times> 'h" where
  "ata_detect P dev h =
     (let h = ata_select_drive P dev h;
          (r, h) = ata_wait_bsy P dev h;
          h = ata_write_reg P dev ATA_REG_COMMAND ATA_CMD_IDENTIFY h;
          (status, h) = ata_read_reg P dev ATA_REG_STATUS h in
      if status = 0 then (0, dev, h)
      else
        (let (r, h) = ata_wait_bsy P dev h in
         if r < 0 then (0, dev, h)
         else
           (let (r, h) = ata_wait_drq P dev h in
            if r < 0 then (0, dev, h)
            else
              (let (identify, h) = read_data P dev 256 h in
               (1, dev\<lparr>model := model_of identify, ad_size := size_of identify, ad_exists := True\<rparr>, h)))))"

definition ata_init :: "'h port_io \<Rightarrow> 'h ata \<Rightarrow> 'h ata option" where
  "ata_init P s = do {
     require (length (ata_devices s) = 4);
     let ds = map (\<lambda>d. d\<lparr>ad_exists := False, ad_size := 0\<rparr>) (ata_devices s);
     let ds = ds[0 := (ds ! 0)\<lparr>io_base := ATA_PRIMARY_IO, control_base := ATA_PRIMARY_CONTROL, slave := 0\<rparr>,
       1 := (ds ! 1)\<lparr>io_base := ATA_PRIMARY_IO, control_base := ATA_PRIMARY_CONTROL, slave := 1\<rparr>,
       2 := (ds ! 2)\<lparr>io_base := ATA_SECONDARY_IO, control_base := ATA_SECONDARY_CONTROL, slave := 0\<rparr>,
       3 := (ds ! 3)\<lparr>io_base := ATA_SECONDARY_IO, control_base := ATA_SECONDARY_CONTROL, slave := 1\<rparr>];
     for_range 0 4 (\<lambda>i s. do {
       d \<leftarrow> arr_get (ata_devices s) i;
       let (r, d, h) = ata_detect P d (ata_hw s);
       ds \<leftarrow> arr_set (ata_devices s) i d;
       Some (s\<lparr>ata_devices := ds, ata_hw := h\<rparr>)
     }) (s\<lparr>ata_devices := ds\<rparr>)
   }"

definition ata_get_device :: "nat \<Rightarrow> 'h ata \<Rightarrow> ata_device option" where
  "ata_get_device drive s =
     (if drive \<ge> 4 then None
      else if \<not> ad_exists (ata_devices s ! drive) then None else Some (ata_devices s ! drive))"

section \<open>Sectors\<close>

text \<open>The \<open>k\<close>-th 16-bit word of a buffer.\<close>

definition put16 :: "bytes \<Rightarrow> nat \<Rightarrow> u16 \<Rightarrow> bytes option" where
  "put16 buf k w = do { buf \<leftarrow> arr_set buf (2 * k) (ucast w); arr_set buf (2 * k + 1) (ucast (drop_bit 8 w)) }"

definition get16 :: "bytes \<Rightarrow> nat \<Rightarrow> u16 option" where
  "get16 buf k = do { a \<leftarrow> arr_get buf (2 * k); b \<leftarrow> arr_get buf (2 * k + 1); Some (of_le16 [a, b]) }"

text \<open>Both transfers start alike: the drive, the number of sectors and the address, then the command.\<close>

definition setup_transfer :: "'h port_io \<Rightarrow> ata_device \<Rightarrow> u32 \<Rightarrow> u8 \<Rightarrow> u8 \<Rightarrow> 'h \<Rightarrow> 'h" where
  "setup_transfer P dev lba sectors cmd h =
     (let h = ata_write_reg P dev ATA_REG_SECCOUNT0 sectors h;
          h = ata_write_reg P dev ATA_REG_LBA0 (ucast lba) h;
          h = ata_write_reg P dev ATA_REG_LBA1 (ucast (drop_bit 8 lba)) h;
          h = ata_write_reg P dev ATA_REG_LBA2 (ucast (drop_bit 16 lba)) h;
          h = ata_write_reg P dev ATA_REG_HDDEVSEL (0xE0 OR push_bit 4 (slave dev) OR (ucast (drop_bit 24 lba) AND 0x0F)) h in
      ata_write_reg P dev ATA_REG_COMMAND cmd h)"

fun read_sectors_from ::
  "'h port_io \<Rightarrow> ata_device \<Rightarrow> nat \<Rightarrow> nat \<Rightarrow> bytes \<Rightarrow> 'h \<Rightarrow> (int \<times> bytes \<times> 'h) option" where
  "read_sectors_from P dev sector 0 buf h = Some (0, buf, h)"
| "read_sectors_from P dev sector (Suc n) buf h =
     (let (r, h) = ata_wait_drq P dev h in
      if r < 0 then Some (- 1, buf, h)
      else do {
        (buf, h) \<leftarrow> for_range 0 256 (\<lambda>i (buf, h). do {
          let (w, h) = in_w P (io_base dev + ATA_REG_DATA) h;
          buf \<leftarrow> put16 buf (sector * 256 + i) w;
          Some (buf, h)
        }) (buf, h);
        read_sectors_from P dev (Suc sector) n buf h
      })"

definition ata_read_sectors ::
  "'h port_io \<Rightarrow> nat \<Rightarrow> u32 \<Rightarrow> u8 \<Rightarrow> bytes \<Rightarrow> 'h ata \<Rightarrow> (int \<times> bytes \<times> 'h ata) option" where
  "ata_read_sectors P drive lba sectors buffer s =
     (case ata_get_device drive s of
        None \<Rightarrow> Some (- 1, buffer, s)
      | Some dev \<Rightarrow>
          (let (r, h) = ata_wait_bsy P dev (ata_select_drive P dev (ata_hw s)) in
           if r < 0 then Some (- 1, buffer, s\<lparr>ata_hw := h\<rparr>)
           else do {
             (r, buffer, h) \<leftarrow> read_sectors_from P dev 0 (unat sectors) buffer (setup_transfer P dev lba sectors ATA_CMD_READ_PIO h);
             Some (r, buffer, s\<lparr>ata_hw := h\<rparr>)
           }))"

fun write_sectors_from ::
  "'h port_io \<Rightarrow> ata_device \<Rightarrow> nat \<Rightarrow> nat \<Rightarrow> bytes \<Rightarrow> 'h \<Rightarrow> (int \<times> 'h) option" where
  "write_sectors_from P dev sector 0 buf h = Some (0, h)"
| "write_sectors_from P dev sector (Suc n) buf h =
     (let (r, h) = ata_wait_drq P dev h in
      if r < 0 then Some (- 1, h)
      else do {
        h \<leftarrow> for_range 0 256 (\<lambda>i h. do {
          w \<leftarrow> get16 buf (sector * 256 + i);
          Some (out_w P (io_base dev + ATA_REG_DATA) w h)
        }) h;
        let (r, h) = ata_wait_bsy P dev h;
        if r < 0 then Some (- 1, h) else write_sectors_from P dev (Suc sector) n buf h
      })"

text \<open>The message about a write of sector 0: its first four bytes as a number.\<close>

definition write_message :: "bytes \<Rightarrow> cstring option" where
  "write_message buffer = do {
     require (4 \<le> length buffer);
     let d = of_le32 buffer;
     Some (cstr ''Write: 0x'' @ map (\<lambda>i. cstr ''0123456789ABCDEF'' ! unat (drop_bit (4 * (7 - i)) d AND 0xF)) [0..<8])
   }"

definition ata_write_sectors :: "'h port_io \<Rightarrow> nat \<Rightarrow> u32 \<Rightarrow> u8 \<Rightarrow> bytes \<Rightarrow> 'h ata \<Rightarrow> (int \<times> 'h ata) option" where
  "ata_write_sectors P drive lba sectors buffer s =
     (case ata_get_device drive s of
        None \<Rightarrow> Some (- 1, s)
      | Some dev \<Rightarrow> do {
          s \<leftarrow> (if lba = 0
            then do { m \<leftarrow> write_message buffer; Some (s\<lparr>ata_messages := ata_messages s @ [(m, 38)]\<rparr>) }
            else Some s);
          let (r, h) = ata_wait_bsy P dev (ata_select_drive P dev (ata_hw s));
          if r < 0 then Some (- 1, s\<lparr>ata_hw := h\<rparr>)
          else do {
            (r, h) \<leftarrow> write_sectors_from P dev 0 (unat sectors) buffer (setup_transfer P dev lba sectors ATA_CMD_WRITE_PIO h);
            if r < 0 then Some (- 1, s\<lparr>ata_hw := h\<rparr>)
            else
              (let (r, h) = ata_wait_bsy P dev (ata_write_reg P dev ATA_REG_COMMAND ATA_CMD_CACHE_FLUSH h) in
               Some (if r < 0 then - 1 else 0, s\<lparr>ata_hw := h\<rparr>))
          }
        })"

section \<open>Block devices\<close>

definition ata_blk_read :: "'h port_io \<Rightarrow> nat \<Rightarrow> 'h ata blk_read" where
  "ata_blk_read P drive block buffer s = ata_read_sectors P drive block 1 buffer s"

definition ata_blk_write :: "'h port_io \<Rightarrow> nat \<Rightarrow> 'h ata blk_write" where
  "ata_blk_write P drive block buffer s = ata_write_sectors P drive block 1 buffer s"

definition drive_name :: "nat \<Rightarrow> cstring" where
  "drive_name i = cstr ''hd'' @ [97 + of_nat i]"

definition ata_register_block_devices :: "'h port_io \<Rightarrow> 'h ata blkdevs \<Rightarrow> 'h ata blkdevs option" where
  "ata_register_block_devices P s = do {
     (s, registered) \<leftarrow> for_range 0 4 (\<lambda>i (s, registered).
       case ata_get_device i (bd_hw s) of
         None \<Rightarrow> Some (s, registered)
       | Some dev \<Rightarrow>
           (let (r, s) = blkdev_register (drive_name i) (ad_size dev) (Some (ata_blk_read P i)) (Some (ata_blk_write P i)) NULL s in
            Some (s, Suc registered))) (s, 0 :: nat);
     Some (if registered = 0
       then s\<lparr>bd_hw := (bd_hw s)\<lparr>ata_messages := ata_messages (bd_hw s) @ [(cstr ''Warning: No ATA devices found!'', 28)]\<rparr>\<rparr>
       else s)
   }"

section \<open>The controller\<close>

text \<open>
  The documented behaviour of an ATA controller in PIO mode, for the two drives on a bus, as far as the driver uses it. A view of the
  hardware says how long it is busy (\<open>b_wait\<close> bounds the reads of the status until it is not), what it transfers, the
  task registers 2 to 6, and for each drive, \<open>False\<close> the master and \<open>True\<close> the slave, the sectors, their number, 0 without a drive,
  and the 256 words that describe the drive. In \<open>Reading ws l c\<close> the words \<open>ws\<close> of a sector are left to read, then \<open>c\<close> sectors from
  \<open>l\<close> on; in \<open>Writing ws l c\<close> the words \<open>ws\<close> of sector \<open>l\<close> are written, and \<open>c\<close> sectors are to come, this one included.
\<close>

datatype phase = Idle | Reading "u16 list" nat nat | Writing "u16 list" nat nat

record bus =
  b_wait :: nat
  b_phase :: phase
  b_regs :: "u16 \<Rightarrow> u8"
  b_media :: "bool \<Rightarrow> nat \<Rightarrow> u16 list"
  b_size :: "bool \<Rightarrow> nat"
  b_ident :: "bool \<Rightarrow> u16 list"

definition quiet :: "bus \<Rightarrow> bool" where
  "quiet b \<longleftrightarrow> b_wait b = 0 \<and> b_phase b = Idle"

text \<open>The drive that is selected, the sector and the number of sectors in the registers.\<close>

definition b_drive :: "bus \<Rightarrow> bool" where
  "b_drive b = bit (b_regs b ATA_REG_HDDEVSEL) 4"

definition b_lba :: "bus \<Rightarrow> nat" where
  "b_lba b = unat (b_regs b ATA_REG_LBA0) + 2 ^ 8 * unat (b_regs b ATA_REG_LBA1) + 2 ^ 16 * unat (b_regs b ATA_REG_LBA2) +
     2 ^ 24 * (unat (b_regs b ATA_REG_HDDEVSEL) mod 16)"

definition b_count :: "bus \<Rightarrow> nat" where
  "b_count b = (if b_regs b ATA_REG_SECCOUNT0 = 0 then 256 else unat (b_regs b ATA_REG_SECCOUNT0))"

text \<open>The status: busy, or ready and perhaps with a request for data. The drives report no errors.\<close>

definition status_shows :: "bus \<Rightarrow> u8 \<Rightarrow> bool" where
  "status_shows b s \<longleftrightarrow> s AND ATA_SR_ERR = 0 \<and>
     (if b_wait b = 0 then s AND ATA_SR_BSY = 0 \<and> s AND ATA_SR_DRDY \<noteq> 0 \<and> (s AND ATA_SR_DRQ \<noteq> 0 \<longleftrightarrow> b_phase b \<noteq> Idle)
      else s AND ATA_SR_BSY \<noteq> 0 \<and> s AND ATA_SR_DRQ = 0)"

definition bus_status :: "'h port_io \<Rightarrow> u16 \<Rightarrow> ('h \<Rightarrow> bus) \<Rightarrow> bool" where
  "bus_status P base V \<longleftrightarrow> (\<forall>h s h'. in_b P (base + ATA_REG_STATUS) h = (s, h') \<longrightarrow> b_size (V h) (b_drive (V h)) \<noteq> 0 \<longrightarrow>
     status_shows (V h) s \<and> (\<exists>k. V h' = (V h)\<lparr>b_wait := k\<rparr> \<and> (if b_wait (V h) = 0 then k = 0 else k < b_wait (V h))))"

definition bus_registers :: "'h port_io \<Rightarrow> u16 \<Rightarrow> ('h \<Rightarrow> bus) \<Rightarrow> bool" where
  "bus_registers P base V \<longleftrightarrow> (\<forall>h r v. r \<in> {2, 3, 4, 5, 6} \<longrightarrow> quiet (V h) \<longrightarrow>
     V (out_b P (base + r) v h) = (V h)\<lparr>b_regs := (b_regs (V h))(r := v)\<rparr>)"

text \<open>The commands: an address on the drive, in LBA mode (bit 6), is required for a transfer.\<close>

definition after_command :: "u8 \<Rightarrow> bus \<Rightarrow> bus option" where
  "after_command cmd b =
     (let d = b_drive b; l = b_lba b; n = b_count b; ok = bit (b_regs b ATA_REG_HDDEVSEL) 6 \<and> l + n \<le> b_size b d in
      if b_size b d = 0 then None
      else if cmd = ATA_CMD_READ_PIO then (if ok then Some (b\<lparr>b_phase := Reading (b_media b d l) (Suc l) (n - 1)\<rparr>) else None)
      else if cmd = ATA_CMD_WRITE_PIO then (if ok then Some (b\<lparr>b_phase := Writing [] l n\<rparr>) else None)
      else if cmd = ATA_CMD_IDENTIFY then Some (b\<lparr>b_phase := Reading (b_ident b d) 0 0\<rparr>)
      else if cmd = ATA_CMD_CACHE_FLUSH then Some b
      else None)"

definition bus_commands :: "'h port_io \<Rightarrow> u16 \<Rightarrow> ('h \<Rightarrow> bus) \<Rightarrow> bool" where
  "bus_commands P base V \<longleftrightarrow> (\<forall>h cmd b. quiet (V h) \<longrightarrow> after_command cmd (V h) = Some b \<longrightarrow>
     (\<exists>k<100000. V (out_b P (base + ATA_REG_COMMAND) cmd h) = b\<lparr>b_wait := k\<rparr>))"

definition bus_data_in :: "'h port_io \<Rightarrow> u16 \<Rightarrow> ('h \<Rightarrow> bus) \<Rightarrow> bool" where
  "bus_data_in P base V \<longleftrightarrow> (\<forall>h w ws l c x h'. b_wait (V h) = 0 \<longrightarrow> b_phase (V h) = Reading (w # ws) l c \<longrightarrow>
     in_w P (base + ATA_REG_DATA) h = (x, h') \<longrightarrow> x = w \<and>
     (if ws \<noteq> [] then V h' = (V h)\<lparr>b_phase := Reading ws l c\<rparr>
      else if c = 0 then V h' = (V h)\<lparr>b_phase := Idle\<rparr>
      else \<exists>k<100000. V h' = (V h)\<lparr>b_phase := Reading (b_media (V h) (b_drive (V h)) l) (Suc l) (c - 1), b_wait := k\<rparr>))"

definition bus_data_out :: "'h port_io \<Rightarrow> u16 \<Rightarrow> ('h \<Rightarrow> bus) \<Rightarrow> bool" where
  "bus_data_out P base V \<longleftrightarrow> (\<forall>h ws l c w. b_wait (V h) = 0 \<longrightarrow> b_phase (V h) = Writing ws l c \<longrightarrow>
     (let d = b_drive (V h); h' = out_w P (base + ATA_REG_DATA) w h in
      if length ws < 255 then V h' = (V h)\<lparr>b_phase := Writing (ws @ [w]) l c\<rparr>
      else \<exists>k<100000. V h' = (V h)\<lparr>b_phase := (if c = 1 then Idle else Writing [] (Suc l) (c - 1)), b_wait := k,
        b_media := (b_media (V h))(d := (b_media (V h) d)(l := ws @ [w]))\<rparr>))"

definition ata_bus :: "'h port_io \<Rightarrow> u16 \<Rightarrow> ('h \<Rightarrow> bus) \<Rightarrow> bool" where
  "ata_bus P base V \<longleftrightarrow> bus_status P base V \<and> bus_registers P base V \<and> bus_commands P base V \<and>
     bus_data_in P base V \<and> bus_data_out P base V"

text \<open>A bus whose sectors have 256 words.\<close>

definition bus_ok :: "bus \<Rightarrow> bool" where
  "bus_ok b \<longleftrightarrow> (\<forall>d l. l < b_size b d \<longrightarrow> length (b_media b d l) = 256)"

section \<open>Waiting\<close>

lemma status_read:
  assumes "ata_bus P (io_base dev) V" "b_size (V h) (b_drive (V h)) \<noteq> 0"
  obtains s h' k where "ata_read_reg P dev ATA_REG_STATUS h = (s, h')" "status_shows (V h) s" "V h' = (V h)\<lparr>b_wait := k\<rparr>"
    "if b_wait (V h) = 0 then k = 0 else k < b_wait (V h)"
proof -
  obtain s h' where s: "in_b P (io_base dev + ATA_REG_STATUS) h = (s, h')" by fastforce
  have "bus_status P (io_base dev) V" using assms(1) by (simp add: ata_bus_def)
  then have "status_shows (V h) s \<and> (\<exists>k. V h' = (V h)\<lparr>b_wait := k\<rparr> \<and> (if b_wait (V h) = 0 then k = 0 else k < b_wait (V h)))"
    using s assms(2) unfolding bus_status_def by blast
  then obtain k where "status_shows (V h) s" "V h' = (V h)\<lparr>b_wait := k\<rparr>" "if b_wait (V h) = 0 then k = 0 else k < b_wait (V h)" by blast
  moreover have "ata_read_reg P dev ATA_REG_STATUS h = (s, h')" using s by (simp add: ata_read_reg_def)
  ultimately show ?thesis using that by blast
qed

lemma poll_run:
  assumes "ata_bus P (io_base dev) V" "b_size (V h) (b_drive (V h)) \<noteq> 0" "b_wait (V h) < n"
    and "\<And>b s. b_wait b = 0 \<Longrightarrow> b_phase b = b_phase (V h) \<Longrightarrow> status_shows b s \<Longrightarrow> wanted s"
    and busy: "\<And>b s. b_wait b \<noteq> 0 \<Longrightarrow> status_shows b s \<Longrightarrow> \<not> wanted s"
  shows "\<exists>h'. poll_status P dev wanted n h = (0, h') \<and> V h' = (V h)\<lparr>b_wait := 0\<rparr>"
  using assms(2-4)
proof (induction n arbitrary: h)
  case (Suc n)
  obtain s h1 k where s: "ata_read_reg P dev ATA_REG_STATUS h = (s, h1)" "status_shows (V h) s" "V h1 = (V h)\<lparr>b_wait := k\<rparr>"
    "if b_wait (V h) = 0 then k = 0 else k < b_wait (V h)"
    using status_read[OF assms(1) Suc.prems(1)] .
  show ?case
  proof (cases "b_wait (V h) = 0")
    case True
    then show ?thesis using s Suc.prems(3)[OF True refl s(2)] by simp
  next
    case False
    then have "\<exists>h'. poll_status P dev wanted n h1 = (0, h') \<and> V h' = (V h1)\<lparr>b_wait := 0\<rparr>"
      using Suc.prems s by (intro Suc.IH) (simp_all add: b_drive_def)
    then show ?thesis using s busy[OF False s(2)] by auto
  qed
qed simp

lemma wait_bsy_run:
  assumes "ata_bus P (io_base dev) V" "b_size (V h) (b_drive (V h)) \<noteq> 0" "b_wait (V h) < 100000"
  obtains h' where "ata_wait_bsy P dev h = (0, h')" "V h' = (V h)\<lparr>b_wait := 0\<rparr>"
  using poll_run[OF assms, of "\<lambda>s. s AND ATA_SR_BSY = 0"] that by (auto simp: ata_wait_bsy_def status_shows_def)

lemma wait_drq_run:
  assumes "ata_bus P (io_base dev) V" "b_size (V h) (b_drive (V h)) \<noteq> 0" "b_wait (V h) < 100000" "b_phase (V h) \<noteq> Idle"
  obtains h' where "ata_wait_drq P dev h = (0, h')" "V h' = (V h)\<lparr>b_wait := 0\<rparr>"
  using poll_run[OF assms(1-3), of "\<lambda>s. s AND ATA_SR_DRQ \<noteq> 0"] assms(4) that by (auto simp: ata_wait_drq_def status_shows_def)

text \<open>A drive that does not answer: the driver gives up after 100000 reads of its status.\<close>

lemma wait_timeout:
  assumes "\<And>h. \<not> wanted (fst (in_b P (io_base dev + ATA_REG_STATUS) h))"
  shows "poll_status P dev wanted n h = (- 1, status_reads P dev n h)"
  using assms
proof (induction n arbitrary: h)
  case (Suc n)
  obtain s h1 where s: "in_b P (io_base dev + ATA_REG_STATUS) h = (s, h1)" by fastforce
  then have "\<not> wanted s" using Suc.prems[of h] by simp
  then show ?case using Suc.IH[OF Suc.prems] s by (simp add: ata_read_reg_def)
qed simp

section \<open>Starting a transfer\<close>

text \<open>A drive of the table: on this bus, master or slave, and there.\<close>

definition drive_ok :: "bus \<Rightarrow> u16 \<Rightarrow> ata_device \<Rightarrow> bool" where
  "drive_ok b base dev \<longleftrightarrow> io_base dev = base \<and> slave dev \<in> {0, 1} \<and> b_size b (slave dev = 1) \<noteq> 0"

lemma status_reads_quiet:
  assumes "ata_bus P (io_base dev) V" "b_size (V h) (b_drive (V h)) \<noteq> 0" "quiet (V h)"
  shows "V (status_reads P dev n h) = V h"
  using assms(2,3)
proof (induction n arbitrary: h)
  case (Suc n)
  obtain s h1 k where s: "ata_read_reg P dev ATA_REG_STATUS h = (s, h1)" "V h1 = (V h)\<lparr>b_wait := k\<rparr>"
    "if b_wait (V h) = 0 then k = 0 else k < b_wait (V h)"
    using status_read[OF assms(1) Suc.prems(1)] .
  then have "V h1 = V h" using Suc.prems(2) by (simp add: quiet_def)
  then show ?case using Suc.IH[of h1] Suc.prems s(1) by simp
qed simp

lemma register_write:
  assumes "ata_bus P (io_base dev) V" "quiet (V h)" "r \<in> {2, 3, 4, 5, 6}"
  shows "V (ata_write_reg P dev r v h) = (V h)\<lparr>b_regs := (b_regs (V h))(r := v)\<rparr>"
  using assms by (auto simp: ata_bus_def bus_registers_def ata_write_reg_def)

lemma quiet_regs [simp]: "quiet (b\<lparr>b_regs := f\<rparr>) = quiet b"
  by (simp add: quiet_def)

text \<open>The bits of the register that selects the drive.\<close>

lemma select_bits:
  assumes "d \<in> {0, 1 :: u8}"
  shows "bit (0xA0 OR push_bit 4 d) 4 \<longleftrightarrow> d = 1"
    and "bit (0xE0 OR push_bit 4 d OR (x AND 0x0F)) 4 \<longleftrightarrow> d = 1"
    and "bit (0xE0 OR push_bit 4 d OR (x AND 0x0F)) 6"
    and "unat (0xE0 OR push_bit 4 d OR (x AND 0x0F)) mod 16 = unat x mod 16"
proof -
  have bits: "bit (0xA0 :: u8) 4 = False" "bit (0xE0 :: u8) 4 = False" "bit (0x0F :: u8) 4 = False" "bit (0xE0 :: u8) 6" "bit (1 :: u8) 0"
    by (simp_all add: bit_iff_odd)
  then show "bit (0xA0 OR push_bit 4 d) 4 \<longleftrightarrow> d = 1" "bit (0xE0 OR push_bit 4 d OR (x AND 0x0F)) 4 \<longleftrightarrow> d = 1"
    "bit (0xE0 OR push_bit 4 d OR (x AND 0x0F)) 6"
    using assms by (auto simp: bit_or_iff bit_and_iff bit_push_bit_iff)
  have "take_bit 4 (0xE0 OR push_bit 4 d OR (x AND 0x0F)) = take_bit 4 x"
  proof (rule bit_eqI)
    fix n assume "possible_bit TYPE(u8) n"
    have e: "(0xE0 :: u8) = push_bit 5 7" "(0x0F :: u8) = mask 4" by (simp_all add: mask_eq_exp_minus_1)
    have "bit (0xE0 :: u8) n = False" "bit (0x0F :: u8) n = True" if "n < 4"
      unfolding e bit_push_bit_iff bit_mask_iff using that by simp_all
    then show "bit (take_bit 4 (0xE0 OR push_bit 4 d OR (x AND 0x0F))) n = bit (take_bit 4 x) n"
      by (auto simp: bit_take_bit_iff bit_or_iff bit_and_iff bit_push_bit_iff)
  qed
  moreover have u: "unat w mod 16 = unat (take_bit 4 w)" for w :: u8 by (simp add: unsigned_take_bit_eq take_bit_nat_def)
  ultimately show "unat (0xE0 OR push_bit 4 d OR (x AND 0x0F)) mod 16 = unat x mod 16" by (simp only: u)
qed

lemma select_run:
  assumes "ata_bus P base V" "quiet (V h)" "drive_ok (V h) base dev"
  obtains f where "V (ata_select_drive P dev h) = (V h)\<lparr>b_regs := f\<rparr>" "bit (f ATA_REG_HDDEVSEL) 4 \<longleftrightarrow> slave dev = 1"
proof -
  have d: "io_base dev = base" "slave dev \<in> {0, 1}" "b_size (V h) (slave dev = 1) \<noteq> 0" using assms(3) by (simp_all add: drive_ok_def)
  let ?v = "0xA0 OR push_bit 4 (slave dev)"
  let ?h = "ata_write_reg P dev ATA_REG_HDDEVSEL ?v h"
  let ?b = "(V h)\<lparr>b_regs := (b_regs (V h))(ATA_REG_HDDEVSEL := ?v)\<rparr>"
  have b: "V ?h = ?b" using register_write[of P dev V h ATA_REG_HDDEVSEL] assms(1,2) d(1) by (simp add: ata_consts)
  then have "b_drive (V ?h) \<longleftrightarrow> slave dev = 1" using select_bits(1)[OF d(2)] by (simp add: b_drive_def)
  then have "V (status_reads P dev 4 ?h) = V ?h"
    using assms(1,2) d b by (intro status_reads_quiet) simp_all
  then show ?thesis using b select_bits(1)[OF d(2)] that[of "(b_regs (V h))(ATA_REG_HDDEVSEL := ?v)"]
    by (simp add: ata_select_drive_def)
qed

text \<open>The address of a transfer, in the registers.\<close>

lemma lba_bytes:
  assumes "unat (lba :: u32) < 2 ^ 28"
  shows "unat (ucast lba :: u8) + 2 ^ 8 * unat (ucast (drop_bit 8 lba) :: u8) + 2 ^ 16 * unat (ucast (drop_bit 16 lba) :: u8) +
    2 ^ 24 * (unat (ucast (drop_bit 24 lba) :: u8) mod 16) = unat lba"
proof -
  let ?n = "unat lba"
  have b: "unat (ucast (drop_bit k lba) :: u8) = ?n div 2 ^ k mod 2 ^ 8" for k
    by (simp add: unsigned_ucast_eq unsigned_drop_bit_eq take_bit_nat_def drop_bit_nat_def)
  have e3: "?n div 2 ^ 24 mod 2 ^ 8 mod 16 = ?n div 2 ^ 24" using assms by (simp add: less_mult_imp_div_less)
  have e2: "?n div 2 ^ 16 mod 2 ^ 8 + 2 ^ 8 * (?n div 2 ^ 24) = ?n div 2 ^ 16"
    using mod_mult_div_eq[of "?n div 2 ^ 16" "2 ^ 8"] by (simp flip: div_mult2_eq)
  have e1: "?n div 2 ^ 8 mod 2 ^ 8 + 2 ^ 8 * (?n div 2 ^ 16) = ?n div 2 ^ 8"
    using mod_mult_div_eq[of "?n div 2 ^ 8" "2 ^ 8"] by (simp flip: div_mult2_eq)
  have e0: "unat (ucast lba :: u8) + 2 ^ 8 * (?n div 2 ^ 8) = ?n" by (simp add: unsigned_ucast_eq take_bit_nat_def)
  have "x + 2 ^ 8 * y + 2 ^ 16 * z + 2 ^ 24 * w = x + 2 ^ 8 * (y + 2 ^ 8 * (z + 2 ^ 8 * w))" for x y z w :: nat by simp
  then show ?thesis unfolding b by (simp only: e0 e1 e2 e3)
qed

lemma transfer_command:
  assumes "ata_bus P base V" "quiet (V h)" "b_drive (V h) = d" "b_size (V h) d \<noteq> 0" "bit (b_regs (V h) ATA_REG_HDDEVSEL) 6"
    and "b_lba (V h) = l" "b_count (V h) = n" "l + n \<le> b_size (V h) d" "cmd = ATA_CMD_READ_PIO \<or> cmd = ATA_CMD_WRITE_PIO"
  obtains k where "k < 100000" "V (out_b P (base + ATA_REG_COMMAND) cmd h) = (V h)\<lparr>b_wait := k, b_phase :=
       (if cmd = ATA_CMD_READ_PIO then Reading (b_media (V h) d l) (Suc l) (n - 1) else Writing [] l n)\<rparr>"
proof -
  have "after_command cmd (V h) = Some ((V h)\<lparr>b_phase :=
       (if cmd = ATA_CMD_READ_PIO then Reading (b_media (V h) d l) (Suc l) (n - 1) else Writing [] l n)\<rparr>)"
    using assms(3-) by (auto simp: after_command_def Let_def ATA_CMD_READ_PIO_def ATA_CMD_WRITE_PIO_def)
  moreover have "bus_commands P base V" using assms(1) by (simp add: ata_bus_def)
  ultimately obtain k where "k < 100000" "V (out_b P (base + ATA_REG_COMMAND) cmd h) = ((V h)\<lparr>b_phase :=
       (if cmd = ATA_CMD_READ_PIO then Reading (b_media (V h) d l) (Suc l) (n - 1) else Writing [] l n)\<rparr>)\<lparr>b_wait := k\<rparr>"
    using assms(2) unfolding bus_commands_def by blast
  then show ?thesis using that[of k] by simp
qed

lemma setup_run:
  assumes "ata_bus P base V" "quiet (V h)" "drive_ok (V h) base dev" "unat lba < 2 ^ 28"
    and "unat lba + n \<le> b_size (V h) (slave dev = 1)" "n = (if sectors = 0 then 256 else unat sectors)"
    and "cmd = ATA_CMD_READ_PIO \<or> cmd = ATA_CMD_WRITE_PIO"
  obtains f k where "bit (f ATA_REG_HDDEVSEL) 4 \<longleftrightarrow> slave dev = 1" "k < 100000"
    "V (setup_transfer P dev lba sectors cmd h) = (V h)\<lparr>b_regs := f, b_wait := k, b_phase :=
       (if cmd = ATA_CMD_READ_PIO then Reading (b_media (V h) (slave dev = 1) (unat lba)) (Suc (unat lba)) (n - 1)
        else Writing [] (unat lba) n)\<rparr>"
proof -
  have d: "io_base dev = base" "slave dev \<in> {0, 1}" "b_size (V h) (slave dev = 1) \<noteq> 0" using assms(3) by (simp_all add: drive_ok_def)
  let ?w = "ata_write_reg P dev"
  let ?s = "0xE0 OR push_bit 4 (slave dev) OR (ucast (drop_bit 24 lba) AND 0x0F) :: u8"
  let ?h = "?w 6 ?s (?w 5 (ucast (drop_bit 16 lba)) (?w 4 (ucast (drop_bit 8 lba)) (?w 3 (ucast lba) (?w 2 sectors h))))"
  let ?f = "(b_regs (V h))(2 := sectors, 3 := ucast lba, 4 := ucast (drop_bit 8 lba), 5 := ucast (drop_bit 16 lba), 6 := ?s)"
  let ?b = "(V h)\<lparr>b_regs := ?f\<rparr>"
  note w = register_write[of P dev V, unfolded d(1), OF assms(1)]
  have h: "V ?h = ?b" using assms(2) by (simp add: w)
  have sel: "b_drive ?b \<longleftrightarrow> slave dev = 1" "bit (?f ATA_REG_HDDEVSEL) 6"
    using select_bits(2,3)[OF d(2)] by (simp_all add: b_drive_def ata_consts)
  have "b_lba ?b = unat lba" using lba_bytes[OF assms(4)] select_bits(4)[OF d(2)] by (simp add: b_lba_def ata_consts)
  moreover have "b_count ?b = n" using assms(6) by (simp add: b_count_def ata_consts)
  ultimately obtain k where k: "k < 100000" "V (out_b P (base + ATA_REG_COMMAND) cmd ?h) = (V ?h)\<lparr>b_wait := k, b_phase :=
       (if cmd = ATA_CMD_READ_PIO then Reading (b_media (V ?h) (slave dev = 1) (unat lba)) (Suc (unat lba)) (n - 1)
        else Writing [] (unat lba) n)\<rparr>"
    using transfer_command[OF assms(1), of ?h "slave dev = 1" "unat lba" n cmd] assms(2,5,7) sel d(3) unfolding h by auto
  moreover have "setup_transfer P dev lba sectors cmd h = out_b P (base + ATA_REG_COMMAND) cmd ?h"
    by (simp add: setup_transfer_def ata_write_reg_def d(1) ata_consts Let_def)
  ultimately show ?thesis using that[of ?f k] sel(1) unfolding h by (simp add: b_drive_def)
qed

section \<open>Moving sectors\<close>

definition sector_bytes :: "u16 list \<Rightarrow> bytes" where
  "sector_bytes ws = concat (map le16 ws)"

lemma sector_bytes_simps [simp]:
  "sector_bytes [] = []" "sector_bytes (w # ws) = le16 w @ sector_bytes ws" "sector_bytes (vs @ ws) = sector_bytes vs @ sector_bytes ws"
  by (simp_all add: sector_bytes_def)

lemma length_sector_bytes [simp]: "length (sector_bytes ws) = 2 * length ws"
  by (induction ws) simp_all

lemma put16_at: "length A = 2 * k \<Longrightarrow> 2 \<le> length B \<Longrightarrow> put16 (A @ B) k w = Some (A @ le16 w @ drop 2 B)"
  by (cases B rule: remdups_adj.cases) (simp_all add: put16_def le16_def list_update_append)

lemma get16_at: "length A = 2 * k \<Longrightarrow> get16 (A @ le16 w @ B) k = Some w"
  using of_le16_le16[of w "[]"] by (simp add: get16_def le16_def nth_append)

lemma read_sector:
  assumes "ata_bus P (io_base dev) V" "b_wait (V h) = 0" "b_phase (V h) = Reading ws l c" "length ws = 256"
    and "512 * Suc sector \<le> length buf"
  obtains h' k where "for_range 0 256 (\<lambda>i (buf, h). do {
      let (w, h) = in_w P (io_base dev + ATA_REG_DATA) h;
      buf \<leftarrow> put16 buf (sector * 256 + i) w;
      Some (buf, h)
    }) (buf, h) = Some (take (512 * sector) buf @ sector_bytes ws @ drop (512 * Suc sector) buf, h')" "k < 100000"
    "V h' = (if c = 0 then (V h)\<lparr>b_phase := Idle\<rparr>
      else (V h)\<lparr>b_phase := Reading (b_media (V h) (b_drive (V h)) l) (Suc l) (c - 1), b_wait := k\<rparr>)"
proof -
  let ?f = "\<lambda>i (buf, h). do {
      let (w, h) = in_w P (io_base dev + ATA_REG_DATA) h;
      buf \<leftarrow> put16 buf (sector * 256 + i) w;
      Some (buf, h)
    }"
  let ?buf = "\<lambda>j. take (512 * sector) buf @ sector_bytes (take j ws) @ drop (512 * sector + 2 * j) buf"
  let ?after = "\<lambda>b. \<exists>k<100000. b = (if c = 0 then (V h)\<lparr>b_phase := Idle\<rparr>
      else (V h)\<lparr>b_phase := Reading (b_media (V h) (b_drive (V h)) l) (Suc l) (c - 1), b_wait := k\<rparr>)"
  let ?I = "\<lambda>j (b, h'). b = ?buf j \<and> (if j < 256 then V h' = (V h)\<lparr>b_phase := Reading (drop j ws) l c\<rparr> else ?after (V h'))"
  have bus: "bus_data_in P (io_base dev) V" using assms(1) by (simp add: ata_bus_def)
  have "\<exists>s'. for_range 0 256 ?f (buf, h) = Some s' \<and> ?I (0 + 256) s'"
  proof (rule for_range_inv)
    fix j and s :: "bytes \<times> 'a"
    assume j: "j < 0 + 256" and I: "?I j s"
    obtain b h1 where s: "s = (b, h1)" by force
    obtain x h2 where x: "in_w P (io_base dev + ATA_REG_DATA) h1 = (x, h2)" by force
    have v: "V h1 = (V h)\<lparr>b_phase := Reading (drop j ws) l c\<rparr>" and b: "b = ?buf j" using I s j by simp_all
    have ws: "drop j ws = ws ! j # drop (Suc j) ws" "take (Suc j) ws = take j ws @ [ws ! j]"
      using j assms(4) by (simp_all add: Cons_nth_drop_Suc take_Suc_conv_app_nth)
    have "b_phase (V h1) = Reading (ws ! j # drop (Suc j) ws) l c" "b_wait (V h1) = 0" using v ws(1) assms(2) by simp_all
    then have step: "x = ws ! j \<and>
      (if drop (Suc j) ws \<noteq> [] then V h2 = (V h1)\<lparr>b_phase := Reading (drop (Suc j) ws) l c\<rparr>
       else if c = 0 then V h2 = (V h1)\<lparr>b_phase := Idle\<rparr>
       else \<exists>k<100000. V h2 = (V h1)\<lparr>b_phase := Reading (b_media (V h1) (b_drive (V h1)) l) (Suc l) (c - 1), b_wait := k\<rparr>)"
      using bus x unfolding bus_data_in_def by blast
    have "put16 b (sector * 256 + j) (ws ! j) = Some (?buf (Suc j))"
      using put16_at[of "take (512 * sector) buf @ sector_bytes (take j ws)" "sector * 256 + j" "drop (512 * sector + 2 * j) buf" "ws ! j"]
        j assms(4,5) unfolding b ws(2) by (simp add: min_def)
    moreover have "if Suc j < 256 then V h2 = (V h)\<lparr>b_phase := Reading (drop (Suc j) ws) l c\<rparr> else ?after (V h2)"
    proof (cases "Suc j < 256 \<or> c = 0")
      case True
      have "?after (V h2)" if "c = 0" "V h2 = (V h)\<lparr>b_phase := Idle\<rparr>" using that by (intro exI[of _ 0]) simp
      then show ?thesis using True step v j assms(4) by auto
    next
      case False
      then show ?thesis using step v j assms(4) by (auto simp: b_drive_def)
    qed
    ultimately show "\<exists>s'. ?f j s = Some s' \<and> ?I (Suc j) s'" using s x step by simp
  next
    show "?I 0 (buf, h)" using assms(3) by simp
  qed
  then obtain h' k where "for_range 0 256 ?f (buf, h) = Some (?buf 256, h')" "k < 100000"
    "V h' = (if c = 0 then (V h)\<lparr>b_phase := Idle\<rparr>
      else (V h)\<lparr>b_phase := Reading (b_media (V h) (b_drive (V h)) l) (Suc l) (c - 1), b_wait := k\<rparr>)" by auto
  then show ?thesis using assms(4) that[of h' k] by (simp add: add.commute)
qed

text \<open>The bytes of \<open>n\<close> sectors from \<open>l\<close> on.\<close>

definition sectors_bytes :: "(nat \<Rightarrow> u16 list) \<Rightarrow> nat \<Rightarrow> nat \<Rightarrow> bytes" where
  "sectors_bytes m l n = concat (map (\<lambda>k. sector_bytes (m k)) [l..<l + n])"

lemma sectors_bytes_Suc: "sectors_bytes m l (Suc n) = sector_bytes (m l) @ sectors_bytes m (Suc l) n"
proof -
  have "[l..<l + Suc n] = l # [Suc l..<Suc l + n]" by (simp add: upt_conv_Cons)
  then show ?thesis by (simp add: sectors_bytes_def)
qed

lemma read_sectors_run:
  assumes "ata_bus P (io_base dev) V" "b_size (V h) d \<noteq> 0" "b_drive (V h) = d" "bus_ok (V h)" "b_wait (V h) < 100000"
    and "if n = 0 then quiet (V h) else b_phase (V h) = Reading (b_media (V h) d l) (Suc l) (n - 1)"
    and "l + n \<le> b_size (V h) d" "512 * (sector + n) \<le> length buf"
  shows "\<exists>h'. read_sectors_from P dev sector n buf h =
      Some (0, take (512 * sector) buf @ sectors_bytes (b_media (V h) d) l n @ drop (512 * (sector + n)) buf, h') \<and>
    V h' = (V h)\<lparr>b_phase := Idle, b_wait := 0\<rparr>"
  using assms(2-)
proof (induction n arbitrary: h l sector buf)
  case 0
  then show ?case by (simp add: sectors_bytes_def quiet_def)
next
  case (Suc n)
  let ?m = "b_media (V h) d"
  have phase: "b_phase (V h) = Reading (?m l) (Suc l) n" using Suc.prems(5) by simp
  obtain h1 where h1: "ata_wait_drq P dev h = (0, h1)" "V h1 = (V h)\<lparr>b_wait := 0\<rparr>"
    using wait_drq_run[of P dev V h] assms(1) Suc.prems(1,2,4) phase by auto
  have ws: "length (?m l) = 256" using Suc.prems(3,6) by (simp add: bus_ok_def)
  let ?buf = "take (512 * sector) buf @ sector_bytes (?m l) @ drop (512 * Suc sector) buf"
  obtain h2 k where h2: "for_range 0 256 (\<lambda>i (buf, h). do {
      let (w, h) = in_w P (io_base dev + ATA_REG_DATA) h;
      buf \<leftarrow> put16 buf (sector * 256 + i) w;
      Some (buf, h)
    }) (buf, h1) = Some (?buf, h2)" "k < 100000"
    "V h2 = (if n = 0 then (V h1)\<lparr>b_phase := Idle\<rparr>
      else (V h1)\<lparr>b_phase := Reading (b_media (V h1) (b_drive (V h1)) (Suc l)) (Suc (Suc l)) (n - 1), b_wait := k\<rparr>)"
    using read_sector[of P dev V h1 "?m l" "Suc l" n sector buf] assms(1) h1(2) phase ws Suc.prems(7) by auto
  have v2: "V h2 = (V h)\<lparr>b_phase := (if n = 0 then Idle else Reading (?m (Suc l)) (Suc (Suc l)) (n - 1)),
      b_wait := (if n = 0 then 0 else k)\<rparr>"
    using h2(3) h1(2) Suc.prems(2) by (simp add: b_drive_def)
  have len: "length ?buf = length buf" using ws Suc.prems(7) by simp
  have "take (512 * Suc sector) ?buf = take (512 * sector) buf @ sector_bytes (?m l)"
    and "drop (512 * (Suc sector + n)) ?buf = drop (512 * (sector + Suc n)) buf"
    using ws Suc.prems(7) by (simp_all add: algebra_simps)
  note parts = this
  have "\<exists>h'. read_sectors_from P dev (Suc sector) n ?buf h2 =
      Some (0, take (512 * Suc sector) ?buf @ sectors_bytes (b_media (V h2) d) (Suc l) n @ drop (512 * (Suc sector + n)) ?buf, h') \<and>
    V h' = (V h2)\<lparr>b_phase := Idle, b_wait := 0\<rparr>"
    using Suc.prems h2(2) unfolding len
    by (intro Suc.IH) (simp_all add: v2 b_drive_def bus_ok_def quiet_def)
  then obtain h3 where h3: "read_sectors_from P dev (Suc sector) n ?buf h2 =
      Some (0, take (512 * sector) buf @ sectors_bytes ?m l (Suc n) @ drop (512 * (sector + Suc n)) buf, h3)"
    "V h3 = (V h)\<lparr>b_phase := Idle, b_wait := 0\<rparr>"
    unfolding parts by (auto simp: v2 sectors_bytes_Suc)
  have "read_sectors_from P dev sector (Suc n) buf h = read_sectors_from P dev (Suc sector) n ?buf h2"
    using h1(1) h2(1) by simp
  then show ?case using h3 by auto
qed

text \<open>The words of a buffer, from the \<open>k\<close>-th on.\<close>

definition words_at :: "bytes \<Rightarrow> nat \<Rightarrow> nat \<Rightarrow> u16 list" where
  "words_at buf k n = map (\<lambda>i. of_le16 [buf ! (2 * (k + i)), buf ! (2 * (k + i) + 1)]) [0..<n]"

lemma length_words_at [simp]: "length (words_at buf k n) = n"
  by (simp add: words_at_def)

lemma le16_of_le16: "le16 (of_le16 [a, b]) = [a, b]"
  by (simp add: le16_def, intro conjI bit_eqI) (auto simp: bit_simps dest: bit_imp_le_length)

lemma words_at_bytes:
  assumes "2 * (k + n) \<le> length buf"
  shows "sector_bytes (words_at buf k n) = take (2 * n) (drop (2 * k) buf)"
  using assms
proof (induction n)
  case (Suc n)
  then have "take (2 * Suc n) (drop (2 * k) buf) = take (2 * n) (drop (2 * k) buf) @ [buf ! (2 * (k + n)), buf ! (2 * (k + n) + 1)]"
    by (simp add: take_Suc_conv_app_nth)
  then show ?case using Suc by (simp add: words_at_def le16_of_le16 del: of_le16.simps)
qed (simp add: words_at_def)

lemma write_sector:
  assumes "ata_bus P (io_base dev) V" "b_wait (V h) = 0" "b_phase (V h) = Writing [] l c" "512 * Suc sector \<le> length buf"
  obtains h' k where "for_range 0 256 (\<lambda>i h. do {
      w \<leftarrow> get16 buf (sector * 256 + i);
      Some (out_w P (io_base dev + ATA_REG_DATA) w h)
    }) h = Some h'" "k < 100000"
    "V h' = (V h)\<lparr>b_phase := (if c = 1 then Idle else Writing [] (Suc l) (c - 1)), b_wait := k,
      b_media := (b_media (V h))(b_drive (V h) := (b_media (V h) (b_drive (V h)))(l := words_at buf (256 * sector) 256))\<rparr>"
proof -
  let ?f = "\<lambda>i h. do { w \<leftarrow> get16 buf (sector * 256 + i); Some (out_w P (io_base dev + ATA_REG_DATA) w h) }"
  let ?ws = "words_at buf (256 * sector)"
  let ?after = "\<lambda>b. \<exists>k<100000. b = (V h)\<lparr>b_phase := (if c = 1 then Idle else Writing [] (Suc l) (c - 1)), b_wait := k,
      b_media := (b_media (V h))(b_drive (V h) := (b_media (V h) (b_drive (V h)))(l := ?ws 256))\<rparr>"
  let ?I = "\<lambda>j h'. if j < 256 then V h' = (V h)\<lparr>b_phase := Writing (?ws j) l c\<rparr> else ?after (V h')"
  have bus: "bus_data_out P (io_base dev) V" using assms(1) by (simp add: ata_bus_def)
  have "\<exists>s'. for_range 0 256 ?f h = Some s' \<and> ?I (0 + 256) s'"
  proof (rule for_range_inv)
    fix j h1
    assume j: "j < 0 + 256" and I: "?I j h1"
    let ?w = "of_le16 [buf ! (2 * (256 * sector + j)), buf ! (2 * (256 * sector + j) + 1)]"
    have g: "get16 buf (sector * 256 + j) = Some ?w" using j assms(4) by (simp add: get16_def mult.commute)
    have v: "V h1 = (V h)\<lparr>b_phase := Writing (?ws j) l c\<rparr>" using I j by simp
    have ws: "?ws (Suc j) = ?ws j @ [?w]" by (simp add: words_at_def)
    have "b_phase (V h1) = Writing (?ws j) l c" "b_wait (V h1) = 0" using v assms(2) by simp_all
    then have step: "let d = b_drive (V h1); h' = out_w P (io_base dev + ATA_REG_DATA) ?w h1 in
      if length (?ws j) < 255 then V h' = (V h1)\<lparr>b_phase := Writing (?ws j @ [?w]) l c\<rparr>
      else \<exists>k<100000. V h' = (V h1)\<lparr>b_phase := (if c = 1 then Idle else Writing [] (Suc l) (c - 1)), b_wait := k,
        b_media := (b_media (V h1))(d := (b_media (V h1) d)(l := ?ws j @ [?w]))\<rparr>"
      using bus unfolding bus_data_out_def by blast
    have "?I (Suc j) (out_w P (io_base dev + ATA_REG_DATA) ?w h1)"
    proof (cases "Suc j < 256")
      case True
      then show ?thesis using step v ws by (simp add: Let_def)
    next
      case False
      then have "j = 255" using j by simp
      then show ?thesis using step v ws by (auto simp: Let_def b_drive_def)
    qed
    moreover have "?f j h1 = Some (out_w P (io_base dev + ATA_REG_DATA) ?w h1)" by (simp only: g Option.bind.simps)
    ultimately show "\<exists>s'. ?f j h1 = Some s' \<and> ?I (Suc j) s'" by blast
  next
    show "?I 0 h" using assms(2,3) by (simp add: words_at_def)
  qed
  then show ?thesis using that by auto
qed

text \<open>The sectors of a drive after \<open>n\<close> of them, from \<open>l\<close> on, are written from the \<open>k\<close>-th sector of a buffer.\<close>

definition put_sectors :: "(nat \<Rightarrow> u16 list) \<Rightarrow> nat \<Rightarrow> nat \<Rightarrow> bytes \<Rightarrow> nat \<Rightarrow> nat \<Rightarrow> u16 list" where
  "put_sectors m l n buf k = (\<lambda>j. if l \<le> j \<and> j < l + n then words_at buf (256 * (k + (j - l))) 256 else m j)"

lemma put_sectors_Suc:
  "put_sectors (m(l := words_at buf (256 * k) 256)) (Suc l) n buf (Suc k) = put_sectors m l (Suc n) buf k"
proof
  fix j
  have "Suc k + (j - Suc l) = k + (j - l)" if "Suc l \<le> j" using that by simp
  then show "put_sectors (m(l := words_at buf (256 * k) 256)) (Suc l) n buf (Suc k) j = put_sectors m l (Suc n) buf k j"
    unfolding put_sectors_def by (cases "j = l"; cases "Suc l \<le> j") auto
qed

lemma write_sectors_run:
  assumes "ata_bus P (io_base dev) V" "b_size (V h) d \<noteq> 0" "b_drive (V h) = d" "b_wait (V h) < 100000"
    and "if n = 0 then quiet (V h) else b_phase (V h) = Writing [] l n" "512 * (sector + n) \<le> length buf"
  shows "\<exists>h'. write_sectors_from P dev sector n buf h = Some (0, h') \<and>
    V h' = (V h)\<lparr>b_phase := Idle, b_wait := 0, b_media := (b_media (V h))(d := put_sectors (b_media (V h) d) l n buf sector)\<rparr>"
  using assms(2-)
proof (induction n arbitrary: h l sector)
  case 0
  have "put_sectors m l 0 buf sector = m" for m :: "nat \<Rightarrow> u16 list" by (auto simp: put_sectors_def fun_eq_iff)
  then show ?case using 0 by (simp add: quiet_def)
next
  case (Suc n)
  obtain h1 where h1: "ata_wait_drq P dev h = (0, h1)" "V h1 = (V h)\<lparr>b_wait := 0\<rparr>"
    using wait_drq_run[of P dev V h] assms(1) Suc.prems(1-4) by auto
  let ?w = "words_at buf (256 * sector) 256"
  have p: "b_wait (V h1) = 0" "b_phase (V h1) = Writing [] l (Suc n)" "512 * Suc sector \<le> length buf" "b_drive (V h1) = d"
    using h1(2) Suc.prems(2,4,5) by (simp_all add: b_drive_def)
  obtain h2 k where h2: "for_range 0 256 (\<lambda>i h. do {
      w \<leftarrow> get16 buf (sector * 256 + i);
      Some (out_w P (io_base dev + ATA_REG_DATA) w h)
    }) h1 = Some h2" "k < 100000"
    "V h2 = (V h1)\<lparr>b_phase := (if Suc n = 1 then Idle else Writing [] (Suc l) (Suc n - 1)), b_wait := k,
      b_media := (b_media (V h1))(d := (b_media (V h1) d)(l := ?w))\<rparr>"
    using write_sector[OF assms(1) p(1-3), unfolded p(4)] by blast
  have v2: "V h2 = (V h)\<lparr>b_phase := (if n = 0 then Idle else Writing [] (Suc l) n), b_wait := k,
      b_media := (b_media (V h))(d := (b_media (V h) d)(l := ?w))\<rparr>"
    using h2(3) h1(2) by simp
  obtain h3 where h3: "ata_wait_bsy P dev h2 = (0, h3)" "V h3 = (V h2)\<lparr>b_wait := 0\<rparr>"
    using wait_bsy_run[of P dev V h2] assms(1) h2(2) v2 Suc.prems(1,2) by (auto simp: b_drive_def)
  have "\<exists>h'. write_sectors_from P dev (Suc sector) n buf h3 = Some (0, h') \<and>
    V h' = (V h3)\<lparr>b_phase := Idle, b_wait := 0, b_media := (b_media (V h3))(d := put_sectors (b_media (V h3) d) (Suc l) n buf (Suc sector))\<rparr>"
    using Suc.prems h2(2) by (intro Suc.IH) (simp_all add: h3(2) v2 b_drive_def quiet_def)
  then obtain h4 where h4: "write_sectors_from P dev (Suc sector) n buf h3 = Some (0, h4)"
    "V h4 = (V h)\<lparr>b_phase := Idle, b_wait := 0, b_media := (b_media (V h))(d := put_sectors (b_media (V h) d) l (Suc n) buf sector)\<rparr>"
    by (auto simp: h3(2) v2 put_sectors_Suc)
  have "write_sectors_from P dev sector (Suc n) buf h = Some (0, h4)" using h1(1) h2(1) h3(1) h4(1) by simp
  then show ?case using h4(2) by blast
qed

section \<open>Reading and writing\<close>

text \<open>
  A drive that can be used: it is in the table, the controller behind its ports is one, the bus is at rest. Its sectors are \<open>ata_sectors\<close>.
\<close>

definition ata_ready :: "'h port_io \<Rightarrow> ('h \<Rightarrow> bus) \<Rightarrow> nat \<Rightarrow> 'h ata \<Rightarrow> bool" where
  "ata_ready P V i s \<longleftrightarrow> (\<exists>dev. ata_get_device i s = Some dev \<and> ata_bus P (io_base dev) V \<and> drive_ok (V (ata_hw s)) (io_base dev) dev) \<and>
     quiet (V (ata_hw s)) \<and> bus_ok (V (ata_hw s))"

definition is_slave :: "nat \<Rightarrow> 'h ata \<Rightarrow> bool" where
  "is_slave i s \<longleftrightarrow> slave (ata_devices s ! i) = 1"

definition ata_sectors :: "('h \<Rightarrow> bus) \<Rightarrow> nat \<Rightarrow> 'h ata \<Rightarrow> nat \<Rightarrow> u16 list" where
  "ata_sectors V i s = b_media (V (ata_hw s)) (is_slave i s)"

definition ata_capacity :: "('h \<Rightarrow> bus) \<Rightarrow> nat \<Rightarrow> 'h ata \<Rightarrow> nat" where
  "ata_capacity V i s = b_size (V (ata_hw s)) (is_slave i s)"

text \<open>Both transfers up to the command.\<close>

lemma started:
  assumes "ata_ready P V i s" "ata_get_device i s = Some dev" "sectors \<noteq> 0"
    and "unat lba + unat sectors \<le> ata_capacity V i s" "unat lba < 2 ^ 28" "cmd = ATA_CMD_READ_PIO \<or> cmd = ATA_CMD_WRITE_PIO"
  obtains h f k where "ata_wait_bsy P dev (ata_select_drive P dev (ata_hw s)) = (0, h)" "k < 100000"
    "bit (f ATA_REG_HDDEVSEL) 4 \<longleftrightarrow> is_slave i s"
    "V (setup_transfer P dev lba sectors cmd h) = (V (ata_hw s))\<lparr>b_regs := f, b_wait := k, b_phase :=
       (if cmd = ATA_CMD_READ_PIO then Reading (ata_sectors V i s (unat lba)) (Suc (unat lba)) (unat sectors - 1)
        else Writing [] (unat lba) (unat sectors))\<rparr>"
proof -
  let ?b = "V (ata_hw s)"
  have r: "ata_bus P (io_base dev) V" "drive_ok ?b (io_base dev) dev" "quiet ?b" using assms(1,2) by (auto simp: ata_ready_def)
  have sl: "is_slave i s \<longleftrightarrow> slave dev = 1" using assms(2) by (auto simp: is_slave_def ata_get_device_def split: if_splits)
  have size: "b_size ?b (slave dev = 1) \<noteq> 0" using r(2) by (simp add: drive_ok_def)
  obtain f where f: "V (ata_select_drive P dev (ata_hw s)) = ?b\<lparr>b_regs := f\<rparr>" "bit (f ATA_REG_HDDEVSEL) 4 \<longleftrightarrow> slave dev = 1"
    using select_run[OF r(1,3,2)] .
  have q: "b_wait ?b = 0" using r(3) by (simp add: quiet_def)
  obtain h where h: "ata_wait_bsy P dev (ata_select_drive P dev (ata_hw s)) = (0, h)" "V h = ?b\<lparr>b_regs := f, b_wait := 0\<rparr>"
    using wait_bsy_run[of P dev V "ata_select_drive P dev (ata_hw s)"] r(1) f size q by (auto simp: b_drive_def)
  have vh: "V h = ?b\<lparr>b_regs := f\<rparr>" using h(2) q by simp
  have p: "quiet (V h)" "drive_ok (V h) (io_base dev) dev" "unat lba + unat sectors \<le> b_size (V h) (slave dev = 1)"
    "unat sectors = (if sectors = 0 then 256 else unat sectors)"
    using r(2,3) vh assms(3,4) sl by (simp_all add: drive_ok_def ata_capacity_def)
  obtain f' k where "bit (f' ATA_REG_HDDEVSEL) 4 \<longleftrightarrow> slave dev = 1" "k < 100000"
    "V (setup_transfer P dev lba sectors cmd h) = (V h)\<lparr>b_regs := f', b_wait := k, b_phase :=
       (if cmd = ATA_CMD_READ_PIO then Reading (b_media (V h) (slave dev = 1) (unat lba)) (Suc (unat lba)) (unat sectors - 1)
        else Writing [] (unat lba) (unat sectors))\<rparr>"
    using setup_run[OF r(1) p(1,2) assms(5) p(3,4) assms(6)] .
  then show ?thesis using that[OF h(1), of k f'] sl vh by (simp add: ata_sectors_def)
qed

lemma ata_ready_step:
  assumes "ata_ready P V i s" "V h = (V (ata_hw s))\<lparr>b_regs := f, b_wait := 0, b_phase := Idle, b_media := m\<rparr>"
    and "\<And>d l. l < b_size (V (ata_hw s)) d \<Longrightarrow> length (m d l) = 256" "ata_devices t = ata_devices s" "ata_hw t = h"
  shows "ata_ready P V i t" and "is_slave i t = is_slave i s" and "ata_capacity V i t = ata_capacity V i s"
proof -
  show "is_slave i t = is_slave i s" using assms(4) by (simp add: is_slave_def)
  then show "ata_capacity V i t = ata_capacity V i s" using assms(2,5) by (simp add: ata_capacity_def)
  show "ata_ready P V i t" using assms by (auto simp: ata_ready_def ata_get_device_def drive_ok_def quiet_def bus_ok_def split: if_splits)
qed

text \<open>
  Reading sectors from a drive puts their bytes into the buffer and leaves every sector of both drives on the bus as it is.
\<close>

lemma ata_read_run:
  assumes "ata_ready P V i s" "sectors \<noteq> 0" "unat lba + unat sectors \<le> ata_capacity V i s" "unat lba < 2 ^ 28"
    and "512 * unat sectors \<le> length buffer"
  obtains s' where "ata_read_sectors P i lba sectors buffer s =
      Some (0, sectors_bytes (ata_sectors V i s) (unat lba) (unat sectors) @ drop (512 * unat sectors) buffer, s')"
    "ata_ready P V i s'" "ata_devices s' = ata_devices s" "b_media (V (ata_hw s')) = b_media (V (ata_hw s))"
    "ata_capacity V i s' = ata_capacity V i s" "is_slave i s' = is_slave i s"
proof -
  let ?b = "V (ata_hw s)"
  obtain dev where dev: "ata_get_device i s = Some dev" "ata_bus P (io_base dev) V" "drive_ok ?b (io_base dev) dev" "bus_ok ?b"
    using assms(1) by (auto simp: ata_ready_def)
  have sl: "is_slave i s \<longleftrightarrow> slave dev = 1" using dev(1) by (auto simp: is_slave_def ata_get_device_def split: if_splits)
  obtain h f k where h: "ata_wait_bsy P dev (ata_select_drive P dev (ata_hw s)) = (0, h)" "k < 100000"
    "bit (f ATA_REG_HDDEVSEL) 4 \<longleftrightarrow> is_slave i s"
    "V (setup_transfer P dev lba sectors ATA_CMD_READ_PIO h) = ?b\<lparr>b_regs := f, b_wait := k, b_phase :=
       Reading (ata_sectors V i s (unat lba)) (Suc (unat lba)) (unat sectors - 1)\<rparr>"
    using started[OF assms(1) dev(1) assms(2-4) disjI1[OF refl]] unfolding if_P[OF refl] by blast
  let ?h = "setup_transfer P dev lba sectors ATA_CMD_READ_PIO h"
  have n: "unat sectors \<noteq> 0" using assms(2) by (simp add: unat_eq_0)
  have "\<exists>h'. read_sectors_from P dev 0 (unat sectors) buffer ?h =
      Some (0, take (512 * 0) buffer @ sectors_bytes (b_media (V ?h) (is_slave i s)) (unat lba) (unat sectors) @ drop (512 * (0 + unat sectors)) buffer, h') \<and>
    V h' = (V ?h)\<lparr>b_phase := Idle, b_wait := 0\<rparr>"
    using dev(2-4) h(2-) assms(3,5) n sl
    by (intro read_sectors_run) (simp_all add: b_drive_def ata_sectors_def ata_capacity_def drive_ok_def bus_ok_def)
  then obtain h' where h': "read_sectors_from P dev 0 (unat sectors) buffer ?h =
      Some (0, sectors_bytes (ata_sectors V i s) (unat lba) (unat sectors) @ drop (512 * unat sectors) buffer, h')"
    "V h' = ?b\<lparr>b_regs := f, b_wait := 0, b_phase := Idle\<rparr>" by (auto simp: h(4) ata_sectors_def)
  have "\<And>d l. l < b_size ?b d \<Longrightarrow> length (b_media ?b d l) = 256" using dev(4) by (simp add: bus_ok_def)
  note step = ata_ready_step[OF assms(1), where h = h' and f = f and m = "b_media ?b" and t = "s\<lparr>ata_hw := h'\<rparr>", OF _ this]
  have "ata_read_sectors P i lba sectors buffer s =
      Some (0, sectors_bytes (ata_sectors V i s) (unat lba) (unat sectors) @ drop (512 * unat sectors) buffer, s\<lparr>ata_hw := h'\<rparr>)"
    using dev(1) h(1) h'(1) by (simp add: ata_read_sectors_def)
  then show ?thesis using step h'(2) by (intro that[of "s\<lparr>ata_hw := h'\<rparr>"]) simp_all
qed

text \<open>Writing sectors changes exactly those.\<close>

lemma ata_write_run:
  assumes "ata_ready P V i s" "sectors \<noteq> 0" "unat lba + unat sectors \<le> ata_capacity V i s" "unat lba < 2 ^ 28"
    and "512 * unat sectors \<le> length buffer"
  obtains s' where "ata_write_sectors P i lba sectors buffer s = Some (0, s')"
    "ata_ready P V i s'" "ata_devices s' = ata_devices s" "b_media (V (ata_hw s')) = (b_media (V (ata_hw s)))
      (is_slave i s := put_sectors (ata_sectors V i s) (unat lba) (unat sectors) buffer 0)"
    "ata_capacity V i s' = ata_capacity V i s" "is_slave i s' = is_slave i s"
proof -
  let ?b = "V (ata_hw s)"
  obtain dev where dev: "ata_get_device i s = Some dev" "ata_bus P (io_base dev) V" "drive_ok ?b (io_base dev) dev" "bus_ok ?b"
    using assms(1) by (auto simp: ata_ready_def)
  have sl: "is_slave i s \<longleftrightarrow> slave dev = 1" using dev(1) by (auto simp: is_slave_def ata_get_device_def split: if_splits)
  have n: "unat sectors \<noteq> 0" using assms(2) by (simp add: unat_eq_0)
  obtain ms where ms: "(if lba = 0 then do { m \<leftarrow> write_message buffer; Some (s\<lparr>ata_messages := ata_messages s @ [(m, 38)]\<rparr>) }
      else Some s) = Some (s\<lparr>ata_messages := ms\<rparr>)"
  proof (cases "lba = 0")
    case True
    have "4 \<le> length buffer" using assms(5) n by simp
    then show ?thesis using True that by (simp add: write_message_def)
  next
    case False
    then show ?thesis using that[of "ata_messages s"] by simp
  qed
  have ne: "ATA_CMD_WRITE_PIO \<noteq> ATA_CMD_READ_PIO" by (simp add: ata_consts)
  obtain h f k where h: "ata_wait_bsy P dev (ata_select_drive P dev (ata_hw s)) = (0, h)" "k < 100000"
    "bit (f ATA_REG_HDDEVSEL) 4 \<longleftrightarrow> is_slave i s"
    "V (setup_transfer P dev lba sectors ATA_CMD_WRITE_PIO h) = ?b\<lparr>b_regs := f, b_wait := k, b_phase :=
       Writing [] (unat lba) (unat sectors)\<rparr>"
    using started[OF assms(1) dev(1) assms(2-4) disjI2[OF refl]] unfolding if_not_P[OF ne] by blast
  let ?h = "setup_transfer P dev lba sectors ATA_CMD_WRITE_PIO h"
  let ?m = "(b_media ?b)(is_slave i s := put_sectors (ata_sectors V i s) (unat lba) (unat sectors) buffer 0)"
  have "\<exists>h'. write_sectors_from P dev 0 (unat sectors) buffer ?h = Some (0, h') \<and>
    V h' = (V ?h)\<lparr>b_phase := Idle, b_wait := 0,
      b_media := (b_media (V ?h))(is_slave i s := put_sectors (b_media (V ?h) (is_slave i s)) (unat lba) (unat sectors) buffer 0)\<rparr>"
    using dev(2-4) h(2-) assms(3,5) n sl
    by (intro write_sectors_run) (simp_all add: b_drive_def drive_ok_def)
  then obtain h1 where h1: "write_sectors_from P dev 0 (unat sectors) buffer ?h = Some (0, h1)"
    "V h1 = ?b\<lparr>b_regs := f, b_wait := 0, b_phase := Idle, b_media := ?m\<rparr>" by (auto simp: h(4) ata_sectors_def)
  have sel: "b_drive (V h1) \<longleftrightarrow> is_slave i s" "b_size ?b (is_slave i s) \<noteq> 0"
    using h(3) h1(2) dev(3) sl by (simp_all add: b_drive_def drive_ok_def)
  have "bus_commands P (io_base dev) V" using dev(2) by (simp add: ata_bus_def)
  moreover have "quiet (V h1)" "after_command ATA_CMD_CACHE_FLUSH (V h1) = Some (V h1)"
    using sel h1(2) by (simp_all add: quiet_def after_command_def Let_def ata_consts)
  ultimately obtain k' where k': "k' < 100000"
    "V (out_b P (io_base dev + ATA_REG_COMMAND) ATA_CMD_CACHE_FLUSH h1) = (V h1)\<lparr>b_wait := k'\<rparr>"
    unfolding bus_commands_def by blast
  let ?h2 = "ata_write_reg P dev ATA_REG_COMMAND ATA_CMD_CACHE_FLUSH h1"
  have v2: "V ?h2 = (V h1)\<lparr>b_wait := k'\<rparr>" using k'(2) by (simp add: ata_write_reg_def)
  obtain h3 where h3: "ata_wait_bsy P dev ?h2 = (0, h3)" "V h3 = (V ?h2)\<lparr>b_wait := 0\<rparr>"
    using wait_bsy_run[of P dev V ?h2] dev(2) v2 k'(1) sel h1(2) by (auto simp: b_drive_def)
  have v3: "V h3 = ?b\<lparr>b_regs := f, b_wait := 0, b_phase := Idle, b_media := ?m\<rparr>" using h3(2) v2 h1(2) by simp
  let ?t = "s\<lparr>ata_messages := ms, ata_hw := h3\<rparr>"
  have "\<And>d l. l < b_size ?b d \<Longrightarrow> length (?m d l) = 256"
    using dev(4) by (auto simp: bus_ok_def put_sectors_def ata_sectors_def)
  note step = ata_ready_step[OF assms(1) v3 this, where t = ?t]
  have "ata_get_device i (s\<lparr>ata_messages := ms\<rparr>) = Some dev" using dev(1) by (auto simp: ata_get_device_def split: if_splits)
  then have "ata_write_sectors P i lba sectors buffer s = Some (0, ?t)"
    using dev(1) ms h(1) h1(1) h3(1) by (simp add: ata_write_sectors_def)
  then show ?thesis using step v3 by (intro that[of ?t]) simp_all
qed

section \<open>A driver of disks\<close>

definition ata_block :: "('h \<Rightarrow> bus) \<Rightarrow> nat \<Rightarrow> 'h ata \<Rightarrow> nat \<Rightarrow> bytes" where
  "ata_block V i s k = sector_bytes (ata_sectors V i s k)"

definition ata_disk_ready :: "'h port_io \<Rightarrow> ('h \<Rightarrow> bus) \<Rightarrow> nat \<Rightarrow> nat \<Rightarrow> 'h ata \<Rightarrow> bool" where
  "ata_disk_ready P V i n s \<longleftrightarrow> ata_ready P V i s \<and> n \<le> ata_capacity V i s"

lemma ata_driver:
  assumes "n \<le> 2 ^ 28"
  shows "disk_driver (ata_block V i) (ata_disk_ready P V i n) n (ata_blk_read P i) (ata_blk_write P i)"
proof -
  have one: "unat (1 :: u8) = 1" by simp
  have len: "length (ata_block V i s k) = 512" if "ata_disk_ready P V i n s" "k < n" for s k
    using that by (simp add: ata_block_def ata_disk_ready_def ata_ready_def bus_ok_def ata_sectors_def ata_capacity_def)
  have rd: "\<exists>s'. ata_blk_read P i b buf s = Some (0, ata_block V i s (unat b), s') \<and> ata_disk_ready P V i n s' \<and>
      ata_block V i s' = ata_block V i s"
    if r: "ata_disk_ready P V i n s" and b: "unat b < n" and buf: "length buf = 512" for b buf s
  proof -
    have "ata_ready P V i s" "(1 :: u8) \<noteq> 0" "unat b + unat (1 :: u8) \<le> ata_capacity V i s" "unat b < 2 ^ 28" "512 * unat (1 :: u8) \<le> length buf"
      using r b buf assms by (simp_all add: ata_disk_ready_def)
    then obtain s' where "ata_read_sectors P i b 1 buf s =
        Some (0, sectors_bytes (ata_sectors V i s) (unat b) (unat (1 :: u8)) @ drop (512 * unat (1 :: u8)) buf, s')"
      "ata_ready P V i s'" "ata_devices s' = ata_devices s" "b_media (V (ata_hw s')) = b_media (V (ata_hw s))"
      "ata_capacity V i s' = ata_capacity V i s" "is_slave i s' = is_slave i s"
      using ata_read_run by blast
    then show ?thesis using r buf
      by (auto simp: ata_blk_read_def ata_block_def sectors_bytes_def ata_disk_ready_def ata_sectors_def)
  qed
  have wr: "\<exists>s'. ata_blk_write P i b buf s = Some (0, s') \<and> ata_disk_ready P V i n s' \<and>
      ata_block V i s' = (ata_block V i s)(unat b := buf)"
    if r: "ata_disk_ready P V i n s" and b: "unat b < n" and buf: "length buf = 512" for b buf s
  proof -
    have "ata_ready P V i s" "(1 :: u8) \<noteq> 0" "unat b + unat (1 :: u8) \<le> ata_capacity V i s" "unat b < 2 ^ 28" "512 * unat (1 :: u8) \<le> length buf"
      using r b buf assms by (simp_all add: ata_disk_ready_def)
    then obtain s' where s': "ata_write_sectors P i b 1 buf s = Some (0, s')" "ata_ready P V i s'"
      "b_media (V (ata_hw s')) = (b_media (V (ata_hw s)))(is_slave i s := put_sectors (ata_sectors V i s) (unat b) (unat (1 :: u8)) buf 0)"
      "ata_capacity V i s' = ata_capacity V i s" "is_slave i s' = is_slave i s"
      using ata_write_run by metis
    have w: "sector_bytes (words_at buf 0 256) = buf" using words_at_bytes[of 0 256 buf] buf by simp
    have m: "ata_sectors V i s' = (ata_sectors V i s)(unat b := words_at buf 0 256)"
      using s'(3,5) by (auto simp: ata_sectors_def put_sectors_def fun_eq_iff)
    then have "ata_block V i s' = (ata_block V i s)(unat b := buf)" by (auto simp: ata_block_def w fun_eq_iff)
    then show ?thesis using s' r m by (simp add: ata_blk_write_def ata_disk_ready_def)
  qed
  show ?thesis unfolding disk_driver_def using len rd wr by blast
qed

text \<open>
  C32. The driver keeps the contract on which the disk file system rests: over any controller that follows the protocol, whatever
  its delays, reading a block succeeds and gives what was last written there, writing a block succeeds and changes that block only, and
  both leave the drive ready for the next request.
\<close>

theorem ata_is_disk_driver:
  assumes "n \<le> 2 ^ 28"
  shows "disk_driver (ata_block V i) (ata_disk_ready P V i n) n (ata_blk_read P i) (ata_blk_write P i)"
  using ata_driver[OF assms] .


section \<open>Detection\<close>

lemma read_data_run:
  assumes "ata_bus P (io_base dev) V" "b_wait (V h) = 0" "b_phase (V h) = Reading ws l 0" "ws \<noteq> []"
  obtains h' where "read_data P dev (length ws) h = (ws, h')" "V h' = (V h)\<lparr>b_phase := Idle\<rparr>"
proof -
  have bus: "bus_data_in P (io_base dev) V" using assms(1) by (simp add: ata_bus_def)
  have "\<exists>h'. read_data P dev (length ws) h = (ws, h') \<and> V h' = (V h)\<lparr>b_phase := Idle\<rparr>"
    using assms(2-)
  proof (induction ws arbitrary: h)
    case (Cons w ws)
    obtain x h1 where x: "in_w P (io_base dev + ATA_REG_DATA) h = (x, h1)" by force
    then have step: "x = w \<and> (if ws \<noteq> [] then V h1 = (V h)\<lparr>b_phase := Reading ws l 0\<rparr>
      else if (0 :: nat) = 0 then V h1 = (V h)\<lparr>b_phase := Idle\<rparr>
      else \<exists>k<100000. V h1 = (V h)\<lparr>b_phase := Reading (b_media (V h) (b_drive (V h)) l) (Suc l) (0 - 1), b_wait := k\<rparr>)"
      using bus Cons.prems(1,2) unfolding bus_data_in_def by blast
    show ?case
    proof (cases "ws = []")
      case True
      then show ?thesis using x step by simp
    next
      case False
      then have "V h1 = (V h)\<lparr>b_phase := Reading ws l 0\<rparr>" using step by simp
      then have "\<exists>h'. read_data P dev (length ws) h1 = (ws, h') \<and> V h' = (V h)\<lparr>b_phase := Idle\<rparr>"
        using Cons.IH[of h1] Cons.prems(1) False by simp
      then show ?thesis using x step by auto
    qed
  qed simp
  then show ?thesis using that by blast
qed

text \<open>
  A drive that is there is found, with the name and the size that it gives, and nothing is written to it.
\<close>

lemma ata_detect_finds:
  assumes "ata_bus P (io_base dev) V" "drive_ok (V h) (io_base dev) dev" "quiet (V h)"
    and "length (b_ident (V h) (slave dev = 1)) = 256"
  shows "\<exists>h' f. ata_detect P dev h = (1, dev\<lparr>model := model_of (b_ident (V h) (slave dev = 1)),
      ad_size := size_of (b_ident (V h) (slave dev = 1)), ad_exists := True\<rparr>, h') \<and> V h' = (V h)\<lparr>b_regs := f\<rparr>"
proof -
  let ?b = "V h" and ?d = "slave dev = 1"
  have size: "b_size ?b ?d \<noteq> 0" using assms(2) by (simp add: drive_ok_def)
  have q: "b_wait ?b = 0" "b_phase ?b = Idle" using assms(3) by (simp_all add: quiet_def)
  obtain f where f: "V (ata_select_drive P dev h) = ?b\<lparr>b_regs := f\<rparr>" "bit (f ATA_REG_HDDEVSEL) 4 \<longleftrightarrow> ?d"
    using select_run[OF assms(1,3,2)] .
  obtain h1 where h1: "ata_wait_bsy P dev (ata_select_drive P dev h) = (0, h1)" "V h1 = ?b\<lparr>b_regs := f, b_wait := 0\<rparr>"
    using wait_bsy_run[of P dev V "ata_select_drive P dev h"] assms(1) f size q by (auto simp: b_drive_def)
  have sel: "b_drive (V h1) \<longleftrightarrow> ?d" using h1(2) f(2) by (simp add: b_drive_def)
  have "bus_commands P (io_base dev) V" using assms(1) by (simp add: ata_bus_def)
  moreover have "quiet (V h1)" "after_command ATA_CMD_IDENTIFY (V h1) = Some ((V h1)\<lparr>b_phase := Reading (b_ident ?b ?d) 0 0\<rparr>)"
    using sel h1(2) q size by (simp_all add: quiet_def after_command_def Let_def ata_consts)
  ultimately obtain k where k: "k < 100000"
    "V (out_b P (io_base dev + ATA_REG_COMMAND) ATA_CMD_IDENTIFY h1) = ((V h1)\<lparr>b_phase := Reading (b_ident ?b ?d) 0 0\<rparr>)\<lparr>b_wait := k\<rparr>"
    unfolding bus_commands_def by blast
  let ?h2 = "ata_write_reg P dev ATA_REG_COMMAND ATA_CMD_IDENTIFY h1"
  let ?r = "?b\<lparr>b_regs := f, b_phase := Reading (b_ident ?b ?d) 0 0\<rparr>"
  have v2: "V ?h2 = ?r\<lparr>b_wait := k\<rparr>" using k(2) h1(2) by (simp add: ata_write_reg_def)
  have sz2: "b_size (V ?h2) (b_drive (V ?h2)) \<noteq> 0" using v2 f(2) size by (simp add: b_drive_def)
  obtain st h3 j where st: "ata_read_reg P dev ATA_REG_STATUS ?h2 = (st, h3)" "status_shows (V ?h2) st" "V h3 = (V ?h2)\<lparr>b_wait := j\<rparr>"
    "if b_wait (V ?h2) = 0 then j = 0 else j < b_wait (V ?h2)"
    using status_read[OF assms(1) sz2] .
  have nz: "st \<noteq> 0" using st(2) v2 by (auto simp: status_shows_def split: if_splits)
  have v3: "V h3 = ?r\<lparr>b_wait := j\<rparr>" "j < 100000" using st(3,4) v2 k(1) by (auto split: if_splits)
  obtain h4 where h4: "ata_wait_bsy P dev h3 = (0, h4)" "V h4 = (V h3)\<lparr>b_wait := 0\<rparr>"
    using wait_bsy_run[of P dev V h3] assms(1) v3 f(2) size by (auto simp: b_drive_def)
  obtain h5 where h5: "ata_wait_drq P dev h4 = (0, h5)" "V h5 = (V h4)\<lparr>b_wait := 0\<rparr>"
    using wait_drq_run[of P dev V h4] assms(1) h4(2) v3 f(2) size by (auto simp: b_drive_def)
  have v5: "V h5 = ?r\<lparr>b_wait := 0\<rparr>" using h5(2) h4(2) v3(1) by simp
  have "b_ident ?b ?d \<noteq> []" using assms(4) by auto
  then obtain h6 where h6: "read_data P dev 256 h5 = (b_ident ?b ?d, h6)" "V h6 = (V h5)\<lparr>b_phase := Idle\<rparr>"
    using read_data_run[of P dev V h5 "b_ident ?b ?d" 0] assms(1,4) v5 by auto
  have "V h6 = ?b\<lparr>b_regs := f\<rparr>" using h6(2) v5 q by simp
  moreover have "ata_detect P dev h = (1, dev\<lparr>model := model_of (b_ident ?b ?d), ad_size := size_of (b_ident ?b ?d), ad_exists := True\<rparr>, h6)"
    using h1(1) st(1) nz h4(1) h5(1) h6(1) by (simp add: ata_detect_def Let_def)
  ultimately show ?thesis by blast
qed

section \<open>Registration\<close>

text \<open>The entry of drive \<open>i\<close> in the table of block devices.\<close>

definition ata_entry :: "'h port_io \<Rightarrow> nat \<Rightarrow> ata_device \<Rightarrow> 'h ata block_device" where
  "ata_entry P i dev = \<lparr>bd_name = drive_name i, bd_in_use = True, bd_size = ad_size dev, bd_read = Some (ata_blk_read P i),
     bd_write = Some (ata_blk_write P i), bd_private = NULL\<rparr>"

lemma drive_name_inj: "i < 4 \<Longrightarrow> j < 4 \<Longrightarrow> drive_name i = drive_name j \<longleftrightarrow> i = j"
  by (auto simp: drive_name_def word_of_nat_eq_iff take_bit_nat_eq_self)

lemma drive_registered:
  assumes "blk_wf s" "\<forall>k<8. bd_in_use (block_devices s ! k) \<longleftrightarrow> k < r" "r < 8" "i < 4"
  shows "blkdev_register (drive_name i) (ad_size dev) (Some (ata_blk_read P i)) (Some (ata_blk_write P i)) NULL s =
    (int r, s\<lparr>block_devices := (block_devices s)[r := ata_entry P i dev]\<rparr>)"
proof -
  have "find_first 0 8 (\<lambda>i. \<not> bd_in_use (block_devices s ! i)) = Some r"
    using assms(2,3) by (intro find_first_least) auto
  then show ?thesis by (simp add: blkdev_register_def ata_entry_def strncpy_buf_def drive_name_def)
qed

text \<open>
  From an empty table, the drives that were found are the block devices \<open>hda\<close> to \<open>hdd\<close>.
\<close>

lemma ata_registered:
  assumes "blk_wf s" "\<forall>k<8. \<not> bd_in_use (block_devices s ! k)"
  obtains s' where "ata_register_block_devices P s = Some s'" "blk_wf s'" "ata_devices (bd_hw s') = ata_devices (bd_hw s)"
    "ata_hw (bd_hw s') = ata_hw (bd_hw s)"
    "\<And>i dev. ata_get_device i (bd_hw s) = Some dev \<Longrightarrow> \<exists>k<8. blkdev_get (drive_name i) s' = Some k \<and> block_devices s' ! k = ata_entry P i dev"
proof -
  let ?get = "\<lambda>i. ata_get_device i (bd_hw s)"
  let ?f = "\<lambda>i (s, registered). case ata_get_device i (bd_hw s) of
         None \<Rightarrow> Some (s, registered)
       | Some dev \<Rightarrow>
           (let (r, s) = blkdev_register (drive_name i) (ad_size dev) (Some (ata_blk_read P i)) (Some (ata_blk_write P i)) NULL s in
            Some (s, Suc registered))"
  let ?I = "\<lambda>j (t, r). r \<le> j \<and> blk_wf t \<and> bd_hw t = bd_hw s \<and> (\<forall>k<8. bd_in_use (block_devices t ! k) \<longleftrightarrow> k < r) \<and>
    (\<forall>i<j. \<forall>dev. ?get i = Some dev \<longrightarrow> (\<exists>k<r. block_devices t ! k = ata_entry P i dev)) \<and>
    (\<forall>k<r. \<exists>i<j. \<exists>dev. ?get i = Some dev \<and> block_devices t ! k = ata_entry P i dev)"
  have "\<exists>s'. for_range 0 4 ?f (s, 0) = Some s' \<and> ?I (0 + 4) s'"
  proof (rule for_range_inv)
    fix j and x :: "'a ata blkdevs \<times> nat"
    assume j: "j < 0 + 4" and I: "?I j x"
    obtain t r where x: "x = (t, r)" by force
    show "\<exists>s'. ?f j x = Some s' \<and> ?I (Suc j) s'"
    proof (cases "?get j")
      case None
      then show ?thesis using I x less_SucE by (fastforce simp: less_Suc_eq)
    next
      case (Some dev)
      have wf: "blk_wf t" "\<forall>k<8. bd_in_use (block_devices t ! k) \<longleftrightarrow> k < r" "r < 8" using I x j by auto
      let ?t = "t\<lparr>block_devices := (block_devices t)[r := ata_entry P j dev]\<rparr>"
      have "?f j x = Some (?t, Suc r)" using drive_registered[OF wf, of j dev P] j I x Some by simp
      moreover have len: "r < length (block_devices t)" using wf by (simp add: blk_wf_def)
      then have nth: "block_devices ?t ! k = (if k = r then ata_entry P j dev else block_devices t ! k)" for k by simp
      have "\<exists>k<Suc r. block_devices ?t ! k = ata_entry P i d" if i: "i < Suc j" and d: "?get i = Some d" for i d
      proof (cases "i = j")
        case True
        then show ?thesis using nth d Some by auto
      next
        case False
        then have "i < j" using i by simp
        moreover have "\<forall>i<j. \<forall>dev. ?get i = Some dev \<longrightarrow> (\<exists>k<r. block_devices t ! k = ata_entry P i dev)" using I x by simp
        ultimately obtain k where "k < r" "block_devices t ! k = ata_entry P i d" using d by blast
        then show ?thesis using nth by (intro exI[of _ k]) simp
      qed
      moreover have "\<exists>i<Suc j. \<exists>d. ?get i = Some d \<and> block_devices ?t ! k = ata_entry P i d" if k: "k < Suc r" for k
      proof (cases "k = r")
        case True
        then show ?thesis using nth Some by auto
      next
        case False
        then have "k < r" using k by simp
        moreover have "\<forall>k<r. \<exists>i<j. \<exists>dev. ?get i = Some dev \<and> block_devices t ! k = ata_entry P i dev" using I x by simp
        ultimately obtain i d where "i < j" "?get i = Some d" "block_devices t ! k = ata_entry P i d" by blast
        then show ?thesis using nth False by (intro exI[of _ i]) simp
      qed
      moreover have "\<forall>k<8. bd_in_use (block_devices ?t ! k) \<longleftrightarrow> k < Suc r" using wf nth by (auto simp: ata_entry_def)
      ultimately have "?I (Suc j) (?t, Suc r)" using I x wf by (simp add: blk_wf_def)
      then show ?thesis using \<open>?f j x = Some (?t, Suc r)\<close> by blast
    qed
  next
    show "?I 0 (s, 0)" using assms by simp
  qed
  then obtain t r where t: "for_range 0 4 ?f (s, 0) = Some (t, r)" "blk_wf t" "bd_hw t = bd_hw s" "r \<le> 4"
    "\<forall>k<8. bd_in_use (block_devices t ! k) \<longleftrightarrow> k < r"
    "\<forall>i<4. \<forall>dev. ?get i = Some dev \<longrightarrow> (\<exists>k<r. block_devices t ! k = ata_entry P i dev)"
    "\<forall>k<r. \<exists>i<4. \<exists>dev. ?get i = Some dev \<and> block_devices t ! k = ata_entry P i dev" by auto
  let ?t = "if r = 0 then t\<lparr>bd_hw := (bd_hw t)\<lparr>ata_messages := ata_messages (bd_hw t) @ [(cstr ''Warning: No ATA devices found!'', 28)]\<rparr>\<rparr> else t"
  have "\<exists>k<8. blkdev_get (drive_name i) ?t = Some k \<and> block_devices ?t ! k = ata_entry P i dev" if d: "?get i = Some dev" for i dev
  proof -
    have i: "i < 4" using d by (simp add: ata_get_device_def split: if_splits)
    then obtain k0 where k0: "k0 < r" "block_devices t ! k0 = ata_entry P i dev" using t(6) d by blast
    let ?Q = "\<lambda>k. bd_in_use (block_devices t ! k) \<and> bd_name (block_devices t ! k) = drive_name i"
    have "?Q k0" using k0 by (simp add: ata_entry_def)
    then have "find_first 0 8 ?Q \<noteq> None" using k0(1) t(4) by (auto simp: find_first_None intro: exI[of _ k0])
    then obtain k where k: "find_first 0 8 ?Q = Some k" by blast
    note fk = find_first_SomeD[OF k]
    have "k < r" using fk t(5) by simp
    then obtain i' dev' where e: "i' < 4" "?get i' = Some dev'" "block_devices t ! k = ata_entry P i' dev'" using t(7) by blast
    then have "i' = i" using fk(2) drive_name_inj i by (simp add: ata_entry_def)
    then have "block_devices t ! k = ata_entry P i dev" using e d by simp
    moreover have "blkdev_get (drive_name i) ?t = Some k" using k by (simp add: blkdev_get_def)
    ultimately show ?thesis using fk(1) by auto
  qed
  moreover have "ata_register_block_devices P s = Some ?t" using t(1) by (simp add: ata_register_block_devices_def)
  ultimately show ?thesis using t(2,3) by (intro that[of ?t]) (simp_all add: blk_wf_def)
qed

text \<open>
  C33. The disk file system runs on the drives: when the block devices are registered from an empty table, a drive that was found has its
  name \<open>hda\<close> to \<open>hdd\<close> in the table, and a kernel state with this table has a disk there in the sense of the file system's
  theorems, with the sectors of the drive as its blocks.
\<close>

theorem ata_drives_are_disks:
  assumes "blk_wf b" "\<forall>k<8. \<not> bd_in_use (block_devices b ! k)" "ata_get_device i (bd_hw b) = Some dev"
    and "ata_disk_ready P V i (unat (ad_size dev)) (bd_hw b)" "unat (ad_size dev) \<le> 2 ^ 28"
  shows "\<exists>b' k. ata_register_block_devices P b = Some b' \<and> blkdev_get (drive_name i) b' = Some k \<and>
    (\<forall>s. blk s = b' \<longrightarrow> on_disk (ata_block V i) k (unat (ad_size dev)) s \<and> disk (ata_block V i) s = ata_block V i (bd_hw b))"
proof -
  obtain b' where b': "ata_register_block_devices P b = Some b'" "blk_wf b'" "ata_devices (bd_hw b') = ata_devices (bd_hw b)"
    "ata_hw (bd_hw b') = ata_hw (bd_hw b)"
    "\<exists>k<8. blkdev_get (drive_name i) b' = Some k \<and> block_devices b' ! k = ata_entry P i dev"
    using ata_registered[OF assms(1,2)] assms(3) by metis
  then obtain k where k: "k < 8" "blkdev_get (drive_name i) b' = Some k" "block_devices b' ! k = ata_entry P i dev" by blast
  have same: "ata_disk_ready P V i n (bd_hw b') = ata_disk_ready P V i n (bd_hw b)" "ata_block V i (bd_hw b') = ata_block V i (bd_hw b)" for n
    using b'(3,4)
    by (simp_all add: ata_disk_ready_def ata_ready_def ata_get_device_def ata_capacity_def is_slave_def ata_block_def ata_sectors_def fun_eq_iff)
  let ?n = "unat (ad_size dev)"
  have one: "unat (1 :: u8) = 1" by simp
  have "disk_driver (ata_block V i) (ata_disk_ready P V i ?n) ?n (ata_blk_read P i) (ata_blk_write P i)"
    using ata_driver[OF assms(5)] .
  then have "on_disk (ata_block V i) k ?n s \<and> disk (ata_block V i) s = ata_block V i (bd_hw b)" if "blk s = b'" for s
    using that k(1,3) b'(2) same assms(4) unfolding on_disk_def disk_def ata_entry_def blk_wf_def by auto
  then show ?thesis using b'(1) k(2) by blast
qed

section \<open>A controller\<close>

text \<open>
  A controller that follows the protocol, with drives that are busy for three reads of the status after a command and between sectors: it
  shows that the hypotheses can hold.
\<close>

definition ideal_controller :: "bus port_io" where
  "ideal_controller = \<lparr>
     in_b = (\<lambda>port b.
       if b_wait b \<noteq> 0 then (0x80, b\<lparr>b_wait := b_wait b - 1\<rparr>) else (if b_phase b = Idle then 0x40 else 0x48, b)),
     in_w = (\<lambda>port b. case b_phase b of
       Reading (w # ws) l c \<Rightarrow> (w,
         if ws \<noteq> [] then b\<lparr>b_phase := Reading ws l c\<rparr>
         else if c = 0 then b\<lparr>b_phase := Idle\<rparr>
         else b\<lparr>b_phase := Reading (b_media b (b_drive b) l) (Suc l) (c - 1), b_wait := 3\<rparr>)
     | _ \<Rightarrow> (0, b)),
     out_b = (\<lambda>port v b.
       if port = 0x1F7 then (case after_command v b of Some b' \<Rightarrow> b'\<lparr>b_wait := 3\<rparr> | None \<Rightarrow> b)
       else b\<lparr>b_regs := (b_regs b)(port - 0x1F0 := v)\<rparr>),
     out_w = (\<lambda>port w b. case b_phase b of
       Writing ws l c \<Rightarrow>
         if length ws < 255 then b\<lparr>b_phase := Writing (ws @ [w]) l c\<rparr>
         else b\<lparr>b_phase := (if c = 1 then Idle else Writing [] (Suc l) (c - 1)), b_wait := 3,
           b_media := (b_media b)(b_drive b := (b_media b (b_drive b))(l := ws @ [w]))\<rparr>
     | _ \<Rightarrow> b)
   \<rparr>"

lemma ideal_bus: "ata_bus ideal_controller 0x1F0 (\<lambda>b. b)"
proof -
  have "bus_status ideal_controller 0x1F0 (\<lambda>b. b)"
    by (auto simp: bus_status_def status_shows_def ideal_controller_def ata_consts intro!: exI)
  moreover have "bus_registers ideal_controller 0x1F0 (\<lambda>b. b)"
    by (auto simp: bus_registers_def ideal_controller_def)
  moreover have "bus_commands ideal_controller 0x1F0 (\<lambda>b. b)"
    by (auto simp: bus_commands_def ideal_controller_def ATA_REG_COMMAND_def intro!: exI[of _ 3])
  moreover have "bus_data_in ideal_controller 0x1F0 (\<lambda>b. b)"
    by (auto simp: bus_data_in_def ideal_controller_def intro!: exI[of _ 3])
  moreover have "bus_data_out ideal_controller 0x1F0 (\<lambda>b. b)"
    by (auto simp: bus_data_out_def ideal_controller_def Let_def intro!: exI[of _ 3])
  ultimately show ?thesis by (simp add: ata_bus_def)
qed

text \<open>One drive of 100 sectors, the master.\<close>

definition sample_ata :: "bus ata" where
  "sample_ata = \<lparr>
     ata_devices = \<lparr>io_base = 0x1F0, control_base = 0x3F6, slave = 0, ad_exists = True, model = [], ad_size = 100\<rparr> #
       replicate 3 \<lparr>io_base = 0, control_base = 0, slave = 0, ad_exists = False, model = [], ad_size = 0\<rparr>,
     ata_hw = \<lparr>b_wait = 0, b_phase = Idle, b_regs = \<lambda>_. 0, b_media = \<lambda>_ _. replicate 256 0,
       b_size = (\<lambda>d. if d then 0 else 100), b_ident = \<lambda>_. []\<rparr>,
     ata_messages = []\<rparr>"

lemma sample_ata_device:
  "ata_get_device 0 sample_ata = Some \<lparr>io_base = 0x1F0, control_base = 0x3F6, slave = 0, ad_exists = True, model = [], ad_size = 100\<rparr>"
  by (simp add: sample_ata_def ata_get_device_def)

lemma sample_ata_ready: "n \<le> 100 \<Longrightarrow> ata_disk_ready ideal_controller (\<lambda>b. b) 0 n sample_ata"
  using ideal_bus sample_ata_device
  by (auto simp: ata_disk_ready_def ata_ready_def drive_ok_def sample_ata_def quiet_def bus_ok_def ata_capacity_def is_slave_def)

text \<open>Block 5 is written and read back.\<close>

theorem ata_is_disk_driver_witness:
  "\<exists>s s'. ata_blk_write ideal_controller 0 5 (replicate 512 7) sample_ata = Some (0, s) \<and>
    ata_blk_read ideal_controller 0 5 (replicate 512 0) s = Some (0, replicate 512 7, s')"
proof -
  have d: "disk_driver (ata_block (\<lambda>b. b) 0) (ata_disk_ready ideal_controller (\<lambda>b. b) 0 100) 100
      (ata_blk_read ideal_controller 0) (ata_blk_write ideal_controller 0)"
    by (rule ata_is_disk_driver) simp
  have five: "unat (5 :: u32) < 100" "length (replicate 512 (7 :: u8)) = 512" "length (replicate 512 (0 :: u8)) = 512" by simp_all
  obtain s where s: "ata_blk_write ideal_controller 0 5 (replicate 512 7) sample_ata = Some (0, s)"
    "ata_disk_ready ideal_controller (\<lambda>b. b) 0 100 s"
    "ata_block (\<lambda>b. b) 0 s = (ata_block (\<lambda>b. b) 0 sample_ata)(unat (5 :: u32) := replicate 512 7)"
    using d sample_ata_ready[of 100] five(1,2) unfolding disk_driver_def by blast
  obtain s' where "ata_blk_read ideal_controller 0 5 (replicate 512 0) s = Some (0, ata_block (\<lambda>b. b) 0 s (unat (5 :: u32)), s')"
    using d s(2) five(1,3) unfolding disk_driver_def by blast
  then show ?thesis using s(1,3) by simp
qed

definition sample_blk :: "bus ata blkdevs" where
  "sample_blk = \<lparr>block_devices = replicate 8 \<lparr>bd_name = [], bd_in_use = False, bd_size = 0, bd_read = None,
     bd_write = None, bd_private = NULL\<rparr>, bd_hw = sample_ata\<rparr>"

theorem ata_drives_are_disks_witness:
  "\<exists>b' k. ata_register_block_devices ideal_controller sample_blk = Some b' \<and> blkdev_get (cstr ''hda'') b' = Some k"
proof -
  have "drive_name 0 = cstr ''hda''" by (simp add: drive_name_def)
  then show ?thesis
    using ata_drives_are_disks[of sample_blk 0 _ ideal_controller "\<lambda>b. b"] sample_ata_device sample_ata_ready[of 100]
    by (auto simp: sample_blk_def blk_wf_def)
qed


end
