(* ===== verification/Blkipc.thy ===== *)
theory Blkipc
  imports Ata Ipc
begin

text \<open>
  Block devices over messages: the client in the kernel (\<open>src/src/drivers/blkdev_ipc_client.c\<close>), the protocol
  (\<open>src/src/include/blkdev_ipc.h\<close>) and the driver that runs as a task (\<open>src/src/lib/ata_driver.c\<close>), which shares the ports of
  \<open>Ata\<close> and its contract of a controller. The theory shows that a read that the client requests is served: the request arrives as
  it was made, the driver puts the sectors into the memory at the address given, and the client takes its answer for the
  request it made.

  The system calls of the driver are the kernel's functions. Its messages to the console are left out; its request for I/O ports is
  \<open>ioport_grant_access\<close> of theory \<open>Ioport\<close>.
\<close>

section \<open>The protocol\<close>

definition BLKDEV_OP_READ :: u32 where "BLKDEV_OP_READ = 1"
definition BLKDEV_OP_WRITE :: u32 where "BLKDEV_OP_WRITE = 2"
definition BLKDEV_OP_FLUSH :: u32 where "BLKDEV_OP_FLUSH = 3"
definition BLKDEV_STATUS_OK :: u32 where "BLKDEV_STATUS_OK = 0"
definition BLKDEV_STATUS_ERROR :: u32 where "BLKDEV_STATUS_ERROR = 1"
definition BLKDEV_STATUS_INVALID :: u32 where "BLKDEV_STATUS_INVALID = 2"
definition BLKDEV_PORT_NAME :: cstring where "BLKDEV_PORT_NAME = cstr ''blkdev.ata''"

lemmas blkdev_consts = BLKDEV_OP_READ_def BLKDEV_OP_WRITE_def BLKDEV_OP_FLUSH_def
  BLKDEV_STATUS_OK_def BLKDEV_STATUS_ERROR_def BLKDEV_STATUS_INVALID_def

record blkdev_request =
  rq_id :: u32
  rq_operation :: u32
  rq_drive :: u32
  rq_lba :: u32
  rq_count :: u32
  rq_buffer_addr :: u32

record blkdev_response =
  rs_id :: u32
  rs_status :: u32
  rs_bytes :: u32

text \<open>The structures in memory: 24 and 12 bytes.\<close>

definition request_bytes :: "blkdev_request \<Rightarrow> bytes" where
  "request_bytes r = le32 (rq_id r) @ le32 (rq_operation r) @ le32 (rq_drive r) @ le32 (rq_lba r) @ le32 (rq_count r) @ le32 (rq_buffer_addr r)"

definition request_of :: "bytes \<Rightarrow> blkdev_request" where
  "request_of b = \<lparr>rq_id = of_le32 b, rq_operation = of_le32 (drop 4 b), rq_drive = of_le32 (drop 8 b), rq_lba = of_le32 (drop 12 b),
     rq_count = of_le32 (drop 16 b), rq_buffer_addr = of_le32 (drop 20 b)\<rparr>"

definition response_bytes :: "blkdev_response \<Rightarrow> bytes" where
  "response_bytes r = le32 (rs_id r) @ le32 (rs_status r) @ le32 (rs_bytes r)"

definition response_of :: "bytes \<Rightarrow> blkdev_response" where
  "response_of b = \<lparr>rs_id = of_le32 b, rs_status = of_le32 (drop 4 b), rs_bytes = of_le32 (drop 8 b)\<rparr>"

section \<open>The client\<close>

record blk_client =
  next_request_id :: u32
  client_port :: int
  bc_ipc :: ipc

definition blkdev_ipc_client_init :: "blk_client \<Rightarrow> (int \<times> blk_client) option" where
  "blkdev_ipc_client_init s = do {
     (p, k) \<leftarrow> ipc_create_port (bc_ipc s);
     Some (if p < 0 then - 1 else 0, s\<lparr>client_port := p, bc_ipc := k\<rparr>)
   }"

text \<open>
  What the three operations share: up to the request, the identifier of the request that was sent, and from the wait on, the bytes that
  the answer says were transferred. Every failure is \<open>None\<close>. \<open>resume\<close> is what other tasks do while the receive blocks, and \<open>buf\<close>
  what the local message held.
\<close>

definition send_request :: "u32 \<Rightarrow> u32 \<Rightarrow> u32 \<Rightarrow> u32 \<Rightarrow> u32 \<Rightarrow> blk_client \<Rightarrow> (u32 option \<times> blk_client) option" where
  "send_request operation drive lba count buffer s =
     (if client_port s < 0 then Some (None, s)
      else
        (let driver_port = ipc_find_port (Some BLKDEV_PORT_NAME) (bc_ipc s) in
         if driver_port < 0 then Some (None, s)
         else
           (let req = \<lparr>rq_id = next_request_id s, rq_operation = operation, rq_drive = drive, rq_lba = lba, rq_count = count,
                  rq_buffer_addr = buffer\<rparr>;
                s = s\<lparr>next_request_id := next_request_id s + 1\<rparr> in
            do {
              (r, k) \<leftarrow> ipc_send_from_port (of_int (client_port s)) (of_int driver_port) 0 (Some (request_bytes req)) 24 (bc_ipc s);
              Some (if r \<noteq> 0 then None else Some (rq_id req), s\<lparr>bc_ipc := k\<rparr>)
            })))"

definition await_response :: "(ipc \<Rightarrow> ipc option) \<Rightarrow> ipc_message \<Rightarrow> u32 \<Rightarrow> blk_client \<Rightarrow> (u32 option \<times> blk_client) option" where
  "await_response resume buf request_id s = do {
     (r, msg, k) \<leftarrow> ipc_recv resume (of_int (client_port s)) buf (bc_ipc s);
     let resp = response_of (m_data msg);
     Some (if r \<noteq> 0 \<or> m_size msg < 12 \<or> rs_id resp \<noteq> request_id \<or> rs_status resp \<noteq> BLKDEV_STATUS_OK then None
       else Some (rs_bytes resp), s\<lparr>bc_ipc := k\<rparr>)
   }"

definition blkdev_transfer ::
  "(ipc \<Rightarrow> ipc option) \<Rightarrow> ipc_message \<Rightarrow> u32 \<Rightarrow> u32 \<Rightarrow> u32 \<Rightarrow> u32 \<Rightarrow> u32 \<Rightarrow> blk_client \<Rightarrow> (u32 option \<times> blk_client) option" where
  "blkdev_transfer resume buf operation drive lba count buffer s = do {
     (request_id, s) \<leftarrow> send_request operation drive lba count buffer s;
     case request_id of None \<Rightarrow> Some (None, s) | Some i \<Rightarrow> await_response resume buf i s
   }"

definition blkdev_ipc_read ::
  "(ipc \<Rightarrow> ipc option) \<Rightarrow> ipc_message \<Rightarrow> u8 \<Rightarrow> u32 \<Rightarrow> u32 \<Rightarrow> ptr \<Rightarrow> blk_client \<Rightarrow> (int \<times> blk_client) option" where
  "blkdev_ipc_read resume buf drive lba count buffer s = do {
     (r, s) \<leftarrow> blkdev_transfer resume buf BLKDEV_OP_READ (ucast drive) lba count buffer s;
     Some (case r of None \<Rightarrow> - 1 | Some n \<Rightarrow> sint n, s)
   }"

definition blkdev_ipc_write ::
  "(ipc \<Rightarrow> ipc option) \<Rightarrow> ipc_message \<Rightarrow> u8 \<Rightarrow> u32 \<Rightarrow> u32 \<Rightarrow> ptr \<Rightarrow> blk_client \<Rightarrow> (int \<times> blk_client) option" where
  "blkdev_ipc_write resume buf drive lba count buffer s = do {
     (r, s) \<leftarrow> blkdev_transfer resume buf BLKDEV_OP_WRITE (ucast drive) lba count buffer s;
     Some (case r of None \<Rightarrow> - 1 | Some n \<Rightarrow> sint n, s)
   }"

definition blkdev_ipc_flush :: "(ipc \<Rightarrow> ipc option) \<Rightarrow> ipc_message \<Rightarrow> u8 \<Rightarrow> blk_client \<Rightarrow> (int \<times> blk_client) option" where
  "blkdev_ipc_flush resume buf drive s = do {
     (r, s) \<leftarrow> blkdev_transfer resume buf BLKDEV_OP_FLUSH (ucast drive) 0 0 0 s;
     Some (case r of None \<Rightarrow> - 1 | Some n \<Rightarrow> 0, s)
   }"

definition blkdev_ipc_driver_available :: "blk_client \<Rightarrow> bool" where
  "blkdev_ipc_driver_available s \<longleftrightarrow> ipc_find_port (Some BLKDEV_PORT_NAME) (bc_ipc s) \<ge> 0"

section \<open>The driver\<close>

text \<open>The driver reaches the ports of the primary controller only.\<close>

definition primary :: ata_device where
  "primary = \<lparr>io_base = ATA_PRIMARY_IO, control_base = ATA_PRIMARY_CONTROL, slave = 0, ad_exists = True, model = [], ad_size = 0\<rparr>"

record 'h ata_task =
  at_hw :: 'h
  at_mem :: "u32 \<Rightarrow> u8"
  at_ipc :: ipc

definition ata_wait_ready :: "'h port_io \<Rightarrow> 'h \<Rightarrow> int \<times> 'h" where
  "ata_wait_ready P h = poll_status P primary (\<lambda>status. status AND ATA_SR_BSY = 0 \<and> status AND ATA_SR_DRDY \<noteq> 0) 1000000 h"

fun wait_data :: "'h port_io \<Rightarrow> nat \<Rightarrow> 'h \<Rightarrow> int \<times> 'h" where
  "wait_data P 0 h = (- 1, h)"
| "wait_data P (Suc timeout) h =
     (let (status, h) = ata_read_reg P primary ATA_REG_STATUS h in
      if status AND ATA_SR_DRQ \<noteq> 0 then (0, h)
      else if status AND ATA_SR_ERR \<noteq> 0 then (- 1, h)
      else wait_data P timeout h)"

text \<open>The registers, then the command.\<close>

definition sector_command :: "'h port_io \<Rightarrow> u8 \<Rightarrow> u32 \<Rightarrow> u8 \<Rightarrow> 'h \<Rightarrow> 'h" where
  "sector_command P drive lba cmd h =
     (let h = ata_write_reg P primary ATA_REG_HDDEVSEL (0xE0 OR push_bit 4 drive OR (ucast (drop_bit 24 lba) AND 0x0F)) h;
          h = ata_write_reg P primary ATA_REG_SECCOUNT0 1 h;
          h = ata_write_reg P primary ATA_REG_LBA0 (ucast lba) h;
          h = ata_write_reg P primary ATA_REG_LBA1 (ucast (drop_bit 8 lba)) h;
          h = ata_write_reg P primary ATA_REG_LBA2 (ucast (drop_bit 16 lba)) h in
      ata_write_reg P primary ATA_REG_COMMAND cmd h)"

definition ata_read_sector :: "'h port_io \<Rightarrow> u8 \<Rightarrow> u32 \<Rightarrow> 'h \<Rightarrow> int \<times> u16 list \<times> 'h" where
  "ata_read_sector P drive lba h =
     (let (r, h) = ata_wait_ready P h in
      if r \<noteq> 0 then (- 1, [], h)
      else
        (let (r, h) = wait_data P 1000000 (sector_command P drive lba ATA_CMD_READ_PIO h) in
         if r \<noteq> 0 then (- 1, [], h) else (let (ws, h) = read_data P primary 256 h in (0, ws, h))))"

definition ata_write_sector :: "'h port_io \<Rightarrow> u8 \<Rightarrow> u32 \<Rightarrow> u16 list \<Rightarrow> 'h \<Rightarrow> int \<times> 'h" where
  "ata_write_sector P drive lba buffer h =
     (let (r, h) = ata_wait_ready P h in
      if r \<noteq> 0 then (- 1, h)
      else
        (let (r, h) = wait_data P 1000000 (sector_command P drive lba ATA_CMD_WRITE_PIO h) in
         if r \<noteq> 0 then (- 1, h)
         else
           (let h = fold (\<lambda>w h. out_w P (io_base primary + ATA_REG_DATA) w h) buffer h;
                (r, h) = ata_wait_ready P (ata_write_reg P primary ATA_REG_COMMAND ATA_CMD_CACHE_FLUSH h) in
            (0, h))))"

text \<open>\<open>memcpy\<close> to and from the memory of the machine.\<close>

fun store_bytes :: "u32 \<Rightarrow> bytes \<Rightarrow> (u32 \<Rightarrow> u8) \<Rightarrow> (u32 \<Rightarrow> u8)" where
  "store_bytes a [] m = m"
| "store_bytes a (b # bs) m = store_bytes (a + 1) bs (m(a := b))"

definition load_bytes :: "u32 \<Rightarrow> nat \<Rightarrow> (u32 \<Rightarrow> u8) \<Rightarrow> bytes" where
  "load_bytes a n m = map (\<lambda>i. m (a + of_nat i)) [0..<n]"

fun serve_read ::
  "'h port_io \<Rightarrow> blkdev_request \<Rightarrow> nat \<Rightarrow> nat \<Rightarrow> blkdev_response \<Rightarrow> (u32 \<Rightarrow> u8) \<Rightarrow> 'h \<Rightarrow> blkdev_response \<times> (u32 \<Rightarrow> u8) \<times> 'h" where
  "serve_read P req i 0 resp m h = (resp, m, h)"
| "serve_read P req i (Suc n) resp m h =
     (let (r, ws, h) = ata_read_sector P (ucast (rq_drive req)) (rq_lba req + of_nat i) h in
      if r \<noteq> 0 then (resp\<lparr>rs_status := BLKDEV_STATUS_ERROR\<rparr>, m, h)
      else serve_read P req (Suc i) n (resp\<lparr>rs_bytes := rs_bytes resp + 512\<rparr>)
        (store_bytes (rq_buffer_addr req + of_nat i * 512) (sector_bytes ws) m) h)"

fun serve_write ::
  "'h port_io \<Rightarrow> blkdev_request \<Rightarrow> nat \<Rightarrow> nat \<Rightarrow> blkdev_response \<Rightarrow> (u32 \<Rightarrow> u8) \<Rightarrow> 'h \<Rightarrow> blkdev_response \<times> 'h" where
  "serve_write P req i 0 resp m h = (resp, h)"
| "serve_write P req i (Suc n) resp m h =
     (let ws = words_at (load_bytes (rq_buffer_addr req + of_nat i * 512) 512 m) 0 256;
          (r, h) = ata_write_sector P (ucast (rq_drive req)) (rq_lba req + of_nat i) ws h in
      if r \<noteq> 0 then (resp\<lparr>rs_status := BLKDEV_STATUS_ERROR\<rparr>, h)
      else serve_write P req (Suc i) n (resp\<lparr>rs_bytes := rs_bytes resp + 512\<rparr>) m h)"

definition perform :: "'h port_io \<Rightarrow> blkdev_request \<Rightarrow> (u32 \<Rightarrow> u8) \<Rightarrow> 'h \<Rightarrow> blkdev_response \<times> (u32 \<Rightarrow> u8) \<times> 'h" where
  "perform P req m h =
     (let resp = \<lparr>rs_id = rq_id req, rs_status = BLKDEV_STATUS_OK, rs_bytes = 0\<rparr> in
      if rq_operation req = BLKDEV_OP_READ then serve_read P req 0 (unat (rq_count req)) resp m h
      else if rq_operation req = BLKDEV_OP_WRITE
      then (let (resp, h) = serve_write P req 0 (unat (rq_count req)) resp m h in (resp, m, h))
      else if rq_operation req = BLKDEV_OP_FLUSH
      then
        (let (r, h) = ata_wait_ready P (ata_write_reg P primary ATA_REG_COMMAND ATA_CMD_CACHE_FLUSH h) in
         (if r \<noteq> 0 then resp\<lparr>rs_status := BLKDEV_STATUS_ERROR\<rparr> else resp, m, h))
      else (resp\<lparr>rs_status := BLKDEV_STATUS_INVALID\<rparr>, m, h))"

definition handle_request :: "'h port_io \<Rightarrow> ipc_message \<Rightarrow> 'h ata_task \<Rightarrow> 'h ata_task option" where
  "handle_request P msg s =
     (if m_size msg < 24 then Some s
      else do {
        let (resp, m, h) = perform P (request_of (m_data msg)) (at_mem s) (at_hw s);
        (r, k) \<leftarrow> ipc_send (m_sender_port msg) 0 (Some (response_bytes resp)) 12 (at_ipc s);
        Some (s\<lparr>at_hw := h, at_mem := m, at_ipc := k\<rparr>)
      })"

text \<open>One round of the main loop: the message that is received next, and its request.\<close>

definition ata_driver_round ::
  "'h port_io \<Rightarrow> (ipc \<Rightarrow> ipc option) \<Rightarrow> u32 \<Rightarrow> ipc_message \<Rightarrow> 'h ata_task \<Rightarrow> 'h ata_task option" where
  "ata_driver_round P resume port buf s = do {
     (r, msg, k) \<leftarrow> ipc_recv resume port buf (at_ipc s);
     if r \<noteq> 0 then Some (s\<lparr>at_ipc := k\<rparr>) else handle_request P msg (s\<lparr>at_ipc := k\<rparr>)
   }"

section \<open>Reading a sector\<close>

lemma primary_base [simp]: "io_base primary = ATA_PRIMARY_IO"
  by (simp add: primary_def)

lemma wait_ready_run:
  assumes "ata_bus P ATA_PRIMARY_IO V" "b_size (V h) (b_drive (V h)) \<noteq> 0" "b_wait (V h) < 1000000"
  obtains h' where "ata_wait_ready P h = (0, h')" "V h' = (V h)\<lparr>b_wait := 0\<rparr>"
  using poll_run[of P primary V h 1000000 "\<lambda>s. s AND ATA_SR_BSY = 0 \<and> s AND ATA_SR_DRDY \<noteq> 0"] assms that
  by (auto simp: ata_wait_ready_def status_shows_def)

lemma wait_data_run:
  assumes "ata_bus P ATA_PRIMARY_IO V" "b_size (V h) (b_drive (V h)) \<noteq> 0" "b_wait (V h) < n" "b_phase (V h) \<noteq> Idle"
  shows "\<exists>h'. wait_data P n h = (0, h') \<and> V h' = (V h)\<lparr>b_wait := 0\<rparr>"
  using assms(2-)
proof (induction n arbitrary: h)
  case (Suc n)
  have bus: "ata_bus P (io_base primary) V" using assms(1) by simp
  obtain s h1 k where s: "ata_read_reg P primary ATA_REG_STATUS h = (s, h1)" "status_shows (V h) s" "V h1 = (V h)\<lparr>b_wait := k\<rparr>"
    "if b_wait (V h) = 0 then k = 0 else k < b_wait (V h)"
    using status_read[OF bus Suc.prems(1)] .
  show ?case
  proof (cases "b_wait (V h) = 0")
    case True
    then show ?thesis using s Suc.prems(3) by (simp add: status_shows_def)
  next
    case False
    then have "\<exists>h'. wait_data P n h1 = (0, h') \<and> V h' = (V h1)\<lparr>b_wait := 0\<rparr>"
      using Suc.prems s by (intro Suc.IH) (simp_all add: b_drive_def)
    then show ?thesis using False s by (auto simp: status_shows_def)
  qed
qed simp

lemma ata_read_sector_run:
  assumes "ata_bus P ATA_PRIMARY_IO V" "quiet (V h)" "b_size (V h) (b_drive (V h)) \<noteq> 0" "bus_ok (V h)"
    and "drive \<in> {0, 1}" "unat lba < b_size (V h) (drive = 1)" "unat lba < 2 ^ 28"
  obtains h' f where "ata_read_sector P drive lba h = (0, b_media (V h) (drive = 1) (unat lba), h')"
    "V h' = (V h)\<lparr>b_regs := f\<rparr>" "bit (f ATA_REG_HDDEVSEL) 4 \<longleftrightarrow> drive = 1"
proof -
  let ?d = "drive = 1"
  have q: "b_wait (V h) = 0" "b_phase (V h) = Idle" using assms(2) by (simp_all add: quiet_def)
  obtain h1 where h1: "ata_wait_ready P h = (0, h1)" "V h1 = (V h)\<lparr>b_wait := 0\<rparr>"
    using wait_ready_run[OF assms(1,3)] q by auto
  have v1: "V h1 = V h" using h1(2) q by simp
  let ?s = "0xE0 OR push_bit 4 drive OR (ucast (drop_bit 24 lba) AND 0x0F) :: u8"
  let ?w = "ata_write_reg P primary"
  let ?h = "?w 5 (ucast (drop_bit 16 lba)) (?w 4 (ucast (drop_bit 8 lba)) (?w 3 (ucast lba) (?w 2 1 (?w 6 ?s h1))))"
  let ?f = "(b_regs (V h))(6 := ?s, 2 := 1, 3 := ucast lba, 4 := ucast (drop_bit 8 lba), 5 := ucast (drop_bit 16 lba))"
  have w: "quiet (V g) \<Longrightarrow> r \<in> {2, 3, 4, 5, 6} \<Longrightarrow> V (?w r v g) = (V g)\<lparr>b_regs := (b_regs (V g))(r := v)\<rparr>" for g r v
    using register_write[of P primary V g r v] assms(1) by simp
  have vh: "V ?h = (V h)\<lparr>b_regs := ?f\<rparr>" using assms(2) v1 by (simp add: w)
  have sel: "b_drive (V ?h) \<longleftrightarrow> ?d" "bit (b_regs (V ?h) ATA_REG_HDDEVSEL) 6"
    using select_bits(2,3)[OF assms(5)] unfolding vh by (simp_all add: b_drive_def ata_consts)
  have adr: "b_lba (V ?h) = unat lba" "b_count (V ?h) = 1"
    using lba_bytes[OF assms(7)] select_bits(4)[OF assms(5)] unfolding vh by (simp_all add: b_lba_def b_count_def ata_consts)
  have qh: "quiet (V ?h)" unfolding vh using assms(2) by simp
  have len: "length (b_media (V h) ?d (unat lba)) = 256" using assms(4,6) by (simp add: bus_ok_def)
  obtain k where k: "k < 100000" "V (out_b P (ATA_PRIMARY_IO + ATA_REG_COMMAND) ATA_CMD_READ_PIO ?h) =
      (V ?h)\<lparr>b_wait := k, b_phase := Reading (b_media (V ?h) ?d (unat lba)) (Suc (unat lba)) 0\<rparr>"
    using transfer_command[OF assms(1) qh sel(1) _ sel(2) adr, of ATA_CMD_READ_PIO] assms(6) unfolding vh by auto
  let ?c = "sector_command P drive lba ATA_CMD_READ_PIO h1"
  have c: "?c = out_b P (ATA_PRIMARY_IO + ATA_REG_COMMAND) ATA_CMD_READ_PIO ?h"
    by (simp add: sector_command_def ata_write_reg_def ata_consts Let_def)
  have vc: "V ?c = (V h)\<lparr>b_regs := ?f, b_wait := k, b_phase := Reading (b_media (V h) ?d (unat lba)) (Suc (unat lba)) 0\<rparr>"
    unfolding c k(2) vh by simp
  have fd: "bit (?f ATA_REG_HDDEVSEL) 4 \<longleftrightarrow> ?d" using sel(1) unfolding vh by (simp add: b_drive_def)
  have sz: "b_size (V ?c) (b_drive (V ?c)) \<noteq> 0" using vc fd assms(6) by (simp add: b_drive_def)
  have "\<exists>h'. wait_data P 1000000 ?c = (0, h') \<and> V h' = (V ?c)\<lparr>b_wait := 0\<rparr>"
    using sz vc k(1) by (intro wait_data_run[OF assms(1)]) simp_all
  then obtain h2 where h2: "wait_data P 1000000 ?c = (0, h2)" "V h2 = (V ?c)\<lparr>b_wait := 0\<rparr>" by blast
  have ne: "b_media (V h) ?d (unat lba) \<noteq> []" using len by auto
  obtain h3 where h3: "read_data P primary 256 h2 = (b_media (V h) ?d (unat lba), h3)" "V h3 = (V h2)\<lparr>b_phase := Idle\<rparr>"
    using read_data_run[of P primary V h2 "b_media (V h) ?d (unat lba)" "Suc (unat lba)"] assms(1) h2(2) vc ne len by auto
  have "V h3 = (V h)\<lparr>b_regs := ?f\<rparr>" using h3(2) h2(2) vc q by simp
  moreover have "ata_read_sector P drive lba h = (0, b_media (V h) ?d (unat lba), h3)"
    using h1(1) h2(1) h3(1) by (simp add: ata_read_sector_def)
  ultimately show ?thesis using that[of h3 ?f] fd by blast
qed

text \<open>A read of \<open>n\<close> sectors puts them into memory one after the other.\<close>

lemma store_bytes_append: "store_bytes a (xs @ ys) m = store_bytes (a + of_nat (length xs)) ys (store_bytes a xs m)"
  by (induction xs arbitrary: a m) (simp_all add: algebra_simps)

lemma serve_read_run:
  assumes "ata_bus P ATA_PRIMARY_IO V" "quiet (V h)" "b_size (V h) (b_drive (V h)) \<noteq> 0" "bus_ok (V h)"
    and "ucast (rq_drive req) \<in> {0, 1 :: u8}" "unat (rq_lba req) + i + n \<le> b_size (V h) (ucast (rq_drive req) = (1 :: u8))"
    and "unat (rq_lba req) + i + n \<le> 2 ^ 28"
  shows "\<exists>h' f. serve_read P req i n resp m h =
      (resp\<lparr>rs_bytes := rs_bytes resp + of_nat n * 512\<rparr>, store_bytes (rq_buffer_addr req + of_nat i * 512)
         (sectors_bytes (b_media (V h) (ucast (rq_drive req) = (1 :: u8))) (unat (rq_lba req) + i) n) m, h') \<and>
    V h' = (V h)\<lparr>b_regs := f\<rparr>"
  using assms(2-4,6-)
proof (induction n arbitrary: i h resp m)
  case 0
  then show ?case by (auto simp: sectors_bytes_def intro: exI[of _ "b_regs (V h)"])
next
  case (Suc n)
  let ?d = "ucast (rq_drive req) = (1 :: u8)"
  have lba: "unat (rq_lba req + of_nat i) = unat (rq_lba req) + i"
    using Suc.prems(5) of_nat_unat_less[of i] by (subst unat_add_no_wrap) simp_all
  have lt: "unat (rq_lba req + of_nat i) < b_size (V h) ?d" "unat (rq_lba req + of_nat i) < 2 ^ 28"
    using Suc.prems(4,5) unfolding lba by simp_all
  obtain h1 f where h1: "ata_read_sector P (ucast (rq_drive req)) (rq_lba req + of_nat i) h =
      (0, b_media (V h) ?d (unat (rq_lba req) + i), h1)" "V h1 = (V h)\<lparr>b_regs := f\<rparr>" "bit (f ATA_REG_HDDEVSEL) 4 \<longleftrightarrow> ?d"
    using ata_read_sector_run[OF assms(1) Suc.prems(1-3) assms(5) lt] unfolding lba by blast
  let ?m = "b_media (V h) ?d"
  have len: "length (?m (unat (rq_lba req) + i)) = 256" using Suc.prems(3,4) by (simp add: bus_ok_def)
  have "\<exists>h' f. serve_read P req (Suc i) n (resp\<lparr>rs_bytes := rs_bytes resp + 512\<rparr>)
      (store_bytes (rq_buffer_addr req + of_nat i * 512) (sector_bytes (?m (unat (rq_lba req) + i))) m) h1 =
      ((resp\<lparr>rs_bytes := rs_bytes resp + 512\<rparr>)\<lparr>rs_bytes := rs_bytes (resp\<lparr>rs_bytes := rs_bytes resp + 512\<rparr>) + of_nat n * 512\<rparr>,
       store_bytes (rq_buffer_addr req + of_nat (Suc i) * 512) (sectors_bytes (b_media (V h1) ?d) (unat (rq_lba req) + Suc i) n)
         (store_bytes (rq_buffer_addr req + of_nat i * 512) (sector_bytes (?m (unat (rq_lba req) + i))) m), h') \<and>
    V h' = (V h1)\<lparr>b_regs := f\<rparr>"
    using Suc.prems h1(2,3) by (intro Suc.IH) (simp_all add: b_drive_def bus_ok_def)
  then obtain h' f' where h': "serve_read P req (Suc i) n (resp\<lparr>rs_bytes := rs_bytes resp + 512\<rparr>)
      (store_bytes (rq_buffer_addr req + of_nat i * 512) (sector_bytes (?m (unat (rq_lba req) + i))) m) h1 =
      (resp\<lparr>rs_bytes := rs_bytes resp + of_nat (Suc n) * 512\<rparr>,
       store_bytes (rq_buffer_addr req + of_nat (Suc i) * 512) (sectors_bytes ?m (unat (rq_lba req) + Suc i) n)
         (store_bytes (rq_buffer_addr req + of_nat i * 512) (sector_bytes (?m (unat (rq_lba req) + i))) m), h')"
    "V h' = (V h1)\<lparr>b_regs := f'\<rparr>" by (auto simp: h1(2) algebra_simps)
  have "store_bytes (rq_buffer_addr req + of_nat i * 512) (sectors_bytes ?m (unat (rq_lba req) + i) (Suc n)) m =
      store_bytes (rq_buffer_addr req + of_nat (Suc i) * 512) (sectors_bytes ?m (unat (rq_lba req) + Suc i) n)
         (store_bytes (rq_buffer_addr req + of_nat i * 512) (sector_bytes (?m (unat (rq_lba req) + i))) m)"
    unfolding sectors_bytes_Suc store_bytes_append using len by (simp add: algebra_simps)
  moreover have "V h' = (V h)\<lparr>b_regs := f'\<rparr>" using h'(2) h1(2) by simp
  ultimately show ?case using h1(1) h'(1) by auto
qed

section \<open>Messages\<close>

lemma request_round_trip [simp]: "request_of (request_bytes r @ xs) = r"
  by (cases r) (simp add: request_of_def request_bytes_def)

lemma response_round_trip [simp]: "response_of (response_bytes r @ xs) = r"
  by (cases r) (simp add: response_of_def response_bytes_def)

lemma length_protocol [simp]: "length (request_bytes r) = 24" "length (response_bytes p) = 12"
  by (simp_all add: request_bytes_def response_bytes_def)

text \<open>
  C34. A read through messages is served. When the client asks for sectors of a drive, the driver's task, when it runs next, whatever has
  become of the tasks meanwhile, reads exactly the sectors asked for into the memory at the address given and answers; and the client,
  when it runs again, takes the answer for its own request and returns the number of bytes, without waiting.
\<close>

theorem blkdev_read_served:
  fixes k0 :: ipc and V :: "'h \<Rightarrow> bus" and drive :: u8
  assumes "ipc_wf k0 q" "current_pid k0 = Some client" "ipc_find_port (Some BLKDEV_PORT_NAME) k0 = int d" "d < 32" "c < 32" "c \<noteq> d"
    and "p_in_use (ports k0 ! c)" "p_owner_pid (ports k0 ! c) = client" "port_contents (ports k0 ! c) = []"
    and "p_in_use (ports k0 ! d)" "p_owner_pid (ports k0 ! d) = driver" "port_contents (ports k0 ! d) = []"
    and "ata_bus P ATA_PRIMARY_IO V" "quiet (V h)" "b_size (V h) (b_drive (V h)) \<noteq> 0" "bus_ok (V h)" "drive \<in> {0, 1}"
    and "unat lba + unat count \<le> b_size (V h) (drive = 1)" "unat lba + unat count \<le> 2 ^ 28"
    and "length (m_data buf) = 256" "length (m_data buf') = 256"
  shows "\<exists>s1. send_request BLKDEV_OP_READ (ucast drive) lba count buffer
      \<lparr>next_request_id = i, client_port = int c, bc_ipc = k0\<rparr> = Some (Some i, s1) \<and>
    ipc_wf (bc_ipc s1) q \<and> current_pid (bc_ipc s1) = Some client \<and>
    (\<forall>ts q1. ipc_wf ((bc_ipc s1)\<lparr>ipc_tasks := ts\<rparr>) q1 \<longrightarrow> current_pid ((bc_ipc s1)\<lparr>ipc_tasks := ts\<rparr>) = Some driver \<longrightarrow>
      (\<exists>t. ata_driver_round P resume (of_nat d) buf \<lparr>at_hw = h, at_mem = m, at_ipc = (bc_ipc s1)\<lparr>ipc_tasks := ts\<rparr>\<rparr> = Some t \<and>
        at_mem t = store_bytes buffer (sectors_bytes (b_media (V h) (drive = 1)) (unat lba) (unat count)) m \<and>
        b_media (V (at_hw t)) = b_media (V h) \<and> ipc_wf (at_ipc t) q1 \<and> current_pid (at_ipc t) = Some driver \<and>
        (\<forall>ts' q2. ipc_wf ((at_ipc t)\<lparr>ipc_tasks := ts'\<rparr>) q2 \<longrightarrow> current_pid ((at_ipc t)\<lparr>ipc_tasks := ts'\<rparr>) = Some client \<longrightarrow>
          (\<exists>s3. await_response resume' buf' i (s1\<lparr>bc_ipc := (at_ipc t)\<lparr>ipc_tasks := ts'\<rparr>\<rparr>) = Some (Some (512 * count), s3)))))"
proof -
  let ?req = "\<lparr>rq_id = i, rq_operation = BLKDEV_OP_READ, rq_drive = ucast drive, rq_lba = lba, rq_count = count, rq_buffer_addr = buffer\<rparr>"
  let ?s = "\<lparr>next_request_id = i, client_port = int c, bc_ipc = k0\<rparr>"
  have pn: "unat (of_int (int n) :: u32) = n" "unat (of_nat n :: u32) = n" if "n < 32" for n
    using that of_nat_unat_less[of n] by simp_all
  have len: "length (ports k0) = 32" using assms(1) by (simp add: ipc_wf_def)
  note d = pn[OF assms(4)] and c = pn[OF assms(5)]
  obtain k1 p1 where k1: "ipc_send_from_port (of_int (int c)) (of_int (int d)) 0 (Some (request_bytes ?req)) 24 k0 = Some (0, k1)"
    "ports k1 = (ports k0)[d := p1]" "port_contents p1 = [(client, of_int (int c), 0, request_bytes ?req)]" "p_in_use p1" "p_owner_pid p1 = driver"
    "ipc_wf k1 q" "current_pid k1 = Some client"
  proof -
    let ?d = "of_int (int d) :: u32"
    have r: "unat ?d < 32" "p_in_use (ports k0 ! unat ?d)" "unat (24 :: u32) = length (request_bytes ?req)" "length (request_bytes ?req) \<le> 256"
      "length (port_contents (ports k0 ! unat ?d)) < 16"
      using assms(4,10,12) unfolding d(1) by simp_all
    show ?thesis using send_appends[OF assms(1) r assms(2)] that assms(11,12) unfolding d(1) by (metis append_Nil)
  qed
  let ?s1 = "?s\<lparr>next_request_id := i + 1, bc_ipc := k1\<rparr>"
  have send: "send_request BLKDEV_OP_READ (ucast drive) lba count buffer ?s = Some (Some i, ?s1)"
    using k1(1) assms(3) by (simp add: send_request_def)
  show ?thesis
  proof (intro exI[of _ ?s1] conjI send allI impI, goal_cases)
    case 1
    show ?case using k1(6) by simp
  next
    case 2
    show ?case using k1(7) by simp
  next
    case (3 ts q1)
    let ?k = "k1\<lparr>ipc_tasks := ts\<rparr>"
    have pd: "ports ?k ! d = p1" "ports ?k ! c = ports k0 ! c" using k1(2) len assms(4,6) by simp_all
    have r: "ipc_wf ?k q1" "unat (of_nat d :: u32) < 32" "p_in_use (ports ?k ! unat (of_nat d :: u32))"
      "port_contents (ports ?k ! unat (of_nat d :: u32)) = [(client, of_int (int c), 0, request_bytes ?req)]"
      "current_pid ?k = Some (p_owner_pid (ports ?k ! unat (of_nat d :: u32)))" "length (request_bytes ?req) < 256"
      using 3 d(2) pd k1(3-5) assms(4) by simp_all
    obtain msg k2 p2 where k2: "ipc_recv resume (of_nat d) buf ?k = Some (0, msg, k2)" "ipc_wf k2 q1" "ports k2 = (ports ?k)[d := p2]"
      "ipc_tasks k2 = ipc_tasks ?k" "m_sender_port msg = of_int (int c)" "unat (m_size msg) = length (request_bytes ?req)"
      "m_data msg = request_bytes ?req @ drop (length (request_bytes ?req)) (m_data msg)"
      using recv_first[OF r(1-5) assms(20) r(6)] unfolding d(2) by blast
    have rq: "request_of (m_data msg) = ?req" by (subst k2(7)) simp
    have sz: "\<not> m_size msg < 24" using k2(6) by (simp add: word_less_nat_alt)
    have dr: "ucast (ucast drive :: u32) = drive" using assms(17) by auto
    let ?resp = "\<lparr>rs_id = i, rs_status = BLKDEV_STATUS_OK, rs_bytes = 0\<rparr>"
    have "\<exists>h' f. serve_read P ?req 0 (unat count) ?resp m h =
        (?resp\<lparr>rs_bytes := rs_bytes ?resp + of_nat (unat count) * 512\<rparr>, store_bytes (rq_buffer_addr ?req + of_nat 0 * 512)
         (sectors_bytes (b_media (V h) (ucast (rq_drive ?req) = (1 :: u8))) (unat (rq_lba ?req) + 0) (unat count)) m, h') \<and> V h' = (V h)\<lparr>b_regs := f\<rparr>"
    proof (rule serve_read_run[OF assms(13-16)])
      have drv: "ucast (rq_drive ?req) = drive" using dr by simp
      show "ucast (rq_drive ?req) \<in> {0, 1 :: u8}" unfolding drv by (rule assms(17))
      show "unat (rq_lba ?req) + 0 + unat count \<le> b_size (V h) (ucast (rq_drive ?req) = (1 :: u8))" unfolding drv using assms(18) by simp
    qed (use assms(19) in simp)
    then obtain h' f where h': "serve_read P ?req 0 (unat count) ?resp m h = (?resp\<lparr>rs_bytes := count * 512\<rparr>,
        store_bytes buffer (sectors_bytes (b_media (V h) (drive = 1)) (unat lba) (unat count)) m, h')" "V h' = (V h)\<lparr>b_regs := f\<rparr>"
      by (auto simp: dr)
    let ?out = "response_bytes (?resp\<lparr>rs_bytes := count * 512\<rparr>)"
    have pc: "ports k2 ! c = ports k0 ! c" using k2(3) pd(2) assms(6) by simp
    have cur: "current_pid k2 = Some driver" using 3(2) k2(4) by (simp add: current_pid_def)
    obtain k3 p3 where k3: "ipc_send_from_port 0 (of_int (int c)) 0 (Some ?out) 12 k2 = Some (0, k3)" "ports k3 = (ports k2)[c := p3]"
      "port_contents p3 = [(driver, 0, 0, ?out)]" "p_in_use p3" "p_owner_pid p3 = client"
      "ipc_wf k3 q1" "current_pid k3 = Some driver"
    proof -
      let ?c = "of_int (int c) :: u32"
      have r: "unat ?c < 32" "p_in_use (ports k2 ! unat ?c)" "unat (12 :: u32) = length ?out" "length ?out \<le> 256"
        "length (port_contents (ports k2 ! unat ?c)) < 16"
        using assms(5,7,9) pc unfolding c(1) by simp_all
      show ?thesis using send_appends[OF k2(2) r cur] that assms(8,9) pc unfolding c(1) by (metis append_Nil)
    qed
    let ?m = "store_bytes buffer (sectors_bytes (b_media (V h) (drive = 1)) (unat lba) (unat count)) m"
    let ?t = "\<lparr>at_hw = h', at_mem = ?m, at_ipc = k3\<rparr>"
    have perf: "perform P ?req m h = (?resp\<lparr>rs_bytes := count * 512\<rparr>, ?m, h')" using h'(1) by (simp add: perform_def)
    have "handle_request P msg \<lparr>at_hw = h, at_mem = m, at_ipc = k2\<rparr> = Some ?t"
      using sz k3(1) k2(5) unfolding handle_request_def rq by (simp add: perf ipc_send_def)
    then have round: "ata_driver_round P resume (of_nat d) buf \<lparr>at_hw = h, at_mem = m, at_ipc = ?k\<rparr> = Some ?t"
      using k2(1) by (simp add: ata_driver_round_def)
    have resp: "\<exists>s3. await_response resume' buf' i (?s1\<lparr>bc_ipc := (at_ipc ?t)\<lparr>ipc_tasks := ts'\<rparr>\<rparr>) = Some (Some (512 * count), s3)"
      if wf: "ipc_wf ((at_ipc ?t)\<lparr>ipc_tasks := ts'\<rparr>) q2" and cl: "current_pid ((at_ipc ?t)\<lparr>ipc_tasks := ts'\<rparr>) = Some client" for ts' q2
    proof -
      let ?k' = "k3\<lparr>ipc_tasks := ts'\<rparr>"
      have "length (ports k2) = 32" using k2(2) by (simp add: ipc_wf_def)
      then have p: "ports ?k' ! c = p3" using k3(2) assms(5) by simp
      have r: "ipc_wf ?k' q2" "unat (of_int (int c) :: u32) < 32" "p_in_use (ports ?k' ! unat (of_int (int c) :: u32))"
        "port_contents (ports ?k' ! unat (of_int (int c) :: u32)) = [(driver, 0, 0, ?out)]"
        "current_pid ?k' = Some (p_owner_pid (ports ?k' ! unat (of_int (int c) :: u32)))" "length ?out < 256"
        using wf cl p k3(3-5) c(1) assms(5) by simp_all
      obtain msg k4 where k4: "ipc_recv resume' (of_int (int c)) buf' ?k' = Some (0, msg, k4)" "unat (m_size msg) = length ?out"
        "m_data msg = ?out @ drop (length ?out) (m_data msg)"
        using recv_first[OF r(1-5) assms(21) r(6)] by blast
      have "response_of (m_data msg) = ?resp\<lparr>rs_bytes := count * 512\<rparr>" by (subst k4(3)) simp
      moreover have "\<not> m_size msg < 12" using k4(2) by (simp add: word_less_nat_alt)
      ultimately show ?thesis using k4(1) by (simp add: await_response_def mult.commute)
    qed
    show ?case using round resp h'(2) k3(6,7) by (intro exI[of _ ?t]) simp
  qed
qed

text \<open>A system whose only task owns the port of the driver and the port of the client; two sectors from 5 on are read to 8192.\<close>

definition sample_blk_ipc :: ipc where
  "sample_blk_ipc = boot_ipc\<lparr>ports :=
     (replicate 32 blank_port)[0 := open_port 0 BLKDEV_PORT_NAME blank_port, 1 := open_port 0 [] blank_port]\<rparr>"

lemma sample_blk_ipc_facts:
  "ipc_wf sample_blk_ipc [0x40000C]" "current_pid sample_blk_ipc = Some 0"
  "ipc_find_port (Some BLKDEV_PORT_NAME) sample_blk_ipc = int 0"
  "i \<in> {0, 1} \<Longrightarrow> p_in_use (ports sample_blk_ipc ! i) \<and> p_owner_pid (ports sample_blk_ipc ! i) = 0 \<and>
     port_contents (ports sample_blk_ipc ! i) = []"
proof -
  have p: "ports sample_blk_ipc ! 0 = open_port 0 BLKDEV_PORT_NAME blank_port" "ports sample_blk_ipc ! 1 = open_port 0 [] blank_port"
    by (simp_all add: sample_blk_ipc_def)
  have "set (ports sample_blk_ipc) \<subseteq> {blank_port, open_port 0 BLKDEV_PORT_NAME blank_port, open_port 0 [] blank_port}"
    by (auto simp: sample_blk_ipc_def in_set_conv_nth nth_list_update)
  moreover have "task_wf (ipc_tasks sample_blk_ipc) [0x40000C]" using idle_tasking_facts(2) by (simp add: sample_blk_ipc_def boot_ipc_def)
  moreover have "p_waiting_task blank_port = NULL" "p_waiting_task (open_port 0 n blank_port) = NULL" "\<not> p_in_use blank_port" for n
    by (simp_all add: blank_port_def open_port_def)
  moreover have "length (ports sample_blk_ipc) = 32" by (simp add: sample_blk_ipc_def)
  ultimately show "ipc_wf sample_blk_ipc [0x40000C]"
    using blank_port_inv(1) blank_port_inv(3)[of "[]"] blank_port_inv(3)[of BLKDEV_PORT_NAME] port_inv_slots
    unfolding ipc_wf_def by (metis (no_types, opaque_lifting) empty_iff insert_iff subset_iff)
  show "current_pid sample_blk_ipc = Some 0"
    by (simp add: sample_blk_ipc_def current_pid_def boot_ipc_def task_get_current_def idle_tasking_facts idle_task_def)
  have "port_matches BLKDEV_PORT_NAME (ports sample_blk_ipc ! 0)"
    unfolding p(1) using name_match_prefix[of 32 10 BLKDEV_PORT_NAME]
    by (simp add: port_matches_def open_port_def BLKDEV_PORT_NAME_def)
  then have "find_first 0 32 (\<lambda>i. port_matches BLKDEV_PORT_NAME (ports sample_blk_ipc ! i)) = Some 0"
    by (intro find_first_least) simp_all
  then show "ipc_find_port (Some BLKDEV_PORT_NAME) sample_blk_ipc = int 0" by (simp add: ipc_find_port_def)
  show "p_in_use (ports sample_blk_ipc ! i) \<and> p_owner_pid (ports sample_blk_ipc ! i) = 0 \<and> port_contents (ports sample_blk_ipc ! i) = []"
    if "i \<in> {0, 1}"
    using that p by (auto simp: open_port_def port_contents_def)
qed

theorem blkdev_read_served_witness:
  "\<exists>s1 t s3. send_request BLKDEV_OP_READ (ucast (0 :: u8)) 5 2 8192
      \<lparr>next_request_id = 1, client_port = int 1, bc_ipc = sample_blk_ipc\<rparr> = Some (Some 1, s1) \<and>
    ata_driver_round ideal_controller Some (of_nat 0) blank_message
      \<lparr>at_hw = ata_hw sample_ata, at_mem = (\<lambda>_. 0), at_ipc = bc_ipc s1\<rparr> = Some t \<and>
    await_response Some blank_message 1 (s1\<lparr>bc_ipc := at_ipc t\<rparr>) = Some (Some 1024, s3)"
proof -
  have bus: "ata_bus ideal_controller ATA_PRIMARY_IO (\<lambda>b. b)" using ideal_bus by (simp add: ATA_PRIMARY_IO_def)
  have q: "quiet (ata_hw sample_ata)" "b_size (ata_hw sample_ata) (b_drive (ata_hw sample_ata)) \<noteq> 0" "bus_ok (ata_hw sample_ata)"
    "(0 :: u8) \<in> {0, 1}" "unat (5 :: u32) + unat (2 :: u32) \<le> b_size (ata_hw sample_ata) ((0 :: u8) = 1)"
    "unat (5 :: u32) + unat (2 :: u32) \<le> 2 ^ 28"
    by (simp_all add: sample_ata_def quiet_def bus_ok_def b_drive_def)
  have p: "0 < (32 :: nat)" "1 < (32 :: nat)" "1 \<noteq> (0 :: nat)" by simp_all
  have f: "p_in_use (ports sample_blk_ipc ! i)" "p_owner_pid (ports sample_blk_ipc ! i) = 0" "port_contents (ports sample_blk_ipc ! i) = []"
    if "i \<in> {0, 1}" for i using sample_blk_ipc_facts(4)[OF that] by simp_all
  have one: "1 \<in> {0, 1 :: nat}" and zero: "0 \<in> {0, 1 :: nat}" by simp_all
  have buf: "length (m_data blank_message) = 256" by (simp add: blank_message_def)
  have same: "k\<lparr>ipc_tasks := ipc_tasks k\<rparr> = k" for k :: ipc by simp
  note served = blkdev_read_served[OF sample_blk_ipc_facts(1-3) p f[OF one] f[OF zero] bus q buf buf,
      where buffer = 8192 and i = 1 and resume = Some and resume' = Some and m = "\<lambda>_. 0"]
  obtain s1 where s1: "send_request BLKDEV_OP_READ (ucast (0 :: u8)) 5 2 8192
      \<lparr>next_request_id = 1, client_port = int 1, bc_ipc = sample_blk_ipc\<rparr> = Some (Some 1, s1)"
    "ipc_wf (bc_ipc s1) [0x40000C]" "current_pid (bc_ipc s1) = Some 0"
    "\<And>ts q1. ipc_wf ((bc_ipc s1)\<lparr>ipc_tasks := ts\<rparr>) q1 \<Longrightarrow> current_pid ((bc_ipc s1)\<lparr>ipc_tasks := ts\<rparr>) = Some 0 \<Longrightarrow>
      \<exists>t. ata_driver_round ideal_controller Some (of_nat 0) blank_message
          \<lparr>at_hw = ata_hw sample_ata, at_mem = (\<lambda>_. 0), at_ipc = (bc_ipc s1)\<lparr>ipc_tasks := ts\<rparr>\<rparr> = Some t \<and>
        ipc_wf (at_ipc t) q1 \<and> current_pid (at_ipc t) = Some 0 \<and>
        (\<forall>ts' q2. ipc_wf ((at_ipc t)\<lparr>ipc_tasks := ts'\<rparr>) q2 \<longrightarrow> current_pid ((at_ipc t)\<lparr>ipc_tasks := ts'\<rparr>) = Some 0 \<longrightarrow>
          (\<exists>s3. await_response Some blank_message 1 (s1\<lparr>bc_ipc := (at_ipc t)\<lparr>ipc_tasks := ts'\<rparr>\<rparr>) = Some (Some (512 * 2), s3)))"
    using served by blast
  obtain t where t: "ata_driver_round ideal_controller Some (of_nat 0) blank_message
      \<lparr>at_hw = ata_hw sample_ata, at_mem = (\<lambda>_. 0), at_ipc = bc_ipc s1\<rparr> = Some t" "ipc_wf (at_ipc t) [0x40000C]"
    "current_pid (at_ipc t) = Some 0"
    "\<forall>ts' q2. ipc_wf ((at_ipc t)\<lparr>ipc_tasks := ts'\<rparr>) q2 \<longrightarrow> current_pid ((at_ipc t)\<lparr>ipc_tasks := ts'\<rparr>) = Some 0 \<longrightarrow>
      (\<exists>s3. await_response Some blank_message 1 (s1\<lparr>bc_ipc := (at_ipc t)\<lparr>ipc_tasks := ts'\<rparr>\<rparr>) = Some (Some (512 * 2), s3))"
    using s1(4)[of "ipc_tasks (bc_ipc s1)" "[0x40000C]"] s1(2,3) unfolding same by blast
  from t(4)[rule_format, of "ipc_tasks (at_ipc t)" "[0x40000C]"] t(2,3)
  obtain s3 where "await_response Some blank_message 1 (s1\<lparr>bc_ipc := at_ipc t\<rparr>) = Some (Some (512 * 2), s3)"
    unfolding same by blast
  then show ?thesis using s1(1) t(1) by (intro exI[of _ s1] exI[of _ t] exI[of _ s3]) simp
qed

end
