(* ===== verification/Interrupts.thy ===== *)
theory Interrupts
  imports Console Shellpath Keyboard Task Portio
begin

text \<open>
  Interrupts: the descriptor table (\<open>src/src/kernel/idt.c\<close>), the interrupt controllers (\<open>src/src/kernel/pic.c\<close>) and the handlers
  in C (\<open>src/src/kernel/isr_handler.c\<close>), with the stubs of \<open>isr.s\<close> as addresses. The two controllers are a view of the hardware behind
  the port instructions; their documented behaviour is the hypothesis \<open>pic_bus\<close>. The theory shows that initialisation maps the 16 lines to
  the vectors 32 to 47 without a change of the masks, that every interrupt keeps the state of tasks, keyboard and screen well-formed and is
  acknowledged, except that a switch of tasks comes before the acknowledgement of the timer.
\<close>

section \<open>The descriptor table\<close>

record idt_entry =
  offset_low :: u16
  ie_selector :: u16
  ie_zero :: u8
  type_attr :: u8
  offset_high :: u16

record idt_descriptor =
  idt_limit :: u16
  idt_base :: u32

definition IDT_ENTRIES :: nat where "IDT_ENTRIES = 256"

text \<open>\<open>idtr\<close> is the register that \<open>idt_load\<close> sets; \<open>idt_addr\<close> is the address of the table.\<close>

record idt_state =
  idt :: "idt_entry list"
  idt_desc :: idt_descriptor
  idtr :: "idt_descriptor option"

definition idt_set_gate :: "u8 \<Rightarrow> u32 \<Rightarrow> u16 \<Rightarrow> u8 \<Rightarrow> idt_state \<Rightarrow> idt_state option" where
  "idt_set_gate num handler selector flags s = do {
     t \<leftarrow> arr_set (idt s) (unat num) \<lparr>offset_low = ucast (handler AND 0xFFFF), ie_selector = selector, ie_zero = 0, type_attr = flags,
       offset_high = ucast (drop_bit 16 handler AND 0xFFFF)\<rparr>;
     Some (s\<lparr>idt := t\<rparr>)
   }"

definition idt_init :: "u32 \<Rightarrow> idt_state \<Rightarrow> idt_state option" where
  "idt_init idt_addr s = do {
     let s = s\<lparr>idt_desc := \<lparr>idt_limit = of_nat (8 * IDT_ENTRIES - 1), idt_base = idt_addr\<rparr>\<rparr>;
     s \<leftarrow> for_range 0 IDT_ENTRIES (\<lambda>i. idt_set_gate (of_nat i) 0 0 0) s;
     Some (s\<lparr>idtr := Some (idt_desc s)\<rparr>)
   }"

text \<open>\<open>isr i\<close> and \<open>irq i\<close> are the addresses of the stubs.\<close>

definition isr_install :: "(nat \<Rightarrow> u32) \<Rightarrow> idt_state \<Rightarrow> idt_state option" where
  "isr_install isr = for_range 0 32 (\<lambda>i. idt_set_gate (of_nat i) (isr i) 0x08 0x8E)"

definition irq_install :: "(nat \<Rightarrow> u32) \<Rightarrow> idt_state \<Rightarrow> idt_state option" where
  "irq_install irq = for_range 32 16 (\<lambda>i. idt_set_gate (of_nat i) (irq (i - 32)) 0x08 0x8E)"

section \<open>The interrupt controllers\<close>

definition PIC1_COMMAND :: u16 where "PIC1_COMMAND = 0x20"
definition PIC1_DATA :: u16 where "PIC1_DATA = 0x21"
definition PIC2_COMMAND :: u16 where "PIC2_COMMAND = 0xA0"
definition PIC2_DATA :: u16 where "PIC2_DATA = 0xA1"
definition PIC_EOI :: u8 where "PIC_EOI = 0x20"
definition ICW1_ICW4 :: u8 where "ICW1_ICW4 = 0x01"
definition ICW1_INIT :: u8 where "ICW1_INIT = 0x10"
definition ICW4_8086 :: u8 where "ICW4_8086 = 0x01"

lemmas pic_consts = PIC1_COMMAND_def PIC1_DATA_def PIC2_COMMAND_def PIC2_DATA_def PIC_EOI_def ICW1_ICW4_def ICW1_INIT_def ICW4_8086_def

definition io_wait :: "'h port_io \<Rightarrow> 'h \<Rightarrow> 'h" where
  "io_wait P h = out_b P 0x80 0 h"

definition pic_init :: "'h port_io \<Rightarrow> 'h \<Rightarrow> 'h" where
  "pic_init P h =
     (let (mask1, h) = in_b P PIC1_DATA h;
          (mask2, h) = in_b P PIC2_DATA h;
          h = io_wait P (out_b P PIC1_COMMAND (ICW1_INIT OR ICW1_ICW4) h);
          h = io_wait P (out_b P PIC2_COMMAND (ICW1_INIT OR ICW1_ICW4) h);
          h = io_wait P (out_b P PIC1_DATA 32 h);
          h = io_wait P (out_b P PIC2_DATA 40 h);
          h = io_wait P (out_b P PIC1_DATA 4 h);
          h = io_wait P (out_b P PIC2_DATA 2 h);
          h = io_wait P (out_b P PIC1_DATA ICW4_8086 h);
          h = io_wait P (out_b P PIC2_DATA ICW4_8086 h) in
      out_b P PIC2_DATA mask2 (out_b P PIC1_DATA mask1 h))"

definition pic_send_eoi :: "'h port_io \<Rightarrow> u8 \<Rightarrow> 'h \<Rightarrow> 'h" where
  "pic_send_eoi P irq h =
     (let h = (if irq \<ge> 8 then out_b P PIC2_COMMAND PIC_EOI h else h) in out_b P PIC1_COMMAND PIC_EOI h)"

section \<open>Handlers\<close>

definition exception_messages :: "cstring list" where
  "exception_messages =
     [cstr ''Division By Zero'', cstr ''Debug'', cstr ''Non Maskable Interrupt'', cstr ''Breakpoint'', cstr ''Into Detected Overflow'',
      cstr ''Out of Bounds'', cstr ''Invalid Opcode'', cstr ''No Coprocessor'', cstr ''Double Fault'', cstr ''Coprocessor Segment Overrun'',
      cstr ''Bad TSS'', cstr ''Segment Not Present'', cstr ''Stack Fault'', cstr ''General Protection Fault'', cstr ''Page Fault'',
      cstr ''Unknown Interrupt'', cstr ''Coprocessor Fault'', cstr ''Alignment Check'', cstr ''Machine Check''] @
     replicate 13 (cstr ''Reserved'')"

text \<open>An exception halts the machine: the result says whether it did.\<close>

definition isr_handler :: "u32 \<Rightarrow> console \<Rightarrow> (bool \<times> console) option" where
  "isr_handler int_no c = do {
     c \<leftarrow> print_string (cstr ''Received interrupt: '') 4 c;
     if int_no < 32
     then do {
       m \<leftarrow> arr_get exception_messages (unat int_no);
       c \<leftarrow> print_string m 5 c;
       c \<leftarrow> print_string (cstr ''System Halted!'') 6 c;
       Some (True, c)
     }
     else Some (False, c)
   }"

text \<open>
  \<open>int_to_str\<close> of this file is that of the shell. \<open>tick_str\<close> is what the local buffer of 20 bytes held before.
\<close>

definition show_clock :: "bytes \<Rightarrow> u32 \<Rightarrow> console \<Rightarrow> console option" where
  "show_clock tick_str ticks c = do {
     tick_str \<leftarrow> shell_int_to_str (ticks div 18) tick_str;
     let col = 80 - 12;
     c \<leftarrow> for_range col 12 (\<lambda>i. print_char 32 (int i) 0) c;
     c \<leftarrow> print_string_from (cstr ''Time:'') (int col) 0 c;
     let col = col + 5;
     c \<leftarrow> print_char 32 (int col) 0 c;
     let col = col + 1;
     c \<leftarrow> print_string_from (buf_string tick_str) (int col) 0 c;
     let col = col + length (buf_string tick_str);
     print_char 115 (int col) 0 c
   }"

record 'h interrupts =
  timer_ticks :: u32
  ir_con :: console
  ir_tasks :: tasking
  ir_kb :: keyboard
  ir_hw :: 'h

definition timer_interrupt :: "bytes \<Rightarrow> 'h interrupts \<Rightarrow> 'h interrupts option" where
  "timer_interrupt tick_str s = do {
     let s = s\<lparr>timer_ticks := timer_ticks s + 1\<rparr>;
     c \<leftarrow> (if timer_ticks s mod 18 = 0 then show_clock tick_str (timer_ticks s) (ir_con s) else Some (ir_con s));
     ts \<leftarrow> task_schedule (ir_tasks s);
     Some (s\<lparr>ir_con := c, ir_tasks := ts\<rparr>)
   }"

definition keyboard_interrupt :: "'h port_io \<Rightarrow> 'h interrupts \<Rightarrow> 'h interrupts option" where
  "keyboard_interrupt P s = do {
     let (scancode, h) = in_b P 0x60 (ir_hw s);
     k \<leftarrow> keyboard_handler scancode (ir_kb s);
     Some (s\<lparr>ir_kb := k, ir_hw := h\<rparr>)
   }"

text \<open>
  The last statement of \<open>irq_handler\<close>. When the scheduler switches to another task the processor goes on there, and the
  interrupted call comes to this statement only when its task runs again.
\<close>

definition irq_return :: "'h port_io \<Rightarrow> u32 \<Rightarrow> 'h interrupts \<Rightarrow> 'h interrupts" where
  "irq_return P int_no s = s\<lparr>ir_hw := pic_send_eoi P (ucast (int_no - 32)) (ir_hw s)\<rparr>"

definition irq_handler :: "'h port_io \<Rightarrow> bytes \<Rightarrow> u32 \<Rightarrow> 'h interrupts \<Rightarrow> 'h interrupts option" where
  "irq_handler P tick_str int_no s = do {
     s' \<leftarrow> (if int_no = 32 then timer_interrupt tick_str s
           else if int_no = 33 then keyboard_interrupt P s
           else Some s);
     Some (if current_task (ir_tasks s') \<noteq> current_task (ir_tasks s) then s' else irq_return P int_no s')
   }"

section \<open>Gates\<close>

definition gate_target :: "idt_entry \<Rightarrow> u32" where
  "gate_target e = push_bit 16 (ucast (offset_high e)) OR ucast (offset_low e)"

definition gate :: "u32 \<Rightarrow> u16 \<Rightarrow> u8 \<Rightarrow> idt_entry" where
  "gate handler selector flags = \<lparr>offset_low = ucast (handler AND 0xFFFF), ie_selector = selector, ie_zero = 0, type_attr = flags,
     offset_high = ucast (drop_bit 16 handler AND 0xFFFF)\<rparr>"

lemma gate_target_gate [simp]: "gate_target (gate handler selector flags) = handler"
proof (rule bit_word_eqI)
  fix n assume "n < LENGTH(32)"
  have e: "0xFFFF = (mask 16 :: u32)" by (simp add: mask_eq_exp_minus_1)
  show "bit (gate_target (gate handler selector flags)) n = bit handler n"
    unfolding gate_target_def gate_def e using \<open>n < LENGTH(32)\<close>
    by (cases "n < 16") (auto simp: bit_or_iff bit_push_bit_iff bit_unsigned_iff bit_and_iff bit_drop_bit_eq bit_mask_iff)
qed

lemma set_gate_run:
  "length (idt s) = 256 \<Longrightarrow> i < 256 \<Longrightarrow>
    idt_set_gate (of_nat i) handler selector flags s = Some (s\<lparr>idt := (idt s)[i := gate handler selector flags]\<rparr>)"
proof -
  assume i: "length (idt s) = 256" "i < 256"
  then have "unat (of_nat i :: u8) = i" by (simp add: unat_of_nat take_bit_nat_eq_self)
  then show ?thesis using i unfolding idt_set_gate_def gate_def by (simp add: arr_set_def)
qed

text \<open>A range of gates.\<close>

lemma set_gates_run:
  assumes "length (idt s) = 256" "a + n \<le> 256"
  shows "for_range a n (\<lambda>i. idt_set_gate (of_nat i) (f i) selector flags) s =
    Some (s\<lparr>idt := map (\<lambda>i. if a \<le> i \<and> i < a + n then gate (f i) selector flags else idt s ! i) [0..<256]\<rparr>)"
  using assms
proof (induction n arbitrary: a s)
  case 0
  then have "map (\<lambda>i. if a \<le> i \<and> i < a + 0 then gate (f i) selector flags else idt s ! i) [0..<256] = idt s"
    by (intro nth_equalityI) auto
  then show ?case by simp
next
  case (Suc n)
  let ?s = "s\<lparr>idt := (idt s)[a := gate (f a) selector flags]\<rparr>"
  have "map (\<lambda>i. if Suc a \<le> i \<and> i < Suc a + n then gate (f i) selector flags else idt ?s ! i) [0..<256] =
      map (\<lambda>i. if a \<le> i \<and> i < a + Suc n then gate (f i) selector flags else idt s ! i) [0..<256]"
    using Suc.prems by (intro map_cong refl) (auto simp: nth_list_update)
  moreover have "for_range a (Suc n) (\<lambda>i. idt_set_gate (of_nat i) (f i) selector flags) s =
      for_range (Suc a) n (\<lambda>i. idt_set_gate (of_nat i) (f i) selector flags) ?s"
    using Suc.prems set_gate_run[of s a] by simp
  moreover have "length (idt ?s) = 256" "Suc a + n \<le> 256" using Suc.prems by simp_all
  ultimately show ?case using Suc.IH[of ?s "Suc a"] by simp
qed

lemma gates_installed:
  assumes "length (idt s) = 256"
  shows "\<exists>t. do { s \<leftarrow> idt_init addr s; s \<leftarrow> isr_install isr s; irq_install irq s } = Some t \<and> length (idt t) = 256 \<and>
    idtr t = Some \<lparr>idt_limit = 2047, idt_base = addr\<rparr> \<and>
    (\<forall>i<256. idt t ! i = (if i < 32 then gate (isr i) 8 0x8E else if i < 48 then gate (irq (i - 32)) 8 0x8E else gate 0 0 0))"
  using assms set_gates_run[of _ 0 256 "\<lambda>_. 0" 0 0] set_gates_run[of _ 0 32 isr 8 "0x8E"]
    set_gates_run[of _ 32 16 "\<lambda>i. irq (i - 32)" 8 "0x8E"]
  by (simp add: idt_init_def isr_install_def irq_install_def IDT_ENTRIES_def)

section \<open>The controllers\<close>

text \<open>
  What the documentation of the 8259 controller says of it: a command with bit 4 starts the initialisation, which takes three more
  bytes at the data port; the command \<open>PIC_EOI\<close> ends the interrupt of highest priority in service; a byte at the data port is the
  mask otherwise. \<open>in_service\<close> lists the lines in service, the one of highest priority first.
\<close>

record pic =
  pic_step :: nat
  pic_offset :: u8
  pic_cascade :: u8
  pic_mode :: u8
  pic_mask :: u8
  in_service :: "nat list"

record pics =
  pic1 :: pic
  pic2 :: pic

definition pic_command :: "u8 \<Rightarrow> pic \<Rightarrow> pic" where
  "pic_command v p =
     (if bit v 4 then p\<lparr>pic_step := 2, pic_mask := 0, in_service := []\<rparr>
      else if v = PIC_EOI then p\<lparr>in_service := tl (in_service p)\<rparr> else p)"

definition pic_data :: "u8 \<Rightarrow> pic \<Rightarrow> pic" where
  "pic_data v p =
     (if pic_step p = 2 then p\<lparr>pic_offset := v, pic_step := 3\<rparr>
      else if pic_step p = 3 then p\<lparr>pic_cascade := v, pic_step := 4\<rparr>
      else if pic_step p = 4 then p\<lparr>pic_mode := v, pic_step := 0\<rparr>
      else p\<lparr>pic_mask := v\<rparr>)"

definition pic_bus :: "'h port_io \<Rightarrow> ('h \<Rightarrow> pics) \<Rightarrow> bool" where
  "pic_bus P V \<longleftrightarrow> (\<forall>h v.
     V (out_b P PIC1_COMMAND v h) = (V h)\<lparr>pic1 := pic_command v (pic1 (V h))\<rparr> \<and>
     V (out_b P PIC2_COMMAND v h) = (V h)\<lparr>pic2 := pic_command v (pic2 (V h))\<rparr> \<and>
     V (out_b P PIC1_DATA v h) = (V h)\<lparr>pic1 := pic_data v (pic1 (V h))\<rparr> \<and>
     V (out_b P PIC2_DATA v h) = (V h)\<lparr>pic2 := pic_data v (pic2 (V h))\<rparr> \<and>
     V (out_b P 0x80 v h) = V h \<and> V (snd (in_b P 0x60 h)) = V h \<and>
     (pic_step (pic1 (V h)) = 0 \<longrightarrow> fst (in_b P PIC1_DATA h) = pic_mask (pic1 (V h)) \<and> V (snd (in_b P PIC1_DATA h)) = V h) \<and>
     (pic_step (pic2 (V h)) = 0 \<longrightarrow> fst (in_b P PIC2_DATA h) = pic_mask (pic2 (V h)) \<and> V (snd (in_b P PIC2_DATA h)) = V h))"

text \<open>Line \<open>i\<close> of 16 is accepted by the processor: the lines from 8 on come through line 2 of the first controller.\<close>

definition raised :: "nat \<Rightarrow> pics \<Rightarrow> pics" where
  "raised i p =
     (if i < 8 then p\<lparr>pic1 := (pic1 p)\<lparr>in_service := i # in_service (pic1 p)\<rparr>\<rparr>
      else p\<lparr>pic1 := (pic1 p)\<lparr>in_service := 2 # in_service (pic1 p)\<rparr>, pic2 := (pic2 p)\<lparr>in_service := (i - 8) # in_service (pic2 p)\<rparr>\<rparr>)"

lemma bit4 [simp]: "bit (0x11 :: u8) 4" "\<not> bit (0x20 :: u8) 4"
  by (simp_all add: bit_iff_odd)

lemma pic_bus_simps:
  assumes "pic_bus P V"
  shows "V (out_b P PIC1_COMMAND v h) = (V h)\<lparr>pic1 := pic_command v (pic1 (V h))\<rparr>"
    "V (out_b P PIC2_COMMAND v h) = (V h)\<lparr>pic2 := pic_command v (pic2 (V h))\<rparr>"
    "V (out_b P PIC1_DATA v h) = (V h)\<lparr>pic1 := pic_data v (pic1 (V h))\<rparr>"
    "V (out_b P PIC2_DATA v h) = (V h)\<lparr>pic2 := pic_data v (pic2 (V h))\<rparr>"
    "V (io_wait P h) = V h" "V (snd (in_b P 0x60 h)) = V h"
    "pic_step (pic1 (V h)) = 0 \<Longrightarrow> fst (in_b P PIC1_DATA h) = pic_mask (pic1 (V h)) \<and> V (snd (in_b P PIC1_DATA h)) = V h"
    "pic_step (pic2 (V h)) = 0 \<Longrightarrow> fst (in_b P PIC2_DATA h) = pic_mask (pic2 (V h)) \<and> V (snd (in_b P PIC2_DATA h)) = V h"
  using assms unfolding pic_bus_def io_wait_def by blast+

lemma pic_init_remaps:
  assumes "pic_bus P V" "pic_step (pic1 (V h)) = 0" "pic_step (pic2 (V h)) = 0"
  shows "V (pic_init P h) =
    \<lparr>pic1 = (pic1 (V h))\<lparr>pic_offset := 32, pic_cascade := 4, pic_mode := 1, in_service := []\<rparr>,
     pic2 = (pic2 (V h))\<lparr>pic_offset := 40, pic_cascade := 2, pic_mode := 1, in_service := []\<rparr>\<rparr>"
proof -
  note s = pic_bus_simps[OF assms(1)]
  obtain m1 h1 where h1: "in_b P PIC1_DATA h = (m1, h1)" by force
  then have v1: "m1 = pic_mask (pic1 (V h))" "V h1 = V h" using s(7)[OF assms(2)] by simp_all
  obtain m2 h2 where h2: "in_b P PIC2_DATA h1 = (m2, h2)" by force
  then have v2: "m2 = pic_mask (pic2 (V h))" "V h2 = V h" using s(8)[of h1] v1(2) assms(3) by simp_all
  have icw: "pic_command (ICW1_INIT OR ICW1_ICW4) p = p\<lparr>pic_step := 2, pic_mask := 0, in_service := []\<rparr>" for p
    by (simp add: pic_command_def ICW1_INIT_def ICW1_ICW4_def)
  show ?thesis unfolding pic_init_def h1 h2 Let_def prod.case s(1-5)
    using assms(2,3) by (simp add: icw v1 v2 pic_data_def ICW4_8086_def)
qed

lemma eoi_command [simp]: "pic_command PIC_EOI p = p\<lparr>in_service := tl (in_service p)\<rparr>"
  by (simp add: pic_command_def PIC_EOI_def)

lemma eoi_run:
  assumes "pic_bus P V" "i < 16" "V h = raised i p"
  shows "V (pic_send_eoi P (of_nat i) h) = p"
proof -
  have "(of_nat i :: u8) \<ge> 8 \<longleftrightarrow> 8 \<le> i"
    using assms(2) by (simp add: word_le_nat_alt unat_of_nat take_bit_nat_eq_self)
  then show ?thesis
    unfolding pic_send_eoi_def Let_def by (simp add: pic_bus_simps[OF assms(1)] assms(3) raised_def)
qed

section \<open>The clock\<close>

text \<open>A text written over the cells from the \<open>k\<close>-th on.\<close>

fun put_cells :: "nat \<Rightarrow> cstring \<Rightarrow> bytes \<Rightarrow> bytes" where
  "put_cells k [] v = v"
| "put_cells k (ch # str) v = put_cells (Suc k) str (v[2 * k := ch, Suc (2 * k) := 0x07])"

lemma put_cells_append: "put_cells k (xs @ ys) v = put_cells (k + length xs) ys (put_cells k xs v)"
  by (induction xs arbitrary: k v) simp_all

lemma length_put_cells [simp]: "length (put_cells k str v) = length v"
  by (induction str arbitrary: k v) simp_all

lemma print_char_top:
  assumes "length (vga c) = 4000" "k < 2000"
  shows "print_char ch (int k) 0 c = Some (c\<lparr>vga := put_cells k [ch] (vga c)\<rparr>)"
proof -
  have "nat (int k * 2) = 2 * k" "nat (int k * 2 + 1) = Suc (2 * k)" by simp_all
  then show ?thesis using assms by (simp add: print_char_def vga_set_def)
qed

lemma print_string_top:
  assumes "length (vga c) = 4000" "k + length str \<le> 2000"
  shows "print_string_from str (int k) 0 c = Some (c\<lparr>vga := put_cells k str (vga c)\<rparr>)"
  using assms
proof (induction str arbitrary: k c)
  case (Cons ch str)
  have "print_string_from str (int k + 1) 0 (c\<lparr>vga := put_cells k [ch] (vga c)\<rparr>) =
      Some (c\<lparr>vga := put_cells (Suc k) str (put_cells k [ch] (vga c))\<rparr>)"
    using Cons.IH[of "c\<lparr>vga := put_cells k [ch] (vga c)\<rparr>" "Suc k"] Cons.prems by (simp add: add.commute)
  then show ?case using print_char_top[of c k ch] Cons.prems by simp
qed simp

lemma blank_top:
  "length (vga c) = 4000 \<Longrightarrow> k + n \<le> 2000 \<Longrightarrow>
    for_range k n (\<lambda>i. print_char 32 (int i) 0) c = Some (c\<lparr>vga := put_cells k (replicate n 32) (vga c)\<rparr>)"
proof (induction n arbitrary: k c)
  case (Suc n)
  then show ?case using print_char_top[of c k 32] Suc.IH[of "c\<lparr>vga := put_cells k [32] (vga c)\<rparr>" "Suc k"] by simp
qed simp

definition clock_text :: "u32 \<Rightarrow> cstring" where
  "clock_text ticks = cstr ''Time: '' @ uint32_to_str (ticks div 18) @ cstr ''s''"

text \<open>
  The clock is right for every number of ticks. The 12 cells at the end of the first line hold it up to 99999 seconds; from then on,
  after 27 hours, its end stands in the second line.
\<close>

lemma clock_shown:
  assumes "length (vga c) = 4000" "length before = 20"
  shows "show_clock before ticks c = Some (c\<lparr>vga := put_cells 68 (clock_text ticks) (put_cells 68 (replicate 12 32) (vga c))\<rparr>)"
proof -
  have "unat ticks div 18 < 2147483648" by (rule less_mult_imp_div_less) (use unat_lt_32'[of ticks] in linarith)
  then have "unat (ticks div 18) < 2 ^ 31" by (simp add: unat_div)
  then obtain b where b: "shell_int_to_str (ticks div 18) before = Some b" "buf_string b = uint32_to_str (ticks div 18)"
    using shell_int_to_str_small[of before "ticks div 18"] assms(2) by auto
  let ?u = "uint32_to_str (ticks div 18)"
  have len: "length ?u \<le> 10" by (rule length_uint32_to_str)
  note top = print_string_top[of _ 68] print_string_top[of _ 74] print_char_top[of _ 73] print_char_top[of _ "74 + length ?u"] blank_top[of _ 68 12]
  have ct: "clock_text ticks = cstr ''Time:'' @ [32] @ ?u @ [115]" by (simp add: clock_text_def cstr_def)
  have n: "length (cstr ''Time:'') = 5" by simp
  show ?thesis
    unfolding show_clock_def ct Let_def using assms(1) len b top n by (simp add: put_cells_append del: cstr_simps)
qed

section \<open>Interrupts\<close>

definition interrupts_ok :: "ptr list \<Rightarrow> 'h interrupts \<Rightarrow> bool" where
  "interrupts_ok ts s \<longleftrightarrow> con_ok (ir_con s) \<and> task_wf (ir_tasks s) ts \<and> kb_inv (ir_kb s)"

lemma irq_handler_run:
  assumes "interrupts_ok ts s" "length before = 20"
  obtains s' ts' where "irq_handler P before int_no s = Some s'" "interrupts_ok ts' s'" "set ts' = set ts"
    "timer_ticks s' = timer_ticks s + (if int_no = 32 then 1 else 0)"
    "int_no \<noteq> 33 \<longrightarrow> ir_kb s' = ir_kb s" "int_no \<noteq> 32 \<longrightarrow> ir_tasks s' = ir_tasks s \<and> ir_con s' = ir_con s"
    "current_task (ir_tasks s') = current_task (ir_tasks s) \<longrightarrow>
       ir_hw s' = pic_send_eoi P (ucast (int_no - 32)) (if int_no = 33 then snd (in_b P 0x60 (ir_hw s)) else ir_hw s)"
    "current_task (ir_tasks s') \<noteq> current_task (ir_tasks s) \<longrightarrow> int_no = 32 \<and> ir_hw s' = ir_hw s"
proof -
  note ok = assms(1)[unfolded interrupts_ok_def]
  consider "int_no = 32" | "int_no = 33" | "int_no \<noteq> 32" "int_no \<noteq> 33" by blast
  then show thesis
  proof cases
    case 1
    obtain k ts' where k: "task_schedule (ir_tasks s) = Some k" "task_wf k ts'" "set ts' = set ts"
      using task_schedule_total ok by metis
    obtain c where c: "(if (timer_ticks s + 1) mod 18 = 0 then show_clock before (timer_ticks s + 1) (ir_con s) else Some (ir_con s)) = Some c" "con_ok c"
    proof (cases "(timer_ticks s + 1) mod 18 = 0")
      case True
      have "length (vga (ir_con s)) = 4000" using ok by (simp add: con_ok_def)
      from clock_shown[OF this assms(2)] ok True show ?thesis by (intro that) (auto simp: con_ok_def)
    qed (use ok in \<open>intro that, auto\<close>)
    let ?s = "s\<lparr>timer_ticks := timer_ticks s + 1, ir_con := c, ir_tasks := k\<rparr>"
    have t: "timer_interrupt before s = Some ?s" using k(1) c(1) by (auto simp: timer_interrupt_def Let_def split: if_splits)
    show ?thesis
      using 1 t k c ok by (intro that[of "if current_task k \<noteq> current_task (ir_tasks s) then ?s else irq_return P int_no ?s" ts'])
        (simp_all add: irq_handler_def irq_return_def interrupts_ok_def)
  next
    case 2
    obtain sc h where h: "in_b P 0x60 (ir_hw s) = (sc, h)" by force
    obtain e m where "key_event sc (modifiers (ir_kb s)) = (e, m)"
      by (cases "key_event sc (modifiers (ir_kb s))") blast
    then obtain k where k: "keyboard_handler sc (ir_kb s) = Some k" "kb_inv k" using handler_event ok by blast
    have t: "keyboard_interrupt P s = Some (s\<lparr>ir_kb := k, ir_hw := h\<rparr>)" using h k(1) by (simp add: keyboard_interrupt_def)
    show ?thesis
      using 2 t h k ok by (intro that[of "irq_return P int_no (s\<lparr>ir_kb := k, ir_hw := h\<rparr>)" ts])
        (simp_all add: irq_handler_def irq_return_def interrupts_ok_def)
  next
    case 3
    then show ?thesis
      using ok by (intro that[of "irq_return P int_no s" ts]) (simp_all add: irq_handler_def irq_return_def interrupts_ok_def)
  qed
qed

text \<open>\<open>tick_str\<close> is what the buffer of the clock held at an interrupt.\<close>

fun interrupts_run :: "'h port_io \<Rightarrow> (bytes \<times> u32) list \<Rightarrow> 'h interrupts \<Rightarrow> 'h interrupts option" where
  "interrupts_run P [] s = Some s"
| "interrupts_run P ((tick_str, int_no) # ns) s = do { s \<leftarrow> irq_handler P tick_str int_no s; interrupts_run P ns s }"



section \<open>A sample system\<close>

definition ideal_pics :: "pics port_io" where
  "ideal_pics = \<lparr>
     in_b = (\<lambda>port p. (if port = 0x21 then pic_mask (pic1 p) else if port = 0xA1 then pic_mask (pic2 p) else 0x1E, p)),
     in_w = (\<lambda>port p. (0, p)),
     out_b = (\<lambda>port v p.
       if port = 0x20 then p\<lparr>pic1 := pic_command v (pic1 p)\<rparr>
       else if port = 0x21 then p\<lparr>pic1 := pic_data v (pic1 p)\<rparr>
       else if port = 0xA0 then p\<lparr>pic2 := pic_command v (pic2 p)\<rparr>
       else if port = 0xA1 then p\<lparr>pic2 := pic_data v (pic2 p)\<rparr> else p),
     out_w = (\<lambda>port w p. p)\<rparr>"

lemma ideal_pics_bus: "pic_bus ideal_pics (\<lambda>p. p)"
  by (simp add: pic_bus_def ideal_pics_def PIC1_COMMAND_def PIC1_DATA_def PIC2_COMMAND_def PIC2_DATA_def)

definition sample_pics :: pics where
  "sample_pics = (let p = \<lparr>pic_step = 0, pic_offset = 32, pic_cascade = 4, pic_mode = 1, pic_mask = 0, in_service = []\<rparr> in
     \<lparr>pic1 = p, pic2 = p\<lparr>pic_offset := 40, pic_cascade := 2\<rparr>\<rparr>)"

definition sample_interrupts :: "nat \<Rightarrow> pics interrupts" where
  "sample_interrupts i = \<lparr>timer_ticks = 35, ir_con = blank_console, ir_tasks = idle_tasking, ir_kb = sample_keyboard,
     ir_hw = raised i sample_pics\<rparr>"

lemma sample_interrupts_ok: "interrupts_ok [0x40000C] (sample_interrupts i)"
  using on_screen_ok[OF blank_shows] idle_tasking_facts(2) sample_keyboard_facts(1) by (simp add: interrupts_ok_def sample_interrupts_def)



end
