(* ===== verification/Exec.thy ===== *)
theory Exec
  imports Vfs Paging Task
begin

text \<open>
  The program loader (\<open>src/src/fs/exec.c\<close>): a file with a header of six words is read into fresh pages of a new address space. It
  calls the virtual file system, the page tables, the frames and the current task. After the switch to the new directory the processor
  reads instructions and memory through it, which \<open>mmu\<close> models; the theory shows that the new directory has no page for the
  kernel, which is linked at 1 MiB and mapped below 16 MiB, so that a program with a valid header is never started.
\<close>

section \<open>State\<close>

record exec_header =
  eh_magic :: u32
  eh_entry :: u32
  eh_text_size :: u32
  eh_data_size :: u32
  eh_bss_size :: u32
  eh_stack_size :: u32

definition exec_header_of :: "bytes \<Rightarrow> exec_header" where
  "exec_header_of b = \<lparr>eh_magic = of_le32 b, eh_entry = of_le32 (drop 4 b), eh_text_size = of_le32 (drop 8 b),
     eh_data_size = of_le32 (drop 12 b), eh_bss_size = of_le32 (drop 16 b), eh_stack_size = of_le32 (drop 20 b)\<rparr>"

definition EXEC_MAGIC :: u32 where "EXEC_MAGIC = 0x45584543"
definition USER_TEXT_START :: ptr where "USER_TEXT_START = 0x08000000"
definition USER_DATA_START :: ptr where "USER_DATA_START = 0x08100000"
definition USER_STACK_TOP :: ptr where "USER_STACK_TOP = 0x0A000000"
definition PAGE_USER :: u32 where "PAGE_USER = 0x04"

text \<open>The kernel heap is the one of \<open>ex_fs\<close>.\<close>

record 'd exec =
  ex_fs :: "'d fs"
  ex_pg :: paging
  ex_tasks :: tasking

section \<open>Memory through the page tables\<close>

text \<open>The address that the processor reaches at a virtual address: none is a page fault.\<close>

definition mmu :: "ptr \<Rightarrow> paging \<Rightarrow> ptr option" where
  "mmu a s =
     (if cr0 s AND 0x80000000 = 0 then Some a
      else
        (let e = phys s (entry_addr (cr3 s AND 0xFFFFF000) (dir_index a)) in
         if e AND PAGE_PRESENT = 0 then None
         else
           (let p = phys s (entry_addr (e AND 0xFFFFF000) (table_index a)) in
            if p AND PAGE_PRESENT = 0 then None else Some ((p AND 0xFFFFF000) OR (a AND 0xFFF)))))"

definition store_user :: "ptr \<Rightarrow> u8 \<Rightarrow> paging \<Rightarrow> paging option" where
  "store_user a b s = do {
     pa \<leftarrow> mmu a s;
     let w = pa AND 0xFFFFFFFC;
     let k = 8 * unat (pa AND 3);
     Some (s\<lparr>phys := (phys s)(w := (phys s w AND NOT (push_bit k 0xFF)) OR push_bit k (ucast b))\<rparr>)
   }"

fun store_all :: "ptr \<Rightarrow> bytes \<Rightarrow> paging \<Rightarrow> paging option" where
  "store_all a [] s = Some s"
| "store_all a (b # bs) s = do { s \<leftarrow> store_user a b s; store_all (a + 1) bs s }"

section \<open>Loading\<close>

text \<open>Page \<open>i\<close> and the following ones, \<open>n\<close> in all, from \<open>start\<close> on, in fresh frames; false when no frame is left.\<close>

definition map_fresh :: "ptr \<Rightarrow> paging \<Rightarrow> (bool \<times> paging) option" where
  "map_fresh virt s = do {
     (pa, f) \<leftarrow> pmm_alloc_block (pg_frames s);
     let s = s\<lparr>pg_frames := f\<rparr>;
     if pa = NULL then Some (False, s)
     else do { s \<leftarrow> paging_map_page pa virt (PAGE_PRESENT OR PAGE_WRITE OR PAGE_USER) s; Some (True, s) }
   }"

fun map_section :: "ptr \<Rightarrow> nat \<Rightarrow> nat \<Rightarrow> paging \<Rightarrow> (bool \<times> paging) option" where
  "map_section start i 0 s = Some (True, s)"
| "map_section start i (Suc n) s = do {
     (ok, s) \<leftarrow> map_fresh (start + of_nat i * 0x1000) s;
     if \<not> ok then Some (False, s) else map_section start (Suc i) n s
   }"

fun map_bss :: "ptr \<Rightarrow> nat \<Rightarrow> nat \<Rightarrow> paging \<Rightarrow> (bool \<times> paging) option" where
  "map_bss start i 0 s = Some (True, s)"
| "map_bss start i (Suc n) s = do {
     (ok, s) \<leftarrow> map_fresh (start + of_nat i * 0x1000) s;
     if \<not> ok then Some (False, s)
     else do {
       s \<leftarrow> store_all (start + of_nat i * 0x1000) (replicate (4 * 1024) 0) s;
       map_bss start (Suc i) n s
     }
   }"

definition pages_of :: "u32 \<Rightarrow> nat" where
  "pages_of sz = unat ((sz + 0xFFF) div 0x1000)"

definition read_section :: "kernel_info \<Rightarrow> ptr \<Rightarrow> ptr \<Rightarrow> u32 \<Rightarrow> 'd exec \<Rightarrow> 'd exec option" where
  "read_section k f start sz s = do {
     (r, bs, fs) \<leftarrow> vfs_read k f sz (ex_fs s);
     pg \<leftarrow> store_all start bs (ex_pg s);
     Some (s\<lparr>ex_fs := fs, ex_pg := pg\<rparr>)
   }"

text \<open>The pages of a section and its contents.\<close>

definition load_section :: "kernel_info \<Rightarrow> ptr \<Rightarrow> ptr \<Rightarrow> u32 \<Rightarrow> 'd exec \<Rightarrow> (bool \<times> 'd exec) option" where
  "load_section k f start sz s = do {
     (ok, pg) \<leftarrow> map_section start 0 (pages_of sz) (ex_pg s);
     let s = s\<lparr>ex_pg := pg\<rparr>;
     if \<not> ok then Some (False, s)
     else do { s \<leftarrow> (if sz > 0 then read_section k f start sz s else Some s); Some (True, s) }
   }"

definition load_image :: "kernel_info \<Rightarrow> ptr \<Rightarrow> exec_header \<Rightarrow> 'd exec \<Rightarrow> (bool \<times> 'd exec) option" where
  "load_image k f header s = do {
     (ok, s) \<leftarrow> load_section k f USER_TEXT_START (eh_text_size header) s;
     if \<not> ok then Some (False, s)
     else do {
       (ok, s) \<leftarrow> (if eh_data_size header > 0 then load_section k f USER_DATA_START (eh_data_size header) s else Some (True, s));
       if \<not> ok then Some (False, s)
       else do {
         (ok, pg) \<leftarrow> (if eh_bss_size header > 0
           then map_bss (USER_DATA_START + eh_data_size header) 0 (pages_of (eh_bss_size header)) (ex_pg s)
           else Some (True, ex_pg s));
         let s = s\<lparr>ex_pg := pg\<rparr>;
         if \<not> ok then Some (False, s)
         else do {
           let stack_size = (if eh_stack_size header > 0 then eh_stack_size header else 0x4000);
           (ok, pg) \<leftarrow> map_section (USER_STACK_TOP - stack_size) 0 (pages_of stack_size) (ex_pg s);
           Some (ok, s\<lparr>ex_pg := pg\<rparr>)
         }
       }
     }
   }"

text \<open>The directory of the program: a new one for a task in the kernel's, else that of the task without its user pages.\<close>

definition share_kernel :: "ptr \<Rightarrow> ptr \<Rightarrow> (ptr \<Rightarrow> u32) \<Rightarrow> (ptr \<Rightarrow> u32)" where
  "share_kernel kernel_dir new_dir m = fold (\<lambda>i m. m(entry_addr new_dir i := m (entry_addr kernel_dir i))) [768..<1024] m"

definition fresh_directory :: "paging \<Rightarrow> (ptr \<times> paging) option" where
  "fresh_directory s = do {
     (new_dir, f) \<leftarrow> pmm_alloc_block (pg_frames s);
     let s = s\<lparr>pg_frames := f\<rparr>;
     if new_dir = NULL then Some (NULL, s)
     else Some (new_dir, s\<lparr>phys := share_kernel (paging_get_kernel_directory s) new_dir (clear_page new_dir (phys s))\<rparr>)
   }"

definition clear_directory :: "ptr \<Rightarrow> paging \<Rightarrow> paging option" where
  "clear_directory dir = for_range 0 768 (\<lambda>i s.
     let e = phys s (entry_addr dir i) in
     if e AND 1 \<noteq> 0
     then do {
       f \<leftarrow> pmm_free_block (e AND 0xFFFFF000) (pg_frames s);
       Some (s\<lparr>pg_frames := f, phys := (phys s)(entry_addr dir i := 0)\<rparr>)
     }
     else Some s)"

definition exec_directory :: "ptr \<Rightarrow> paging \<Rightarrow> (ptr \<times> paging) option" where
  "exec_directory old_dir s =
     (if old_dir = paging_get_kernel_directory s \<or> old_dir = NULL then fresh_directory s
      else do { s \<leftarrow> clear_directory old_dir s; Some (old_dir, s) })"

text \<open>
  The switch. \<open>here\<close> is the address of the instruction after it: without a page there the processor cannot go on.
\<close>

definition enter_directory :: "ptr \<Rightarrow> ptr \<Rightarrow> ptr \<Rightarrow> 'd exec \<Rightarrow> 'd exec option" where
  "enter_directory here current new_dir s = do {
     ts \<leftarrow> task_upd current (\<lambda>t. t\<lparr>t_regs := (t_regs t)\<lparr>r_cr3 := new_dir\<rparr>\<rparr>) (ex_tasks s);
     let pg = paging_switch_directory new_dir (ex_pg s);
     require (mmu here pg \<noteq> None);
     Some (s\<lparr>ex_tasks := ts, ex_pg := pg\<rparr>)
   }"

definition start_program :: "exec_header \<Rightarrow> cstring option list option \<Rightarrow> task \<Rightarrow> task" where
  "start_program header argv t =
     (let t = t\<lparr>t_regs := (t_regs t)\<lparr>r_eip := eh_entry header, r_esp := USER_STACK_TOP, r_ebp := USER_STACK_TOP, r_eax := 0,
            r_ebx := 0, r_ecx := 0, r_edx := 0, r_esi := 0, r_edi := 0, r_eflags := 0x202\<rparr>\<rparr> in
      case argv of Some (Some arg # _) \<Rightarrow> t\<lparr>t_name := take 31 arg\<rparr> | _ \<Rightarrow> t)"

definition exec_fail :: "ptr \<Rightarrow> 'd exec \<Rightarrow> (int \<times> 'd exec) option" where
  "exec_fail f s = do { (r, fs) \<leftarrow> vfs_close f (ex_fs s); Some (- 1, s\<lparr>ex_fs := fs\<rparr>) }"

definition exec_load ::
  "kernel_info \<Rightarrow> ptr \<Rightarrow> cstring option \<Rightarrow> cstring option list option \<Rightarrow> 'd exec \<Rightarrow> (int \<times> 'd exec) option" where
  "exec_load k here name argv s =
     (case name of None \<Rightarrow> Some (- 1, s) | Some pathname \<Rightarrow> do {
        (f, fs) \<leftarrow> vfs_open pathname 0 (ex_fs s);
        let s = s\<lparr>ex_fs := fs\<rparr>;
        if f = NULL then Some (- 1, s)
        else do {
          (r, bs, fs) \<leftarrow> vfs_read k f 24 (ex_fs s);
          let s = s\<lparr>ex_fs := fs\<rparr>;
          if r \<noteq> 24 then exec_fail f s
          else if eh_magic (exec_header_of bs) \<noteq> EXEC_MAGIC then exec_fail f s
          else if task_get_current (ex_tasks s) = NULL then exec_fail f s
          else do {
            let current = task_get_current (ex_tasks s);
            t \<leftarrow> task_mem (ex_tasks s) current;
            (new_dir, pg) \<leftarrow> exec_directory (r_cr3 (t_regs t)) (ex_pg s);
            let s = s\<lparr>ex_pg := pg\<rparr>;
            if new_dir = NULL then exec_fail f s
            else do {
              s \<leftarrow> enter_directory here current new_dir s;
              (ok, s) \<leftarrow> load_image k f (exec_header_of bs) s;
              if \<not> ok then exec_fail f s
              else do {
                (r, fs) \<leftarrow> vfs_close f (ex_fs s);
                ts \<leftarrow> task_upd current (start_program (exec_header_of bs) argv) (ex_tasks s);
                Some (0, s\<lparr>ex_fs := fs, ex_tasks := ts\<rparr>)
              }
            }
          }
        }
      })"

definition sys_execve ::
  "kernel_info \<Rightarrow> ptr \<Rightarrow> cstring option \<Rightarrow> cstring option list option \<Rightarrow> 'd exec \<Rightarrow> (int \<times> 'd exec) option" where
  "sys_execve k here name argv s = do {
     (result, s) \<leftarrow> exec_load k here name argv s;
     Some (if result < 0 then - 1 else 0, s)
   }"

section \<open>The kernel is not mapped\<close>

lemma alloc_aligned: "pmm_alloc_block s = Some (p, s') \<Longrightarrow> aligned p"
proof -
  assume a: "pmm_alloc_block s = Some (p, s')"
  have "unat (x * 4096 :: u32) mod 4096 = 0" for x
    unfolding unat_word_ariths by (simp add: mod_mod_cancel)
  then have m: "aligned (x * PAGE_SIZE)" for x :: u32 by (simp add: aligned_def)
  have "aligned (0 :: u32)" by (simp add: aligned_def)
  then show ?thesis using a m by (auto simp: pmm_alloc_block_def bind_eq_Some_conv Let_def simp del: PAGE_SIZE_eq split: if_splits)
qed

lemma fresh_directory_run:
  assumes "fresh_directory s = Some (d, s')" "d \<noteq> NULL"
  shows "aligned d" "\<forall>i<768. phys s' (entry_addr d i) AND PAGE_PRESENT = 0" "cr0 s' = cr0 s"
proof -
  let ?m = "share_kernel (kernel_directory s) d (clear_page d (phys s))"
  obtain p f where f: "pmm_alloc_block (pg_frames s) = Some (p, f)"
    using assms(1) by (cases "pmm_alloc_block (pg_frames s)") (auto simp: fresh_directory_def)
  then have "p = d" "s' = s\<lparr>pg_frames := f, phys := ?m\<rparr>"
    using assms by (cases "p = NULL"; simp add: fresh_directory_def paging_get_kernel_directory_def Let_def)+
  note f = f[unfolded this(1)] this(2)
  show a: "aligned d" using alloc_aligned[OF f(1)] .
  have "?m (entry_addr d i) = 0" if "i < 768" for i
  proof -
    have "?m (entry_addr d i) = clear_page d (phys s) (entry_addr d i)"
      unfolding share_kernel_def using a that by (intro fold_words_miss) (auto simp: entry_addr_eq)
    then show ?thesis using a that by (simp add: clear_page_hit)
  qed
  then show "\<forall>i<768. phys s' (entry_addr d i) AND PAGE_PRESENT = 0" "cr0 s' = cr0 s" unfolding f(2) by simp_all
qed

lemma for_range_keeps:
  assumes "for_range i n f s = Some s'" "I i s"
    and "\<And>j s s'. i \<le> j \<Longrightarrow> j < i + n \<Longrightarrow> I j s \<Longrightarrow> f j s = Some s' \<Longrightarrow> I (Suc j) s'"
  shows "I (i + n) s'"
  using assms
proof (induction n arbitrary: i s)
  case (Suc n)
  obtain t where t: "f i s = Some t" "for_range (Suc i) n f t = Some s'" using Suc.prems(1) by (auto simp: bind_eq_Some_conv)
  have "I (Suc i) t" using Suc.prems(3)[of i s t] Suc.prems(2) t(1) by simp
  note IH = Suc.IH[OF t(2) this]
  have "I (Suc i + n) s'" by (rule IH) (rule Suc.prems(3); simp)
  then show ?case by simp
qed simp

lemma clear_directory_run:
  assumes "clear_directory d s = Some s'" "aligned d"
  shows "(\<forall>i<768. phys s' (entry_addr d i) AND PAGE_PRESENT = 0) \<and> cr0 s' = cr0 s"
proof -
  let ?I = "\<lambda>j t. (\<forall>i<j. phys t (entry_addr d i) AND PAGE_PRESENT = 0) \<and> cr0 t = cr0 s"
  have "?I (0 + 768) s'"
  proof (rule for_range_keeps[OF assms(1)[unfolded clear_directory_def]])
    fix j t t'
    assume j: "j < 0 + 768" and I: "?I j t"
      and r: "(let e = phys t (entry_addr d j) in
        if e AND 1 \<noteq> 0
        then do {
          f \<leftarrow> pmm_free_block (e AND 0xFFFFF000) (pg_frames t);
          Some (t\<lparr>pg_frames := f, phys := (phys t)(entry_addr d j := 0)\<rparr>)
        }
        else Some t) = Some t'"
    show "?I (Suc j) t'"
    proof (cases "phys t (entry_addr d j) AND 1 = 0")
      case True
      then show ?thesis using r I by (auto simp: less_Suc_eq PAGE_PRESENT_def)
    next
      case False
      then obtain f where "t' = t\<lparr>pg_frames := f, phys := (phys t)(entry_addr d j := 0)\<rparr>" using r by (auto simp: bind_eq_Some_conv Let_def)
      then show ?thesis using I by (auto simp: less_Suc_eq)
    qed
  qed simp
  then show ?thesis by simp
qed

text \<open>An address below 3 GiB belongs to one of the first 768 entries of a directory.\<close>

lemma mmu_absent:
  assumes "cr0 s AND 0x80000000 \<noteq> 0" "aligned (cr3 s)" "\<forall>i<768. phys s (entry_addr (cr3 s) i) AND PAGE_PRESENT = 0"
    and "unat a < 3 * 2 ^ 30"
  shows "mmu a s = None"
proof -
  have "vpn a div 1024 < 768" using assms(4) by (simp add: vpn_def div_mult2_eq[symmetric] less_mult_imp_div_less)
  moreover have "cr3 s AND 0xFFFFF000 = cr3 s"
    using assms(2) unfolding aligned_def by (metis mod_0_imp_dvd dvd_mult_div_cancel unat_inject unat_page)
  ultimately show ?thesis using assms(1,3) by (simp add: mmu_def)
qed

lemma enter_directory_fails:
  assumes "exec_directory old (ex_pg s) = Some (d, pg)" "d \<noteq> NULL" "aligned old"
    and "cr0 (ex_pg s) AND 0x80000000 \<noteq> 0" "unat here < 3 * 2 ^ 30"
  shows "enter_directory here current d (s\<lparr>ex_pg := pg\<rparr>) = None"
proof -
  have "aligned d \<and> (\<forall>i<768. phys pg (entry_addr d i) AND PAGE_PRESENT = 0) \<and> cr0 pg = cr0 (ex_pg s)"
  proof (cases "old = kernel_directory (ex_pg s) \<or> old = NULL")
    case True
    then show ?thesis
      using fresh_directory_run[of "ex_pg s" d pg] assms(1,2) by (simp add: exec_directory_def paging_get_kernel_directory_def)
  next
    case False
    then show ?thesis using clear_directory_run[of old "ex_pg s" pg] assms(1,3)
      by (auto simp: exec_directory_def paging_get_kernel_directory_def bind_eq_Some_conv)
  qed
  then have "mmu here (paging_switch_directory d pg) = None"
    using assms(4,5) by (intro mmu_absent) (simp_all add: paging_switch_directory_def)
  then show ?thesis by (simp add: enter_directory_def Let_def bind_eq_None_conv)
qed

text \<open>
  C39. A program is never started: when paging is on and the loader itself lies below 3 GiB, as it does, no call of it succeeds, whatever
  the file. It refuses the file, or the switch to the new directory, which shares the entries from 3 GiB on only, takes away
  the page of its next instruction. In no case are the registers of the task changed by a call that returns.
\<close>

theorem exec_never_starts:
  assumes "exec_load k here name argv s = Some (r, s')" "cr0 (ex_pg s) AND 0x80000000 \<noteq> 0"
    and "unat here < 3 * 2 ^ 30" "\<forall>t. task_mem (ex_tasks s) (current_task (ex_tasks s)) = Some t \<longrightarrow> aligned (r_cr3 (t_regs t))"
  shows "r = - 1 \<and> ex_tasks s' = ex_tasks s"
proof -
  have fail: "r = - 1 \<and> ex_tasks s' = ex_tasks u" if "exec_fail f u = Some (r, s')" for f and u :: "'a exec"
    using that by (auto simp: exec_fail_def bind_eq_Some_conv)
  show ?thesis
  proof (cases name)
    case None
    then show ?thesis using assms(1) by (simp add: exec_load_def)
  next
    case (Some pathname)
    obtain f fs where o: "vfs_open pathname 0 (ex_fs s) = Some (f, fs)"
      using assms(1) Some by (cases "vfs_open pathname 0 (ex_fs s)") (auto simp: exec_load_def)
    show ?thesis
    proof (cases "f = NULL")
      case True
      then show ?thesis using assms(1) Some o by (auto simp: exec_load_def)
    next
      case fN: False
      obtain n bs fs' where rd: "vfs_read k f 24 fs = Some (n, bs, fs')"
        using assms(1) Some o fN by (cases "vfs_read k f 24 fs") (auto simp: exec_load_def)
      let ?u = "s\<lparr>ex_fs := fs'\<rparr>"
      show ?thesis
      proof (cases "n \<noteq> 24 \<or> eh_magic (exec_header_of bs) \<noteq> EXEC_MAGIC \<or> task_get_current (ex_tasks s) = NULL")
        case True
        have "task_get_current (ex_tasks ?u) = task_get_current (ex_tasks s)" by simp
        with True have "exec_fail f ?u = Some (r, s')" using assms(1) Some o fN rd by (simp add: exec_load_def Let_def split: if_splits)
        then show ?thesis using fail by fastforce
      next
        case ok: False
        let ?c = "task_get_current (ex_tasks s)"
        obtain t where t: "task_mem (ex_tasks s) ?c = Some t"
          using assms(1) Some o fN rd ok by (cases "task_mem (ex_tasks s) ?c") (auto simp: exec_load_def Let_def)
        obtain d pg where d: "exec_directory (r_cr3 (t_regs t)) (ex_pg s) = Some (d, pg)"
          using assms(1) Some o fN rd ok t by (cases "exec_directory (r_cr3 (t_regs t)) (ex_pg s)") (auto simp: exec_load_def Let_def)
        show ?thesis
        proof (cases "d = NULL")
          case True
          then have "exec_fail f (?u\<lparr>ex_pg := pg\<rparr>) = Some (r, s')"
            using assms(1) Some o fN rd ok t d by (auto simp: exec_load_def Let_def)
          then show ?thesis using fail by fastforce
        next
          case False
          have "aligned (r_cr3 (t_regs t))" using assms(4) t by (simp add: task_get_current_def)
          then have "enter_directory here ?c d (?u\<lparr>ex_pg := pg\<rparr>) = None"
            using enter_directory_fails[of _ ?u, OF _ False] assms(2,3) d by simp
          then show ?thesis using assms(1) Some o fN rd ok t d False by (simp add: exec_load_def Let_def)
        qed
      qed
    qed
  qed
qed

text \<open>
  What becomes of a file in memory: when there is no memory for the open file, or the file is shorter than a header or
  its first word is not the magic number, the loader returns -1 and
  leaves tasks, page tables and the file as they are; otherwise a task of the kernel's address space that gets a frame for its
  directory does not survive the call.
\<close>

theorem exec_load_outcome:
  assumes "fs_wf (ex_fs s)" "ram_file (ex_fs s) q bs" "inode_at (ex_fs s) q = Some i" "i_fop i = Ramfs_ops"
    and "vfs_lookup_inode pathname (ex_fs s) = Some (q, ex_fs s)"
    and "cr0 (ex_pg s) AND 0x80000000 \<noteq> 0" "unat here < 3 * 2 ^ 30"
    and "current_task (ex_tasks s) \<noteq> NULL" "task_mem (ex_tasks s) (current_task (ex_tasks s)) = Some t"
    and "r_cr3 (t_regs t) \<in> {NULL, kernel_directory (ex_pg s)}" "aligned (kernel_directory (ex_pg s))"
    and "pmm_alloc_block (pg_frames (ex_pg s)) = Some (p, f)" "p \<noteq> NULL"
  shows "if vfs_open pathname 0 (ex_fs s) = Some (NULL, ex_fs s) \<or> length bs < 24 \<or> of_le32 bs \<noteq> EXEC_MAGIC
    then \<exists>fs. exec_load k here (Some pathname) argv s = Some (- 1, s\<lparr>ex_fs := fs\<rparr>) \<and> ram_file fs q bs
    else exec_load k here (Some pathname) argv s = None"
  using assms(1-5)
proof (cases rule: open_ram_file)
  case none
  then have "exec_load k here (Some pathname) argv s = Some (- 1, s\<lparr>ex_fs := ex_fs s\<rparr>)" by (simp add: exec_load_def)
  then have "\<exists>fs. exec_load k here (Some pathname) argv s = Some (- 1, s\<lparr>ex_fs := fs\<rparr>) \<and> ram_file fs q bs" using assms(2) by blast
  then show ?thesis using none by simp
next
  case (some fd u)
  then have opened: "vfs_open pathname 0 (ex_fs s) \<noteq> Some (NULL, ex_fs s)" by simp
  let ?part = "take 24 bs"
  obtain v where v: "vfs_read k fd 24 u = Some (int (length ?part), ?part, v)" "fs_wf v" "ram_file v q bs"
    "objs v fd = Some (File \<lparr>f_inode = q, f_flags = 0, f_pos = of_nat (length ?part), f_ref_count = 1, f_op = Ramfs_ops,
       f_private = NULL\<rparr>)"
    using vfs_read_run[OF some(3,5), of bs 24 k] some(4) by auto
  obtain w where w: "vfs_close fd v = Some (0, w)" "ram_file w q bs" using close_read_file[OF v(2,4)] v(3) by auto
  have magic: "eh_magic (exec_header_of ?part) = of_le32 bs" if "24 \<le> length bs"
    using that by (cases bs rule: of_le32.cases) (simp_all add: exec_header_of_def)
  show ?thesis
  proof (cases "length bs < 24 \<or> of_le32 bs \<noteq> EXEC_MAGIC")
    case True
    then have "int (length ?part) \<noteq> 24 \<or> eh_magic (exec_header_of ?part) \<noteq> EXEC_MAGIC"
      using magic by (cases "24 \<le> length bs") (simp_all add: min_def)
    then have "exec_load k here (Some pathname) argv s = exec_fail fd (s\<lparr>ex_fs := v\<rparr>)"
      using some(1,2) v(1) unfolding exec_load_def by (auto simp: Let_def simp del: length_take)
    then have "exec_load k here (Some pathname) argv s = Some (- 1, s\<lparr>ex_fs := w\<rparr>)" using w(1) by (simp add: exec_fail_def)
    then show ?thesis using True w(2) by auto
  next
    case False
    let ?c = "current_task (ex_tasks s)"
    have "exec_directory (r_cr3 (t_regs t)) (ex_pg s) = Some (p, snd (the (exec_directory (r_cr3 (t_regs t)) (ex_pg s))))"
      using assms(10,12,13) by (auto simp: exec_directory_def fresh_directory_def paging_get_kernel_directory_def Let_def)
    then obtain pg where d: "exec_directory (r_cr3 (t_regs t)) (ex_pg s) = Some (p, pg)" by blast
    have "aligned (r_cr3 (t_regs t))" using assms(10,11) by (auto simp: aligned_def)
    then have "enter_directory here ?c p (s\<lparr>ex_fs := v, ex_pg := pg\<rparr>) = None"
      using enter_directory_fails[of _ "s\<lparr>ex_fs := v\<rparr>", OF _ assms(13)] assms(6,7) d by simp
    moreover have "int (length ?part) = 24" "eh_magic (exec_header_of ?part) = EXEC_MAGIC"
      using False magic by (simp_all add: min_def)
    ultimately have "exec_load k here (Some pathname) argv s = None"
      using some(1,2) v(1) assms(8,9,13) d unfolding exec_load_def by (simp add: Let_def task_get_current_def del: length_take)
    then show ?thesis using False opened by simp
  qed
qed

section \<open>A sample system\<close>

text \<open>The idle task in the kernel's directory, the frames as boot leaves them, the file \<open>/a\<close> of three bytes.\<close>

definition sample_exec :: "pmm \<Rightarrow> unit exec" where
  "sample_exec b = \<lparr>ex_fs = sample_vfs, ex_pg = (paging_enable (paging_init sample_paging))\<lparr>pg_frames := b\<rparr>, ex_tasks = idle_tasking\<rparr>"

lemma sample_exec_pg:
  "cr0 (ex_pg (sample_exec b)) AND 0x80000000 \<noteq> 0" "kernel_directory (ex_pg (sample_exec b)) = 0x100000" "pg_frames (ex_pg (sample_exec b)) = b"
  by (simp_all add: sample_exec_def paging_enable_def paging_init_def sample_paging_def Let_def)

lemma sample_exec_task:
  "task_mem (ex_tasks (sample_exec b)) (current_task (ex_tasks (sample_exec b))) = Some (idle_task 0x40000C blank_task)"
  "current_task (ex_tasks (sample_exec b)) \<noteq> NULL" "r_cr3 (t_regs (idle_task 0x40000C blank_task)) = 0"
  by (simp_all add: sample_exec_def idle_tasking_facts idle_task_def blank_task_def boot_tasking_def)

lemma sample_lookups:
  "vfs_lookup_inode [47, 97] sample_vfs = Some (cell 14, sample_vfs)" "vfs_lookup_inode [47, 99] sample_vfs = Some (NULL, sample_vfs)"
proof -
  have w: "walk [] (cell 10) [[97]] sample_vfs = Some (cell 14, sample_vfs)" "walk [] (cell 10) [[99]] sample_vfs = Some (NULL, sample_vfs)"
    using sample_iop ramfs_lookup_run[OF sample_vfs_dir, of "[97]"] ramfs_lookup_run[OF sample_vfs_dir, of "[99]"]
    by (simp_all add: mounted_root_def sample_vfs_mounts iop_lookup_def sample_names entry_of_Cons entry_of_absent cells del: at_simps)
  have c: "components [47, 97] = [[97]]" "components [47, 99] = [[99]]" by (simp_all add: components_def)
  show "vfs_lookup_inode [47, 97] sample_vfs = Some (cell 14, sample_vfs)" "vfs_lookup_inode [47, 99] sample_vfs = Some (NULL, sample_vfs)"
    using vfs_lookup_run[OF sample_vfs_root, of "[47, 97]"] vfs_lookup_run[OF sample_vfs_root, of "[47, 99]"] w
    unfolding c by (simp_all add: cells)
qed

theorem exec_load_outcome_witness:
  "\<exists>b fs. exec_load k 0x101000 (Some [47, 97]) None (sample_exec b) = Some (- 1, (sample_exec b)\<lparr>ex_fs := fs\<rparr>) \<and>
    ram_file fs (cell 14) [1, 2, 3]"
proof -
  obtain b b' where b: "pmm_alloc_block b = Some (0x100000, b')" using boot_memory_first_frame[of 639 31744] by auto
  have i: "inode_at sample_vfs (cell 14) =
      Some ((fresh_inode 2 NULL)\<lparr>i_size := 3, i_private := cell 15, i_iop := Ramfs_ops, i_fop := Ramfs_ops\<rparr>)"
    by (simp add: sample_vfs_objs sample_ramfs_objs cells)
  have look: "vfs_lookup_inode [47, 97] sample_vfs = Some (cell 14, sample_vfs)" by (rule sample_lookups(1))
  have fs: "ex_fs (sample_exec b) = sample_vfs" by (simp add: sample_exec_def)
  have al: "aligned (0x100000 :: u32)" by (simp add: aligned_def)
  show ?thesis
    using exec_load_outcome[of "sample_exec b" "cell 14" "[1, 2, 3]" _ "[47, 97]" "0x101000", unfolded fs sample_exec_pg(2,3),
        OF sample_vfs_wf sample_vfs_file i _ look sample_exec_pg(1) _ sample_exec_task(2,1) _ al b, of k None]
    by (auto simp: sample_exec_task(3))
qed

theorem exec_never_starts_witness:
  "\<forall>k. \<exists>s'. exec_load k 0x101000 (Some [47, 99]) None (sample_exec (pmm_init 0)) = Some (- 1, s') \<and> ex_tasks s' = idle_tasking"
proof
  fix k :: kernel_info
  let ?s = "sample_exec (pmm_init 0)"
  have "vfs_open [47, 99] 0 sample_vfs = Some (NULL, sample_vfs)" by (simp add: vfs_open_def sample_lookups)
  then have e: "exec_load k 0x101000 (Some [47, 99]) None ?s = Some (- 1, ?s)"
    by (simp add: exec_load_def sample_exec_def)
  have "\<forall>t. task_mem (ex_tasks ?s) (current_task (ex_tasks ?s)) = Some t \<longrightarrow> aligned (r_cr3 (t_regs t))"
    by (simp add: sample_exec_task aligned_def)
  from exec_never_starts[OF e sample_exec_pg(1) _ this] show "\<exists>s'. exec_load k 0x101000 (Some [47, 99]) None ?s = Some (- 1, s') \<and> ex_tasks s' = idle_tasking"
    using e by (auto simp: sample_exec_def)
qed

end
