(* ===== verification/Syscall.thy ===== *)
theory Syscall
  imports Irq Ioport Interrupts Exec
begin

text \<open>
  System calls (\<open>src/src/kernel/syscall.c\<close>): the table, the handler that a task reaches through interrupt 0x80 with the number of
  the call in \<open>eax\<close> and its arguments in the other registers, and the calls, which hand their arguments to the components. Memory of the
  caller is read and written through the page tables (\<open>mmu\<close> of theory \<open>Exec\<close>): a pointer that leads nowhere is the value \<open>None\<close>.
  The theory shows which numbers lead where, that all others return -1 and do nothing, and that a message goes from the memory of
  one caller to that of another.
\<close>

section \<open>State\<close>

datatype syscall =
    Sys_exit | Sys_write | Sys_read | Sys_getpid | Sys_yield | Sys_fork | Sys_waitpid | Sys_execve
  | Sys_ipc_create_port | Sys_ipc_destroy_port | Sys_ipc_send | Sys_ipc_recv | Sys_ipc_create_named_port | Sys_ipc_find_port
  | Sys_ipc_try_recv | Sys_request_io_port | Sys_register_irq_handler

definition SYSCALL_MAX :: nat where "SYSCALL_MAX = 256"
definition SYS_EXIT :: nat where "SYS_EXIT = 0"
definition SYS_WRITE :: nat where "SYS_WRITE = 1"
definition SYS_READ :: nat where "SYS_READ = 2"
definition SYS_GETPID :: nat where "SYS_GETPID = 3"
definition SYS_YIELD :: nat where "SYS_YIELD = 4"
definition SYS_FORK :: nat where "SYS_FORK = 5"
definition SYS_WAITPID :: nat where "SYS_WAITPID = 6"
definition SYS_EXECVE :: nat where "SYS_EXECVE = 7"
definition SYS_IPC_CREATE_PORT :: nat where "SYS_IPC_CREATE_PORT = 8"
definition SYS_IPC_DESTROY_PORT :: nat where "SYS_IPC_DESTROY_PORT = 9"
definition SYS_IPC_SEND :: nat where "SYS_IPC_SEND = 10"
definition SYS_IPC_RECV :: nat where "SYS_IPC_RECV = 11"
definition SYS_IPC_CREATE_NAMED_PORT :: nat where "SYS_IPC_CREATE_NAMED_PORT = 12"
definition SYS_IPC_FIND_PORT :: nat where "SYS_IPC_FIND_PORT = 13"
definition SYS_IPC_TRY_RECV :: nat where "SYS_IPC_TRY_RECV = 14"
definition SYS_REQUEST_IO_PORT :: nat where "SYS_REQUEST_IO_PORT = 15"
definition SYS_REGISTER_IRQ_HANDLER :: nat where "SYS_REGISTER_IRQ_HANDLER = 16"

lemmas syscall_numbers = SYSCALL_MAX_def SYS_EXIT_def SYS_WRITE_def SYS_READ_def SYS_GETPID_def SYS_YIELD_def SYS_FORK_def
  SYS_WAITPID_def SYS_EXECVE_def SYS_IPC_CREATE_PORT_def SYS_IPC_DESTROY_PORT_def SYS_IPC_SEND_def SYS_IPC_RECV_def
  SYS_IPC_CREATE_NAMED_PORT_def SYS_IPC_FIND_PORT_def SYS_IPC_TRY_RECV_def SYS_REQUEST_IO_PORT_def SYS_REGISTER_IRQ_HANDLER_def

text \<open>The registers that \<open>syscall_asm_handler\<close> saves and the handler reads or writes.\<close>

record regs =
  eax :: u32
  ebx :: u32
  ecx :: u32
  edx :: u32
  esi :: u32
  edi :: u32

text \<open>
  The parts of the kernel that system calls reach. The tasks, with the kernel heap, are those of the ports; the copies in \<open>kn_io\<close> and
  \<open>kn_fs\<close> are set before each use.
\<close>

record 'd kernel =
  kn_irq :: irq_bridge
  kn_io :: ioport
  kn_fs :: "'d fs"
  kn_pg :: paging
  kn_con :: console
  kn_ticks :: u32
  kn_idt :: idt_state
  syscall_table :: "syscall option list"

definition kn_ipc :: "'d kernel \<Rightarrow> ipc" where
  "kn_ipc s = irq_ipc (kn_irq s)"

definition set_ipc :: "ipc \<Rightarrow> 'd kernel \<Rightarrow> 'd kernel" where
  "set_ipc k s = s\<lparr>kn_irq := (kn_irq s)\<lparr>irq_ipc := k\<rparr>\<rparr>"

definition set_tasks :: "tasking \<Rightarrow> 'd kernel \<Rightarrow> 'd kernel" where
  "set_tasks ts s = set_ipc ((kn_ipc s)\<lparr>ipc_tasks := ts\<rparr>) s"

section \<open>Memory of the caller\<close>

definition load_user :: "ptr \<Rightarrow> paging \<Rightarrow> u8 option" where
  "load_user a s = do {
     pa \<leftarrow> mmu a s;
     Some (ucast (drop_bit (8 * unat (pa AND 3)) (phys s (pa AND 0xFFFFFFFC))))
   }"

fun load_all :: "ptr \<Rightarrow> nat \<Rightarrow> paging \<Rightarrow> bytes option" where
  "load_all a 0 s = Some []"
| "load_all a (Suc n) s = do { b \<leftarrow> load_user a s; bs \<leftarrow> load_all (a + 1) n s; Some (b # bs) }"

partial_function (option) user_string :: "ptr \<Rightarrow> paging \<Rightarrow> cstring option" where
  "user_string a s = do {
     b \<leftarrow> load_user a s;
     if b = 0 then Some [] else do { bs \<leftarrow> user_string (a + 1) s; Some (b # bs) }
   }"

definition user_name :: "ptr \<Rightarrow> paging \<Rightarrow> cstring option option" where
  "user_name a s = (if a = NULL then Some None else do { name \<leftarrow> user_string a s; Some (Some name) })"

text \<open>The bytes a receive writes to the \<open>struct ipc_message\<close> of the caller.\<close>

definition received_bytes :: "ipc_message \<Rightarrow> bytes" where
  "received_bytes m = le32 (m_sender_pid m) @ le32 (m_sender_port m) @ le32 (m_type m) @ le32 (m_size m) @
     take (unat (m_size m)) (m_data m)"

section \<open>The calls\<close>

text \<open>\<open>sys_exit\<close> halts the processor and does not return.\<close>

definition sys_write :: "ptr \<Rightarrow> u32 \<Rightarrow> 'd kernel \<Rightarrow> (int \<times> 'd kernel) option" where
  "sys_write buf count s = do {
     bs \<leftarrow> load_all buf (nat (sint count)) (kn_pg s);
     c \<leftarrow> shell_print_raw bs (sint count) (kn_con s);
     Some (sint count, s\<lparr>kn_con := c\<rparr>)
   }"

definition sys_getpid :: "'d kernel \<Rightarrow> (int \<times> 'd kernel) option" where
  "sys_getpid s =
     (if task_get_current (ipc_tasks (kn_ipc s)) = NULL then Some (- 1, s)
      else do { pid \<leftarrow> current_pid (kn_ipc s); Some (sint pid, s) })"

definition sys_yield :: "(ipc \<Rightarrow> ipc option) \<Rightarrow> 'd kernel \<Rightarrow> (int \<times> 'd kernel) option" where
  "sys_yield resume s = do { k \<leftarrow> yield_and_return resume (kn_ipc s); Some (0, set_ipc k s) }"

definition sys_fork :: "'d kernel \<Rightarrow> (int \<times> 'd kernel) option" where
  "sys_fork s = (let (r, ts) = task_fork_with_regs (ipc_tasks (kn_ipc s)) in Some (r, set_tasks ts s))"

definition sys_waitpid :: "u32 \<Rightarrow> 'd kernel \<Rightarrow> (int \<times> 'd kernel) option" where
  "sys_waitpid pid s = (let (r, ts) = task_waitpid (sint pid) (ipc_tasks (kn_ipc s)) in Some (r, set_tasks ts s))"

text \<open>A call on the ports.\<close>

definition on_ports :: "(ipc \<Rightarrow> (int \<times> ipc) option) \<Rightarrow> 'd kernel \<Rightarrow> (int \<times> 'd kernel) option" where
  "on_ports f s = do { (r, k) \<leftarrow> f (kn_ipc s); Some (r, set_ipc k s) }"

definition sys_ipc_create_port :: "'d kernel \<Rightarrow> (int \<times> 'd kernel) option" where
  "sys_ipc_create_port = on_ports ipc_create_port"

definition sys_ipc_create_named_port :: "ptr \<Rightarrow> 'd kernel \<Rightarrow> (int \<times> 'd kernel) option" where
  "sys_ipc_create_named_port name s = do { n \<leftarrow> user_name name (kn_pg s); on_ports (ipc_create_named_port n) s }"

definition sys_ipc_destroy_port :: "u32 \<Rightarrow> 'd kernel \<Rightarrow> (int \<times> 'd kernel) option" where
  "sys_ipc_destroy_port port_id = on_ports (ipc_destroy_port port_id)"

text \<open>The data is read only when the port takes the message.\<close>

definition sys_ipc_send :: "u32 \<Rightarrow> u32 \<Rightarrow> ptr \<Rightarrow> u32 \<Rightarrow> 'd kernel \<Rightarrow> (int \<times> 'd kernel) option" where
  "sys_ipc_send dest_port type data sz s = do {
     (r, k) \<leftarrow> ipc_send dest_port type None sz (kn_ipc s);
     if data = NULL \<or> r \<noteq> 0 then Some (r, set_ipc k s)
     else do {
       bs \<leftarrow> load_all data (unat sz) (kn_pg s);
       on_ports (ipc_send dest_port type (Some bs) sz) s
     }
   }"

text \<open>What a receive does to the memory of the caller when it succeeds.\<close>

definition deliver :: "ptr \<Rightarrow> int \<times> ipc_message \<times> ipc \<Rightarrow> 'd kernel \<Rightarrow> (int \<times> 'd kernel) option" where
  "deliver msg rmk s =
     (let (r, m, k) = rmk; s = set_ipc k s in
      if r = 0 then do { pg \<leftarrow> store_all msg (received_bytes m) (kn_pg s); Some (r, s\<lparr>kn_pg := pg\<rparr>) } else Some (r, s))"

definition sys_ipc_recv :: "(ipc \<Rightarrow> ipc option) \<Rightarrow> u32 \<Rightarrow> ptr \<Rightarrow> 'd kernel \<Rightarrow> (int \<times> 'd kernel) option" where
  "sys_ipc_recv resume port_id msg s = do { rmk \<leftarrow> ipc_recv resume port_id blank_message (kn_ipc s); deliver msg rmk s }"

definition sys_ipc_try_recv :: "u32 \<Rightarrow> ptr \<Rightarrow> 'd kernel \<Rightarrow> (int \<times> 'd kernel) option" where
  "sys_ipc_try_recv port_id msg s = do { rmk \<leftarrow> ipc_try_recv port_id blank_message (kn_ipc s); deliver msg rmk s }"

definition sys_ipc_find_port :: "ptr \<Rightarrow> 'd kernel \<Rightarrow> (int \<times> 'd kernel) option" where
  "sys_ipc_find_port name s = do { n \<leftarrow> user_name name (kn_pg s); Some (ipc_find_port n (kn_ipc s), s) }"

definition sys_request_io_port :: "u32 \<Rightarrow> u32 \<Rightarrow> 'd kernel \<Rightarrow> (int \<times> 'd kernel) option" where
  "sys_request_io_port port_start port_end s = do {
     (r, io) \<leftarrow> ioport_grant_access (ucast port_start) (ucast port_end) ((kn_io s)\<lparr>io_tasks := ipc_tasks (kn_ipc s)\<rparr>);
     Some (r, set_tasks (io_tasks io) (s\<lparr>kn_io := io\<rparr>))
   }"

definition sys_register_irq_handler :: "u32 \<Rightarrow> u32 \<Rightarrow> 'd kernel \<Rightarrow> (int \<times> 'd kernel) option" where
  "sys_register_irq_handler irq ipc_port s = do {
     (r, b) \<leftarrow> irq_bridge_register (ucast irq) ipc_port (kn_irq s);
     Some (r, s\<lparr>kn_irq := b\<rparr>)
   }"

definition user_argv :: "ptr \<Rightarrow> paging \<Rightarrow> cstring option list option option" where
  "user_argv argv s =
     (if argv = NULL then Some None
      else do {
        bs \<leftarrow> load_all argv 4 s;
        name \<leftarrow> user_name (of_le32 bs) s;
        Some (Some [name])
      })"

text \<open>\<open>here\<close> is the address in the kernel from which the loader switches directories.\<close>

definition call_execve :: "ptr \<Rightarrow> ptr \<Rightarrow> ptr \<Rightarrow> 'd kernel \<Rightarrow> (int \<times> 'd kernel) option" where
  "call_execve here pathname argv s = do {
     name \<leftarrow> user_name pathname (kn_pg s);
     av \<leftarrow> user_argv argv (kn_pg s);
     let ts = ipc_tasks (kn_ipc s);
     (r, e) \<leftarrow> sys_execve \<lparr>k_ticks = kn_ticks s, k_pmm = pg_frames (kn_pg s), k_tasking = ts\<rparr> here name av
       \<lparr>ex_fs = (kn_fs s)\<lparr>fs_heap := tk_heap ts\<rparr>, ex_pg = kn_pg s, ex_tasks = ts\<rparr>;
     Some (r, set_tasks ((ex_tasks e)\<lparr>tk_heap := fs_heap (ex_fs e)\<rparr>) (s\<lparr>kn_fs := ex_fs e, kn_pg := ex_pg e\<rparr>))
   }"

text \<open>\<open>Some None\<close> stands for a call that halts.\<close>

definition returns :: "(int \<times> 'd kernel) option \<Rightarrow> (int \<times> 'd kernel) option option" where
  "returns r = do { x \<leftarrow> r; Some (Some x) }"

fun call_handler ::
  "(ipc \<Rightarrow> ipc option) \<Rightarrow> ptr \<Rightarrow> syscall \<Rightarrow> regs \<Rightarrow> 'd kernel \<Rightarrow> (int \<times> 'd kernel) option option" where
  "call_handler resume here Sys_exit r s = Some None"
| "call_handler resume here Sys_write r s = returns (sys_write (ecx r) (edx r) s)"
| "call_handler resume here Sys_read r s = returns (Some (0, s))"
| "call_handler resume here Sys_getpid r s = returns (sys_getpid s)"
| "call_handler resume here Sys_yield r s = returns (sys_yield resume s)"
| "call_handler resume here Sys_fork r s = returns (sys_fork s)"
| "call_handler resume here Sys_waitpid r s = returns (sys_waitpid (ebx r) s)"
| "call_handler resume here Sys_execve r s = returns (call_execve here (ebx r) (ecx r) s)"
| "call_handler resume here Sys_ipc_create_port r s = returns (sys_ipc_create_port s)"
| "call_handler resume here Sys_ipc_destroy_port r s = returns (sys_ipc_destroy_port (ebx r) s)"
| "call_handler resume here Sys_ipc_send r s = returns (sys_ipc_send (ebx r) (ecx r) (edx r) (esi r) s)"
| "call_handler resume here Sys_ipc_recv r s = returns (sys_ipc_recv resume (ebx r) (ecx r) s)"
| "call_handler resume here Sys_ipc_create_named_port r s = returns (sys_ipc_create_named_port (ebx r) s)"
| "call_handler resume here Sys_ipc_find_port r s = returns (sys_ipc_find_port (ebx r) s)"
| "call_handler resume here Sys_ipc_try_recv r s = returns (sys_ipc_try_recv (ebx r) (ecx r) s)"
| "call_handler resume here Sys_request_io_port r s = returns (sys_request_io_port (ebx r) (ecx r) s)"
| "call_handler resume here Sys_register_irq_handler r s = returns (sys_register_irq_handler (ebx r) (ecx r) s)"

section \<open>The handler\<close>

text \<open>The outer value is as everywhere; the inner \<open>None\<close> says that the processor was halted.\<close>

definition syscall_handler ::
  "(ipc \<Rightarrow> ipc option) \<Rightarrow> ptr \<Rightarrow> regs \<Rightarrow> 'd kernel \<Rightarrow> (regs \<times> 'd kernel) option option" where
  "syscall_handler resume here r s =
     (let syscall_num = unat (eax r) in
      if syscall_num \<ge> SYSCALL_MAX then Some (Some (r\<lparr>eax := - 1\<rparr>, s))
      else do {
        entry \<leftarrow> arr_get (syscall_table s) syscall_num;
        case entry of
          None \<Rightarrow> Some (Some (r\<lparr>eax := - 1\<rparr>, s))
        | Some h \<Rightarrow> do {
            res \<leftarrow> (if syscall_num = SYS_FORK then returns (sys_fork s) else call_handler resume here h r s);
            case res of
              None \<Rightarrow> Some None
            | Some (ret, s) \<Rightarrow> Some (Some (r\<lparr>eax := of_int ret\<rparr>, s))
          }
      })"

definition syscall_init :: "u32 \<Rightarrow> 'd kernel \<Rightarrow> 'd kernel option" where
  "syscall_init asm_handler s = do {
     t \<leftarrow> for_range 0 SYSCALL_MAX (\<lambda>i t. arr_set t i None) (syscall_table s);
     let t = t[SYS_EXIT := Some Sys_exit, SYS_WRITE := Some Sys_write, SYS_READ := Some Sys_read, SYS_GETPID := Some Sys_getpid,
       SYS_YIELD := Some Sys_yield, SYS_FORK := Some Sys_fork, SYS_WAITPID := Some Sys_waitpid, SYS_EXECVE := Some Sys_execve,
       SYS_IPC_CREATE_PORT := Some Sys_ipc_create_port, SYS_IPC_CREATE_NAMED_PORT := Some Sys_ipc_create_named_port,
       SYS_IPC_DESTROY_PORT := Some Sys_ipc_destroy_port, SYS_IPC_SEND := Some Sys_ipc_send, SYS_IPC_RECV := Some Sys_ipc_recv,
       SYS_IPC_TRY_RECV := Some Sys_ipc_try_recv, SYS_IPC_FIND_PORT := Some Sys_ipc_find_port,
       SYS_REQUEST_IO_PORT := Some Sys_request_io_port, SYS_REGISTER_IRQ_HANDLER := Some Sys_register_irq_handler];
     i \<leftarrow> idt_set_gate 0x80 asm_handler 0x08 0xEE (kn_idt s);
     Some (s\<lparr>syscall_table := t, kn_idt := i\<rparr>)
   }"

section \<open>The table\<close>

definition calls :: "syscall list" where
  "calls = [Sys_exit, Sys_write, Sys_read, Sys_getpid, Sys_yield, Sys_fork, Sys_waitpid, Sys_execve, Sys_ipc_create_port,
     Sys_ipc_destroy_port, Sys_ipc_send, Sys_ipc_recv, Sys_ipc_create_named_port, Sys_ipc_find_port, Sys_ipc_try_recv,
     Sys_request_io_port, Sys_register_irq_handler]"

definition table_ready :: "'d kernel \<Rightarrow> bool" where
  "table_ready s \<longleftrightarrow> syscall_table s = map Some calls @ replicate 239 None"

lemma for_range_clear:
  "length t = k + n \<Longrightarrow> for_range k n (\<lambda>i t. arr_set t i x) t = Some (take k t @ replicate n x)"
proof (induction n arbitrary: k t)
  case (Suc n)
  then have "for_range k (Suc n) (\<lambda>i t. arr_set t i x) t = for_range (Suc k) n (\<lambda>i t. arr_set t i x) (t[k := x])" by simp
  also have "\<dots> = Some (take (Suc k) (t[k := x]) @ replicate n x)" using Suc by simp
  also have "take (Suc k) (t[k := x]) = take k t @ [x]" using Suc.prems by (simp add: take_Suc_conv_app_nth)
  finally show ?case by simp
qed simp

lemma syscall_init_run:
  assumes "length (syscall_table s) = 256" "length (idt (kn_idt s)) = 256"
  shows "syscall_init h s = Some (s\<lparr>syscall_table := map Some calls @ replicate 239 None,
    kn_idt := (kn_idt s)\<lparr>idt := (idt (kn_idt s))[0x80 := gate h 8 0xEE]\<rparr>\<rparr>)"
proof -
  have t: "for_range 0 SYSCALL_MAX (\<lambda>i t. arr_set t i None) (syscall_table s) = Some (replicate 17 None @ replicate 239 None)"
    using for_range_clear[of "syscall_table s" 0 256 None] assms(1) by (simp add: SYSCALL_MAX_def flip: replicate_add)
  have g: "idt_set_gate 0x80 h 8 0xEE (kn_idt s) = Some ((kn_idt s)\<lparr>idt := (idt (kn_idt s))[0x80 := gate h 8 0xEE]\<rparr>)"
    using set_gate_run[OF assms(2), of "0x80" h 8 "0xEE"] by simp
  have r: "replicate 17 None = [None, None, None, None, None, None, None, None, None, None, None, None, None, None, None, None, None :: syscall option]"
    by (simp add: numeral_eq_Suc)
  show ?thesis unfolding syscall_init_def t Option.bind.simps g r
    by (simp add: calls_def syscall_numbers)
qed

lemma table_entry:
  assumes "table_ready s" "n < 256"
  shows "arr_get (syscall_table s) n = Some (if n < 17 then Some (calls ! n) else None)"
proof -
  have "length calls = 17" by (simp add: calls_def)
  then show ?thesis using assms by (simp add: table_ready_def arr_get_def nth_append)
qed

text \<open>
  C36. After initialisation the gate of interrupt 0x80 leads to the handler and can be used by tasks; the 17 numbers of the header lead to their
  calls; every other number, up to the largest, returns -1 in \<open>eax\<close> and changes neither another register nor the kernel.
\<close>

theorem syscall_dispatch:
  assumes "length (syscall_table s0) = 256" "length (idt (kn_idt s0)) = 256"
  shows "\<exists>s. syscall_init asm_handler s0 = Some s \<and> gate_target (idt (kn_idt s) ! 0x80) = asm_handler \<and> type_attr (idt (kn_idt s) ! 0x80) = 0xEE \<and>
    (\<forall>r. syscall_handler resume here r s =
      (if unat (eax r) < 17
       then do {
         res \<leftarrow> call_handler resume here (calls ! unat (eax r)) r s;
         Some (case res of None \<Rightarrow> None | Some (ret, s') \<Rightarrow> Some (r\<lparr>eax := of_int ret\<rparr>, s'))
       }
       else Some (Some (r\<lparr>eax := - 1\<rparr>, s))))"
proof -
  let ?s = "s0\<lparr>syscall_table := map Some calls @ replicate 239 None,
    kn_idt := (kn_idt s0)\<lparr>idt := (idt (kn_idt s0))[0x80 := gate asm_handler 8 0xEE]\<rparr>\<rparr>"
  obtain s where s: "syscall_init asm_handler s0 = Some s" "table_ready s" "idt (kn_idt s) ! 0x80 = gate asm_handler 8 0xEE"
    using syscall_init_run[OF assms, of asm_handler] assms(2) by (intro that[of ?s]) (simp_all add: table_ready_def)
  have fork: "call_handler resume here (calls ! 5) r s = returns (sys_fork s)" for r by (simp add: calls_def)
  have "syscall_handler resume here r s =
      (if unat (eax r) < 17
       then do {
         res \<leftarrow> call_handler resume here (calls ! unat (eax r)) r s;
         Some (case res of None \<Rightarrow> None | Some (ret, s') \<Rightarrow> Some (r\<lparr>eax := of_int ret\<rparr>, s'))
       }
       else Some (Some (r\<lparr>eax := - 1\<rparr>, s)))" for r
  proof (cases "unat (eax r) < 256")
    case True
    have call: "(if unat (eax r) = SYS_FORK then returns (sys_fork s) else call_handler resume here (calls ! unat (eax r)) r s) =
        call_handler resume here (calls ! unat (eax r)) r s"
      using fork[of r] by (simp add: SYS_FORK_def)
    show ?thesis
      using True call unfolding syscall_handler_def Let_def table_entry[OF s(2) True]
      by (cases "call_handler resume here (calls ! unat (eax r)) r s") (auto simp: SYSCALL_MAX_def split: option.splits prod.splits)
  qed (simp add: syscall_handler_def SYSCALL_MAX_def)
  moreover have "type_attr (gate asm_handler 8 0xEE) = 0xEE" by (simp add: gate_def)
  ultimately show ?thesis using s by auto
qed

section \<open>A message between callers\<close>

lemma kn_ipc_simps [simp]: "kn_ipc (set_ipc k s) = k" "kn_ipc (s\<lparr>kn_pg := pg\<rparr>) = kn_ipc s" "kn_pg (set_ipc k s) = kn_pg s"
  "syscall_table (set_ipc k s) = syscall_table s" "kn_pg (set_tasks ts s) = kn_pg s" "syscall_table (set_tasks ts s) = syscall_table s"
  "kn_ipc (set_tasks ts s) = (kn_ipc s)\<lparr>ipc_tasks := ts\<rparr>"
  by (simp_all add: kn_ipc_def set_ipc_def set_tasks_def)

lemma handler_call:
  assumes "table_ready s" "n < 17" "n \<noteq> 5" "unat (eax r) = n"
  shows "syscall_handler resume here r s = do {
    res \<leftarrow> call_handler resume here (calls ! n) r s;
    Some (case res of None \<Rightarrow> None | Some (ret, s') \<Rightarrow> Some (r\<lparr>eax := of_int ret\<rparr>, s'))
  }"
  using assms(2-4) table_entry[OF assms(1), of n]
  by (cases "call_handler resume here (calls ! n) r s")
    (auto simp: syscall_handler_def SYSCALL_MAX_def SYS_FORK_def split: option.splits prod.splits)

text \<open>Whether a port takes a message does not depend on its data.\<close>

lemma send_null_accepted:
  assumes "ipc_wf k ts" "unat dest < 32" "p_in_use (ports k ! unat dest)" "unat sz \<le> 256"
    and "length (port_contents (ports k ! unat dest)) < 16" "current_pid k = Some pid"
  shows "\<exists>k'. ipc_send dest ty None sz k = Some (0, k')"
  using send_run[OF assms(1-5) _ assms(6), of None 0 ty] by (auto simp: ipc_send_def)

text \<open>
  C35. A message goes from the memory of its sender to the memory of its receiver: when a task sends bytes of its memory to an open, empty port
  and the owner of the port later asks for a message, whatever has become of the tasks and of memory meanwhile, both calls return 0 and
  the structure at the owner's address gets the sender's pid, no reply port, the type, the size and exactly these bytes.
\<close>

theorem syscall_message:
  assumes "table_ready s" "ipc_wf (kn_ipc s) ts" "current_pid (kn_ipc s) = Some pid" "unat dest < 32"
    and "p_in_use (ports (kn_ipc s) ! unat dest)" "port_contents (ports (kn_ipc s) ! unat dest) = []"
    and "p_owner_pid (ports (kn_ipc s) ! unat dest) = owner"
    and "data \<noteq> NULL" "unat sz < 256" "load_all data (unat sz) (kn_pg s) = Some bs"
    and "r = \<lparr>eax = 10, ebx = dest, ecx = ty, edx = data, esi = sz, edi = x\<rparr>"
    and "r' = \<lparr>eax = 11, ebx = dest, ecx = msg, edx = y1, esi = y2, edi = y3\<rparr>"
  shows "\<exists>s1. syscall_handler resume here r s = Some (Some (r\<lparr>eax := 0\<rparr>, s1)) \<and> kn_pg s1 = kn_pg s \<and>
    ipc_wf (kn_ipc s1) ts \<and> current_pid (kn_ipc s1) = Some pid \<and>
    (\<forall>tk ts' pg pg'. ipc_wf ((kn_ipc s1)\<lparr>ipc_tasks := tk\<rparr>) ts' \<longrightarrow> current_pid ((kn_ipc s1)\<lparr>ipc_tasks := tk\<rparr>) = Some owner \<longrightarrow>
      store_all msg (le32 pid @ le32 0 @ le32 ty @ le32 sz @ bs) pg = Some pg' \<longrightarrow>
      (\<exists>s3. syscall_handler resume here r' ((set_tasks tk s1)\<lparr>kn_pg := pg\<rparr>) = Some (Some (r'\<lparr>eax := 0\<rparr>, s3)) \<and> kn_pg s3 = pg'))"
proof -
  have len: "length bs = unat sz"
  proof -
    have "load_all a n p = Some b \<Longrightarrow> length b = n" for a n p b
      by (induction n arbitrary: a b) (auto simp: bind_eq_Some_conv)
    then show ?thesis using assms(10) .
  qed
  have sz: "unat sz = length bs" "length bs \<le> 256" "length bs < 256" "unat sz \<le> 256" using len assms(9) by simp_all
  have room: "length (port_contents (ports (kn_ipc s) ! unat dest)) < 16" using assms(6) by simp
  obtain k0 where k0: "ipc_send dest ty None sz (kn_ipc s) = Some (0, k0)"
    using send_null_accepted[OF assms(2,4,5) sz(4) room assms(3)] by blast
  obtain k p where k: "ipc_send_from_port 0 dest ty (Some bs) sz (kn_ipc s) = Some (0, k)" "ipc_wf k ts" "current_pid k = Some pid"
    "ports k = (ports (kn_ipc s))[unat dest := p]" "port_contents p = port_contents (ports (kn_ipc s) ! unat dest) @ [(pid, 0, ty, bs)]"
    "p_in_use p" "p_owner_pid p = p_owner_pid (ports (kn_ipc s) ! unat dest)"
    using send_appends[OF assms(2,4,5) sz(1,2) room assms(3)] .
  let ?s1 = "set_ipc k s"
  have "call_handler resume here Sys_ipc_send r s = Some (Some (0, ?s1))"
    using k0 k(1) assms(8,10,11) by (simp add: sys_ipc_send_def on_ports_def returns_def ipc_send_def)
  moreover have "calls ! 10 = Sys_ipc_send" "calls ! 11 = Sys_ipc_recv" by (simp_all add: calls_def)
  ultimately have send: "syscall_handler resume here r s = Some (Some (r\<lparr>eax := 0\<rparr>, ?s1))"
    using handler_call[OF assms(1), of 10 r resume here] assms(11) by simp
  have recv: "\<exists>s3. syscall_handler resume here r' ((set_tasks tk ?s1)\<lparr>kn_pg := pg\<rparr>) = Some (Some (r'\<lparr>eax := 0\<rparr>, s3)) \<and> kn_pg s3 = pg'"
    if "ipc_wf ((kn_ipc ?s1)\<lparr>ipc_tasks := tk\<rparr>) ts'" "current_pid ((kn_ipc ?s1)\<lparr>ipc_tasks := tk\<rparr>) = Some owner"
      "store_all msg (le32 pid @ le32 0 @ le32 ty @ le32 sz @ bs) pg = Some pg'" for tk ts' pg pg'
  proof -
    let ?k = "k\<lparr>ipc_tasks := tk\<rparr>"
    have "length (ports (kn_ipc s)) = 32" using assms(2) by (simp add: ipc_wf_def)
    then have p: "ports ?k ! unat dest = p" using k(4) assms(4) by simp
    have r: "ipc_wf ?k ts'" "p_in_use (ports ?k ! unat dest)" "port_contents (ports ?k ! unat dest) = [(pid, 0, ty, bs)]"
      "current_pid ?k = Some (p_owner_pid (ports ?k ! unat dest))" "length (m_data blank_message) = 256"
      using that p k(5-7) assms(6,7) by (simp_all add: blank_message_def)
    obtain m k' where m: "ipc_recv resume dest blank_message ?k = Some (0, m, k')" "m_sender_pid m = pid" "m_sender_port m = 0"
      "m_type m = ty" "unat (m_size m) = length bs" "take (length bs) (m_data m) = bs"
      using recv_first_message[OF r(1) assms(4) r(2-5) sz(3), of resume] by metis
    moreover have "m_size m = sz" using m(5) sz(1) by (simp add: word_unat_eq_iff)
    ultimately have "received_bytes m = le32 pid @ le32 0 @ le32 ty @ le32 sz @ bs" using sz(1) by (simp add: received_bytes_def)
    then have "call_handler resume here Sys_ipc_recv r' ((set_tasks tk ?s1)\<lparr>kn_pg := pg\<rparr>) =
        Some (Some (0, (set_ipc k' ((set_tasks tk ?s1)\<lparr>kn_pg := pg\<rparr>))\<lparr>kn_pg := pg'\<rparr>))"
      using m(1) that(3) assms(12) by (simp add: sys_ipc_recv_def deliver_def returns_def)
    then show ?thesis
      using handler_call[of "(set_tasks tk ?s1)\<lparr>kn_pg := pg\<rparr>" 11 r' resume here] assms(1,12) \<open>calls ! 11 = Sys_ipc_recv\<close>
      by (simp add: table_ready_def)
  qed
  show ?thesis using send recv k(2,3) by (intro exI[of _ ?s1]) auto
qed

section \<open>A sample system\<close>

text \<open>The idle task, which owns port 0; paging is off, and memory is 0.\<close>

definition sample_kernel :: "unit kernel" where
  "sample_kernel = \<lparr>kn_irq = sample_irq, kn_io = sample_ioport, kn_fs = sample_vfs, kn_pg = sample_paging, kn_con = blank_console, kn_ticks = 0,
     kn_idt = \<lparr>idt = replicate 256 (gate 0 0 0), idt_desc = \<lparr>idt_limit = 0, idt_base = 0\<rparr>, idtr = None\<rparr>,
     syscall_table = map Some calls @ replicate 239 None\<rparr>"

lemma flat_mmu: "cr0 s AND 0x80000000 = 0 \<Longrightarrow> mmu a s = Some a"
  by (simp add: mmu_def)

lemma flat_store: "cr0 s AND 0x80000000 = 0 \<Longrightarrow> \<exists>s'. store_all a bs s = Some s'"
proof (induction bs arbitrary: a s)
  case (Cons b bs)
  then obtain s1 where s1: "store_user a b s = Some s1" "cr0 s1 = cr0 s" by (auto simp: store_user_def flat_mmu Let_def)
  then obtain s2 where "store_all (a + 1) bs s1 = Some s2" using Cons by metis
  then show ?case using s1(1) by simp
qed simp

theorem syscall_dispatch_witness:
  "\<exists>s. syscall_init 0x100400 sample_kernel = Some s \<and> gate_target (idt (kn_idt s) ! 0x80) = 0x100400 \<and>
    syscall_handler Some 0 \<lparr>eax = 17, ebx = 1, ecx = 2, edx = 3, esi = 4, edi = 5\<rparr> s =
      Some (Some (\<lparr>eax = - 1, ebx = 1, ecx = 2, edx = 3, esi = 4, edi = 5\<rparr>, s))"
proof -
  have "length (syscall_table sample_kernel) = 256" "length (idt (kn_idt sample_kernel)) = 256"
    by (simp_all add: sample_kernel_def calls_def)
  from syscall_dispatch[OF this, of "0x100400" Some 0] show ?thesis by (auto dest!: spec[of _ "\<lparr>eax = 17, ebx = 1, ecx = 2, edx = 3, esi = 4, edi = 5\<rparr>"])
qed

theorem syscall_message_witness:
  "\<exists>s1 s3. syscall_handler Some 0 \<lparr>eax = 10, ebx = 0, ecx = 7, edx = 4096, esi = 4, edi = 0\<rparr> sample_kernel =
      Some (Some (\<lparr>eax = 0, ebx = 0, ecx = 7, edx = 4096, esi = 4, edi = 0\<rparr>, s1)) \<and>
    syscall_handler Some 0 \<lparr>eax = 11, ebx = 0, ecx = 8192, edx = 0, esi = 0, edi = 0\<rparr> s1 =
      Some (Some (\<lparr>eax = 0, ebx = 0, ecx = 8192, edx = 0, esi = 0, edi = 0\<rparr>, s3)) \<and>
    store_all 8192 (le32 0 @ le32 0 @ le32 7 @ le32 4 @ [0, 0, 0, 0]) sample_paging = Some (kn_pg s3)"
proof -
  let ?r = "\<lparr>eax = 10, ebx = 0, ecx = 7, edx = 4096, esi = 4, edi = 0\<rparr>"
  let ?r' = "\<lparr>eax = 11, ebx = 0, ecx = 8192, edx = 0, esi = 0, edi = 0\<rparr>"
  have k: "kn_ipc sample_kernel = sample_ipc" "kn_pg sample_kernel = sample_paging" by (simp_all add: kn_ipc_def sample_kernel_def sample_irq_def)
  have flat: "cr0 sample_paging AND 0x80000000 = 0" by (simp add: sample_paging_def)
  have byte: "load_user a sample_paging = Some 0" for a
    by (simp add: load_user_def flat_mmu[OF flat]) (simp add: sample_paging_def)
  have four: "unat (4 :: u32) = Suc (Suc (Suc (Suc 0)))" by simp
  have data: "load_all 4096 (unat (4 :: u32)) sample_paging = Some [0, 0, 0, 0]" unfolding four by (simp add: byte)
  obtain pg' where pg': "store_all 8192 (le32 0 @ le32 0 @ le32 7 @ le32 4 @ [0, 0, 0, 0]) sample_paging = Some pg'"
    using flat_store[OF flat] by blast
  have z: "unat (0 :: u32) = 0" by simp
  have ready: "table_ready sample_kernel" by (simp add: table_ready_def sample_kernel_def)
  have p: "(0 :: nat) < 32" "(4096 :: u32) \<noteq> NULL" "unat (4 :: u32) < 256" by simp_all
  note msg = syscall_message[of sample_kernel "[0x40000C]" 0 0 0 4096 4 "[0, 0, 0, 0]" ?r 7 0 ?r' 8192 0 0 0 Some 0, unfolded k z,
      OF ready sample_ipc_facts(1,2) p(1) sample_ipc_facts(3,5,6) p(2,3) data refl refl]
  obtain s1 where s1: "syscall_handler Some 0 ?r sample_kernel = Some (Some (?r\<lparr>eax := 0\<rparr>, s1))" "kn_pg s1 = sample_paging"
    "ipc_wf (kn_ipc s1) [0x40000C]" "current_pid (kn_ipc s1) = Some 0"
    "\<And>tk ts' pg pg'. ipc_wf ((kn_ipc s1)\<lparr>ipc_tasks := tk\<rparr>) ts' \<Longrightarrow> current_pid ((kn_ipc s1)\<lparr>ipc_tasks := tk\<rparr>) = Some 0 \<Longrightarrow>
      store_all 8192 (le32 0 @ le32 0 @ le32 7 @ le32 4 @ [0, 0, 0, 0]) pg = Some pg' \<Longrightarrow>
      \<exists>s3. syscall_handler Some 0 ?r' ((set_tasks tk s1)\<lparr>kn_pg := pg\<rparr>) = Some (Some (?r'\<lparr>eax := 0\<rparr>, s3)) \<and> kn_pg s3 = pg'"
    using msg by blast
  have same: "(kn_ipc s1)\<lparr>ipc_tasks := ipc_tasks (kn_ipc s1)\<rparr> = kn_ipc s1" "(set_tasks (ipc_tasks (kn_ipc s1)) s1)\<lparr>kn_pg := sample_paging\<rparr> = s1"
    using s1(2) by (simp_all add: set_tasks_def set_ipc_def kn_ipc_def)
  from s1(5)[of "ipc_tasks (kn_ipc s1)", unfolded same, OF s1(3,4) pg', unfolded same]
  obtain s3 where "syscall_handler Some 0 ?r' s1 = Some (Some (?r'\<lparr>eax := 0\<rparr>, s3))" "kn_pg s3 = pg'" by blast
  then show ?thesis using s1(1) pg' by auto
qed

end
