(* ===== verification/Spec2Isabelle.thy ===== *)
theory Spec2Isabelle
  imports Irq Keyboard Netif Netstack Mlfq Shell Blkipc Syscall
begin

text \<open>
  VROS is a small 32-bit x86 kernel in C: physical memory, a heap and paging; round-robin tasks; ports
  for messages between tasks, and on top of them access to I/O ports and interrupt lines for drivers that
  run as tasks; a keyboard, tables of network interfaces and block devices; and a virtual file system over
  a file system in memory, one on disk, device files and process files; and a shell on the text screen. This development translates that
  code, from \<open>src/src/\<close>, function by function, and proves what each part promises to the parts above it.

  \<^bold>\<open>How C is modelled.\<close> Theory \<open>Prelude\<close>. An unsigned integer is a word of its width and wraps; an \<open>int\<close>
  result is an HOL integer; a pointer is a 32-bit address. The static variables of a file are one record,
  and every function that writes them returns the new record. An execution that C leaves undefined, such as an index
  past an array, a string past its buffer, a dangling pointer, an endless walk of a broken list, is the value \<open>None\<close>;
  an error the code reports itself is the result it returns. So a theorem whose conclusion is
  \<open>f x s = Some \<dots>\<close> says that the function returns and does nothing undefined. Structures from the heap live in a store from
  addresses to typed values (\<open>task_mem\<close>, \<open>objs\<close>) beside the heap of \<open>kmalloc.c\<close>: each allocation
  runs \<open>kmalloc\<close> and what the memory held before is an arbitrary \<open>junk\<close>.

  \<^bold>\<open>Memory.\<close> \<open>Bitmaps\<close> and \<open>Allocator\<close> hold the interfaces of a bit set and of an allocator as locales.
  \<open>Pmm\<close> is \<open>mm/pmm.c\<close> (frames of 4 KiB, first fit over a bitmap) and \<open>Kmalloc\<close> is \<open>mm/kmalloc.c\<close> (first fit over a
  list of headers with splitting and merging, refined to a list of segments); both interpret the locale. \<open>Paging\<close> is
  \<open>mm/paging.c\<close> over word-addressed physical memory. The theorems give allocation and release on every branch,
  the round trip of both, the translation of addresses after mapping, unmapping and initialisation.

  \<^bold>\<open>Tasks and messages.\<close> \<open>Task\<close> is \<open>kernel/task.c\<close> with the switch of \<open>task_switch.s\<close>: the circular
  list through \<open>next\<close> is a queue, and the scheduler a round robin. \<open>Mlfq\<close> is \<open>kernel/task_mlfq.c\<close>, the alternative to it with a
  queue per priority, sleeping tasks, fork, exit and wait: four such queues, an invariant of every order of operations
  but the wait for a dead child, which the theory shows to break it. \<open>Fifo\<close> is the interface of a queue; \<open>Ipc\<close> is
  \<open>kernel/ipc.c\<close>, whose rings of messages interpret it, and whose reachable states, under any order of sends,
  receives, yields and ticks, keep an invariant (\<open>ipc_step\<close>, \<open>ipc_reach\<close>). \<open>Ioport\<close> (\<open>kernel/ioport.c\<close>) and
  \<open>Irq\<close> (\<open>kernel/irq_bridge.c\<close>) work on top of it.

  \<^bold>\<open>Entry to the kernel.\<close> \<open>Interrupts\<close> is \<open>kernel/idt.c\<close>, \<open>kernel/pic.c\<close> and \<open>kernel/isr_handler.c\<close>: gates, controllers and
  handlers, which call the scheduler, the keyboard and the screen. \<open>Syscall\<close> is \<open>kernel/syscall.c\<close>: the table and the 17 calls, over
  ports, tasks, I/O ports, interrupt lines, the screen and the loader. \<open>Exec\<close> is the loader \<open>fs/exec.c\<close>, over the files, the page tables
  and the tasks; memory of programs is reached through the page tables there (\<open>mmu\<close>).

  \<^bold>\<open>Devices.\<close> \<open>Keyboard\<close>, \<open>Netif\<close> and \<open>Blkdev\<close> are \<open>drivers/keyboard.c\<close>, \<open>netif.c\<close> and \<open>blkdev.c\<close>; the functions
  a driver registers are parameters. \<open>Ata\<close> is the disk driver of the kernel, \<open>drivers/ata.c\<close> and \<open>ata_blk.c\<close>, over the port
  instructions as a parameter and the protocol of a controller as a hypothesis; it provides the disks that \<open>Vrfs\<close> and \<open>Mount\<close> assume.
  \<open>Blkipc\<close> is the same across tasks: the client \<open>drivers/blkdev_ipc_client.c\<close>, the messages and the driver task \<open>lib/ata_driver.c\<close>.

  \<^bold>\<open>Network.\<close> \<open>Netstack\<close> is \<open>lib/netstack_driver.c\<close>, a task that gets Ethernet frames as messages of \<open>Ipc\<close>: ARP cache and
  ARP replies, the checksum of ICMP, and the dispatch of frames.

  \<^bold>\<open>Files.\<close> \<open>FsTypes\<close> has the structures of all file systems and their store, \<open>VfsCore\<close> the allocation of
  inodes and the tree of directory entries (\<open>fs/vfs.c\<close>), \<open>Ramfs\<close> and \<open>Vrfs\<close> the file systems in memory and on disk
  (\<open>fs/ramfs.c\<close>, \<open>fs/vrfs.c\<close>), \<open>Mount\<close> the mount table (\<open>fs/mount.c\<close>), \<open>Devfs\<close> and \<open>Procfs\<close> the device and process files
  (\<open>fs/devfs.c\<close>, \<open>fs/procfs.c\<close>), and \<open>Vfs\<close> paths and open files (the rest of \<open>fs/vfs.c\<close>), which calls all of these. A
  directory is a map from names to inodes, a file a list of bytes, a disk a function from block numbers to bytes; the
  theorems say what each operation makes of them, and that it changes nothing else. A path is a walk over
  its components through directories and mounts.

  \<^bold>\<open>Shell.\<close> \<open>lib/shell.c\<close> in five theories: \<open>Console\<close> is the text screen (80 by 25 cells; an output writes them and scrolls, and
  refines a terminal that is a list of lines), \<open>Shellpath\<close> the normalisation of paths and the numbers it prints, \<open>Shellfs\<close>
  the commands on files, disks and mounts, over \<open>Vfs\<close>, \<open>Shellinfo\<close> those that show tables and memory, and \<open>Shell\<close> the line editor and the
  dispatch of a line to its command. The commands that only test other parts of the kernel or a device (\<open>shell_test\<close>) are the argument
  \<open>run_test\<close>. The theorem \<open>keys_run_command\<close> below goes from scan codes through the keyboard and the line editor to the command.

  \<^bold>\<open>Loops.\<close> A loop over a range of indices is \<open>for_range\<close> or \<open>find_first\<close>, structural in its length. A
  walk along pointers is a \<open>partial_function (option)\<close>; that it ends is part of the theorems, from the well-formedness
  of the list. No fuel is used.

  \<^bold>\<open>Parameters.\<close> The functions of drivers, the block device's content, what other tasks do while a receive blocks, the timer
  ticks and what fresh memory holds are arguments; the theorems hold for all of them that satisfy the stated contract.

  \<^bold>\<open>Not modelled.\<close> Boot code and interrupt stubs (assembly and privileged instructions); the
  order of the boot in \<open>kernel.c\<close> beyond the memory map; the drivers of the NE2000
  network card, in the kernel and as a task, with the client of the latter; of the shell the test commands, which drive the hardware
  or run assembly, and the wait for a key in \<open>shell_init\<close>. The theorems are about one processor, and
  interrupts occur between the calls of operations, not within them.
\<close>

section \<open>From the keys to the command\<close>

text \<open>
  C27. Pressing keys runs commands: the characters that scan codes mean, under shift and caps lock, reach the shell one by one,
  whatever room the keyboard's buffer has, and when they are a line and Enter the shell runs the command that the line is
  after its backspaces, without a write outside of the screen, then shows the prompt.
\<close>

theorem keys_run_command:
  assumes "kb_inv k" "shell_mode k" "typed scs (modifiers k) = keys @ [10]" "10 \<notin> set keys"
    and "con_ok (sh_con s)" "length (command_buffer s) \<le> 255"
  defines "l \<equiv> edit keys (command_buffer s)"
  shows "\<exists>k' c. keyboard_run scs k = Some k' \<and> shell_input k' = shell_input k @ keys @ [10] \<and> con_ok c \<and>
    shell_run run_test (keys @ [10]) s =
      (if l = [] then say_prompt (s\<lparr>command_buffer := [], sh_con := c\<rparr>)
       else do {
         t \<leftarrow> shell_dispatch run_test (buf_string l) (s\<lparr>command_buffer := l, sh_con := c\<rparr>);
         say_prompt (t\<lparr>command_buffer := []\<rparr>)
       })"
proof -
  obtain k' where k: "keyboard_run scs k = Some k'" "shell_input k' = shell_input k @ keys @ [10]"
    using keyboard_run_shell[OF assms(1), of scs] assms(2,3) by auto
  obtain c where "con_ok c" "shell_run run_test (keys @ [10]) s =
      (if l = [] then say_prompt (s\<lparr>command_buffer := [], sh_con := c\<rparr>)
       else do {
         t \<leftarrow> shell_dispatch run_test (buf_string l) (s\<lparr>command_buffer := l, sh_con := c\<rparr>);
         say_prompt (t\<lparr>command_buffer := []\<rparr>)
       })"
    using shell_line_executed[OF assms(5,6,4), of run_test] unfolding l_def by blast
  then show ?thesis using k by blast
qed

text \<open>The keys \<open>c\<close>, \<open>l\<close>, backspace, \<open>d\<close> and Enter.\<close>

theorem keys_run_command_witness:
  "\<exists>k' c. keyboard_run [0x2E, 0x26, 0x0E, 0x20, 0x1C] (keyboard_enable_shell sample_keyboard) = Some k' \<and>
    shell_run (\<lambda>t s. Some s) [99, 108, 8, 100, 10] sample_shell =
      (do { t \<leftarrow> cmd_cd None (sample_shell\<lparr>command_buffer := cstr ''cd'', sh_con := c\<rparr>);
            say_prompt (t\<lparr>command_buffer := []\<rparr>) })"
proof -
  let ?k = "keyboard_enable_shell sample_keyboard"
  have k: "kb_inv ?k" "shell_mode ?k"
    by (simp_all add: sample_keyboard_def keyboard_init_def keyboard_enable_shell_def kb_inv_def)
  have t: "typed [0x2E, 0x26, 0x0E, 0x20, 0x1C] (modifiers ?k) = [99, 108, 8, 100] @ [10]"
    by (simp add: key_event_def modifiers_def sample_keyboard_def keyboard_init_def keyboard_enable_shell_def
      scancode_to_ascii_def cstr_def)
  have e: "edit [99, 108, 8, 100] [] = cstr ''cd''" by (simp add: edit_def edit_key_def)
  have "shell_dispatch (\<lambda>t s. Some s) (cstr ''cd'') s = cmd_cd None s" for s :: "(unit, unit) shell"
    by (simp add: shell_dispatch_def)
  then show ?thesis
    using keys_run_command[OF k t, of sample_shell "\<lambda>t s. Some s"] on_screen_ok[OF blank_shows]
    by (simp add: e buf_string_def del: keyboard_run.simps shell_run.simps) blast
qed

end
